(* ===== verification/Prelude.thy ===== *)
theory Prelude
  imports Complex_Main "HOL-Library.Char_ord" "HOL-Library.List_Lexorder" "HOL-Library.Sublist"
    "HOL-Library.Multiset" "HOL-Library.AList"
begin

section \<open>Shared vocabulary: JavaScript strings, ordered maps and sets, stable sort\<close>

text \<open>
  The source is TypeScript.  This theory holds what every component uses of the language and
  its standard library: character classes, \<open>trim\<close>, \<open>split\<close>, \<open>join\<close>, \<open>startsWith\<close>,
  \<open>includes\<close>, \<open>toLowerCase\<close>, decimal printing and reading, \<open>Map\<close> and \<open>Set\<close> with their
  insertion order, and the stable \<open>Array.prototype.toSorted\<close>.  A string is a \<^typ>\<open>string\<close>, that is,
  a list of code units below 256 (Latin-1); \<open>length\<close> is therefore the \<open>.length\<close> of the source,
  and \<open><\<close> on strings is the source's comparison by code units.
\<close>

named_theorems js_simps \<open>evaluation rules of the JavaScript primitives\<close>

subsection \<open>Character classes\<close>

definition code_unit :: "char \<Rightarrow> nat" where
  "code_unit c = of_char c"

abbreviation newline :: char where "newline \<equiv> CHR 0x0A"
abbreviation tab_char :: char where "tab_char \<equiv> CHR 0x09"

definition is_digit :: "char \<Rightarrow> bool" where
  "is_digit c \<longleftrightarrow> 48 \<le> code_unit c \<and> code_unit c \<le> 57"

definition is_upper :: "char \<Rightarrow> bool" where
  "is_upper c \<longleftrightarrow> 65 \<le> code_unit c \<and> code_unit c \<le> 90"

definition is_lower :: "char \<Rightarrow> bool" where
  "is_lower c \<longleftrightarrow> 97 \<le> code_unit c \<and> code_unit c \<le> 122"

definition is_alnum :: "char \<Rightarrow> bool" where
  "is_alnum c \<longleftrightarrow> is_digit c \<or> is_upper c \<or> is_lower c"

text \<open>The class \<open>\w\<close> of a regular expression.\<close>

definition is_word_char :: "char \<Rightarrow> bool" where
  "is_word_char c \<longleftrightarrow> is_alnum c \<or> code_unit c = 95"

text \<open>The class \<open>\s\<close>, also what \<open>trim\<close> removes: tab, line feed, vertical tab, form feed,
  carriage return, space, no-break space.\<close>

definition is_space :: "char \<Rightarrow> bool" where
  "is_space c \<longleftrightarrow> (9 \<le> code_unit c \<and> code_unit c \<le> 13) \<or> code_unit c = 32 \<or> code_unit c = 160"

definition lower_char :: "char \<Rightarrow> char" where
  "lower_char c = (let n = code_unit c in
     if (65 \<le> n \<and> n \<le> 90) \<or> (192 \<le> n \<and> n \<le> 222 \<and> n \<noteq> 215) then char_of (n + 32) else c)"

definition js_lower :: "string \<Rightarrow> string" where
  "js_lower s = map lower_char s"

lemma code_unit_char_of [simp]: "n < 256 \<Longrightarrow> code_unit (char_of n) = n"
  by (simp add: code_unit_def)

lemma code_unit_less [simp]: "code_unit c < 256"
  by (simp add: code_unit_def)

lemma code_unit_inject: "code_unit c = code_unit d \<longleftrightarrow> c = d"
  by (simp add: code_unit_def)

lemma char_of_eq_code [js_simps]: "n < 256 \<Longrightarrow> (char_of n = c) = (code_unit c = n)"
  by (auto simp: code_unit_def)

lemma char_of_eq_code' [js_simps]: "n < 256 \<Longrightarrow> (c = char_of n) = (code_unit c = n)"
  by (auto simp: code_unit_def)

lemma lower_char_idem [simp]: "lower_char (lower_char c) = lower_char c"
proof (cases "(65 \<le> code_unit c \<and> code_unit c \<le> 90) \<or> (192 \<le> code_unit c \<and> code_unit c \<le> 222 \<and> code_unit c \<noteq> 215)")
  case True
  then have "code_unit c + 32 < 256" by auto
  with True show ?thesis by (auto simp: lower_char_def Let_def)
next
  case False
  then show ?thesis by (auto simp: lower_char_def Let_def)
qed

lemma js_lower_idem [simp]: "js_lower (js_lower s) = js_lower s"
  by (simp add: js_lower_def comp_def)

lemma length_js_lower [simp]: "length (js_lower s) = length s"
  by (simp add: js_lower_def)

lemma js_lower_append [simp]: "js_lower (s @ t) = js_lower s @ js_lower t"
  by (simp add: js_lower_def)

lemma lower_char_id: "is_digit c \<or> is_lower c \<Longrightarrow> lower_char c = c"
  by (auto simp: lower_char_def Let_def is_digit_def is_lower_def)

subsection \<open>String operations\<close>

definition js_trim_start :: "string \<Rightarrow> string" where
  "js_trim_start s = dropWhile is_space s"

definition js_trim :: "string \<Rightarrow> string" where
  "js_trim s = rev (dropWhile is_space (rev (dropWhile is_space s)))"

definition js_starts_with :: "string \<Rightarrow> string \<Rightarrow> bool" where
  "js_starts_with s p \<longleftrightarrow> take (length p) s = p"

definition js_ends_with :: "string \<Rightarrow> string \<Rightarrow> bool" where
  "js_ends_with s p \<longleftrightarrow> js_starts_with (rev s) (rev p)"

fun js_includes :: "string \<Rightarrow> string \<Rightarrow> bool" where
  "js_includes [] p = (p = [])"
| "js_includes (c # s) p = (js_starts_with (c # s) p \<or> js_includes s p)"

text \<open>\<open>s.slice(i, j)\<close> for \<open>0 \<le> i\<close>, \<open>0 \<le> j\<close>.\<close>

definition slice :: "'a list \<Rightarrow> nat \<Rightarrow> nat \<Rightarrow> 'a list" where
  "slice xs i j = take (j - i) (drop i xs)"

text \<open>\<open>s.split(c)\<close> for a one-character separator, and \<open>xs.join(sep)\<close>.\<close>

fun split_on :: "'a \<Rightarrow> 'a list \<Rightarrow> 'a list list" where
  "split_on c [] = [[]]"
| "split_on c (x # xs) =
     (if x = c then [] # split_on c xs
      else (case split_on c xs of [] \<Rightarrow> [[x]] | y # ys \<Rightarrow> (x # y) # ys))"

fun join :: "'a list \<Rightarrow> 'a list list \<Rightarrow> 'a list" where
  "join sep [] = []"
| "join sep [x] = x"
| "join sep (x # y # ys) = x @ sep @ join sep (y # ys)"

fun pad_start :: "nat \<Rightarrow> char \<Rightarrow> string \<Rightarrow> string" where
  "pad_start n c s = replicate (n - length s) c @ s"

text \<open>A nullable string, read as the empty string when it is missing: \<open>if (s)\<close> holds exactly when the
  result is not empty.\<close>

definition text_of :: "string option \<Rightarrow> string" where
  "text_of s = (case s of Some t \<Rightarrow> t | None \<Rightarrow> [])"

lemma text_of_simps [simp]: "text_of None = []" "text_of (Some s) = s"
  by (simp_all add: text_of_def)

lemma split_on_ne [simp]: "split_on c xs \<noteq> []"
  by (induction xs) (auto split: list.splits)

lemma join_Cons: "ys \<noteq> [] \<Longrightarrow> join sep (x # ys) = x @ sep @ join sep ys"
  by (cases ys) auto

lemma join_split_on [simp]: "join [c] (split_on c xs) = xs"
proof (induction xs)
  case (Cons x xs)
  obtain y ys where s: "split_on c xs = y # ys" by (cases "split_on c xs") auto
  show ?case
  proof (cases "x = c")
    case True
    then show ?thesis using Cons by (simp add: join_Cons)
  next
    case False
    then show ?thesis using Cons s by (cases ys) auto
  qed
qed simp

lemma split_on_no_sep [simp]: "c \<notin> set xs \<Longrightarrow> split_on c xs = [xs]"
  by (induction xs) auto

lemma split_on_append: "c \<notin> set xs \<Longrightarrow> split_on c (xs @ c # ys) = xs # split_on c ys"
  by (induction xs) auto

lemma split_on_join:
  "xss \<noteq> [] \<Longrightarrow> \<forall>xs \<in> set xss. c \<notin> set xs \<Longrightarrow> split_on c (join [c] xss) = xss"
proof (induction xss)
  case (Cons x xss)
  then show ?case by (cases xss) (auto simp: split_on_append)
qed simp

lemma split_on_no_sep_inside: "x \<in> set (split_on c xs) \<Longrightarrow> c \<notin> set x"
proof (induction xs arbitrary: x)
  case (Cons a xs)
  obtain y ys where "split_on c xs = y # ys" by (cases "split_on c xs") auto
  then show ?case using Cons by (auto split: if_splits)
qed simp

lemma length_slice [simp]: "i \<le> j \<Longrightarrow> j \<le> length xs \<Longrightarrow> length (slice xs i j) = j - i"
  by (simp add: slice_def)

lemma slice_append_slice:
  "i \<le> j \<Longrightarrow> j \<le> k \<Longrightarrow> slice xs i j @ slice xs j k = slice xs i k"
proof -
  assume ij: "i \<le> j" and jk: "j \<le> k"
  obtain a where a: "j = i + a" using ij le_Suc_ex by blast
  obtain b where b: "k = j + b" using jk le_Suc_ex by blast
  show ?thesis by (simp add: slice_def a b take_add add.assoc) (simp add: add.commute)
qed

lemma slice_self [simp]: "slice xs i i = []"
  by (simp add: slice_def)

lemma slice_all [simp]: "slice xs 0 (length xs) = xs"
  by (simp add: slice_def)

lemma js_starts_with_prefix: "js_starts_with s p \<longleftrightarrow> prefix p s"
  unfolding js_starts_with_def prefix_def by (metis append_eq_conv_conj append_take_drop_id)

lemma js_ends_with_suffix: "js_ends_with s p \<longleftrightarrow> suffix p s"
  by (simp add: js_ends_with_def js_starts_with_prefix suffix_to_prefix)

lemma js_includes_sublist: "js_includes s p \<longleftrightarrow> sublist p s"
proof (induction s)
  case (Cons c s)
  then show ?case by (simp add: js_starts_with_prefix sublist_Cons_right)
qed simp

lemma dropWhile_hd_id: "xs \<noteq> [] \<Longrightarrow> \<not> P (hd xs) \<Longrightarrow> dropWhile P xs = xs"
  by (cases xs) auto

lemma js_trim_no_space:
  "s \<noteq> [] \<Longrightarrow> \<not> is_space (hd s) \<Longrightarrow> \<not> is_space (last s) \<Longrightarrow> js_trim s = s"
  by (simp add: js_trim_def dropWhile_hd_id hd_rev)

lemma js_trim_Nil [simp]: "js_trim [] = []"
  by (simp add: js_trim_def)

lemma js_trim_id: "\<forall>c \<in> set s. \<not> is_space c \<Longrightarrow> js_trim s = s"
  by (cases "s = []") (auto intro!: js_trim_no_space)

lemma set_js_trim: "set (js_trim s) \<subseteq> set s"
  unfolding js_trim_def by (auto dest!: set_dropWhileD)

lemma js_trim_idem [simp]: "js_trim (js_trim s) = js_trim s"
proof (cases "js_trim s = []")
  case False
  let ?d = "dropWhile is_space s"
  let ?e = "dropWhile is_space (rev ?d)"
  have ne: "?e \<noteq> []" using False by (simp add: js_trim_def)
  have l: "\<not> is_space (hd ?e)" using hd_dropWhile [of is_space "rev ?d"] ne by auto
  have dne: "?d \<noteq> []" using ne by (metis dropWhile.simps(1) rev.simps(1))
  have "suffix ?e (rev ?d)" by (rule suffix_dropWhile)
  then have "last ?e = last (rev ?d)" using ne by (metis last_appendR suffix_def)
  then have "last ?e = hd ?d" using dne by (simp add: last_rev)
  moreover have "\<not> is_space (hd ?d)" using hd_dropWhile [of is_space s] dne by auto
  ultimately have "\<not> is_space (last ?e)" by simp
  with l ne show ?thesis
    by (simp add: js_trim_def hd_rev last_rev js_trim_no_space [unfolded js_trim_def])
qed simp

subsection \<open>\<open>Map\<close> and \<open>Set\<close> in insertion order\<close>

text \<open>
  A JavaScript \<open>Map\<close> iterates in insertion order and \<open>set\<close> on a present key keeps its place:
  that is \<^const>\<open>AList.update\<close>, with \<^const>\<open>map_of\<close> as \<open>get\<close>.  A \<open>Set\<close> is a distinct list.
\<close>

definition oset_add :: "'a \<Rightarrow> 'a list \<Rightarrow> 'a list" where
  "oset_add x xs = (if x \<in> set xs then xs else xs @ [x])"

definition oset_of :: "'a list \<Rightarrow> 'a list" where
  "oset_of xs = fold oset_add xs []"

text \<open>The idiom \<open>const list = m.get(k) ?? []; list.push(v); m.set(k, list)\<close>.\<close>

definition om_push :: "'k \<Rightarrow> 'v \<Rightarrow> ('k \<times> 'v list) list \<Rightarrow> ('k \<times> 'v list) list" where
  "om_push k v m = AList.update k ((case map_of m k of None \<Rightarrow> [] | Some l \<Rightarrow> l) @ [v]) m"

definition group_by :: "('a \<Rightarrow> 'k) \<Rightarrow> 'a list \<Rightarrow> ('k \<times> 'a list) list" where
  "group_by key xs = fold (\<lambda>x m. om_push (key x) x m) xs []"

lemma set_oset_add [simp]: "set (oset_add x xs) = insert x (set xs)"
  by (auto simp: oset_add_def)

lemma distinct_oset_add [simp]: "distinct (oset_add x xs) \<longleftrightarrow> distinct xs"
  by (auto simp: oset_add_def)

lemma set_fold_oset_add [simp]: "set (fold oset_add xs ys) = set xs \<union> set ys"
  by (induction xs arbitrary: ys) auto

lemma distinct_fold_oset_add [simp]: "distinct (fold oset_add xs ys) \<longleftrightarrow> distinct ys"
  by (induction xs arbitrary: ys) auto

lemma set_oset_of [simp]: "set (oset_of xs) = set xs"
  by (simp add: oset_of_def)

lemma distinct_oset_of [simp]: "distinct (oset_of xs)"
  by (simp add: oset_of_def)

lemma dom_map_of_fst: "x \<in> fst ` set m \<longleftrightarrow> map_of m x \<noteq> None"
  by (simp add: map_of_eq_None_iff)

lemma map_of_om_push:
  "map_of (om_push k v m) k' =
     (if k' = k then Some ((case map_of m k of None \<Rightarrow> [] | Some l \<Rightarrow> l) @ [v]) else map_of m k')"
  by (simp add: om_push_def update_conv')

lemma distinct_om_push [simp]: "distinct (map fst m) \<Longrightarrow> distinct (map fst (om_push k v m))"
  by (simp add: om_push_def distinct_update)

lemma distinct_fold_om_push:
  "distinct (map fst m) \<Longrightarrow> distinct (map fst (fold (\<lambda>x m. om_push (key x) x m) xs m))"
  by (induction xs arbitrary: m) auto

lemma map_of_fold_om_push:
  "map_of (fold (\<lambda>x m. om_push (key x) x m) xs m) k =
     (case map_of m k of
        None \<Rightarrow> (if k \<in> key ` set xs then Some (filter (\<lambda>x. key x = k) xs) else None)
      | Some l \<Rightarrow> Some (l @ filter (\<lambda>x. key x = k) xs))"
  by (induction xs arbitrary: m) (auto simp: map_of_om_push split: option.splits)

lemma distinct_group_by [simp]: "distinct (map fst (group_by key xs))"
  by (simp add: group_by_def distinct_fold_om_push)

lemma map_of_group_by:
  "map_of (group_by key xs) k =
     (if k \<in> key ` set xs then Some (filter (\<lambda>x. key x = k) xs) else None)"
  by (simp add: group_by_def map_of_fold_om_push)

lemma group_by_member:
  assumes "(k, ms) \<in> set (group_by key xs)"
  shows "ms = filter (\<lambda>x. key x = k) xs" and "ms \<noteq> []"
proof -
  have "map_of (group_by key xs) k = Some ms"
    using assms by (simp add: map_of_eq_Some_iff)
  then have k: "k \<in> key ` set xs" and ms: "ms = filter (\<lambda>x. key x = k) xs"
    by (auto simp: map_of_group_by split: if_splits)
  from ms show "ms = filter (\<lambda>x. key x = k) xs" .
  from k ms show "ms \<noteq> []" by (auto simp: filter_empty_conv)
qed

lemma filter_mset_disjoint:
  assumes "\<And>i. i \<in># R \<Longrightarrow> i \<notin># M"
  shows "filter_mset (\<lambda>i. i \<notin># M) (M + R) = R"
proof -
  have "filter_mset (\<lambda>i. i \<notin># M) M = {#}" by (simp add: multiset_eq_iff not_in_iff)
  moreover have "filter_mset (\<lambda>i. i \<notin># M) R = filter_mset (\<lambda>_. True) R"
    using assms by (intro filter_mset_cong) auto
  ultimately show ?thesis by simp
qed

lemma mset_update_shrink:
  "map_of m k = Some (x # xs) \<Longrightarrow>
     mset (concat (map snd m)) = add_mset x (mset (concat (map snd (AList.update k xs m))))"
  by (induction m) (auto split: if_splits)

lemma mset_om_push: "mset (concat (map snd (om_push k v m))) = add_mset v (mset (concat (map snd m)))"
proof -
  have "mset (concat (map snd (AList.update k (l @ [v]) m))) =
      add_mset v (mset (concat (map snd m)))" if "map_of m k = Some l" for l
    using that by (induction m) (auto split: if_splits)
  moreover have "mset (concat (map snd (AList.update k [v] m))) =
      add_mset v (mset (concat (map snd m)))" if "map_of m k = None"
    using that by (induction m) (auto split: if_splits)
  ultimately show ?thesis by (auto simp: om_push_def split: option.split)
qed

lemma mset_group_by: "mset (concat (map snd (group_by key xs))) = mset xs"
proof -
  have "mset (concat (map snd (fold (\<lambda>x m. om_push (key x) x m) xs m))) =
      mset (concat (map snd m)) + mset xs" for m
    by (induction xs arbitrary: m) (simp_all add: mset_om_push)
  from this [of "[]"] show ?thesis by (simp add: group_by_def)
qed

subsection \<open>Stable sort by a comparator\<close>

text \<open>\<open>xs.toSorted(cmp)\<close>: for a consistent comparator the result is determined by stability, and
  insertion from the right computes it.\<close>

fun ins_by :: "('a \<Rightarrow> 'a \<Rightarrow> int) \<Rightarrow> 'a \<Rightarrow> 'a list \<Rightarrow> 'a list" where
  "ins_by cmp x [] = [x]"
| "ins_by cmp x (y # ys) = (if cmp x y \<le> 0 then x # y # ys else y # ins_by cmp x ys)"

definition sort_by :: "('a \<Rightarrow> 'a \<Rightarrow> int) \<Rightarrow> 'a list \<Rightarrow> 'a list" where
  "sort_by cmp xs = foldr (ins_by cmp) xs []"

text \<open>The three-way comparison \<open>a < b ? -1 : a > b ? 1 : 0\<close>.\<close>

definition cmp3 :: "'a::linorder \<Rightarrow> 'a \<Rightarrow> int" where
  "cmp3 a b = (if a < b then -1 else if b < a then 1 else 0)"

text \<open>A comparator is consistent when \<open>cmp a b \<le> 0\<close> is total and transitive.\<close>

definition consistent_cmp :: "('a \<Rightarrow> 'a \<Rightarrow> int) \<Rightarrow> bool" where
  "consistent_cmp cmp \<longleftrightarrow>
     (\<forall>a b. cmp a b \<le> 0 \<or> cmp b a \<le> 0) \<and>
     (\<forall>a b c. cmp a b \<le> 0 \<longrightarrow> cmp b c \<le> 0 \<longrightarrow> cmp a c \<le> 0)"

lemma mset_ins_by [simp]: "mset (ins_by cmp x ys) = add_mset x (mset ys)"
  by (induction ys) auto

lemma mset_sort_by [simp]: "mset (sort_by cmp xs) = mset xs"
  unfolding sort_by_def by (induction xs) auto

lemma set_sort_by [simp]: "set (sort_by cmp xs) = set xs"
  by (metis mset_sort_by set_mset_mset)

lemma length_sort_by [simp]: "length (sort_by cmp xs) = length xs"
  by (metis mset_sort_by size_mset)

lemma distinct_sort_by [simp]: "distinct (sort_by cmp xs) \<longleftrightarrow> distinct xs"
  by (metis mset_sort_by mset_eq_imp_distinct_iff)

lemma distinct_map_sort_by [simp]: "distinct (map f (sort_by cmp xs)) \<longleftrightarrow> distinct (map f xs)"
  by (metis mset_sort_by mset_eq_imp_distinct_iff mset_map)

lemma sort_by_eq_Nil [simp]: "sort_by cmp xs = [] \<longleftrightarrow> xs = []"
  by (metis length_0_conv length_sort_by)

lemma set_ins_by [simp]: "set (ins_by cmp x ys) = insert x (set ys)"
  by (induction ys) auto

lemma sorted_ins_by:
  assumes "consistent_cmp cmp" and "sorted_wrt (\<lambda>a b. cmp a b \<le> 0) ys"
  shows "sorted_wrt (\<lambda>a b. cmp a b \<le> 0) (ins_by cmp x ys)"
  using assms(2)
proof (induction ys)
  case (Cons y ys)
  have tot: "cmp x y \<le> 0 \<or> cmp y x \<le> 0" and
    tr: "\<And>a b c. cmp a b \<le> 0 \<Longrightarrow> cmp b c \<le> 0 \<Longrightarrow> cmp a c \<le> 0"
    using assms(1) unfolding consistent_cmp_def by blast+
  show ?case using Cons tot tr by (auto intro: tr)
qed simp

lemma sorted_sort_by: "consistent_cmp cmp \<Longrightarrow> sorted_wrt (\<lambda>a b. cmp a b \<le> 0) (sort_by cmp xs)"
  unfolding sort_by_def by (induction xs) (auto intro: sorted_ins_by)

lemma cmp3_le [simp]: "cmp3 a b \<le> 0 \<longleftrightarrow> a \<le> b"
  by (auto simp: cmp3_def)

lemma consistent_cmp3: "consistent_cmp (\<lambda>a b. cmp3 (f a) (f b))"
  by (auto simp: consistent_cmp_def)

lemma sort_by_cmp3: "sort_by (\<lambda>a b. cmp3 (f a) (f b)) xs = sort_key f xs"
proof -
  have "ins_by (\<lambda>a b. cmp3 (f a) (f b)) x ys = insort_key f x ys" for x ys
    by (induction ys) auto
  then show ?thesis by (induction xs) (simp_all add: sort_by_def)
qed

lemma sort_by_cong:
  assumes "distinct xs" and "\<And>x y. x \<in> set xs \<Longrightarrow> y \<in> set xs \<Longrightarrow> x \<noteq> y \<Longrightarrow> c x y \<le> 0 \<longleftrightarrow> d x y \<le> 0"
  shows "sort_by c xs = sort_by d xs"
proof -
  have ins: "ins_by c x ys = ins_by d x ys" if "\<And>y. y \<in> set ys \<Longrightarrow> c x y \<le> 0 \<longleftrightarrow> d x y \<le> 0" for x ys
    using that by (induction ys) auto
  show ?thesis using assms
  proof (induction xs)
    case (Cons x xs)
    have "sort_by c xs = sort_by d xs" using Cons by auto
    moreover have "ins_by c x (sort_by d xs) = ins_by d x (sort_by d xs)"
      using Cons.prems by (intro ins) auto
    ultimately show ?case by (simp add: sort_by_def)
  qed (simp add: sort_by_def)
qed

lemma sort_key_append:
  assumes "\<And>x y. x \<in> set xs \<Longrightarrow> y \<in> set ys \<Longrightarrow> f x < f y"
    and "mset zs = mset (xs @ ys)" and "\<And>k. filter (\<lambda>x. f x = k) zs = filter (\<lambda>x. f x = k) (xs @ ys)"
  shows "sort_key f zs = sort_key f xs @ sort_key f ys"
proof (rule properties_for_sort_key)
  show "mset (sort_key f xs @ sort_key f ys) = mset zs" using assms(2) by simp
  show "filter (\<lambda>x. f k = f x) (sort_key f xs @ sort_key f ys) = filter (\<lambda>x. f k = f x) zs" for k
    using assms(3) [of "f k"] by (simp add: eq_commute [of "f k"] sort_key_stable)
  show "sorted (map f (sort_key f xs @ sort_key f ys))"
    using assms(1) by (auto simp: sorted_append intro: less_imp_le)
qed

subsection \<open>Batches\<close>

text \<open>The loop \<open>for (let i = 0; i < xs.length; i += n) use(xs.slice(i, i + n))\<close> visits these pieces.\<close>

function slices :: "nat \<Rightarrow> 'a list \<Rightarrow> 'a list list" where
  "slices n xs = (if n = 0 \<or> xs = [] then [] else take n xs # slices n (drop n xs))"
  by pat_completeness auto
termination by (relation "measure (\<lambda>(n, xs). length xs)") auto

declare slices.simps [simp del]

lemma concat_slices [simp]: "0 < n \<Longrightarrow> concat (slices n xs) = xs"
  by (induction n xs rule: slices.induct) (subst slices.simps, auto)

lemma slices_length: "ys \<in> set (slices n xs) \<Longrightarrow> ys \<noteq> [] \<and> length ys \<le> n"
  by (induction n xs rule: slices.induct) (subst (asm) (2) slices.simps, auto split: if_splits)

lemma fold_slices:
  assumes "0 < n"
  shows "fold (\<lambda>ys a. fold f ys a) (slices n xs) a = fold f xs a"
proof -
  have "fold (\<lambda>ys a. fold f ys a) yss a = fold f (concat yss) a" for yss
    by (induction yss arbitrary: a) auto
  then show ?thesis using assms by simp
qed

subsection \<open>Numbers\<close>

text \<open>
  A JavaScript number: \<open>NaN\<close>, the infinities, or a finite value.  Finite values are exact
  rationals; the rounding of a double beyond 53 bits is not modelled, its overflow to infinity is.
\<close>

datatype jsnum = NaN | PosInf | NegInf | Fin rat

definition is_finite :: "jsnum \<Rightarrow> bool" where
  "is_finite x = (case x of Fin _ \<Rightarrow> True | _ \<Rightarrow> False)"

fun nat_to_dec :: "nat \<Rightarrow> string" where
  "nat_to_dec n =
     (if n < 10 then [char_of (48 + n)] else nat_to_dec (n div 10) @ [char_of (48 + n mod 10)])"

declare nat_to_dec.simps [simp del]

definition digit_val :: "char \<Rightarrow> nat" where
  "digit_val c = code_unit c - 48"

definition dec_to_nat :: "string \<Rightarrow> nat" where
  "dec_to_nat s = foldl (\<lambda>n c. 10 * n + digit_val c) 0 s"

definition int_to_dec :: "int \<Rightarrow> string" where
  "int_to_dec i = (if i < 0 then CHR ''-'' # nat_to_dec (nat (- i)) else nat_to_dec (nat i))"

lemma digit_val_char_of [simp]: "n < 10 \<Longrightarrow> digit_val (char_of (48 + n)) = n"
  by (simp add: digit_val_def)

lemma dec_to_nat_snoc [simp]: "dec_to_nat (s @ [c]) = 10 * dec_to_nat s + digit_val c"
  by (simp add: dec_to_nat_def)

lemma dec_to_nat_Nil [simp]: "dec_to_nat [] = 0"
  by (simp add: dec_to_nat_def)

lemma dec_to_nat_to_dec [simp]: "dec_to_nat (nat_to_dec n) = n"
proof (induction n rule: nat_to_dec.induct)
  case (1 n)
  show ?case
  proof (cases "n < 10")
    case True
    then have "dec_to_nat ([] @ [char_of (48 + n)]) = n" by (simp only: dec_to_nat_snoc) simp
    with True show ?thesis by (simp add: nat_to_dec.simps [of n])
  next
    case False
    then show ?thesis using 1 by (simp add: nat_to_dec.simps [of n])
  qed
qed

lemma nat_to_dec_digits: "c \<in> set (nat_to_dec n) \<Longrightarrow> is_digit c"
proof (induction n rule: nat_to_dec.induct)
  case (1 n)
  then show ?case
    by (cases "n < 10") (auto simp: nat_to_dec.simps [of n] is_digit_def)
qed

lemma nat_to_dec_ne [simp]: "nat_to_dec n \<noteq> []"
  by (subst nat_to_dec.simps) simp

lemma inj_nat_to_dec: "nat_to_dec m = nat_to_dec n \<longleftrightarrow> m = n"
  by (metis dec_to_nat_to_dec)

lemma dec_to_nat_Cons: "dec_to_nat (c # s) = digit_val c * 10 ^ length s + dec_to_nat s"
proof (induction s rule: rev_induct)
  case (snoc d s)
  have "dec_to_nat (c # s @ [d]) = 10 * dec_to_nat (c # s) + digit_val d"
    using dec_to_nat_snoc [of "c # s"] by simp
  with snoc show ?case by (simp add: algebra_simps)
qed (simp add: dec_to_nat_def)

lemma digit_val_less: "is_digit c \<Longrightarrow> digit_val c < 10"
  by (auto simp: is_digit_def digit_val_def)

lemma dec_to_nat_less: "list_all is_digit s \<Longrightarrow> dec_to_nat s < 10 ^ length s"
proof (induction s)
  case (Cons c s)
  then have "digit_val c * 10 ^ length s + dec_to_nat s < (digit_val c + 1) * 10 ^ length s" by simp
  also have "\<dots> \<le> 10 * 10 ^ length s"
    using Cons.prems digit_val_less [of c] by (intro mult_le_mono1) simp
  finally show ?case by (simp add: dec_to_nat_Cons)
qed simp

lemma less_char_code: "c < d \<longleftrightarrow> code_unit c < code_unit d"
  by (simp add: less_char_def code_unit_def)

lemma digit_less: "is_digit c \<Longrightarrow> is_digit d \<Longrightarrow> c < d \<longleftrightarrow> digit_val c < digit_val d"
  by (auto simp: is_digit_def digit_val_def less_char_code)

text \<open>Decimal strings of one length compare by code units as their numbers do.\<close>

lemma dec_less:
  "length s = length t \<Longrightarrow> list_all is_digit s \<Longrightarrow> list_all is_digit t \<Longrightarrow>
     s < t \<longleftrightarrow> dec_to_nat s < dec_to_nat t"
proof (induction s t rule: list_induct2)
  case (Cons c s d t)
  let ?k = "10 ^ length t"
  have b: "dec_to_nat s < ?k" "dec_to_nat t < ?k"
    using Cons dec_to_nat_less by fastforce+
  have lt: "a * ?k + u < b * ?k + v" if "a < b" "u < ?k" for a b u v :: nat
  proof -
    have "(a + 1) * ?k \<le> b * ?k" using that(1) by (intro mult_le_mono1) simp
    with that(2) show ?thesis by simp
  qed
  have eq: "c = d" if "digit_val c = digit_val d"
    using that Cons.prems by (auto simp: digit_val_def is_digit_def code_unit_inject [symmetric])
  consider "digit_val c < digit_val d" | "digit_val d < digit_val c" | "c = d" using eq by linarith
  then show ?case
  proof cases
    case 1
    with Cons.prems lt [OF 1 b(1), of "dec_to_nat t"] show ?thesis
      using Cons.hyps by (simp add: dec_to_nat_Cons digit_less)
  next
    case 2
    with Cons.prems lt [OF 2 b(2), of "dec_to_nat s"] show ?thesis
      using Cons.hyps digit_less [of c d] by (auto simp: dec_to_nat_Cons)
  next
    case 3
    then show ?thesis using Cons by (simp add: dec_to_nat_Cons)
  qed
qed simp

lemma append_less:
  "length s = length t \<Longrightarrow> s @ u < t @ v \<longleftrightarrow> s < t \<or> s = t \<and> u < v" for s t u v :: "'a::linorder list"
  by (induction s t rule: list_induct2) auto

lemma length_nat_to_dec: "n < 10 ^ k \<Longrightarrow> 0 < k \<Longrightarrow> length (nat_to_dec n) \<le> k"
proof (induction n arbitrary: k rule: nat_to_dec.induct)
  case (1 n)
  show ?case
  proof (cases "n < 10")
    case False
    from False "1.prems" have "1 < k" by (cases "k = 1") auto
    then obtain j where k: "k = Suc j" "0 < j" by (cases k) auto
    then have "n div 10 < 10 ^ j" using "1.prems"(1) by simp
    with 1(1) [OF False this k(2)] k show ?thesis by (simp add: nat_to_dec.simps [of n] False)
  qed (use 1 in \<open>simp add: nat_to_dec.simps [of n]\<close>)
qed

lemma dec_to_nat_zeros: "dec_to_nat (replicate k CHR ''0'' @ s) = dec_to_nat s"
  by (induction k) (simp_all add: dec_to_nat_Cons digit_val_def code_unit_def)

text \<open>\<open>Number(s)\<close> on a decimal literal: sign, digits, fraction, exponent, or \<open>Infinity\<close>; the
  empty (or blank) string is 0 and every other shape is \<open>NaN\<close>.  Hexadecimal, octal and binary
  literals (\<open>0x\<close>, \<open>0o\<close>, \<open>0b\<close>) are read as well.\<close>

definition pow10 :: "int \<Rightarrow> rat" where
  "pow10 e = (if 0 \<le> e then 10 ^ nat e else 1 / 10 ^ nat (- e))"

definition num_exponent :: "string \<Rightarrow> int option" where
  "num_exponent s = (case s of [] \<Rightarrow> Some 0
     | c # r \<Rightarrow>
         if c = CHR ''e'' \<or> c = CHR ''E'' then
           (let neg = (case r of d # _ \<Rightarrow> d = CHR ''-'' | [] \<Rightarrow> False);
                ds = (case r of d # r' \<Rightarrow> if d = CHR ''-'' \<or> d = CHR ''+'' then r' else r | [] \<Rightarrow> [])
            in if ds \<noteq> [] \<and> list_all is_digit ds
               then Some (if neg then - int (dec_to_nat ds) else int (dec_to_nat ds)) else None)
         else None)"

definition num_unsigned :: "string \<Rightarrow> rat option" where
  "num_unsigned s =
     (let ip = takeWhile is_digit s; r = dropWhile is_digit s;
          fp = (case r of c # r' \<Rightarrow> if c = CHR ''.'' then takeWhile is_digit r' else [] | [] \<Rightarrow> []);
          r2 = (case r of c # r' \<Rightarrow> if c = CHR ''.'' then dropWhile is_digit r' else r | [] \<Rightarrow> [])
      in if ip = [] \<and> fp = [] then None
         else (case num_exponent r2 of None \<Rightarrow> None
               | Some e \<Rightarrow> Some (of_nat (dec_to_nat (ip @ fp)) * pow10 (e - int (length fp)))))"

text \<open>A decimal at or above \<open>2 ^ 1024 - 2 ^ 970\<close> rounds to infinity.\<close>

definition max_finite :: rat where
  "max_finite = 179769313486231580793728971405303415079934132710037826936173778980444968292764750946649017977587207096330286416692887910946555547851940402630657488671505820681908902000708383676273854845817711531764475730270069855571366959622842914819860834936475292719074168444365510704342711559699508093042880177904174497792"

lemma max_finite_eq: "max_finite = 2 ^ 1024 - 2 ^ 970"
  by (simp add: max_finite_def)

definition num_of_rat :: "rat \<Rightarrow> jsnum" where
  "num_of_rat r = (if max_finite \<le> r then PosInf else if r \<le> - max_finite then NegInf else Fin r)"

definition radix_digit :: "char \<Rightarrow> nat" where
  "radix_digit c = (if is_digit c then digit_val c
     else if is_lower c then code_unit c - 87 else if is_upper c then code_unit c - 55 else 99)"

definition radix_to_nat :: "nat \<Rightarrow> string \<Rightarrow> nat option" where
  "radix_to_nat b s = (if s \<noteq> [] \<and> list_all (\<lambda>c. radix_digit c < b) s
     then Some (foldl (\<lambda>n c. b * n + radix_digit c) 0 s) else None)"

text \<open>\<open>n.toString(16)\<close>.\<close>

definition hex_digit :: "nat \<Rightarrow> char" where
  "hex_digit n = char_of (if n < 10 then 48 + n else 87 + n)"

fun nat_to_hex :: "nat \<Rightarrow> string" where
  "nat_to_hex n = (if n < 16 then [hex_digit n] else nat_to_hex (n div 16) @ [hex_digit (n mod 16)])"

declare nat_to_hex.simps [simp del]

definition js_Number :: "string \<Rightarrow> jsnum" where
  "js_Number raw =
     (let s = js_trim raw; p = js_lower (take 2 s);
          signed = (case s of c # r \<Rightarrow> if c = CHR ''-'' \<or> c = CHR ''+'' then r else s | [] \<Rightarrow> []);
          neg = (case s of c # _ \<Rightarrow> c = CHR ''-'' | [] \<Rightarrow> False);
          radix = (if p = ''0x'' then 16 else if p = ''0o'' then 8 else if p = ''0b'' then 2 else 0)
      in if s = [] then Fin 0
         else if radix \<noteq> 0 then
           (case radix_to_nat radix (drop 2 s) of None \<Rightarrow> NaN | Some n \<Rightarrow> num_of_rat (of_nat n))
         else if signed = ''Infinity'' then (if neg then NegInf else PosInf)
         else (case num_unsigned signed of None \<Rightarrow> NaN
               | Some r \<Rightarrow> num_of_rat (if neg then - r else r)))"

lemma js_Number_digits:
  assumes "s \<noteq> []" and "list_all is_digit s" and "dec_to_nat s < 10 ^ 300"
  shows "js_Number s = Fin (of_nat (dec_to_nat s))"
proof -
  obtain c t where s: "s = c # t" using assms(1) by (cases s) auto
  have c: "is_digit c" using assms(2) s by simp
  have trim: "js_trim s = s"
    using assms(2) by (intro js_trim_id) (auto simp: list_all_iff is_digit_def is_space_def)
  have low: "js_lower (take 2 s) = take 2 s"
    using assms(2) by (auto simp: js_lower_def list_all_iff lower_char_id intro!: map_idI dest: in_set_takeD)
  have d: "list_all is_digit (take 2 s)" using assms(2) by (auto simp: list_all_iff dest: in_set_takeD)
  have radix: "take 2 s \<noteq> ''0x''" "take 2 s \<noteq> ''0o''" "take 2 s \<noteq> ''0b''"
    using d by (auto simp: is_digit_def code_unit_def)
  have sign: "c \<noteq> CHR ''-''" "c \<noteq> CHR ''+''" "s \<noteq> ''Infinity''"
    using c s by (auto simp: is_digit_def code_unit_def)
  have w: "takeWhile is_digit s = s" "dropWhile is_digit s = []"
    using assms(2) by (simp_all add: list_all_iff)
  have "num_unsigned s = Some (of_nat (dec_to_nat s))"
    using assms(1) by (simp add: num_unsigned_def w num_exponent_def pow10_def)
  moreover have "(of_nat (dec_to_nat s) :: rat) < max_finite"
  proof -
    have "(of_nat (dec_to_nat s) :: rat) < of_nat (10 ^ 300)" using assms(3) by (simp only: of_nat_less_iff)
    also have "\<dots> \<le> max_finite" by (simp add: max_finite_def)
    finally show ?thesis .
  qed
  moreover have "- max_finite < (of_nat (dec_to_nat s) :: rat)"
  proof -
    have "- max_finite < 0" by (simp add: max_finite_def)
    also have "0 \<le> (of_nat (dec_to_nat s) :: rat)" by simp
    finally show ?thesis .
  qed
  moreover have "(case s of c # r \<Rightarrow> if c = CHR ''-'' \<or> c = CHR ''+'' then r else s | [] \<Rightarrow> []) = s"
    and "(case s of c # _ \<Rightarrow> c = CHR ''-'' | [] \<Rightarrow> False) = False"
    using sign s by simp_all
  ultimately show ?thesis
    using assms(1) radix sign(3)
    by (simp only: js_Number_def Let_def trim low num_of_rat_def if_False option.case simp_thms refl not_le split: if_split)
      auto
qed

lemma js_Number_dec: "n < 10 ^ 300 \<Longrightarrow> js_Number (replicate k CHR ''0'' @ nat_to_dec n) = Fin (of_nat n)"
proof -
  assume n: "n < 10 ^ 300"
  have "is_digit CHR ''0''" by (simp add: is_digit_def code_unit_def)
  then have "list_all is_digit (replicate k CHR ''0'' @ nat_to_dec n)"
    by (auto simp: list_all_iff nat_to_dec_digits)
  with n show ?thesis
    using js_Number_digits [of "replicate k CHR ''0'' @ nat_to_dec n"] by (simp add: dec_to_nat_zeros)
qed

end
