(* ===== verification/Regex.thy ===== *)
theory Regex
  imports Prelude
begin

section \<open>Backtracking regular expressions\<close>

text \<open>
  The source matches with JavaScript regular expressions.  \<open>rm r st\<close> lists every way the expression
  can match at a position, in the order the backtracking matcher of ECMAScript tries them: the left
  branch of an alternative first, greedy repetition longest first, lazy repetition shortest first,
  and an iteration of a repetition must consume something.  \<open>exec\<close> takes the first match at the
  leftmost position.  A position is the text before it (reversed) and the text after it.
\<close>

datatype re =
    Cls "char \<Rightarrow> bool"
  | Eps
  | Seq re re
  | Alt re re
  | Star re
  | LazyStar re
  | Grp nat re
  | Bos | Eos
  | LineStart | LineEnd
  | WordB
  | NegLook re

type_synonym mstate = "string \<times> string \<times> (nat \<times> string) list"

definition at_word :: "string \<Rightarrow> bool" where
  "at_word s = (case s of c # _ \<Rightarrow> is_word_char c | [] \<Rightarrow> False)"

definition at_line_end :: "string \<Rightarrow> bool" where
  "at_line_end s = (case s of c # _ \<Rightarrow> c = newline \<or> c = CHR 0x0D | [] \<Rightarrow> True)"

fun rm :: "re \<Rightarrow> mstate \<Rightarrow> mstate list" where
  "rm (Cls P) (b, a, c) = (case a of x # a' \<Rightarrow> if P x then [(x # b, a', c)] else [] | [] \<Rightarrow> [])"
| "rm Eps st = [st]"
| "rm (Seq r1 r2) st = concat (map (\<lambda>st'. rm r2 st') (rm r1 st))"
| "rm (Alt r1 r2) st = rm r1 st @ rm r2 st"
| "rm (Star r) (b, a, c) =
     concat (map (\<lambda>(b', a', c'). if length a' < length a then rm (Star r) (b', a', c') else [])
       (rm r (b, a, c))) @ [(b, a, c)]"
| "rm (LazyStar r) (b, a, c) =
     (b, a, c) # concat (map (\<lambda>(b', a', c'). if length a' < length a then rm (LazyStar r) (b', a', c') else [])
       (rm r (b, a, c)))"
| "rm (Grp i r) (b, a, c) =
     map (\<lambda>(b', a', c'). (b', a', (i, take (length a - length a') a) # c')) (rm r (b, a, c))"
| "rm Bos (b, a, c) = (if b = [] then [(b, a, c)] else [])"
| "rm Eos (b, a, c) = (if a = [] then [(b, a, c)] else [])"
| "rm LineStart (b, a, c) = (if at_line_end b then [(b, a, c)] else [])"
| "rm LineEnd (b, a, c) = (if at_line_end a then [(b, a, c)] else [])"
| "rm WordB (b, a, c) = (if at_word b \<noteq> at_word a then [(b, a, c)] else [])"
| "rm (NegLook r) st = (if rm r st = [] then [st] else [])"

subsection \<open>Abbreviations for the notation of the source\<close>

definition chr :: "char \<Rightarrow> re" where "chr x = Cls (\<lambda>c. c = x)"
definition eq_i :: "char \<Rightarrow> char \<Rightarrow> bool" where "eq_i x c \<longleftrightarrow> lower_char c = lower_char x"
definition chr_i :: "char \<Rightarrow> re" where "chr_i x = Cls (eq_i x)"
definition lit :: "string \<Rightarrow> re" where "lit s = foldr (\<lambda>x r. Seq (chr x) r) s Eps"
definition lit_i :: "string \<Rightarrow> re" where "lit_i s = foldr (\<lambda>x r. Seq (chr_i x) r) s Eps"
definition seqs :: "re list \<Rightarrow> re" where "seqs rs = foldr Seq rs Eps"
definition alts :: "re list \<Rightarrow> re" where
  "alts rs = (case rev rs of [] \<Rightarrow> Cls (\<lambda>_. False) | r # rs' \<Rightarrow> foldl (\<lambda>acc x. Alt x acc) r rs')"
definition plus :: "re \<Rightarrow> re" where "plus r = Seq r (Star r)"
definition lazy_plus :: "re \<Rightarrow> re" where "lazy_plus r = Seq r (LazyStar r)"
definition opt :: "re \<Rightarrow> re" where "opt r = Alt r Eps"
fun upto :: "nat \<Rightarrow> re \<Rightarrow> re" where
  "upto 0 r = Eps"
| "upto (Suc n) r = Alt (Seq r (upto n r)) Eps"
definition between :: "nat \<Rightarrow> nat \<Rightarrow> re \<Rightarrow> re" where
  "between lo hi r = seqs (replicate lo r @ [upto (hi - lo) r])"
definition exactly :: "nat \<Rightarrow> re \<Rightarrow> re" where "exactly n r = seqs (replicate n r)"
definition dot :: re where "dot = Cls (\<lambda>c. c \<noteq> newline \<and> c \<noteq> CHR 0x0D)"
definition space :: re where "space = Cls is_space"
definition digit :: re where "digit = Cls is_digit"

subsection \<open>Matching, searching, replacing\<close>

definition match_at :: "re \<Rightarrow> string \<Rightarrow> string \<Rightarrow> mstate option" where
  "match_at r b a = (case rm r (b, a, []) of [] \<Rightarrow> None | st # _ \<Rightarrow> Some st)"

text \<open>\<open>re.exec(s)\<close>: the match and its groups.\<close>

fun exec_from :: "re \<Rightarrow> string \<Rightarrow> string \<Rightarrow> (string \<times> (nat \<times> string) list) option" where
  "exec_from r b [] = map_option (\<lambda>(b', a', c). ([], c)) (match_at r b [])"
| "exec_from r b (x # a) =
     (case match_at r b (x # a) of
        Some (b', a', c) \<Rightarrow> Some (take (length (x # a) - length a') (x # a), c)
      | None \<Rightarrow> exec_from r (x # b) a)"

definition exec :: "re \<Rightarrow> string \<Rightarrow> (string \<times> (nat \<times> string) list) option" where
  "exec r s = exec_from r [] s"

definition test :: "re \<Rightarrow> string \<Rightarrow> bool" where
  "test r s \<longleftrightarrow> exec r s \<noteq> None"

definition group :: "nat \<Rightarrow> (nat \<times> string) list \<Rightarrow> string" where
  "group i c = (case map_of c i of Some s \<Rightarrow> s | None \<Rightarrow> [])"

text \<open>A global scan: the characters outside the matches and the matches, in order.  An empty match
  is followed by the next character.\<close>

function scan :: "re \<Rightarrow> string \<Rightarrow> string \<Rightarrow> (char + string \<times> (nat \<times> string) list) list" where
  "scan r b a =
     (case match_at r b a of
        Some (b', a', c) \<Rightarrow>
          Inr (take (length a - length a') a, c) #
            (if length a' < length a then scan r b' a'
             else (case a of [] \<Rightarrow> [] | x # a'' \<Rightarrow> Inl x # scan r (x # b) a''))
      | None \<Rightarrow> (case a of [] \<Rightarrow> [] | x # a'' \<Rightarrow> Inl x # scan r (x # b) a''))"
  by pat_completeness auto
termination by (relation "measure (\<lambda>(r, b, a). length a)") auto

declare scan.simps [simp del]

definition match_all :: "re \<Rightarrow> string \<Rightarrow> (string \<times> (nat \<times> string) list) list" where
  "match_all r s = concat (map (\<lambda>t. case t of Inr m \<Rightarrow> [m] | Inl _ \<Rightarrow> []) (scan r [] s))"

definition replace_all :: "re \<Rightarrow> (string \<times> (nat \<times> string) list \<Rightarrow> string) \<Rightarrow> string \<Rightarrow> string" where
  "replace_all r f s = concat (map (\<lambda>t. case t of Inr m \<Rightarrow> f m | Inl x \<Rightarrow> [x]) (scan r [] s))"

lemmas rm_star = rm.simps(5,6)
declare rm_star [simp del]

text \<open>The equations without a matcher under a binder, so that evaluation stays call by value.\<close>

definition shorter :: "string \<Rightarrow> mstate \<Rightarrow> bool" where
  "shorter a st \<longleftrightarrow> length (fst (snd st)) < length a"

definition capture :: "nat \<Rightarrow> string \<Rightarrow> mstate \<Rightarrow> mstate" where
  "capture i a st = (case st of (b', a', c') \<Rightarrow> (b', a', (i, take (length a - length a') a) # c'))"

lemma rm_code [code]:
  "rm (Cls P) (b, a, c) = (case a of x # a' \<Rightarrow> if P x then [(x # b, a', c)] else [] | [] \<Rightarrow> [])"
  "rm Eps st = [st]"
  "rm (Seq r1 r2) st = concat (map (rm r2) (rm r1 st))"
  "rm (Alt r1 r2) st = rm r1 st @ rm r2 st"
  "rm (Star r) (b, a, c) = concat (map (rm (Star r)) (filter (shorter a) (rm r (b, a, c)))) @ [(b, a, c)]"
  "rm (LazyStar r) (b, a, c) = (b, a, c) # concat (map (rm (LazyStar r)) (filter (shorter a) (rm r (b, a, c))))"
  "rm (Grp i r) (b, a, c) = map (capture i a) (rm r (b, a, c))"
  "rm Bos (b, a, c) = (if b = [] then [(b, a, c)] else [])"
  "rm Eos (b, a, c) = (if a = [] then [(b, a, c)] else [])"
  "rm LineStart (b, a, c) = (if at_line_end b then [(b, a, c)] else [])"
  "rm LineEnd (b, a, c) = (if at_line_end a then [(b, a, c)] else [])"
  "rm WordB (b, a, c) = (if at_word b \<noteq> at_word a then [(b, a, c)] else [])"
  "rm (NegLook r) st = (if rm r st = [] then [st] else [])"
proof -
  have f: "concat (map (\<lambda>(b', a', c'). if length a' < length a then g (b', a', c') else []) xs) =
      concat (map g (filter (shorter a) xs))" for g :: "mstate \<Rightarrow> mstate list" and xs
    by (induction xs) (auto simp: shorter_def)
  show "rm (Star r) (b, a, c) = concat (map (rm (Star r)) (filter (shorter a) (rm r (b, a, c)))) @ [(b, a, c)]"
    by (subst rm_star) (subst f, rule refl)
  show "rm (LazyStar r) (b, a, c) = (b, a, c) # concat (map (rm (LazyStar r)) (filter (shorter a) (rm r (b, a, c))))"
    by (subst rm_star) (subst f, rule refl)
qed (simp_all add: capture_def [abs_def])

subsection \<open>What every match satisfies\<close>

text \<open>A match moves characters from after the position to before it and changes nothing else.\<close>

lemma rm_consumes:
  "(b', a', c') \<in> set (rm r (b, a, c)) \<Longrightarrow> \<exists>w. a = w @ a' \<and> b' = rev w @ b"
proof (induction r "(b, a, c)" arbitrary: b a c b' a' c' rule: rm.induct)
  case (3 r1 r2 b a c)
  then obtain b1 a1 c1 where 1: "(b1, a1, c1) \<in> set (rm r1 (b, a, c))"
    and 2: "(b', a', c') \<in> set (rm r2 (b1, a1, c1))" by auto
  from 3(1) [OF 1] obtain w1 where "a = w1 @ a1" "b1 = rev w1 @ b" by blast
  moreover from 3(2) [OF 1 2] obtain w2 where "a1 = w2 @ a'" "b' = rev w2 @ b1" by blast
  ultimately show ?case by (intro exI [of _ "w1 @ w2"]) simp
next
  case (5 r b a c)
  show ?case
  proof (cases "(b', a', c') = (b, a, c)")
    case False
    then obtain b1 a1 c1 where 1: "(b1, a1, c1) \<in> set (rm r (b, a, c))"
      and l: "length a1 < length a" and 2: "(b', a', c') \<in> set (rm (Star r) (b1, a1, c1))"
      using 5(3) by (auto simp: rm_star [of r b a c] split: if_splits)
    from 5(1) [OF 1] obtain w1 where "a = w1 @ a1" "b1 = rev w1 @ b" by blast
    moreover from 5(2) [OF 1 refl refl l 2] obtain w2 where "a1 = w2 @ a'" "b' = rev w2 @ b1"
      by blast
    ultimately show ?thesis by (intro exI [of _ "w1 @ w2"]) simp
  qed auto
next
  case (6 r b a c)
  show ?case
  proof (cases "(b', a', c') = (b, a, c)")
    case False
    then obtain b1 a1 c1 where 1: "(b1, a1, c1) \<in> set (rm r (b, a, c))"
      and l: "length a1 < length a" and 2: "(b', a', c') \<in> set (rm (LazyStar r) (b1, a1, c1))"
      using 6(3) by (auto simp: rm_star [of r b a c] split: if_splits)
    from 6(1) [OF 1] obtain w1 where "a = w1 @ a1" "b1 = rev w1 @ b" by blast
    moreover from 6(2) [OF 1 refl refl l 2] obtain w2 where "a1 = w2 @ a'" "b' = rev w2 @ b1"
      by blast
    ultimately show ?thesis by (intro exI [of _ "w1 @ w2"]) simp
  qed auto
next
  case (7 i r b a c)
  then show ?case by fastforce
qed (auto split: list.splits if_splits)

text \<open>The text survives a scan: matches and other characters concatenate to the input.\<close>

lemma match_at_splits:
  "match_at r b a = Some (b', a', c) \<Longrightarrow> \<exists>w. a = w @ a' \<and> b' = rev w @ b"
  using rm_consumes [of b' a' c r b a "[]"] by (auto simp: match_at_def split: list.splits)

lemma scan_text: "concat (map (\<lambda>t. case t of Inr m \<Rightarrow> fst m | Inl x \<Rightarrow> [x]) (scan r b a)) = a"
proof (induction r b a rule: scan.induct)
  case (1 r b a)
  show ?case
  proof (cases "match_at r b a")
    case None
    then show ?thesis using 1 by (subst scan.simps) (auto split: list.split)
  next
    case (Some st)
    obtain b' a' c where st: "st = (b', a', c)" by (cases st)
    with Some match_at_splits obtain w where w: "a = w @ a'" by blast
    show ?thesis
      using 1 Some st w by (subst scan.simps) (auto split: list.split)
  qed
qed

lemma replace_all_id: "replace_all r fst s = s"
  using scan_text [of r "[]" s] by (simp add: replace_all_def)

lemma takeWhile_all: "length (takeWhile P s) = length s \<longleftrightarrow> list_all P s"
  by (induction s) auto

text \<open>Repetition of a character class lists the prefixes of the run, longest or shortest first.\<close>

definition advance :: "nat \<Rightarrow> mstate \<Rightarrow> mstate" where
  "advance k st = (case st of (b, a, c) \<Rightarrow> (rev (take k a) @ b, drop k a, c))"

lemma rm_Star_Cls:
  "rm (Star (Cls P)) (b, a, c) =
     map (\<lambda>k. advance k (b, a, c)) (rev [0..<Suc (length (takeWhile P a))])"
proof (induction a arbitrary: b)
  case Nil
  show ?case by (simp add: rm_star [of _ b] advance_def)
next
  case (Cons x a)
  have sh: "advance (Suc k) (b, x # a, c) = advance k (x # b, a, c)" for k
    by (simp add: advance_def)
  show ?case
  proof (cases "P x")
    case True
    have up: "[0..<Suc (Suc n)] = 0 # map Suc [0..<Suc n]" for n
      by (simp add: upt_conv_Cons map_Suc_upt del: upt_Suc)
    show ?thesis
      using True Cons
      by (simp add: rm_star [of _ b] up sh comp_def rev_map del: upt_Suc) (simp add: advance_def comp_def rev_map)
  next
    case False
    then show ?thesis by (simp add: rm_star [of _ b] advance_def)
  qed
qed

lemma rm_LazyStar_Cls:
  "rm (LazyStar (Cls P)) (b, a, c) =
     map (\<lambda>k. advance k (b, a, c)) [0..<Suc (length (takeWhile P a))]"
proof (induction a arbitrary: b)
  case Nil
  show ?case by (simp add: rm_star [of _ b] advance_def)
next
  case (Cons x a)
  have sh: "advance (Suc k) (b, x # a, c) = advance k (x # b, a, c)" for k
    by (simp add: advance_def)
  show ?case
  proof (cases "P x")
    case True
    have up: "[0..<Suc (Suc n)] = 0 # map Suc [0..<Suc n]" for n
      by (simp add: upt_conv_Cons map_Suc_upt del: upt_Suc)
    show ?thesis
      using True Cons
      by (simp add: rm_star [of _ b] up sh comp_def del: upt_Suc) (simp add: advance_def)
  next
    case False
    then show ?thesis by (simp add: rm_star [of _ b] advance_def)
  qed
qed

text \<open>An expression that cannot match without a character of some kind.\<close>

fun needs :: "(char \<Rightarrow> bool) \<Rightarrow> re \<Rightarrow> bool" where
  "needs P (Cls Q) = (\<forall>x. Q x \<longrightarrow> P x)"
| "needs P (Seq r1 r2) = (needs P r1 \<or> needs P r2)"
| "needs P (Alt r1 r2) = (needs P r1 \<and> needs P r2)"
| "needs P (Grp i r) = needs P r"
| "needs P _ = False"

lemma rm_needs:
  "needs P r \<Longrightarrow> (b', a', c') \<in> set (rm r (b, a, c)) \<Longrightarrow> \<exists>x \<in> set a. P x"
proof (induction P r arbitrary: b a c b' a' c' rule: needs.induct)
  case (2 P r1 r2)
  then obtain b1 a1 c1 where 1: "(b1, a1, c1) \<in> set (rm r1 (b, a, c))"
    and 2: "(b', a', c') \<in> set (rm r2 (b1, a1, c1))" by auto
  from rm_consumes [OF 1] have "set a1 \<subseteq> set a" by auto
  moreover have "needs P r1 \<or> needs P r2" using "2.prems"(1) by simp
  ultimately show ?case using "2.IH"(1) [OF _ 1] "2.IH"(2) [OF _ 2] by blast
next
  case (4 P i r)
  then show ?case by fastforce
qed (auto split: list.splits if_splits)

lemma exec_from_needs: "needs P r \<Longrightarrow> exec_from r b a \<noteq> None \<Longrightarrow> \<exists>x \<in> set a. P x"
proof (induction r b a rule: exec_from.induct)
  case (1 r b)
  then obtain st rest where "rm r (b, [], []) = st # rest"
    by (auto simp: match_at_def split: list.splits)
  with rm_needs [OF 1(1), of _ _ _ b "[]" "[]"] show ?case by (cases st) auto
next
  case (2 r b x a)
  show ?case
  proof (cases "match_at r b (x # a)")
    case None
    with 2 show ?thesis by auto
  next
    case (Some st)
    obtain b' a' c where "st = (b', a', c)" by (cases st)
    with Some have "(b', a', c) \<in> set (rm r (b, x # a, []))"
      by (auto simp: match_at_def split: list.splits)
    with rm_needs 2(2) show ?thesis by blast
  qed
qed

lemma test_needs: "needs P r \<Longrightarrow> test r s \<Longrightarrow> \<exists>x \<in> set s. P x"
  unfolding test_def exec_def by (rule exec_from_needs)

subsection \<open>Repetition followed by something else\<close>

text \<open>When what follows a repeated class cannot start with a character of the class, the longest
  repetition is the only one that continues.\<close>

definition starts_not :: "(char \<Rightarrow> bool) \<Rightarrow> re \<Rightarrow> bool" where
  "starts_not P r \<longleftrightarrow> (\<forall>b x a c. P x \<longrightarrow> rm r (b, x # a, c) = [])"

definition stops :: "(char \<Rightarrow> bool) \<Rightarrow> string \<Rightarrow> bool" where
  "stops P v \<longleftrightarrow> (case v of [] \<Rightarrow> True | x # _ \<Rightarrow> \<not> P x)"

lemma stops_simps [simp]: "stops P []" "stops P (x # v) \<longleftrightarrow> \<not> P x"
  by (simp_all add: stops_def)

lemma takeWhile_stops: "list_all P u \<Longrightarrow> stops P v \<Longrightarrow> takeWhile P (u @ v) = u"
  by (induction u) (auto simp: stops_def split: list.splits)

lemma starts_not_simps [simp]:
  "starts_not P Eos"
  "starts_not P (Seq (Cls Q) r) \<longleftrightarrow> (\<forall>x. P x \<and> Q x \<longrightarrow> (\<forall>b a c. rm r (x # b, a, c) = []))"
  "starts_not P (Cls Q) \<longleftrightarrow> (\<forall>x. P x \<longrightarrow> \<not> Q x)"
  by (auto simp: starts_not_def)

lemma starts_not_Seq: "starts_not P r \<Longrightarrow> starts_not P (Seq r r')"
  by (simp add: starts_not_def)

lemma starts_not_Grp: "starts_not P r \<Longrightarrow> starts_not P (Grp i r)"
  by (simp add: starts_not_def)

lemma starts_not_Cls: "(\<And>x. P x \<Longrightarrow> \<not> Q x) \<Longrightarrow> starts_not P (Cls Q)"
  by simp

lemma advance_inside:
  "starts_not P r \<Longrightarrow> list_all P u \<Longrightarrow> k < length u \<Longrightarrow> rm r (advance k (b, u @ v, c)) = []"
  by (simp add: advance_def starts_not_def Cons_nth_drop_Suc [symmetric] list_all_length)

lemma advance_all: "advance (length u) (b, u @ v, c) = (rev u @ b, v, c)"
  by (simp add: advance_def)

lemma concat_map_last:
  "(\<And>k. k < n \<Longrightarrow> f k = []) \<Longrightarrow> concat (map f (rev [0..<Suc n])) = f n"
  "(\<And>k. k < n \<Longrightarrow> f k = []) \<Longrightarrow> concat (map f [0..<Suc n]) = f n"
  by auto

lemma rm_star_det:
  assumes "list_all P u" and "stops P v" and "starts_not P r"
  shows "rm (Seq (Star (Cls P)) r) (b, u @ v, c) = rm r (rev u @ b, v, c)"
proof -
  have "rm (Seq (Star (Cls P)) r) (b, u @ v, c) =
      concat (map (\<lambda>k. rm r (advance k (b, u @ v, c))) (rev [0..<Suc (length u)]))"
    using takeWhile_stops [OF assms(1,2)] by (simp add: rm_Star_Cls comp_def del: upt_Suc)
  also have "\<dots> = rm r (advance (length u) (b, u @ v, c))"
    by (rule concat_map_last(1)) (rule advance_inside [OF assms(3,1)])
  finally show ?thesis by (simp add: advance_all)
qed

lemma rm_grp_star_det:
  assumes "list_all P u" and "stops P v" and "starts_not P r"
  shows "rm (Seq (Grp i (Star (Cls P))) r) (b, u @ v, c) = rm r (rev u @ b, v, (i, u) # c)"
proof -
  let ?g = "\<lambda>k. (rev (take k (u @ v)) @ b, drop k (u @ v),
      (i, take (length (u @ v) - length (drop k (u @ v))) (u @ v)) # c)"
  have "rm (Seq (Grp i (Star (Cls P))) r) (b, u @ v, c) =
      concat (map (\<lambda>k. rm r (?g k)) (rev [0..<Suc (length u)]))"
    using takeWhile_stops [OF assms(1,2)]
    by (simp add: rm_Star_Cls comp_def advance_def del: upt_Suc length_drop)
  also have "\<dots> = rm r (?g (length u))"
    using assms(1,3)
    by (intro concat_map_last(1))
      (simp add: starts_not_def Cons_nth_drop_Suc [symmetric] list_all_length)
  finally show ?thesis by simp
qed

lemma rm_plus_det:
  assumes "list_all P u" and "u \<noteq> []" and "stops P v" and "starts_not P r"
  shows "rm (Seq (plus (Cls P)) r) (b, u @ v, c) = rm r (rev u @ b, v, c)"
proof -
  obtain x u' where u: "u = x # u'" using assms(2) by (cases u) auto
  then show ?thesis
    using assms rm_star_det [of P u' v r "x # b" c] by (simp add: plus_def)
qed

lemma rm_grp_plus_det:
  assumes "list_all P u" and "u \<noteq> []" and "stops P v" and "starts_not P r"
  shows "rm (Seq (Grp i (plus (Cls P))) r) (b, u @ v, c) = rm r (rev u @ b, v, (i, u) # c)"
proof -
  obtain x u' where u: "u = x # u'" using assms(2) by (cases u) auto
  let ?g = "\<lambda>k. (rev (take k (u' @ v)) @ x # b, drop k (u' @ v),
      (i, take (length (u @ v) - length (drop k (u' @ v))) (u @ v)) # c)"
  have "rm (Seq (Grp i (plus (Cls P))) r) (b, u @ v, c) =
      concat (map (\<lambda>k. rm r (?g k)) (rev [0..<Suc (length u')]))"
    using assms takeWhile_stops [of P u' v]
    by (simp add: u plus_def rm_Star_Cls comp_def advance_def del: upt_Suc length_drop)
  also have "\<dots> = rm r (?g (length u'))"
  proof (rule concat_map_last(1))
    fix k assume k: "k < length u'"
    then have "P (u' ! k)" using assms(1) by (simp add: u list_all_iff)
    with k assms(4) show "rm r (?g k) = []"
      by (simp add: starts_not_def Cons_nth_drop_Suc [symmetric])
  qed
  finally show ?thesis by (simp add: u)
qed

text \<open>A lazy repetition whose shorter choices all fail takes the whole run.\<close>

lemma rm_grp_lazy_det:
  assumes "list_all P u" and "u \<noteq> []" and "stops P v"
    and "\<And>k b c. 0 < k \<Longrightarrow> k < length u \<Longrightarrow> rm r (b, drop k u @ v, c) = []"
  shows "rm (Seq (Grp i (lazy_plus (Cls P))) r) (b, u @ v, c) = rm r (rev u @ b, v, (i, u) # c)"
proof -
  obtain x u' where u: "u = x # u'" using assms(2) by (cases u) auto
  let ?g = "\<lambda>k. (rev (take k (u' @ v)) @ x # b, drop k (u' @ v),
      (i, take (length (u @ v) - length (drop k (u' @ v))) (u @ v)) # c)"
  have "rm (Seq (Grp i (lazy_plus (Cls P))) r) (b, u @ v, c) =
      concat (map (\<lambda>k. rm r (?g k)) [0..<Suc (length u')])"
    using assms takeWhile_stops [of P u' v]
    by (simp add: u lazy_plus_def rm_LazyStar_Cls comp_def advance_def del: upt_Suc length_drop)
  also have "\<dots> = rm r (?g (length u'))"
  proof (rule concat_map_last(2))
    fix k assume "k < length u'"
    then show "rm r (?g k) = []" using assms(4) [of "Suc k"] by (simp add: u)
  qed
  finally show ?thesis by (simp add: u)
qed

text \<open>Sequences read from the left, one constructor at a time (used with the general rule removed).\<close>

lemma concat_map_concat: "concat (map f (concat (map g xs))) = concat (map (\<lambda>x. concat (map f (g x))) xs)"
  by (induction xs) auto

lemma rm_seq:
  "rm (Seq (Cls P) r) (b, a, c) = (case a of x # a' \<Rightarrow> if P x then rm r (x # b, a', c) else [] | [] \<Rightarrow> [])"
  "rm (Seq Eps r) st = rm r st"
  "rm (Seq Bos r) (b, a, c) = (if b = [] then rm r (b, a, c) else [])"
  "rm (Seq Eos r) (b, a, c) = (if a = [] then rm r (b, a, c) else [])"
  "rm (Seq WordB r) (b, a, c) = (if at_word b \<noteq> at_word a then rm r (b, a, c) else [])"
  "rm (Seq (NegLook r') r) st = (if rm r' st = [] then rm r st else [])"
  "rm (Seq (Seq r1 r2) r) st = rm (Seq r1 (Seq r2 r)) st"
  "rm (Seq (Alt r1 r2) r) st = rm (Seq r1 r) st @ rm (Seq r2 r) st"
proof -
  have "rm (Seq r1 r2) = (\<lambda>st. concat (map (rm r2) (rm r1 st)))" for r1 r2 by auto
  then show "rm (Seq (Seq r1 r2) r) st = rm (Seq r1 (Seq r2 r)) st"
    by (simp add: concat_map_concat del: rm.simps)
qed (auto split: list.split)

text \<open>An expression that starts at the beginning of the text is tried there only.\<close>

lemma exec_from_later: "exec_from (Seq Bos r) (x # b) a = None"
  by (induction a arbitrary: x b) (simp_all add: match_at_def)

lemma exec_anchored:
  "exec (Seq Bos r) s =
     (case rm r ([], s, []) of [] \<Rightarrow> None
      | (b', a', c) # _ \<Rightarrow> Some (take (length s - length a') s, c))"
  by (cases s) (auto simp: exec_def match_at_def exec_from_later split: list.splits)

lemma test_anchored: "test (Seq Bos r) s \<longleftrightarrow> rm r ([], s, []) \<noteq> []"
  by (auto simp: test_def exec_anchored split: list.splits)

subsection \<open>Fixed-length expressions\<close>

text \<open>A sequence of character classes matches at a place exactly when the next characters fit.\<close>

fun clss :: "(char \<Rightarrow> bool) list \<Rightarrow> re" where
  "clss [] = Eps"
| "clss (P # Ps) = Seq (Cls P) (clss Ps)"

definition fits :: "(char \<Rightarrow> bool) list \<Rightarrow> string \<Rightarrow> bool" where
  "fits Ps a \<longleftrightarrow> length Ps \<le> length a \<and> (\<forall>i < length Ps. (Ps ! i) (a ! i))"

lemma fits_simps [simp]:
  "fits [] a" "\<not> fits (P # Ps) []" "fits (P # Ps) (x # a) \<longleftrightarrow> P x \<and> fits Ps a"
  by (auto simp: fits_def less_Suc_eq_0_disj)

lemma rm_clss:
  "rm (clss Ps) (b, a, c) =
     (if fits Ps a then [(rev (take (length Ps) a) @ b, drop (length Ps) a, c)] else [])"
proof (induction Ps arbitrary: b a)
  case (Cons P Ps)
  then show ?case by (cases a) auto
qed simp

lemma rm_seq_clss:
  assumes "\<And>b a c. rm r (b, a, c) = rm (clss Qs) (b, a, c)"
  shows "rm (Seq (Cls P) r) (b, a, c) = rm (clss (P # Qs)) (b, a, c)"
    and "rm (Seq (clss Ps) r) (b, a, c) = rm (clss (Ps @ Qs)) (b, a, c)"
proof -
  have "rm r = rm (clss Qs)" using assms by (auto intro: ext)
  then show 1: "rm (Seq (Cls P) r) (b, a, c) = rm (clss (P # Qs)) (b, a, c)" for P by simp
  show "rm (Seq (clss Ps) r) (b, a, c) = rm (clss (Ps @ Qs)) (b, a, c)"
    by (induction Ps arbitrary: b a c)
      (simp_all add: assms rm_seq del: rm.simps(3) rm_clss split: list.split)
qed

lemma fits_append: "length Ps \<le> length a \<Longrightarrow> fits Ps (a @ x) = fits Ps a"
  by (auto simp: fits_def nth_append)

text \<open>A match cannot run across a character that no position accepts.\<close>

lemma fits_not_across: "\<forall>P \<in> set Ps. \<not> P y \<Longrightarrow> fits Ps (w @ y # x) = fits Ps w"
proof (cases "length Ps \<le> length w")
  case False
  assume no: "\<forall>P \<in> set Ps. \<not> P y"
  have "\<not> fits Ps (w @ y # x)"
  proof
    assume "fits Ps (w @ y # x)"
    with False have "(Ps ! length w) ((w @ y # x) ! length w)"
      unfolding fits_def by (blast intro: not_le_imp_less)
    then have "(Ps ! length w) y" by simp
    with no False show False by (meson not_le nth_mem nth_append_length)
  qed
  moreover have "\<not> fits Ps w" using False by (simp add: fits_def)
  ultimately show ?thesis by simp
qed (simp add: fits_append)

lemma exec_from_skip:
  assumes "\<And>b a c. rm r (b, a, c) = rm (Grp i (clss Ps)) (b, a, c)" and "\<forall>P \<in> set Ps. \<not> P y"
    and "Ps \<noteq> []" and "exec_from r b w = None"
  shows "exec_from r b (w @ y # x) = exec_from r (y # rev w @ b) x"
  using assms(4)
proof (induction w arbitrary: b)
  case Nil
  have "\<not> fits Ps (y # x)" using assms(2,3) by (cases Ps) auto
  then show ?case by (simp add: match_at_def assms(1) rm_clss)
next
  case (Cons z w)
  then have "\<not> fits Ps (z # w)" and "exec_from r (z # b) w = None"
    by (auto simp: match_at_def assms(1) rm_clss split: if_splits)
  then show ?case
    using Cons.IH fits_not_across [OF assms(2), of "z # w" x] by (simp add: match_at_def assms(1) rm_clss)
qed

text \<open>A bounded repetition of a class.\<close>

lemma rm_upto_Cls:
  "rm (upto n (Cls P)) (b, a, c) =
     map (\<lambda>k. advance k (b, a, c)) (rev [0..<Suc (min n (length (takeWhile P a)))])"
proof (induction n arbitrary: b a)
  case 0
  show ?case by (simp add: advance_def)
next
  case (Suc n)
  show ?case
  proof (cases a)
    case Nil
    then show ?thesis by (simp add: advance_def)
  next
    case (Cons x a')
    have sh: "advance (Suc k) (b, x # a', c) = advance k (x # b, a', c)" for k by (simp add: advance_def)
    have up: "[0..<Suc (Suc m)] = 0 # map Suc [0..<Suc m]" for m
      by (simp add: upt_conv_Cons map_Suc_upt del: upt_Suc)
    have z: "advance 0 (b, x # a', c) = (b, x # a', c)" by (simp add: advance_def)
    show ?thesis
      by (cases "P x") (simp_all add: Cons Suc.IH up sh z rev_map comp_def del: upt_Suc, simp_all add: z)
  qed
qed

lemma test_between:
  "test (seqs [Bos, between 1 (Suc n) (Cls P), Eos]) s \<longleftrightarrow> s \<noteq> [] \<and> length s \<le> Suc n \<and> list_all P s"
proof (cases s)
  case Nil
  then show ?thesis by (simp add: test_anchored seqs_def between_def)
next
  case (Cons x s')
  have "(\<exists>k < Suc (min n (length (takeWhile P s'))). length s' \<le> k) \<longleftrightarrow> length s' \<le> n \<and> list_all P s'"
    using length_takeWhile_le [of P s'] takeWhile_all [of P s'] by (auto simp: less_Suc_eq_le) 
  then show ?thesis
    by (auto simp: Cons test_anchored seqs_def between_def rm_upto_Cls advance_def comp_def
        simp del: upt_Suc split: if_splits)
qed

text \<open>The pattern \<open>\d{4}-\d{2}-\d{2}\<close>.\<close>

definition date_classes :: "(char \<Rightarrow> bool) list" where
  "date_classes = replicate 4 is_digit @ (\<lambda>c. c = CHR ''-'') # replicate 2 is_digit @
     (\<lambda>c. c = CHR ''-'') # replicate 2 is_digit"

lemma length_date_classes [simp]: "length date_classes = 10"
  by (simp add: date_classes_def)

lemma rm_date_pattern:
  "rm (seqs [exactly 4 digit, chr CHR ''-'', exactly 2 digit, chr CHR ''-'', exactly 2 digit]) (b, a, c) =
     rm (clss date_classes) (b, a, c)"
proof -
  have e: "exactly n digit = clss (replicate n is_digit)" for n
    by (induction n) (simp_all add: exactly_def seqs_def digit_def)
  have cl: "date_classes = replicate 4 is_digit @ (\<lambda>c. c = CHR ''-'') # replicate 2 is_digit @
      (\<lambda>c. c = CHR ''-'') # replicate 2 is_digit @ []" by (simp add: date_classes_def)
  show ?thesis
    unfolding seqs_def foldr.simps o_apply id_apply e chr_def cl by (intro rm_seq_clss) simp
qed

lemma fits_date_classes:
  assumes "length a = 4" "list_all is_digit a" "length b = 2" "list_all is_digit b" "length c = 2" "list_all is_digit c"
  shows "fits date_classes (a @ CHR ''-'' # b @ CHR ''-'' # c)"
  using assms by (auto simp: date_classes_def length_Suc_conv numeral_eq_Suc)

lemma fits_date_split:
  assumes "fits date_classes s" and "length s = 10"
  shows "\<exists>a b c. s = a @ CHR ''-'' # b @ CHR ''-'' # c \<and> length a = 4 \<and> list_all is_digit a \<and>
    length b = 2 \<and> list_all is_digit b \<and> length c = 2 \<and> list_all is_digit c"
proof -
  obtain p q r t u v w x y z where s: "s = [p, q, r, t, u, v, w, x, y, z]"
    using assms(2) by (auto simp: length_Suc_conv eval_nat_numeral)
  show ?thesis
    using assms(1)
    by (intro exI [of _ "[p, q, r, t]"] exI [of _ "[v, w]"] exI [of _ "[y, z]"])
      (simp add: s date_classes_def numeral_eq_Suc)
qed

end
