(* ===== verification/Dates.thy ===== *)
theory Dates
  imports Regex
begin

section \<open>Calendar dates and time windows\<close>

text \<open>
  \<open>packages/core/src/dates.ts\<close> on the \<open>Date\<close> object of the language.  A time value is a number of
  milliseconds since 1970, or nothing for an invalid date (\<open>NaN\<close>); \<open>toISOString\<close> of an invalid date
  raises \<open>RangeError\<close>.  The calendar is the proleptic Gregorian one of ECMAScript: \<open>dayFromCivil\<close> is
  its \<open>MakeDay\<close>, \<open>civilFromDay\<close> reads the date back.  \<open>date_parse\<close> stands for \<open>new Date(string)\<close>, whose
  treatment of days such as \<open>2026-02-30\<close> differs between runtimes, and \<open>et_offset\<close> for the time zone
  database behind \<open>Intl\<close>.
\<close>

subsection \<open>The calendar\<close>

definition leap :: "int \<Rightarrow> bool" where
  "leap y \<longleftrightarrow> y mod 4 = 0 \<and> (y mod 100 \<noteq> 0 \<or> y mod 400 = 0)"

text \<open>Days from 0001-01-01 to the first of January of a year.\<close>

definition yearStart :: "int \<Rightarrow> int" where
  "yearStart y = 365 * (y - 1) + (y - 1) div 4 - (y - 1) div 100 + (y - 1) div 400"

definition monthDays :: "bool \<Rightarrow> int list" where
  "monthDays l = [31, if l then 29 else 28, 31, 30, 31, 30, 31, 31, 30, 31, 30, 31]"

text \<open>Days of the year before a month (counted from 0).\<close>

definition monthStart :: "bool \<Rightarrow> nat \<Rightarrow> int" where
  "monthStart l m = sum_list (take m (monthDays l))"

text \<open>Day number of a date, day 0 being 1970-01-01; the month may lie outside the year.\<close>

definition dayFromCivil :: "int \<Rightarrow> int \<Rightarrow> int \<Rightarrow> int" where
  "dayFromCivil y m d =
     (let y' = y + m div 12; m' = nat (m mod 12)
      in yearStart y' - 719162 + monthStart (leap y') m' + d - 1)"

definition yearFromDay :: "int \<Rightarrow> int" where
  "yearFromDay n =
     (let k = n + 719162; e = (400 * k) div 146097 + 1 in
      if k < yearStart e then e - 1 else if yearStart (e + 1) \<le> k then e + 1 else e)"

definition monthFromDay :: "bool \<Rightarrow> int \<Rightarrow> nat" where
  "monthFromDay l doy = length (takeWhile (\<lambda>m. monthStart l (Suc m) \<le> doy) [0..<11])"

text \<open>Year, month (from 0) and day of the month.\<close>

definition civilFromDay :: "int \<Rightarrow> int \<times> int \<times> int" where
  "civilFromDay n =
     (let y = yearFromDay n; doy = n + 719162 - yearStart y; m = monthFromDay (leap y) doy
      in (y, int m, doy - monthStart (leap y) m + 1))"

definition valid_civil :: "int \<Rightarrow> int \<Rightarrow> int \<Rightarrow> bool" where
  "valid_civil y m d \<longleftrightarrow> 0 \<le> m \<and> m \<le> 11 \<and> 1 \<le> d \<and> d \<le> monthDays (leap y) ! nat m"

subsection \<open>\<open>Date\<close>\<close>

datatype js_error = RangeError

abbreviation msPerDay :: int where "msPerDay \<equiv> 86400000"

definition timeClip :: "int \<Rightarrow> int option" where
  "timeClip t = (if \<bar>t\<bar> \<le> 8640000000000000 then Some t else None)"

text \<open>\<open>Date.UTC(y, m, d)\<close>: a year from 0 to 99 means 1900 and later.\<close>

definition dateUTC :: "int \<Rightarrow> int \<Rightarrow> int \<Rightarrow> int option" where
  "dateUTC y m d =
     (let y' = (if 0 \<le> y \<and> y \<le> 99 then 1900 + y else y) in timeClip (dayFromCivil y' m d * msPerDay))"

definition civilOf :: "int \<Rightarrow> int \<times> int \<times> int" where
  "civilOf t = civilFromDay (t div msPerDay)"

definition pad_int :: "nat \<Rightarrow> int \<Rightarrow> string" where
  "pad_int n i = pad_start n CHR ''0'' (int_to_dec i)"

definition year_string :: "int \<Rightarrow> string" where
  "year_string y = (if 0 \<le> y \<and> y \<le> 9999 then pad_int 4 y
     else (if y < 0 then ''-'' else ''+'') @ pad_int 6 \<bar>y\<bar>)"

definition date_string :: "int \<Rightarrow> string" where
  "date_string t = (case civilOf t of (y, m, d) \<Rightarrow>
     year_string y @ ''-'' @ pad_int 2 (m + 1) @ ''-'' @ pad_int 2 d)"

definition time_string :: "int \<Rightarrow> string" where
  "time_string t =
     (let ms = t mod msPerDay in
      pad_int 2 (ms div 3600000) @ '':'' @ pad_int 2 (ms div 60000 mod 60) @ '':'' @
      pad_int 2 (ms div 1000 mod 60) @ ''.'' @ pad_int 3 (ms mod 1000))"

definition toISOString :: "int option \<Rightarrow> js_error + string" where
  "toISOString t = (case t of None \<Rightarrow> Inl RangeError
     | Some v \<Rightarrow> Inr (date_string v @ ''T'' @ time_string v @ ''Z''))"

text \<open>\<open>setUTCDate\<close>, \<open>setUTCMonth\<close>, \<open>setUTCFullYear\<close> keep the time of the day.\<close>

definition setCivil :: "int \<Rightarrow> int \<Rightarrow> int \<Rightarrow> int \<Rightarrow> int option" where
  "setCivil t y m d = timeClip (dayFromCivil y m d * msPerDay + t mod msPerDay)"

definition setUTCDate :: "int \<Rightarrow> int \<Rightarrow> int option" where
  "setUTCDate t d = (case civilOf t of (y, m, _) \<Rightarrow> setCivil t y m d)"
definition setUTCMonth :: "int \<Rightarrow> int \<Rightarrow> int option" where
  "setUTCMonth t m = (case civilOf t of (y, _, d) \<Rightarrow> setCivil t y m d)"
definition setUTCFullYear :: "int \<Rightarrow> int \<Rightarrow> int option" where
  "setUTCFullYear t y = (case civilOf t of (_, m, d) \<Rightarrow> setCivil t y m d)"

subsection \<open>\<open>dates.ts\<close>\<close>

definition MONTH_NAMES :: "string list" where
  "MONTH_NAMES = [''january'', ''february'', ''march'', ''april'', ''may'', ''june'', ''july'',
     ''august'', ''september'', ''october'', ''november'', ''december'']"

definition MONTH_TITLE_RE :: re where
  "MONTH_TITLE_RE = seqs [Bos, Grp 1 (alts (map lit_i MONTH_NAMES)), plus space,
     Grp 2 (seqs [lit ''20'', exactly 2 digit]), Eos]"

definition MONTH_INDEX :: "string \<Rightarrow> int" where
  "MONTH_INDEX name = int (length (takeWhile (\<lambda>m. m \<noteq> name) MONTH_NAMES))"

definition inferMonthOnlyDate :: "string \<Rightarrow> (js_error + string) option" where
  "inferMonthOnlyDate title =
     (case exec MONTH_TITLE_RE (js_trim title) of None \<Rightarrow> None
      | Some (_, g) \<Rightarrow> Some (toISOString
          (dateUTC (int (dec_to_nat (group 2 g))) (MONTH_INDEX (js_lower (group 1 g))) 1)))"

definition daysAgoIso :: "int \<Rightarrow> int \<Rightarrow> js_error + string" where
  "daysAgoIso now days = toISOString (timeClip (now - days * 24 * 60 * 60 * 1000))"

definition RELATIVE_DATE_RE :: re where
  "RELATIVE_DATE_RE = seqs [Bos, Grp 1 (plus digit), Grp 2 (Cls (\<lambda>c. lower_char c \<in> set ''dwmy'')), Eos]"

definition DATE_ONLY :: re where
  "DATE_ONLY = seqs [exactly 4 digit, chr CHR ''-'', exactly 2 digit, chr CHR ''-'', exactly 2 digit]"
definition DATE_ONLY_RE :: re where "DATE_ONLY_RE = seqs [Bos, DATE_ONLY, Eos]"
definition ISO_DATE_RE :: re where
  "ISO_DATE_RE = seqs [Bos, DATE_ONLY,
     opt (seqs [chr CHR ''T'', exactly 2 digit, chr CHR '':'', exactly 2 digit,
       opt (seqs [chr CHR '':'', exactly 2 digit, opt (seqs [chr CHR ''.'', plus digit])]),
       Alt (chr CHR ''Z'') (seqs [Cls (\<lambda>c. c = CHR ''+'' \<or> c = CHR ''-''), exactly 2 digit,
         opt (seqs [opt (chr CHR '':''), exactly 2 digit])])]), Eos]"

text \<open>\<open>s.split("-").map(Number)\<close> on a string of the shape of \<open>DATE_ONLY_RE\<close>.\<close>

definition key_parts :: "string \<Rightarrow> int \<times> int \<times> int" where
  "key_parts s = (let p = map (int o dec_to_nat) (split_on CHR ''-'' s) in (p ! 0, p ! 1, p ! 2))"

definition isDateKey :: "string \<Rightarrow> bool" where
  "isDateKey s =
     (if \<not> test DATE_ONLY_RE s then False
      else (case key_parts s of (y, m, d) \<Rightarrow>
        (case dateUTC y (m - 1) d of None \<Rightarrow> False
         | Some t \<Rightarrow> (case civilOf t of (y', m', d') \<Rightarrow> y' = y \<and> m' = m - 1 \<and> d' = d))))"

text \<open>The parsed count is \<open>Number\<close> of the digits: an infinite count fails \<open>Number.isInteger\<close>.\<close>

definition relative_date :: "int \<Rightarrow> char \<Rightarrow> int \<Rightarrow> int option" where
  "relative_date now unit n =
     (case civilOf now of (y, m, d) \<Rightarrow>
        if unit = CHR ''d'' then setUTCDate now (d - n)
        else if unit = CHR ''w'' then setUTCDate now (d - n * 7)
        else if unit = CHR ''m'' then setUTCMonth now (m - n)
        else setUTCFullYear now (y - n))"

definition resolveDateParam ::
  "(string \<Rightarrow> int option) \<Rightarrow> string \<Rightarrow> int \<Rightarrow> bool \<Rightarrow> js_error + string option" where
  "resolveDateParam date_parse input now bound_end =
     (let trimmed = js_trim input in
      if trimmed = [] then Inr None
      else (case exec RELATIVE_DATE_RE trimmed of
        Some (_, g) \<Rightarrow>
          (case js_Number (group 1 g) of
             Fin q \<Rightarrow> map_sum id Some
               (toISOString (relative_date now (lower_char (hd (group 2 g))) \<lfloor>q\<rfloor>))
           | _ \<Rightarrow> Inr None)
      | None \<Rightarrow>
          if \<not> test ISO_DATE_RE trimmed then Inr None
          else (case date_parse trimmed of None \<Rightarrow> Inr None
            | Some parsed \<Rightarrow>
                (let dateOnly = test DATE_ONLY_RE trimmed in
                 if dateOnly \<and> \<not> isDateKey trimmed then Inr None
                 else if bound_end \<and> dateOnly then
                   map_sum id Some (toISOString (timeClip (parsed + 86400000 - 1)))
                 else map_sum id Some (toISOString (Some parsed))))))"

definition timeAgo :: "(string \<Rightarrow> int option) \<Rightarrow> int \<Rightarrow> string option \<Rightarrow> string option" where
  "timeAgo date_parse now isoDate =
     (case isoDate of None \<Rightarrow> None
      | Some s \<Rightarrow>
          if s = [] then None
          else (case date_parse s of None \<Rightarrow> Some ''NaNmo ago''
            | Some t \<Rightarrow>
                (let mins = (now - t) div 60000; hours = mins div 60; days = hours div 24 in
                 if mins < 1 then Some ''just now''
                 else if mins < 60 then Some (int_to_dec mins @ ''m ago'')
                 else if hours < 24 then Some (int_to_dec hours @ ''h ago'')
                 else if days < 30 then Some (int_to_dec days @ ''d ago'')
                 else Some (int_to_dec (days div 30) @ ''mo ago''))))"

definition addDaysToDateKey :: "string \<Rightarrow> int \<Rightarrow> js_error + string" where
  "addDaysToDateKey dateKey days =
     (case key_parts dateKey of (y, m, d) \<Rightarrow>
        map_sum id (take 10) (toISOString (dateUTC y (m - 1) (d + days))))"

definition etMidnightUtc :: "(int \<Rightarrow> int) \<Rightarrow> string \<Rightarrow> js_error + string" where
  "etMidnightUtc et_offset dateKey =
     (case key_parts dateKey of (y, m, d) \<Rightarrow>
        (case dateUTC y (m - 1) d of None \<Rightarrow> Inl RangeError
         | Some guess \<Rightarrow> toISOString (timeClip (guess - et_offset guess * 60000))))"

definition etDayBoundsUtc :: "(int \<Rightarrow> int) \<Rightarrow> string \<Rightarrow> js_error + (string \<times> string)" where
  "etDayBoundsUtc et_offset dateKey =
     (case etMidnightUtc et_offset dateKey of Inl e \<Rightarrow> Inl e
      | Inr s \<Rightarrow> (case addDaysToDateKey dateKey 1 of Inl e \<Rightarrow> Inl e
         | Inr k \<Rightarrow> map_sum id (Pair s) (etMidnightUtc et_offset k)))"

text \<open>\<open>getUTCDay\<close>: day 0 was a Thursday.\<close>

definition utcDay :: "int \<Rightarrow> int" where
  "utcDay t = (t div msPerDay + 4) mod 7"

definition etWeekStart :: "string \<Rightarrow> js_error + string" where
  "etWeekStart dateKey =
     (case key_parts dateKey of (y, m, d) \<Rightarrow>
        (case dateUTC y (m - 1) d of None \<Rightarrow> Inl RangeError
         | Some t \<Rightarrow>
             (let dow = utcDay t; daysSinceMonday = (if dow = 0 then 6 else dow - 1)
              in addDaysToDateKey dateKey (- daysSinceMonday))))"

definition weekBoundsUtc :: "(int \<Rightarrow> int) \<Rightarrow> string \<Rightarrow> js_error + (string \<times> string)" where
  "weekBoundsUtc et_offset weekStart =
     (case etMidnightUtc et_offset weekStart of Inl e \<Rightarrow> Inl e
      | Inr s \<Rightarrow> (case addDaysToDateKey weekStart 7 of Inl e \<Rightarrow> Inl e
         | Inr k \<Rightarrow> map_sum id (Pair s) (etMidnightUtc et_offset k)))"

definition weekSlug :: "string \<Rightarrow> string" where
  "weekSlug weekStart = weekStart"

definition parseWeekSlug :: "string \<Rightarrow> string option" where
  "parseWeekSlug slug = (if isDateKey slug then Some slug else None)"

subsection \<open>Reading a day number back\<close>

lemma div_bounds:
  assumes "0 < (k :: int)"
  shows "k * (x div k) \<le> x" and "x < k * (x div k) + k"
  using pos_mod_sign [OF assms, of x] pos_mod_bound [OF assms, of x] mult_div_mod_eq [of k x] by linarith+

lemma div_ge: "0 < k \<Longrightarrow> k * q \<le> x \<Longrightarrow> q \<le> x div k" for k q x :: int
  using zdiv_mono1 [of "k * q" x k] by simp

lemma div_less: "0 < k \<Longrightarrow> x < k * q \<Longrightarrow> x div k < q" for k q x :: int
  using div_bounds(1) [of k x] by (metis le_less_trans mult_less_cancel_left_pos)

lemmas div_4_100_400 = div_bounds [of 4, OF zero_less_numeral] div_bounds [of 100, OF zero_less_numeral]
  div_bounds [of 400, OF zero_less_numeral]

lemma div_pred: "0 < k \<Longrightarrow> y div k = (y - 1) div k + (if y mod k = 0 then 1 else 0)" for k y :: int
proof -
  assume k: "0 < k"
  have y: "y = k * (y div k) + y mod k" and r: "0 \<le> y mod k" "y mod k < k" using k by simp_all
  show ?thesis
  proof (cases "y mod k = 0")
    case True
    have "k * (y div k - 1) = k * (y div k) - k" by (simp add: right_diff_distrib)
    then have "y - 1 = k * (y div k - 1) + (k - 1)" using y True by linarith
    then have "(y - 1) div k = y div k - 1" by (rule int_div_pos_eq) (use k in auto)
    with True show ?thesis by simp
  next
    case False
    have "y - 1 = k * (y div k) + (y mod k - 1)" using y by simp
    then have "(y - 1) div k = y div k" by (rule int_div_pos_eq) (use r False in auto)
    with False show ?thesis by simp
  qed
qed

lemma yearStart_step: "yearStart (y + 1) = yearStart y + (if leap y then 366 else 365)"
proof -
  have m: "y mod 400 = 0 \<Longrightarrow> y mod 100 = 0" "y mod 100 = 0 \<Longrightarrow> y mod 4 = 0"
    by (auto simp: mod_eq_0_iff_dvd elim: dvd_trans [rotated])
  have "yearStart (y + 1) = 365 * y + y div 4 - y div 100 + y div 400" by (simp add: yearStart_def)
  also have "\<dots> = yearStart y + 365 + (if y mod 4 = 0 then 1 else 0) - (if y mod 100 = 0 then 1 else 0)
      + (if y mod 400 = 0 then 1 else 0)"
    unfolding yearStart_def by (subst (1 2 3) div_pred) simp_all
  also have "\<dots> = yearStart y + (if leap y then 366 else 365)"
    using m by (cases "y mod 4 = 0"; cases "y mod 100 = 0"; cases "y mod 400 = 0") (simp_all add: leap_def)
  finally show ?thesis .
qed

lemma yearStart_mono: "y < z \<Longrightarrow> yearStart y < yearStart z"
proof (induction z rule: int_gr_induct)
  case base
  then show ?case using yearStart_step [of y] by simp
next
  case (step i)
  then show ?case using yearStart_step [of i] by (simp split: if_splits)
qed

lemma century_bounds:
  "4 * a \<le> x \<Longrightarrow> x < 4 * a + 4 \<Longrightarrow> 100 * b \<le> x \<Longrightarrow> x < 100 * b + 100 \<Longrightarrow> 400 * c \<le> x \<Longrightarrow>
     x < 400 * c + 400 \<Longrightarrow>
     146097 * x - 1200 \<le> 400 * (365 * x + a - b + c) \<and> 400 * (365 * x + a - b + c) \<le> 146097 * x + 1200"
  for a b c x :: int
  by simp

lemma year_estimate:
  assumes "yearStart y \<le> k" and "k < yearStart (y + 1)"
  shows "y - 1 \<le> (400 * k) div 146097 + 1" and "(400 * k) div 146097 + 1 \<le> y + 1"
proof -
  have "146097 * (y - 1) - 1200 \<le> 400 * yearStart y \<and> 400 * yearStart y \<le> 146097 * (y - 1) + 1200" for y
    unfolding yearStart_def by (rule century_bounds) (rule div_4_100_400)+
  then have lo: "146097 * (y - 1) - 1200 \<le> 400 * yearStart y" and hi: "400 * yearStart z \<le> 146097 * (z - 1) + 1200" for y z
    by blast+
  have "146097 * (y - 2) \<le> 400 * k" using lo [of y] assms(1) by simp
  then have "y - 2 \<le> 400 * k div 146097" by (rule div_ge [rotated]) simp
  then show "y - 1 \<le> (400 * k) div 146097 + 1" by simp
  have "400 * k < 146097 * (y + 1)" using hi [of "y + 1"] assms(2) by simp
  then have "400 * k div 146097 < y + 1" by (rule div_less [rotated]) simp
  then show "(400 * k) div 146097 + 1 \<le> y + 1" by simp
qed

lemma yearFromDay_eq:
  assumes "yearStart y \<le> n + 719162" and "n + 719162 < yearStart (y + 1)"
  shows "yearFromDay n = y"
proof -
  let ?e = "(400 * (n + 719162)) div 146097 + 1"
  consider "?e = y - 1" | "?e = y" | "?e = y + 1" using year_estimate [OF assms] by linarith
  then show ?thesis
  proof cases
    case 1
    have "yearStart ?e < yearStart y" using 1 by (intro yearStart_mono) simp
    moreover have "?e + 1 = y" using 1 by simp
    ultimately show ?thesis using assms unfolding yearFromDay_def Let_def by simp
  qed (use assms in \<open>simp_all add: yearFromDay_def Let_def\<close>)
qed

lemma yearFromDay_bounds:
  "yearStart (yearFromDay n) \<le> n + 719162" "n + 719162 < yearStart (yearFromDay n + 1)"
proof -
  let ?k = "n + 719162"
  let ?e = "(400 * ?k) div 146097 + 1"
  have c: "146097 * (y - 1) - 1200 \<le> 400 * yearStart y \<and> 400 * yearStart y \<le> 146097 * (y - 1) + 1200" for y
    unfolding yearStart_def by (rule century_bounds) (rule div_4_100_400)+
  have d: "146097 * (?e - 1) \<le> 400 * ?k" "400 * ?k < 146097 * (?e - 1) + 146097"
    using div_bounds [of 146097 "400 * ?k"] by simp_all
  have "400 * yearStart (?e - 1) \<le> 400 * ?k" using c [of "?e - 1"] d by simp
  moreover have "400 * ?k < 400 * yearStart (?e + 2)" using c [of "?e + 2"] d by simp
  ultimately have b: "yearStart (?e - 1) \<le> ?k" "?k < yearStart (?e + 2)" by simp_all
  show "yearStart (yearFromDay n) \<le> ?k" using b by (simp add: yearFromDay_def Let_def)
  have "?e + 1 + 1 = ?e + 2" by simp
  with b show "?k < yearStart (yearFromDay n + 1)"
    unfolding yearFromDay_def Let_def by (auto simp del: add.assoc)
qed

lemma length_monthDays [simp]: "length (monthDays l) = 12"
  by (simp add: monthDays_def)

lemma monthStart_0 [simp]: "monthStart l 0 = 0"
  by (simp add: monthStart_def)

lemma monthStart_Suc: "m < 12 \<Longrightarrow> monthStart l (Suc m) = monthStart l m + monthDays l ! m"
  by (simp add: monthStart_def take_Suc_conv_app_nth)

lemma monthStart_12: "monthStart l 12 = (if l then 366 else 365)"
  by (simp add: monthStart_def monthDays_def)

lemma monthDays_pos: "m < 12 \<Longrightarrow> 28 \<le> monthDays l ! m \<and> monthDays l ! m \<le> 31"
  by (auto simp: monthDays_def nth_Cons' less_Suc_eq numeral_eq_Suc)

lemma monthStart_mono: "i \<le> j \<Longrightarrow> j \<le> 12 \<Longrightarrow> monthStart l i \<le> monthStart l j"
proof (induction j rule: dec_induct)
  case (step j)
  then show ?case using monthStart_Suc [of j l] monthDays_pos [of j l] by simp
qed simp

lemma monthFromDay_eq:
  assumes "m < 12" and "monthStart l m \<le> doy" and "doy < monthStart l (Suc m)"
  shows "monthFromDay l doy = m"
proof -
  have "takeWhile (\<lambda>m. monthStart l (Suc m) \<le> doy) [0..<11] = take m [0..<11]"
  proof (rule takeWhile_eq_take_P_nth)
    fix i assume "i < m" "i < length [0..<11]"
    then show "monthStart l (Suc ([0..<11] ! i)) \<le> doy"
      using monthStart_mono [of "Suc i" m l] assms by simp
  qed (use assms in simp)
  then show ?thesis using assms(1) by (simp add: monthFromDay_def)
qed

lemma monthFromDay_bounds:
  assumes "0 \<le> doy" and "doy < monthStart l 12"
  shows "monthFromDay l doy < 12" "monthStart l (monthFromDay l doy) \<le> doy"
    "doy < monthStart l (Suc (monthFromDay l doy))"
proof -
  have "\<exists>m < 12. monthStart l m \<le> doy \<and> doy < monthStart l (Suc m)"
  proof -
    have "\<exists>m < n. monthStart l m \<le> doy \<and> doy < monthStart l (Suc m)" if "doy < monthStart l n" for n
      using that
    proof (induction n)
      case (Suc n)
      then show ?case using assms(1) by (cases "doy < monthStart l n") (auto intro: less_SucI)
    qed (use assms in simp)
    with assms(2) show ?thesis by blast
  qed
  then show "monthFromDay l doy < 12" "monthStart l (monthFromDay l doy) \<le> doy"
    "doy < monthStart l (Suc (monthFromDay l doy))" using monthFromDay_eq by auto
qed

lemma dayFromCivil_valid:
  "0 \<le> m \<Longrightarrow> m \<le> 11 \<Longrightarrow> dayFromCivil y m d = yearStart y - 719162 + monthStart (leap y) (nat m) + d - 1"
  by (simp add: dayFromCivil_def)

lemma dayFromCivil_add: "dayFromCivil y m (d + k) = dayFromCivil y m d + k"
  by (simp add: dayFromCivil_def Let_def)

lemma civil_day:
  assumes "valid_civil y m d"
  shows "civilFromDay (dayFromCivil y m d) = (y, m, d)"
proof -
  let ?n = "dayFromCivil y m d" and ?l = "leap y"
  have m: "0 \<le> m" "m \<le> 11" "nat m < 12" "1 \<le> d" "d \<le> monthDays ?l ! nat m"
    using assms by (auto simp: valid_civil_def)
  have n: "?n + 719162 = yearStart y + (monthStart ?l (nat m) + d - 1)" using dayFromCivil_valid m by simp
  have doy: "monthStart ?l (nat m) \<le> monthStart ?l (nat m) + d - 1"
    "monthStart ?l (nat m) + d - 1 < monthStart ?l (Suc (nat m))"
    using m monthStart_Suc [of "nat m" ?l] by simp_all
  have "monthStart ?l (Suc (nat m)) \<le> monthStart ?l 12" using m(3) by (intro monthStart_mono) simp_all
  moreover have "0 \<le> monthStart ?l (nat m)" using monthStart_mono [of 0 "nat m" ?l] m(3) by simp
  ultimately have y: "yearFromDay ?n = y"
    using n doy m(4) monthStart_12 [of ?l] yearStart_step [of y] by (intro yearFromDay_eq) simp_all
  have dd: "?n + 719162 - yearStart y = monthStart ?l (nat m) + d - 1" using n by simp
  have "monthFromDay ?l (monthStart ?l (nat m) + d - 1) = nat m"
    using doy m(3) by (intro monthFromDay_eq) simp_all
  then show ?thesis using m(1) by (simp only: civilFromDay_def Let_def y dd) simp
qed

lemma day_civil:
  assumes "civilFromDay n = (y, m, d)"
  shows "valid_civil y m d" and "dayFromCivil y m d = n"
proof -
  have y: "y = yearFromDay n" using assms by (auto simp: civilFromDay_def Let_def)
  let ?l = "leap y" and ?doy = "n + 719162 - yearStart y"
  have doy: "0 \<le> ?doy" "?doy < monthStart ?l 12"
    using yearFromDay_bounds [of n] yearStart_step [of y] by (simp_all add: y monthStart_12)
  note b = monthFromDay_bounds [OF doy]
  have m: "m = int (monthFromDay ?l ?doy)" "d = ?doy - monthStart ?l (monthFromDay ?l ?doy) + 1"
    using assms by (auto simp: civilFromDay_def Let_def y)
  show "valid_civil y m d"
    using b m monthStart_Suc [OF b(1)] by (auto simp: valid_civil_def)
  show "dayFromCivil y m d = n"
    using b(1) m by (subst dayFromCivil_valid) simp_all
qed

subsection \<open>Date keys\<close>

text \<open>The key of a day, and the days whose keys the helpers handle: years 100 to 9999.\<close>

definition dateKey :: "int \<Rightarrow> string" where
  "dateKey n = date_string (n * msPerDay)"

definition keyDay :: "int \<Rightarrow> bool" where
  "keyDay n \<longleftrightarrow> dayFromCivil 100 0 1 \<le> n \<and> n \<le> dayFromCivil 9999 11 31"

lemma civilOf_day [simp]: "civilOf (n * msPerDay) = civilFromDay n"
  by (simp add: civilOf_def)

lemma keyDay_iff: "keyDay n \<longleftrightarrow> 100 \<le> yearFromDay n \<and> yearFromDay n \<le> 9999"
proof -
  let ?y = "yearFromDay n"
  note b = yearFromDay_bounds [of n]
  have k: "keyDay n \<longleftrightarrow> yearStart 100 \<le> n + 719162 \<and> n + 719162 < yearStart 10000"
    by (auto simp: keyDay_def dayFromCivil_def yearStart_def monthStart_def monthDays_def leap_def)
  have m: "a \<le> b \<Longrightarrow> yearStart a \<le> yearStart b" for a b
    using yearStart_mono [of a b] by (cases "a = b") auto
  show ?thesis
    using b m [of "?y + 1" 100] m [of 100 ?y] m [of "?y + 1" 10000] m [of 10000 ?y]
    unfolding k by (cases "100 \<le> ?y"; cases "?y \<le> 9999") auto
qed

lemma keyDay_year:
  "keyDay n \<Longrightarrow> civilFromDay n = (y, m, d) \<Longrightarrow> 100 \<le> y"
  "keyDay n \<Longrightarrow> civilFromDay n = (y, m, d) \<Longrightarrow> y \<le> 9999"
  by (auto simp: keyDay_iff civilFromDay_def Let_def)

lemma pad_dec:
  assumes "0 \<le> i" and "i < 10 ^ k" and "0 < k"
  shows "length (pad_int k i) = k" and "list_all is_digit (pad_int k i)"
    and "int (dec_to_nat (pad_int k i)) = i"
proof -
  have "nat i < 10 ^ k" using assms(1,2) by (simp add: nat_less_iff)
  then have "length (nat_to_dec (nat i)) \<le> k" using length_nat_to_dec assms(3) by blast
  then show "length (pad_int k i) = k" using assms(1) by (simp add: pad_int_def int_to_dec_def)
  have "is_digit CHR ''0''" by (simp add: is_digit_def code_unit_def)
  then show "list_all is_digit (pad_int k i)"
    using assms(1) nat_to_dec_digits by (auto simp: pad_int_def int_to_dec_def list_all_iff)
  show "int (dec_to_nat (pad_int k i)) = i"
    using assms(1) by (simp add: pad_int_def int_to_dec_def dec_to_nat_zeros)
qed

lemma dec_unique:
  "length s = length t \<Longrightarrow> list_all is_digit s \<Longrightarrow> list_all is_digit t \<Longrightarrow> dec_to_nat s = dec_to_nat t \<Longrightarrow> s = t"
  using dec_less [of s t] dec_less [of t s] by (metis less_irrefl linorder_neqE)

text \<open>The three fields of a key.\<close>

lemma dateKey_fields:
  assumes "keyDay n" and "civilFromDay n = (y, m, d)"
  shows "dateKey n = pad_int 4 y @ ''-'' @ pad_int 2 (m + 1) @ ''-'' @ pad_int 2 d"
    and "0 \<le> y" "y < 10 ^ 4" "0 \<le> m" "m + 1 < 10 ^ 2" "0 \<le> d" "d < 10 ^ 2"
proof -
  have v: "valid_civil y m d" using day_civil(1) [OF assms(2)] .
  then have "monthDays (leap y) ! nat m \<le> 31" using monthDays_pos [of "nat m"] by (auto simp: valid_civil_def)
  with v keyDay_year [OF assms] show "0 \<le> y" "y < 10 ^ 4" "0 \<le> m" "m + 1 < 10 ^ 2" "0 \<le> d" "d < 10 ^ 2"
    by (auto simp: valid_civil_def)
  then show "dateKey n = pad_int 4 y @ ''-'' @ pad_int 2 (m + 1) @ ''-'' @ pad_int 2 d"
    using assms(2) by (simp add: dateKey_def date_string_def year_string_def)
qed

lemma digits_no_dash: "list_all is_digit s \<Longrightarrow> CHR ''-'' \<notin> set s"
  by (auto simp: list_all_iff is_digit_def code_unit_def)

lemma key_parts_fields:
  assumes "list_all is_digit a" "list_all is_digit b" "list_all is_digit c"
  shows "key_parts (a @ CHR ''-'' # b @ CHR ''-'' # c) = (int (dec_to_nat a), int (dec_to_nat b), int (dec_to_nat c))"
  using assms [THEN digits_no_dash] by (simp add: key_parts_def split_on_append)

lemma key_parts_dateKey:
  assumes "keyDay n" and "civilFromDay n = (y, m, d)"
  shows "key_parts (dateKey n) = (y, m + 1, d)"
  using dateKey_fields [OF assms] pad_dec [of y 4] pad_dec [of "m + 1" 2] pad_dec [of d 2]
  by (simp add: key_parts_fields)

lemma length_dateKey: "keyDay n \<Longrightarrow> length (dateKey n) = 10"
proof -
  assume n: "keyDay n"
  obtain y m d where c: "civilFromDay n = (y, m, d)" by (metis prod_cases3)
  show ?thesis
    using dateKey_fields [OF n c] pad_dec(1) [of y 4] pad_dec(1) [of "m + 1" 2] pad_dec(1) [of d 2] by simp
qed

lemma timeClip_day: "keyDay n \<Longrightarrow> timeClip (n * msPerDay) = Some (n * msPerDay)"
  by (auto simp: abs_le_iff timeClip_def keyDay_def dayFromCivil_def yearStart_def monthStart_def monthDays_def leap_def)

lemma dateUTC_dateKey:
  assumes "keyDay n" and "civilFromDay n = (y, m, d)"
  shows "dateUTC y m (d + k) = timeClip ((n + k) * msPerDay)"
  using keyDay_year [OF assms] day_civil(2) [OF assms(2)] by (simp add: dateUTC_def dayFromCivil_add Let_def)

lemma addDays_dateKey:
  assumes "keyDay n" and "keyDay (n + k)"
  shows "addDaysToDateKey (dateKey n) k = Inr (dateKey (n + k))"
proof -
  obtain y m d where c: "civilFromDay n = (y, m, d)" by (metis prod_cases3)
  have "take 10 (date_string ((n + k) * msPerDay) @ x) = dateKey (n + k)" for x
    using length_dateKey [OF assms(2)] by (simp add: dateKey_def)
  then show ?thesis
    using key_parts_dateKey [OF assms(1) c] dateUTC_dateKey [OF assms(1) c, of k] timeClip_day [OF assms(2)]
    by (simp add: addDaysToDateKey_def toISOString_def)
qed

lemma civil_less:
  assumes "civilFromDay a = (y, m, d)" and "civilFromDay b = (y', m', d')"
    and "y < y' \<or> y = y' \<and> (m < m' \<or> m = m' \<and> d < d')"
  shows "a < b"
proof -
  have va: "valid_civil y m d" and vb: "valid_civil y' m' d'" using day_civil(1) assms(1,2) by blast+
  have a: "a + 719162 = yearStart y + monthStart (leap y) (nat m) + d - 1"
    using day_civil(2) [OF assms(1)] va dayFromCivil_valid [of m y d] by (simp add: valid_civil_def)
  have b: "b + 719162 = yearStart y' + monthStart (leap y') (nat m') + d' - 1"
    using day_civil(2) [OF assms(2)] vb dayFromCivil_valid [of m' y' d'] by (simp add: valid_civil_def)
  consider "y < y'" | "y = y'" "m < m'" | "y = y'" "m = m'" "d < d'" using assms(3) by blast
  then show ?thesis
  proof cases
    case 1
    have "y = yearFromDay a" "y' = yearFromDay b" using assms(1,2) by (auto simp: civilFromDay_def Let_def)
    moreover have "yearStart (y + 1) \<le> yearStart y'"
      using yearStart_mono [of "y + 1" y'] 1 by (cases "y + 1 = y'") auto
    ultimately show ?thesis using yearFromDay_bounds [of a] yearFromDay_bounds [of b] by simp
  next
    case 2
    have m: "nat m < 12" "nat m' \<le> 12" "Suc (nat m) \<le> nat m'" using va vb 2 by (auto simp: valid_civil_def)
    have "d \<le> monthDays (leap y) ! nat m" "1 \<le> d'" using va vb by (auto simp: valid_civil_def)
    with monthStart_Suc [OF m(1), of "leap y"] monthStart_mono [OF m(3,2), of "leap y"] a b 2
    show ?thesis by simp
  next
    case 3
    with a b show ?thesis by simp
  qed
qed

lemma pad_less:
  assumes "0 \<le> i" "i < 10 ^ k" "0 \<le> j" "j < 10 ^ k" "0 < k"
  shows "pad_int k i < pad_int k j \<longleftrightarrow> i < j" and "pad_int k i = pad_int k j \<longleftrightarrow> i = j"
proof -
  note i = pad_dec [OF assms(1,2,5)] and j = pad_dec [OF assms(3,4,5)]
  have "pad_int k i < pad_int k j \<longleftrightarrow> dec_to_nat (pad_int k i) < dec_to_nat (pad_int k j)"
    using i j by (intro dec_less) simp_all
  also have "\<dots> \<longleftrightarrow> int (dec_to_nat (pad_int k i)) < int (dec_to_nat (pad_int k j))" by simp
  finally show "pad_int k i < pad_int k j \<longleftrightarrow> i < j" by (simp only: i j)
  show "pad_int k i = pad_int k j \<longleftrightarrow> i = j" using i(3) j(3) by metis
qed

lemma dateKey_less:
  assumes "keyDay a" and "keyDay b"
  shows "dateKey a < dateKey b \<longleftrightarrow> a < b"
proof -
  obtain y m d where c: "civilFromDay a = (y, m, d)" by (metis prod_cases3)
  obtain y' m' d' where c': "civilFromDay b = (y', m', d')" by (metis prod_cases3)
  note f = dateKey_fields [OF assms(1) c] and f' = dateKey_fields [OF assms(2) c']
  let ?less = "y < y' \<or> y = y' \<and> (m < m' \<or> m = m' \<and> d < d')"
  have "dateKey a < dateKey b \<longleftrightarrow> ?less"
    using pad_less [of y 4 y'] pad_less [of "m + 1" 2 "m' + 1"] pad_less [of d 2 d'] f f'
      pad_dec(1) [of y 4] pad_dec(1) [of y' 4] pad_dec(1) [of "m + 1" 2] pad_dec(1) [of "m' + 1" 2]
    by (simp add: append_less add1_zle_eq)
  moreover have "?less \<Longrightarrow> a < b" using civil_less [OF c c'] .
  moreover have "\<not> a < b" if "\<not> ?less"
  proof -
    have "y' < y \<or> y' = y \<and> (m' < m \<or> m' = m \<and> d' < d) \<or> (y = y' \<and> m = m' \<and> d = d')"
      using that by auto
    moreover have "a = b" if "y = y' \<and> m = m' \<and> d = d'"
      using that day_civil(2) [OF c] day_civil(2) [OF c'] by simp
    ultimately show ?thesis using civil_less [OF c' c] by force
  qed
  ultimately show ?thesis by blast
qed

lemma date_only_test: "test DATE_ONLY_RE s \<longleftrightarrow> fits date_classes s \<and> length s = 10"
proof -
  have "rm (Seq DATE_ONLY (Seq Eos Eps)) ([], s, []) = concat (map (rm (Seq Eos Eps)) (rm (clss date_classes) ([], s, [])))"
    by (simp add: DATE_ONLY_def rm_date_pattern)
  then show ?thesis
    by (auto simp: DATE_ONLY_RE_def seqs_def test_anchored rm_clss fits_def simp del: rm.simps(3))
      (simp_all add: rm.simps(3))
qed

lemma isDateKey_dateKey: "keyDay n \<Longrightarrow> isDateKey (dateKey n)"
proof -
  assume n: "keyDay n"
  obtain y m d where c: "civilFromDay n = (y, m, d)" by (metis prod_cases3)
  have "test DATE_ONLY_RE (dateKey n)"
    using dateKey_fields [OF n c] pad_dec [of y 4] pad_dec [of "m + 1" 2] pad_dec [of d 2] length_dateKey [OF n]
    by (simp add: date_only_test fits_date_classes)
  then show ?thesis
    using key_parts_dateKey [OF n c] dateUTC_dateKey [OF n c, of 0] timeClip_day [OF n] c
    by (simp add: isDateKey_def)
qed

lemma isDateKey_imp: "isDateKey s \<Longrightarrow> \<exists>n. keyDay n \<and> s = dateKey n"
proof -
  assume k: "isDateKey s"
  then have "fits date_classes s" "length s = 10" by (auto simp: isDateKey_def date_only_test split: if_splits)
  then obtain a b c where s: "s = a @ CHR ''-'' # b @ CHR ''-'' # c"
    and abc: "length a = 4" "list_all is_digit a" "length b = 2" "list_all is_digit b" "length c = 2" "list_all is_digit c"
    using fits_date_split by blast
  let ?y = "int (dec_to_nat a)" and ?m = "int (dec_to_nat b)" and ?d = "int (dec_to_nat c)"
  have kp: "key_parts s = (?y, ?m, ?d)" using abc by (simp add: s key_parts_fields)
  obtain t where t: "dateUTC ?y (?m - 1) ?d = Some t" "civilOf t = (?y, ?m - 1, ?d)"
    using k kp by (auto simp: isDateKey_def split: if_splits option.splits prod.splits)
  define n where "n = t div msPerDay"
  have c: "civilFromDay n = (?y, ?m - 1, ?d)" using t(2) by (simp add: n_def civilOf_def)
  have y: "100 \<le> ?y"
  proof (rule ccontr)
    assume "\<not> 100 \<le> ?y"
    then have t': "t = dayFromCivil (1900 + ?y) (?m - 1) ?d * msPerDay"
      using t(1) by (auto simp: dateUTC_def timeClip_def Let_def split: if_splits)
    have v: "0 \<le> ?m - 1" "?m - 1 \<le> 11" "1 \<le> ?d" using day_civil(1) [OF c] by (auto simp: valid_civil_def)
    have "n = dayFromCivil (1900 + ?y) (?m - 1) ?d" using t' by (simp add: n_def)
    then have "yearStart (1900 + ?y) \<le> n + 719162"
    proof -
      have "nat (?m - 1) \<le> 12" using v(2) by simp
      then have "0 \<le> monthStart (leap (1900 + ?y)) (nat (?m - 1))"
        using monthStart_mono [of 0 "nat (?m - 1)" "leap (1900 + ?y)"] by simp
      then show "n = dayFromCivil (1900 + ?y) (?m - 1) ?d \<Longrightarrow> ?thesis"
        using dayFromCivil_valid [OF v(1,2), of "1900 + ?y" ?d] v(3) by linarith
    qed
    moreover have "yearStart (?y + 1) < yearStart (1900 + ?y)" by (rule yearStart_mono) simp
    moreover have "n + 719162 < yearStart (?y + 1)"
      using yearFromDay_bounds(2) [of n] c by (auto simp: civilFromDay_def Let_def)
    ultimately show False by simp
  qed
  have "dec_to_nat a < 10 ^ 4" using dec_to_nat_less [OF abc(2)] abc(1) by simp
  with y c have key: "keyDay n" by (auto simp: keyDay_iff civilFromDay_def Let_def)
  have "pad_int 4 ?y = a" "pad_int 2 ?m = b" "pad_int 2 ?d = c"
    using dec_to_nat_less [of a] dec_to_nat_less [of b] dec_to_nat_less [of c] abc
      pad_dec [of ?y 4] pad_dec [of ?m 2] pad_dec [of ?d 2]
    by (auto intro!: dec_unique)
  with dateKey_fields(1) [OF key c] s key show ?thesis by auto
qed

text \<open>a date key names a real day.  \<open>isDateKey\<close> accepts a string exactly when it is the key of
  a day of the calendar, for the years 100 to 9999; the years 0 to 99, which \<open>Date.UTC\<close> moves to
  the twentieth century, are refused.\<close>
theorem isDateKey_calendar: "isDateKey s \<longleftrightarrow> (\<exists>n. keyDay n \<and> s = dateKey n)"
  using isDateKey_imp isDateKey_dateKey by blast

text \<open>date keys compute and sort as days.  Adding whole days to a key gives the key of that day,
  across months, years and leap days, and keys compare as strings exactly as the days do.\<close>
theorem addDays_day_arithmetic:
  assumes "keyDay n" and "keyDay (n + k)"
  shows "addDaysToDateKey (dateKey n) k = Inr (dateKey (n + k)) \<and> (dateKey n < dateKey (n + k) \<longleftrightarrow> 0 < k)"
  using addDays_dateKey [OF assms] dateKey_less [OF assms] by simp

theorem addDays_day_arithmetic_witness:
  "addDaysToDateKey (dateKey 19781) 2 = Inr (dateKey 19783) \<and> (dateKey 19781 < dateKey 19783 \<longleftrightarrow> 0 < (2::int))"
  using addDays_day_arithmetic [of 19781 2]
  by (simp add: keyDay_def dayFromCivil_def yearStart_def monthStart_def monthDays_def leap_def)

subsection \<open>Weeks\<close>

lemma utcDay_day: "utcDay (n * msPerDay) = (n + 4) mod 7"
  by (simp add: utcDay_def)

lemma since_monday: "(if (n + 4) mod 7 = 0 then 6 else (n + 4) mod 7 - 1) = (n + 3) mod (7 :: int)"
proof -
  let ?r = "(n + 3) mod 7"
  have r: "0 \<le> ?r" "?r < 7" by simp_all
  have s: "(n + 4) mod 7 = (?r + 1) mod 7"
    using mod_add_left_eq [of "n + 3" 7 1] by (simp only: add.assoc) simp
  show ?thesis
  proof (cases "?r = 6")
    case False
    then have "(?r + 1) mod 7 = ?r + 1" using r by (intro mod_pos_pos_trivial) auto
    then show ?thesis using r s by simp
  qed (simp add: s)
qed

lemma etWeekStart_dateKey:
  assumes "keyDay n" and "keyDay (n - (n + 3) mod 7)"
  shows "etWeekStart (dateKey n) = Inr (dateKey (n - (n + 3) mod 7))"
proof -
  obtain y m d where c: "civilFromDay n = (y, m, d)" by (metis prod_cases3)
  have t: "dateUTC y m d = Some (n * msPerDay)"
    using dateUTC_dateKey [OF assms(1) c, of 0] timeClip_day [OF assms(1)] by simp
  have dow: "(if utcDay (n * msPerDay) = 0 then 6 else utcDay (n * msPerDay) - 1) = (n + 3) mod 7"
    unfolding utcDay_day by (rule since_monday)
  have "addDaysToDateKey (dateKey n) (- ((n + 3) mod 7)) = Inr (dateKey (n - (n + 3) mod 7))"
    using addDays_dateKey [OF assms(1), of "- ((n + 3) mod 7)"] assms(2) by simp
  then show ?thesis
    using key_parts_dateKey [OF assms(1) c] t dow by (simp only: etWeekStart_def Let_def prod.case option.case) simp
qed

text \<open>the week key.  For a day whose week starts in the supported years, \<open>etWeekStart\<close> returns the
  key of the Monday at most six days before it, and a Monday is its own week key.\<close>
theorem etWeekStart_monday:
  assumes "keyDay n" and "keyDay (n - 6)"
  shows "\<exists>w. etWeekStart (dateKey n) = Inr (dateKey w) \<and> utcDay (w * msPerDay) = 1 \<and> w \<le> n \<and> n < w + 7
    \<and> etWeekStart (dateKey w) = Inr (dateKey w)"
proof -
  let ?w = "n - (n + 3) mod 7"
  have r: "0 \<le> (n + 3) mod 7" "(n + 3) mod 7 < 7" by simp_all
  then have w: "keyDay ?w" using assms unfolding keyDay_def by (intro conjI; linarith)
  have m: "(?w + 3) mod 7 = 0" by presburger
  have "utcDay (?w * msPerDay) = 1" unfolding utcDay_day by presburger
  moreover have "etWeekStart (dateKey ?w) = Inr (dateKey ?w)" using etWeekStart_dateKey [OF w] w m by simp
  ultimately show ?thesis using etWeekStart_dateKey [OF assms(1) w] r by (intro exI [of _ ?w]) auto
qed

theorem etWeekStart_monday_witness:
  "\<exists>w. etWeekStart (dateKey 20000) = Inr (dateKey w) \<and> utcDay (w * msPerDay) = 1 \<and> w \<le> 20000 \<and> 20000 < w + 7
    \<and> etWeekStart (dateKey w) = Inr (dateKey w)"
  by (rule etWeekStart_monday)
    (simp_all add: keyDay_def dayFromCivil_def yearStart_def monthStart_def monthDays_def leap_def)

subsection \<open>Relative windows\<close>

lemma setUTCDate_shift: "civilOf t = (y, m, d) \<Longrightarrow> setUTCDate t (d - n) = timeClip (t - n * msPerDay)"
proof -
  assume c: "civilOf t = (y, m, d)"
  have "dayFromCivil y m (d - n) = t div msPerDay - n"
    using day_civil(2) [of "t div msPerDay" y m d] c dayFromCivil_add [of y m d "- n"] by (simp add: civilOf_def)
  moreover have "(t div msPerDay - n) * msPerDay + t mod msPerDay = t - n * msPerDay"
    using div_mult_mod_eq [of t msPerDay] by (simp add: left_diff_distrib)
  ultimately show ?thesis using c by (simp only: setUTCDate_def setCivil_def prod.case)
qed

lemma relative_exec:
  "is_lower u \<Longrightarrow> u \<in> set ''dwmy'' \<Longrightarrow>
     exec RELATIVE_DATE_RE (nat_to_dec n @ [u]) = Some (nat_to_dec n @ [u], [(2, [u]), (1, nat_to_dec n)])"
proof -
  assume u: "is_lower u" "u \<in> set ''dwmy''"
  have "\<not> is_digit u" using u(1) by (auto simp: is_lower_def is_digit_def)
  moreover have "list_all is_digit (nat_to_dec n)" by (simp add: list_all_iff nat_to_dec_digits)
  moreover have "\<not> (lower_char x \<in> set ''dwmy'')" if "is_digit x" for x
    using that lower_char_id [of x] by (auto simp: is_digit_def code_unit_def)
  ultimately have "rm (Seq (Grp 1 (plus (Cls is_digit))) (Seq (Grp 2 (Cls (\<lambda>c. lower_char c \<in> set ''dwmy''))) (Seq Eos Eps)))
      ([], nat_to_dec n @ [u], []) =
    rm (Seq (Grp 2 (Cls (\<lambda>c. lower_char c \<in> set ''dwmy''))) (Seq Eos Eps)) (rev (nat_to_dec n) @ [], [u], [(1, nat_to_dec n)])"
    by (intro rm_grp_plus_det starts_not_Seq starts_not_Grp) auto
  moreover have "lower_char u \<in> set ''dwmy''" using u lower_char_id [of u] by auto
  ultimately show ?thesis
    by (simp add: RELATIVE_DATE_RE_def seqs_def digit_def exec_anchored del: rm.simps(3))
      (simp add: rm.simps(3))
qed

text \<open>a relative window of days is exact, and too large a one raises.  For a valid current time,
  \<open>resolveDateParam("<n>d")\<close> is the instant \<open>n\<close> times 24 hours earlier, and it raises
  \<open>RangeError\<close> exactly when that instant is outside the range of \<open>Date\<close>: it never returns \<open>null\<close>
  for a window that is well formed but out of range, which its comment promises.\<close>
theorem resolveDateParam_days:
  assumes "n < 10 ^ 300"
  shows "resolveDateParam date_parse (nat_to_dec n @ ''d'') now bound_end =
    (let t = now - int n * msPerDay in
     if \<bar>t\<bar> \<le> 8640000000000000 then Inr (Some (date_string t @ ''T'' @ time_string t @ ''Z'')) else Inl RangeError)"
proof -
  have digit: "\<not> is_space c" if "c \<in> set (nat_to_dec n)" for c
    using nat_to_dec_digits [OF that] by (auto simp: is_digit_def is_space_def)
  have tr: "js_trim (nat_to_dec n @ ''d'') = nat_to_dec n @ ''d''"
    using digit by (intro js_trim_id) (auto simp: is_space_def code_unit_def)
  have ex: "exec RELATIVE_DATE_RE (nat_to_dec n @ ''d'') =
      Some (nat_to_dec n @ ''d'', [(2, ''d''), (1, nat_to_dec n)])"
    by (rule relative_exec) (simp_all add: is_lower_def code_unit_def)
  have num: "js_Number (nat_to_dec n) = Fin (of_nat n)" using js_Number_dec [OF assms, of 0] by simp
  have low: "lower_char CHR ''d'' = CHR ''d''" by (simp add: lower_char_id is_lower_def code_unit_def)
  obtain y m d where c: "civilOf now = (y, m, d)" by (metis prod_cases3)
  have "relative_date now CHR ''d'' (int n) = timeClip (now - int n * msPerDay)"
    using setUTCDate_shift [OF c] c by (simp add: relative_date_def)
  then show ?thesis
    by (simp add: resolveDateParam_def tr ex group_def num low toISOString_def timeClip_def Let_def)
qed

theorem resolveDateParam_days_witness:
  "resolveDateParam (\<lambda>_. None) (nat_to_dec 999999999 @ ''d'') 0 False = Inl RangeError"
proof -
  have "(999999999 :: nat) < 10 ^ 9" by simp
  also have "(10 :: nat) ^ 9 \<le> 10 ^ 300" by (rule power_increasing) simp_all
  finally show ?thesis by (simp add: resolveDateParam_days Let_def)
qed

end
