(* ===== verification/Instants.thy ===== *)
theory Instants
  imports Dates
begin

section \<open>Stored instants\<close>

text \<open>
  The text of an instant that \<open>new Date(ms).toISOString()\<close> writes into a column and \<open>Date.parse\<close> reads
  back.  The queries compare these texts, the actors the numbers: for the years 100 to 9999 the two
  orders are one.
\<close>

definition iso_text :: "int \<Rightarrow> string" where
  "iso_text t = date_string t @ ''T'' @ time_string t @ ''Z''"

text \<open>The instants of the years 100 to 9999.\<close>

definition instant :: "int \<Rightarrow> bool" where
  "instant t \<longleftrightarrow> keyDay (t div msPerDay)"

text \<open>
  \<open>Date.parse\<close> of a text of the form \<open>YYYY-MM-DDTHH:mm:ss.sssZ\<close>; on any other text it is the one of the runtime,
  \<open>legacy\<close>.
\<close>

definition parse_time :: "string \<Rightarrow> int option" where
  "parse_time s =
     (let h = int (dec_to_nat (take 2 s)); m = int (dec_to_nat (take 2 (drop 3 s)));
          sec = int (dec_to_nat (take 2 (drop 6 s))); ms = int (dec_to_nat (drop 9 s))
      in if length s = 12 \<and> list_all is_digit (take 2 s @ take 2 (drop 3 s) @ take 2 (drop 6 s) @ drop 9 s)
            \<and> s ! 2 = CHR '':'' \<and> s ! 5 = CHR '':'' \<and> s ! 8 = CHR ''.'' \<and> h \<le> 23 \<and> m \<le> 59 \<and> sec \<le> 59
         then Some (h * 3600000 + m * 60000 + sec * 1000 + ms) else None)"

definition date_parse :: "(string \<Rightarrow> int option) \<Rightarrow> string \<Rightarrow> int option" where
  "date_parse legacy s =
     (if length s = 24 \<and> s ! 10 = CHR ''T'' \<and> s ! 23 = CHR ''Z'' \<and> isDateKey (take 10 s) then
        (case (key_parts (take 10 s), parse_time (take 12 (drop 11 s))) of
           ((y, m, d), Some t) \<Rightarrow> Some (dayFromCivil y (m - 1) d * msPerDay + t)
         | _ \<Rightarrow> legacy s)
      else legacy s)"

lemma toISOString_Some: "toISOString (Some t) = Inr (iso_text t)"
  by (simp add: toISOString_def iso_text_def)

lemma instant_clip: "instant t \<Longrightarrow> timeClip t = Some t"
  using div_bounds [of msPerDay t]
  by (auto simp: instant_def timeClip_def abs_le_iff keyDay_def dayFromCivil_def yearStart_def monthStart_def
      monthDays_def leap_def)

lemma instant_between: "instant a \<Longrightarrow> instant b \<Longrightarrow> a \<le> t \<Longrightarrow> t \<le> b \<Longrightarrow> instant t"
  using zdiv_mono1 [of a t msPerDay] zdiv_mono1 [of t b msPerDay] by (auto simp: instant_def keyDay_def)

lemma date_string_key: "date_string t = dateKey (t div msPerDay)"
  by (simp add: dateKey_def date_string_def) (simp add: civilOf_def)

lemma length_date_string: "instant t \<Longrightarrow> length (date_string t) = 10"
  by (simp add: date_string_key length_dateKey instant_def)

subsection \<open>The fields of the time of day\<close>

lemma time_fields:
  obtains h m s n where "0 \<le> h" "h \<le> 23" "0 \<le> m" "m \<le> 59" "0 \<le> s" "s \<le> 59" "0 \<le> n" "n \<le> 999"
    and "t mod msPerDay = h * 3600000 + m * 60000 + s * 1000 + n"
    and "time_string t = pad_int 2 h @ '':'' @ pad_int 2 m @ '':'' @ pad_int 2 s @ ''.'' @ pad_int 3 n"
proof -
  define ms where "ms = t mod msPerDay"
  have b: "0 \<le> ms" "ms < 86400000" by (simp_all add: ms_def)
  have d: "ms div 60000 = ms div 1000 div 60" "ms div 3600000 = ms div 60000 div 60"
    using div_mult2_eq' [of ms 1000 60] div_mult2_eq' [of ms 60000 60] by simp_all
  have split: "ms = ms div 3600000 * 3600000 + ms div 60000 mod 60 * 60000 + ms div 1000 mod 60 * 1000 + ms mod 1000"
    using mult_div_mod_eq [of 1000 ms] mult_div_mod_eq [of 60 "ms div 1000"] mult_div_mod_eq [of 60 "ms div 60000"]
    unfolding d by linarith
  have h: "ms div 3600000 \<le> 23" "0 \<le> ms div 3600000"
    using b div_less [of 3600000 ms 24] pos_imp_zdiv_nonneg_iff [of 3600000 ms] by simp_all
  have s: "0 \<le> x mod 60" "x mod 60 \<le> 59" "0 \<le> x mod 1000" "x mod 1000 \<le> 999" for x :: int
    using pos_mod_bound [of 60 x] pos_mod_bound [of 1000 x] by (auto simp: zle_diff1_eq [symmetric])
  have shown: "time_string t = pad_int 2 (ms div 3600000) @ '':'' @ pad_int 2 (ms div 60000 mod 60) @ '':'' @
      pad_int 2 (ms div 1000 mod 60) @ ''.'' @ pad_int 3 (ms mod 1000)"
    by (simp only: time_string_def ms_def Let_def)
  show ?thesis
    by (rule that [OF h(2,1) [unfolded ms_def] s(1,2) s(1,2) s(3,4) split [unfolded ms_def] shown [unfolded ms_def]])
qed

lemma length_time_string: "length (time_string t) = 12"
  by (rule time_fields [of t]) (simp add: pad_dec)

lemma time_less: "time_string a < time_string b \<longleftrightarrow> a mod msPerDay < b mod msPerDay"
proof -
  obtain h m s n where a: "0 \<le> h" "h \<le> 23" "0 \<le> m" "m \<le> 59" "0 \<le> s" "s \<le> 59" "0 \<le> n" "n \<le> 999"
      "a mod msPerDay = h * 3600000 + m * 60000 + s * 1000 + n"
      "time_string a = pad_int 2 h @ '':'' @ pad_int 2 m @ '':'' @ pad_int 2 s @ ''.'' @ pad_int 3 n"
    by (rule time_fields)
  obtain h' m' s' n' where b: "0 \<le> h'" "h' \<le> 23" "0 \<le> m'" "m' \<le> 59" "0 \<le> s'" "s' \<le> 59" "0 \<le> n'" "n' \<le> 999"
      "b mod msPerDay = h' * 3600000 + m' * 60000 + s' * 1000 + n'"
      "time_string b = pad_int 2 h' @ '':'' @ pad_int 2 m' @ '':'' @ pad_int 2 s' @ ''.'' @ pad_int 3 n'"
    by (rule time_fields)
  have "time_string a < time_string b \<longleftrightarrow> h < h' \<or> h = h' \<and> (m < m' \<or> m = m' \<and> (s < s' \<or> s = s' \<and> n < n'))"
    unfolding a(10) b(10)
    using a(1-8) b(1-8) by (simp add: append_less pad_less pad_dec)
  also have "\<dots> \<longleftrightarrow> a mod msPerDay < b mod msPerDay"
    unfolding a(9) b(9) using a(1-8) b(1-8)
    by (cases h h' rule: linorder_cases; cases m m' rule: linorder_cases; cases s s' rule: linorder_cases) linarith+
  finally show ?thesis .
qed

lemma div_mod_less:
  fixes k :: int
  assumes "0 < k"
  shows "a < b \<longleftrightarrow> a div k < b div k \<or> a div k = b div k \<and> a mod k < b mod k"
proof (cases "a div k" "b div k" rule: linorder_cases)
  case less
  with div_less [OF assms, of a "b div k"] div_bounds(1) [OF assms, of b] show ?thesis
    by (metis assms order.strict_trans2 not_less zdiv_mono1)
next
  case equal
  moreover have "a = k * (a div k) + a mod k" "b = k * (b div k) + b mod k" by simp_all
  ultimately show ?thesis by (metis add_less_cancel_left less_irrefl)
next
  case greater
  then show ?thesis using zdiv_mono1 [of a b k] assms by auto
qed

lemma instant_less:
  assumes "instant a" and "instant b"
  shows "iso_text a < iso_text b \<longleftrightarrow> a < b" and "iso_text a \<le> iso_text b \<longleftrightarrow> a \<le> b"
proof -
  have l: "iso_text a < iso_text b \<longleftrightarrow> a < b" if i: "instant a" "instant b" for a b
  proof -
    let ?d = "a div msPerDay" and ?e = "b div msPerDay"
    have d: "keyDay ?d" "keyDay ?e" using i by (simp_all only: instant_def)
    note less = dateKey_less [OF d] dateKey_less [OF d(2,1)]
    then have eq: "dateKey ?d = dateKey ?e \<longleftrightarrow> ?d = ?e" by (metis less_irrefl linorder_neqE)
    have "iso_text a < iso_text b \<longleftrightarrow> ?d < ?e \<or> ?d = ?e \<and> time_string a @ ''TZ'' < time_string b @ ''TZ''"
      unfolding iso_text_def date_string_key
      using append_less [of "dateKey ?d" "dateKey ?e"] d [THEN length_dateKey] less(1) eq
        append_less [of "time_string a" "time_string b"] length_time_string [of a] length_time_string [of b]
      by simp
    also have "\<dots> \<longleftrightarrow> ?d < ?e \<or> ?d = ?e \<and> a mod msPerDay < b mod msPerDay"
      using append_less [of "time_string a" "time_string b"] length_time_string [of a] length_time_string [of b]
        time_less [of a b] by simp
    also have "\<dots> \<longleftrightarrow> a < b" using div_mod_less [of msPerDay a b] by simp
    finally show ?thesis .
  qed
  show "iso_text a < iso_text b \<longleftrightarrow> a < b" using l assms .
  have "iso_text a \<le> iso_text b \<longleftrightarrow> \<not> iso_text b < iso_text a" by auto
  then show "iso_text a \<le> iso_text b \<longleftrightarrow> a \<le> b" using l [OF assms(2,1)] by auto
qed

subsection \<open>Reading an instant back\<close>

lemma parse_time_string: "parse_time (time_string t) = Some (t mod msPerDay)"
proof -
  obtain h m s n where f: "0 \<le> h" "h \<le> 23" "0 \<le> m" "m \<le> 59" "0 \<le> s" "s \<le> 59" "0 \<le> n" "n \<le> 999"
      "t mod msPerDay = h * 3600000 + m * 60000 + s * 1000 + n"
      "time_string t = pad_int 2 h @ '':'' @ pad_int 2 m @ '':'' @ pad_int 2 s @ ''.'' @ pad_int 3 n"
    by (rule time_fields)
  note p = pad_dec [of h 2] pad_dec [of m 2] pad_dec [of s 2] pad_dec [of n 3]
  have "take 2 (time_string t) = pad_int 2 h" "take 2 (drop 3 (time_string t)) = pad_int 2 m"
    "take 2 (drop 6 (time_string t)) = pad_int 2 s" "drop 9 (time_string t) = pad_int 3 n"
    "time_string t ! 2 = CHR '':''" "time_string t ! 5 = CHR '':''" "time_string t ! 8 = CHR ''.''"
    using f(1-8) p by (simp_all add: f(10) nth_append)
  then show ?thesis using f(1-9) p length_time_string [of t] by (simp add: parse_time_def)
qed

theorem date_parse_iso: "instant t \<Longrightarrow> date_parse legacy (iso_text t) = Some t"
proof -
  assume t: "instant t"
  then have k: "keyDay (t div msPerDay)" by (simp add: instant_def)
  obtain y m d where c: "civilFromDay (t div msPerDay) = (y, m, d)" by (metis prod_cases3)
  have parts: "take 10 (iso_text t) = dateKey (t div msPerDay)" "iso_text t ! 10 = CHR ''T''" "iso_text t ! 23 = CHR ''Z''"
    "length (iso_text t) = 24" "take 12 (drop 11 (iso_text t)) = time_string t"
    using length_dateKey [OF k] length_time_string [of t] by (simp_all add: iso_text_def date_string_key nth_append)
  show ?thesis
    using isDateKey_dateKey [OF k] key_parts_dateKey [OF k c] day_civil(2) [OF c]
    by (simp add: date_parse_def parts parse_time_string)
qed

end
