(* ===== verification/Base64.thy ===== *)
theory Base64
  imports Regex
begin

section \<open>Base64\<close>

text \<open>
  \<open>packages/core/src/cursor.ts\<close> (opaque cursors) and the strict codec of
  \<open>apps/api/src/lib/idempotency/idempotency-crypto.ts\<close>, over \<open>btoa\<close> and \<open>atob\<close> of the platform: encoding of
  bytes with padding, and forgiving decoding, which drops spaces, accepts missing padding and ignores
  the unused bits of the last digit.  An exception is \<^const>\<open>None\<close>.
\<close>

definition b64_char :: "nat \<Rightarrow> char" where
  "b64_char n = (if n < 26 then char_of (65 + n) else if n < 52 then char_of (71 + n) else if n < 62 then char_of (n - 4)
     else if n = 62 then CHR ''+'' else CHR ''/'')"

definition b64_val :: "char \<Rightarrow> nat option" where
  "b64_val c = (if is_upper c then Some (code_unit c - 65) else if is_lower c then Some (code_unit c - 71)
     else if is_digit c then Some (code_unit c + 4) else if c = CHR ''+'' then Some 62 else if c = CHR ''/'' then Some 63 else None)"

fun b64_encode :: "nat list \<Rightarrow> string" where
  "b64_encode [] = []"
| "b64_encode [a] = [b64_char (a div 4), b64_char (a mod 4 * 16), CHR ''='', CHR ''='']"
| "b64_encode [a, b] = [b64_char (a div 4), b64_char (a mod 4 * 16 + b div 16), b64_char (b mod 16 * 4), CHR ''='']"
| "b64_encode (a # b # c # xs) =
     b64_char (a div 4) # b64_char (a mod 4 * 16 + b div 16) # b64_char (b mod 16 * 4 + c div 64) # b64_char (c mod 64) # b64_encode xs"

fun b64_decode :: "nat list \<Rightarrow> nat list" where
  "b64_decode (p # q # r # s # xs) = (p * 4 + q div 16) # (q mod 16 * 16 + r div 4) # (r mod 4 * 64 + s) # b64_decode xs"
| "b64_decode [p, q, r] = [p * 4 + q div 16, q mod 16 * 16 + r div 4]"
| "b64_decode [p, q] = [p * 4 + q div 16]"
| "b64_decode _ = []"

definition btoa :: "string \<Rightarrow> string" where
  "btoa s = b64_encode (map code_unit s)"

definition ascii_space :: "char \<Rightarrow> bool" where
  "ascii_space c \<longleftrightarrow> c \<in> {CHR '' '', tab_char, newline, CHR 0x0C, CHR 0x0D}"

definition drop_padding :: "string \<Rightarrow> string" where
  "drop_padding t =
     (if length t mod 4 = 0 \<and> t \<noteq> [] \<and> last t = CHR ''='' then
        (let u = butlast t in if u \<noteq> [] \<and> last u = CHR ''='' then butlast u else u)
      else t)"

definition atob :: "string \<Rightarrow> string option" where
  "atob s =
     (let t = drop_padding (filter (\<lambda>c. \<not> ascii_space c) s) in
      if length t mod 4 = 1 \<or> \<not> list_all (\<lambda>c. b64_val c \<noteq> None) t then None
      else Some (map char_of (b64_decode (map (\<lambda>c. the (b64_val c)) t))))"

subsection \<open>\<open>cursor.ts\<close>\<close>

definition replace_char :: "char \<Rightarrow> char \<Rightarrow> string \<Rightarrow> string" where
  "replace_char a b s = map (\<lambda>c. if c = a then b else c) s"

definition toBase64Url :: "string \<Rightarrow> string" where
  "toBase64Url s = rev (dropWhile (\<lambda>c. c = CHR ''='') (rev (replace_char CHR ''/'' CHR ''_'' (replace_char CHR ''+'' CHR ''-'' (btoa s)))))"

definition fromBase64Url :: "string \<Rightarrow> string option" where
  "fromBase64Url s =
     (let padded = replace_char CHR ''_'' CHR ''/'' (replace_char CHR ''-'' CHR ''+'' s);
          pad = (if length padded mod 4 = 0 then [] else replicate (4 - length padded mod 4) CHR ''='')
      in atob (padded @ pad))"

subsection \<open>The strict codec\<close>

definition encodeBase64 :: "nat list \<Rightarrow> string" where
  "encodeBase64 bytes = btoa (map char_of bytes)"

definition BASE64_PATTERN :: re where
  "BASE64_PATTERN = (let digit64 = Cls (\<lambda>c. b64_val c \<noteq> None) in
     seqs [Bos, Star (exactly 4 digit64),
       opt (alts [seqs [exactly 2 digit64, lit ''==''], seqs [exactly 3 digit64, lit ''='']]), Eos])"

definition decodeBase64 :: "string \<Rightarrow> nat list option" where
  "decodeBase64 v =
     (if v = [] \<or> length v mod 4 \<noteq> 0 \<or> \<not> test BASE64_PATTERN v then None
      else (case atob v of None \<Rightarrow> None
        | Some s \<Rightarrow> (let bytes = map code_unit s in if encodeBase64 bytes \<noteq> v then None else Some bytes)))"

subsection \<open>Round trips\<close>

lemma b64_val_char: "n < 64 \<Longrightarrow> b64_val (b64_char n) = Some n"
proof -
  assume "n < 64"
  then consider "n < 26" | "26 \<le> n" "n < 52" | "52 \<le> n" "n < 62" | "n = 62" | "n = 63" by linarith
  moreover have "b64_val CHR ''+'' = Some 62" "b64_val CHR ''/'' = Some 63" by code_simp+
  ultimately show ?thesis
    by cases (simp_all add: b64_char_def, auto simp: b64_val_def is_upper_def is_lower_def is_digit_def)
qed

lemma b64_digit: "n < 64 \<Longrightarrow> \<not> ascii_space (b64_char n) \<and> b64_char n \<noteq> CHR ''=''"
proof -
  assume "n < 64"
  then have "b64_val (b64_char n) \<noteq> None" by (simp add: b64_val_char)
  moreover have "list_all (\<lambda>c. b64_val c = None) [CHR '' '', tab_char, newline, CHR 0x0C, CHR 0x0D, CHR ''='']" by code_simp
  then have "b64_val c = None" if "ascii_space c \<or> c = CHR ''=''" for c
    using that unfolding ascii_space_def by auto
  ultimately show ?thesis by metis
qed

text \<open>The sextets of a list of bytes, and the padding behind them.\<close>

fun sextets :: "nat list \<Rightarrow> nat list" where
  "sextets [] = []"
| "sextets [a] = [a div 4, a mod 4 * 16]"
| "sextets [a, b] = [a div 4, a mod 4 * 16 + b div 16, b mod 16 * 4]"
| "sextets (a # b # c # xs) = a div 4 # (a mod 4 * 16 + b div 16) # (b mod 16 * 4 + c div 64) # c mod 64 # sextets xs"

definition b64_pad :: "nat list \<Rightarrow> string" where
  "b64_pad xs = replicate ((3 - length xs mod 3) mod 3) CHR ''=''"

lemma encode_sextets: "b64_encode xs = map b64_char (sextets xs) @ b64_pad xs"
  by (induction xs rule: b64_encode.induct) (simp_all add: b64_pad_def numeral_2_eq_2)

lemma sextets_less: "\<forall>x \<in> set xs. x < 256 \<Longrightarrow> \<forall>s \<in> set (sextets xs). s < 64"
  by (induction xs rule: sextets.induct) auto

lemma decode_sextets: "\<forall>x \<in> set xs. x < 256 \<Longrightarrow> b64_decode (sextets xs) = xs"
proof (induction xs rule: sextets.induct)
  case (4 a b c xs)
  have "(a mod 4 * 16 + b div 16) div 16 = a mod 4" "(a mod 4 * 16 + b div 16) mod 16 = b div 16"
    "(b mod 16 * 4 + c div 64) div 4 = b mod 16" "(b mod 16 * 4 + c div 64) mod 4 = c div 64"
    using 4 by auto
  then show ?case using 4 by simp
next
  case (3 a b)
  have "(a mod 4 * 16 + b div 16) div 16 = a mod 4" "(a mod 4 * 16 + b div 16) mod 16 = b div 16" using 3 by auto
  then show ?case by simp
qed simp_all

lemma length_sextets_mod: "length (sextets xs) mod 4 = (4 - (3 - length xs mod 3) mod 3) mod 4"
  by (induction xs rule: sextets.induct) (auto simp: numeral_2_eq_2)


lemma drop_padding_digits:
  assumes "\<forall>s \<in> set S. s < 64" and "length S mod 4 \<noteq> 1"
  shows "drop_padding (map b64_char S @ replicate ((4 - length S mod 4) mod 4) CHR ''='') = map b64_char S"
    and "drop_padding (map b64_char S) = map b64_char S"
proof -
  have last: "last (map b64_char S) \<noteq> CHR ''=''" if "S \<noteq> []"
    using b64_digit [of "last S"] assms(1) that by (simp add: last_map)
  then show "drop_padding (map b64_char S) = map b64_char S" by (auto simp: drop_padding_def)
  consider "length S mod 4 = 0" | "length S mod 4 = 2" | "length S mod 4 = 3" using assms(2) by linarith
  then show "drop_padding (map b64_char S @ replicate ((4 - length S mod 4) mod 4) CHR ''='') = map b64_char S"
  proof cases
    case 1
    then show ?thesis using last by (auto simp: drop_padding_def)
  next
    case 2
    then have "(length S + 2) mod 4 = 0" by presburger
    then show ?thesis using 2 by (simp add: drop_padding_def numeral_2_eq_2 butlast_append)
  next
    case 3
    then have "(length S + 1) mod 4 = 0" "S \<noteq> []" by (presburger, auto)
    then show ?thesis using 3 last by (auto simp: drop_padding_def numeral_2_eq_2 butlast_append)
  qed
qed

lemma atob_digits:
  assumes "\<forall>s \<in> set S. s < 64" and "length S mod 4 \<noteq> 1"
  shows "atob (map b64_char S @ replicate ((4 - length S mod 4) mod 4) CHR ''='') = Some (map char_of (b64_decode S))"
proof -
  have "filter (\<lambda>c. \<not> ascii_space c) (map b64_char S @ replicate n CHR ''='') = map b64_char S @ replicate n CHR ''=''" for n
    using assms(1) b64_digit by (auto simp: filter_id_conv ascii_space_def)
  moreover have "list_all (\<lambda>c. b64_val c \<noteq> None) (map b64_char S)" using assms(1) by (auto simp: list_all_iff b64_val_char)
  moreover have "map (\<lambda>c. the (b64_val c)) (map b64_char S) = S"
    using assms(1) by (auto simp: b64_val_char intro!: map_idI)
  ultimately show ?thesis using drop_padding_digits(1) [OF assms] assms(2) by (simp add: atob_def Let_def del: map_map)
qed

lemma bytes_sextets:
  assumes "\<forall>x \<in> set xs. x < 256"
  shows "\<forall>s \<in> set (sextets xs). s < 64" "length (sextets xs) mod 4 \<noteq> 1"
    "b64_encode xs = map b64_char (sextets xs) @ replicate ((4 - length (sextets xs) mod 4) mod 4) CHR ''=''"
proof -
  show "\<forall>s \<in> set (sextets xs). s < 64" using assms by (rule sextets_less)
  have m: "length xs mod 3 = 0 \<or> length xs mod 3 = 1 \<or> length xs mod 3 = 2" by linarith
  then show "length (sextets xs) mod 4 \<noteq> 1" by (auto simp: length_sextets_mod)
  from m show "b64_encode xs = map b64_char (sextets xs) @ replicate ((4 - length (sextets xs) mod 4) mod 4) CHR ''=''"
    by (auto simp: encode_sextets length_sextets_mod b64_pad_def)
qed

lemma atob_btoa: "atob (btoa s) = Some s"
proof -
  have b: "\<forall>x \<in> set (map code_unit s). x < 256" by simp
  show ?thesis
    using atob_digits [OF bytes_sextets(1,2) [OF b]] decode_sextets [OF b]
    by (simp add: btoa_def bytes_sextets(3) [OF b] code_unit_def comp_def)
qed

lemma replace_digits:
  assumes "\<forall>s \<in> set S. s < 64"
  shows "replace_char CHR ''_'' CHR ''/'' (replace_char CHR ''-'' CHR ''+''
      (replace_char CHR ''/'' CHR ''_'' (replace_char CHR ''+'' CHR ''-'' (map b64_char S)))) = map b64_char S"
    and "CHR ''='' \<notin> set (replace_char CHR ''/'' CHR ''_'' (replace_char CHR ''+'' CHR ''-'' (map b64_char S)))"
proof -
  have "list_all (\<lambda>c. b64_val c = None) [CHR ''-'', CHR ''_'', CHR ''='']" by code_simp
  then have "b64_char n \<noteq> CHR ''-'' \<and> b64_char n \<noteq> CHR ''_'' \<and> CHR ''='' \<noteq> b64_char n" if "n < 64" for n
    using b64_val_char [OF that] by auto
  then show "replace_char CHR ''_'' CHR ''/'' (replace_char CHR ''-'' CHR ''+''
      (replace_char CHR ''/'' CHR ''_'' (replace_char CHR ''+'' CHR ''-'' (map b64_char S)))) = map b64_char S"
    "CHR ''='' \<notin> set (replace_char CHR ''/'' CHR ''_'' (replace_char CHR ''+'' CHR ''-'' (map b64_char S)))"
    using assms by (auto simp: replace_char_def)
qed

lemma strip_padding: "CHR ''='' \<notin> set t \<Longrightarrow> rev (dropWhile (\<lambda>c. c = CHR ''='') (rev (t @ replicate n CHR ''=''))) = t"
proof -
  assume "CHR ''='' \<notin> set t"
  then have "dropWhile (\<lambda>c. c = CHR ''='') (rev t) = rev t"
    by (auto simp: dropWhile_eq_self_iff hd_rev dest: last_in_set)
  moreover have "dropWhile (\<lambda>c. c = CHR ''='') (replicate n CHR ''='' @ u) = dropWhile (\<lambda>c. c = CHR ''='') u" for u
    by (induction n) auto
  ultimately show ?thesis by simp
qed

definition b64_rest :: re where
  "b64_rest = (let digit64 = Cls (\<lambda>c. b64_val c \<noteq> None) in
     opt (alts [seqs [exactly 2 digit64, lit ''==''], seqs [exactly 3 digit64, lit ''='']]))"

lemma star_self: "st \<in> set (rm (Star r) st)"
  by (cases st, hypsubst, subst rm.simps(5)) simp

lemma exactly_four: "exactly 4 r = seqs [r, r, r, r]"
  by (simp add: exactly_def eval_nat_numeral)

lemma star_step:
  "rm r (b, a, c) = [(b', a', c')] \<Longrightarrow> length a' < length a \<Longrightarrow> set (rm (Star r) (b', a', c')) \<subseteq> set (rm (Star r) (b, a, c))"
  by (subst (2) rm.simps(5)) auto

lemma b64_groups:
  assumes "\<forall>x \<in> set xs. x < 256"
  shows "\<exists>st \<in> set (rm (Star (exactly 4 (Cls (\<lambda>c. b64_val c \<noteq> None)))) (b, b64_encode xs, c)).
    rm (Seq b64_rest (Seq Eos Eps)) st \<noteq> []"
  using assms
proof (induction xs arbitrary: b rule: b64_encode.induct)
  case 1
  have "rm (Seq b64_rest (Seq Eos Eps)) (b, [], c) \<noteq> []" by (simp add: b64_rest_def opt_def Let_def)
  then show ?case by (intro bexI [OF _ star_self]) simp
next
  case (2 x)
  then have "x div 4 < 64" "x mod 4 * 16 < 64" by auto
  then have "rm (Seq b64_rest (Seq Eos Eps)) (b, b64_encode [x], c) \<noteq> []"
    by (simp add: b64_rest_def opt_def alts_def seqs_def exactly_def lit_def chr_def numeral_2_eq_2 numeral_3_eq_3 b64_val_char Let_def)
  then show ?case by (intro bexI [OF _ star_self]) simp
next
  case (3 x y)
  then have "x div 4 < 64" "x mod 4 * 16 + y div 16 < 64" "y mod 16 * 4 < 64" by auto
  then have "rm (Seq b64_rest (Seq Eos Eps)) (b, b64_encode [x, y], c) \<noteq> []"
    by (simp add: b64_rest_def opt_def alts_def seqs_def exactly_def lit_def chr_def numeral_2_eq_2 numeral_3_eq_3 b64_val_char Let_def)
  then show ?case by (intro bexI [OF _ star_self]) simp
next
  case (4 x y z xs)
  let ?w = "[b64_char (x div 4), b64_char (x mod 4 * 16 + y div 16), b64_char (y mod 16 * 4 + z div 64), b64_char (z mod 64)]"
  have "x div 4 < 64" "x mod 4 * 16 + y div 16 < 64" "y mod 16 * 4 + z div 64 < 64" "z mod 64 < 64" using 4(2) by auto
  then have "rm (exactly 4 (Cls (\<lambda>c. b64_val c \<noteq> None))) (b, ?w @ b64_encode xs, c) = [(rev ?w @ b, b64_encode xs, c)]"
    by (simp add: exactly_four seqs_def b64_val_char)
  then have "set (rm (Star (exactly 4 (Cls (\<lambda>c. b64_val c \<noteq> None)))) (rev ?w @ b, b64_encode xs, c))
      \<subseteq> set (rm (Star (exactly 4 (Cls (\<lambda>c. b64_val c \<noteq> None)))) (b, ?w @ b64_encode xs, c))"
    by (rule star_step) simp
  moreover have "\<exists>st \<in> set (rm (Star (exactly 4 (Cls (\<lambda>c. b64_val c \<noteq> None)))) (rev ?w @ b, b64_encode xs, c)).
      rm (Seq b64_rest (Seq Eos Eps)) st \<noteq> []" using 4(2) by (intro 4(1)) simp
  ultimately have "\<exists>st \<in> set (rm (Star (exactly 4 (Cls (\<lambda>c. b64_val c \<noteq> None)))) (b, ?w @ b64_encode xs, c)).
      rm (Seq b64_rest (Seq Eos Eps)) st \<noteq> []" by blast
  then show ?case by (simp only: b64_encode.simps append.simps)
qed

lemma b64_pattern: "test BASE64_PATTERN (btoa s)"
proof -
  have "\<forall>x \<in> set (map code_unit s). x < 256" by simp
  from b64_groups [OF this] show ?thesis
    by (auto simp: BASE64_PATTERN_def Let_def seqs_def test_anchored btoa_def b64_rest_def)
qed

lemma length_btoa: "length (btoa s) mod 4 = 0"
  by (simp add: btoa_def) (induction "map code_unit s" arbitrary: s rule: b64_encode.induct; auto)

lemma encodeBase64_btoa: "encodeBase64 (map code_unit s) = btoa s"
  by (simp add: encodeBase64_def code_unit_def comp_def)

lemma btoa_Nil: "btoa s = [] \<longleftrightarrow> s = []"
  using atob_btoa [of s] atob_btoa [of "[]"] by (auto simp: btoa_def)

lemma decode_btoa: "decodeBase64 (btoa s) = (if s = [] then None else Some (map code_unit s))"
  using atob_btoa [of s] b64_pattern [of s] length_btoa [of s] encodeBase64_btoa [of s]
  by (auto simp: decodeBase64_def Let_def btoa_Nil)

lemma decode_encode_bytes:
  assumes "\<forall>x \<in> set bs. x < 256" and "bs \<noteq> []"
  shows "decodeBase64 (encodeBase64 bs) = Some bs"
proof -
  have "map code_unit (map char_of bs) = bs" using assms(1) by (auto simp: code_unit_def intro!: map_idI)
  with decode_btoa [of "map char_of bs"] encodeBase64_btoa [of "map char_of bs"] assms(2) show ?thesis by simp
qed

text \<open>an opaque cursor is read back as the text it was made from, and the strict codec reads back the
  bytes it wrote and accepts no other text for them.\<close>
theorem base64_roundtrip:
  "fromBase64Url (toBase64Url s) = Some s
   \<and> decodeBase64 (encodeBase64 (map code_unit s)) = (if s = [] then None else Some (map code_unit s))
   \<and> (case decodeBase64 v of None \<Rightarrow> True | Some bytes \<Rightarrow> encodeBase64 bytes = v)"
proof -
  let ?S = "sextets (map code_unit s)"
  have b: "\<forall>x \<in> set (map code_unit s). x < 256" by simp
  note S = bytes_sextets [OF b]
  have "toBase64Url s = replace_char CHR ''/'' CHR ''_'' (replace_char CHR ''+'' CHR ''-'' (map b64_char ?S))"
    using strip_padding [OF replace_digits(2) [OF S(1)]]
    by (simp add: toBase64Url_def btoa_def S(3)) (simp add: replace_char_def)
  then have "fromBase64Url (toBase64Url s) = atob (map b64_char ?S @ replicate ((4 - length ?S mod 4) mod 4) CHR ''='')"
    by (simp add: fromBase64Url_def Let_def replace_digits(1) [OF S(1)])
  also have "\<dots> = Some s" using atob_btoa [of s] by (simp add: btoa_def S(3))
  finally have "fromBase64Url (toBase64Url s) = Some s" .
  moreover have "case decodeBase64 v of None \<Rightarrow> True | Some bytes \<Rightarrow> encodeBase64 bytes = v"
    by (auto simp: decodeBase64_def Let_def split: option.split)
  ultimately show ?thesis by (simp add: encodeBase64_btoa decode_btoa)
qed

end
