(* ===== verification/SqlLogic.thy ===== *)
theory SqlLogic
  imports Prelude
begin

section \<open>Conditions of SQL\<close>

text \<open>
  The three-valued logic of the conditions the queries use: \<open>NULL\<close> is \<^const>\<open>None\<close>, a comparison with it is
  unknown, and a row is selected when its condition \<open>holds\<close>.
\<close>

type_synonym tern = "bool option"

fun sql_and :: "tern \<Rightarrow> tern \<Rightarrow> tern" where
  "sql_and (Some False) y = Some False"
| "sql_and x (Some False) = Some False"
| "sql_and (Some True) y = y"
| "sql_and None y = None"

fun sql_or :: "tern \<Rightarrow> tern \<Rightarrow> tern" where
  "sql_or (Some True) y = Some True"
| "sql_or x (Some True) = Some True"
| "sql_or (Some False) y = y"
| "sql_or None y = None"

definition sql_lt :: "'a::linorder option \<Rightarrow> 'a \<Rightarrow> tern" where
  "sql_lt col v = map_option (\<lambda>x. x < v) col"
definition sql_le :: "'a::linorder option \<Rightarrow> 'a \<Rightarrow> tern" where
  "sql_le col v = map_option (\<lambda>x. x \<le> v) col"
definition sql_ge :: "'a::linorder option \<Rightarrow> 'a \<Rightarrow> tern" where
  "sql_ge col v = map_option (\<lambda>x. v \<le> x) col"
definition sql_not_in :: "'a option \<Rightarrow> 'a list \<Rightarrow> tern" where
  "sql_not_in col vs = map_option (\<lambda>x. x \<notin> set vs) col"
definition sql_eq :: "'a option \<Rightarrow> 'a \<Rightarrow> tern" where
  "sql_eq col v = map_option (\<lambda>x. x = v) col"
definition sql_in :: "'a option \<Rightarrow> 'a list \<Rightarrow> tern" where
  "sql_in col vs = (if vs = [] then Some False else map_option (\<lambda>x. x \<in> set vs) col)"
definition sql_ne :: "'a option \<Rightarrow> 'a \<Rightarrow> tern" where
  "sql_ne col v = map_option (\<lambda>x. x \<noteq> v) col"
definition is_null :: "'a option \<Rightarrow> tern" where
  "is_null col = Some (col = None)"
definition holds :: "tern \<Rightarrow> bool" where
  "holds t \<longleftrightarrow> t = Some True"

lemma holds_and [simp]: "holds (sql_and x y) \<longleftrightarrow> holds x \<and> holds y"
  by (induction x y rule: sql_and.induct) (auto simp: holds_def)

lemma holds_or [simp]: "holds (sql_or x y) \<longleftrightarrow> holds x \<or> holds y"
  by (induction x y rule: sql_or.induct) (auto simp: holds_def)

lemma holds_is_null [simp]: "holds (is_null c) \<longleftrightarrow> c = None"
  by (simp add: holds_def is_null_def)

lemma holds_value [simp]: "holds (Some b) \<longleftrightarrow> b" "\<not> holds None"
  by (simp_all add: holds_def)

lemma holds_lt [simp]: "holds (sql_lt c v) \<longleftrightarrow> (\<exists>x. c = Some x \<and> x < v)"
  by (auto simp: holds_def sql_lt_def)

lemma holds_le: "holds (sql_le c v) \<longleftrightarrow> (\<exists>x. c = Some x \<and> x \<le> v)"
  by (auto simp: holds_def sql_le_def)

lemma holds_eq [simp]: "holds (sql_eq c v) \<longleftrightarrow> c = Some v"
  by (auto simp: holds_def sql_eq_def)

lemma holds_ne [simp]: "holds (sql_ne c v) \<longleftrightarrow> (\<exists>x. c = Some x \<and> x \<noteq> v)"
  by (auto simp: holds_def sql_ne_def)

lemma holds_in [simp]: "holds (sql_in c vs) \<longleftrightarrow> (\<exists>x \<in> set vs. c = Some x)"
  by (auto simp: holds_def sql_in_def)

lemmas holds_simps = holds_is_null holds_value holds_lt holds_eq holds_in

end
