(* ===== verification/ChangelogSlice.thy ===== *)
theory ChangelogSlice
  imports Prelude
begin

section \<open>Heading-aware changelog slicing\<close>

text \<open>
  Models \<open>packages/core/src/changelog-slice.ts\<close>, \<open>changelog-range.ts\<close> and the token counting of
  \<open>tokens.ts\<close>: clamping of the range parameters, the scan for headings, the choice of the slice's
  end in character and in token mode, the response built around a slice, and the client's loop that
  follows \<open>nextOffset\<close>.  A document is a list of UTF-16 code units, so that an emoji is two of them.
  The BPE encoder (js-tiktoken) is the parameter \<open>enc\<close>.
\<close>

subsection \<open>Text\<close>

text \<open>A JavaScript string is a list of UTF-16 code units; offsets and lengths count units.\<close>

type_synonym utf16 = "nat list"

abbreviation newline_unit :: nat where "newline_unit \<equiv> 0x0A"
abbreviation tab_unit :: nat where "tab_unit \<equiv> 0x09"
abbreviation space_unit :: nat where "space_unit \<equiv> 0x20"
abbreviation hash_unit :: nat where "hash_unit \<equiv> 0x23"

subsection \<open>Parameters and their clamping\<close>

definition DEFAULT_CHANGELOG_SLICE_LIMIT :: nat where "DEFAULT_CHANGELOG_SLICE_LIMIT = 40000"
definition MAX_SLICE_LIMIT :: nat where "MAX_SLICE_LIMIT = 500000"
definition DEFAULT_CHANGELOG_SLICE_TOKENS :: nat where "DEFAULT_CHANGELOG_SLICE_TOKENS = 10000"
definition MAX_SLICE_TOKENS :: nat where "MAX_SLICE_TOKENS = 200000"

record slice_options =
  opt_offset :: "jsnum option"
  opt_limit :: "jsnum option"
  opt_tokens :: "jsnum option"

record slice_result =
  sr_content :: utf16
  sr_offset :: nat
  sr_limit :: nat
  sr_tokens :: "nat option"
  sr_nextOffset :: "nat option"
  sr_totalChars :: nat
  sr_sliceTokens :: "nat option"

definition parseRangeParam :: "string option \<Rightarrow> jsnum option" where
  "parseRangeParam raw = (case raw of None \<Rightarrow> None
     | Some s \<Rightarrow> if s = [] then None else if is_finite (js_Number s) then Some (js_Number s) else None)"

definition clampLimit :: "jsnum option \<Rightarrow> nat" where
  "clampLimit limit = (case limit of
       Some (Fin r) \<Rightarrow>
         if r \<le> 0 then DEFAULT_CHANGELOG_SLICE_LIMIT
         else if r > of_nat MAX_SLICE_LIMIT then MAX_SLICE_LIMIT
         else nat \<lfloor>r\<rfloor>
     | _ \<Rightarrow> DEFAULT_CHANGELOG_SLICE_LIMIT)"

definition clampOffset :: "jsnum option \<Rightarrow> nat \<Rightarrow> nat" where
  "clampOffset offset totalChars = (case offset of
       Some (Fin r) \<Rightarrow>
         if r < 0 then 0 else if r \<ge> of_nat totalChars then totalChars else nat \<lfloor>r\<rfloor>
     | _ \<Rightarrow> 0)"

definition clampTokens :: "jsnum option \<Rightarrow> nat option" where
  "clampTokens tokens = (case tokens of
       None \<Rightarrow> None
     | Some (Fin r) \<Rightarrow>
         Some (if r \<le> 0 then DEFAULT_CHANGELOG_SLICE_TOKENS
               else if r > of_nat MAX_SLICE_TOKENS then MAX_SLICE_TOKENS
               else nat \<lfloor>r\<rfloor>)
     | Some _ \<Rightarrow> Some DEFAULT_CHANGELOG_SLICE_TOKENS)"

subsection \<open>Token counts\<close>

definition LIVE_ENCODE_MAX_CHARS :: nat where "LIVE_ENCODE_MAX_CHARS = 256 * 1024"

definition countTokens :: "(utf16 \<Rightarrow> nat list) \<Rightarrow> utf16 \<Rightarrow> nat" where
  "countTokens enc text = (if length text = 0 then 0 else length (enc text))"

definition estimateTokens :: "utf16 \<Rightarrow> nat" where
  "estimateTokens text = (if length text = 0 then 0 else (length text + 3) div 4)"

definition countTokensSafe :: "(utf16 \<Rightarrow> nat list) \<Rightarrow> utf16 \<Rightarrow> nat" where
  "countTokensSafe enc text =
     (if length text = 0 then 0
      else if length text \<ge> LIVE_ENCODE_MAX_CHARS then estimateTokens text
      else length (enc text))"

definition computeContentSize :: "(utf16 \<Rightarrow> nat list) \<Rightarrow> utf16 option \<Rightarrow> nat \<times> nat" where
  "computeContentSize enc content = (case content of
       None \<Rightarrow> (0, 0)
     | Some c \<Rightarrow> if c = [] then (0, 0) else (length c, countTokensSafe enc c))"

subsection \<open>Headings\<close>

text \<open>The \<open>while\<close> loop of \<open>isHeadingLine\<close>: the index after the run of \<open>#\<close> and its length.\<close>

function hash_run :: "utf16 \<Rightarrow> nat \<Rightarrow> nat \<Rightarrow> nat \<Rightarrow> nat \<times> nat" where
  "hash_run text i lineEnd hashes =
     (if i < lineEnd \<and> text ! i = hash_unit \<and> hashes < 3
      then hash_run text (i + 1) lineEnd (hashes + 1) else (i, hashes))"
  by pat_completeness auto
termination by (relation "measure (\<lambda>(text, i, lineEnd, hashes). lineEnd - i)") auto

declare hash_run.simps [simp del]

definition isHeadingLine :: "utf16 \<Rightarrow> nat \<Rightarrow> nat \<Rightarrow> bool" where
  "isHeadingLine text lineStart lineEnd =
     (let (i, hashes) = hash_run text lineStart lineEnd 0
      in if hashes = 0 \<or> i \<ge> lineEnd then False
         else text ! i = space_unit \<or> text ! i = tab_unit)"

text \<open>One iteration of the loop of \<open>findHeadings\<close>; the state is the positions pushed so far and
  the start of the current line.\<close>

definition heading_step :: "utf16 \<Rightarrow> nat \<Rightarrow> nat list \<times> nat \<Rightarrow> nat list \<times> nat" where
  "heading_step text i st =
     (let (positions, lineStart) = st
      in if i = length text \<or> text ! i = newline_unit
         then (if isHeadingLine text lineStart i then positions @ [lineStart] else positions, i + 1)
         else (positions, lineStart))"

definition findHeadings :: "utf16 \<Rightarrow> nat list" where
  "findHeadings text = fst (fold (heading_step text) [0..<length text + 1] ([], 0))"

subsection \<open>The end of a slice\<close>

fun token_walk ::
  "(utf16 \<Rightarrow> nat list) \<Rightarrow> utf16 \<Rightarrow> nat \<Rightarrow> nat \<Rightarrow> nat \<Rightarrow> nat option \<Rightarrow> nat list \<Rightarrow> nat option" where
  "token_walk enc content budget cursor runningTokens lastFit [] = lastFit"
| "token_walk enc content budget cursor runningTokens lastFit (e # es) =
     (let nextTotal = runningTokens + countTokens enc (slice content cursor e)
      in if nextTotal \<le> budget then token_walk enc content budget e nextTotal (Some e) es
         else lastFit)"

definition findTokenSliceEnd ::
  "(utf16 \<Rightarrow> nat list) \<Rightarrow> utf16 \<Rightarrow> nat \<Rightarrow> nat \<Rightarrow> nat list \<Rightarrow> nat \<Rightarrow> nat" where
  "findTokenSliceEnd enc content snappedStart budget headings totalChars =
     (let later = filter (\<lambda>h. h > snappedStart) headings;
          candidates = (if later = [] \<or> last later \<noteq> totalChars then later @ [totalChars] else later)
      in (case token_walk enc content budget snappedStart 0 None candidates of
            Some e \<Rightarrow> e
          | None \<Rightarrow> hd candidates))"

definition snap_start :: "nat list \<Rightarrow> nat \<Rightarrow> nat \<Rightarrow> nat" where
  "snap_start headings offset totalChars =
     (if offset = 0 then 0
      else (case find (\<lambda>p. p \<ge> offset) headings of Some p \<Rightarrow> p | None \<Rightarrow> totalChars))"

definition char_slice_end :: "nat list \<Rightarrow> nat \<Rightarrow> nat \<Rightarrow> nat \<Rightarrow> nat" where
  "char_slice_end headings snappedStart limit totalChars =
     (let requestedEnd = snappedStart + limit;
          snappedEnd =
            (if requestedEnd \<ge> totalChars then totalChars
             else (case find (\<lambda>h. h > snappedStart \<and> h \<le> requestedEnd) (rev headings) of
                     Some lastInRange \<Rightarrow> lastInRange
                   | None \<Rightarrow>
                       (case find (\<lambda>h. h > requestedEnd) headings of
                          Some overshoot \<Rightarrow> overshoot
                        | None \<Rightarrow> requestedEnd)))
      in if snappedEnd \<le> snappedStart then min totalChars (snappedStart + max limit 1)
         else snappedEnd)"

definition sliceChangelog :: "(utf16 \<Rightarrow> nat list) \<Rightarrow> utf16 \<Rightarrow> slice_options \<Rightarrow> slice_result" where
  "sliceChangelog enc content opts =
     (let totalChars = length content;
          offset = clampOffset (opt_offset opts) totalChars;
          tokenBudget = clampTokens (opt_tokens opts);
          limit = clampLimit (opt_limit opts);
          headings = findHeadings content;
          snappedStart = snap_start headings offset totalChars;
          snappedEnd = (case tokenBudget of
              Some budget \<Rightarrow>
                if snappedStart \<ge> totalChars then totalChars
                else findTokenSliceEnd enc content snappedStart budget headings totalChars
            | None \<Rightarrow> char_slice_end headings snappedStart limit totalChars);
          piece = slice content snappedStart snappedEnd
      in \<lparr>sr_content = piece, sr_offset = snappedStart, sr_limit = limit, sr_tokens = tokenBudget,
          sr_nextOffset = (if snappedEnd < totalChars then Some snappedEnd else None),
          sr_totalChars = totalChars,
          sr_sliceTokens = map_option (\<lambda>_. countTokens enc piece) tokenBudget\<rparr>)"

subsection \<open>Facts about the heading scan\<close>

text \<open>The specification of a heading: a line start followed by one to three \<open>#\<close> and a blank.\<close>

definition blank :: "nat \<Rightarrow> bool" where
  "blank c \<longleftrightarrow> c = space_unit \<or> c = tab_unit"

definition heading_at :: "utf16 \<Rightarrow> nat \<Rightarrow> bool" where
  "heading_at text p \<longleftrightarrow> p < length text \<and> (p = 0 \<or> text ! (p - 1) = newline_unit) \<and>
     (\<exists>k \<in> {1, 2, 3}. p + k < length text \<and> (\<forall>j < k. text ! (p + j) = hash_unit) \<and>
        blank (text ! (p + k)))"

lemma isHeadingLine_iff:
  assumes "ls \<le> le"
  shows "isHeadingLine text ls le \<longleftrightarrow>
    (\<exists>k \<in> {1, 2, 3}. ls + k < le \<and> (\<forall>j < k. text ! (ls + j) = hash_unit) \<and> blank (text ! (ls + k)))"
proof -
  have r: "hash_run text ls le 0 =
     (if ls < le \<and> text ! ls = hash_unit then
        (if ls + 1 < le \<and> text ! (ls + 1) = hash_unit then
           (if ls + 2 < le \<and> text ! (ls + 2) = hash_unit then (ls + 3, 3) else (ls + 2, 2))
         else (ls + 1, 1))
      else (ls, 0))"
    by (simp add: hash_run.simps [of "text" ls] hash_run.simps [of "text" "Suc ls"]
        hash_run.simps [of "text" "Suc (Suc ls)"] hash_run.simps [of "text" "Suc (Suc (Suc ls))"]
        numeral_2_eq_2 numeral_3_eq_3)
  have lt1: "(\<forall>j < (1::nat). P j) \<longleftrightarrow> P 0" for P by auto
  have lt2: "(\<forall>j < (2::nat). P j) \<longleftrightarrow> P 0 \<and> P 1" for P by (auto simp: less_2_cases_iff)
  have lt3: "(\<forall>j < (3::nat). P j) \<longleftrightarrow> P 0 \<and> P 1 \<and> P 2" for P
    by (auto simp: numeral_3_eq_3 less_Suc_eq numeral_2_eq_2)
  show ?thesis
    unfolding isHeadingLine_def r lt1 lt2 lt3 blank_def
    by (auto simp: Let_def lt1 lt2 lt3)
qed

lemma heading_at_isHeadingLine:
  assumes "ls \<le> n" "n \<le> length text" "ls = 0 \<or> text ! (ls - 1) = newline_unit"
    and "\<And>i. ls \<le> i \<Longrightarrow> i < n \<Longrightarrow> text ! i \<noteq> newline_unit"
    and "n = length text \<or> text ! n = newline_unit"
  shows "heading_at text ls \<longleftrightarrow> isHeadingLine text ls n"
proof
  assume "heading_at text ls"
  then obtain k where k: "k \<in> {1,2,3}" "ls + k < length text" "\<forall>j < k. text ! (ls + j) = hash_unit"
    "blank (text ! (ls + k))" unfolding heading_at_def by blast
  have "ls + k < n"
  proof (rule ccontr)
    assume "\<not> ls + k < n"
    then have nk: "n \<le> ls + k" by simp
    then have "n \<noteq> length text" using k(2) by simp
    with assms(5) nk have nl: "text ! n = newline_unit" "n \<le> ls + k" by blast+
    show False
    proof (cases "n = ls + k")
      case True
      with nl k(4) show False by (auto simp: blank_def)
    next
      case False
      then have "n - ls < k" using nk assms(1) by linarith
      then have "text ! (ls + (n - ls)) = hash_unit" using k(3) by blast
      with nl(1) assms(1) show False by simp
    qed
  qed
  with k show "isHeadingLine text ls n" unfolding isHeadingLine_iff [OF assms(1)] by blast
next
  assume "isHeadingLine text ls n"
  then obtain k where k: "k \<in> {1,2,3}" "ls + k < n" "\<forall>j < k. text ! (ls + j) = hash_unit"
    "blank (text ! (ls + k))" unfolding isHeadingLine_iff [OF assms(1)] by blast
  with assms(2) have "ls + k < length text" "ls < length text" by linarith+
  with k assms(3) show "heading_at text ls" unfolding heading_at_def by blast
qed

text \<open>The loop's invariant before index \<open>n\<close>.\<close>

definition scan_inv :: "utf16 \<Rightarrow> nat \<Rightarrow> nat list \<times> nat \<Rightarrow> bool" where
  "scan_inv text n st \<longleftrightarrow> snd st \<le> n \<and> (snd st = 0 \<or> text ! (snd st - 1) = newline_unit) \<and>
     (\<forall>i. snd st \<le> i \<and> i < n \<longrightarrow> text ! i \<noteq> newline_unit) \<and>
     fst st = filter (heading_at text) [0..<snd st]"

lemma filter_upt_split:
  "a \<le> b \<Longrightarrow> (\<And>p. a \<le> p \<Longrightarrow> p < b \<Longrightarrow> \<not> P p) \<Longrightarrow> filter P [0..<b] = filter P [0..<a]"
proof -
  assume ab: "a \<le> b" and no: "\<And>p. a \<le> p \<Longrightarrow> p < b \<Longrightarrow> \<not> P p"
  have "[0..<b] = [0..<a] @ [a..<b]" using ab upt_add_eq_append [of 0 a "b - a"] by simp
  moreover have "filter P [a..<b] = []" using no by (auto simp: filter_empty_conv)
  ultimately show ?thesis by simp
qed

lemma filter_line:
  assumes "ls \<le> n" "n \<le> length text" "\<And>i. ls \<le> i \<Longrightarrow> i < n \<Longrightarrow> text ! i \<noteq> newline_unit"
  shows "filter (heading_at text) [0..<Suc n] =
    filter (heading_at text) [0..<ls] @ (if heading_at text ls then [ls] else [])"
proof -
  have "filter (heading_at text) [0..<Suc n] = filter (heading_at text) [0..<Suc ls]"
  proof (rule filter_upt_split)
    fix p assume p: "Suc ls \<le> p" "p < Suc n"
    then have "text ! (p - 1) \<noteq> newline_unit" using assms(3) [of "p - 1"] by auto
    with p show "\<not> heading_at text p" by (auto simp: heading_at_def)
  qed (use assms in auto)
  then show ?thesis by auto
qed

lemma heading_step_inv:
  assumes "scan_inv text n st" "n < length text"
  shows "scan_inv text (Suc n) (heading_step text n st)"
proof (cases "text ! n = newline_unit")
  case True
  have h: "heading_at text (snd st) \<longleftrightarrow> isHeadingLine text (snd st) n"
    using assms True by (intro heading_at_isHeadingLine) (auto simp: scan_inv_def)
  have "filter (heading_at text) [0..<Suc n] =
      filter (heading_at text) [0..<snd st] @ (if heading_at text (snd st) then [snd st] else [])"
    using assms by (intro filter_line) (auto simp: scan_inv_def)
  with True h assms show ?thesis
    by (auto simp: scan_inv_def heading_step_def split: prod.splits)
next
  case False
  with assms show ?thesis
    by (auto simp: scan_inv_def heading_step_def less_Suc_eq split: prod.splits)
qed

lemma scan_prefix: "n \<le> length text \<Longrightarrow> scan_inv text n (fold (heading_step text) [0..<n] ([], 0))"
proof (induction n)
  case 0
  then show ?case by (simp add: scan_inv_def)
next
  case (Suc n)
  then show ?case by (auto intro!: heading_step_inv)
qed

lemma findHeadings_eq: "findHeadings text = filter (heading_at text) [0..<length text]"
proof -
  let ?n = "length text"
  define st where "st = fold (heading_step text) [0..<?n] ([], 0)"
  have inv: "scan_inv text ?n st" unfolding st_def by (rule scan_prefix) simp
  have "heading_at text (snd st) \<longleftrightarrow> isHeadingLine text (snd st) ?n"
    using inv by (intro heading_at_isHeadingLine) (auto simp: scan_inv_def)
  moreover have "filter (heading_at text) [0..<Suc ?n] =
      filter (heading_at text) [0..<snd st] @ (if heading_at text (snd st) then [snd st] else [])"
    using inv by (intro filter_line) (auto simp: scan_inv_def)
  moreover have "filter (heading_at text) [0..<Suc ?n] = filter (heading_at text) [0..<?n]"
    by (simp add: heading_at_def)
  moreover have "fst st = filter (heading_at text) [0..<snd st]"
    using inv by (simp add: scan_inv_def)
  ultimately have "fst (heading_step text ?n st) = filter (heading_at text) [0..<?n]"
    by (cases st) (simp add: heading_step_def del: upt_Suc split: if_splits)
  then show ?thesis by (simp add: findHeadings_def st_def)
qed

lemma findHeadings_sorted [simp]: "sorted_wrt (<) (findHeadings text)"
  by (simp add: findHeadings_eq sorted_wrt_filter)

lemma findHeadings_less: "h \<in> set (findHeadings text) \<Longrightarrow> h < length text"
  by (auto simp: findHeadings_eq)

subsection \<open>Facts about the boundaries of a slice\<close>

lemma clampLimit_bounds: "clampLimit l \<le> MAX_SLICE_LIMIT"
  by (auto simp: clampLimit_def DEFAULT_CHANGELOG_SLICE_LIMIT_def MAX_SLICE_LIMIT_def
      split: option.split jsnum.split) linarith

lemma clampOffset_le: "clampOffset off n \<le> n"
  by (auto simp: clampOffset_def split: option.split jsnum.split) linarith

lemma clampOffset_nat [simp]: "clampOffset (Some (Fin (of_nat k))) n = min k n"
  by (auto simp: clampOffset_def)

lemma clampTokens_Some: "(clampTokens t = None) \<longleftrightarrow> (t = None)"
  by (auto simp: clampTokens_def split: option.split jsnum.split)

lemma snap_start_bounds:
  assumes "\<And>h. h \<in> set H \<Longrightarrow> h \<le> n" and "off \<le> n"
  shows "off \<le> snap_start H off n" and "snap_start H off n \<le> n"
  using assms by (auto simp: snap_start_def find_Some_iff in_set_conv_nth split: option.split)

lemma find_ge_member:
  assumes "sorted_wrt (<) (H :: nat list)" and "x \<in> set H"
  shows "find (\<lambda>p. p \<ge> x) H = Some x"
  using assms by (induction H) auto

lemma snap_start_aligned:
  "sorted_wrt (<) H \<Longrightarrow> off = 0 \<or> off \<in> set H \<Longrightarrow> snap_start H off n = off"
  by (auto simp: snap_start_def find_ge_member)

lemma snap_start_past:
  "off \<noteq> 0 \<Longrightarrow> \<forall>h \<in> set H. h < off \<Longrightarrow> snap_start H off n = n"
proof -
  assume "off \<noteq> 0" and "\<forall>h \<in> set H. h < off"
  then have "find (\<lambda>p. p \<ge> off) H = None" by (auto simp: find_None_iff not_le)
  with \<open>off \<noteq> 0\<close> show ?thesis by (simp add: snap_start_def)
qed

lemma char_slice_end_last:
  assumes "s < n" and "\<forall>h \<in> set H. h \<le> s"
  shows "char_slice_end H s limit n = min n (s + max limit 1)"
proof -
  have 1: "find (\<lambda>h. h > s \<and> h \<le> s + limit) (rev H) = None"
    using assms(2) by (auto simp: find_None_iff not_less)
  have 2: "find (\<lambda>h. h > s + limit) H = None"
    using assms(2) by (auto simp: find_None_iff not_less intro: trans_le_add1)
  show ?thesis using assms(1) by (auto simp: char_slice_end_def Let_def 1 2 min_def)
qed

lemma char_slice_end_inner:
  assumes "s < n" and "h \<in> set H" and "h > s" and lt: "\<And>h. h \<in> set H \<Longrightarrow> h < n"
  shows "(char_slice_end H s limit n \<in> set H \<and> s < char_slice_end H s limit n) \<or>
         (char_slice_end H s limit n = n \<and> s + limit \<ge> n)"
proof (cases "s + limit \<ge> n")
  case True
  with assms(1) show ?thesis by (auto simp: char_slice_end_def Let_def)
next
  case False
  consider (in_range) x where "find (\<lambda>h. h > s \<and> h \<le> s + limit) (rev H) = Some x"
    | (over) "find (\<lambda>h. h > s \<and> h \<le> s + limit) (rev H) = None"
    by (cases "find (\<lambda>h. h > s \<and> h \<le> s + limit) (rev H)") auto
  then show ?thesis
  proof cases
    case in_range
    then have "x \<in> set H" "x > s" by (auto simp: find_Some_iff rev_nth)
    with in_range False show ?thesis by (auto simp: char_slice_end_def Let_def)
  next
    case over
    with assms(2,3) have "h > s + limit" by (auto simp: find_None_iff)
    then have "find (\<lambda>h. h > s + limit) H \<noteq> None" using assms(2) by (auto simp: find_None_iff)
    then obtain y where y: "find (\<lambda>h. h > s + limit) H = Some y" by blast
    then have "y \<in> set H" "y > s + limit" by (auto simp: find_Some_iff)
    with y over False show ?thesis by (auto simp: char_slice_end_def Let_def)
  qed
qed

lemma char_slice_end_bounds:
  assumes "s < n" and lt: "\<And>h. h \<in> set H \<Longrightarrow> h < n"
  shows "s < char_slice_end H s limit n" and "char_slice_end H s limit n \<le> n"
proof -
  have "s < char_slice_end H s limit n \<and> char_slice_end H s limit n \<le> n"
  proof (cases "\<forall>h \<in> set H. h \<le> s")
    case True
    then show ?thesis using char_slice_end_last [OF assms(1) True, of limit] assms(1) by auto
  next
    case False
    then obtain h where "h \<in> set H" "h > s" by (auto simp: not_le)
    from char_slice_end_inner [OF assms(1) this lt, of limit] assms(1) show ?thesis
      by (auto dest!: lt)
  qed
  then show "s < char_slice_end H s limit n" and "char_slice_end H s limit n \<le> n" by auto
qed

lemma char_slice_end_full: "char_slice_end H n limit n = n"
  by (simp add: char_slice_end_def Let_def)

lemma token_walk_member:
  "token_walk enc content budget cursor running lastFit cs = Some e \<Longrightarrow>
     lastFit = Some e \<or> e \<in> set cs"
proof (induction cs arbitrary: cursor running lastFit)
  case (Cons c cs)
  from Cons.prems have "lastFit = Some e \<or>
      token_walk enc content budget c (running + countTokens enc (slice content cursor c)) (Some c) cs = Some e"
    by (simp add: Let_def split: if_splits)
  then show ?case using Cons.IH by fastforce
qed simp

lemma findTokenSliceEnd_member:
  "findTokenSliceEnd enc content s budget H n \<in> set (filter (\<lambda>h. h > s) H) \<union> {n}"
proof -
  define later where "later = filter (\<lambda>h. h > s) H"
  define cs where "cs = (if later = [] \<or> last later \<noteq> n then later @ [n] else later)"
  have cs: "set cs \<subseteq> set later \<union> {n}" "cs \<noteq> []"
    by (auto simp: cs_def)
  have "findTokenSliceEnd enc content s budget H n =
      (case token_walk enc content budget s 0 None cs of Some e \<Rightarrow> e | None \<Rightarrow> hd cs)"
    unfolding findTokenSliceEnd_def Let_def later_def [symmetric] cs_def [symmetric] ..
  moreover have "\<dots> \<in> set cs"
    using cs(2) token_walk_member [of enc content budget s 0 None cs] by (auto split: option.split)
  ultimately show ?thesis using cs(1) by (auto simp: later_def)
qed

text \<open>The fields of a slice, by its two boundaries.\<close>

definition slice_start :: "utf16 \<Rightarrow> slice_options \<Rightarrow> nat" where
  "slice_start content opts =
     snap_start (findHeadings content) (clampOffset (opt_offset opts) (length content)) (length content)"

definition slice_end :: "(utf16 \<Rightarrow> nat list) \<Rightarrow> utf16 \<Rightarrow> slice_options \<Rightarrow> nat" where
  "slice_end enc content opts =
     (let s = slice_start content opts; n = length content; H = findHeadings content
      in case clampTokens (opt_tokens opts) of
           Some budget \<Rightarrow> if s \<ge> n then n else findTokenSliceEnd enc content s budget H n
         | None \<Rightarrow> char_slice_end H s (clampLimit (opt_limit opts)) n)"

lemma sliceChangelog_fields [simp]:
  "sr_offset (sliceChangelog enc content opts) = slice_start content opts"
  "sr_content (sliceChangelog enc content opts) =
     slice content (slice_start content opts) (slice_end enc content opts)"
  "sr_nextOffset (sliceChangelog enc content opts) =
     (if slice_end enc content opts < length content then Some (slice_end enc content opts) else None)"
  "sr_totalChars (sliceChangelog enc content opts) = length content"
  "sr_tokens (sliceChangelog enc content opts) = clampTokens (opt_tokens opts)"
  "sr_limit (sliceChangelog enc content opts) = clampLimit (opt_limit opts)"
  by (simp_all add: sliceChangelog_def slice_start_def slice_end_def Let_def)

lemma slice_start_bounds:
  "clampOffset (opt_offset opts) (length content) \<le> slice_start content opts"
  "slice_start content opts \<le> length content"
  unfolding slice_start_def
  by (intro snap_start_bounds clampOffset_le less_imp_le findHeadings_less; assumption)+

lemma slice_end_bounds:
  "slice_start content opts \<le> slice_end enc content opts"
  "slice_end enc content opts \<le> length content"
  "slice_start content opts < length content \<Longrightarrow>
     slice_start content opts < slice_end enc content opts"
proof -
  let ?s = "slice_start content opts" and ?n = "length content" and ?H = "findHeadings content"
  have "?s \<le> slice_end enc content opts \<and> slice_end enc content opts \<le> ?n \<and>
    (?s < ?n \<longrightarrow> ?s < slice_end enc content opts)"
  proof (cases "?s < ?n")
    case True
    show ?thesis
    proof (cases "clampTokens (opt_tokens opts)")
      case None
      with True show ?thesis
        using char_slice_end_bounds [OF True findHeadings_less, where H = "findHeadings content" and limit = "clampLimit (opt_limit opts)"]
        by (simp add: slice_end_def Let_def)
    next
      case (Some b)
      with True show ?thesis
        using findTokenSliceEnd_member [of enc content ?s b ?H ?n]
        by (auto simp: slice_end_def Let_def dest: findHeadings_less)
    qed
  next
    case False
    then have "?s = ?n" using slice_start_bounds(2) [of content opts] by simp
    then have "slice_end enc content opts = ?n"
      by (simp add: slice_end_def Let_def char_slice_end_full split: option.split)
    then show ?thesis using slice_start_bounds(2) [of content opts] by simp
  qed
  then show "?s \<le> slice_end enc content opts" "slice_end enc content opts \<le> ?n"
    "?s < ?n \<Longrightarrow> ?s < slice_end enc content opts" by auto
qed

subsection \<open>The response of the changelog endpoint\<close>

record range_params =
  rp_offset :: "string option"
  rp_limit :: "string option"
  rp_tokens :: "string option"

definition hasRangeParams :: "range_params \<Rightarrow> bool" where
  "hasRangeParams params \<longleftrightarrow>
     rp_offset params \<noteq> None \<or> rp_limit params \<noteq> None \<or> rp_tokens params \<noteq> None"

text \<open>\<open>resolveChangelogRangeParams\<close>: \<open>str\<close> is \<open>String\<close> on numbers.\<close>

definition resolveChangelogRangeParams ::
  "(jsnum \<Rightarrow> string) \<Rightarrow> slice_options \<Rightarrow> range_params" where
  "resolveChangelogRangeParams str inp =
     (let inTokenMode = opt_tokens inp \<noteq> None;
          ranging = opt_offset inp \<noteq> None \<or> opt_limit inp \<noteq> None \<or> inTokenMode
      in \<lparr>rp_offset = map_option str (opt_offset inp),
          rp_limit = (if inTokenMode then None
                      else (case opt_limit inp of Some l \<Rightarrow> Some (str l)
                            | None \<Rightarrow> if ranging then Some (str (Fin (of_nat DEFAULT_CHANGELOG_SLICE_LIMIT)))
                                      else None)),
          rp_tokens = map_option str (opt_tokens inp)\<rparr>)"

record changelog_file =
  cf_path :: string
  cf_filename :: string
  cf_url :: string
  cf_rawUrl :: string
  cf_content :: utf16
  cf_bytes :: nat
  cf_tokens :: "nat option"
  cf_fetchedAt :: string

definition CHANGELOG_MAX_BYTES :: nat where "CHANGELOG_MAX_BYTES = 1024 * 1024"

definition isTruncated :: "nat \<Rightarrow> bool" where
  "isTruncated bytes \<longleftrightarrow> bytes \<ge> CHANGELOG_MAX_BYTES"

text \<open>\<open>selectChangelogFile\<close>; the source's callers pass a non-empty list.\<close>

definition selectChangelogFile :: "changelog_file list \<Rightarrow> string option \<Rightarrow> changelog_file option" where
  "selectChangelogFile rows requestedPath =
     (case requestedPath of
        Some p \<Rightarrow> if p \<noteq> [] then find (\<lambda>r. cf_path r = p) rows
                  else (case find (\<lambda>r. CHR ''/'' \<notin> set (cf_path r)) rows of
                          Some r \<Rightarrow> Some r | None \<Rightarrow> (case rows of r # _ \<Rightarrow> Some r | [] \<Rightarrow> None))
      | None \<Rightarrow> (case find (\<lambda>r. CHR ''/'' \<notin> set (cf_path r)) rows of
                    Some r \<Rightarrow> Some r | None \<Rightarrow> (case rows of r # _ \<Rightarrow> Some r | [] \<Rightarrow> None)))"

record changelog_response =
  re_file :: changelog_file
  re_slice :: slice_result
  re_totalTokens :: nat
  re_truncated :: bool
  re_truncatedAt :: "nat option"

definition buildChangelogResponse ::
  "(utf16 \<Rightarrow> nat list) \<Rightarrow> changelog_file \<Rightarrow> range_params \<Rightarrow> changelog_response" where
  "buildChangelogResponse enc row params =
     (let truncated = isTruncated (cf_bytes row);
          truncatedAt = (if truncated then Some (cf_bytes row) else None);
          totalTokens = (case cf_tokens row of Some t \<Rightarrow> t | None \<Rightarrow> countTokensSafe enc (cf_content row));
          totalChars = length (cf_content row);
          whole = \<lparr>sr_content = cf_content row, sr_offset = 0, sr_limit = totalChars,
                   sr_tokens = None, sr_nextOffset = None, sr_totalChars = totalChars,
                   sr_sliceTokens = None\<rparr>;
          sliced = sliceChangelog enc (cf_content row)
                     \<lparr>opt_offset = parseRangeParam (rp_offset params),
                      opt_limit = parseRangeParam (rp_limit params),
                      opt_tokens = parseRangeParam (rp_tokens params)\<rparr>
      in \<lparr>re_file = row, re_slice = (if \<not> hasRangeParams params then whole else sliced),
          re_totalTokens = totalTokens, re_truncated = truncated, re_truncatedAt = truncatedAt\<rparr>)"

subsection \<open>The token budget\<close>

text \<open>The tokens of consecutive sections, and the boundaries a slice from \<open>s\<close> can end at.\<close>

fun section_sum :: "(utf16 \<Rightarrow> nat list) \<Rightarrow> utf16 \<Rightarrow> nat \<Rightarrow> nat list \<Rightarrow> nat" where
  "section_sum enc content s [] = 0"
| "section_sum enc content s (e # es) =
     countTokens enc (slice content s e) + section_sum enc content e es"

definition boundaries :: "utf16 \<Rightarrow> nat \<Rightarrow> nat list" where
  "boundaries content s = filter (\<lambda>h. h > s) (findHeadings content) @ [length content]"

lemma token_walk_greedy:
  "running \<le> budget \<Longrightarrow> \<exists>pre post. cs = pre @ post \<and>
     token_walk enc content budget cursor running lastFit cs =
       (if pre = [] then lastFit else Some (last pre)) \<and>
     running + section_sum enc content cursor pre \<le> budget \<and>
     (post = [] \<or> budget < running + section_sum enc content cursor (pre @ [hd post]))"
proof (induction cs arbitrary: cursor running lastFit)
  case (Cons c cs)
  let ?t = "running + countTokens enc (slice content cursor c)"
  show ?case
  proof (cases "?t \<le> budget")
    case True
    from Cons.IH [OF True, of c "Some c"] obtain pre post where p: "cs = pre @ post"
      "token_walk enc content budget c ?t (Some c) cs = (if pre = [] then Some c else Some (last pre))"
      "?t + section_sum enc content c pre \<le> budget"
      "post = [] \<or> budget < ?t + section_sum enc content c (pre @ [hd post])" by blast
    show ?thesis
      using True p by (intro exI [of _ "c # pre"] exI [of _ post]) (auto simp: Let_def add.assoc)
  next
    case False
    then show ?thesis
      using Cons.prems by (intro exI [of _ "[]"] exI [of _ "c # cs"]) (auto simp: Let_def)
  qed
qed simp

lemma findTokenSliceEnd_boundaries:
  "findTokenSliceEnd enc content s budget (findHeadings content) (length content) =
     (case token_walk enc content budget s 0 None (boundaries content s) of
        Some e \<Rightarrow> e | None \<Rightarrow> hd (boundaries content s))"
proof -
  have "filter (\<lambda>h. h > s) (findHeadings content) = [] \<or>
      last (filter (\<lambda>h. h > s) (findHeadings content)) \<noteq> length content"
    using findHeadings_less [of _ content] last_in_set [of "filter (\<lambda>h. h > s) (findHeadings content)"]
    by fastforce
  then show ?thesis by (simp only: findTokenSliceEnd_def boundaries_def Let_def if_True)
qed

text \<open>A slice in token mode is greedy: it is a run of whole sections from its start whose tokens
  fit the budget, or the first section alone when even that does not fit, and the next section, if
  there is one, would exceed the budget.\<close>

theorem token_slice_greedy:
  "\<exists>pre post. pre @ post = boundaries content s \<and> pre \<noteq> [] \<and>
     findTokenSliceEnd enc content s budget (findHeadings content) (length content) = last pre \<and>
     (section_sum enc content s pre \<le> budget \<or> length pre = 1) \<and>
     (post = [] \<or> budget < section_sum enc content s (pre @ [hd post]))"
proof -
  obtain pre post where p: "boundaries content s = pre @ post"
    "token_walk enc content budget s 0 None (boundaries content s) =
       (if pre = [] then None else Some (last pre))"
    "section_sum enc content s pre \<le> budget"
    "post = [] \<or> budget < section_sum enc content s (pre @ [hd post])"
    using token_walk_greedy [OF le0, where budget = budget and cs = "boundaries content s" and enc = enc
      and content = content and cursor = s and lastFit = None]
    unfolding add_0 by blast
  show ?thesis
  proof (cases "pre = []")
    case False
    with p show ?thesis
      by (intro exI [of _ pre] exI [of _ post]) (simp add: findTokenSliceEnd_boundaries)
  next
    case True
    then obtain b bs where b: "boundaries content s = b # bs"
      by (cases "boundaries content s") (auto simp: boundaries_def)
    with True p have "budget < section_sum enc content s [b]" by auto
    then have "bs = [] \<or> budget < section_sum enc content s ([b] @ [hd bs])" by auto
    with b True p show ?thesis
      by (intro exI [of _ "[b]"] exI [of _ bs]) (simp add: findTokenSliceEnd_boundaries)
  qed
qed

end
