(* ===== verification/ChangelogWalk.thy ===== *)
theory ChangelogWalk
  imports ChangelogSlice
begin

section \<open>Walking a changelog slice by slice\<close>

text \<open>
  Models the clients of the slicer: a reader that follows \<open>nextOffset\<close> to the end (the contract
  stated at the head of \<open>changelog-slice.ts\<close>), \<open>planWindowOffsets\<close> of
  \<open>apps/api/src/lib/ingest/firecrawl-extract.ts\<close>, and \<open>chunkChangelog\<close> and \<open>diffChunks\<close> of
  \<open>packages/search/src/embed-changelogs.ts\<close>.  What they rely on is the locale \<open>slicer\<close>; token mode
  also satisfies \<open>aligned_slicer\<close>, character mode does not.
\<close>

subsection \<open>The interface\<close>

locale slicer =
  fixes doc :: utf16 and slc :: "nat \<Rightarrow> slice_result"
  assumes cut_zero: "sr_offset (slc 0) = 0"
    and cut_start: "off \<le> length doc \<Longrightarrow> off \<le> sr_offset (slc off) \<and> sr_offset (slc off) \<le> length doc"
    and cut_content: "off \<le> length doc \<Longrightarrow> sr_content (slc off) =
      slice doc (sr_offset (slc off)) (case sr_nextOffset (slc off) of Some n \<Rightarrow> n | None \<Rightarrow> length doc)"
    and cut_next: "off \<le> length doc \<Longrightarrow> sr_nextOffset (slc off) = Some n \<Longrightarrow>
      sr_offset (slc off) < n \<and> n < length doc"

locale aligned_slicer = slicer +
  assumes cut_aligned: "off \<le> length doc \<Longrightarrow> sr_nextOffset (slc off) = Some n \<Longrightarrow> sr_offset (slc n) = n"

text \<open>The reader: append the contents until \<open>nextOffset\<close> is null; \<open>None\<close> is out of fuel.\<close>

fun read_all :: "(nat \<Rightarrow> slice_result) \<Rightarrow> nat \<Rightarrow> nat \<Rightarrow> utf16 list option" where
  "read_all slc 0 off = None"
| "read_all slc (Suc fuel) off =
     (case sr_nextOffset (slc off) of
        None \<Rightarrow> Some [sr_content (slc off)]
      | Some n \<Rightarrow> map_option ((#) (sr_content (slc off))) (read_all slc fuel n))"

text \<open>The loop of \<open>planWindowOffsets\<close>; the first argument is the number of windows still allowed.\<close>

fun plan_loop ::
  "(nat \<Rightarrow> slice_result) \<Rightarrow> nat \<Rightarrow> nat list \<Rightarrow> nat option \<Rightarrow> nat \<Rightarrow> nat list \<times> nat option \<times> nat" where
  "plan_loop slc k offsets None lastEnd = (offsets, None, lastEnd)"
| "plan_loop slc 0 offsets (Some off) lastEnd = (offsets, Some off, lastEnd)"
| "plan_loop slc (Suc k) offsets (Some off) lastEnd =
     (let s = slc off
      in plan_loop slc k (offsets @ [sr_offset s]) (sr_nextOffset s)
           (sr_offset s + length (sr_content s)))"

context slicer
begin

lemma content_length:
  "off \<le> length doc \<Longrightarrow> sr_offset (slc off) + length (sr_content (slc off)) =
     (case sr_nextOffset (slc off) of Some n \<Rightarrow> n | None \<Rightarrow> length doc)"
  using cut_start [of off] cut_next [of off]
  by (auto simp: cut_content less_imp_le split: option.split)

lemma next_greater: "off \<le> length doc \<Longrightarrow> sr_nextOffset (slc off) = Some n \<Longrightarrow> off < n \<and> n \<le> length doc"
  using cut_start [of off] cut_next [of off n] by linarith

lemma read_all_terminates:
  "off \<le> length doc \<Longrightarrow> length doc - off < fuel \<Longrightarrow> \<exists>ps. read_all slc fuel off = Some ps"
proof (induction fuel arbitrary: off)
  case (Suc fuel)
  show ?case
  proof (cases "sr_nextOffset (slc off)")
    case (Some n)
    with Suc.prems have "off < n \<and> n \<le> length doc" by (intro next_greater)
    moreover from this Suc.prems have "length doc - n < fuel" by linarith
    ultimately obtain ps where "read_all slc fuel n = Some ps" using Suc.IH by blast
    with Some show ?thesis by simp
  qed simp
qed simp

end

context aligned_slicer
begin

lemma read_all_exact:
  "off \<le> length doc \<Longrightarrow> read_all slc fuel off = Some ps \<Longrightarrow>
     concat ps = slice doc (sr_offset (slc off)) (length doc)"
proof (induction fuel arbitrary: off ps)
  case (Suc fuel)
  show ?case
  proof (cases "sr_nextOffset (slc off)")
    case None
    with Suc.prems show ?thesis by (auto simp: cut_content)
  next
    case (Some n)
    with Suc.prems obtain qs where qs: "read_all slc fuel n = Some qs"
      and ps: "ps = sr_content (slc off) # qs" by auto
    have n: "sr_offset (slc off) < n" "n < length doc" using cut_next [OF Suc.prems(1) Some] by auto
    have "concat qs = slice doc n (length doc)"
      using Suc.IH [OF _ qs] n cut_aligned [OF Suc.prems(1) Some] by simp
    then show ?thesis
      using n Some Suc.prems(1) by (simp add: ps cut_content slice_append_slice)
  qed
qed simp

lemma read_all_from_zero: "read_all slc (length doc + 1) 0 = Some ps \<Longrightarrow> concat ps = doc"
  using read_all_exact [of 0 "length doc + 1" ps] by (simp add: cut_zero)

lemma plan_loop_covers:
  assumes "plan_loop slc k offs (Some off) lastEnd = (offs', nxt, lastEnd')"
    and "off \<le> length doc" and "sr_offset (slc off) = off" and "0 < k"
  shows "\<exists>new. offs' = offs @ new \<and> new \<noteq> [] \<and> hd new = off \<and> length new \<le> k \<and>
     sorted_wrt (<) new \<and> (\<forall>x \<in> set new. x \<le> lastEnd' \<and> sr_offset (slc x) = x \<and> off \<le> x) \<and>
     concat (map (\<lambda>x. sr_content (slc x)) new) = slice doc off lastEnd' \<and>
     off \<le> lastEnd' \<and> lastEnd' = (case nxt of Some n \<Rightarrow> n | None \<Rightarrow> length doc) \<and>
     (nxt \<noteq> None \<longrightarrow> length new = k \<and> lastEnd' < length doc)"
  using assms
proof (induction k arbitrary: offs off lastEnd)
  case (Suc k)
  let ?s = "slc off"
  show ?case
  proof (cases "sr_nextOffset ?s")
    case None
    then show ?thesis
      using Suc.prems content_length [OF Suc.prems(2)] by (auto simp: Let_def cut_content)
  next
    case (Some n)
    have n: "off < n" "n < length doc" "n \<le> length doc"
      using cut_next [OF Suc.prems(2) Some] Suc.prems(3) by auto
    have al: "sr_offset (slc n) = n" using cut_aligned [OF Suc.prems(2) Some] .
    have len: "off + length (sr_content ?s) = n"
      using content_length [OF Suc.prems(2)] Some Suc.prems(3) by simp
    have c: "sr_content ?s = slice doc off n"
      using Suc.prems(2,3) Some by (simp add: cut_content)
    have step: "plan_loop slc k (offs @ [off]) (Some n) n = (offs', nxt, lastEnd')"
      using Suc.prems(1,3) Some len by (simp add: Let_def)
    show ?thesis
    proof (cases k)
      case 0
      with step show ?thesis
        using n c by (intro exI [of _ "[off]"]) (auto simp: Suc.prems(3))
    next
      case (Suc k')
      with Suc.IH [OF step n(3) al] obtain new where new:
        "offs' = (offs @ [off]) @ new" "new \<noteq> []" "hd new = n" "length new \<le> k" "sorted_wrt (<) new"
        "\<forall>x \<in> set new. x \<le> lastEnd' \<and> sr_offset (slc x) = x \<and> n \<le> x"
        "concat (map (\<lambda>x. sr_content (slc x)) new) = slice doc n lastEnd'" "n \<le> lastEnd'"
        "lastEnd' = (case nxt of Some n \<Rightarrow> n | None \<Rightarrow> length doc)"
        "nxt \<noteq> None \<longrightarrow> length new = k \<and> lastEnd' < length doc"
        by auto
      show ?thesis
        using new n c Suc.prems(3)
        by (intro exI [of _ "off # new"]) (auto simp: slice_append_slice)
    qed
  qed
qed simp

end

subsection \<open>The slicer in token mode and in character mode\<close>

definition token_slc ::
  "(utf16 \<Rightarrow> nat list) \<Rightarrow> utf16 \<Rightarrow> jsnum option \<Rightarrow> jsnum \<Rightarrow> nat \<Rightarrow> slice_result" where
  "token_slc enc doc limit tokens off =
     sliceChangelog enc doc
       \<lparr>opt_offset = Some (Fin (of_nat off)), opt_limit = limit, opt_tokens = Some tokens\<rparr>"

definition char_slc :: "(utf16 \<Rightarrow> nat list) \<Rightarrow> utf16 \<Rightarrow> jsnum option \<Rightarrow> nat \<Rightarrow> slice_result" where
  "char_slc enc doc limit off =
     sliceChangelog enc doc
       \<lparr>opt_offset = Some (Fin (of_nat off)), opt_limit = limit, opt_tokens = None\<rparr>"

lemma slice_start_nat:
  "opt_offset opts = Some (Fin (of_nat off)) \<Longrightarrow> off \<le> length doc \<Longrightarrow>
     slice_start doc opts = snap_start (findHeadings doc) off (length doc)"
  by (simp add: slice_start_def min_def)

lemma slice_start_nat_bounds:
  assumes "opt_offset opts = Some (Fin (of_nat off))" and "off \<le> length doc"
  shows "off \<le> slice_start doc opts" and "slice_start doc opts \<le> length doc"
  using slice_start_bounds [where content = doc and opts = opts] assms by (simp_all add: min_def split: if_splits)

lemma slice_end_next:
  assumes "slice_end enc doc opts < length doc"
  shows "slice_start doc opts < slice_end enc doc opts"
  using slice_end_bounds [where content = doc and opts = opts and enc = enc] slice_start_bounds(2) [where content = doc and opts = opts] assms
  by (cases "slice_start doc opts < length doc") auto

lemma token_next_heading:
  assumes "off \<le> length doc" and nx: "sr_nextOffset (token_slc enc doc limit tokens off) = Some n"
  shows "n \<in> set (findHeadings doc)"
proof -
  let ?opts = "\<lparr>opt_offset = Some (Fin (of_nat off)), opt_limit = limit, opt_tokens = Some tokens\<rparr>"
  from nx have n: "n = slice_end enc doc ?opts" "n < length doc"
    by (auto simp: token_slc_def split: if_splits)
  then have lt: "slice_start doc ?opts < n" using slice_end_next [where doc = doc and opts = ?opts and enc = enc] by simp
  obtain b where b: "clampTokens (Some tokens) = Some b"
    using clampTokens_Some [of "Some tokens"] by (cases "clampTokens (Some tokens)") auto
  show ?thesis
    using n lt findTokenSliceEnd_member [where content = doc and enc = enc and s = "slice_start doc ?opts" and budget = b and H = "findHeadings doc" and n = "length doc"]
    by (auto simp: slice_end_def b Let_def)
qed

interpretation tok: aligned_slicer doc "token_slc enc doc limit tokens" for doc enc limit tokens
proof unfold_locales
  show "sr_offset (token_slc enc doc limit tokens 0) = 0"
    using slice_start_nat [where off = 0 and doc = doc] by (simp add: token_slc_def snap_start_def)
next
  fix off n
  let ?opts = "\<lparr>opt_offset = Some (Fin (of_nat off)), opt_limit = limit, opt_tokens = Some tokens\<rparr>"
  assume off: "off \<le> length doc"
  show "off \<le> sr_offset (token_slc enc doc limit tokens off) \<and>
      sr_offset (token_slc enc doc limit tokens off) \<le> length doc"
    using slice_start_nat_bounds [OF _ off, where opts = ?opts] by (simp add: token_slc_def)
  show "sr_content (token_slc enc doc limit tokens off) =
      slice doc (sr_offset (token_slc enc doc limit tokens off))
        (case sr_nextOffset (token_slc enc doc limit tokens off) of Some n \<Rightarrow> n | None \<Rightarrow> length doc)"
    using slice_end_bounds(2) [where content = doc and opts = ?opts and enc = enc] by (auto simp: token_slc_def)
  assume nx: "sr_nextOffset (token_slc enc doc limit tokens off) = Some n"
  from nx have n: "n = slice_end enc doc ?opts" "n < length doc"
    by (auto simp: token_slc_def split: if_splits)
  then have lt: "slice_start doc ?opts < n" using slice_end_next [where doc = doc and opts = ?opts and enc = enc] by simp
  with n(2) show "sr_offset (token_slc enc doc limit tokens off) < n \<and> n < length doc"
    by (simp add: token_slc_def)
  have "n \<in> set (findHeadings doc)" by (rule token_next_heading [OF off nx])
  then show "sr_offset (token_slc enc doc limit tokens n) = n"
    using n(2) by (simp add: token_slc_def slice_start_nat snap_start_aligned)
qed

interpretation chr: slicer doc "char_slc enc doc limit" for doc enc limit
proof unfold_locales
  show "sr_offset (char_slc enc doc limit 0) = 0"
    using slice_start_nat [where off = 0 and doc = doc] by (simp add: char_slc_def snap_start_def)
next
  fix off n
  let ?opts = "\<lparr>opt_offset = Some (Fin (of_nat off)), opt_limit = limit, opt_tokens = None\<rparr>"
  assume off: "off \<le> length doc"
  show "off \<le> sr_offset (char_slc enc doc limit off) \<and> sr_offset (char_slc enc doc limit off) \<le> length doc"
    using slice_start_nat_bounds [OF _ off, where opts = ?opts] by (simp add: char_slc_def)
  show "sr_content (char_slc enc doc limit off) =
      slice doc (sr_offset (char_slc enc doc limit off))
        (case sr_nextOffset (char_slc enc doc limit off) of Some n \<Rightarrow> n | None \<Rightarrow> length doc)"
    using slice_end_bounds(2) [where content = doc and opts = ?opts and enc = enc] by (auto simp: char_slc_def)
  assume "sr_nextOffset (char_slc enc doc limit off) = Some n"
  then have "n = slice_end enc doc ?opts" "n < length doc"
    by (auto simp: char_slc_def split: if_splits)
  then show "sr_offset (char_slc enc doc limit off) < n \<and> n < length doc"
    using slice_end_next [where doc = doc and opts = ?opts and enc = enc] by (simp add: char_slc_def)
qed

subsection \<open>Character mode loses an oversized last section\<close>

definition last_heading :: "utf16 \<Rightarrow> nat" where
  "last_heading doc = (case findHeadings doc of [] \<Rightarrow> 0 | h # hs \<Rightarrow> last (h # hs))"

lemma sorted_wrt_last_max: "sorted_wrt (<) (H :: nat list) \<Longrightarrow> h \<in> set H \<Longrightarrow> h \<le> last H"
  by (induction H) (auto intro: less_imp_le)

lemma last_heading_mem: "last_heading doc = 0 \<or> last_heading doc \<in> set (findHeadings doc)"
  unfolding last_heading_def by (cases "findHeadings doc") auto

lemma last_heading_ge: "h \<in> set (findHeadings doc) \<Longrightarrow> h \<le> last_heading doc"
  using sorted_wrt_last_max [OF findHeadings_sorted, of h doc]
  by (auto simp: last_heading_def split: list.split)

lemma last_heading_eq:
  "s = 0 \<or> s \<in> set (findHeadings doc) \<Longrightarrow> \<forall>h \<in> set (findHeadings doc). h \<le> s \<Longrightarrow> last_heading doc = s"
  using last_heading_mem [of doc] last_heading_ge [of s doc] by (auto intro: le_antisym)

lemma char_read_past:
  assumes "s < off" "off \<le> length doc" "off \<noteq> 0" "\<forall>h \<in> set (findHeadings doc). h \<le> s"
  shows "sr_nextOffset (char_slc enc doc limit off) = None" "sr_content (char_slc enc doc limit off) = []"
proof -
  let ?opts = "\<lparr>opt_offset = Some (Fin (of_nat off)), opt_limit = limit, opt_tokens = None\<rparr>"
  have "slice_start doc ?opts = length doc"
    using assms by (subst slice_start_nat) (auto intro!: snap_start_past)
  moreover from this have "slice_end enc doc ?opts = length doc"
    by (simp add: slice_end_def Let_def char_slice_end_full clampTokens_def)
  ultimately show "sr_nextOffset (char_slc enc doc limit off) = None"
    "sr_content (char_slc enc doc limit off) = []"
    by (simp_all add: char_slc_def)
qed

lemma char_read_all_take:
  assumes "s = 0 \<or> s \<in> set (findHeadings doc)" and "s \<le> length doc"
    and "read_all (char_slc enc doc limit) fuel s = Some ps"
  shows "concat ps = slice doc s (min (length doc) (last_heading doc + max (clampLimit limit) 1))"
  using assms
proof (induction fuel arbitrary: s ps)
  case (Suc fuel)
  let ?opts = "\<lparr>opt_offset = Some (Fin (of_nat s)), opt_limit = limit, opt_tokens = None\<rparr>"
  let ?H = "findHeadings doc" and ?n = "length doc" and ?m = "max (clampLimit limit) 1"
  define e where "e = slice_end enc doc ?opts"
  have st: "slice_start doc ?opts = s"
    using Suc.prems(1,2) by (simp add: slice_start_nat snap_start_aligned)
  have e: "e = char_slice_end ?H s (clampLimit limit) ?n"
    by (simp add: e_def slice_end_def Let_def st clampTokens_def)
  have c: "sr_content (char_slc enc doc limit s) = slice doc s e"
    "sr_nextOffset (char_slc enc doc limit s) = (if e < ?n then Some e else None)"
    by (simp_all add: char_slc_def st e_def)
  show ?case
  proof (cases "s < ?n")
    case False
    with Suc.prems(2) have "e = ?n" "s = ?n" by (simp_all add: e char_slice_end_full)
    with c Suc.prems(3) show ?thesis by (auto simp: slice_def)
  next
    case True
    then have lt: "s < e" "e \<le> ?n"
      using char_slice_end_bounds [OF True findHeadings_less, of ?H] by (auto simp: e)
    show ?thesis
    proof (cases "\<forall>h \<in> set ?H. h \<le> s")
      case all: True
      then have e_eq: "e = min ?n (s + ?m)" by (simp add: e char_slice_end_last [OF True])
      have L: "last_heading doc = s" using last_heading_eq [OF Suc.prems(1) all] .
      have "concat ps = slice doc s e"
      proof (cases "e < ?n")
        case True
        with c Suc.prems(3) obtain qs where qs: "read_all (char_slc enc doc limit) fuel e = Some qs"
          "ps = slice doc s e # qs" by auto
        then obtain f where "fuel = Suc f" by (cases fuel) auto
        with qs(1) char_read_past [OF lt(1) lt(2) _ all] lt(1) have "qs = [[]]" by simp
        with qs(2) show ?thesis by simp
      next
        case False
        with c Suc.prems(3) show ?thesis by auto
      qed
      with e_eq L show ?thesis by simp
    next
      case False
      then obtain h where h: "h \<in> set ?H" "s < h" by (auto simp: not_le)
      have hL: "s < last_heading doc" using last_heading_ge [OF h(1)] h(2) by simp
      consider (head) "e \<in> set ?H" | (tail) "e = ?n" "s + clampLimit limit \<ge> ?n"
        using char_slice_end_inner [OF True h findHeadings_less, of "clampLimit limit"] e by auto
      then show ?thesis
      proof cases
        case head
        then have en: "e < ?n" by (rule findHeadings_less)
        with c Suc.prems(3) obtain qs where qs: "read_all (char_slc enc doc limit) fuel e = Some qs"
          "ps = slice doc s e # qs" by auto
        have "concat qs = slice doc e (min ?n (last_heading doc + ?m))"
          using Suc.IH [OF _ _ qs(1)] head en by simp
        moreover have "e \<le> min ?n (last_heading doc + ?m)"
          using last_heading_ge [OF head] en by simp
        ultimately show ?thesis using lt(1) by (simp add: qs(2) slice_append_slice)
      next
        case tail
        then have "min ?n (last_heading doc + ?m) = ?n" using hL by auto
        with tail c Suc.prems(3) show ?thesis by auto
      qed
    qed
  qed
qed simp

subsection \<open>Planning extraction windows\<close>

record window_plan =
  wp_offsets :: "nat list"
  wp_cappedAtWindow :: bool
  wp_droppedChars :: nat

definition DEFAULT_MAX_WINDOWS :: int where "DEFAULT_MAX_WINDOWS = 50"

definition window_slc :: "(utf16 \<Rightarrow> nat list) \<Rightarrow> utf16 \<Rightarrow> nat \<Rightarrow> slice_result" where
  "window_slc enc markdown =
     token_slc enc markdown None (Fin (of_nat DEFAULT_CHANGELOG_SLICE_TOKENS))"

definition planWindowOffsets ::
  "(utf16 \<Rightarrow> nat list) \<Rightarrow> utf16 \<Rightarrow> int option \<Rightarrow> window_plan" where
  "planWindowOffsets enc markdown maxWindowsOpt =
     (let maxWindows = max 1 (case maxWindowsOpt of Some m \<Rightarrow> m | None \<Rightarrow> DEFAULT_MAX_WINDOWS);
          (offsets, off, lastProcessedEnd) =
             plan_loop (window_slc enc markdown) (nat maxWindows) [] (Some 0) 0;
          cappedAtWindow = (off \<noteq> None)
      in \<lparr>wp_offsets = offsets, wp_cappedAtWindow = cappedAtWindow,
          wp_droppedChars = (if cappedAtWindow
             then nat (max 0 (int (length markdown) - int lastProcessedEnd)) else 0)\<rparr>)"

subsection \<open>Chunks for embedding\<close>

definition CHUNK_TOKEN_BUDGET :: nat where "CHUNK_TOKEN_BUDGET = 500"
definition CHUNK_TOKEN_OVERLAP :: nat where "CHUNK_TOKEN_OVERLAP = 50"
definition CHUNK_CHAR_OVERLAP_STEP :: nat where "CHUNK_CHAR_OVERLAP_STEP = CHUNK_TOKEN_OVERLAP * 4"

record chunk =
  ck_offset :: nat
  ck_length :: nat
  ck_text :: utf16
  ck_tokens :: nat
  ck_contentHash :: string
  ck_heading :: "utf16 option"

definition snapToCodepointBoundary :: "utf16 \<Rightarrow> nat \<Rightarrow> nat" where
  "snapToCodepointBoundary content offset =
     (if offset = 0 \<or> offset \<ge> length content then offset
      else (let codeUnit = content ! offset
            in if codeUnit \<ge> 0xdc00 \<and> codeUnit \<le> 0xdfff then offset - 1 else offset))"

text \<open>\<open>\s\<close> and the line terminators \<open>.\<close> excludes.\<close>

definition space_class :: "nat \<Rightarrow> bool" where
  "space_class u \<longleftrightarrow> (9 \<le> u \<and> u \<le> 13) \<or> u = 0x20 \<or> u = 0xA0 \<or> u = 0x1680 \<or>
     (0x2000 \<le> u \<and> u \<le> 0x200A) \<or> u = 0x2028 \<or> u = 0x2029 \<or> u = 0x202F \<or> u = 0x205F \<or>
     u = 0x3000 \<or> u = 0xFEFF"

definition line_terminator :: "nat \<Rightarrow> bool" where
  "line_terminator u \<longleftrightarrow> u = 0x0A \<or> u = 0x0D \<or> u = 0x2028 \<or> u = 0x2029"

text \<open>\<open>HEADING_LINE_RE.exec(line)\<close> with \<open>/^(#{1,3})\s+(.+?)\s*$/\<close>, and the trim of its second group:
  one to three \<open>#\<close>, at least one blank, and a text without line terminators up to the trailing
  blanks.  When only blanks follow the \<open>#\<close>, the greedy \<open>\s+\<close> gives one back, which \<open>.\<close> must accept,
  and the trimmed group is empty.\<close>

definition heading_line :: "utf16 \<Rightarrow> utf16 option" where
  "heading_line line =
     (let hashes = length (takeWhile (\<lambda>u. u = hash_unit) line);
          gap = takeWhile space_class (drop hashes line);
          body = rev (dropWhile space_class (rev (drop (length gap) (drop hashes line))))
      in if hashes = 0 \<or> hashes > 3 \<or> gap = [] then None
         else if body \<noteq> [] then (if list_ex line_terminator body then None else Some body)
         else if list_ex (\<lambda>u. \<not> line_terminator u) (tl gap) then Some [] else None)"

fun heading_before_loop ::
  "utf16 \<Rightarrow> nat \<Rightarrow> nat list \<Rightarrow> nat \<Rightarrow> utf16 option \<Rightarrow> utf16 option" where
  "heading_before_loop content offset [] lineStart lastHeading = lastHeading"
| "heading_before_loop content offset (i # is) lineStart lastHeading =
     (if i = length content \<or> content ! i = newline_unit then
        (if lineStart > offset then lastHeading
         else heading_before_loop content offset is (i + 1)
                (case heading_line (slice content lineStart i) of
                   Some h \<Rightarrow> Some h | None \<Rightarrow> lastHeading))
      else heading_before_loop content offset is lineStart lastHeading)"

definition findHeadingBefore :: "utf16 \<Rightarrow> nat \<Rightarrow> utf16 option" where
  "findHeadingBefore content offset =
     heading_before_loop content offset [0..<length content + 1] 0 None"

text \<open>The body of the loop of \<open>chunkChangelog\<close> builds one chunk; \<open>chunkHash\<close> is \<open>hashChunk\<close>
  (SHA-1 of node's crypto module).  The back-step may leave the natural numbers in the source, where
  \<open>max\<close> with \<open>prevStart + 1\<close> brings it back; the truncated subtraction gives the same maximum.\<close>

definition make_chunk ::
  "(utf16 \<Rightarrow> nat list) \<Rightarrow> (utf16 \<Rightarrow> string) \<Rightarrow> utf16 \<Rightarrow> chunk list \<Rightarrow> slice_result \<Rightarrow> chunk" where
  "make_chunk enc chunkHash content chunks s =
     (let startOffset0 = (if chunks \<noteq> []
            then max (sr_offset s - CHUNK_CHAR_OVERLAP_STEP) (ck_offset (last chunks) + 1)
            else sr_offset s);
          startOffset = snapToCodepointBoundary content startOffset0;
          snappedEnd = snapToCodepointBoundary content (sr_offset s + length (sr_content s));
          piece = slice content startOffset snappedEnd
      in \<lparr>ck_offset = startOffset, ck_length = length piece, ck_text = piece,
          ck_tokens = countTokensSafe enc piece, ck_contentHash = chunkHash piece,
          ck_heading = findHeadingBefore content startOffset\<rparr>)"

fun chunk_loop ::
  "(utf16 \<Rightarrow> nat list) \<Rightarrow> (utf16 \<Rightarrow> string) \<Rightarrow> utf16 \<Rightarrow> nat \<Rightarrow> chunk list \<Rightarrow> nat \<Rightarrow> chunk list" where
  "chunk_loop enc chunkHash content 0 chunks cursor = chunks"
| "chunk_loop enc chunkHash content (Suc iterationsLeft) chunks cursor =
     (if cursor < length content then
        (let s = token_slc enc content None (Fin (of_nat CHUNK_TOKEN_BUDGET)) cursor;
             c = make_chunk enc chunkHash content chunks s;
             chunks' = (if length (ck_text c) > 0 then chunks @ [c] else chunks)
         in case sr_nextOffset s of
              None \<Rightarrow> chunks'
            | Some n \<Rightarrow> if n \<le> cursor then chunks'
                        else chunk_loop enc chunkHash content iterationsLeft chunks' n)
      else chunks)"

definition chunkChangelog ::
  "(utf16 \<Rightarrow> nat list) \<Rightarrow> (utf16 \<Rightarrow> string) \<Rightarrow> utf16 \<Rightarrow> chunk list" where
  "chunkChangelog enc chunkHash content =
     (if content = [] then []
      else chunk_loop enc chunkHash content (length content + 16) [] 0)"

subsection \<open>Well-formed UTF-16\<close>

definition high_surrogate :: "nat \<Rightarrow> bool" where
  "high_surrogate u \<longleftrightarrow> 0xD800 \<le> u \<and> u < 0xDC00"

definition low_surrogate :: "nat \<Rightarrow> bool" where
  "low_surrogate u \<longleftrightarrow> 0xDC00 \<le> u \<and> u < 0xE000"

text \<open>Every high surrogate is followed by a low one and no low surrogate stands alone.\<close>

fun utf16_ok :: "utf16 \<Rightarrow> bool" where
  "utf16_ok [] = True"
| "utf16_ok [u] = (\<not> high_surrogate u \<and> \<not> low_surrogate u)"
| "utf16_ok (u # v # us) =
     (if high_surrogate u then low_surrogate v \<and> utf16_ok us
      else \<not> low_surrogate u \<and> utf16_ok (v # us))"

definition low_at :: "utf16 \<Rightarrow> nat \<Rightarrow> bool" where
  "low_at d i \<longleftrightarrow> i < length d \<and> low_surrogate (d ! i)"

lemma low_not_high [simp]: "low_surrogate u \<Longrightarrow> \<not> high_surrogate u"
  by (simp add: low_surrogate_def high_surrogate_def)

lemma snap_eq:
  "snapToCodepointBoundary content i = (if 0 < i \<and> low_at content i then i - 1 else i)"
  by (auto simp: snapToCodepointBoundary_def low_at_def low_surrogate_def Let_def)

text \<open>A well-formed text cut where no low surrogate stands has two well-formed halves; a low surrogate
  stands behind a high one.\<close>

lemma utf16_ok_cut:
  "utf16_ok d \<Longrightarrow> \<not> low_at d i \<Longrightarrow> utf16_ok (take i d) \<and> utf16_ok (drop i d)"
proof (induction d arbitrary: i rule: utf16_ok.induct)
  case (2 u)
  then show ?case by (cases i) auto
next
  case (3 u v us)
  show ?case
  proof (cases "high_surrogate u")
    case True
    consider "i = 0" | "i = 1" | j where "i = Suc (Suc j)"
      by (metis One_nat_def not0_implies_Suc)
    then show ?thesis
    proof cases
      case 2
      with 3 True show ?thesis by (auto simp: low_at_def)
    next
      case (3 j)
      then have "\<not> low_at us j" using "3.prems" by (simp add: low_at_def)
      with "3.prems" "3.IH"(1) True have "utf16_ok (take j us) \<and> utf16_ok (drop j us)" by simp
      with 3 True "3.prems" show ?thesis by simp
    qed (use "3.prems" in simp)
  next
    case False
    show ?thesis
    proof (cases i)
      case (Suc j)
      then have "\<not> low_at (v # us) j" using 3 by (simp add: low_at_def)
      with 3 False have ih: "utf16_ok (take j (v # us)) \<and> utf16_ok (drop j (v # us))" by simp
      with Suc False 3 show ?thesis by (cases j) auto
    qed (use 3 in simp)
  qed
qed simp

lemma utf16_ok_low: "utf16_ok d \<Longrightarrow> low_at d i \<Longrightarrow> 0 < i \<and> \<not> low_at d (i - 1)"
proof (induction d arbitrary: i rule: utf16_ok.induct)
  case (3 u v us)
  show ?case
  proof (cases "high_surrogate u")
    case True
    consider "i = 0" | "i = 1" | j where "i = Suc (Suc j)"
      by (metis One_nat_def not0_implies_Suc)
    then show ?thesis
    proof cases
      case (3 j)
      then have "low_at us j" using "3.prems" by (simp add: low_at_def)
      with "3.prems" "3.IH"(1) True have "0 < j \<and> \<not> low_at us (j - 1)" by simp
      with 3 show ?thesis by (cases j) (auto simp: low_at_def)
    qed (use "3.prems" True in \<open>auto simp: low_at_def\<close>)
  next
    case False
    with 3 show ?thesis
    proof (cases i)
      case (Suc j)
      then have "low_at (v # us) j" using 3 by (simp add: low_at_def)
      with 3 False have "0 < j \<and> \<not> low_at (v # us) (j - 1)" by simp
      with Suc show ?thesis by (cases j) (auto simp: low_at_def)
    qed (auto simp: low_at_def)
  qed
qed (auto simp: low_at_def less_Suc_eq)

lemma utf16_ok_snap: "utf16_ok d \<Longrightarrow> \<not> low_at d (snapToCodepointBoundary d i)"
  using utf16_ok_low [of d i] by (auto simp: snap_eq)

lemma utf16_ok_slice:
  assumes "utf16_ok d" "\<not> low_at d i" "\<not> low_at d j" "i \<le> j"
  shows "utf16_ok (slice d i j)"
proof -
  have "\<not> low_at (take j d) i" using assms(2) by (auto simp: low_at_def)
  with assms utf16_ok_cut [of d j] utf16_ok_cut [of "take j d" i]
  have "utf16_ok (drop i (take j d))" by blast
  then show ?thesis by (simp add: slice_def drop_take)
qed

lemma heading_not_low: "h \<in> set (findHeadings d) \<Longrightarrow> \<not> low_at d h"
proof
  assume "h \<in> set (findHeadings d)" and low: "low_at d h"
  then have "heading_at d h" by (simp add: findHeadings_eq)
  then obtain k where k: "k \<in> {1, 2, 3::nat}" and all: "\<forall>j < k. d ! (h + j) = hash_unit"
    unfolding heading_at_def by blast
  from k have "0 < k" by auto
  with all have "d ! (h + 0) = hash_unit" by blast
  with low show False by (simp add: low_at_def low_surrogate_def)
qed

subsection \<open>Chunks cover the document\<close>

text \<open>\<open>chunks_cover d e cs\<close>: the chunks are slices of \<open>d\<close>, the first starts at 0, the last ends at \<open>e\<close>,
  and each one follows its predecessor: it starts 200 units before the predecessor's end but after
  its start, one unit earlier when that place is inside a surrogate pair.\<close>

definition chunk_end :: "chunk \<Rightarrow> nat" where
  "chunk_end c = ck_offset c + ck_length c"

definition chunk_follows :: "utf16 \<Rightarrow> chunk \<Rightarrow> chunk \<Rightarrow> bool" where
  "chunk_follows d c c' \<longleftrightarrow>
     (let back = max (chunk_end c - 200) (ck_offset c + 1)
      in ck_offset c' = (if low_at d back then back - 1 else back)) \<and>
     ck_offset c \<le> ck_offset c' \<and> ck_offset c' \<le> chunk_end c \<and> chunk_end c < chunk_end c' \<and>
     chunk_end c - ck_offset c' \<le> 201"

fun chunk_chain :: "utf16 \<Rightarrow> chunk list \<Rightarrow> bool" where
  "chunk_chain d (c # c' # cs) = (chunk_follows d c c' \<and> chunk_chain d (c' # cs))"
| "chunk_chain d _ = True"

definition chunks_cover :: "utf16 \<Rightarrow> nat \<Rightarrow> chunk list \<Rightarrow> bool" where
  "chunks_cover d e cs \<longleftrightarrow> cs \<noteq> [] \<and> ck_offset (hd cs) = 0 \<and> chunk_end (last cs) = e \<and>
     chunk_chain d cs \<and>
     (\<forall>c \<in> set cs. ck_text c = slice d (ck_offset c) (chunk_end c) \<and> 0 < ck_length c \<and>
        (utf16_ok d \<longrightarrow> utf16_ok (ck_text c)))"

lemma chunk_chain_snoc:
  "chunk_chain d (cs @ [c]) \<longleftrightarrow> chunk_chain d cs \<and> (cs \<noteq> [] \<longrightarrow> chunk_follows d (last cs) c)"
  by (induction d cs rule: chunk_chain.induct) auto

text \<open>The chunk made at a cursor that is 0 or a heading, after chunks that end there.\<close>

lemma make_chunk_follows:
  assumes r_def: "r = token_slc enc content None (Fin (of_nat CHUNK_TOKEN_BUDGET)) cursor"
    and c_def: "c = make_chunk enc h content chunks r"
    and e_def: "e = (case sr_nextOffset r of Some n \<Rightarrow> n | None \<Rightarrow> length content)"
    and cur: "cursor < length content" "sr_offset r = cursor"
    and prev: "chunks = [] \<and> cursor = 0 \<or>
      chunks \<noteq> [] \<and> chunk_end (last chunks) = cursor \<and> 0 < ck_length (last chunks)"
  shows "chunk_end c = e" "cursor < e" "ck_offset c \<le> cursor" "ck_text c = slice content (ck_offset c) e"
    "chunks = [] \<Longrightarrow> ck_offset c = 0" "chunks \<noteq> [] \<Longrightarrow> chunk_follows content (last chunks) c"
    "utf16_ok content \<Longrightarrow> utf16_ok (ck_text c)"
proof -
  define s0 where "s0 = (if chunks \<noteq> []
    then max (sr_offset r - CHUNK_CHAR_OVERLAP_STEP) (ck_offset (last chunks) + 1) else sr_offset r)"
  have e: "sr_offset r + length (sr_content r) = e"
    using tok.content_length [of cursor content enc None] cur(1) by (simp add: e_def r_def)
  have nx: "cursor < n \<and> n < length content \<and> n \<in> set (findHeadings content)"
    if "sr_nextOffset r = Some n" for n
    using tok.cut_next [OF _ that [unfolded r_def]] token_next_heading [OF _ that [unfolded r_def]] cur
    by (simp add: r_def)
  have e_gt: "cursor < e" "e \<le> length content"
    using cur(1) by (auto simp: e_def dest: nx split: option.split)
  have e_low: "\<not> low_at content e"
    using heading_not_low nx by (auto simp: e_def low_at_def split: option.splits)
  have s0: "s0 \<le> cursor" "chunks = [] \<Longrightarrow> s0 = 0" "chunks \<noteq> [] \<Longrightarrow> ck_offset (last chunks) < s0"
    "chunks \<noteq> [] \<Longrightarrow> cursor - s0 \<le> 200"
    "chunks \<noteq> [] \<Longrightarrow> s0 = max (chunk_end (last chunks) - 200) (ck_offset (last chunks) + 1)"
    using prev cur(2) by (auto simp: s0_def chunk_end_def CHUNK_CHAR_OVERLAP_STEP_def CHUNK_TOKEN_OVERLAP_def)
  define s where "s = snapToCodepointBoundary content s0"
  have s: "s = (if 0 < s0 \<and> low_at content s0 then s0 - 1 else s0)" by (simp add: s_def snap_eq)
  have s_le: "s \<le> s0" "s0 \<le> s + 1" by (auto simp: s)
  have se: "s \<le> e" using s_le(1) s0(1) e_gt(1) by simp
  have fields: "ck_offset c = s" "ck_text c = slice content s e" "ck_length c = e - s"
    using e snap_eq [of content e] e_low se e_gt(2)
    by (simp_all add: c_def make_chunk_def Let_def s0_def [symmetric] s_def [symmetric])
  show "chunk_end c = e" "cursor < e" "ck_offset c \<le> cursor" "ck_text c = slice content (ck_offset c) e"
    using fields se e_gt s_le(1) s0(1) by (auto simp: chunk_end_def)
  show "ck_offset c = 0" if "chunks = []" using that fields s0(2) s_le(1) by simp
  show "chunk_follows content (last chunks) c" if ne: "chunks \<noteq> []"
  proof -
    have end_: "chunk_end (last chunks) = cursor" using prev ne by blast
    have pos: "0 < s0" using s0(3) [OF ne] by simp
    have "ck_offset c = (if low_at content s0 then s0 - 1 else s0)" using s pos by (simp add: fields)
    moreover have "ck_offset (last chunks) \<le> s" "s \<le> cursor" "cursor < s + (e - s)" "cursor - s \<le> 201"
      using s0(1) s0(3,4) [OF ne] s_le se e_gt(1) by linarith+
    ultimately show ?thesis
      unfolding chunk_follows_def Let_def s0(5) [OF ne, symmetric] unfolding chunk_end_def [of c] fields end_
      by blast
  qed
  show "utf16_ok (ck_text c)" if ok: "utf16_ok content"
    using utf16_ok_slice [OF ok _ e_low se] utf16_ok_snap [OF ok] by (simp add: fields s_def)
qed

lemma chunk_loop_covers:
  assumes "cursor < length content" and "length content - cursor < fuel"
    and "sr_offset (token_slc enc content None (Fin (of_nat CHUNK_TOKEN_BUDGET)) cursor) = cursor"
    and "chunks = [] \<and> cursor = 0 \<or> chunks_cover content cursor chunks"
  shows "chunks_cover content (length content) (chunk_loop enc h content fuel chunks cursor)"
  using assms
proof (induction fuel arbitrary: chunks cursor)
  case (Suc fuel)
  let ?slc = "token_slc enc content None (Fin (of_nat CHUNK_TOKEN_BUDGET))"
  let ?r = "?slc cursor"
  define c where "c = make_chunk enc h content chunks ?r"
  define e where "e = (case sr_nextOffset ?r of Some n \<Rightarrow> n | None \<Rightarrow> length content)"
  have prev: "chunks = [] \<and> cursor = 0 \<or>
      chunks \<noteq> [] \<and> chunk_end (last chunks) = cursor \<and> 0 < ck_length (last chunks)"
    using Suc.prems(4) by (auto simp: chunks_cover_def)
  note f = make_chunk_follows [OF refl c_def e_def Suc.prems(1,3) prev]
  have len: "0 < ck_length c" using f(1-3) by (simp add: chunk_end_def)
  have cover: "chunks_cover content e (chunks @ [c])"
    using Suc.prems(4) f len by (auto simp: chunks_cover_def chunk_chain_snoc)
  have ck: "length (ck_text c) = ck_length c"
    by (simp add: c_def make_chunk_def Let_def)
  have pos: "0 < length (ck_text c)" using len by (simp add: ck)
  show ?case
  proof (cases "sr_nextOffset ?r")
    case None
    with cover Suc.prems(1) pos show ?thesis by (simp add: Let_def c_def e_def)
  next
    case (Some n)
    then have n: "e = n" "cursor < n" "n < length content"
      using f(2) tok.cut_next [OF _ Some] Suc.prems(1) by (simp_all add: e_def)
    have "sr_offset (?slc n) = n"
      using tok.cut_aligned [OF _ Some] Suc.prems(1) by simp
    then have "chunks_cover content (length content) (chunk_loop enc h content fuel (chunks @ [c]) n)"
      using Suc.IH [of n "chunks @ [c]"] cover n Suc.prems(2) by auto
    with Some n pos Suc.prems(1) show ?thesis by (simp add: Let_def c_def)
  qed
qed simp

subsection \<open>Diffing chunks against the stored rows\<close>

record chunk_row =
  er_id :: string
  er_offset :: nat
  er_contentHash :: string
  er_vectorId :: "string option"

record diff_result =
  df_toInsert :: "chunk list"
  df_toDelete :: "(string \<times> string option) list"
  df_unchanged :: "(string \<times> chunk) list"
  df_toReembed :: "(string \<times> chunk) list"

record diff_state =
  ds_buckets :: "(string \<times> chunk_row list) list"
  ds_toInsert :: "chunk list"
  ds_unchanged :: "(string \<times> chunk) list"
  ds_toReembed :: "(string \<times> chunk) list"
  ds_consumed :: "string list"

definition diff_step :: "chunk \<Rightarrow> diff_state \<Rightarrow> diff_state" where
  "diff_step c st =
     (case map_of (ds_buckets st) (ck_contentHash c) of
        Some (m # rest) \<Rightarrow>
          (let st' = st\<lparr>ds_buckets := AList.update (ck_contentHash c) rest (ds_buckets st),
                        ds_consumed := oset_add (er_id m) (ds_consumed st)\<rparr>
           in if er_vectorId m = None
              then st'\<lparr>ds_toReembed := ds_toReembed st' @ [(er_id m, c)]\<rparr>
              else st'\<lparr>ds_unchanged := ds_unchanged st' @ [(er_id m, c)]\<rparr>)
      | _ \<Rightarrow> st\<lparr>ds_toInsert := ds_toInsert st @ [c]\<rparr>)"

definition diffChunks :: "chunk_row list \<Rightarrow> chunk list \<Rightarrow> diff_result" where
  "diffChunks existing nextChunks =
     (let st = fold diff_step nextChunks
                 \<lparr>ds_buckets = group_by er_contentHash existing, ds_toInsert = [],
                  ds_unchanged = [], ds_toReembed = [], ds_consumed = []\<rparr>
      in \<lparr>df_toInsert = ds_toInsert st,
          df_toDelete = map (\<lambda>r. (er_id r, er_vectorId r))
            (filter (\<lambda>r. er_id r \<notin> set (ds_consumed st)) existing),
          df_unchanged = ds_unchanged st, df_toReembed = ds_toReembed st\<rparr>)"

text \<open>\<open>/chunk_<first 12 of the hash>_<file id>/\<close>\<close>

definition buildVectorId :: "string \<Rightarrow> string \<Rightarrow> string" where
  "buildVectorId sourceChangelogFileId contentHash =
     ''chunk_'' @ take 12 contentHash @ ''_'' @ sourceChangelogFileId"

definition matched_ids :: "diff_state \<Rightarrow> string multiset" where
  "matched_ids st = mset (map fst (ds_unchanged st)) + mset (map fst (ds_toReembed st))"

definition diff_inv :: "chunk_row list \<Rightarrow> chunk list \<Rightarrow> diff_state \<Rightarrow> bool" where
  "diff_inv existing seen st \<longleftrightarrow>
     mset seen = mset (ds_toInsert st) + mset (map snd (ds_unchanged st)) + mset (map snd (ds_toReembed st)) \<and>
     image_mset er_id (mset existing) =
       matched_ids st + image_mset er_id (mset (concat (map snd (ds_buckets st)))) \<and>
     set (ds_consumed st) = set_mset (matched_ids st) \<and>
     distinct (map fst (ds_buckets st)) \<and>
     (\<forall>(h, rows) \<in> set (ds_buckets st). \<forall>r \<in> set rows. r \<in> set existing \<and> er_contentHash r = h) \<and>
     (\<forall>(i, c) \<in> set (ds_unchanged st). \<exists>r \<in> set existing.
        er_id r = i \<and> er_contentHash r = ck_contentHash c \<and> er_vectorId r \<noteq> None) \<and>
     (\<forall>(i, c) \<in> set (ds_toReembed st). \<exists>r \<in> set existing.
        er_id r = i \<and> er_contentHash r = ck_contentHash c \<and> er_vectorId r = None)"

lemma set_alist_update:
  "distinct (map fst m) \<Longrightarrow> set (AList.update k v m) = insert (k, v) {p \<in> set m. fst p \<noteq> k}"
  by (induction m) force+

lemma diff_step_inv:
  assumes "diff_inv existing seen st"
  shows "diff_inv existing (seen @ [c]) (diff_step c st)"
proof (cases "map_of (ds_buckets st) (ck_contentHash c)")
  case None
  with assms show ?thesis by (simp add: diff_inv_def diff_step_def matched_ids_def)
next
  case (Some rows)
  show ?thesis
  proof (cases rows)
    case Nil
    with Some assms show ?thesis by (simp add: diff_inv_def diff_step_def matched_ids_def)
  next
    case (Cons m rest)
    let ?h = "ck_contentHash c"
    let ?b = "AList.update ?h rest (ds_buckets st)"
    have in_b: "(?h, m # rest) \<in> set (ds_buckets st)" using Some Cons by (simp add: map_of_SomeD)
    have m: "m \<in> set existing" "er_contentHash m = ?h" "\<forall>r \<in> set rest. r \<in> set existing \<and> er_contentHash r = ?h"
      using assms in_b by (fastforce simp: diff_inv_def)+
    have ms: "mset (concat (map snd (ds_buckets st))) = add_mset m (mset (concat (map snd ?b)))"
      using Some Cons by (simp add: mset_update_shrink)
    have dist: "distinct (map fst (ds_buckets st))" using assms by (simp add: diff_inv_def)
    have bk: "\<forall>(h, rows) \<in> set ?b. \<forall>r \<in> set rows. r \<in> set existing \<and> er_contentHash r = h"
      using assms m(3) by (auto simp: diff_inv_def set_alist_update [OF dist])
    show ?thesis
      using assms Some Cons m ms bk dist
      by (auto simp: diff_inv_def diff_step_def matched_ids_def Let_def distinct_update)
  qed
qed

lemma diff_init_inv:
  "diff_inv existing [] \<lparr>ds_buckets = group_by er_contentHash existing, ds_toInsert = [],
     ds_unchanged = [], ds_toReembed = [], ds_consumed = []\<rparr>"
  by (auto simp: diff_inv_def matched_ids_def mset_group_by dest!: group_by_member(1))

lemma diff_fold_inv: "diff_inv existing seen st \<Longrightarrow> diff_inv existing (seen @ cs) (fold diff_step cs st)"
proof (induction cs arbitrary: seen st)
  case (Cons c cs)
  from Cons.IH [OF diff_step_inv [OF Cons.prems, of c]] show ?case by simp
qed simp

lemma diff_final_inv:
  obtains st where "diff_inv existing cs st"
    and "diffChunks existing cs = \<lparr>df_toInsert = ds_toInsert st,
          df_toDelete = map (\<lambda>r. (er_id r, er_vectorId r))
            (filter (\<lambda>r. er_id r \<notin> set (ds_consumed st)) existing),
          df_unchanged = ds_unchanged st, df_toReembed = ds_toReembed st\<rparr>"
  using diff_fold_inv [OF diff_init_inv, of existing cs]
  by (simp add: diffChunks_def Let_def)

subsection \<open>Properties\<close>

text \<open>\<open>findHeadings\<close> returns, in ascending order and without duplicates, exactly the positions at
  which a line starts with one, two or three \<open>#\<close> followed by a space or a tab.\<close>

theorem findHeadings_spec:
  "findHeadings content = filter (heading_at content) [0..<length content]"
  by (rule findHeadings_eq)

text \<open>C29: In token mode, following \<open>nextOffset\<close> from offset 0 until it is null terminates and the
  concatenated slices are the file, for every tokenizer, limit and token budget.\<close>

theorem token_reader_exact:
  "\<exists>ps. read_all (token_slc enc content limit tokens) (length content + 1) 0 = Some ps \<and>
     concat ps = content"
  using tok.read_all_terminates [of 0 content "length content + 1" enc limit tokens]
    tok.read_all_from_zero [of enc content limit tokens]
  by auto

text \<open>In character mode the same reader terminates but returns only the file up to the last
  heading plus \<open>max limit 1\<close> characters: a last section (or a file without headings) longer than the
  limit is cut and its tail is never served, since the next offset lies after every heading.\<close>

theorem char_reader_truncates:
  "\<exists>ps. read_all (char_slc enc content limit) (length content + 1) 0 = Some ps \<and>
     concat ps = take (last_heading content + max (clampLimit limit) 1) content"
proof -
  obtain ps where ps: "read_all (char_slc enc content limit) (length content + 1) 0 = Some ps"
    using chr.read_all_terminates [of 0 content "length content + 1" enc limit] by auto
  with char_read_all_take [of 0 content enc limit "length content + 1" ps] show ?thesis
    by (auto simp: slice_def min_def)
qed

text \<open>\<open>planWindowOffsets\<close> plans at most \<open>max 1 maxWindows\<close> windows, starting at 0 in strictly
  ascending order; the slices at the planned offsets concatenate to the document without its last
  \<open>droppedChars\<close> characters, and characters are dropped exactly when the plan was capped.\<close>

theorem planWindowOffsets_covers:
  fixes enc markdown maxWindowsOpt
  defines "p \<equiv> planWindowOffsets enc markdown maxWindowsOpt"
  shows "concat (map (\<lambda>off. sr_content (window_slc enc markdown off)) (wp_offsets p)) =
      take (length markdown - wp_droppedChars p) markdown \<and>
    (wp_cappedAtWindow p \<longleftrightarrow> 0 < wp_droppedChars p) \<and>
    sorted_wrt (<) (wp_offsets p) \<and> (\<exists>rest. wp_offsets p = 0 # rest) \<and>
    int (length (wp_offsets p)) \<le>
      max 1 (case maxWindowsOpt of Some m \<Rightarrow> m | None \<Rightarrow> DEFAULT_MAX_WINDOWS)"
proof -
  define k where "k = nat (max 1 (case maxWindowsOpt of Some m \<Rightarrow> m | None \<Rightarrow> DEFAULT_MAX_WINDOWS))"
  obtain offs nxt lastEnd where l: "plan_loop (window_slc enc markdown) k [] (Some 0) 0 = (offs, nxt, lastEnd)"
    by (cases "plan_loop (window_slc enc markdown) k [] (Some 0) 0") auto
  have "0 < k" by (simp add: k_def)
  with tok.plan_loop_covers [OF l [unfolded window_slc_def], folded window_slc_def]
  obtain new where new: "offs = new" "new \<noteq> []" "hd new = 0" "length new \<le> k" "sorted_wrt (<) new"
    "concat (map (\<lambda>x. sr_content (window_slc enc markdown x)) new) = slice markdown 0 lastEnd"
    "lastEnd = (case nxt of Some n \<Rightarrow> n | None \<Rightarrow> length markdown)"
    "nxt \<noteq> None \<longrightarrow> length new = k \<and> lastEnd < length markdown"
    by (auto simp: window_slc_def tok.cut_zero)
  have p: "wp_offsets p = new" "wp_cappedAtWindow p \<longleftrightarrow> nxt \<noteq> None"
    "wp_droppedChars p = (if nxt \<noteq> None then length markdown - lastEnd else 0)"
    using l new(1) by (auto simp: p_def planWindowOffsets_def Let_def k_def)
  have "\<exists>rest. new = 0 # rest" using new(2,3) by (cases new) auto
  then show ?thesis
    using new p by (auto simp: slice_def k_def split: option.splits)
qed

text \<open>C35: The chunks made for embedding cover the file: the first starts at 0, each is the slice of
  the file at its own offset and length, and the last ends at the end of the file.  Each next chunk
  starts exactly 200 code units before the previous one's end, or one after its start if that is
  later, moved one unit back when it would start inside a surrogate pair; so it starts no earlier than
  the previous one (at the same place only inside a pair), leaves no gap, ends later and overlaps it
  by at most 201 units.  No chunk of a well-formed file holds half a surrogate pair, at either
  end.  In particular the iteration cap of the loop is never what stops it.\<close>

theorem chunkChangelog_covers:
  "if content = [] then chunkChangelog enc chunkHash content = []
   else chunks_cover content (length content) (chunkChangelog enc chunkHash content)"
  using chunk_loop_covers [of 0 content "length content + 16" enc "[]" chunkHash]
  by (auto simp: chunkChangelog_def tok.cut_zero)

text \<open>A file that opens with an emoji, with a heading at its third unit and sections over the budget:
  the second chunk starts where the first does, since one unit later would be inside the pair.\<close>

lemma emoji_chunks:
  assumes enc: "\<And>t. length (enc t) = 501"
  shows "map (\<lambda>c. (ck_offset c, ck_length c))
     (chunkChangelog enc chunkHash [0xD83D, 0xDE00, newline_unit, hash_unit, space_unit, 0x62]) =
     [(0, 3), (0, 6)]"
proof -
  let ?d = "[0xD83D, 0xDE00, newline_unit, hash_unit, space_unit, 0x62]"
  let ?opts = "\<lambda>off. \<lparr>opt_offset = Some (Fin off), opt_limit = None,
    opt_tokens = Some (Fin (of_nat CHUNK_TOKEN_BUDGET))\<rparr>"
  have H: "findHeadings ?d = [3]"
    by (simp add: findHeadings_def heading_step_def isHeadingLine_def hash_run.simps upt_rec)
  have t: "clampTokens (Some (Fin (of_nat CHUNK_TOKEN_BUDGET))) = Some 500"
    by (simp add: clampTokens_def CHUNK_TOKEN_BUDGET_def MAX_SLICE_TOKENS_def)
  have z: "slice_start ?d (?opts 0) = 0" "slice_start ?d (?opts 3) = 3"
    using slice_start_nat [of _ 0 ?d] slice_start_nat [of _ 3 ?d] by (simp_all add: H snap_start_def)
  have e: "slice_end enc ?d (?opts 0) = 3" "slice_end enc ?d (?opts 3) = 6"
    by (simp_all add: slice_end_def z H t findTokenSliceEnd_def countTokens_def slice_def Let_def enc)
  have mk: "ck_offset (make_chunk enc chunkHash ?d cs s) = snapToCodepointBoundary ?d (if cs \<noteq> []
            then max (sr_offset s - CHUNK_CHAR_OVERLAP_STEP) (ck_offset (last cs) + 1)
            else sr_offset s)" 
     "ck_text (make_chunk enc chunkHash ?d cs s) = slice ?d (ck_offset (make_chunk enc chunkHash ?d cs s)) (snapToCodepointBoundary ?d (sr_offset s + length (sr_content s)))"
     "ck_length (make_chunk enc chunkHash ?d cs s) = length (ck_text (make_chunk enc chunkHash ?d cs s))" for cs s
    by (simp_all add: make_chunk_def Let_def)
  have "map (\<lambda>c. (ck_offset c, ck_length c))
     (chunk_loop enc chunkHash ?d (Suc (Suc k)) [] 0) = [(0, 3), (0, 6)]" for k
    by (simp add: token_slc_def z e mk Let_def slice_def snapToCodepointBoundary_def CHUNK_CHAR_OVERLAP_STEP_def CHUNK_TOKEN_OVERLAP_def)
  from this [of 20] show ?thesis by (simp add: chunkChangelog_def)
qed

text \<open>\<open>diffChunks\<close> places every fresh chunk in exactly one of \<open>toInsert\<close>, \<open>unchanged\<close> and
  \<open>toReembed\<close> (as multisets), and pairs a chunk only with a stored row of the same content hash, in
  \<open>unchanged\<close> when the row has a vector and in \<open>toReembed\<close> when it has none.\<close>

theorem diffChunks_partition:
  "mset nextChunks = mset (df_toInsert (diffChunks existing nextChunks)) +
     mset (map snd (df_unchanged (diffChunks existing nextChunks))) +
     mset (map snd (df_toReembed (diffChunks existing nextChunks))) \<and>
   set (df_unchanged (diffChunks existing nextChunks)) \<subseteq>
     {(er_id r, c) | r c. r \<in> set existing \<and> er_contentHash r = ck_contentHash c \<and> er_vectorId r \<noteq> None} \<and>
   set (df_toReembed (diffChunks existing nextChunks)) \<subseteq>
     {(er_id r, c) | r c. r \<in> set existing \<and> er_contentHash r = ck_contentHash c \<and> er_vectorId r = None}"
proof -
  obtain st where "diff_inv existing nextChunks st" and
    "df_toInsert (diffChunks existing nextChunks) = ds_toInsert st"
    "df_unchanged (diffChunks existing nextChunks) = ds_unchanged st"
    "df_toReembed (diffChunks existing nextChunks) = ds_toReembed st"
    by (rule diff_final_inv [of existing nextChunks]) simp
  then show ?thesis by (fastforce simp: diff_inv_def)
qed

text \<open>When stored row ids are distinct, every stored row is used once: it is matched with one
  fresh chunk or listed in \<open>toDelete\<close>, never both and never neither.\<close>

theorem diffChunks_rows:
  assumes "distinct (map er_id existing)"
  shows "mset (map er_id existing) =
    mset (map fst (df_unchanged (diffChunks existing nextChunks))) +
    mset (map fst (df_toReembed (diffChunks existing nextChunks))) +
    mset (map fst (df_toDelete (diffChunks existing nextChunks)))"
proof -
  obtain st where st: "diff_inv existing nextChunks st" and d:
    "diffChunks existing nextChunks = \<lparr>df_toInsert = ds_toInsert st,
          df_toDelete = map (\<lambda>r. (er_id r, er_vectorId r))
            (filter (\<lambda>r. er_id r \<notin> set (ds_consumed st)) existing),
          df_unchanged = ds_unchanged st, df_toReembed = ds_toReembed st\<rparr>"
    by (rule diff_final_inv)
  let ?M = "matched_ids st"
  let ?D = "filter (\<lambda>i. i \<notin> set_mset ?M) (map er_id existing)"
  let ?R = "image_mset er_id (mset (concat (map snd (ds_buckets st))))"
  have split: "mset (map er_id existing) = ?M + ?R"
    using st by (simp only: diff_inv_def mset_map)
  have "i \<notin># ?M" if "i \<in># ?R" for i
  proof -
    have "count (?M + ?R) i \<le> 1"
      unfolding split [symmetric]
      using assms [unfolded distinct_count_atmost_1, THEN spec [of _ i]]
      by (cases "i \<in> set (map er_id existing)") (simp_all only: if_True if_False order_refl le0)
    moreover have "0 < count ?R i" using that by (simp only: count_greater_zero_iff)
    ultimately have "count ?M i = 0" by (simp only: count_union)
    then show ?thesis by (simp only: not_in_iff)
  qed
  then have "filter_mset (\<lambda>i. i \<notin># ?M) (?M + ?R) = ?R"
    by (rule filter_mset_disjoint)
  then have "mset ?D = ?R" by (simp only: mset_filter split)
  with split have "mset (map er_id existing) = ?M + mset ?D" by simp
  moreover have "map fst (df_toDelete (diffChunks existing nextChunks)) = ?D"
    using st by (simp add: d diff_inv_def filter_map comp_def)
  ultimately show ?thesis using d by (simp add: matched_ids_def)
qed

theorem diffChunks_rows_witness:
  "mset (map er_id [\<lparr>er_id = ''a'', er_offset = 0, er_contentHash = ''h'', er_vectorId = None\<rparr>,
      \<lparr>er_id = ''b'', er_offset = 4, er_contentHash = ''k'', er_vectorId = Some ''v''\<rparr>]) = {#''a'', ''b''#} \<and>
   (let d = diffChunks [\<lparr>er_id = ''a'', er_offset = 0, er_contentHash = ''h'', er_vectorId = None\<rparr>,
      \<lparr>er_id = ''b'', er_offset = 4, er_contentHash = ''k'', er_vectorId = Some ''v''\<rparr>]
      [\<lparr>ck_offset = 0, ck_length = 1, ck_text = [0x78], ck_tokens = 1, ck_contentHash = ''h'', ck_heading = None\<rparr>]
    in {#''a'', ''b''#} = mset (map fst (df_unchanged d)) + mset (map fst (df_toReembed d)) +
         mset (map fst (df_toDelete d)) \<and> map fst (df_toReembed d) = [''a''])"
proof -
  let ?ex = "[\<lparr>er_id = ''a'', er_offset = 0, er_contentHash = ''h'', er_vectorId = None\<rparr>,
      \<lparr>er_id = ''b'', er_offset = 4, er_contentHash = ''k'', er_vectorId = Some ''v''\<rparr>]"
  let ?new = "[\<lparr>ck_offset = 0, ck_length = 1, ck_text = [0x78], ck_tokens = 1, ck_contentHash = ''h'', ck_heading = None\<rparr>]"
  have d: "distinct (map er_id ?ex)" by simp
  have e: "map fst (df_toReembed (diffChunks ?ex ?new)) = [''a'']"
    by (simp add: diffChunks_def diff_step_def group_by_def om_push_def Let_def)
  show ?thesis using diffChunks_rows [OF d, of ?new] e by (simp add: Let_def)
qed

end
