(* ===== verification/Versions.thy ===== *)
theory Versions
  imports Regex
begin

section \<open>Version keys and upgrade ranges\<close>

text \<open>
  \<open>packages/core/src/prerelease.ts\<close>, \<open>version-sort.ts\<close> and \<open>upgrade-range.ts\<close>: the detection of
  a pre-release, the key under which the database takes \<open>MAX(version_sort)\<close>, and the releases
  between two versions.  The key of a dotted numeric version orders as the list of its numbers, and
  the ranges of two consecutive upgrades concatenate to the range of the whole upgrade.
\<close>

subsection \<open>\<open>prerelease.ts\<close>\<close>

definition PRERELEASE_TAG_RE :: re where
  "PRERELEASE_TAG_RE = seqs
     [Cls (\<lambda>c. c = CHR ''-'' \<or> c = CHR ''.''),
      alts [lit_i ''alpha'', lit_i ''beta'', lit_i ''rc'', lit_i ''pre'', lit_i ''preview'',
        lit_i ''nightly'', lit_i ''dev'', lit_i ''canary'', lit_i ''next'', lit_i ''snapshot'',
        lit_i ''milestone'', Seq (chr_i CHR ''m'') (plus digit), lit_i ''edge'', lit_i ''insider'',
        lit_i ''experimental'', lit_i ''test'', lit_i ''early-access'', lit_i ''ea''],
      WordB]"

definition isPrereleaseVersion :: "string option \<Rightarrow> bool" where
  "isPrereleaseVersion version =
     (case version of None \<Rightarrow> False
      | Some v \<Rightarrow> (if v = [] then False
                   else let trimmed = js_trim v in
                     if trimmed = [] then False else test PRERELEASE_TAG_RE trimmed))"

subsection \<open>\<open>version-sort.ts\<close>\<close>

definition SEGMENT_WIDTH :: nat where "SEGMENT_WIDTH = 10"

definition NUMERIC_SEGMENT_RE :: re where
  "NUMERIC_SEGMENT_RE = seqs [Bos, plus digit, Eos]"

definition MIXED_SEGMENT_RE :: re where
  "MIXED_SEGMENT_RE = seqs [Bos, Grp 1 (Star (Cls (\<lambda>c. \<not> is_digit c))), Grp 2 (plus digit),
     Grp 3 (Star dot), Eos]"

definition is_delim :: "char \<Rightarrow> bool" where
  "is_delim c \<longleftrightarrow> c = CHR ''.'' \<or> c = CHR ''-'' \<or> c = CHR ''+''"

text \<open>\<open>s.split(/([.\-+])/)\<close>: the pieces with the captured delimiters between them.\<close>

fun split_delims :: "string \<Rightarrow> string list" where
  "split_delims [] = [[]]"
| "split_delims (c # s) =
     (if is_delim c then [] # [c] # split_delims s
      else (case split_delims s of [] \<Rightarrow> [[c]] | t # ts \<Rightarrow> (c # t) # ts))"

text \<open>The callback of \<open>tokens.map\<close>: the padded token, and whether it set \<open>hasNumericSegment\<close>.\<close>

definition pad_token :: "string \<Rightarrow> string \<times> bool" where
  "pad_token tok =
     (if tok = ''.'' \<or> tok = ''-'' \<or> tok = ''+'' then (tok, False)
      else if test NUMERIC_SEGMENT_RE tok then (pad_start SEGMENT_WIDTH CHR ''0'' tok, True)
      else (case exec MIXED_SEGMENT_RE tok of
              Some (_, m) \<Rightarrow> (group 1 m @ pad_start SEGMENT_WIDTH CHR ''0'' (group 2 m) @ group 3 m, True)
            | None \<Rightarrow> (tok, False)))"

definition computeVersionSort :: "string option \<Rightarrow> string option" where
  "computeVersionSort version =
     (case version of None \<Rightarrow> None
      | Some v \<Rightarrow>
          (if v = [] then None
           else let trimmed = js_trim v in
             if trimmed = [] then None
             else let padded = map pad_token (split_delims trimmed) in
               if \<not> list_ex snd padded then None
               else Some ((if isPrereleaseVersion (Some trimmed) then ''0_'' else ''1_'')
                          @ concat (map fst padded))))"

subsection \<open>\<open>upgrade-range.ts\<close>\<close>

record upgrade_entry =
  ue_version :: "string option"
  ue_versionSort :: "string option"
  ue_publishedAt :: "string option"

text \<open>The test \<open>fromRel?.publishedAt\<close>: present and not the empty string.\<close>

definition truthy_date :: "upgrade_entry option \<Rightarrow> string option" where
  "truthy_date r = (case r of None \<Rightarrow> None
     | Some e \<Rightarrow> (case ue_publishedAt e of None \<Rightarrow> None | Some d \<Rightarrow> if d = [] then None else Some d))"

text \<open>The filter and sort that both paths share: entries whose key lies in \<open>(lo, hi]\<close>.\<close>

definition in_bounds :: "(upgrade_entry \<Rightarrow> string option) \<Rightarrow> string \<Rightarrow> string \<Rightarrow> upgrade_entry \<Rightarrow> bool" where
  "in_bounds key lo hi r = (case key r of None \<Rightarrow> False | Some k \<Rightarrow> lo < k \<and> k \<le> hi)"

definition bounded_by :: "(upgrade_entry \<Rightarrow> string option) \<Rightarrow> string \<Rightarrow> string \<Rightarrow>
    upgrade_entry list \<Rightarrow> upgrade_entry list" where
  "bounded_by key lo hi releases =
     sort_by (\<lambda>a b. cmp3 (the (key a)) (the (key b))) (filter (in_bounds key lo hi) releases)"

definition resolveUpgradeRange :: "upgrade_entry list \<Rightarrow> string \<Rightarrow> string \<Rightarrow> upgrade_entry list" where
  "resolveUpgradeRange releases from_v to_v =
     (case (computeVersionSort (Some from_v), computeVersionSort (Some to_v)) of
        (Some fromSort, Some toSort) \<Rightarrow> bounded_by ue_versionSort fromSort toSort releases
      | _ \<Rightarrow>
        (let fromRel = find (\<lambda>r. ue_version r = Some from_v) releases;
             toRel = find (\<lambda>r. ue_version r = Some to_v) releases
         in case (truthy_date fromRel, truthy_date toRel) of
              (Some fromDate, Some toDate) \<Rightarrow> bounded_by ue_publishedAt fromDate toDate releases
            | _ \<Rightarrow> []))"

subsection \<open>The two segment expressions\<close>

lemma numeric_segment: "test NUMERIC_SEGMENT_RE s \<longleftrightarrow> s \<noteq> [] \<and> list_all is_digit s"
proof (cases s)
  case Nil
  then show ?thesis
    by (simp add: NUMERIC_SEGMENT_RE_def seqs_def plus_def digit_def test_anchored)
next
  case (Cons x s')
  have "(\<exists>k < Suc (length (takeWhile is_digit s')). drop k s' = []) \<longleftrightarrow> list_all is_digit s'"
    using length_takeWhile_le [of is_digit s'] takeWhile_all [of is_digit s']
    by (metis drop_all drop_eq_Nil lessI less_Suc_eq_le order.antisym order.trans)
  then show ?thesis
    by (auto simp: Cons NUMERIC_SEGMENT_RE_def seqs_def plus_def digit_def test_anchored
        rm_Star_Cls advance_def comp_def simp del: upt_Suc split: if_splits)
qed

subsection \<open>Keys of dotted numeric versions\<close>

definition dotted :: "nat list \<Rightarrow> string" where
  "dotted ns = join ''.'' (map nat_to_dec ns)"

definition num_key :: "nat \<Rightarrow> string" where
  "num_key n = pad_start SEGMENT_WIDTH CHR ''0'' (nat_to_dec n)"

lemma split_delims_ne [simp]: "split_delims s \<noteq> []"
  by (induction s) (auto split: list.splits)

lemma split_delims_no_delim: "list_all (\<lambda>c. \<not> is_delim c) s \<Longrightarrow> split_delims s = [s]"
  by (induction s) auto

lemma split_delims_append:
  "list_all (\<lambda>c. \<not> is_delim c) s \<Longrightarrow> is_delim c \<Longrightarrow> split_delims (s @ c # t) = s # [c] # split_delims t"
  by (induction s) auto

lemma digits_no_delim: "is_digit c \<Longrightarrow> \<not> is_delim c \<and> \<not> is_space c \<and> c \<noteq> CHR ''-''"
  by (auto simp: is_digit_def is_delim_def is_space_def code_unit_def)

lemma nat_to_dec_no_delim: "list_all (\<lambda>c. \<not> is_delim c) (nat_to_dec n)"
  using nat_to_dec_digits digits_no_delim by (auto simp: list_all_iff)

lemma pad_token_num: "pad_token (nat_to_dec n) = (num_key n, True)"
proof -
  have "nat_to_dec n \<noteq> [c]" if "is_delim c" for c
    using that nat_to_dec_no_delim [of n] by (auto simp: list_all_iff)
  moreover have "test NUMERIC_SEGMENT_RE (nat_to_dec n)"
    by (auto simp: numeric_segment list_all_iff nat_to_dec_digits)
  ultimately show ?thesis by (simp add: pad_token_def num_key_def is_delim_def)
qed

lemma split_dotted:
  "split_delims (dotted (n # ns)) = nat_to_dec n # concat (map (\<lambda>m. [''.'', nat_to_dec m]) ns)"
proof (induction ns arbitrary: n)
  case Nil
  then show ?case by (simp add: dotted_def split_delims_no_delim nat_to_dec_no_delim)
next
  case (Cons m ns)
  have "dotted (n # m # ns) = nat_to_dec n @ CHR ''.'' # dotted (m # ns)" by (simp add: dotted_def)
  then show ?case
    using split_delims_append [OF nat_to_dec_no_delim, of "CHR ''.''" n "dotted (m # ns)"] Cons
    by (simp add: is_delim_def)
qed

lemma set_dotted: "set (dotted ns) \<subseteq> {c. is_digit c} \<union> {CHR ''.''}"
proof (induction ns)
  case (Cons n ns)
  then show ?case
    using nat_to_dec_digits [of _ n] by (cases ns) (auto simp: dotted_def)
qed (simp add: dotted_def)

lemma dotted_Cons: "ns \<noteq> [] \<Longrightarrow> dotted (n # ns) = nat_to_dec n @ CHR ''.'' # dotted ns"
  by (simp add: dotted_def join_Cons)

lemma dotted_ne: "ns \<noteq> [] \<Longrightarrow> dotted ns \<noteq> []"
proof (cases ns)
  case (Cons n ms)
  then show ?thesis by (cases ms) (simp_all add: dotted_Cons, simp add: dotted_def)
qed simp

definition numeric_char :: "char \<Rightarrow> bool" where
  "numeric_char c \<longleftrightarrow> is_digit c \<or> c = CHR ''.''"

lemma lower_char_numeric: "numeric_char c \<Longrightarrow> lower_char c = c"
  by (auto simp: numeric_char_def lower_char_id) (simp add: lower_char_def code_unit_def)

lemma needs_chr_i: "is_lower y \<Longrightarrow> needs (\<lambda>c. \<not> numeric_char c) (chr_i y)"
  by (auto simp: chr_i_def eq_i_def lower_char_numeric lower_char_id)
    (auto simp: numeric_char_def is_lower_def is_digit_def code_unit_def)

lemma prerelease_needs: "needs (\<lambda>c. \<not> numeric_char c) PRERELEASE_TAG_RE"
  by (simp add: PRERELEASE_TAG_RE_def seqs_def alts_def lit_i_def needs_chr_i is_lower_def code_unit_def)

lemma dotted_not_prerelease:
  "ns \<noteq> [] \<Longrightarrow> js_trim (dotted ns) = dotted ns \<and> \<not> isPrereleaseVersion (Some (dotted ns))"
proof -
  have num: "numeric_char c" if "c \<in> set (dotted ns)" for c
    using set_dotted [of ns] that by (auto simp: numeric_char_def)
  then have "\<not> test PRERELEASE_TAG_RE (dotted ns)"
    using test_needs [OF prerelease_needs] by blast
  moreover have "js_trim (dotted ns) = dotted ns"
  proof (rule js_trim_id, rule ballI)
    fix c assume "c \<in> set (dotted ns)"
    then show "\<not> is_space c"
      using num [of c] digits_no_delim [of c]
      by (auto simp: numeric_char_def) (simp add: is_space_def code_unit_def)
  qed
  ultimately show ?thesis by (simp add: isPrereleaseVersion_def Let_def split: option.split)
qed

lemma computeVersionSort_dotted:
  "computeVersionSort (Some (dotted (n # ns))) =
     Some (''1_'' @ num_key n @ concat (map (\<lambda>m. CHR ''.'' # num_key m) ns))"
proof -
  have d: "pad_token ''.'' = (''.'', False)" by (simp add: pad_token_def)
  have "map pad_token (split_delims (dotted (n # ns))) =
      (num_key n, True) # concat (map (\<lambda>m. [(''.'', False), (num_key m, True)]) ns)"
    by (simp add: split_dotted pad_token_num map_concat comp_def d)
  moreover have "concat (map fst (concat (map (\<lambda>m. [(''.'', False), (num_key m, True)]) ns))) =
      concat (map (\<lambda>m. CHR ''.'' # num_key m) ns)"
    by (induction ns) auto
  ultimately show ?thesis
    using dotted_not_prerelease [of "n # ns"] dotted_ne [of "n # ns"]
    by (simp add: computeVersionSort_def)
qed

lemma num_key_props:
  assumes "n < 10 ^ SEGMENT_WIDTH"
  shows "length (num_key n) = SEGMENT_WIDTH" and "list_all is_digit (num_key n)"
    and "dec_to_nat (num_key n) = n"
proof -
  have "length (nat_to_dec n) \<le> SEGMENT_WIDTH"
    using assms by (intro length_nat_to_dec) (simp_all add: SEGMENT_WIDTH_def)
  then show "length (num_key n) = SEGMENT_WIDTH" by (simp add: num_key_def)
  have "is_digit CHR ''0''" by (simp add: is_digit_def code_unit_def)
  then show "list_all is_digit (num_key n)"
    using nat_to_dec_digits by (auto simp: num_key_def list_all_iff)
  show "dec_to_nat (num_key n) = n" by (simp add: num_key_def dec_to_nat_zeros)
qed

lemma num_key_less:
  assumes "m < 10 ^ SEGMENT_WIDTH" and "n < 10 ^ SEGMENT_WIDTH"
  shows "num_key m < num_key n \<longleftrightarrow> m < n" and "num_key m = num_key n \<longleftrightarrow> m = n"
proof -
  note m = num_key_props [OF assms(1)] and n = num_key_props [OF assms(2)]
  show "num_key m < num_key n \<longleftrightarrow> m < n"
    using dec_less [of "num_key m" "num_key n"] by (simp add: m n)
  show "num_key m = num_key n \<longleftrightarrow> m = n" using m(3) n(3) by metis
qed

lemma num_keys_less:
  assumes "m < 10 ^ SEGMENT_WIDTH" and "n < 10 ^ SEGMENT_WIDTH"
  shows "num_key m @ u < num_key n @ v \<longleftrightarrow> m < n \<or> m = n \<and> u < v"
  using num_key_less [OF assms] num_key_props(1) [OF assms(1)] num_key_props(1) [OF assms(2)]
  by (simp add: append_less)

lemma keys_less:
  "\<forall>n \<in> set (ms @ ns). n < 10 ^ SEGMENT_WIDTH \<Longrightarrow>
     concat (map (\<lambda>m. CHR ''.'' # num_key m) ms) < concat (map (\<lambda>m. CHR ''.'' # num_key m) ns) \<longleftrightarrow>
     ms < ns"
proof (induction ms arbitrary: ns)
  case Nil
  then show ?case by (cases ns) auto
next
  case (Cons m ms)
  show ?case
  proof (cases ns)
    case (Cons n ns')
    with Cons.IH [of ns'] Cons.prems num_keys_less [of m n] show ?thesis by simp
  qed simp
qed

subsection \<open>What the key promises\<close>

text \<open>the sort key orders dotted numeric versions as semver does.  For versions whose segments
  have at most ten digits, \<open>computeVersionSort\<close> returns a key for each, and the keys compare by code
  units exactly as the lists of numbers compare lexicographically.\<close>
theorem versionSort_order:
  assumes "ms \<noteq> []" and "ns \<noteq> []" and "\<forall>n \<in> set (ms @ ns). n < 10 ^ SEGMENT_WIDTH"
  shows "\<exists>k l. computeVersionSort (Some (dotted ms)) = Some k \<and>
    computeVersionSort (Some (dotted ns)) = Some l \<and> (k < l \<longleftrightarrow> ms < ns)"
proof -
  obtain m ms' n ns' where "ms = m # ms'" "ns = n # ns'" using assms(1,2) by (meson list.exhaust)
  with assms(3) show ?thesis
    using keys_less [of ms' ns'] num_keys_less [of m n] by (simp add: computeVersionSort_dotted)
qed

text \<open>The key of the example of the source's header, and a bare codename.\<close>

lemma versionSort_example:
  "computeVersionSort (Some ''15.5.18'') = Some ''1_0000000015.0000000005.0000000018''"
  "computeVersionSort (Some ''v1.0.0'') = Some ''1_v0000000001.0000000000.0000000000''"
  "computeVersionSort (Some ''1.0.0-rc.1'') = Some ''0_0000000001.0000000000.0000000000-rc.0000000001''"
  "computeVersionSort (Some ''jaguar'') = None"
  by code_simp+

theorem versionSort_order_witness:
  "\<exists>k l. computeVersionSort (Some (dotted [15, 5, 18])) = Some k \<and>
    computeVersionSort (Some (dotted [16, 2])) = Some l \<and> (k < l \<longleftrightarrow> [15, 5, 18] < [16, 2 :: nat])"
  by (rule versionSort_order) (simp_all add: SEGMENT_WIDTH_def)

subsection \<open>Pre-releases and ranges\<close>

lemma computeVersionSort_prefix:
  assumes "computeVersionSort (Some v) = Some k"
  shows "\<exists>body. k = (if isPrereleaseVersion (Some v) then ''0_'' else ''1_'') @ body"
proof -
  have "isPrereleaseVersion (Some (js_trim v)) = isPrereleaseVersion (Some v)"
    by (simp add: isPrereleaseVersion_def Let_def)
  with assms show ?thesis
    by (auto simp: computeVersionSort_def Let_def split: if_splits)
qed

lemma prerelease_key_less:
  assumes "computeVersionSort (Some v) = Some k" and "computeVersionSort (Some w) = Some l"
    and "isPrereleaseVersion (Some v)" and "\<not> isPrereleaseVersion (Some w)"
  shows "k < l"
  using computeVersionSort_prefix [OF assms(1)] computeVersionSort_prefix [OF assms(2)] assms(3,4)
  by (auto simp: less_char_code code_unit_def)

lemma bounded_by_Nil: "hi \<le> lo \<Longrightarrow> bounded_by key lo hi releases = []"
  by (auto simp: bounded_by_def in_bounds_def filter_empty_conv split: option.split)

lemma bounded_by_sort_key:
  "bounded_by key lo hi rs = sort_key (\<lambda>r. the (key r)) (filter (in_bounds key lo hi) rs)"
  by (simp add: bounded_by_def sort_by_cmp3)

lemma in_bounds_split:
  "lo \<le> mid \<Longrightarrow> mid \<le> hi \<Longrightarrow>
     in_bounds key lo hi r \<longleftrightarrow> in_bounds key lo mid r \<or> in_bounds key mid hi r"
  by (auto simp: in_bounds_def split: option.split)

lemma mset_filter_or:
  "\<forall>x \<in> set xs. \<not> (P x \<and> Q x) \<Longrightarrow>
     mset (filter (\<lambda>x. P x \<or> Q x) xs) = mset (filter P xs @ filter Q xs)"
  by (induction xs) auto

lemma bounded_by_append:
  assumes "lo \<le> mid" and "mid \<le> hi"
  shows "bounded_by key lo hi rs = bounded_by key lo mid rs @ bounded_by key mid hi rs"
  unfolding bounded_by_sort_key
proof (rule sort_key_append)
  let ?P = "in_bounds key lo mid" and ?Q = "in_bounds key mid hi"
  have pq: "in_bounds key lo hi = (\<lambda>r. ?P r \<or> ?Q r)"
    using in_bounds_split [OF assms] by blast
  have dis: "\<not> (?P r \<and> ?Q r)" for r by (auto simp: in_bounds_def split: option.splits)
  show "the (key x) < the (key y)" if "x \<in> set (filter ?P rs)" "y \<in> set (filter ?Q rs)" for x y
    using that by (auto simp: in_bounds_def split: option.splits)
  show "mset (filter (in_bounds key lo hi) rs) = mset (filter ?P rs @ filter ?Q rs)"
    unfolding pq by (rule mset_filter_or) (use dis in blast)
  show "filter (\<lambda>x. the (key x) = k) (filter (in_bounds key lo hi) rs) =
      filter (\<lambda>x. the (key x) = k) (filter ?P rs @ filter ?Q rs)" for k
  proof (cases "k \<le> mid")
    case True
    then have "filter (\<lambda>x. the (key x) = k \<and> ?Q x) rs = []"
      by (auto simp: filter_empty_conv in_bounds_def split: option.splits)
    moreover have "filter (\<lambda>x. the (key x) = k \<and> (?P x \<or> ?Q x)) rs = filter (\<lambda>x. the (key x) = k \<and> ?P x) rs"
      using True by (intro filter_cong) (auto simp: in_bounds_def split: option.splits)
    ultimately show ?thesis by (simp add: pq conj_commute)
  next
    case False
    then have "filter (\<lambda>x. the (key x) = k \<and> ?P x) rs = []"
      by (auto simp: filter_empty_conv in_bounds_def split: option.splits)
    moreover have "filter (\<lambda>x. the (key x) = k \<and> (?P x \<or> ?Q x)) rs = filter (\<lambda>x. the (key x) = k \<and> ?Q x) rs"
      using False by (intro filter_cong) (auto simp: in_bounds_def split: option.splits)
    ultimately show ?thesis by (simp add: pq conj_commute)
  qed
qed

text \<open>consecutive upgrades compose.  For three versions with keys in ascending order, the
  releases between the first and the last are those between the first and the second followed by
  those between the second and the last, ties between equal versions included.\<close>
theorem upgrade_ranges_compose:
  assumes "computeVersionSort (Some a) = Some ka" and "computeVersionSort (Some b) = Some kb"
    and "computeVersionSort (Some c) = Some kc" and "ka \<le> kb" and "kb \<le> kc"
  shows "resolveUpgradeRange rs a c = resolveUpgradeRange rs a b @ resolveUpgradeRange rs b c"
  using assms bounded_by_append [OF assms(4,5)] by (simp add: resolveUpgradeRange_def)

theorem upgrade_ranges_compose_witness:
  "\<exists>rs. resolveUpgradeRange rs ''1'' ''3'' = resolveUpgradeRange rs ''1'' ''2'' @ resolveUpgradeRange rs ''2'' ''3''
     \<and> length rs = 1"
proof -
  have k: "computeVersionSort (Some ''1'') = Some ''1_0000000001''"
    "computeVersionSort (Some ''2'') = Some ''1_0000000002''"
    "computeVersionSort (Some ''3'') = Some ''1_0000000003''" by code_simp+
  have "''1_0000000001'' \<le> ''1_0000000002''" "''1_0000000002'' \<le> ''1_0000000003''" by code_simp+
  from upgrade_ranges_compose [OF k this,
      of "[\<lparr>ue_version = Some ''2'', ue_versionSort = Some ''1_0000000002'', ue_publishedAt = None\<rparr>]"]
  show ?thesis by (intro exI conjI) auto
qed

text \<open>an upgrade to a pre-release lists nothing.  Every key of a pre-release is below every key
  of a release, whatever their numbers, so from a release to a pre-release (from \<open>1.0.0\<close> to
  \<open>2.0.0-rc.1\<close>, say) the range is empty even when releases lie between them.\<close>
theorem upgrade_to_prerelease_empty:
  assumes "computeVersionSort (Some from_v) \<noteq> None" and "computeVersionSort (Some to_v) \<noteq> None"
    and "\<not> isPrereleaseVersion (Some from_v)" and "isPrereleaseVersion (Some to_v)"
  shows "resolveUpgradeRange rs from_v to_v = []"
proof -
  obtain k l where "computeVersionSort (Some from_v) = Some k" "computeVersionSort (Some to_v) = Some l"
    using assms(1,2) by auto
  with prerelease_key_less [OF this(2,1) assms(4,3)] show ?thesis
    by (simp add: resolveUpgradeRange_def bounded_by_Nil)
qed

theorem upgrade_to_prerelease_empty_witness:
  "resolveUpgradeRange [\<lparr>ue_version = Some ''1.5.0'', ue_versionSort = computeVersionSort (Some ''1.5.0''),
     ue_publishedAt = None\<rparr>] ''1.0.0'' ''2.0.0-rc.1'' = []"
  by (rule upgrade_to_prerelease_empty) code_simp+

end
