(* ===== verification/ChangelogDoc.thy ===== *)
theory ChangelogDoc
  imports Versions
begin

section \<open>Changelog documents: headings, releases, dated sections\<close>

text \<open>
  \<open>packages/core/src/changelog-parse.ts\<close> and \<open>changelog-dated.ts\<close>: the deterministic parser from
  a markdown changelog to release entries, the mapping of GitHub release rows, and the parser of
  changelogs in dated sections.  The lemmas show that every level-two heading is accounted for and
  that a rendered document is read back.
\<close>

subsection \<open>\<open>changelog-parse.ts\<close>\<close>

datatype parsed_release_type = FeatureType
datatype changelog_format = KeepAChangelog | Conventional | PlainFormat | UnknownFormat
datatype heading_style = LinkStyle | BracketStyle | PlainStyle

text \<open>\<open>ParsedChangelogRelease\<close>; the four fields that are always \<open>null\<close> or \<open>[]\<close> are left out.\<close>

record parsed_release =
  pr_version :: "string option"
  pr_type :: parsed_release_type
  pr_title :: string
  pr_content :: string
  pr_url :: "string option"
  pr_publishedAt :: "string option"
  pr_prerelease :: bool

record parse_result =
  pc_parsable :: bool
  pc_format :: changelog_format
  pc_releases :: "parsed_release list"
  pc_headingsScanned :: nat
  pc_skipped :: nat

record parsed_heading =
  ph_version :: string
  ph_url :: "string option"
  ph_publishedAt :: "string option"
  ph_style :: heading_style

definition LEVEL2_HEADING :: re where
  "LEVEL2_HEADING = seqs [Bos, lit ''##'', NegLook (chr CHR ''#''), plus space, Grp 1 (lazy_plus dot),
     Star space, Eos]"

definition V_PREFIX_RE :: re where "V_PREFIX_RE = seqs [Bos, chr_i CHR ''v'']"
definition version_tail_char :: "char \<Rightarrow> bool" where
  "version_tail_char c \<longleftrightarrow> is_word_char c \<or> c = CHR ''.'' \<or> c = CHR ''-'' \<or> c = CHR ''+''"
definition VERSION_RE :: re where
  "VERSION_RE = seqs [Bos, Cls is_digit, Star (Cls version_tail_char), Eos]"

definition normalizeVersion :: "string \<Rightarrow> string option" where
  "normalizeVersion token =
     (let t = js_trim token;
          v = (case exec V_PREFIX_RE t of Some (m, _) \<Rightarrow> drop (length m) t | None \<Rightarrow> t)
      in if \<not> test digit v then None else if \<not> test VERSION_RE v then None else Some v)"

definition LINK_HEADING_RE :: re where
  "LINK_HEADING_RE = seqs [Bos, chr CHR ''['', Grp 1 (plus (Cls (\<lambda>c. c \<noteq> CHR '']''))), chr CHR '']'',
     chr CHR ''('', Grp 2 (plus (Cls (\<lambda>c. c \<noteq> CHR '')''))), chr CHR '')'']"
definition BRACKET_HEADING_RE :: re where
  "BRACKET_HEADING_RE = seqs [Bos, chr CHR ''['', Grp 1 (plus (Cls (\<lambda>c. c \<noteq> CHR '']''))), chr CHR '']'']"
definition DATE_RE :: re where
  "DATE_RE = Grp 1 (seqs [exactly 4 digit, chr CHR ''-'', exactly 2 digit, chr CHR ''-'', exactly 2 digit])"

text \<open>\<open>text.split(/[\s,(]+/)[0]\<close>: what precedes the first separator.\<close>

definition heading_sep :: "char \<Rightarrow> bool" where
  "heading_sep c \<longleftrightarrow> is_space c \<or> c = CHR '','' \<or> c = CHR ''(''"

definition first_token :: "string \<Rightarrow> string" where
  "first_token s = takeWhile (\<lambda>c. \<not> heading_sep c) s"

text \<open>The first half of \<open>parseHeading\<close>: style, link target and the text left to read.\<close>

definition heading_style_of :: "string \<Rightarrow> heading_style \<times> string option \<times> string" where
  "heading_style_of headingText =
     (let t = js_trim headingText in
      case exec LINK_HEADING_RE t of
        Some (m, g) \<Rightarrow> (LinkStyle, Some (group 2 g), js_trim (js_trim (group 1 g) @ drop (length m) t))
      | None \<Rightarrow>
        (case exec BRACKET_HEADING_RE t of
           Some (m, g) \<Rightarrow> (BracketStyle, None, js_trim (js_trim (group 1 g) @ drop (length m) t))
         | None \<Rightarrow> (PlainStyle, None, t)))"

definition parseHeading :: "string \<Rightarrow> parsed_heading option" where
  "parseHeading headingText =
     (case heading_style_of headingText of (style, url, t) \<Rightarrow>
        (let publishedAt = (case exec DATE_RE t of Some (_, g) \<Rightarrow> Some (group 1 g) | None \<Rightarrow> None)
         in case normalizeVersion (first_token t) of
              None \<Rightarrow> None
            | Some version \<Rightarrow> Some \<lparr>ph_version = version, ph_url = url, ph_publishedAt = publishedAt,
                                    ph_style = style\<rparr>))"

text \<open>The level-two headings of a document: line number and captured text.\<close>

definition heading_lines :: "string list \<Rightarrow> (nat \<times> string) list" where
  "heading_lines lines =
     concat (map (\<lambda>(i, l). case exec LEVEL2_HEADING l of Some (_, g) \<Rightarrow> [(i, group 1 g)] | None \<Rightarrow> [])
       (enumerate 0 lines))"

text \<open>The lines between a heading and the next one (or the end), joined and trimmed.\<close>

definition section_body :: "string list \<Rightarrow> nat \<Rightarrow> nat option \<Rightarrow> string" where
  "section_body lines line next_line =
     js_trim (join [newline] (slice lines (line + 1)
       (case next_line of Some n \<Rightarrow> n | None \<Rightarrow> length lines)))"

record parse_state =
  ps_releases :: "parsed_release list"
  ps_skipped :: nat
  ps_sawLink :: bool
  ps_sawBracket :: bool

definition parse_step :: "string list \<Rightarrow> (nat \<times> string) list \<Rightarrow> nat \<Rightarrow> parse_state \<Rightarrow> parse_state" where
  "parse_step lines headings h st =
     (case parseHeading (snd (headings ! h)) of
        None \<Rightarrow> st\<lparr>ps_skipped := ps_skipped st + 1\<rparr>
      | Some p \<Rightarrow>
          (let nxt = (if h + 1 < length headings then Some (fst (headings ! (h + 1))) else None)
           in st\<lparr>ps_sawLink := ps_sawLink st \<or> ph_style p = LinkStyle,
                 ps_sawBracket := ps_sawBracket st \<or> ph_style p = BracketStyle,
                 ps_releases := ps_releases st @
                   [\<lparr>pr_version = Some (ph_version p), pr_type = FeatureType, pr_title = ph_version p,
                     pr_content = section_body lines (fst (headings ! h)) nxt, pr_url = ph_url p,
                     pr_publishedAt = ph_publishedAt p,
                     pr_prerelease = isPrereleaseVersion (Some (ph_version p))\<rparr>]\<rparr>))"

definition format_of :: "parse_state \<Rightarrow> changelog_format" where
  "format_of st = (if ps_releases st = [] then UnknownFormat else if ps_sawLink st then Conventional
     else if ps_sawBracket st then KeepAChangelog else PlainFormat)"

definition parseChangelog :: "string \<Rightarrow> parse_result" where
  "parseChangelog markdown =
     (let lines = split_on newline markdown; headings = heading_lines lines;
          st = fold (parse_step lines headings) [0..<length headings]
                 \<lparr>ps_releases = [], ps_skipped = 0, ps_sawLink = False, ps_sawBracket = False\<rparr>
      in \<lparr>pc_parsable = ps_releases st \<noteq> [], pc_format = format_of st, pc_releases = ps_releases st,
          pc_headingsScanned = length headings, pc_skipped = ps_skipped st\<rparr>)"

record github_release =
  gh_tag_name :: string
  gh_name :: "string option"
  gh_body :: "string option"
  gh_html_url :: string
  gh_published_at :: "string option"
  gh_prerelease :: bool

definition mapGitHubReleases :: "github_release list \<Rightarrow> parsed_release list" where
  "mapGitHubReleases releases = map (\<lambda>r.
     \<lparr>pr_version = Some (gh_tag_name r), pr_type = FeatureType,
      pr_title = (case gh_name r of Some n \<Rightarrow> if n = [] then gh_tag_name r else n | None \<Rightarrow> gh_tag_name r),
      pr_content = js_trim (case gh_body r of Some b \<Rightarrow> b | None \<Rightarrow> []),
      pr_url = Some (gh_html_url r), pr_publishedAt = gh_published_at r,
      pr_prerelease = gh_prerelease r\<rparr>) releases"

subsection \<open>\<open>changelog-dated.ts\<close>\<close>

definition MONTHS :: "string list" where
  "MONTHS = [''January'', ''February'', ''March'', ''April'', ''May'', ''June'', ''July'', ''August'',
     ''September'', ''October'', ''November'', ''December'']"

record changelog_section =
  cs_dateIso :: string
  cs_title :: string
  cs_body :: string

text \<open>The destructured \<open>[y, m, d]\<close>: a missing part is \<open>undefined\<close>, for which the tests on the month
  behave as for \<open>NaN\<close>; \<open>Number.isNaN(undefined)\<close> is false, so a missing day is printed as
  \<open>undefined\<close>.  \<open>show_frac\<close> is how the runtime prints a number that is no integer below \<open>10 ^ 21\<close>.\<close>

definition print_number :: "(rat \<Rightarrow> string) \<Rightarrow> jsnum \<Rightarrow> string" where
  "print_number show_frac n = (case n of NaN \<Rightarrow> ''NaN'' | PosInf \<Rightarrow> ''Infinity'' | NegInf \<Rightarrow> ''-Infinity''
     | Fin q \<Rightarrow> (if q = of_int \<lfloor>q\<rfloor> \<and> \<bar>q\<bar> < 10 ^ 21 then int_to_dec \<lfloor>q\<rfloor> else show_frac q))"

definition month_name :: "jsnum \<Rightarrow> string option" where
  "month_name m = (case m of
     Fin q \<Rightarrow> (if q = of_int \<lfloor>q\<rfloor> \<and> 1 \<le> q \<and> q \<le> 12 then Some (MONTHS ! nat (\<lfloor>q\<rfloor> - 1)) else None)
   | _ \<Rightarrow> None)"

definition isoToTitle :: "(rat \<Rightarrow> string) \<Rightarrow> string \<Rightarrow> string option" where
  "isoToTitle show_frac dateIso =
     (let parts = map js_Number (split_on CHR ''-'' dateIso);
          y = parts ! 0;
          m = (if 1 < length parts then parts ! 1 else NaN);
          d = (if 2 < length parts then Some (parts ! 2) else None)
      in case month_name m of None \<Rightarrow> None
         | Some name \<Rightarrow> if d = Some NaN \<or> y = NaN then None
             else Some (name @ '' '' @
                    (case d of Some n \<Rightarrow> print_number show_frac n | None \<Rightarrow> ''undefined'') @
                    '', '' @ print_number show_frac y))"

definition TITLE_DATE_RE :: re where
  "TITLE_DATE_RE = seqs [Bos, Grp 1 (plus (Cls is_word_char)), plus space, Grp 2 (between 1 2 digit),
     chr CHR '','', plus space, Grp 3 (exactly 4 digit), Eos]"

definition index_of :: "'a \<Rightarrow> 'a list \<Rightarrow> nat option" where
  "index_of x xs = (let i = length (takeWhile (\<lambda>y. y \<noteq> x) xs) in if i < length xs then Some i else None)"

definition titleToIso :: "string \<Rightarrow> string option" where
  "titleToIso title =
     (case exec TITLE_DATE_RE (js_trim title) of None \<Rightarrow> None
      | Some (_, g) \<Rightarrow>
          (case index_of (group 1 g) MONTHS of None \<Rightarrow> None
           | Some monthIdx \<Rightarrow>
               Some (group 3 g @ ''-'' @ pad_start 2 CHR ''0'' (nat_to_dec (monthIdx + 1)) @ ''-'' @
                     pad_start 2 CHR ''0'' (nat_to_dec (dec_to_nat (group 2 g))))))"

definition dated_heads :: "string list \<Rightarrow> (nat \<times> string \<times> string) list" where
  "dated_heads lines = concat (map (\<lambda>(i, t). case titleToIso t of None \<Rightarrow> []
     | Some d \<Rightarrow> if d = [] then [] else [(i, js_trim t, d)]) (heading_lines lines))"

definition parseDatedChangelog :: "string \<Rightarrow> changelog_section list" where
  "parseDatedChangelog markdown =
     (let lines = split_on newline markdown; heads = dated_heads lines
      in map (\<lambda>h. \<lparr>cs_dateIso = snd (snd (heads ! h)), cs_title = fst (snd (heads ! h)),
           cs_body = section_body lines (fst (heads ! h))
             (if h + 1 < length heads then Some (fst (heads ! (h + 1))) else None)\<rparr>) [0..<length heads])"

subsection \<open>Headings\<close>

definition dot_char :: "char \<Rightarrow> bool" where
  "dot_char c \<longleftrightarrow> c \<noteq> newline \<and> c \<noteq> CHR 0x0D"

definition solid :: "string \<Rightarrow> bool" where
  "solid s \<longleftrightarrow> s \<noteq> [] \<and> \<not> is_space (hd s) \<and> \<not> is_space (last s)"

lemma solid_trim: "solid s \<Longrightarrow> js_trim s = s"
  by (simp add: solid_def js_trim_no_space)

lemma dot_eq: "dot = Cls dot_char"
  by (simp add: dot_def dot_char_def [abs_def])

abbreviation heading_tail :: re where "heading_tail \<equiv> Seq (Star space) (Seq Eos Eps)"

lemma heading_tail_spaces: "rm heading_tail (b, s, c) \<noteq> [] \<Longrightarrow> list_all is_space s"
proof -
  assume "rm heading_tail (b, s, c) \<noteq> []"
  then have "\<exists>k < Suc (length (takeWhile is_space s)). length s \<le> k"
    by (auto simp: space_def rm_Star_Cls advance_def split: if_splits simp del: upt_Suc)
  then show ?thesis
    using length_takeWhile_le [of is_space s] takeWhile_all [of is_space s] by auto
qed

lemma heading_tail_Nil: "rm heading_tail (b, [], c) = [(b, [], c)]"
  by (simp add: space_def rm_Star_Cls advance_def)

lemma title_exec:
  assumes "solid t" and "list_all dot_char t"
  shows "rm (Seq (Grp 1 (lazy_plus dot)) heading_tail) (b, t, c) = [(rev t @ b, [], (1, t) # c)]"
proof -
  have "rm heading_tail (b, drop k t @ [], c) = []" if "0 < k" "k < length t" for k b c
  proof (rule ccontr)
    assume "rm heading_tail (b, drop k t @ [], c) \<noteq> []"
    then have "list_all is_space (drop k t)" using heading_tail_spaces by simp
    moreover have "last (drop k t) = last t" using that by simp
    ultimately have "is_space (last t)"
      using that last_in_set [of "drop k t"] by (auto simp: list_all_iff)
    with assms(1) show False by (simp add: solid_def)
  qed
  then have "rm (Seq (Grp 1 (lazy_plus dot)) heading_tail) (b, t @ [], c) =
      rm heading_tail (rev t @ b, [], (1, t) # c)"
    unfolding dot_eq using assms by (intro rm_grp_lazy_det) (auto simp: solid_def)
  then show ?thesis by (simp only: append_Nil2 heading_tail_Nil)
qed

lemma level2_exec:
  assumes "solid t" and "list_all dot_char t"
  shows "exec LEVEL2_HEADING (''## '' @ t) = Some (''## '' @ t, [(1, t)])"
proof -
  let ?r = "Seq (Grp 1 (lazy_plus dot)) heading_tail"
  have "takeWhile is_space t = []" and "t \<noteq> []" using assms(1) by (cases t; simp add: solid_def)+
  moreover have "is_space CHR '' ''" by (simp add: is_space_def code_unit_def)
  ultimately have sp: "rm (plus space) (b, CHR '' '' # t, c) = [(CHR '' '' # b, t, c)]" for b c
    by (simp add: plus_def space_def rm_Star_Cls advance_def)
  have "rm (Seq (plus space) ?r) (b, CHR '' '' # t, c) = [(rev t @ CHR '' '' # b, [], (1, t) # c)]" for b c
    by (simp only: rm.simps(3) [of "plus space"] sp list.map concat.simps title_exec [OF assms] append_Nil2)
  then show ?thesis
    unfolding LEVEL2_HEADING_def seqs_def foldr.simps id_apply o_apply exec_anchored
    by (simp add: lit_def chr_def del: rm.simps(3)) (simp add: rm.simps(3) [of "Cls _"] rm.simps(3) [of "NegLook _"]
        rm.simps(3) [of "Seq _ _"] del: rm.simps(3))
qed

definition heading_text :: "string \<Rightarrow> string option" where
  "heading_text l = map_option (\<lambda>(_, g). group 1 g) (exec LEVEL2_HEADING l)"

lemma heading_text_level2: "solid t \<Longrightarrow> list_all dot_char t \<Longrightarrow> heading_text (''## '' @ t) = Some t"
  by (simp add: heading_text_def level2_exec [simplified] group_def)

definition headings_from :: "nat \<Rightarrow> string list \<Rightarrow> (nat \<times> string) list" where
  "headings_from n ls = concat (map (\<lambda>(i, l). case heading_text l of Some t \<Rightarrow> [(i, t)] | None \<Rightarrow> []) (enumerate n ls))"

lemma heading_lines_eq: "heading_lines ls = headings_from 0 ls"
  unfolding heading_lines_def headings_from_def
  by (intro arg_cong [of _ _ concat] map_cong refl) (auto simp: heading_text_def split: option.split)

lemma headings_from_simps [simp]:
  "headings_from n [] = []"
  "headings_from n (l # ls) =
     (case heading_text l of Some t \<Rightarrow> [(n, t)] | None \<Rightarrow> []) @ headings_from (Suc n) ls"
  by (simp_all add: headings_from_def)

lemma headings_from_append: "headings_from n (ls @ ms) = headings_from n ls @ headings_from (n + length ls) ms"
  by (induction ls arbitrary: n) auto

lemma headings_from_none: "\<forall>l \<in> set ls. heading_text l = None \<Longrightarrow> headings_from n ls = []"
  by (induction ls arbitrary: n) auto

text \<open>A document made of sections: a heading line with its text, then lines that are no headings.\<close>

type_synonym section_lines = "(string \<times> string list) list"

definition section_doc :: "section_lines \<Rightarrow> string list" where
  "section_doc secs = concat (map (\<lambda>(t, body). (''## '' @ t) # body) secs)"

definition wf_sections :: "section_lines \<Rightarrow> bool" where
  "wf_sections secs \<longleftrightarrow> (\<forall>(t, body) \<in> set secs. solid t \<and> list_all dot_char t \<and>
     (\<forall>l \<in> set body. heading_text l = None \<and> newline \<notin> set l))"

definition offset_of :: "section_lines \<Rightarrow> nat \<Rightarrow> nat" where
  "offset_of secs h = length (section_doc (take h secs))"

lemma section_doc_simps [simp]:
  "section_doc [] = []"
  "section_doc (s # secs) = (''## '' @ fst s) # snd s @ section_doc secs"
  by (simp_all add: section_doc_def case_prod_unfold)

lemma section_doc_append [simp]: "section_doc (xs @ ys) = section_doc xs @ section_doc ys"
  by (simp add: section_doc_def)

lemma headings_from_doc:
  "wf_sections secs \<Longrightarrow>
     headings_from n (section_doc secs) = map (\<lambda>h. (n + offset_of secs h, fst (secs ! h))) [0..<length secs]"
proof (induction secs arbitrary: n)
  case (Cons s secs)
  obtain t body where s: "s = (t, body)" by (cases s)
  from Cons.prems have wf: "wf_sections secs" and t: "solid t" "list_all dot_char t"
    and body: "\<forall>l \<in> set body. heading_text l = None" by (auto simp: wf_sections_def s)
  have "map (\<lambda>h. (n + offset_of (s # secs) h, fst ((s # secs) ! h))) [0..<length (s # secs)] =
      (n, t) # map (\<lambda>h. (n + offset_of (s # secs) (Suc h), fst (secs ! h))) [0..<length secs]"
    by (simp add: upt_conv_Cons map_Suc_upt [symmetric] comp_def offset_of_def s del: upt_Suc)
  moreover have "n + offset_of (s # secs) (Suc h) = Suc n + length body + offset_of secs h" for h
    by (simp add: offset_of_def s)
  ultimately show ?case
    using Cons.IH [OF wf, of "Suc n + length body"] heading_text_level2 [OF t] headings_from_none [OF body]
    by (simp add: s headings_from_append del: upt_Suc)
qed simp

lemma section_body_doc:
  assumes "h < length secs"
  shows "section_body (section_doc secs) (offset_of secs h)
      (if h + 1 < length secs then Some (offset_of secs (h + 1)) else None) = js_trim (join [newline] (snd (secs ! h)))"
proof -
  have "section_doc (take h secs @ secs ! h # drop (Suc h) secs) = section_doc secs"
    using assms by (simp flip: id_take_nth_drop)
  then have split: "section_doc secs = section_doc (take h secs) @
      (''## '' @ fst (secs ! h)) # snd (secs ! h) @ section_doc (drop (Suc h) secs)" by simp
  have nxt: "offset_of secs (h + 1) = offset_of secs h + 1 + length (snd (secs ! h))"
    using assms by (simp add: offset_of_def take_Suc_conv_app_nth)
  have "slice (section_doc secs) (offset_of secs h + 1) (offset_of secs (h + 1)) = snd (secs ! h)"
    by (simp only: nxt slice_def) (simp add: split offset_of_def)
  moreover have "offset_of secs (h + 1) = length (section_doc secs)" if "\<not> h + 1 < length secs"
    using that by (simp add: offset_of_def)
  ultimately show ?thesis by (auto simp: section_body_def)
qed

lemma doc_lines: 
  assumes "wf_sections secs" and "secs \<noteq> []"
  shows "split_on newline (join [newline] (section_doc secs)) = section_doc secs"
proof (rule split_on_join)
  show "section_doc secs \<noteq> []" using assms(2) by (cases secs) auto
  show "\<forall>xs \<in> set (section_doc secs). newline \<notin> set xs"
    using assms(1) by (induction secs) (auto simp: wf_sections_def dot_char_def list_all_iff)
qed

subsection \<open>Every heading is accounted for\<close>

abbreviation parse_init :: parse_state where
  "parse_init \<equiv> \<lparr>ps_releases = [], ps_skipped = 0, ps_sawLink = False, ps_sawBracket = False\<rparr>"

lemma fold_parse_count:
  "length (ps_releases (fold (parse_step lines hs) ns st)) + ps_skipped (fold (parse_step lines hs) ns st) =
     length (ps_releases st) + ps_skipped st + length ns"
  by (induction ns arbitrary: st) (auto simp: parse_step_def Let_def split: option.splits)

lemma fold_parse_releases:
  assumes "\<And>h. h \<in> set ns \<Longrightarrow> parseHeading (snd (hs ! h)) = Some (p h)"
  shows "ps_releases (fold (parse_step lines hs) ns st) = ps_releases st @
      map (\<lambda>h. \<lparr>pr_version = Some (ph_version (p h)), pr_type = FeatureType, pr_title = ph_version (p h),
        pr_content = section_body lines (fst (hs ! h))
          (if h + 1 < length hs then Some (fst (hs ! (h + 1))) else None),
        pr_url = ph_url (p h), pr_publishedAt = ph_publishedAt (p h),
        pr_prerelease = isPrereleaseVersion (Some (ph_version (p h)))\<rparr>) ns"
  using assms by (induction ns arbitrary: st) (auto simp: parse_step_def Let_def)

text \<open>the parser of changelogs drops no heading silently.  The number of level-two headings it
  reports is the number of releases plus the number it skipped, every line counted is a level-two
  heading, and the result is parsable exactly when a release was found.\<close>
theorem parseChangelog_accounts:
  "pc_headingsScanned (parseChangelog md) = length (pc_releases (parseChangelog md)) + pc_skipped (parseChangelog md)
   \<and> pc_headingsScanned (parseChangelog md) = length (filter (\<lambda>l. heading_text l \<noteq> None) (split_on newline md))
   \<and> (pc_parsable (parseChangelog md) = (pc_releases (parseChangelog md) \<noteq> []))"
proof -
  have "length (headings_from n ls) = length (filter (\<lambda>l. heading_text l \<noteq> None) ls)" for n ls
    by (induction ls arbitrary: n) (auto split: option.split)
  then show ?thesis
    by (simp add: parseChangelog_def Let_def heading_lines_eq
        fold_parse_count [where st = parse_init, simplified])
qed

subsection \<open>Reading a rendered changelog back\<close>

text \<open>The four shapes of release headings, as the tools that write changelogs render them.\<close>

record heading_spec =
  hs_style :: heading_style
  hs_version :: string
  hs_url :: string
  hs_date :: "string option"

definition iso_shape :: "string \<Rightarrow> bool" where
  "iso_shape d \<longleftrightarrow> length d = 10 \<and> d ! 4 = CHR ''-'' \<and> d ! 7 = CHR ''-'' \<and>
     (\<forall>i \<in> {0, 1, 2, 3, 5, 6, 8, 9}. is_digit (d ! i))"

definition version_shape :: "string \<Rightarrow> bool" where
  "version_shape v \<longleftrightarrow> v \<noteq> [] \<and> is_digit (hd v) \<and> list_all version_tail_char v"

definition wf_heading :: "heading_spec \<Rightarrow> bool" where
  "wf_heading s \<longleftrightarrow> version_shape (hs_version s) \<and> exec DATE_RE (hs_version s) = None \<and>
     hs_url s \<noteq> [] \<and> list_all (\<lambda>c. c \<noteq> CHR '')'' \<and> dot_char c) (hs_url s) \<and>
     (case hs_date s of None \<Rightarrow> True | Some d \<Rightarrow> iso_shape d)"

definition date_suffix :: "string option \<Rightarrow> string" where
  "date_suffix d = (case d of None \<Rightarrow> [] | Some d \<Rightarrow> '' - '' @ d)"

definition render_heading :: "heading_spec \<Rightarrow> string" where
  "render_heading s =
     (case hs_style s of
        LinkStyle \<Rightarrow> ''['' @ hs_version s @ ''](''  @ hs_url s @ '')''
      | BracketStyle \<Rightarrow> ''['' @ hs_version s @ '']''
      | PlainStyle \<Rightarrow> hs_version s) @ date_suffix (hs_date s)"

definition heading_of_spec :: "heading_spec \<Rightarrow> parsed_heading" where
  "heading_of_spec s = \<lparr>ph_version = hs_version s,
     ph_url = (if hs_style s = LinkStyle then Some (hs_url s) else None),
     ph_publishedAt = hs_date s, ph_style = hs_style s\<rparr>"

lemma version_tail_props:
  "version_tail_char c \<Longrightarrow> \<not> is_space c \<and> \<not> heading_sep c \<and> c \<noteq> CHR ''['' \<and> c \<noteq> CHR '']'' \<and> dot_char c"
  by (auto simp: version_tail_char_def is_word_char_def is_alnum_def is_digit_def is_upper_def is_lower_def
      is_space_def heading_sep_def dot_char_def code_unit_def)

lemma version_exec: "version_shape v \<Longrightarrow> test VERSION_RE v"
proof -
  assume "version_shape v"
  then obtain x u where v: "v = x # u" "is_digit x" "list_all version_tail_char u"
    by (cases v) (auto simp: version_shape_def)
  have "rm (Seq (Star (Cls version_tail_char)) (Seq Eos Eps)) (b, u @ [], c) = rm (Seq Eos Eps) (rev u @ b, [], c)" for b c
    by (rule rm_star_det) (simp_all add: v starts_not_Seq)
  then show ?thesis by (simp add: VERSION_RE_def seqs_def test_anchored v rm_seq del: rm.simps(3))
qed

lemma normalize_version: "version_shape v \<Longrightarrow> normalizeVersion v = Some v"
proof -
  assume v: "version_shape v"
  then obtain x u where x: "v = x # u" "is_digit x" by (cases v) (auto simp: version_shape_def)
  have t: "js_trim v = v"
    using v version_tail_props by (intro js_trim_id) (auto simp: version_shape_def list_all_iff)
  have "lower_char x \<noteq> lower_char CHR ''v''"
    using x(2) by (auto simp: lower_char_def is_digit_def code_unit_def Let_def)
  then have p: "exec V_PREFIX_RE v = None"
    by (simp add: V_PREFIX_RE_def seqs_def exec_anchored chr_i_def eq_i_def x)
  have "test digit v" by (simp add: test_def exec_def digit_def x match_at_def)
  with v t p version_exec show ?thesis by (simp add: normalizeVersion_def)
qed

lemma link_exec:
  assumes "v \<noteq> []" "list_all (\<lambda>c. c \<noteq> CHR '']'') v" "u \<noteq> []" "list_all (\<lambda>c. c \<noteq> CHR '')'') u"
  shows "exec LINK_HEADING_RE (''['' @ v @ ''](''  @ u @ '')'' @ rest) =
     Some (''['' @ v @ ''](''  @ u @ '')'', [(2, u), (1, v)])"
proof -
  let ?r2 = "Seq (Cls (\<lambda>c. c = CHR '')'')) Eps"
  let ?r1 = "Seq (Cls (\<lambda>c. c = CHR '']'')) (Seq (Cls (\<lambda>c. c = CHR ''(''))
    (Seq (Grp 2 (plus (Cls (\<lambda>c. c \<noteq> CHR '')'')))) ?r2))"
  have 2: "rm (Seq (Grp 2 (plus (Cls (\<lambda>c. c \<noteq> CHR '')'')))) ?r2) (b, u @ CHR '')'' # rest, c) =
      rm ?r2 (rev u @ b, CHR '')'' # rest, (2, u) # c)" for b c
    by (rule rm_grp_plus_det) (simp_all add: assms del: rm.simps)
  have 1: "rm (Seq (Grp 1 (plus (Cls (\<lambda>c. c \<noteq> CHR '']'')))) ?r1)
      (b, v @ CHR '']'' # CHR ''('' # u @ CHR '')'' # rest, c) =
      rm ?r1 (rev v @ b, CHR '']'' # CHR ''('' # u @ CHR '')'' # rest, (1, v) # c)" for b c
    by (rule rm_grp_plus_det) (simp_all add: assms del: rm.simps)
  show ?thesis
    using 1 2
    by (simp add: LINK_HEADING_RE_def seqs_def chr_def exec_anchored rm_seq eval_nat_numeral del: rm.simps(3))
qed

lemma bracket_exec:
  assumes "v \<noteq> []" "list_all (\<lambda>c. c \<noteq> CHR '']'') v"
  shows "exec BRACKET_HEADING_RE (''['' @ v @ '']'' @ rest) = Some (''['' @ v @ '']'', [(1, v)])"
    and "stops (\<lambda>c. c = CHR ''('') rest \<Longrightarrow> exec LINK_HEADING_RE (''['' @ v @ '']'' @ rest) = None"
proof -
  have g: "rm (Seq (Grp 1 (plus (Cls (\<lambda>c. c \<noteq> CHR '']'')))) (Seq (Cls (\<lambda>c. c = CHR '']'')) r))
      (b, v @ CHR '']'' # rest, c) = rm (Seq (Cls (\<lambda>c. c = CHR '']'')) r) (rev v @ b, CHR '']'' # rest, (1, v) # c)"
    for b c r by (rule rm_grp_plus_det) (simp_all add: assms del: rm.simps)
  show "exec BRACKET_HEADING_RE (''['' @ v @ '']'' @ rest) = Some (''['' @ v @ '']'', [(1, v)])"
    using g by (simp add: BRACKET_HEADING_RE_def seqs_def chr_def exec_anchored rm_seq del: rm.simps(3))
  show "exec LINK_HEADING_RE (''['' @ v @ '']'' @ rest) = None" if "stops (\<lambda>c. c = CHR ''('') rest"
    using g that by (auto simp: LINK_HEADING_RE_def seqs_def chr_def exec_anchored rm_seq
        simp del: rm.simps(3) split: list.splits)
qed

lemma plain_exec:
  "stops (\<lambda>c. c = CHR ''['') s \<Longrightarrow> exec LINK_HEADING_RE s = None \<and> exec BRACKET_HEADING_RE s = None"
  by (auto simp: LINK_HEADING_RE_def BRACKET_HEADING_RE_def seqs_def chr_def exec_anchored rm_seq
      simp del: rm.simps(3) split: list.splits)

lemma iso_shape_cases:
  "iso_shape d \<Longrightarrow> \<exists>a b c e f g h i. d = [a, b, c, e, CHR ''-'', f, g, CHR ''-'', h, i] \<and>
     list_all is_digit [a, b, c, e, f, g, h, i]"
proof -
  assume d: "iso_shape d"
  then have "d = [d ! 0, d ! 1, d ! 2, d ! 3, d ! 4, d ! 5, d ! 6, d ! 7, d ! 8, d ! 9]"
    by (intro nth_equalityI) (auto simp: iso_shape_def less_Suc_eq numeral_eq_Suc)
  with d show ?thesis unfolding iso_shape_def by force
qed

lemma rm_DATE_RE: "rm DATE_RE (b, a, c) = rm (Grp 1 (clss date_classes)) (b, a, c)"
  by (simp add: DATE_RE_def rm_date_pattern)

lemma iso_shape_fits: "iso_shape d \<Longrightarrow> fits date_classes d \<and> length d = 10"
  by (drule iso_shape_cases) (auto simp: date_classes_def numeral_eq_Suc)

lemma date_step: "\<not> is_digit x \<Longrightarrow> exec_from DATE_RE b (x # a) = exec_from DATE_RE (x # b) a"
  by (simp add: match_at_def rm_DATE_RE rm_clss) (simp add: date_classes_def numeral_eq_Suc)

lemma date_exec: "iso_shape d \<Longrightarrow> exec_from DATE_RE b d = Some (d, [(1, d)])"
proof -
  assume d: "iso_shape d"
  then have "rm DATE_RE (b, d, []) = [(rev d @ b, [], [(1, d)])]"
    by (simp add: rm_DATE_RE rm_clss iso_shape_fits)
  moreover have "d \<noteq> []" using d by (auto simp: iso_shape_def)
  ultimately show ?thesis by (cases d) (simp_all add: match_at_def)
qed

lemma date_after:
  assumes "exec DATE_RE v = None" and "iso_shape d"
  shows "exec DATE_RE (v @ '' - '' @ d) = Some (d, [(1, d)])"
proof -
  have no: "\<forall>P \<in> set date_classes. \<not> P CHR '' ''" and ne: "date_classes \<noteq> []"
    by (auto simp: date_classes_def is_digit_def code_unit_def)
  have nd: "\<not> is_digit CHR '' ''" "\<not> is_digit CHR ''-''" by (simp_all add: is_digit_def code_unit_def)
  show ?thesis
    using exec_from_skip [OF rm_DATE_RE no ne, of "[]" v "''- '' @ d"] assms date_exec nd
    by (simp add: exec_def date_step del: exec_from.simps)
qed

lemma not_space:
  "is_digit c \<Longrightarrow> \<not> is_space c" "\<not> is_space CHR ''[''" "\<not> is_space CHR '']''" "\<not> is_space CHR '')''"
  by (auto simp: is_digit_def is_space_def code_unit_def)

lemma date_suffix_solid:
  "d = None \<or> iso_shape (the d) \<Longrightarrow> s \<noteq> [] \<Longrightarrow> \<not> is_space (hd s) \<Longrightarrow> \<not> is_space (last s) \<Longrightarrow>
     solid (s @ date_suffix d)"
  by (auto simp: solid_def date_suffix_def split: option.split dest!: iso_shape_cases dest: not_space(1))

lemma version_solid: "version_shape v \<Longrightarrow> solid v"
  using version_tail_props by (auto simp: version_shape_def solid_def list_all_iff)

lemma wf_date: "wf_heading s \<Longrightarrow> hs_date s = None \<or> iso_shape (the (hs_date s))"
  by (auto simp: wf_heading_def split: option.splits)

lemma render_solid: "wf_heading s \<Longrightarrow> solid (render_heading s)"
proof -
  assume wf: "wf_heading s"
  then have "solid (hs_version s)" by (simp add: wf_heading_def version_solid)
  then show ?thesis
    unfolding render_heading_def using wf_date [OF wf] not_space
    by (intro date_suffix_solid) (auto simp: solid_def split: heading_style.split)
qed

lemma render_dots: "wf_heading s \<Longrightarrow> list_all dot_char (render_heading s)"
proof -
  assume wf: "wf_heading s"
  then have "list_all dot_char (hs_version s)" "list_all dot_char (hs_url s)"
    using version_tail_props by (auto simp: wf_heading_def version_shape_def list_all_iff)
  moreover have "list_all dot_char (date_suffix (hs_date s))"
    using wf_date [OF wf]
    by (auto simp: date_suffix_def dot_char_def is_digit_def code_unit_def split: option.split
        dest!: iso_shape_cases)
  ultimately show ?thesis by (auto simp: render_heading_def dot_char_def split: heading_style.split)
qed

lemma style_of_render:
  assumes "wf_heading s"
  shows "heading_style_of (render_heading s) =
     (hs_style s, (if hs_style s = LinkStyle then Some (hs_url s) else None), hs_version s @ date_suffix (hs_date s))"
proof -
  let ?v = "hs_version s" and ?u = "hs_url s" and ?d = "date_suffix (hs_date s)"
  have v: "version_shape ?v" and u: "?u \<noteq> []" "list_all (\<lambda>c. c \<noteq> CHR '')'') ?u"
    using assms by (auto simp: wf_heading_def list_all_iff)
  have vs: "?v \<noteq> []" "list_all (\<lambda>c. c \<noteq> CHR '']'') ?v" "js_trim ?v = ?v"
    using v version_tail_props solid_trim [OF version_solid [OF v]] by (auto simp: version_shape_def list_all_iff)
  have t: "js_trim (?v @ ?d) = ?v @ ?d"
    using version_solid [OF v] wf_date [OF assms] by (intro solid_trim date_suffix_solid) (auto simp: solid_def)
  have stop: "stops (\<lambda>c. c = CHR ''('') ?d" by (simp add: date_suffix_def split: option.split)
  have hd: "stops (\<lambda>c. c = CHR ''['') (?v @ ?d)"
    using v by (cases ?v) (auto simp: version_shape_def is_digit_def code_unit_def)
  note r = solid_trim [OF render_solid [OF assms]]
  show ?thesis
  proof (cases "hs_style s")
    case LinkStyle
    have "render_heading s = ''['' @ ?v @ ''](''  @ ?u @ '')'' @ ?d"
      by (simp add: render_heading_def LinkStyle)
    with r show ?thesis
      using link_exec [OF vs(1,2) u, of ?d] t by (simp add: heading_style_of_def LinkStyle vs group_def eval_nat_numeral)
  next
    case BracketStyle
    have "render_heading s = ''['' @ ?v @ '']'' @ ?d" by (simp add: render_heading_def BracketStyle)
    with r show ?thesis
      using bracket_exec [OF vs(1,2)] stop t by (simp add: heading_style_of_def BracketStyle vs group_def)
  next
    case PlainStyle
    have "render_heading s = ?v @ ?d" by (simp add: render_heading_def PlainStyle)
    with r show ?thesis using plain_exec [OF hd] by (simp add: heading_style_of_def PlainStyle)
  qed
qed

lemma parse_render_heading:
  assumes "wf_heading s"
  shows "parseHeading (render_heading s) = Some (heading_of_spec s)"
proof -
  let ?v = "hs_version s" and ?d = "date_suffix (hs_date s)"
  have v: "version_shape ?v" "exec DATE_RE ?v = None" using assms by (auto simp: wf_heading_def)
  have "list_all (\<lambda>c. \<not> heading_sep c) ?v" "stops (\<lambda>c. \<not> heading_sep c) ?d"
    using v(1) version_tail_props
    by (auto simp: version_shape_def list_all_iff date_suffix_def heading_sep_def is_space_def code_unit_def
        split: option.split)
  then have ft: "first_token (?v @ ?d) = ?v" by (simp add: first_token_def takeWhile_stops)
  have "(case exec DATE_RE (?v @ ?d) of Some (_, g) \<Rightarrow> Some (group 1 g) | None \<Rightarrow> None) = hs_date s"
    using v(2) wf_date [OF assms] date_after [OF v(2)]
    by (auto simp: date_suffix_def group_def split: option.split)
  then show ?thesis
    using style_of_render [OF assms] ft normalize_version [OF v(1)]
    by (simp add: parseHeading_def heading_of_spec_def)
qed

text \<open>C36: a rendered changelog is read back.  For a non-empty document of release headings in the
  linked, bracketed or bare style, with or without a date, each followed by lines that are no
  level-two headings, \<open>parseChangelog\<close> returns one release per heading, in order, with its version,
  link, date and trimmed section body, and skips nothing.\<close>
theorem parseChangelog_roundtrip:
  assumes "secs \<noteq> []" and "\<forall>(s, body) \<in> set secs. wf_heading s \<and>
      (\<forall>l \<in> set body. heading_text l = None \<and> newline \<notin> set l)"
  shows "let r = parseChangelog (join [newline] (section_doc (map (\<lambda>(s, body). (render_heading s, body)) secs)))
    in pc_releases r = map (\<lambda>(s, body).
         \<lparr>pr_version = Some (hs_version s), pr_type = FeatureType, pr_title = hs_version s,
          pr_content = js_trim (join [newline] body),
          pr_url = (if hs_style s = LinkStyle then Some (hs_url s) else None),
          pr_publishedAt = hs_date s, pr_prerelease = isPrereleaseVersion (Some (hs_version s))\<rparr>) secs
     \<and> pc_skipped r = 0"
proof -
  let ?secs = "map (\<lambda>(s, body). (render_heading s, body)) secs"
  let ?lines = "section_doc ?secs" and ?n = "length secs"
  have wf: "wf_sections ?secs"
    using assms(2) render_solid render_dots by (fastforce simp: wf_sections_def)
  let ?hs = "map (\<lambda>h. (offset_of ?secs h, fst (?secs ! h))) [0..<?n]"
  have hs: "heading_lines ?lines = ?hs"
    using headings_from_doc [OF wf, of 0] by (simp add: heading_lines_eq)
  have lines: "split_on newline (join [newline] ?lines) = ?lines" using doc_lines [OF wf] assms(1) by simp
  have p: "parseHeading (snd (?hs ! h)) = Some (heading_of_spec (fst (secs ! h)))" if "h < ?n" for h
  proof -
    have "wf_heading (fst (secs ! h))" using assms(2) that nth_mem by fastforce
    then show ?thesis using that parse_render_heading by (simp add: case_prod_unfold)
  qed
  have body: "section_body ?lines (fst (?hs ! h)) (if h + 1 < length ?hs then Some (fst (?hs ! (h + 1))) else None)
      = js_trim (join [newline] (snd (secs ! h)))" if "h < ?n" for h
    using section_body_doc [of h ?secs] that by (auto simp: case_prod_unfold)
  let ?st = "fold (parse_step ?lines ?hs) [0..<?n] parse_init"
  let ?F = "\<lambda>(s, body).
         \<lparr>pr_version = Some (hs_version s), pr_type = FeatureType, pr_title = hs_version s,
          pr_content = js_trim (join [newline] body),
          pr_url = (if hs_style s = LinkStyle then Some (hs_url s) else None),
          pr_publishedAt = hs_date s, pr_prerelease = isPrereleaseVersion (Some (hs_version s))\<rparr>"
  have rel: "ps_releases ?st = map ?F secs"
  proof (rule nth_equalityI)
    note f = fold_parse_releases [where p = "\<lambda>h. heading_of_spec (fst (secs ! h))" and hs = ?hs
        and lines = ?lines and st = parse_init and ns = "[0..<?n]"]
    show "length (ps_releases ?st) = length (map ?F secs)" using p by (subst f) auto
    fix h assume "h < length (ps_releases ?st)"
    then have h: "h < ?n" using p by (subst (asm) f) auto
    show "ps_releases ?st ! h = map ?F secs ! h"
      using p body [OF h] h by (subst f) (auto simp: heading_of_spec_def case_prod_unfold)
  qed
  moreover have "ps_skipped ?st = 0"
    using fold_parse_count [of ?lines ?hs "[0..<?n]" parse_init] rel by simp
  ultimately show ?thesis by (simp add: parseChangelog_def Let_def lines hs)
qed

definition sample_doc :: "(heading_spec \<times> string list) list" where
  "sample_doc =
     [(\<lparr>hs_style = LinkStyle, hs_version = ''1.4.0'', hs_url = ''h'', hs_date = Some ''2024-01-02''\<rparr>, [''- x'']),
      (\<lparr>hs_style = PlainStyle, hs_version = ''1.3'', hs_url = ''h'', hs_date = None\<rparr>, [])]"

theorem parseChangelog_roundtrip_witness:
  "pc_skipped (parseChangelog (join [newline]
     (section_doc (map (\<lambda>(s, body). (render_heading s, body)) sample_doc)))) = 0"
proof -
  have "sample_doc \<noteq> []" by (simp add: sample_doc_def)
  moreover have "\<forall>(s, body) \<in> set sample_doc. wf_heading s \<and>
      (\<forall>l \<in> set body. heading_text l = None \<and> newline \<notin> set l)" by code_simp
  ultimately show ?thesis using parseChangelog_roundtrip [of sample_doc] by (simp add: Let_def)
qed

subsection \<open>Dates and dated sections\<close>

text \<open>Years of four digits, months and days of the calendar's range.\<close>

definition cal_date :: "nat \<times> nat \<times> nat \<Rightarrow> bool" where
  "cal_date d \<longleftrightarrow> (case d of (y, m, d) \<Rightarrow> 1000 \<le> y \<and> y \<le> 9999 \<and> 1 \<le> m \<and> m \<le> 12 \<and> 1 \<le> d \<and> d \<le> 31)"

definition date_iso :: "nat \<times> nat \<times> nat \<Rightarrow> string" where
  "date_iso d = (case d of (y, m, d) \<Rightarrow> nat_to_dec y @ ''-'' @ pad_start 2 CHR ''0'' (nat_to_dec m) @ ''-'' @
     pad_start 2 CHR ''0'' (nat_to_dec d))"

definition date_title :: "nat \<times> nat \<times> nat \<Rightarrow> string" where
  "date_title d = (case d of (y, m, d) \<Rightarrow> MONTHS ! (m - 1) @ '' '' @ nat_to_dec d @ '', '' @ nat_to_dec y)"

lemma no_dash_dec: "CHR ''-'' \<notin> set (pad_start k CHR ''0'' (nat_to_dec n))" "CHR ''-'' \<notin> set (nat_to_dec n)"
  using nat_to_dec_digits digits_no_delim by fastforce+

lemma isoToTitle_date: "cal_date d \<Longrightarrow> isoToTitle sf (date_iso d) = Some (date_title d)"
proof -
  assume "cal_date d"
  then obtain y m d' where d: "d = (y, m, d')" and r: "y \<le> 9999" "1 \<le> m" "m \<le> 12" "d' \<le> 31"
    by (cases d) (auto simp: cal_date_def)
  have "split_on CHR ''-'' (date_iso d) =
      [nat_to_dec y, pad_start 2 CHR ''0'' (nat_to_dec m), pad_start 2 CHR ''0'' (nat_to_dec d')]"
    using no_dash_dec by (simp add: d date_iso_def split_on_append del: pad_start.simps)
  moreover have "n < 10 ^ 300" if "n \<le> 9999" for n :: nat
  proof -
    have "n < 10 ^ 4" using that by simp
    also have "(10::nat) ^ 4 \<le> 10 ^ 300" by (rule power_increasing) simp_all
    finally show ?thesis .
  qed
  then have "js_Number (pad_start k CHR ''0'' (nat_to_dec n)) = Fin (of_nat n)"
    "js_Number (nat_to_dec n) = Fin (of_nat n)" if "n \<le> 9999" for n k
    using that js_Number_dec [of n] js_Number_dec [of n 0] by simp_all
  moreover have "month_name (Fin (of_nat m)) = Some (MONTHS ! (m - 1))"
    using r(2,3) by (simp add: month_name_def nat_diff_distrib)
  moreover have "print_number sf (Fin (of_nat n)) = nat_to_dec n" if "n \<le> 9999" for n
    using that by (simp add: print_number_def int_to_dec_def)
  ultimately show ?thesis
    using r by (simp add: isoToTitle_def Let_def d date_title_def del: pad_start.simps)
qed

lemma length_dec_exact:
  assumes "10 ^ k \<le> n" and "n < 10 ^ Suc k"
  shows "length (nat_to_dec n) = Suc k"
proof -
  have "list_all is_digit (nat_to_dec n)" by (simp add: list_all_iff nat_to_dec_digits)
  then have "n < 10 ^ length (nat_to_dec n)" using dec_to_nat_less by fastforce
  with assms(1) have "(10::nat) ^ k < 10 ^ length (nat_to_dec n)" by (rule le_less_trans)
  then have "k < length (nat_to_dec n)" by (rule power_less_imp_less_exp [rotated]) simp
  with length_nat_to_dec [OF assms(2)] show ?thesis by simp
qed

lemma dec_four: "1000 \<le> y \<Longrightarrow> y \<le> 9999 \<Longrightarrow> \<exists>a b c e. nat_to_dec y = [a, b, c, e]"
proof -
  assume "1000 \<le> y" "y \<le> 9999"
  then have "length (nat_to_dec y) = Suc 3" by (intro length_dec_exact) simp_all
  then show ?thesis by (auto simp: length_Suc_conv eval_nat_numeral)
qed

lemma dec_two: "1 \<le> d \<Longrightarrow> d \<le> 31 \<Longrightarrow> \<exists>a b. nat_to_dec d = [a] \<or> nat_to_dec d = [a, b]"
proof -
  assume d: "1 \<le> d" "d \<le> 31"
  have "length (nat_to_dec d) = Suc 0 \<or> length (nat_to_dec d) = Suc 1"
    using length_dec_exact [of 0 d] length_dec_exact [of 1 d] d by (cases "d < 10") simp_all
  then show ?thesis by (auto simp: length_Suc_conv)
qed

lemma rm_one_space:
  "stops is_space v \<Longrightarrow> starts_not is_space r \<Longrightarrow>
     rm (Seq (plus space) r) (w, CHR '' '' # v, g) = rm r (CHR '' '' # w, v, g)"
  using rm_plus_det [of is_space "'' ''" v r w g]
  by (simp add: space_def is_space_def code_unit_def del: rm.simps)

lemma title_date_exec:
  assumes "u \<noteq> []" "list_all is_word_char u" "d = [p] \<or> d = [p, q]" "list_all is_digit d"
    and "list_all is_digit [a, b, c, e]"
  shows "exec TITLE_DATE_RE (u @ '' '' @ d @ '', '' @ [a, b, c, e]) =
     Some (u @ '' '' @ d @ '', '' @ [a, b, c, e], [(3, [a, b, c, e]), (2, d), (1, u)])"
proof -
  let ?y = "[a, b, c, e]"
  let ?r3 = "Seq (Grp 3 (exactly 4 digit)) (Seq Eos Eps)"
  let ?r2 = "Seq (Grp 2 (between 1 2 digit)) (Seq (chr CHR '','') (Seq (plus space) ?r3))"
  have sp: "is_space CHR '' ''" "\<not> is_space CHR '',''" "\<not> is_word_char CHR '' ''" "\<not> is_digit CHR '',''"
    by (simp_all add: is_space_def is_word_char_def is_alnum_def is_digit_def is_upper_def is_lower_def code_unit_def)
  have dsp: "\<not> is_space x" if "is_digit x" for x using that not_space(1) by blast
  have 3: "rm ?r3 (w, ?y, g) = [(rev ?y @ w, [], (3, ?y) # g)]" for w g
    using assms(5) by (simp add: exactly_def digit_def seqs_def numeral_eq_Suc)
  have s3: "rm (Seq (plus space) ?r3) (w, CHR '' '' # ?y, g) = rm ?r3 (CHR '' '' # w, ?y, g)" for w g
    using assms(5) dsp
    by (intro rm_one_space starts_not_Seq starts_not_Grp)
      (auto simp: exactly_def digit_def seqs_def numeral_eq_Suc starts_not_def)
  have 2: "rm ?r2 (w, d @ '', '' @ ?y, g) = rm (Seq (plus space) ?r3) (CHR '','' # rev d @ w, CHR '' '' # ?y, (2, d) # g)" for w g
  proof -
    have "rm (between 1 2 digit) (w, d @ CHR '','' # x, g) = (rev d @ w, CHR '','' # x, g) #
        (if d = [p] then [] else [([p] @ w, q # CHR '','' # x, g)])" for x
      using assms(3,4) sp by (auto simp: between_def seqs_def digit_def eval_nat_numeral)
    moreover have "q \<noteq> CHR '',''" if "d = [p, q]" using assms(4) sp that by auto
    ultimately show ?thesis
      using assms(3) by (auto simp: chr_def rm_seq simp del: rm.simps(3)) (auto simp: rm.simps(3) [of "Grp _ _"] rm_seq simp del: rm.simps(3))
  qed
  have s2: "rm (Seq (plus space) ?r2) (w, '' '' @ d @ '', '' @ ?y, g) = rm ?r2 (CHR '' '' # w, d @ '', '' @ ?y, g)" for w g
  proof -
    have "stops is_space (d @ '', '' @ ?y)" using assms(3,4) dsp by auto
    moreover have "starts_not is_space ?r2"
      using dsp by (intro starts_not_Seq starts_not_Grp) (auto simp: between_def seqs_def digit_def starts_not_def)
    ultimately show ?thesis using rm_one_space by simp
  qed
  have 1: "rm (Seq (Grp 1 (plus (Cls is_word_char))) (Seq (plus space) ?r2)) (w, u @ '' '' @ d @ '', '' @ ?y, g) =
      rm (Seq (plus space) ?r2) (rev u @ w, '' '' @ d @ '', '' @ ?y, (1, u) # g)" for w g
    by (rule rm_grp_plus_det)
      (use assms(1,2) sp in \<open>auto simp: starts_not_def plus_def space_def is_word_char_def is_alnum_def
        is_space_def is_digit_def is_upper_def is_lower_def\<close>)
  show ?thesis
    unfolding TITLE_DATE_RE_def seqs_def foldr.simps o_apply id_apply exec_anchored
    by (simp only: 1 s2 2 s3 3) simp
qed

lemma MONTHS_props:
  "i < 12 \<Longrightarrow> MONTHS ! i \<noteq> [] \<and> list_all is_word_char (MONTHS ! i) \<and> index_of (MONTHS ! i) MONTHS = Some i"
proof -
  have "\<forall>i \<in> set [0..<12]. MONTHS ! i \<noteq> [] \<and> list_all is_word_char (MONTHS ! i) \<and>
      index_of (MONTHS ! i) MONTHS = Some i" by code_simp
  then show "i < 12 \<Longrightarrow> ?thesis" by simp
qed

lemma date_title_props:
  assumes "cal_date d"
  shows "solid (date_title d)" and "list_all dot_char (date_title d)" and "titleToIso (date_title d) = Some (date_iso d)"
proof -
  obtain y m n where d: "d = (y, m, n)" and r: "1000 \<le> y" "y \<le> 9999" "1 \<le> m" "m \<le> 12" "1 \<le> n" "n \<le> 31"
    using assms by (cases d) (auto simp: cal_date_def)
  obtain a b c e where y: "nat_to_dec y = [a, b, c, e]" using dec_four r by blast
  obtain p q where n: "nat_to_dec n = [p] \<or> nat_to_dec n = [p, q]" using dec_two r by blast
  let ?u = "MONTHS ! (m - 1)"
  have u: "?u \<noteq> []" "list_all is_word_char ?u" "index_of ?u MONTHS = Some (m - 1)"
    using MONTHS_props [of "m - 1"] r by simp_all
  have dig: "list_all is_digit (nat_to_dec k)" for k by (simp add: list_all_iff nat_to_dec_digits)
  have word: "\<not> is_space x \<and> dot_char x" if "is_word_char x" for x
    using that version_tail_props [of x] by (simp add: version_tail_char_def)
  have t: "date_title d = ?u @ '' '' @ nat_to_dec n @ '', '' @ [a, b, c, e]" by (simp add: date_title_def d y)
  have last: "is_digit e" using dig [of y] y by simp
  show s: "solid (date_title d)"
    using u(1,2) word last not_space(1) unfolding t solid_def by (cases ?u) auto
  have "dot_char x" if "is_digit x" for x
    using that by (auto simp: dot_char_def is_digit_def code_unit_def)
  moreover have "dot_char CHR '' ''" "dot_char CHR '',''" by (simp_all add: dot_char_def)
  ultimately show "list_all dot_char (date_title d)"
    using u(2) word dig [of n] dig [of y] unfolding t by (auto simp: list_all_iff y)
  have "exec TITLE_DATE_RE (date_title d) = Some (date_title d, [(3, nat_to_dec y), (2, nat_to_dec n), (1, ?u)])"
    unfolding t using title_date_exec [OF u(1,2) n dig] dig [of y] y by simp
  then show "titleToIso (date_title d) = Some (date_iso d)"
    using r u(3) by (simp add: titleToIso_def solid_trim [OF s [unfolded d]] group_def date_iso_def d del: pad_start.simps)
qed

text \<open>dates survive the change of notation.  For a year of four digits, \<open>isoToTitle\<close> turns the
  ISO date into the title (\<open>2026-06-10\<close> into \<open>June 10, 2026\<close>) without an error and \<open>titleToIso\<close>
  turns the title back into the same ISO date.\<close>
theorem iso_title_roundtrip:
  assumes "cal_date d"
  shows "\<exists>t. isoToTitle sf (date_iso d) = Some t \<and> titleToIso t = Some (date_iso d)"
  using isoToTitle_date [OF assms] date_title_props(3) [OF assms] by blast

theorem iso_title_roundtrip_witness:
  "\<exists>t. isoToTitle (\<lambda>_. []) (date_iso (2026, 6, 10)) = Some t \<and> titleToIso t = Some (date_iso (2026, 6, 10))"
  by (rule iso_title_roundtrip) (simp add: cal_date_def)

text \<open>a dated changelog is read back.  From a document of dated sections, \<open>parseDatedChangelog\<close>
  recovers the ISO date, the title and the trimmed body of every section, in order.\<close>
theorem parseDatedChangelog_roundtrip:
  assumes "secs \<noteq> []" and "\<forall>(d, body) \<in> set secs. cal_date d \<and>
      (\<forall>l \<in> set body. heading_text l = None \<and> newline \<notin> set l)"
  shows "parseDatedChangelog (join [newline] (section_doc (map (\<lambda>(d, body). (date_title d, body)) secs))) =
     map (\<lambda>(d, body). \<lparr>cs_dateIso = date_iso d, cs_title = date_title d,
       cs_body = js_trim (join [newline] body)\<rparr>) secs"
proof -
  let ?secs = "map (\<lambda>(d, body). (date_title d, body)) secs"
  let ?lines = "section_doc ?secs" and ?n = "length secs"
  have wf: "wf_sections ?secs"
    using assms(2) date_title_props(1,2) by (fastforce simp: wf_sections_def)
  have lines: "split_on newline (join [newline] ?lines) = ?lines" using doc_lines [OF wf] assms(1) by simp
  have cal: "cal_date (fst (secs ! h))" if "h < ?n" for h using assms(2) that nth_mem by fastforce
  let ?hs = "map (\<lambda>h. (offset_of ?secs h, date_title (fst (secs ! h)), date_iso (fst (secs ! h)))) [0..<?n]"
  have ne: "date_iso d \<noteq> []" for d by (simp add: date_iso_def split: prod.split)
  have "heading_lines ?lines = map (\<lambda>h. (offset_of ?secs h, date_title (fst (secs ! h)))) [0..<?n]"
    using headings_from_doc [OF wf, of 0] by (simp add: heading_lines_eq case_prod_unfold)
  then have "map (\<lambda>(i, t). case titleToIso t of None \<Rightarrow> []
       | Some d \<Rightarrow> if d = [] then [] else [(i, js_trim t, d)]) (heading_lines ?lines) = map (\<lambda>x. [x]) ?hs"
    using date_title_props(3) [OF cal] solid_trim [OF date_title_props(1) [OF cal]] ne
    by (intro nth_equalityI) (simp_all del: map_map)
  then have hs: "dated_heads ?lines = ?hs" by (simp only: dated_heads_def concat_map_singleton map_ident)
  have body: "section_body ?lines (offset_of ?secs h) (if h + 1 < ?n then Some (offset_of ?secs (h + 1)) else None)
      = js_trim (join [newline] (snd (secs ! h)))" if "h < ?n" for h
    using section_body_doc [of h ?secs] that by (simp add: case_prod_unfold)
  show ?thesis
    unfolding parseDatedChangelog_def Let_def lines hs
  proof (rule nth_equalityI, goal_cases)
    case (2 h)
    then show ?case using body [of h] by (auto simp: case_prod_unfold)
  qed simp
qed

theorem parseDatedChangelog_roundtrip_witness:
  "parseDatedChangelog (join [newline] (section_doc (map (\<lambda>(d, body). (date_title d, body))
     [((2026, 6, 10), [''**Added**'', ''- x'']), ((2026, 6, 9), [])]))) =
   map (\<lambda>(d, body). \<lparr>cs_dateIso = date_iso d, cs_title = date_title d,
       cs_body = js_trim (join [newline] body)\<rparr>) [((2026, 6, 10), [''**Added**'', ''- x'']), ((2026, 6, 9), [])]"
proof (rule parseDatedChangelog_roundtrip)
  show "\<forall>(d, body) \<in> set [((2026, 6, 10), [''**Added**'', ''- x'']), ((2026, 6, 9), [])]. cal_date d \<and>
      (\<forall>l \<in> set body. heading_text l = None \<and> newline \<notin> set l)"
    by code_simp
qed simp

end
