(* ===== verification/Dedup.thy ===== *)
theory Dedup
  imports Dates
begin

section \<open>Duplicate filters of the ingest path\<close>

text \<open>
  \<open>packages/core/src/title-dedup.ts\<close> and \<open>content-dedup.ts\<close>.  Both filters walk a batch once, keep
  every item whose URL is already stored (the unique constraint owns that row) and every item without
  a usable key, and drop an item whose key matches a stored row or an item kept earlier.  That common
  contract is the locale \<open>duplicate_rule\<close>; it is interpreted for the title keys and for the content
  identities.  \<open>date_parse\<close> is \<open>new Date(string)\<close>, as in the theory of dates.
\<close>

subsection \<open>\<open>title-dedup.ts\<close>\<close>

definition SPACES :: re where "SPACES = plus space"

definition normalizeTitleKey :: "string \<Rightarrow> string" where
  "normalizeTitleKey title = js_trim (replace_all SPACES (\<lambda>_. '' '') (js_lower title))"

record 'a title_state =
  ts_seen :: "string list"
  ts_kept :: "'a list"
  ts_dropped :: nat

definition title_step ::
  "('a \<Rightarrow> string option) \<Rightarrow> ('a \<Rightarrow> string option) \<Rightarrow> string list \<Rightarrow> string list \<Rightarrow> 'a \<Rightarrow> 'a title_state \<Rightarrow> 'a title_state" where
  "title_step title url titleKeys urls item st =
     (let u = text_of (url item) in
      if u \<noteq> [] \<and> u \<in> set urls then st\<lparr>ts_kept := ts_kept st @ [item]\<rparr>
      else let key = normalizeTitleKey (text_of (title item)) in
        if key = [] then st\<lparr>ts_kept := ts_kept st @ [item]\<rparr>
        else if key \<in> set titleKeys \<or> key \<in> set (ts_seen st) then st\<lparr>ts_dropped := ts_dropped st + 1\<rparr>
        else st\<lparr>ts_seen := oset_add key (ts_seen st), ts_kept := ts_kept st @ [item]\<rparr>)"

definition dedupeByExistingTitle ::
  "('a \<Rightarrow> string option) \<Rightarrow> ('a \<Rightarrow> string option) \<Rightarrow> 'a list \<Rightarrow> string list \<Rightarrow> string list \<Rightarrow> 'a list \<times> nat" where
  "dedupeByExistingTitle title url items existingTitleKeys existingUrls =
     (let st = fold (title_step title url existingTitleKeys existingUrls) items
                 \<lparr>ts_seen = [], ts_kept = [], ts_dropped = 0\<rparr>
      in (ts_kept st, ts_dropped st))"

subsection \<open>\<open>content-dedup.ts\<close>\<close>

definition MIN_NORMALIZED_BODY_CHARS :: nat where "MIN_NORMALIZED_BODY_CHARS = 80"

text \<open>A timestamp column: a string or a \<open>Date\<close> with its time value.\<close>

datatype timestamp = TimeString string | TimeDate "int option"

definition iso_day :: "int \<Rightarrow> string" where
  "iso_day t = take 10 (date_string t @ ''T'' @ time_string t @ ''Z'')"

definition publishedDay :: "(string \<Rightarrow> int option) \<Rightarrow> timestamp option \<Rightarrow> string option" where
  "publishedDay date_parse v =
     (case v of
        None \<Rightarrow> None
      | Some (TimeDate t) \<Rightarrow> map_option iso_day t
      | Some (TimeString s) \<Rightarrow>
          (let trimmed = js_trim s in
           if trimmed = [] then None
           else if test DATE_ONLY_RE trimmed then Some trimmed
           else map_option iso_day (date_parse trimmed)))"

definition any_char :: re where "any_char = Cls (\<lambda>_. True)"
definition FENCE_RE :: re where
  "FENCE_RE = seqs [lit ''```'', Star (Cls (\<lambda>c. is_word_char c \<or> c = CHR ''-'')), opt (chr newline),
     Grp 1 (LazyStar any_char), lit ''```'']"
definition IMAGE_RE :: re where
  "IMAGE_RE = seqs [lit ''!['', Star (Cls (\<lambda>c. c \<noteq> CHR '']'')), lit ''](''  , Star (Cls (\<lambda>c. c \<noteq> CHR '')'')), chr CHR '')'']"
definition LINK_RE :: re where
  "LINK_RE = seqs [chr CHR ''['', Grp 1 (Star (Cls (\<lambda>c. c \<noteq> CHR '']''))), lit ''](''  , Star (Cls (\<lambda>c. c \<noteq> CHR '')'')), chr CHR '')'']"
definition URL_RE :: re where
  "URL_RE = seqs [lit_i ''http'', opt (chr_i CHR ''s''), lit ''://'', plus (Cls (\<lambda>c. \<not> is_space c))]"
definition TAG_RE :: re where
  "TAG_RE = seqs [chr CHR ''<'', plus (Cls (\<lambda>c. c \<noteq> CHR ''>'')), chr CHR ''>'']"
definition NON_WORD_RE :: re where
  "NON_WORD_RE = plus (Cls (\<lambda>c. \<not> (is_lower c \<or> is_digit c)))"
definition HEADING_TEXT_RE :: re where
  "HEADING_TEXT_RE = seqs [Bos, between 1 6 (chr CHR ''#''), plus space, Grp 1 (Star dot), Eos]"

definition norm_text :: "string \<Rightarrow> string" where
  "norm_text s = js_trim (replace_all NON_WORD_RE (\<lambda>_. '' '') (js_lower s))"

definition stripLeadingTitle :: "string \<Rightarrow> string option \<Rightarrow> string" where
  "stripLeadingTitle content title =
     (let lines = split_on newline content;
          i = length (takeWhile (\<lambda>l. js_trim l = []) lines)
      in if i \<ge> length lines then content
         else
           (let first = js_trim (lines ! i);
                heading = exec HEADING_TEXT_RE first;
                firstText = js_trim (case heading of Some (_, g) \<Rightarrow> group 1 g | None \<Rightarrow> first);
                titleNorm = (case title of Some t \<Rightarrow> if t \<noteq> [] then norm_text t else [] | None \<Rightarrow> [])
            in if heading \<noteq> None \<or> (titleNorm \<noteq> [] \<and> norm_text firstText = titleNorm)
               then join [newline] (take i lines @ drop (i + 1) lines)
               else content))"

definition normalizeReleaseBody :: "string \<Rightarrow> string option \<Rightarrow> string" where
  "normalizeReleaseBody content title =
     (let t0 = stripLeadingTitle content title;
          t1 = replace_all FENCE_RE (\<lambda>(_, g). '' '' @ group 1 g @ '' '') t0;
          t2 = replace_all IMAGE_RE (\<lambda>_. '' '') t1;
          t3 = replace_all LINK_RE (\<lambda>(_, g). group 1 g) t2;
          t4 = replace_all URL_RE (\<lambda>_. '' '') t3;
          t5 = replace_all TAG_RE (\<lambda>_. '' '') t4
      in js_trim (replace_all SPACES (\<lambda>_. '' '') (replace_all NON_WORD_RE (\<lambda>_. '' '') (js_lower t5))))"

record version_identity =
  vi_token :: string
  vi_packageName :: "string option"

definition word_dot :: "char \<Rightarrow> bool" where "word_dot c \<longleftrightarrow> is_word_char c \<or> c = CHR ''.''"
definition pkg_char :: "char \<Rightarrow> bool" where "pkg_char c \<longleftrightarrow> word_dot c \<or> c = CHR ''-''"

definition SEMVER :: re where
  "SEMVER = seqs [plus digit, chr CHR ''.'', plus digit, chr CHR ''.'', plus digit,
     opt (seqs [Cls (\<lambda>c. c = CHR ''-'' \<or> c = CHR ''+''), plus (Cls word_dot)])]"
definition PKG_AT_VERSION :: re where
  "PKG_AT_VERSION = seqs [Bos, Grp 1 (seqs [opt (chr CHR ''@''), plus (Cls pkg_char),
     opt (seqs [chr CHR ''/'', plus (Cls pkg_char)])]), chr CHR ''@'', opt (chr_i CHR ''v''), Grp 2 SEMVER, Eos]"
definition PKG_PREFIX_VERSION :: re where
  "PKG_PREFIX_VERSION = seqs [Bos, Grp 1 (seqs [Cls (\<lambda>c. is_lower c \<or> is_digit c),
     Star (Cls (\<lambda>c. is_lower c \<or> is_digit c \<or> c = CHR ''.'' \<or> c = CHR ''_'' \<or> c = CHR ''-''))]),
     plus space, opt (chr CHR ''v''), Grp 2 SEMVER, Eos]"
definition BARE_VERSION :: re where
  "BARE_VERSION = seqs [Bos, opt (chr_i CHR ''v''), Grp 1 SEMVER, Eos]"
definition EMBEDDED_VERSION :: re where
  "EMBEDDED_VERSION = seqs [WordB, opt (chr_i CHR ''v''), Grp 1 SEMVER, WordB]"

definition identityFrom :: "string \<Rightarrow> version_identity option" where
  "identityFrom input =
     (if input = [] then None
      else (case exec PKG_AT_VERSION input of
        Some (_, g) \<Rightarrow> Some \<lparr>vi_token = js_lower (group 2 g), vi_packageName = Some (js_lower (group 1 g))\<rparr>
      | None \<Rightarrow> (case exec PKG_PREFIX_VERSION input of
          Some (_, g) \<Rightarrow> Some \<lparr>vi_token = js_lower (group 2 g), vi_packageName = Some (js_lower (group 1 g))\<rparr>
        | None \<Rightarrow> (case exec BARE_VERSION input of
            Some (_, g) \<Rightarrow> Some \<lparr>vi_token = js_lower (group 1 g), vi_packageName = None\<rparr>
          | None \<Rightarrow> (case exec EMBEDDED_VERSION input of
              Some (_, g) \<Rightarrow> Some \<lparr>vi_token = js_lower (group 1 g), vi_packageName = None\<rparr>
            | None \<Rightarrow> None)))))"

text \<open>A package name that is the empty string counts as missing.\<close>

definition pkg_of :: "version_identity \<Rightarrow> string option" where
  "pkg_of v = (case vi_packageName v of Some p \<Rightarrow> if p = [] then None else Some p | None \<Rightarrow> None)"

definition versionIdentity :: "string option \<Rightarrow> string option \<Rightarrow> version_identity option" where
  "versionIdentity version title =
     (let fromVersion = (case version of Some v \<Rightarrow> identityFrom (js_trim v) | None \<Rightarrow> None);
          fromTitle = (case title of Some t \<Rightarrow> identityFrom (js_trim t) | None \<Rightarrow> None)
      in case fromVersion of
           Some v \<Rightarrow>
             (case fromTitle of
                Some t \<Rightarrow> if pkg_of v = None \<and> pkg_of t \<noteq> None \<and> vi_token t = vi_token v
                          then Some \<lparr>vi_token = vi_token v, vi_packageName = vi_packageName t\<rparr> else Some v
              | None \<Rightarrow> Some v)
         | None \<Rightarrow> fromTitle)"

definition versionsCompatible :: "version_identity option \<Rightarrow> version_identity option \<Rightarrow> bool" where
  "versionsCompatible a b =
     (case (a, b) of
        (Some x, Some y) \<Rightarrow>
          if vi_token x \<noteq> vi_token y then False
          else if pkg_of x \<noteq> None \<and> pkg_of y \<noteq> None \<and> vi_packageName x \<noteq> vi_packageName y then False
          else True
      | _ \<Rightarrow> True)"

record content_identity =
  ci_url :: "string option"
  ci_publishedAt :: "timestamp option"
  ci_bodyHash :: "string option"
  ci_version :: "string option"
  ci_title :: "string option"

type_synonym content_keys = "(string \<times> version_identity option list) list"

text \<open>The map key \<open>`${day}|${hash}`\<close>, when both parts are there.\<close>

definition content_key :: "(string \<Rightarrow> int option) \<Rightarrow> content_identity \<Rightarrow> string option" where
  "content_key date_parse row =
     (let hash = text_of (ci_bodyHash row); day = publishedDay date_parse (ci_publishedAt row)
      in if hash = [] \<or> day = None \<or> day = Some [] then None else Some (the day @ ''|'' @ hash))"

definition identity_of :: "content_identity \<Rightarrow> version_identity option" where
  "identity_of row = versionIdentity (ci_version row) (ci_title row)"

definition index_existing :: "(string \<Rightarrow> int option) \<Rightarrow> content_identity list \<Rightarrow> string list \<times> content_keys" where
  "index_existing date_parse existing =
     fold (\<lambda>row (urls, keys).
       (let u = text_of (ci_url row); urls' = (if u \<noteq> [] then oset_add u urls else urls)
        in case content_key date_parse row of
             None \<Rightarrow> (urls', keys)
           | Some key \<Rightarrow> (urls', om_push key (identity_of row) keys))) existing ([], [])"

record content_state =
  cs_keys :: content_keys
  cs_kept :: "content_identity list"
  cs_dropped :: nat

definition content_step ::
  "(string \<Rightarrow> int option) \<Rightarrow> string list \<Rightarrow> content_identity \<Rightarrow> content_state \<Rightarrow> content_state" where
  "content_step date_parse urls item st =
     (let u = text_of (ci_url item) in
      if u \<noteq> [] \<and> u \<in> set urls then st\<lparr>cs_kept := cs_kept st @ [item]\<rparr>
      else (case content_key date_parse item of
        None \<Rightarrow> st\<lparr>cs_kept := cs_kept st @ [item]\<rparr>
      | Some key \<Rightarrow>
          (let mine = identity_of item; priors = map_of (cs_keys st) key in
           if (case priors of Some l \<Rightarrow> list_ex (\<lambda>prior. versionsCompatible prior mine) l | None \<Rightarrow> False)
           then st\<lparr>cs_dropped := cs_dropped st + 1\<rparr>
           else st\<lparr>cs_keys := om_push key mine (cs_keys st), cs_kept := cs_kept st @ [item]\<rparr>)))"

definition dedupeByContentIdentity ::
  "(string \<Rightarrow> int option) \<Rightarrow> content_identity list \<Rightarrow> content_identity list \<Rightarrow> content_identity list \<times> nat" where
  "dedupeByContentIdentity date_parse items existing =
     (case index_existing date_parse existing of (urls, keys) \<Rightarrow>
        (let st = fold (content_step date_parse urls) items \<lparr>cs_keys = keys, cs_kept = [], cs_dropped = 0\<rparr>
         in (cs_kept st, cs_dropped st)))"

subsection \<open>The common contract\<close>

text \<open>One pass over a batch: an exempt item is kept; any other is dropped when it matches a stored row
  (\<open>prior\<close>) or clashes with an item kept before it.\<close>

fun sift :: "('a \<Rightarrow> bool) \<Rightarrow> ('a \<Rightarrow> bool) \<Rightarrow> ('a \<Rightarrow> 'a \<Rightarrow> bool) \<Rightarrow> 'a list \<Rightarrow> 'a list \<Rightarrow> 'a list" where
  "sift exempt prior clash seen [] = []"
| "sift exempt prior clash seen (x # xs) =
     (if exempt x then x # sift exempt prior clash seen xs
      else if prior x \<or> list_ex (\<lambda>y. clash y x) seen then sift exempt prior clash seen xs
      else x # sift exempt prior clash (seen @ [x]) xs)"

locale duplicate_rule =
  fixes exempt :: "'a \<Rightarrow> bool" and prior :: "'a \<Rightarrow> bool" and clash :: "'a \<Rightarrow> 'a \<Rightarrow> bool"
  assumes clash_refl: "\<not> exempt x \<Longrightarrow> clash x x"
    and clash_sym: "clash x y \<Longrightarrow> clash y x"
begin

lemma sift_subseq: "subseq (sift exempt prior clash seen xs) xs"
  by (induction xs arbitrary: seen) auto

lemma sift_exempt: "filter exempt (sift exempt prior clash seen xs) = filter exempt xs"
  by (induction xs arbitrary: seen) auto

lemma sift_clean:
  "x \<in> set (sift exempt prior clash seen xs) \<Longrightarrow> \<not> exempt x \<Longrightarrow> \<not> prior x \<and> (\<forall>y \<in> set seen. \<not> clash y x)"
  by (induction xs arbitrary: seen) (fastforce simp: list_ex_iff split: if_splits)+

lemma sift_pairwise:
  "sorted_wrt (\<lambda>x y. \<not> clash x y \<and> \<not> clash y x) (filter (\<lambda>x. \<not> exempt x) (sift exempt prior clash seen xs))"
proof (induction xs arbitrary: seen)
  case (Cons x xs)
  have "\<not> clash x y \<and> \<not> clash y x" if "y \<in> set (sift exempt prior clash (seen @ [x]) xs)" "\<not> exempt y" for y
    using sift_clean [OF that] clash_sym by auto
  with Cons show ?case by auto
qed simp

lemma sift_dropped:
  "x \<in> set xs \<Longrightarrow> \<not> exempt x \<Longrightarrow>
     prior x \<or> (\<exists>y \<in> set seen \<union> set (filter (\<lambda>y. \<not> exempt y) (sift exempt prior clash seen xs)). clash y x)"
proof (induction xs arbitrary: seen)
  case (Cons z xs)
  show ?case
  proof (cases "x = z")
    case True
    then show ?thesis using Cons.prems(2) clash_refl [of x] by (auto simp: list_ex_iff)
  next
    case False
    then have x: "x \<in> set xs" using Cons.prems(1) by simp
    show ?thesis
      using Cons.IH [OF x Cons.prems(2), of seen] Cons.IH [OF x Cons.prems(2), of "seen @ [z]"] by auto
  qed
qed simp

lemma sift_idem: "sift exempt prior clash seen (sift exempt prior clash seen xs) = sift exempt prior clash seen xs"
  by (induction xs arbitrary: seen) auto

text \<open>What a filter with this rule does to a batch, in one statement.\<close>

lemma sift_contract:
  "subseq (sift exempt prior clash [] xs) xs
   \<and> filter exempt (sift exempt prior clash [] xs) = filter exempt xs
   \<and> (\<forall>x \<in> set (sift exempt prior clash [] xs). \<not> exempt x \<longrightarrow> \<not> prior x)
   \<and> sorted_wrt (\<lambda>x y. \<not> clash x y) (filter (\<lambda>x. \<not> exempt x) (sift exempt prior clash [] xs))
   \<and> (\<forall>x \<in> set xs. x \<notin> set (sift exempt prior clash [] xs) \<longrightarrow>
        prior x \<or> (\<exists>y \<in> set (sift exempt prior clash [] xs). \<not> exempt y \<and> clash y x))
   \<and> sift exempt prior clash [] (sift exempt prior clash [] xs) = sift exempt prior clash [] xs"
proof (intro conjI)
  show "\<forall>x \<in> set (sift exempt prior clash [] xs). \<not> exempt x \<longrightarrow> \<not> prior x" using sift_clean by blast
  show "sorted_wrt (\<lambda>x y. \<not> clash x y) (filter (\<lambda>x. \<not> exempt x) (sift exempt prior clash [] xs))"
    using sift_pairwise by (rule sorted_wrt_mono_rel [rotated]) simp
  show "\<forall>x \<in> set xs. x \<notin> set (sift exempt prior clash [] xs) \<longrightarrow>
        prior x \<or> (\<exists>y \<in> set (sift exempt prior clash [] xs). \<not> exempt y \<and> clash y x)"
  proof (intro ballI impI)
    fix x assume x: "x \<in> set xs" "x \<notin> set (sift exempt prior clash [] xs)"
    have "\<not> exempt x"
    proof
      assume "exempt x"
      then have "x \<in> set (filter exempt xs)" using x(1) by simp
      then show False using x(2) sift_exempt [of "[]" xs] by (metis filter_is_subset subsetD)
    qed
    from sift_dropped [OF x(1) this, of "[]"]
    show "prior x \<or> (\<exists>y \<in> set (sift exempt prior clash [] xs). \<not> exempt y \<and> clash y x)" by auto
  qed
qed (rule sift_subseq sift_exempt sift_idem)+

end

subsection \<open>The title filter follows the contract\<close>

definition title_exempt :: "('a \<Rightarrow> string option) \<Rightarrow> ('a \<Rightarrow> string option) \<Rightarrow> string list \<Rightarrow> 'a \<Rightarrow> bool" where
  "title_exempt title url urls x \<longleftrightarrow>
     text_of (url x) \<noteq> [] \<and> text_of (url x) \<in> set urls \<or> normalizeTitleKey (text_of (title x)) = []"

definition title_prior :: "('a \<Rightarrow> string option) \<Rightarrow> string list \<Rightarrow> 'a \<Rightarrow> bool" where
  "title_prior title keys x \<longleftrightarrow> normalizeTitleKey (text_of (title x)) \<in> set keys"

definition title_clash :: "('a \<Rightarrow> string option) \<Rightarrow> 'a \<Rightarrow> 'a \<Rightarrow> bool" where
  "title_clash title x y \<longleftrightarrow> normalizeTitleKey (text_of (title x)) = normalizeTitleKey (text_of (title y))"

interpretation title_rule: duplicate_rule "title_exempt title url urls" "title_prior title keys" "title_clash title"
  for title :: "'a \<Rightarrow> string option" and url urls keys
  by unfold_locales (auto simp: title_clash_def)

lemma title_fold:
  assumes "set (ts_seen st) = (\<lambda>x. normalizeTitleKey (text_of (title x))) ` set seen"
  shows "ts_kept (fold (title_step title url keys urls) items st) =
      ts_kept st @ sift (title_exempt title url urls) (title_prior title keys) (title_clash title) seen items
    \<and> ts_dropped (fold (title_step title url keys urls) items st) + length (ts_kept (fold (title_step title url keys urls) items st)) =
      ts_dropped st + length (ts_kept st) + length items"
  using assms
proof (induction items arbitrary: st seen)
  case (Cons x xs)
  have clash: "list_ex (\<lambda>y. title_clash title y x) seen \<longleftrightarrow> normalizeTitleKey (text_of (title x)) \<in> set (ts_seen st)"
    using Cons.prems by (simp add: list_ex_iff title_clash_def image_iff) metis
  have "set (ts_seen (st\<lparr>ts_seen := oset_add (normalizeTitleKey (text_of (title x))) (ts_seen st),
      ts_kept := ts_kept st @ [x]\<rparr>)) = (\<lambda>x. normalizeTitleKey (text_of (title x))) ` set (seen @ [x])"
    using Cons.prems by simp
  note new = Cons.IH [OF this]
  show ?case
    using clash new Cons.IH [of "st\<lparr>ts_kept := ts_kept st @ [x]\<rparr>" seen]
      Cons.IH [of "st\<lparr>ts_dropped := ts_dropped st + 1\<rparr>" seen] Cons.prems
    by (auto simp: title_step_def title_exempt_def title_prior_def Let_def)
qed simp

lemma dedupeByExistingTitle_eq:
  defines "kept \<equiv> \<lambda>title url items keys urls. sift (title_exempt title url urls) (title_prior title keys) (title_clash title) [] items"
  shows "dedupeByExistingTitle title url items keys urls =
     (kept title url items keys urls, length items - length (kept title url items keys urls))"
proof -
  let ?st = "fold (title_step title url keys urls) items \<lparr>ts_seen = [], ts_kept = [], ts_dropped = 0\<rparr>"
  have f: "ts_kept ?st = kept title url items keys urls \<and> ts_dropped ?st + length (ts_kept ?st) = length items"
    unfolding kept_def
    using title_fold [of "\<lparr>ts_seen = [], ts_kept = [], ts_dropped = 0\<rparr>" title "[]" url keys urls items] by auto
  then have "ts_dropped ?st = length items - length (kept title url items keys urls)" by (metis add_diff_cancel_right')
  with f show ?thesis by (simp only: dedupeByExistingTitle_def Let_def)
qed

lemma distinct_map_sorted_wrt: "distinct (map f xs) \<longleftrightarrow> sorted_wrt (\<lambda>x y. f x \<noteq> f y) xs"
  by (induction xs) auto

text \<open>the title filter.  It keeps a subsequence of the batch and counts the rest; it keeps every
  item whose URL is stored and every item without a title; among the others it keeps no two with one
  normalized title and none whose title is stored; it drops an item only for one of these reasons;
  and filtering again changes nothing.\<close>
theorem title_filter_contract:
  "let kept = fst (dedupeByExistingTitle title url items keys urls);
       free = title_exempt title url urls; key = (\<lambda>x. normalizeTitleKey (text_of (title x)))
   in subseq kept items \<and> snd (dedupeByExistingTitle title url items keys urls) = length items - length kept
    \<and> filter free kept = filter free items
    \<and> distinct (map key (filter (\<lambda>x. \<not> free x) kept))
    \<and> set (map key (filter (\<lambda>x. \<not> free x) kept)) \<inter> set keys = {}
    \<and> set (map key items) \<subseteq> set (map key kept) \<union> set keys
    \<and> dedupeByExistingTitle title url kept keys urls = (kept, 0)"
proof -
  let ?free = "title_exempt title url urls" and ?key = "\<lambda>x. normalizeTitleKey (text_of (title x))"
  define kept where "kept = sift ?free (title_prior title keys) (title_clash title) [] items"
  note c = title_rule.sift_contract [of title url urls keys items, folded kept_def]
  have d: "dedupeByExistingTitle title url items keys urls = (kept, length items - length kept)"
    "dedupeByExistingTitle title url kept keys urls = (kept, 0)"
    by (simp only: dedupeByExistingTitle_eq kept_def) (use c in \<open>simp only: dedupeByExistingTitle_eq diff_self_eq_0\<close>)
  have "distinct (map ?key (filter (\<lambda>x. \<not> ?free x) kept))"
    using c by (simp add: title_clash_def distinct_map_sorted_wrt)
  moreover have "set (map ?key (filter (\<lambda>x. \<not> ?free x) kept)) \<inter> set keys = {}"
    using c by (auto simp: title_prior_def)
  moreover have "set (map ?key items) \<subseteq> set (map ?key kept) \<union> set keys"
  proof -
    have "?key x \<in> ?key ` set kept \<union> set keys" if "x \<in> set items" for x
    proof (cases "x \<in> set kept")
      case False
      with that c have "title_prior title keys x \<or> (\<exists>y \<in> set kept. \<not> ?free y \<and> title_clash title y x)" by blast
      then show ?thesis by (auto simp: title_prior_def title_clash_def image_iff intro: sym)
    qed simp
    then show ?thesis by auto
  qed
  ultimately show ?thesis using c d by (simp add: Let_def)
qed

subsection \<open>The content filter follows the contract\<close>

definition content_exempt :: "(string \<Rightarrow> int option) \<Rightarrow> content_identity list \<Rightarrow> content_identity \<Rightarrow> bool" where
  "content_exempt dp existing x \<longleftrightarrow>
     text_of (ci_url x) \<noteq> [] \<and> text_of (ci_url x) \<in> (\<lambda>r. text_of (ci_url r)) ` set existing
     \<or> content_key dp x = None"

definition content_clash :: "(string \<Rightarrow> int option) \<Rightarrow> content_identity \<Rightarrow> content_identity \<Rightarrow> bool" where
  "content_clash dp x y \<longleftrightarrow>
     content_key dp x = content_key dp y \<and> versionsCompatible (identity_of x) (identity_of y)"

definition content_prior :: "(string \<Rightarrow> int option) \<Rightarrow> content_identity list \<Rightarrow> content_identity \<Rightarrow> bool" where
  "content_prior dp existing x \<longleftrightarrow> list_ex (\<lambda>r. content_clash dp r x) existing"

lemma versionsCompatible_refl: "versionsCompatible a a"
  by (simp add: versionsCompatible_def split: option.split)

lemma versionsCompatible_sym: "versionsCompatible a b \<Longrightarrow> versionsCompatible b a"
  by (auto simp: versionsCompatible_def split: option.splits if_splits)

interpretation content_rule: duplicate_rule "content_exempt dp existing" "content_prior dp existing" "content_clash dp"
  for dp existing
  by unfold_locales (auto simp: content_clash_def versionsCompatible_refl versionsCompatible_sym)

text \<open>The map of the code holds, under each key, the identities of the rows with that key.\<close>

definition keys_of :: "(string \<Rightarrow> int option) \<Rightarrow> content_identity list \<Rightarrow> string \<Rightarrow> version_identity option list" where
  "keys_of dp rows k = map identity_of (filter (\<lambda>r. content_key dp r = Some k) rows)"

definition at_key :: "content_keys \<Rightarrow> string \<Rightarrow> version_identity option list" where
  "at_key m k = (case map_of m k of None \<Rightarrow> [] | Some l \<Rightarrow> l)"

lemma at_key_push: "at_key (om_push k v m) k' = at_key m k' @ (if k' = k then [v] else [])"
  by (simp add: at_key_def map_of_om_push split: option.split)

lemma keys_of_snoc:
  "keys_of dp (rows @ [r]) k = keys_of dp rows k @ (if content_key dp r = Some k then [identity_of r] else [])"
  by (simp add: keys_of_def)

lemma index_existing_inv:
  "set (fst (index_existing dp existing)) = (\<lambda>r. text_of (ci_url r)) ` set existing - {[]}
   \<and> at_key (snd (index_existing dp existing)) = keys_of dp existing"
proof (induction existing rule: rev_induct)
  case Nil
  then show ?case by (auto simp: index_existing_def at_key_def keys_of_def)
next
  case (snoc r rows)
  obtain urls keys where i: "index_existing dp rows = (urls, keys)" by (cases "index_existing dp rows")
  have "index_existing dp (rows @ [r]) =
      (let u = text_of (ci_url r); urls' = (if u \<noteq> [] then oset_add u urls else urls)
       in case content_key dp r of None \<Rightarrow> (urls', keys) | Some key \<Rightarrow> (urls', om_push key (identity_of r) keys))"
    using i by (simp add: index_existing_def)
  then show ?case
    using snoc i by (auto simp: Let_def fun_eq_iff at_key_push keys_of_snoc split: option.splits)
qed

lemma content_fold:
  assumes "at_key (cs_keys st) = keys_of dp (existing @ seen)"
    and "set urls = (\<lambda>r. text_of (ci_url r)) ` set existing - {[]}"
  shows "cs_kept (fold (content_step dp urls) items st) =
      cs_kept st @ sift (content_exempt dp existing) (content_prior dp existing) (content_clash dp) seen items
    \<and> cs_dropped (fold (content_step dp urls) items st) + length (cs_kept (fold (content_step dp urls) items st)) =
      cs_dropped st + length (cs_kept st) + length items"
  using assms(1)
proof (induction items arbitrary: st seen)
  case (Cons x xs)
  have ex: "content_exempt dp existing x \<longleftrightarrow>
      text_of (ci_url x) \<noteq> [] \<and> text_of (ci_url x) \<in> set urls \<or> content_key dp x = None"
    using assms(2) by (auto simp: content_exempt_def)
  show ?case
  proof (cases "content_key dp x")
    case None
    then show ?thesis
      using ex Cons.IH [of "st\<lparr>cs_kept := cs_kept st @ [x]\<rparr>" seen] Cons.prems
      by (auto simp: content_step_def Let_def)
  next
    case (Some k)
    have look: "(case map_of (cs_keys st) k of Some l \<Rightarrow> list_ex (\<lambda>prior. versionsCompatible prior (identity_of x)) l
        | None \<Rightarrow> False) \<longleftrightarrow> content_prior dp existing x \<or> list_ex (\<lambda>y. content_clash dp y x) seen"
    proof -
      have "(case map_of (cs_keys st) k of Some l \<Rightarrow> list_ex (\<lambda>prior. versionsCompatible prior (identity_of x)) l
        | None \<Rightarrow> False) \<longleftrightarrow> list_ex (\<lambda>prior. versionsCompatible prior (identity_of x)) (at_key (cs_keys st) k)"
        by (simp add: at_key_def split: option.split)
      also have "\<dots> \<longleftrightarrow> (\<exists>r \<in> set (existing @ seen). content_key dp r = Some k \<and> versionsCompatible (identity_of r) (identity_of x))"
        by (auto simp: Cons.prems keys_of_def list_ex_iff)
      finally show ?thesis using Some by (auto simp: content_prior_def content_clash_def list_ex_iff)
    qed
    have "at_key (om_push k (identity_of x) (cs_keys st)) = keys_of dp (existing @ seen @ [x])"
      using Cons.prems Some keys_of_snoc [of dp "existing @ seen" x] by (simp add: fun_eq_iff at_key_push)
    then have new: "at_key (cs_keys (st\<lparr>cs_keys := om_push k (identity_of x) (cs_keys st), cs_kept := cs_kept st @ [x]\<rparr>)) =
        keys_of dp (existing @ seen @ [x])" by simp
    show ?thesis
      using Some ex look Cons.IH [OF new] Cons.IH [of "st\<lparr>cs_kept := cs_kept st @ [x]\<rparr>" seen]
        Cons.IH [of "st\<lparr>cs_dropped := cs_dropped st + 1\<rparr>" seen] Cons.prems
      by (auto simp: content_step_def Let_def)
  qed
qed simp

lemma dedupeByContentIdentity_eq:
  fixes items existing dp
  defines "kept \<equiv> sift (content_exempt dp existing) (content_prior dp existing) (content_clash dp) [] items"
  shows "dedupeByContentIdentity dp items existing = (kept, length items - length kept)"
proof -
  obtain urls keys where i: "index_existing dp existing = (urls, keys)" by (cases "index_existing dp existing")
  let ?st = "fold (content_step dp urls) items \<lparr>cs_keys = keys, cs_kept = [], cs_dropped = 0\<rparr>"
  have f: "cs_kept ?st = kept \<and> cs_dropped ?st + length (cs_kept ?st) = length items"
    unfolding kept_def
    using content_fold [of "\<lparr>cs_keys = keys, cs_kept = [], cs_dropped = 0\<rparr>" dp existing "[]" urls items]
      index_existing_inv [of dp existing] i by auto
  then have "cs_dropped ?st = length items - length kept" by (metis add_diff_cancel_right')
  with f show ?thesis by (simp only: dedupeByContentIdentity_def i Let_def prod.case)
qed

text \<open>the content filter.  It keeps a subsequence of the batch and counts the rest; it keeps every
  item whose URL is stored and every item without a day or a hash; among the others no two kept
  items, and no kept item and stored row, have the same day and body hash with compatible versions;
  an item is dropped only for such a match; and filtering again changes nothing.\<close>
theorem content_filter_contract:
  "let kept = fst (dedupeByContentIdentity dp items existing); free = content_exempt dp existing;
       same = (\<lambda>x y. content_key dp x = content_key dp y \<and> versionsCompatible (identity_of x) (identity_of y))
   in subseq kept items \<and> snd (dedupeByContentIdentity dp items existing) = length items - length kept
    \<and> filter free kept = filter free items
    \<and> sorted_wrt (\<lambda>x y. \<not> same x y) (filter (\<lambda>x. \<not> free x) kept)
    \<and> list_all (\<lambda>x. list_all (\<lambda>r. \<not> same r x) existing) (filter (\<lambda>x. \<not> free x) kept)
    \<and> list_all (\<lambda>x. list_ex (\<lambda>r. same r x) (existing @ kept)) (filter (\<lambda>x. x \<notin> set kept) items)
    \<and> dedupeByContentIdentity dp kept existing = (kept, 0)"
proof -
  define kept where "kept = sift (content_exempt dp existing) (content_prior dp existing) (content_clash dp) [] items"
  note c = content_rule.sift_contract [of dp existing items, folded kept_def]
  have d: "dedupeByContentIdentity dp items existing = (kept, length items - length kept)"
    "dedupeByContentIdentity dp kept existing = (kept, 0)"
    by (simp only: dedupeByContentIdentity_eq kept_def) (use c in \<open>simp only: dedupeByContentIdentity_eq diff_self_eq_0\<close>)
  have "list_all (\<lambda>x. list_all (\<lambda>r. \<not> content_clash dp r x) existing) (filter (\<lambda>x. \<not> content_exempt dp existing x) kept)"
    using c by (auto simp: list_all_iff content_prior_def list_ex_iff)
  moreover have "list_all (\<lambda>x. list_ex (\<lambda>r. content_clash dp r x) (existing @ kept)) (filter (\<lambda>x. x \<notin> set kept) items)"
    using c by (fastforce simp: list_all_iff content_prior_def list_ex_iff)
  ultimately show ?thesis using c d by (simp add: Let_def content_clash_def)
qed

end
