(* ===== verification/Coverage.thy ===== *)
theory Coverage
  imports Prelude
begin

section \<open>The coverage table and the contract of a clusterer\<close>

text \<open>
  A clusterer turns a batch of releases into clusters of one canonical release and the releases it
  covers.  The table \<open>release_coverage\<close> (\<open>packages/core-internal/src/schema-coverage.ts\<close>) is a map from
  the covered to the canonical release, its primary key being the covered one; the ingest steps insert
  in batches and leave an existing row alone.  The contract of a clusterer is the locale
  \<open>batch_clusterer\<close>: the members come from the batch, no release is in two places, no cluster is empty;
  its client lemma says when persisting keeps the table flat.
\<close>

text \<open>The first of two nullable values, \<open>a ?? b\<close>.\<close>

definition or_else :: "'a option \<Rightarrow> 'a option \<Rightarrow> 'a option" where
  "or_else a b = (case a of Some x \<Rightarrow> Some x | None \<Rightarrow> b)"

text \<open>\<open>new Map(entries)\<close>: a later entry with the same key replaces the value.\<close>

definition omap_of :: "('k \<times> 'v) list \<Rightarrow> ('k \<times> 'v) list" where
  "omap_of es = fold (\<lambda>(k, v). AList.update k v) es []"

lemma omap_of_update: "omap_of (es @ [(k, v)]) = AList.update k v (omap_of es)"
  by (simp add: omap_of_def)

lemma omap_of_props:
  "distinct (map fst (omap_of (map (\<lambda>r. (key r, r)) xs)))
   \<and> (\<forall>(k, v) \<in> set (omap_of (map (\<lambda>r. (key r, r)) xs)). k = key v \<and> v \<in> set xs)"
proof (induction xs rule: rev_induct)
  case (snoc x xs)
  have sub: "set (AList.update (key x) x m) \<subseteq> insert (key x, x) (set m)" for m
    by (induction m) (auto split: if_splits)
  let ?m = "omap_of (map (\<lambda>r. (key r, r)) xs)"
  have e: "omap_of (map (\<lambda>r. (key r, r)) (xs @ [x])) = AList.update (key x) x ?m" by (simp add: omap_of_update)
  show ?case unfolding e using snoc sub [of ?m] by (auto simp: distinct_update)
qed (simp add: omap_of_def)

subsection \<open>Persisting: the table \<open>release_coverage\<close>\<close>

record coverage_row =
  cv_canonicalId :: string
  cv_reason :: string
  cv_decidedBy :: string
  cv_decidedAt :: string

type_synonym coverage_table = "(string \<times> coverage_row) list"

definition RELEASE_COVERAGE_INSERT_CHUNK_SIZE :: nat where "RELEASE_COVERAGE_INSERT_CHUNK_SIZE = 20"
text \<open>\<open>insert \<dots> values \<dots> onConflictDoNothing\<close> on the primary key \<open>coverage_id\<close>.\<close>

definition insert_missing :: "string \<times> coverage_row \<Rightarrow> coverage_table \<Rightarrow> coverage_table" where
  "insert_missing r t = (if map_of t (fst r) = None then t @ [r] else t)"

definition insert_coverage :: "(string \<times> coverage_row) list \<Rightarrow> coverage_table \<Rightarrow> coverage_table" where
  "insert_coverage rows t = fold (\<lambda>chunk t. fold insert_missing chunk t) (slices RELEASE_COVERAGE_INSERT_CHUNK_SIZE rows) t"

subsection \<open>The contract of a clusterer\<close>

lemma insert_coverage_fold: "insert_coverage rows t = fold insert_missing rows t"
  by (simp add: insert_coverage_def fold_slices RELEASE_COVERAGE_INSERT_CHUNK_SIZE_def)

lemma map_of_insert_missing:
  "map_of (fold insert_missing rows t) k = (case map_of t k of Some r \<Rightarrow> Some r | None \<Rightarrow> map_of rows k)"
proof (induction rows arbitrary: t)
  case (Cons r rows)
  then show ?case by (cases r) (auto simp: insert_missing_def map_add_def split: option.splits)
qed (simp split: option.split)

lemma map_of_insert_coverage:
  "map_of (insert_coverage rows t) k = (case map_of t k of Some r \<Rightarrow> Some r | None \<Rightarrow> map_of rows k)"
  by (simp add: insert_coverage_fold map_of_insert_missing)

text \<open>No covered release is canonical for another.\<close>

definition flat :: "coverage_table \<Rightarrow> bool" where
  "flat t \<longleftrightarrow> (\<forall>k r. map_of t k = Some r \<longrightarrow> map_of t (cv_canonicalId r) = None)"

definition placed :: "('c \<Rightarrow> string) \<Rightarrow> ('c \<Rightarrow> string list) \<Rightarrow> 'c list \<Rightarrow> string list" where
  "placed canon cover cs = concat (map (\<lambda>c. canon c # cover c) cs)"

locale batch_clusterer =
  fixes ident :: "'a \<Rightarrow> string" and ok :: "'a list \<Rightarrow> bool" and clusters_of :: "'a list \<Rightarrow> 'c list"
    and canon :: "'c \<Rightarrow> string" and cover :: "'c \<Rightarrow> string list" and row_of :: "'c \<Rightarrow> coverage_row"
  assumes placed_once: "ok xs \<Longrightarrow> distinct (placed canon cover (clusters_of xs))"
    and placed_in: "ok xs \<Longrightarrow> set (placed canon cover (clusters_of xs)) \<subseteq> ident ` set xs"
    and covers_some: "ok xs \<Longrightarrow> c \<in> set (clusters_of xs) \<Longrightarrow> cover c \<noteq> []"
    and row_canon: "cv_canonicalId (row_of c) = canon c"
begin

definition coverage_rows :: "'c list \<Rightarrow> (string \<times> coverage_row) list" where
  "coverage_rows cs = concat (map (\<lambda>c. map (\<lambda>i. (i, row_of c)) (cover c)) cs)"

lemma in_coverage_rows: "(k, r) \<in> set (coverage_rows cs) \<longleftrightarrow> (\<exists>c \<in> set cs. k \<in> set (cover c) \<and> r = row_of c)"
  by (auto simp: coverage_rows_def)

lemma placed_sub: "set cs \<subseteq> set ds \<Longrightarrow> set (placed canon cover cs) \<subseteq> set (placed canon cover ds)"
  by (auto simp: placed_def)

lemma canon_not_covered:
  "distinct (placed canon cover cs) \<Longrightarrow> c \<in> set cs \<Longrightarrow> d \<in> set cs \<Longrightarrow> canon c \<notin> set (cover d)"
proof (induction cs)
  case (Cons e cs)
  have e: "set (canon e # cover e) \<inter> set (placed canon cover cs) = {}" "canon e \<notin> set (cover e)"
    and d: "distinct (placed canon cover cs)" using Cons.prems(1) by (auto simp: placed_def)
  have in_p: "x \<in> set (canon f # cover f) \<Longrightarrow> f \<in> set cs \<Longrightarrow> x \<in> set (placed canon cover cs)" for x f
    by (auto simp: placed_def)
  show ?case using Cons.prems(2,3) e Cons.IH [OF d] in_p by (metis disjoint_iff list.set_intros set_ConsD)
qed (simp add: placed_def)

lemma map_of_rows_None: "i \<notin> set (placed canon cover cs) \<Longrightarrow> map_of (coverage_rows cs) i = None"
  by (auto simp: map_of_eq_None_iff in_coverage_rows placed_def)

lemma canon_no_row:
  "distinct (placed canon cover cs) \<Longrightarrow> c \<in> set cs \<Longrightarrow> map_of (coverage_rows cs) (canon c) = None"
  using canon_not_covered by (fastforce simp: map_of_eq_None_iff in_coverage_rows)

text \<open>One persisted batch: a cluster's canonical release stays visible and its covered releases point
  at it, provided no row about the batch was stored before; and the table stays flat when moreover no
  stored row points into the batch.\<close>

lemma persist_flat:
  assumes t: "flat t" and keys: "\<And>x. x \<in> set xs \<Longrightarrow> map_of t (ident x) = None"
    and targets: "\<And>k r x. map_of t k = Some r \<Longrightarrow> x \<in> set xs \<Longrightarrow> cv_canonicalId r \<noteq> ident x"
    and ok: "ok xs" and fresh: "fresh = filter P (clusters_of xs)"
  shows "flat (insert_coverage (coverage_rows fresh) t)"
proof -
  have sub: "set (placed canon cover fresh) \<subseteq> ident ` set xs"
    using placed_sub [of fresh "clusters_of xs"] placed_in [OF ok] fresh by auto
  have dist: "distinct (placed canon cover fresh)"
  proof -
    have "distinct (placed canon cover (filter P cs))" if "distinct (placed canon cover cs)" for cs
      using that placed_sub [of "filter P _"] by (induction cs) (fastforce simp: placed_def)+
    then show ?thesis using placed_once [OF ok] fresh by simp
  qed
  show ?thesis unfolding flat_def
  proof (intro allI impI)
    fix k r assume r: "map_of (insert_coverage (coverage_rows fresh) t) k = Some r"
    show "map_of (insert_coverage (coverage_rows fresh) t) (cv_canonicalId r) = None"
    proof (cases "map_of t k")
      case (Some s)
      then have s: "map_of t k = Some r" using r by (simp add: map_of_insert_coverage)
      then have "map_of t (cv_canonicalId r) = None" using t by (simp add: flat_def)
      moreover have "cv_canonicalId r \<notin> set (placed canon cover fresh)" using targets [OF s] sub by blast
      ultimately show ?thesis by (simp add: map_of_insert_coverage map_of_rows_None)
    next
      case None
      then have "(k, r) \<in> set (coverage_rows fresh)" using r by (simp add: map_of_insert_coverage map_of_SomeD)
      then obtain c where c: "c \<in> set fresh" "r = row_of c" by (auto simp: in_coverage_rows)
      then have "canon c \<in> set (placed canon cover fresh)" by (auto simp: placed_def)
      then have "map_of t (canon c) = None" using sub keys by auto
      then show ?thesis using c dist by (simp add: row_canon map_of_insert_coverage canon_no_row)
    qed
  qed
qed

end

end
