(* ===== verification/VersionLines.thy ===== *)
theory VersionLines
  imports Coverage Dedup Versions
begin

section \<open>Version lines: release candidates, backports, sibling packages\<close>

text \<open>
  \<open>packages/core-internal/src/version-line-cluster.ts\<close> and its ingest step
  \<open>apps/api/src/lib/ingest/cluster-version-lines.ts\<close>.  The three loops over groups are folds of one
  step; \<open>version_line_plan\<close> is what they emit when no member of a group is taken, and the clusterer is
  proved equal to it.  \<open>date_parse\<close> is \<open>Date.parse\<close>; the rows the database finds near an insert are an
  argument.
\<close>

subsection \<open>\<open>version-line-cluster.ts\<close>\<close>

definition DAY_MS :: int where "DAY_MS = 24 * 60 * 60 * 1000"
definition RC_WINDOW_MS :: int where "RC_WINDOW_MS = 120 * DAY_MS"
definition BACKPORT_WINDOW_MS :: int where "BACKPORT_WINDOW_MS = 21 * DAY_MS"

record vl_input =
  vl_id :: string
  vl_sourceId :: string
  vl_version :: "string option"
  vl_title :: string
  vl_content :: string
  vl_publishedAt :: "string option"
  vl_bodyHash :: "string option"

record line_cluster =
  lc_canonicalId :: string
  lc_coverageIds :: "string list"
  lc_reason :: string

record annotated = vl_input +
  an_identity :: "version_identity option"
  an_base :: "string option"
  an_prerelease :: bool
  an_sort :: "string option"
  an_time :: "int option"
  an_day :: "string option"

definition BASE_RE :: re where
  "BASE_RE = seqs [Bos, Grp 1 (seqs [plus digit, chr CHR ''.'', plus digit, chr CHR ''.'', plus digit])]"

definition annotate :: "(string \<Rightarrow> int option) \<Rightarrow> vl_input \<Rightarrow> annotated" where
  "annotate date_parse row =
     (let identity = versionIdentity (vl_version row) (Some (vl_title row));
          token = map_option vi_token identity;
          base = (if text_of token = [] then None else map_option (\<lambda>(_, g). group 1 g) (exec BASE_RE (text_of token)));
          versionForSort = or_else token (vl_version row)
      in vl_input.extend row
           \<lparr>an_identity = identity, an_base = base,
            an_prerelease = isPrereleaseVersion (or_else token (vl_version row)),
            an_sort = computeVersionSort versionForSort,
            an_time = (if text_of (vl_publishedAt row) = [] then None else date_parse (text_of (vl_publishedAt row))),
            an_day = publishedDay date_parse (map_option TimeString (vl_publishedAt row))\<rparr>)"

definition byCanonicalRank :: "annotated \<Rightarrow> annotated \<Rightarrow> int" where
  "byCanonicalRank a b =
     (let sa = text_of (an_sort a); sb = text_of (an_sort b) in
      if sa \<noteq> [] \<and> sb \<noteq> [] \<and> sa \<noteq> sb then (if sa < sb then 1 else -1)
      else if sa \<noteq> [] \<and> sb = [] then -1
      else if sa = [] \<and> sb \<noteq> [] then 1
      else if length (vl_content b) \<noteq> length (vl_content a) then int (length (vl_content b)) - int (length (vl_content a))
      else if vl_id a < vl_id b then -1 else if vl_id b < vl_id a then 1 else 0)"

definition times_of :: "annotated list \<Rightarrow> int list" where
  "times_of rows = List.map_filter an_time rows"

definition spanWithin :: "annotated list \<Rightarrow> int \<Rightarrow> bool" where
  "spanWithin rows windowMs =
     (let times = times_of rows in
      if length times \<le> 1 then True else Max (set times) - Min (set times) \<le> windowMs)"

definition emit ::
  "annotated list \<Rightarrow> string \<Rightarrow> string list \<Rightarrow> (annotated list \<Rightarrow> annotated list) \<Rightarrow> line_cluster option \<times> string list" where
  "emit members reason assigned rank =
     (let free = filter (\<lambda>m. vl_id m \<notin> set assigned) members in
      if length free < 2 then (None, assigned)
      else (case rank free of
          [] \<Rightarrow> (None, assigned)
        | canonical # rest \<Rightarrow>
            (let coverageIds = map vl_id rest in
             if coverageIds = [] then (None, assigned)
             else (Some \<lparr>lc_canonicalId = vl_id canonical, lc_coverageIds = coverageIds, lc_reason = reason\<rparr>,
                   fold oset_add coverageIds (oset_add (vl_id canonical) assigned)))))"

text \<open>The body shared by the three loops over groups: \<open>pick\<close> is the guards of a loop, which give the
  members and the reason or \<open>continue\<close>.\<close>

definition cluster_step ::
  "(string \<Rightarrow> annotated list \<Rightarrow> (annotated list \<times> string) option) \<Rightarrow> (annotated list \<Rightarrow> annotated list) \<Rightarrow>
   string \<times> annotated list \<Rightarrow> string list \<times> line_cluster list \<Rightarrow> string list \<times> line_cluster list" where
  "cluster_step pick rank = (\<lambda>(key, members) (assigned, clusters).
     case pick key members of
       None \<Rightarrow> (assigned, clusters)
     | Some (sel, reason) \<Rightarrow>
         (case emit sel reason assigned rank of (cluster, assigned') \<Rightarrow>
            (assigned', clusters @ (case cluster of None \<Rightarrow> [] | Some c \<Rightarrow> [c]))))"

definition base_of :: "annotated \<Rightarrow> string" where "base_of r = text_of (an_base r)"
definition hash_of :: "annotated \<Rightarrow> string" where "hash_of r = text_of (vl_bodyHash r)"
definition day_of :: "annotated \<Rightarrow> string" where "day_of r = text_of (an_day r)"

definition rc_key :: "annotated \<Rightarrow> string" where
  "rc_key r = vl_sourceId r @ ''|'' @ base_of r"
definition backport_key :: "annotated \<Rightarrow> string" where
  "backport_key r = vl_sourceId r @ ''|'' @ hash_of r"
definition sibling_key :: "annotated \<Rightarrow> string" where
  "sibling_key r = day_of r @ ''|'' @ base_of r @ ''|'' @ hash_of r"

definition canonical_order :: "annotated list \<Rightarrow> annotated list" where
  "canonical_order = sort_by byCanonicalRank"

definition rc_pick :: "string \<Rightarrow> annotated list \<Rightarrow> (annotated list \<times> string) option" where
  "rc_pick key members =
     (if \<not> list_ex an_prerelease members then None
      else if \<not> spanWithin members RC_WINDOW_MS then None
      else Some (members, ''version-line:rc:'' @ split_on CHR ''|'' key ! 1))"

definition bases_of :: "annotated list \<Rightarrow> string list" where
  "bases_of rows = oset_of (map base_of rows)"

definition backport_pick :: "string \<Rightarrow> annotated list \<Rightarrow> (annotated list \<times> string) option" where
  "backport_pick key members =
     (if length (bases_of members) < 2 then None
      else let dated = filter (\<lambda>m. an_time m \<noteq> None) members in
        if length dated < 2 then None
        else let newest = Max (set (times_of dated));
                 windowed = filter (\<lambda>m. case an_time m of None \<Rightarrow> False | Some t \<Rightarrow> newest - t \<le> BACKPORT_WINDOW_MS) members
             in if length (bases_of windowed) < 2 then None
                else Some (windowed, ''version-line:backport:'' @ join ''+'' (sort (bases_of windowed))))"

definition sibling_rank :: "annotated \<Rightarrow> annotated \<Rightarrow> int" where
  "sibling_rank a b =
     (if length (vl_content b) \<noteq> length (vl_content a) then int (length (vl_content b)) - int (length (vl_content a))
      else if an_prerelease a \<noteq> an_prerelease b then (if an_prerelease a then 1 else -1)
      else if vl_id a < vl_id b then -1 else 1)"

definition package_of :: "annotated \<Rightarrow> string" where
  "package_of m = (case an_identity m of None \<Rightarrow> [] | Some v \<Rightarrow> text_of (vi_packageName v))"

definition sibling_pick :: "string \<Rightarrow> annotated list \<Rightarrow> (annotated list \<times> string) option" where
  "sibling_pick key members =
     (let sources = oset_of (map vl_sourceId members);
          packages = oset_of (filter (\<lambda>p. p \<noteq> []) (map package_of members))
      in if length sources < 2 \<and> length packages < 2 then None
         else Some (members, ''version-line:sibling:'' @ base_of (hd members)))"

definition rc_groups :: "annotated list \<Rightarrow> (string \<times> annotated list) list" where
  "rc_groups rows = group_by rc_key (filter (\<lambda>r. base_of r \<noteq> []) rows)"
definition backport_groups :: "string list \<Rightarrow> annotated list \<Rightarrow> (string \<times> annotated list) list" where
  "backport_groups assigned rows =
     group_by backport_key (filter (\<lambda>r. hash_of r \<noteq> [] \<and> base_of r \<noteq> [] \<and> vl_id r \<notin> set assigned) rows)"
definition sibling_groups :: "string list \<Rightarrow> annotated list \<Rightarrow> (string \<times> annotated list) list" where
  "sibling_groups assigned rows =
     group_by sibling_key
       (filter (\<lambda>r. hash_of r \<noteq> [] \<and> base_of r \<noteq> [] \<and> day_of r \<noteq> [] \<and> vl_id r \<notin> set assigned) rows)"

definition clusterVersionLines :: "(string \<Rightarrow> int option) \<Rightarrow> vl_input list \<Rightarrow> line_cluster list" where
  "clusterVersionLines date_parse rows =
     (if length rows < 2 then []
      else let annot = map (annotate date_parse) rows;
               st1 = fold (cluster_step rc_pick canonical_order) (rc_groups annot) ([], []);
               st2 = fold (cluster_step backport_pick canonical_order) (backport_groups (fst st1) annot) st1;
               st3 = fold (cluster_step sibling_pick (sort_by sibling_rank)) (sibling_groups (fst st2) annot) st2
           in snd st3)"

subsection \<open>\<open>cluster-version-lines.ts\<close>\<close>

definition DECIDED_BY_VERSION_LINE :: string where "DECIDED_BY_VERSION_LINE = ''system:version-line''"

text \<open>The rows the query finds near the insert (\<open>sameSource\<close> and \<open>siblings\<close>) are an argument.  A row
  written just now wins over a stored one; rows already covered are left out; only clusters that touch
  an inserted row are persisted.\<close>

definition line_candidates :: "vl_input list \<Rightarrow> vl_input list \<Rightarrow> coverage_table \<Rightarrow> (string \<times> vl_input) list" where
  "line_candidates nearby inserted t =
     (let byId = omap_of (map (\<lambda>r. (vl_id r, r)) (nearby @ inserted));
          alreadyCovered = filter (\<lambda>i. map_of t i \<noteq> None) (map fst byId)
      in filter (\<lambda>(i, _). i \<notin> set alreadyCovered) byId)"

definition fresh_clusters :: "vl_input list \<Rightarrow> line_cluster list \<Rightarrow> line_cluster list" where
  "fresh_clusters inserted clusters =
     (let insertedIds = oset_of (map vl_id inserted) in
      filter (\<lambda>c. lc_canonicalId c \<in> set insertedIds \<or> list_ex (\<lambda>i. i \<in> set insertedIds) (lc_coverageIds c)) clusters)"

definition line_rows :: "string \<Rightarrow> line_cluster list \<Rightarrow> (string \<times> coverage_row) list" where
  "line_rows now clusters =
     concat (map (\<lambda>c. map (\<lambda>coverageId.
       (coverageId, \<lparr>cv_canonicalId = lc_canonicalId c, cv_reason = lc_reason c,
                     cv_decidedBy = DECIDED_BY_VERSION_LINE, cv_decidedAt = now\<rparr>)) (lc_coverageIds c)) clusters)"

definition persistVersionLines ::
  "(string \<Rightarrow> int option) \<Rightarrow> string \<Rightarrow> vl_input list \<Rightarrow> vl_input list \<Rightarrow> coverage_table \<Rightarrow> (string list \<times> nat) \<times> coverage_table" where
  "persistVersionLines date_parse now nearby inserted t =
     (let clusters = clusterVersionLines date_parse (map snd (line_candidates nearby inserted t));
          fresh = fresh_clusters inserted clusters
      in if fresh = [] then (([], 0), t)
         else ((oset_of (concat (map lc_coverageIds fresh)), length fresh),
               insert_coverage (line_rows now fresh) t))"

subsection \<open>The version-line clusterer follows its plan\<close>

text \<open>What a loop over groups emits when no member of a group is taken: one cluster for each group the
  guards let through with two members or more.\<close>

definition line_cluster_of :: "annotated list \<Rightarrow> string \<Rightarrow> line_cluster" where
  "line_cluster_of ordered reason =
     \<lparr>lc_canonicalId = vl_id (hd ordered), lc_coverageIds = map vl_id (tl ordered), lc_reason = reason\<rparr>"

definition planned ::
  "(string \<Rightarrow> annotated list \<Rightarrow> (annotated list \<times> string) option) \<Rightarrow> (annotated list \<Rightarrow> annotated list) \<Rightarrow>
   string \<times> annotated list \<Rightarrow> line_cluster list" where
  "planned pick rank g = (case pick (fst g) (snd g) of None \<Rightarrow> []
     | Some (sel, reason) \<Rightarrow> if length sel < 2 then [] else [line_cluster_of (rank sel) reason])"

definition line_placed :: "line_cluster list \<Rightarrow> string list" where
  "line_placed = placed lc_canonicalId lc_coverageIds"

definition version_line_plan :: "(string \<Rightarrow> int option) \<Rightarrow> vl_input list \<Rightarrow> line_cluster list" where
  "version_line_plan date_parse rows =
     (let annot = map (annotate date_parse) rows;
          c1 = concat (map (planned rc_pick canonical_order) (rc_groups annot));
          c2 = concat (map (planned backport_pick canonical_order) (backport_groups (line_placed c1) annot));
          c3 = concat (map (planned sibling_pick (sort_by sibling_rank)) (sibling_groups (line_placed (c1 @ c2)) annot))
      in c1 @ c2 @ c3)"

definition group_ids :: "(string \<times> annotated list) list \<Rightarrow> string list" where
  "group_ids gs = map vl_id (concat (map snd gs))"

lemma line_placed_simps [simp]:
  "line_placed [] = []" "line_placed (c # cs) = lc_canonicalId c # lc_coverageIds c @ line_placed cs"
  "line_placed (cs @ ds) = line_placed cs @ line_placed ds"
  by (simp_all add: line_placed_def placed_def)

definition picks :: "(string \<Rightarrow> annotated list \<Rightarrow> (annotated list \<times> string) option) \<Rightarrow> bool" where
  "picks pick \<longleftrightarrow> (\<forall>k ms sel r. pick k ms = Some (sel, r) \<longrightarrow> (\<exists>P. sel = filter P ms))"

definition ranks :: "(annotated list \<Rightarrow> annotated list) \<Rightarrow> bool" where
  "ranks rank \<longleftrightarrow> (\<forall>xs. mset (rank xs) = mset xs)"

lemma picks_all [simp]: "picks rc_pick" "picks backport_pick" "picks sibling_pick"
proof -
  have t: "\<exists>P. ms = filter P ms" for ms :: "annotated list" by (rule exI [of _ "\<lambda>_. True"]) simp
  show "picks rc_pick" "picks sibling_pick"
    by (auto simp: picks_def rc_pick_def sibling_pick_def Let_def t split: if_splits)
  show "picks backport_pick" by (auto simp: picks_def backport_pick_def Let_def split: if_splits)
qed

lemma ranks_sort [simp]: "ranks (sort_by c)" "ranks canonical_order"
  by (simp_all add: ranks_def canonical_order_def)

lemma ranked_ids:
  assumes "ranks rank" "2 \<le> length sel"
  shows "set (line_placed [line_cluster_of (rank sel) reason]) = vl_id ` set sel"
    and "distinct (line_placed [line_cluster_of (rank sel) reason]) \<longleftrightarrow> distinct (map vl_id sel)"
    and "rank sel \<noteq> []" and "tl (rank sel) \<noteq> []"
proof -
  have m: "mset (rank sel) = mset sel" using assms(1) by (simp add: ranks_def)
  then have l: "length (rank sel) = length sel" by (metis size_mset)
  then obtain c rest where r: "rank sel = c # rest" using assms(2) by (cases "rank sel") auto
  show "rank sel \<noteq> []" "tl (rank sel) \<noteq> []" using r l assms(2) by (auto simp flip: length_greater_0_conv)
  have p: "line_placed [line_cluster_of (rank sel) reason] = map vl_id (rank sel)"
    by (simp add: line_cluster_of_def r)
  show "set (line_placed [line_cluster_of (rank sel) reason]) = vl_id ` set sel"
    using m by (simp only: p list.set_map) (metis set_mset_mset)
  show "distinct (line_placed [line_cluster_of (rank sel) reason]) \<longleftrightarrow> distinct (map vl_id sel)"
    using m by (simp only: p) (metis mset_eq_imp_distinct_iff mset_map)
qed

lemma emit_free:
  assumes "ranks rank" "2 \<le> length sel" "vl_id ` set sel \<inter> set assigned = {}"
  shows "\<exists>assigned'. emit sel reason assigned rank = (Some (line_cluster_of (rank sel) reason), assigned')
     \<and> set assigned' = set assigned \<union> vl_id ` set sel"
proof -
  have f: "filter (\<lambda>m. vl_id m \<notin> set assigned) sel = sel" using assms(3) by (auto simp: filter_id_conv)
  obtain c rest where r: "rank sel = c # rest" using ranked_ids(3) [OF assms(1,2)] by (cases "rank sel") auto
  have rest: "rest \<noteq> []" using ranked_ids(4) [OF assms(1,2)] r by simp
  have "set (line_placed [line_cluster_of (rank sel) reason]) = vl_id ` set sel" by (rule ranked_ids(1) [OF assms(1,2)])
  then have "vl_id ` set sel = insert (vl_id c) (vl_id ` set rest)" by (simp add: line_cluster_of_def r)
  then show ?thesis using assms(2) rest by (auto simp: emit_def f r line_cluster_of_def Let_def)
qed

lemma cluster_steps:
  assumes "picks pick" "ranks rank"
  shows "distinct (group_ids gs) \<Longrightarrow> set (group_ids gs) \<inter> set assigned = {} \<Longrightarrow>
    (\<exists>assigned'. fold (cluster_step pick rank) gs (assigned, cs) = (assigned', cs @ concat (map (planned pick rank) gs))
      \<and> set assigned' = set assigned \<union> set (line_placed (concat (map (planned pick rank) gs))))"
proof (induction gs arbitrary: assigned cs)
  case (Cons g gs)
  obtain k ms where g: "g = (k, ms)" by (cases g)
  have d: "distinct (group_ids gs)" using Cons.prems(1) by (auto simp: group_ids_def)
  have free: "set (group_ids gs) \<inter> set assigned = {}" "vl_id ` set ms \<inter> set assigned = {}"
    using Cons.prems(2) by (auto simp: group_ids_def g)
  show ?case
  proof (cases "pick k ms")
    case None
    then show ?thesis using Cons.IH [OF d free(1)] by (simp add: g cluster_step_def planned_def)
  next
    case (Some sr)
    obtain sel reason where sr: "sr = (sel, reason)" by (cases sr)
    have sel: "set sel \<subseteq> set ms" using assms(1) Some sr by (fastforce simp: picks_def)
    show ?thesis
    proof (cases "length sel < 2")
      case True
      then have "emit sel reason assigned rank = (None, assigned)"
        by (auto simp: emit_def Let_def intro: le_less_trans [OF length_filter_le])
      then show ?thesis using Cons.IH [OF d free(1)] Some True by (simp add: g sr cluster_step_def planned_def)
    next
      case False
      then have two: "2 \<le> length sel" by simp
      obtain a' where a: "emit sel reason assigned rank = (Some (line_cluster_of (rank sel) reason), a')"
        "set a' = set assigned \<union> vl_id ` set sel"
        using emit_free [OF assms(2) two] free(2) sel by blast
      have "vl_id ` set ms \<inter> set (group_ids gs) = {}" using Cons.prems(1) by (simp add: group_ids_def g)
      then have "set (group_ids gs) \<inter> set a' = {}" using a(2) sel free(1) by blast
      from Cons.IH [OF d this, of "cs @ [line_cluster_of (rank sel) reason]"]
      obtain a'' where a'': "fold (cluster_step pick rank) gs (a', cs @ [line_cluster_of (rank sel) reason]) =
          (a'', (cs @ [line_cluster_of (rank sel) reason]) @ concat (map (planned pick rank) gs))"
        "set a'' = set a' \<union> set (line_placed (concat (map (planned pick rank) gs)))" by blast
      have "cluster_step pick rank g (assigned, cs) = (a', cs @ [line_cluster_of (rank sel) reason])"
        using a(1) Some sr g by (simp add: cluster_step_def)
      moreover have "planned pick rank g = [line_cluster_of (rank sel) reason]"
        using Some sr g two by (simp add: planned_def)
      ultimately show ?thesis using a'' a(2) ranked_ids(1) [OF assms(2) two, of reason]
        by (intro exI [of _ a'']) auto
    qed
  qed
qed simp

lemma planned_ids:
  assumes "picks pick" "ranks rank"
  shows "set (line_placed (concat (map (planned pick rank) gs))) \<subseteq> set (group_ids gs)"
    and "distinct (group_ids gs) \<Longrightarrow> distinct (line_placed (concat (map (planned pick rank) gs)))"
proof -
  have one: "set (line_placed (planned pick rank g)) \<subseteq> vl_id ` set (snd g)
      \<and> (distinct (map vl_id (snd g)) \<longrightarrow> distinct (line_placed (planned pick rank g)))" for g
  proof (cases "pick (fst g) (snd g)")
    case None
    then show ?thesis by (simp add: planned_def)
  next
    case (Some sr)
    obtain sel reason where sr: "sr = (sel, reason)" by (cases sr)
    obtain P where sel: "sel = filter P (snd g)" using assms(1) Some sr by (fastforce simp: picks_def)
    show ?thesis
    proof (cases "length sel < 2")
      case False
      then have two: "2 \<le> length sel" by simp
      have "planned pick rank g = [line_cluster_of (rank sel) reason]" using Some sr False by (simp add: planned_def)
      moreover have "distinct (map vl_id (snd g)) \<longrightarrow> distinct (map vl_id sel)" by (simp add: sel distinct_map_filter)
      ultimately show ?thesis using ranked_ids(1,2) [OF assms(2) two, of reason] sel by auto
    qed (use Some sr in \<open>simp add: planned_def\<close>)
  qed
  show sub: "set (line_placed (concat (map (planned pick rank) gs))) \<subseteq> set (group_ids gs)" for gs
  proof (induction gs)
    case (Cons g gs)
    then show ?case using one [of g] by (auto simp: group_ids_def)
  qed simp
  show "distinct (group_ids gs) \<Longrightarrow> distinct (line_placed (concat (map (planned pick rank) gs)))"
  proof (induction gs)
    case (Cons g gs)
    then have "distinct (line_placed (planned pick rank g))" using one by (simp add: group_ids_def)
    moreover have "set (line_placed (planned pick rank g)) \<inter> set (line_placed (concat (map (planned pick rank) gs))) = {}"
      using one [of g] sub [of gs] Cons.prems by (fastforce simp: group_ids_def)
    ultimately show ?case using Cons by (simp add: group_ids_def)
  qed simp
qed

lemma group_ids_by: "mset (group_ids (group_by key rows)) = mset (map vl_id rows)"
  by (simp add: group_ids_def mset_group_by)

lemma group_ids_props:
  "set (group_ids (group_by key rows)) = vl_id ` set rows"
  "distinct (group_ids (group_by key rows)) \<longleftrightarrow> distinct (map vl_id rows)"
  using group_ids_by [of key rows] by (metis list.set_map set_mset_mset, metis mset_eq_imp_distinct_iff)

lemma annotate_simps [simp]:
  "vl_id (annotate dp r) = vl_id r" "vl_content (annotate dp r) = vl_content r" "vl_sourceId (annotate dp r) = vl_sourceId r"
  "vl_bodyHash (annotate dp r) = vl_bodyHash r"
  by (simp_all add: annotate_def Let_def vl_input.defs)

lemma line_groups_ids:
  "set (group_ids (rc_groups rows)) \<subseteq> vl_id ` set rows"
  "set (group_ids (backport_groups a rows)) \<subseteq> vl_id ` set rows - set a"
  "set (group_ids (sibling_groups a rows)) \<subseteq> vl_id ` set rows - set a"
  "distinct (map vl_id rows) \<Longrightarrow> distinct (group_ids (rc_groups rows))"
  "distinct (map vl_id rows) \<Longrightarrow> distinct (group_ids (backport_groups a rows))"
  "distinct (map vl_id rows) \<Longrightarrow> distinct (group_ids (sibling_groups a rows))"
  by (auto simp: rc_groups_def backport_groups_def sibling_groups_def group_ids_props distinct_map_filter)

lemma groups_cong:
  "set a = set b \<Longrightarrow> backport_groups a rows = backport_groups b rows"
  "set a = set b \<Longrightarrow> sibling_groups a rows = sibling_groups b rows"
  by (simp_all add: backport_groups_def sibling_groups_def)

lemma ids_annotated: "map vl_id (map (annotate dp) rows) = map vl_id rows"
  by simp

lemma plan_eq:
  assumes "distinct (map vl_id rows)"
  shows "clusterVersionLines dp rows = (if length rows < 2 then [] else version_line_plan dp rows)"
proof -
  let ?a = "map (annotate dp) rows"
  have d: "distinct (map vl_id ?a)" using assms by (simp only: ids_annotated)
  let ?c1 = "concat (map (planned rc_pick canonical_order) (rc_groups ?a))"
  let ?c2 = "concat (map (planned backport_pick canonical_order) (backport_groups (line_placed ?c1) ?a))"
  obtain a1 where 1: "fold (cluster_step rc_pick canonical_order) (rc_groups ?a) ([], []) = (a1, ?c1)"
    "set a1 = set (line_placed ?c1)"
    using cluster_steps [of rc_pick canonical_order "rc_groups ?a" "[]" "[]"] line_groups_ids(4) [OF d] by auto
  have g2: "backport_groups a1 ?a = backport_groups (line_placed ?c1) ?a" using 1(2) by (rule groups_cong)
  obtain a2 where 2: "fold (cluster_step backport_pick canonical_order) (backport_groups a1 ?a) (a1, ?c1) = (a2, ?c1 @ ?c2)"
    "set a2 = set (line_placed (?c1 @ ?c2))"
    using cluster_steps [of backport_pick canonical_order "backport_groups a1 ?a" a1 ?c1]
      line_groups_ids(5) [OF d, of a1] line_groups_ids(2) [of a1 ?a] 1(2) g2 by auto
  have g3: "sibling_groups a2 ?a = sibling_groups (line_placed (?c1 @ ?c2)) ?a" using 2(2) by (rule groups_cong)
  obtain a3 where 3: "fold (cluster_step sibling_pick (sort_by sibling_rank)) (sibling_groups a2 ?a) (a2, ?c1 @ ?c2) =
      (a3, (?c1 @ ?c2) @ concat (map (planned sibling_pick (sort_by sibling_rank)) (sibling_groups a2 ?a)))"
    using cluster_steps [of sibling_pick "sort_by sibling_rank" "sibling_groups a2 ?a" a2 "?c1 @ ?c2"]
      line_groups_ids(6) [OF d, of a2] line_groups_ids(3) [of a2 ?a] by auto
  show ?thesis
    unfolding clusterVersionLines_def version_line_plan_def Let_def 1(1) fst_conv 2(1) g3 3 [unfolded g3] snd_conv append_assoc
    by (rule refl)
qed

lemma plan_placed:
  assumes "distinct (map vl_id rows)"
  shows "distinct (line_placed (version_line_plan dp rows)) \<and> set (line_placed (version_line_plan dp rows)) \<subseteq> vl_id ` set rows"
proof -
  let ?a = "map (annotate dp) rows"
  have d: "distinct (map vl_id ?a)" using assms by (simp only: ids_annotated)
  have i: "vl_id ` set ?a = vl_id ` set rows" by (simp add: image_image)
  let ?c1 = "concat (map (planned rc_pick canonical_order) (rc_groups ?a))"
  let ?c2 = "concat (map (planned backport_pick canonical_order) (backport_groups (line_placed ?c1) ?a))"
  let ?c3 = "concat (map (planned sibling_pick (sort_by sibling_rank)) (sibling_groups (line_placed (?c1 @ ?c2)) ?a))"
  note r = picks_all ranks_sort
  have "set (line_placed ?c1) \<subseteq> vl_id ` set rows" "distinct (line_placed ?c1)"
    using planned_ids [OF r(1) r(5), of "rc_groups ?a"] line_groups_ids(1) [of ?a] line_groups_ids(4) [OF d] i by blast+
  moreover have "set (line_placed ?c2) \<subseteq> vl_id ` set rows - set (line_placed ?c1)" "distinct (line_placed ?c2)"
    using planned_ids [OF r(2) r(5), of "backport_groups (line_placed ?c1) ?a"]
      line_groups_ids(2) [of "line_placed ?c1" ?a] line_groups_ids(5) [OF d] i by blast+
  moreover have "set (line_placed ?c3) \<subseteq> vl_id ` set rows - set (line_placed (?c1 @ ?c2))" "distinct (line_placed ?c3)"
    using planned_ids [OF r(3) ranks_sort(1) [of sibling_rank], of "sibling_groups (line_placed (?c1 @ ?c2)) ?a"]
      line_groups_ids(3) [of "line_placed (?c1 @ ?c2)" ?a] line_groups_ids(6) [OF d] i by blast+
  ultimately show ?thesis unfolding version_line_plan_def Let_def line_placed_simps distinct_append set_append by blast
qed

lemma planned_covers: "ranks rank \<Longrightarrow> c \<in> set (planned pick rank g) \<Longrightarrow> lc_coverageIds c \<noteq> []"
  by (auto simp: planned_def line_cluster_of_def ranked_ids(4) split: option.splits if_splits prod.splits)

lemma plan_covers: "c \<in> set (version_line_plan dp rows) \<Longrightarrow> lc_coverageIds c \<noteq> []"
  unfolding version_line_plan_def Let_def by (auto dest!: planned_covers [rotated])

interpretation line_clusterer: batch_clusterer vl_id "\<lambda>rows. distinct (map vl_id rows)" "clusterVersionLines dp"
  lc_canonicalId lc_coverageIds
  "\<lambda>c. \<lparr>cv_canonicalId = lc_canonicalId c, cv_reason = lc_reason c, cv_decidedBy = DECIDED_BY_VERSION_LINE, cv_decidedAt = now\<rparr>"
  for dp :: "string \<Rightarrow> int option" and now :: string
proof
  show "distinct (placed lc_canonicalId lc_coverageIds (clusterVersionLines dp xs))" if "distinct (map vl_id xs)" for xs
    using plan_placed [OF that, of dp] by (auto simp: plan_eq [OF that] line_placed_def) (simp add: placed_def)
  show "set (placed lc_canonicalId lc_coverageIds (clusterVersionLines dp xs)) \<subseteq> vl_id ` set xs" if "distinct (map vl_id xs)" for xs
    using plan_placed [OF that, of dp] by (auto simp: plan_eq [OF that] line_placed_def placed_def)
  show "lc_coverageIds c \<noteq> []" if "distinct (map vl_id xs)" "c \<in> set (clusterVersionLines dp xs)" for xs c
    using that(2) plan_covers by (auto simp: plan_eq [OF that(1)] split: if_splits)
qed simp

subsection \<open>What a version-line cluster links\<close>

definition sort_of :: "annotated \<Rightarrow> string" where "sort_of r = text_of (an_sort r)"

lemma byCanonicalRank_le:
  "byCanonicalRank a b \<le> 0 \<longleftrightarrow>
     sort_of b < sort_of a \<or> (sort_of a = sort_of b \<and>
       (length (vl_content b) < length (vl_content a) \<or> (length (vl_content a) = length (vl_content b) \<and> vl_id a \<le> vl_id b)))"
proof -
  have n: "[] < s \<longleftrightarrow> s \<noteq> []" "\<not> s < []" for s :: string by (cases s; simp)+
  show ?thesis by (auto simp: byCanonicalRank_def Let_def sort_of_def n)
qed

lemma consistent_rank: "consistent_cmp byCanonicalRank"
  unfolding consistent_cmp_def byCanonicalRank_le by (auto intro: order_trans less_trans)

text \<open>The comparator of the sibling loop never returns 0; on releases with distinct ids it sorts by this
  order.\<close>

definition sibling_rank0 :: "annotated \<Rightarrow> annotated \<Rightarrow> int" where
  "sibling_rank0 a b =
     (if vl_id a = vl_id b \<and> length (vl_content a) = length (vl_content b) \<and> an_prerelease a = an_prerelease b
      then 0 else sibling_rank a b)"

lemma sibling_rank0_le:
  "sibling_rank0 a b \<le> 0 \<longleftrightarrow>
     length (vl_content b) < length (vl_content a) \<or> (length (vl_content a) = length (vl_content b) \<and>
       (\<not> an_prerelease a \<and> an_prerelease b \<or> (an_prerelease a = an_prerelease b \<and> vl_id a \<le> vl_id b)))"
  by (auto simp: sibling_rank0_def sibling_rank_def)

lemma consistent_sibling: "consistent_cmp sibling_rank0"
  unfolding consistent_cmp_def sibling_rank0_le by (auto intro: order_trans less_trans)

lemma sort_sibling:
  assumes "distinct (map vl_id xs)"
  shows "sort_by sibling_rank xs = sort_by sibling_rank0 xs"
proof (rule sort_by_cong)
  show "distinct xs" using assms by (simp add: distinct_map)
  show "sibling_rank x y \<le> 0 \<longleftrightarrow> sibling_rank0 x y \<le> 0" if "x \<in> set xs" "y \<in> set xs" "x \<noteq> y" for x y
    using that assms by (auto simp: sibling_rank0_def distinct_map inj_on_def)
qed

definition close_in_time :: "int \<Rightarrow> annotated \<Rightarrow> annotated \<Rightarrow> bool" where
  "close_in_time w a b = (case (an_time a, an_time b) of (Some s, Some t) \<Rightarrow> \<bar>s - t\<bar> \<le> w | _ \<Rightarrow> True)"

text \<open>The structural signal: one source and version core within the window of release candidates, one
  source and body within the window of backports, or one day, version core and body.  The canonical
  release has the greatest version key, among siblings the longest notes.\<close>

definition covers_release :: "annotated \<Rightarrow> annotated \<Rightarrow> bool" where
  "covers_release a b \<longleftrightarrow>
     (base_of a \<noteq> [] \<and> rc_key a = rc_key b \<and> close_in_time RC_WINDOW_MS a b \<and> sort_of b \<le> sort_of a)
   \<or> (hash_of a \<noteq> [] \<and> base_of a \<noteq> [] \<and> backport_key a = backport_key b \<and> an_time a \<noteq> None \<and> an_time b \<noteq> None
       \<and> close_in_time BACKPORT_WINDOW_MS a b \<and> sort_of b \<le> sort_of a)
   \<or> (hash_of a \<noteq> [] \<and> base_of a \<noteq> [] \<and> day_of a \<noteq> [] \<and> sibling_key a = sibling_key b
       \<and> length (vl_content b) \<le> length (vl_content a))"

lemma planned_member:
  assumes "c \<in> set (concat (map (planned pick rank) (group_by key rs)))" and "picks pick" "ranks rank"
  obtains k sel reason a rest where "pick k (filter (\<lambda>x. key x = k) rs) = Some (sel, reason)"
    "rank sel = a # rest" "c = line_cluster_of (a # rest) reason" "set (a # rest) = set sel"
    "\<exists>P. sel = filter P rs" "\<forall>x \<in> set sel. key x = k"
proof -
  from assms(1) obtain k ms where g: "(k, ms) \<in> set (group_by key rs)" "c \<in> set (planned pick rank (k, ms))" by auto
  have ms: "ms = filter (\<lambda>x. key x = k) rs" by (rule group_by_member(1) [OF g(1)])
  from g(2) obtain sel reason where sel: "pick k ms = Some (sel, reason)" "2 \<le> length sel"
    "c = line_cluster_of (rank sel) reason"
    by (cases "pick k ms") (auto simp: planned_def split: if_splits prod.splits)
  obtain P where P: "sel = filter P ms" using assms(2) sel(1) by (fastforce simp: picks_def)
  have ne: "rank sel \<noteq> []" by (rule ranked_ids(3) [OF assms(3) sel(2)])
  then obtain a rest where r: "rank sel = a # rest" by (cases "rank sel") auto
  have "set (rank sel) = set sel" using assms(3) by (metis ranks_def set_mset_mset)
  moreover have "\<exists>P. sel = filter P rs" using P ms by (auto simp: filter_filter)
  ultimately show ?thesis using that sel r P ms by auto
qed

lemma sorted_head:
  assumes "consistent_cmp cmp" "sort_by cmp xs = a # rest" "b \<in> set rest"
  shows "cmp a b \<le> 0"
  using sorted_sort_by [OF assms(1), of xs] assms(2,3) by simp

lemma span_close:
  assumes "spanWithin rows w" "a \<in> set rows" "b \<in> set rows" "0 \<le> w"
  shows "close_in_time w a b"
proof -
  have "\<bar>s - t\<bar> \<le> w" if "s \<in> set (times_of rows)" "t \<in> set (times_of rows)" for s t
  proof (cases "length (times_of rows) \<le> 1")
    case True
    then have "s = t" using that by (cases "times_of rows") auto
    with assms(4) show ?thesis by simp
  next
    case False
    then have "Max (set (times_of rows)) - Min (set (times_of rows)) \<le> w"
      using assms(1) by (simp add: spanWithin_def Let_def)
    moreover have "s \<le> Max (set (times_of rows))" "t \<le> Max (set (times_of rows))"
      "Min (set (times_of rows)) \<le> s" "Min (set (times_of rows)) \<le> t" using that by auto
    ultimately show ?thesis by linarith
  qed
  then show ?thesis using assms(2,3)
    by (fastforce simp: close_in_time_def times_of_def List.map_filter_def split: option.split)
qed

lemma backport_close:
  assumes "backport_pick k ms = Some (sel, reason)" "a \<in> set sel" "b \<in> set sel"
  shows "an_time a \<noteq> None \<and> an_time b \<noteq> None \<and> close_in_time BACKPORT_WINDOW_MS a b"
proof -
  let ?newest = "Max (set (times_of (filter (\<lambda>m. an_time m \<noteq> None) ms)))"
  have sel: "sel = filter (\<lambda>m. case an_time m of None \<Rightarrow> False | Some t \<Rightarrow> ?newest - t \<le> BACKPORT_WINDOW_MS) ms"
    using assms(1) by (simp add: backport_pick_def Let_def del: not_None_eq split: if_splits)
  have t: "\<exists>t. an_time m = Some t \<and> ?newest - t \<le> BACKPORT_WINDOW_MS \<and> t \<le> ?newest" if m: "m \<in> set sel" for m
  proof -
    obtain t where t: "an_time m = Some t" "?newest - t \<le> BACKPORT_WINDOW_MS" "m \<in> set ms"
      using m by (subst (asm) sel) (auto split: option.splits)
    then have "t \<in> set (times_of (filter (\<lambda>m. an_time m \<noteq> None) ms))"
      by (force simp: times_of_def List.map_filter_def)
    then have "t \<le> ?newest" by simp
    with t show ?thesis by blast
  qed
  from t [OF assms(2)] t [OF assms(3)] show ?thesis by (auto simp: close_in_time_def)
qed

lemma covered_by_rank:
  assumes "c = line_cluster_of (a # rest) reason" "set (a # rest) \<subseteq> annotate dp ` set rows"
    and "\<And>b. b \<in> set rest \<Longrightarrow> covers_release a b"
  shows "\<exists>x \<in> set rows. vl_id x = lc_canonicalId c \<and>
    (\<forall>i \<in> set (lc_coverageIds c). \<exists>y \<in> set rows. vl_id y = i \<and> covers_release (annotate dp x) (annotate dp y))"
proof -
  obtain x where x: "x \<in> set rows" "a = annotate dp x" using assms(2) by auto
  have "\<exists>y \<in> set rows. vl_id y = i \<and> covers_release (annotate dp x) (annotate dp y)"
    if i: "i \<in> set (lc_coverageIds c)" for i
  proof -
    obtain b where b: "b \<in> set rest" "i = vl_id b" using i assms(1) by (auto simp: line_cluster_of_def)
    then obtain y where "y \<in> set rows" "b = annotate dp y" using assms(2) by auto
    with b x assms(3) show ?thesis by auto
  qed
  with x assms(1) show ?thesis by (auto simp: line_cluster_of_def)
qed

lemma plan_links:
  assumes "distinct (map vl_id rows)" and c: "c \<in> set (version_line_plan dp rows)"
  shows "\<exists>x \<in> set rows. vl_id x = lc_canonicalId c \<and>
    (\<forall>i \<in> set (lc_coverageIds c). \<exists>y \<in> set rows. vl_id y = i \<and> covers_release (annotate dp x) (annotate dp y))"
proof -
  let ?a = "map (annotate dp) rows"
  consider (rc) "c \<in> set (concat (map (planned rc_pick canonical_order) (rc_groups ?a)))"
    | (bp) s where "c \<in> set (concat (map (planned backport_pick canonical_order) (backport_groups s ?a)))"
    | (sib) s where "c \<in> set (concat (map (planned sibling_pick (sort_by sibling_rank)) (sibling_groups s ?a)))"
    using c unfolding version_line_plan_def Let_def set_append by blast
  then show ?thesis
  proof cases
    case rc
    then obtain k sel reason a rest where p: "rc_pick k (filter (\<lambda>x. rc_key x = k) (filter (\<lambda>r. base_of r \<noteq> []) ?a)) = Some (sel, reason)"
      "canonical_order sel = a # rest" "c = line_cluster_of (a # rest) reason" "set (a # rest) = set sel"
      "\<exists>P. sel = filter P (filter (\<lambda>r. base_of r \<noteq> []) ?a)" "\<forall>x \<in> set sel. rc_key x = k"
      unfolding rc_groups_def by (rule planned_member) simp_all
    have span: "spanWithin sel RC_WINDOW_MS" using p(1) by (auto simp: rc_pick_def split: if_splits)
    have mem: "x \<in> annotate dp ` set rows \<and> base_of x \<noteq> []" if "x \<in> set sel" for x using p(5) that by auto
    show ?thesis
    proof (rule covered_by_rank [OF p(3)])
      show "set (a # rest) \<subseteq> annotate dp ` set rows" using p(4) mem by blast
      fix b assume b: "b \<in> set rest"
      then have ab: "a \<in> set sel" "b \<in> set sel" using p(4) by auto
      have "byCanonicalRank a b \<le> 0" using sorted_head [OF consistent_rank _ b] p(2) by (simp add: canonical_order_def)
      moreover have "close_in_time RC_WINDOW_MS a b"
        by (rule span_close [OF span ab]) (simp add: RC_WINDOW_MS_def DAY_MS_def)
      ultimately show "covers_release a b" using ab mem p(6) by (auto simp: covers_release_def byCanonicalRank_le)
    qed
  next
    case bp
    let ?r = "filter (\<lambda>r. hash_of r \<noteq> [] \<and> base_of r \<noteq> [] \<and> vl_id r \<notin> set s) ?a"
    from bp obtain k sel reason a rest where p: "backport_pick k (filter (\<lambda>x. backport_key x = k) ?r) = Some (sel, reason)"
      "canonical_order sel = a # rest" "c = line_cluster_of (a # rest) reason" "set (a # rest) = set sel"
      "\<exists>P. sel = filter P ?r" "\<forall>x \<in> set sel. backport_key x = k"
      unfolding backport_groups_def by (rule planned_member) simp_all
    have mem: "x \<in> annotate dp ` set rows \<and> base_of x \<noteq> [] \<and> hash_of x \<noteq> []" if "x \<in> set sel" for x using p(5) that by auto
    show ?thesis
    proof (rule covered_by_rank [OF p(3)])
      show "set (a # rest) \<subseteq> annotate dp ` set rows" using p(4) mem by blast
      fix b assume b: "b \<in> set rest"
      then have ab: "a \<in> set sel" "b \<in> set sel" using p(4) by auto
      have "byCanonicalRank a b \<le> 0" using sorted_head [OF consistent_rank _ b] p(2) by (simp add: canonical_order_def)
      then show "covers_release a b" using ab mem p(6) backport_close [OF p(1) ab]
        by (auto simp: covers_release_def byCanonicalRank_le)
    qed
  next
    case sib
    let ?r = "filter (\<lambda>r. hash_of r \<noteq> [] \<and> base_of r \<noteq> [] \<and> day_of r \<noteq> [] \<and> vl_id r \<notin> set s) ?a"
    from sib obtain k sel reason a rest where p: "sibling_pick k (filter (\<lambda>x. sibling_key x = k) ?r) = Some (sel, reason)"
      "sort_by sibling_rank sel = a # rest" "c = line_cluster_of (a # rest) reason" "set (a # rest) = set sel"
      "\<exists>P. sel = filter P ?r" "\<forall>x \<in> set sel. sibling_key x = k"
      unfolding sibling_groups_def by (rule planned_member) simp_all
    have mem: "x \<in> annotate dp ` set rows \<and> base_of x \<noteq> [] \<and> hash_of x \<noteq> [] \<and> day_of x \<noteq> []" if "x \<in> set sel" for x
      using p(5) that by auto
    have "distinct (map vl_id ?a)" using assms(1) by (simp only: ids_annotated)
    then have "distinct (map vl_id sel)" using p(5) by (auto simp: distinct_map_filter filter_filter simp del: map_map)
    then have sort: "sort_by sibling_rank0 sel = a # rest" using p(2) by (simp add: sort_sibling)
    show ?thesis
    proof (rule covered_by_rank [OF p(3)])
      show "set (a # rest) \<subseteq> annotate dp ` set rows" using p(4) mem by blast
      fix b assume b: "b \<in> set rest"
      then have ab: "a \<in> set sel" "b \<in> set sel" using p(4) by auto
      have "sibling_rank0 a b \<le> 0" by (rule sorted_head [OF consistent_sibling sort b])
      then show "covers_release a b" using ab mem p(6) by (auto simp: covers_release_def sibling_rank0_le)
    qed
  qed
qed

text \<open>Three releases of one line, and their annotations.\<close>

definition line_release :: "string \<Rightarrow> string \<Rightarrow> vl_input" where
  "line_release i v = \<lparr>vl_id = i, vl_sourceId = ''s'', vl_version = Some v, vl_title = [], vl_content = [],
     vl_publishedAt = None, vl_bodyHash = None\<rparr>"

lemma line_release_id [simp]: "vl_id (line_release i v) = i"
  by (simp add: line_release_def)

definition line_annotated :: "string \<Rightarrow> string \<Rightarrow> bool \<Rightarrow> string \<Rightarrow> annotated" where
  "line_annotated i v pre key = vl_input.extend (line_release i v)
     \<lparr>an_identity = Some \<lparr>vi_token = v, vi_packageName = None\<rparr>, an_base = Some ''1.0.0'',
      an_prerelease = pre, an_sort = Some key, an_time = None, an_day = None\<rparr>"

definition rc1 :: string where "rc1 = ''1.0.0-rc.1''"
definition rc2 :: string where "rc2 = ''1.0.0-rc.2''"
definition stable_ver :: string where "stable_ver = ''1.0.0''"
definition rc1_key :: string where "rc1_key = ''0_0000000001.0000000000.0000000000-rc.0000000001''"
definition rc2_key :: string where "rc2_key = ''0_0000000001.0000000000.0000000000-rc.0000000002''"
definition stable_ver_key :: string where "stable_ver_key = ''1_0000000001.0000000000.0000000000''"

lemma sample_identities:
  "versionIdentity (Some rc1) (Some []) = Some \<lparr>vi_token = rc1, vi_packageName = None\<rparr>"
  "versionIdentity (Some rc2) (Some []) = Some \<lparr>vi_token = rc2, vi_packageName = None\<rparr>"
  "versionIdentity (Some stable_ver) (Some []) = Some \<lparr>vi_token = stable_ver, vi_packageName = None\<rparr>"
  by code_simp+

lemma sample_prerelease: "isPrereleaseVersion (Some rc1)" "isPrereleaseVersion (Some rc2)" "\<not> isPrereleaseVersion (Some stable_ver)"
  by code_simp+

lemma sample_keys:
  "computeVersionSort (Some rc1) = Some rc1_key" "computeVersionSort (Some rc2) = Some rc2_key"
  "computeVersionSort (Some stable_ver) = Some stable_ver_key"
  by code_simp+

lemma sample_bases:
  "exec BASE_RE rc1 = Some (''1.0.0'', [(1, ''1.0.0'')])" "exec BASE_RE rc2 = Some (''1.0.0'', [(1, ''1.0.0'')])"
  "exec BASE_RE stable_ver = Some (''1.0.0'', [(1, ''1.0.0'')])"
  by code_simp+

lemma sample_ne: "rc1 \<noteq> []" "rc2 \<noteq> []" "stable_ver \<noteq> []"
  by (simp_all add: rc1_def rc2_def stable_ver_def)

lemma sample_annotate:
  "annotate (\<lambda>_. None) (line_release i rc1) = line_annotated i rc1 True rc1_key"
  "annotate (\<lambda>_. None) (line_release i rc2) = line_annotated i rc2 True rc2_key"
  "annotate (\<lambda>_. None) (line_release i stable_ver) = line_annotated i stable_ver False stable_ver_key"
  by (simp_all add: annotate_def line_annotated_def line_release_def Let_def or_else_def text_of_def publishedDay_def
      sample_identities sample_prerelease sample_keys sample_bases sample_ne group_def)

lemma sample_clusters:
  "clusterVersionLines (\<lambda>_. None) [line_release ''a'' rc1, line_release ''b'' rc2] =
     [\<lparr>lc_canonicalId = ''b'', lc_coverageIds = [''a''], lc_reason = ''version-line:rc:1.0.0''\<rparr>]"
  "clusterVersionLines (\<lambda>_. None) [line_release ''b'' rc2, line_release ''c'' stable_ver] =
     [\<lparr>lc_canonicalId = ''c'', lc_coverageIds = [''b''], lc_reason = ''version-line:rc:1.0.0''\<rparr>]"
  unfolding clusterVersionLines_def list.map sample_annotate by code_simp+

lemma line_candidates_props:
  "distinct (map vl_id (map snd (line_candidates nearby inserted t)))"
  "r \<in> set (map snd (line_candidates nearby inserted t)) \<Longrightarrow> map_of t (vl_id r) = None \<and> r \<in> set (nearby @ inserted)"
proof -
  let ?m = "omap_of (map (\<lambda>r. (vl_id r, r)) (nearby @ inserted))"
  let ?c = "line_candidates nearby inserted t"
  note m = omap_of_props [of vl_id "nearby @ inserted"]
  have c: "?c = filter (\<lambda>(i, _). map_of t i = None) ?m"
    by (auto simp: line_candidates_def Let_def intro!: filter_cong intro: rev_image_eqI)
  have ids: "map (\<lambda>x. vl_id (snd x)) ?c = map fst ?c" using m by (auto simp: c)
  show "distinct (map vl_id (map snd ?c))"
    unfolding map_map comp_def ids using m by (simp add: c distinct_map_filter)
  show "r \<in> set (map snd ?c) \<Longrightarrow> map_of t (vl_id r) = None \<and> r \<in> set (nearby @ inserted)" using m by (auto simp: c)
qed

text \<open>on releases with distinct ids the clusterer follows the plan: one cluster for every group the
  guards of a loop let through with two members or more, the later loops looking only at releases no
  earlier loop placed.  The check of \<open>assigned\<close> in \<open>emit\<close> never takes a member away.\<close>
theorem clusterVersionLines_plan:
  assumes "distinct (map vl_id rows)"
  shows "clusterVersionLines dp rows = (if length rows < 2 then [] else version_line_plan dp rows)"
  by (rule plan_eq [OF assms])

theorem clusterVersionLines_plan_witness:
  "version_line_plan (\<lambda>_. None) [line_release ''a'' rc1, line_release ''b'' rc2] =
     [\<lparr>lc_canonicalId = ''b'', lc_coverageIds = [''a''], lc_reason = ''version-line:rc:1.0.0''\<rparr>]"
  using clusterVersionLines_plan [of "[line_release ''a'' rc1, line_release ''b'' rc2]" "\<lambda>_. None"]
  by (simp add: sample_clusters)

text \<open>no release is in two clusters or twice in one, every member comes from the batch, and a covered
  release shares a structural signal with its canonical one, which has the greatest version key of its
  line, or among siblings the longest notes.\<close>
theorem version_lines_linked:
  assumes "distinct (map vl_id rows)"
  shows "distinct (concat (map (\<lambda>c. lc_canonicalId c # lc_coverageIds c) (clusterVersionLines dp rows)))
    \<and> list_all (\<lambda>c. lc_coverageIds c \<noteq> [] \<and>
         list_ex (\<lambda>x. vl_id x = lc_canonicalId c \<and>
           list_all (\<lambda>i. list_ex (\<lambda>y. vl_id y = i \<and> covers_release (annotate dp x) (annotate dp y)) rows)
             (lc_coverageIds c)) rows)
       (clusterVersionLines dp rows)"
proof (intro conjI)
  show "distinct (concat (map (\<lambda>c. lc_canonicalId c # lc_coverageIds c) (clusterVersionLines dp rows)))"
    using line_clusterer.placed_once [OF assms] by (simp add: placed_def)
  show "list_all (\<lambda>c. lc_coverageIds c \<noteq> [] \<and>
         list_ex (\<lambda>x. vl_id x = lc_canonicalId c \<and>
           list_all (\<lambda>i. list_ex (\<lambda>y. vl_id y = i \<and> covers_release (annotate dp x) (annotate dp y)) rows)
             (lc_coverageIds c)) rows)
       (clusterVersionLines dp rows)"
    using plan_links [OF assms, of _ dp] plan_covers [of _ dp rows]
    unfolding plan_eq [OF assms] list_all_iff list_ex_iff by (auto split: if_splits)
qed

theorem version_lines_linked_witness:
  "covers_release (line_annotated ''b'' rc2 True rc2_key) (line_annotated ''a'' rc1 True rc1_key)"
  using version_lines_linked [of "[line_release ''a'' rc1, line_release ''b'' rc2]" "\<lambda>_. None"]
  by (simp add: sample_clusters sample_annotate)

lemma line_rows_coverage: "line_rows now cs = line_clusterer.coverage_rows now cs"
  by (simp add: line_rows_def line_clusterer.coverage_rows_def)

text \<open>C34: an ingest run keeps the coverage table flat, provided no stored row points at a release it
  clusters: then no covered release is canonical for another.\<close>
theorem ingest_keeps_flat:
  assumes "flat t"
    and "\<forall>k r. map_of t k = Some r \<longrightarrow> cv_canonicalId r \<notin> set (map vl_id (nearby @ inserted))"
  shows "flat (snd (persistVersionLines dp now nearby inserted t))"
proof -
  let ?xs = "map snd (line_candidates nearby inserted t)"
  have f: "fresh_clusters inserted (clusterVersionLines dp ?xs) =
      filter (\<lambda>c. lc_canonicalId c \<in> set (oset_of (map vl_id inserted)) \<or> list_ex (\<lambda>i. i \<in> set (oset_of (map vl_id inserted))) (lc_coverageIds c))
        (clusterVersionLines dp ?xs)" by (simp add: fresh_clusters_def Let_def)
  have "flat (insert_coverage (line_rows now (fresh_clusters inserted (clusterVersionLines dp ?xs))) t)"
    unfolding line_rows_coverage
    by (rule line_clusterer.persist_flat [OF assms(1) _ _ line_candidates_props(1) f])
      (use line_candidates_props(2) assms(2) in fastforce)+
  with assms(1) show ?thesis by (simp add: persistVersionLines_def Let_def)
qed

theorem ingest_keeps_flat_witness:
  "flat (snd (persistVersionLines (\<lambda>_. None) ''2026-01-01'' [] [line_release ''a'' rc1, line_release ''b'' rc2] []))"
  by (rule ingest_keeps_flat) (simp_all add: flat_def)

text \<open>the proviso is needed.  Two release candidates arrive, then the stable release: the second run
  covers the canonical release of the first, and the table holds a chain of two links.\<close>
theorem two_ingests_chain:
  "let t1 = snd (persistVersionLines (\<lambda>_. None) now [] [line_release ''a'' rc1, line_release ''b'' rc2] []);
       t2 = snd (persistVersionLines (\<lambda>_. None) now [line_release ''a'' rc1, line_release ''b'' rc2]
                   [line_release ''c'' stable_ver] t1)
   in map (\<lambda>(k, r). (k, cv_canonicalId r)) t1 = [(''a'', ''b'')]
    \<and> map (\<lambda>(k, r). (k, cv_canonicalId r)) t2 = [(''a'', ''b''), (''b'', ''c'')]"
proof -
  define dp :: "string \<Rightarrow> int option" where "dp = (\<lambda>_. None)"
  let ?a = "line_release ''a'' rc1" and ?b = "line_release ''b'' rc2" and ?c = "line_release ''c'' stable_ver"
  let ?row = "\<lambda>k. \<lparr>cv_canonicalId = k, cv_reason = ''version-line:rc:1.0.0'', cv_decidedBy = DECIDED_BY_VERSION_LINE, cv_decidedAt = now\<rparr>"
  have "map snd (line_candidates [] [?a, ?b] []) = [?a, ?b]"
    and 2: "map snd (line_candidates [?a, ?b] [?c] [(''a'', ?row ''b'')]) = [?b, ?c]"
    by (simp_all add: line_candidates_def omap_of_def Let_def)
  then have "snd (persistVersionLines dp now [] [?a, ?b] []) = [(''a'', ?row ''b'')]"
    unfolding persistVersionLines_def Let_def dp_def
    by (simp add: sample_clusters fresh_clusters_def oset_of_def oset_add_def insert_coverage_fold line_rows_def insert_missing_def)
  moreover have "snd (persistVersionLines dp now [?a, ?b] [?c] [(''a'', ?row ''b'')]) = [(''a'', ?row ''b''), (''b'', ?row ''c'')]"
    unfolding persistVersionLines_def Let_def 2 dp_def
    by (simp add: sample_clusters fresh_clusters_def oset_of_def oset_add_def insert_coverage_fold line_rows_def insert_missing_def)
  ultimately show ?thesis by (simp add: Let_def flip: dp_def)
qed

end
