(* ===== verification/Cascades.thy ===== *)
theory Cascades
  imports Coverage Dedup
begin

section \<open>Changesets cascades\<close>

text \<open>
  \<open>packages/core-internal/src/changesets-cluster.ts\<close> and its ingest step
  \<open>apps/api/src/lib/ingest/cluster-cascades.ts\<close>.  The state of the two passes is the assignment of
  releases to hashes and the clusters; its invariant says that the two agree.  A reference is followed
  for \<open>MAX_HOPS\<close> steps, which is the bound of the source and not a fuel of the model.
\<close>

subsection \<open>\<open>changesets-cluster.ts\<close>\<close>

record cluster_input =
  ch_id :: string
  ch_version :: "string option"
  ch_content :: string

record changesets_cluster =
  cc_hash :: string
  cc_canonicalId :: string
  cc_coverageIds :: "string list"

definition bullet :: re where
  "bullet = Cls (\<lambda>c. is_space c \<or> c = CHR ''>'' \<or> c = CHR ''*'' \<or> c = CHR ''-'')"
definition hex_hash :: re where
  "hex_hash = between 6 12 (Cls (\<lambda>c. is_digit c \<or> CHR ''a'' \<le> lower_char c \<and> lower_char c \<le> CHR ''f''))"
definition not_newline :: re where "not_newline = Cls (\<lambda>c. c \<noteq> newline)"

definition UPDATED_DEPS_LINE :: re where
  "UPDATED_DEPS_LINE = seqs [LineStart, Star bullet, lit_i ''Updated dependencies'', plus space, chr CHR ''['',
     Grp 1 hex_hash, chr CHR '']'']"
definition SUBSTANTIVE_BULLET :: re where
  "SUBSTANTIVE_BULLET = seqs [LineStart, plus bullet, Grp 1 hex_hash, chr CHR '':'', plus space, Cls (\<lambda>c. \<not> is_space c)]"
definition SIBLING_REF :: re where
  "SIBLING_REF = seqs [LineStart, plus bullet,
     Grp 1 (seqs [opt (chr CHR ''@''), plus (Cls pkg_char), opt (seqs [chr CHR ''/'', plus (Cls pkg_char)]),
       chr CHR ''@'', digit, Star (Cls (\<lambda>c. pkg_char c \<or> c = CHR ''+''))]), Star space, LineEnd]"
definition SECTION_HEADER :: re where
  "SECTION_HEADER = seqs [LineStart, between 1 6 (chr CHR ''#''), plus space,
     alts [lit_i ''Patch'', lit_i ''Minor'', lit_i ''Major''], plus space, lit_i ''Changes'', Star space, LineEnd]"
definition UPDATED_DEPS_BLOCK :: re where
  "UPDATED_DEPS_BLOCK = seqs [LineStart, Star bullet, lit_i ''Updated dependencies'', plus space, chr CHR ''['',
     hex_hash, chr CHR '']'', Star not_newline,
     Star (seqs [chr newline, plus (Cls (\<lambda>c. c = CHR '' '' \<or> c = tab_char)),
       Cls (\<lambda>c. c = CHR ''-'' \<or> c = CHR ''*''), plus not_newline])]"

record cascade_release =
  pr_id :: string
  pr_version :: "string option"
  pr_content :: string
  pr_hashes :: "string list"
  pr_substantiveHashes :: "string list"
  pr_siblingRefs :: "string list"
  pr_isPureCascade :: bool
  pr_substantiveLength :: nat

definition captures :: "re \<Rightarrow> string \<Rightarrow> string list" where
  "captures r s = map (\<lambda>(_, g). group 1 g) (match_all r s)"

definition parseRelease :: "cluster_input \<Rightarrow> cascade_release" where
  "parseRelease r =
     (let content = ch_content r;
          deps = map js_lower (captures UPDATED_DEPS_LINE content);
          subst = map js_lower (captures SUBSTANTIVE_BULLET content);
          stripped = js_trim (replace_all (plus space) (\<lambda>_. [])
            (replace_all SIBLING_REF (\<lambda>_. [])
              (replace_all UPDATED_DEPS_BLOCK (\<lambda>_. [])
                (replace_all SECTION_HEADER (\<lambda>_. []) content))))
      in \<lparr>pr_id = ch_id r, pr_version = ch_version r, pr_content = content,
          pr_hashes = oset_of (deps @ subst), pr_substantiveHashes = oset_of subst,
          pr_siblingRefs = oset_of (captures SIBLING_REF content),
          pr_isPureCascade = (length stripped = 0), pr_substantiveLength = length stripped\<rparr>)"

definition versionToId :: "cascade_release list \<Rightarrow> (string \<times> string) list" where
  "versionToId parsed =
     omap_of (map (\<lambda>p. (text_of (pr_version p), pr_id p)) (filter (\<lambda>p. text_of (pr_version p) \<noteq> []) parsed))"

definition hash_groups :: "cascade_release list \<Rightarrow> (string \<times> string list) list" where
  "hash_groups parsed = fold (\<lambda>p m. fold (\<lambda>h. om_push h (pr_id p)) (pr_hashes p) m) parsed []"

definition by_id :: "cascade_release list \<Rightarrow> (string \<times> cascade_release) list" where
  "by_id parsed = omap_of (map (\<lambda>p. (pr_id p, p)) parsed)"

text \<open>\<open>localeCompare\<close> on hashes, which hold digits and the letters a to f only, agrees with the order
  of code units.\<close>

definition sorted_hashes :: "(string \<times> string list) list \<Rightarrow> (string \<times> string list) list" where
  "sorted_hashes groups =
     sort_by (\<lambda>a b. if length (snd b) \<noteq> length (snd a) then int (length (snd b)) - int (length (snd a))
                    else cmp3 (fst a) (fst b))
       (filter (\<lambda>(_, ids). 2 \<le> length ids) groups)"

record cascade_state =
  assignedHash :: "(string \<times> string) list"
  cs_clusters :: "(string \<times> string \<times> string list) list"

definition better :: "cascade_release \<Rightarrow> cascade_release \<Rightarrow> cascade_release" where
  "better a b =
     (if pr_substantiveLength b \<noteq> pr_substantiveLength a
      then (if pr_substantiveLength a < pr_substantiveLength b then b else a)
      else if length (pr_content a) < length (pr_content b) then b else a)"

definition cover_step ::
  "string \<Rightarrow> string \<Rightarrow> cascade_release \<Rightarrow> string list \<times> (string \<times> string) list \<Rightarrow> string list \<times> (string \<times> string) list" where
  "cover_step hash canonical m = (\<lambda>(cov, assigned).
     if pr_id m = canonical then (cov, assigned)
     else if map_of assigned (pr_id m) \<noteq> None then (cov, assigned)
     else if pr_substantiveHashes m \<noteq> [] \<and> hash \<notin> set (pr_substantiveHashes m) then (cov, assigned)
     else (oset_add (pr_id m) cov, AList.update (pr_id m) hash assigned))"

definition canonical_pool :: "string \<Rightarrow> (string \<times> string) list \<Rightarrow> cascade_release list \<Rightarrow> cascade_release list" where
  "canonical_pool hash assigned members =
     (let substantive = filter (\<lambda>m. hash \<in> set (pr_substantiveHashes m)) members;
          pool = (if substantive \<noteq> [] then substantive else members)
      in filter (\<lambda>m. map_of assigned (pr_id m) = None \<or> map_of assigned (pr_id m) = Some hash) pool)"

definition hash_step ::
  "(string \<times> cascade_release) list \<Rightarrow> string \<times> string list \<Rightarrow> cascade_state \<Rightarrow> cascade_state" where
  "hash_step byId = (\<lambda>(hash, memberIds) st.
     let members = List.map_filter (map_of byId) memberIds in
     (case canonical_pool hash (assignedHash st) members of
        [] \<Rightarrow> st
      | m # ms \<Rightarrow>
          (let canonical = pr_id (fold (\<lambda>b a. better a b) ms m) in
           (case fold (cover_step hash canonical) members ([], assignedHash st) of (cov, assigned) \<Rightarrow>
              if cov = [] then st\<lparr>assignedHash := assigned\<rparr>
              else \<lparr>assignedHash = AList.update canonical hash assigned,
                    cs_clusters = AList.update hash (canonical, cov) (cs_clusters st)\<rparr>))))"

definition MAX_HOPS :: nat where "MAX_HOPS = 2"

fun follow_from ::
  "nat \<Rightarrow> (string \<times> string) list \<Rightarrow> (string \<times> cascade_release) list \<Rightarrow> (string \<times> string) list \<Rightarrow> string option \<Rightarrow> string option" where
  "follow_from 0 v2i byId assigned current = None"
| "follow_from (Suc n) v2i byId assigned current =
     (if text_of current = [] then None
      else if text_of (map_of assigned (text_of current)) \<noteq> [] then map_of assigned (text_of current)
      else (case map_of byId (text_of current) of
          None \<Rightarrow> None
        | Some nxt \<Rightarrow>
            (case pr_siblingRefs nxt of
               [] \<Rightarrow> None
             | nextRef # _ \<Rightarrow> if nextRef = [] then None else follow_from n v2i byId assigned (map_of v2i nextRef))))"

definition followSibling ::
  "string \<Rightarrow> (string \<times> string) list \<Rightarrow> (string \<times> cascade_release) list \<Rightarrow> (string \<times> string) list \<Rightarrow> nat \<Rightarrow> string option" where
  "followSibling ref v2i byId assigned maxHops = follow_from maxHops v2i byId assigned (map_of v2i ref)"

fun first_hop :: "(string \<Rightarrow> string option) \<Rightarrow> string list \<Rightarrow> string option" where
  "first_hop f [] = None"
| "first_hop f (ref # refs) = (if text_of (f ref) \<noteq> [] then f ref else first_hop f refs)"

definition sibling_step ::
  "(string \<times> string) list \<Rightarrow> (string \<times> cascade_release) list \<Rightarrow> cascade_release \<Rightarrow> cascade_state \<Rightarrow> cascade_state" where
  "sibling_step v2i byId p st =
     (if map_of (assignedHash st) (pr_id p) \<noteq> None \<or> \<not> pr_isPureCascade p \<or> pr_siblingRefs p = [] then st
      else (case first_hop (\<lambda>ref. followSibling ref v2i byId (assignedHash st) MAX_HOPS) (pr_siblingRefs p) of
          None \<Rightarrow> st
        | Some targetHash \<Rightarrow>
            (case map_of (cs_clusters st) targetHash of
               None \<Rightarrow> st
             | Some (canonical, cov) \<Rightarrow>
                 \<lparr>assignedHash = AList.update (pr_id p) targetHash (assignedHash st),
                  cs_clusters = AList.update targetHash (canonical, oset_add (pr_id p) cov) (cs_clusters st)\<rparr>)))"

definition clusterChangesets :: "cluster_input list \<Rightarrow> changesets_cluster list" where
  "clusterChangesets batch =
     (if length batch < 2 then []
      else let parsed = map parseRelease batch; v2i = versionToId parsed; byId = by_id parsed;
               st1 = fold (hash_step byId) (sorted_hashes (hash_groups parsed)) \<lparr>assignedHash = [], cs_clusters = []\<rparr>;
               st2 = fold (sibling_step v2i byId) parsed st1
           in sort_by (\<lambda>a b. cmp3 (cc_hash a) (cc_hash b))
                (filter (\<lambda>c. cc_coverageIds c \<noteq> [])
                  (map (\<lambda>(hash, canonical, cov). \<lparr>cc_hash = hash, cc_canonicalId = canonical, cc_coverageIds = sort cov\<rparr>)
                    (cs_clusters st2))))"

subsection \<open>\<open>cluster-cascades.ts\<close>\<close>

definition DECIDED_BY_CHANGESETS :: string where "DECIDED_BY_CHANGESETS = ''system:changesets''"
definition CHANGESETS_FINGERPRINT :: string where "CHANGESETS_FINGERPRINT = ''Updated dependencies [''"

record persist_result =
  ps_coverageIds :: "string list"
  ps_clusters :: nat
  ps_hashes :: "string list"

definition changesets_rows :: "string \<Rightarrow> changesets_cluster list \<Rightarrow> (string \<times> coverage_row) list" where
  "changesets_rows now clusters =
     concat (map (\<lambda>c. map (\<lambda>coverageId.
       (coverageId, \<lparr>cv_canonicalId = cc_canonicalId c, cv_reason = ''changesets-cascade:'' @ cc_hash c,
                     cv_decidedBy = DECIDED_BY_CHANGESETS, cv_decidedAt = now\<rparr>)) (cc_coverageIds c)) clusters)"

definition clusterAndPersistCascades ::
  "string \<Rightarrow> cluster_input list \<Rightarrow> coverage_table \<Rightarrow> persist_result \<times> coverage_table" where
  "clusterAndPersistCascades now rows t =
     (let none = \<lparr>ps_coverageIds = [], ps_clusters = 0, ps_hashes = []\<rparr> in
      if length rows < 2 then (none, t)
      else if \<not> list_ex (\<lambda>r. js_includes (ch_content r) CHANGESETS_FINGERPRINT) rows then (none, t)
      else let clusters = clusterChangesets rows in
        if clusters = [] then (none, t)
        else (\<lparr>ps_coverageIds = oset_of (concat (map cc_coverageIds clusters)), ps_clusters = length clusters,
               ps_hashes = map cc_hash clusters\<rparr>,
              insert_coverage (changesets_rows now clusters) t))"

subsection \<open>The changesets clusterer\<close>

text \<open>The state of the two passes: every assignment names a cluster, and the members of a cluster are
  assigned to it.\<close>

definition cascade_inv :: "string set \<Rightarrow> cascade_state \<Rightarrow> bool" where
  "cascade_inv ids st \<longleftrightarrow>
     distinct (map fst (cs_clusters st))
   \<and> (\<forall>x h. map_of (assignedHash st) x = Some h \<longrightarrow> x \<in> ids \<and> map_of (cs_clusters st) h \<noteq> None)
   \<and> (\<forall>h c cov. map_of (cs_clusters st) h = Some (c, cov) \<longrightarrow>
        map_of (assignedHash st) c = Some h \<and> (\<forall>x \<in> set cov. map_of (assignedHash st) x = Some h)
      \<and> c \<notin> set cov \<and> distinct cov \<and> cov \<noteq> [])"

text \<open>Why a release is covered: it names the hash of its cluster and has no bullet of its own for other
  hashes only, or its body is nothing but references to siblings.\<close>

definition demotable :: "string \<Rightarrow> cascade_release \<Rightarrow> bool" where
  "demotable hash p \<longleftrightarrow> pr_substantiveHashes p = [] \<or> hash \<in> set (pr_substantiveHashes p)"

definition cover_inv ::
  "string \<Rightarrow> string \<Rightarrow> (string \<times> string) list \<Rightarrow> cascade_release list \<Rightarrow> string list \<times> (string \<times> string) list \<Rightarrow> bool" where
  "cover_inv hash canonical assigned0 members r \<longleftrightarrow>
     distinct (fst r) \<and> canonical \<notin> set (fst r)
   \<and> (\<forall>x. map_of (snd r) x = (if x \<in> set (fst r) then Some hash else map_of assigned0 x))
   \<and> (\<forall>x \<in> set (fst r). map_of assigned0 x = None \<and> (\<exists>m \<in> set members. pr_id m = x \<and> demotable hash m))"

lemma cover_fold:
  "set ms \<subseteq> set members \<Longrightarrow> cover_inv hash canonical a0 members r \<Longrightarrow>
     cover_inv hash canonical a0 members (fold (cover_step hash canonical) ms r)"
proof (induction ms arbitrary: r)
  case (Cons m ms)
  obtain cov a where r: "r = (cov, a)" by (cases r)
  have "cover_inv hash canonical a0 members (cover_step hash canonical m r)"
  proof (cases "pr_id m = canonical \<or> map_of a (pr_id m) \<noteq> None \<or> \<not> demotable hash m")
    case True
    then have "cover_step hash canonical m r = r" by (auto simp: cover_step_def r demotable_def)
    with Cons.prems show ?thesis by simp
  next
    case False
    then have s: "cover_step hash canonical m r = (oset_add (pr_id m) cov, AList.update (pr_id m) hash a)"
      by (auto simp: cover_step_def r demotable_def)
    have "map_of a0 (pr_id m) = None" using False Cons.prems(2) by (auto simp: cover_inv_def r split: if_splits)
    with False Cons.prems show ?thesis unfolding s by (auto simp: cover_inv_def r update_conv')
  qed
  with Cons show ?case by simp
qed simp

lemma better_mem: "fold (\<lambda>b a. better a b) ms m \<in> set (m # ms)"
proof (induction ms arbitrary: m)
  case (Cons x ms)
  have "better m x \<in> {m, x}" by (simp add: better_def)
  with Cons [of "better m x"] show ?case by auto
qed simp

lemma pool_props:
  "m \<in> set (canonical_pool hash assigned members) \<Longrightarrow>
     m \<in> set members \<and> (map_of assigned (pr_id m) = None \<or> map_of assigned (pr_id m) = Some hash)"
  by (auto simp: canonical_pool_def Let_def split: if_splits)

text \<open>A step of the first pass either adds the cluster of its hash or changes nothing.\<close>

lemma hash_step_cases:
  assumes "hash_step byId (hash, ids) st = st'"
  obtains "cs_clusters st' = cs_clusters st" "\<forall>x. map_of (assignedHash st') x = map_of (assignedHash st) x"
  | canonical cov assigned where "cov \<noteq> []"
    "cover_inv hash (pr_id canonical) (assignedHash st) (List.map_filter (map_of byId) ids) (cov, assigned)"
    "canonical \<in> set (List.map_filter (map_of byId) ids)"
    "map_of (assignedHash st) (pr_id canonical) = None \<or> map_of (assignedHash st) (pr_id canonical) = Some hash"
    "st' = \<lparr>assignedHash = AList.update (pr_id canonical) hash assigned,
            cs_clusters = AList.update hash (pr_id canonical, cov) (cs_clusters st)\<rparr>"
proof -
  let ?ms = "List.map_filter (map_of byId) ids"
  show ?thesis
  proof (cases "canonical_pool hash (assignedHash st) ?ms")
    case Nil
    then have "st' = st" using assms by (simp add: hash_step_def)
    with that(1) show ?thesis by simp
  next
    case (Cons m ms)
    define can where "can = fold (\<lambda>b a. better a b) ms m"
    have can: "can \<in> set (canonical_pool hash (assignedHash st) ?ms)" using better_mem [of ms m] Cons by (simp add: can_def)
    obtain cov assigned where f: "fold (cover_step hash (pr_id can)) ?ms ([], assignedHash st) = (cov, assigned)" by fastforce
    have "cover_inv hash (pr_id can) (assignedHash st) ?ms ([], assignedHash st)" by (simp add: cover_inv_def)
    from cover_fold [OF order_refl this] have c: "cover_inv hash (pr_id can) (assignedHash st) ?ms (cov, assigned)" by (simp add: f)
    have st': "st' = (if cov = [] then st\<lparr>assignedHash := assigned\<rparr>
        else \<lparr>assignedHash = AList.update (pr_id can) hash assigned, cs_clusters = AList.update hash (pr_id can, cov) (cs_clusters st)\<rparr>)"
      unfolding assms [symmetric] by (simp add: hash_step_def Cons Let_def can_def [symmetric] f)
    show ?thesis
    proof (cases "cov = []")
      case True
      with c st' that(1) show ?thesis by (simp add: cover_inv_def)
    next
      case False
      with c st' pool_props [OF can] that(2) show ?thesis by simp
    qed
  qed
qed

lemma cascade_invD:
  assumes "cascade_inv ids st"
  shows "map_of (assignedHash st) x = Some h \<Longrightarrow> x \<in> ids"
    and "map_of (assignedHash st) x = Some h \<Longrightarrow> \<exists>c cov. map_of (cs_clusters st) h = Some (c, cov)"
    and "map_of (cs_clusters st) h = Some (c, cov) \<Longrightarrow> map_of (assignedHash st) c = Some h"
    and "map_of (cs_clusters st) h = Some (c, cov) \<Longrightarrow> x \<in> set cov \<Longrightarrow> map_of (assignedHash st) x = Some h"
    and "map_of (cs_clusters st) h = Some (c, cov) \<Longrightarrow> c \<notin> set cov \<and> distinct cov \<and> cov \<noteq> []"
  using assms unfolding cascade_inv_def by (blast, metis not_None_eq surj_pair, blast, blast, blast)

text \<open>Assigning free releases to one cluster keeps the invariant.\<close>

lemma cascade_inv_assign:
  assumes inv: "cascade_inv ids st"
    and a: "\<And>x. map_of a x = (if x \<in> insert c (set cov) then Some h else map_of (assignedHash st) x)"
    and free: "\<And>x. x \<in> insert c (set cov) \<Longrightarrow> x \<in> ids \<and> (map_of (assignedHash st) x = None \<or> map_of (assignedHash st) x = Some h)"
    and cov: "c \<notin> set cov" "distinct cov" "cov \<noteq> []"
  shows "cascade_inv ids \<lparr>assignedHash = a, cs_clusters = AList.update h (c, cov) (cs_clusters st)\<rparr>"
  unfolding cascade_inv_def cascade_state.simps
proof (intro conjI allI impI)
  let ?C = "AList.update h (c, cov) (cs_clusters st)"
  have C: "map_of ?C h' = (if h' = h then Some (c, cov) else map_of (cs_clusters st) h')" for h' by (simp add: update_conv')
  show "distinct (map fst ?C)" using inv by (simp add: cascade_inv_def distinct_update)
  show "x \<in> ids" if x: "map_of a x = Some h'" for x h'
  proof (cases "x \<in> insert c (set cov)")
    case False
    then show ?thesis using x a [of x] cascade_invD(1) [OF inv, of x h'] by (simp only: if_False)
  qed (use free in blast)
  show "map_of ?C h' \<noteq> None" if x: "map_of a x = Some h'" for x h'
  proof (cases "x \<in> insert c (set cov)")
    case True
    then have "h' = h" using x a [of x] by simp
    then show ?thesis unfolding C by simp
  next
    case False
    then have "map_of (assignedHash st) x = Some h'" using x a [of x] by (simp only: if_False)
    then show ?thesis using cascade_invD(2) [OF inv] unfolding C by fastforce
  qed
  fix h' c' cov' assume m: "map_of ?C h' = Some (c', cov')"
  consider "h' = h" "c' = c" "cov' = cov" | "h' \<noteq> h" "map_of (cs_clusters st) h' = Some (c', cov')"
    using m unfolding C by (auto split: if_splits)
  then have "map_of a c' = Some h' \<and> (\<forall>x \<in> set cov'. map_of a x = Some h') \<and> c' \<notin> set cov' \<and> distinct cov' \<and> cov' \<noteq> []"
  proof cases
    case 1
    then show ?thesis using cov by (simp add: a)
  next
    case 2
    then have old: "map_of (assignedHash st) c' = Some h'" "\<forall>x \<in> set cov'. map_of (assignedHash st) x = Some h'"
      "c' \<notin> set cov'" "distinct cov'" "cov' \<noteq> []"
      using cascade_invD(3-5) [OF inv 2(2)] by blast+
    have "map_of a x = Some h'" if "map_of (assignedHash st) x = Some h'" for x
      using that free [of x] 2(1) by (auto simp: a)
    with old show ?thesis by blast
  qed
  then show "map_of a c' = Some h'" "\<forall>x \<in> set cov'. map_of a x = Some h'" "c' \<notin> set cov'" "distinct cov'" "cov' \<noteq> []"
    by blast+
qed

lemma hash_step_inv:
  assumes "cascade_inv ids0 st" and "map_of (cs_clusters st) hash = None"
    and "\<And>k p. map_of byId k = Some p \<Longrightarrow> pr_id p \<in> ids0"
  shows "cascade_inv ids0 (hash_step byId (hash, ids) st)
    \<and> (\<forall>h. h \<noteq> hash \<longrightarrow> map_of (cs_clusters (hash_step byId (hash, ids) st)) h = map_of (cs_clusters st) h)"
proof (cases rule: hash_step_cases [of byId hash ids st, OF refl])
  case 1
  then show ?thesis using assms(1) unfolding cascade_inv_def 1(1) spec [OF 1(2)] by blast
next
  case (2 canonical cov assigned)
  have mem: "pr_id m \<in> ids0" if "m \<in> set (List.map_filter (map_of byId) ids)" for m
    using that assms(3) by (auto simp: List.map_filter_def)
  have free: "map_of (assignedHash st) (pr_id canonical) = None" 
    using 2(4) cascade_invD(2) [OF assms(1), of _ hash] assms(2) by fastforce
  have c: "distinct cov" "pr_id canonical \<notin> set cov"
    "\<And>x. map_of assigned x = (if x \<in> set cov then Some hash else map_of (assignedHash st) x)"
    "\<And>x. x \<in> set cov \<Longrightarrow> map_of (assignedHash st) x = None \<and> x \<in> ids0"
    using 2(2) mem by (auto simp: cover_inv_def)
  have "cascade_inv ids0 (hash_step byId (hash, ids) st)"
    unfolding 2(5)
    by (rule cascade_inv_assign [OF assms(1)]) (use c 2(1) free mem [OF 2(3)] in \<open>auto simp: update_conv'\<close>)
  then show ?thesis unfolding 2(5) by (simp add: update_conv')
qed

lemma follow_from_assigned: "follow_from n v2i byId a cur = Some h \<Longrightarrow> \<exists>x. map_of a x = Some h"
  by (induction n arbitrary: cur) (auto split: if_splits option.splits list.splits)

lemma first_hop_some: "first_hop f refs = Some h \<Longrightarrow> \<exists>ref \<in> set refs. f ref = Some h"
  by (induction refs) (auto split: if_splits)

text \<open>A step of the second pass covers a pure cascade row or changes nothing; the lookup of the cluster
  never fails.\<close>

lemma sibling_step_cases:
  assumes "cascade_inv ids st"
  obtains "sibling_step v2i byId p st = st"
  | h c cov where "map_of (assignedHash st) (pr_id p) = None" "pr_isPureCascade p" "pr_siblingRefs p \<noteq> []"
    "map_of (cs_clusters st) h = Some (c, cov)"
    "sibling_step v2i byId p st = \<lparr>assignedHash = AList.update (pr_id p) h (assignedHash st),
       cs_clusters = AList.update h (c, oset_add (pr_id p) cov) (cs_clusters st)\<rparr>"
proof (cases "map_of (assignedHash st) (pr_id p) \<noteq> None \<or> \<not> pr_isPureCascade p \<or> pr_siblingRefs p = []")
  case False
  show ?thesis
  proof (cases "first_hop (\<lambda>ref. followSibling ref v2i byId (assignedHash st) MAX_HOPS) (pr_siblingRefs p)")
    case None
    with that(1) False show ?thesis by (simp add: sibling_step_def)
  next
    case (Some h)
    then obtain x where "map_of (assignedHash st) x = Some h"
      by (auto dest!: first_hop_some follow_from_assigned simp: followSibling_def)
    then obtain c cov where "map_of (cs_clusters st) h = Some (c, cov)"
      using cascade_invD(2) [OF assms] by blast
    with that(2) False Some show ?thesis by (simp add: sibling_step_def)
  qed
qed (use that(1) in \<open>auto simp: sibling_step_def\<close>)

lemma sibling_step_inv:
  assumes "cascade_inv ids st" "pr_id p \<in> ids"
  shows "cascade_inv ids (sibling_step v2i byId p st)"
proof (cases rule: sibling_step_cases [OF assms(1), of v2i byId p])
  case 1
  with assms(1) show ?thesis by simp
next
  case (2 h c cov)
  from 2(4) assms(1) have old: "map_of (assignedHash st) c = Some h" "\<forall>x \<in> set cov. map_of (assignedHash st) x = Some h"
    "c \<notin> set cov" "distinct cov" "cov \<noteq> []" using cascade_invD(3-5) [OF assms(1)] by blast+
  note in_ids = cascade_invD(1) [OF assms(1)]
  have new: "pr_id p \<noteq> c" "pr_id p \<notin> set cov" using old 2(1) by auto
  show ?thesis unfolding 2(5)
    by (rule cascade_inv_assign [OF assms(1)])
      (use old new assms(2) in_ids 2(1) in \<open>auto simp: update_conv' oset_add_def split: if_splits\<close>)
qed

lemma hash_steps_inv:
  "cascade_inv ids0 st \<Longrightarrow> distinct (map fst hs) \<Longrightarrow> (\<And>h. h \<in> fst ` set hs \<Longrightarrow> map_of (cs_clusters st) h = None) \<Longrightarrow>
     (\<And>k p. map_of byId k = Some p \<Longrightarrow> pr_id p \<in> ids0) \<Longrightarrow> cascade_inv ids0 (fold (hash_step byId) hs st)"
proof (induction hs arbitrary: st)
  case (Cons h hs)
  obtain hash ids where h: "h = (hash, ids)" by (cases h)
  have n: "map_of (cs_clusters st) hash = None" using Cons.prems(3) h by (simp del: map_of_eq_None_iff)
  note step = hash_step_inv [of ids0 st hash byId ids, OF Cons.prems(1) n Cons.prems(4)]
  have "map_of (cs_clusters (hash_step byId (hash, ids) st)) k = None" if "k \<in> fst ` set hs" for k
  proof -
    have "k \<noteq> hash" using that Cons.prems(2) h by auto
    then show ?thesis using step Cons.prems(3) [of k] that by (simp del: map_of_eq_None_iff)
  qed
  then show ?case unfolding fold_simps h
    by (intro Cons.IH) (use step Cons.prems(2,4) in auto)
qed simp

lemma sibling_steps_inv:
  "cascade_inv ids st \<Longrightarrow> pr_id ` set ps \<subseteq> ids \<Longrightarrow> cascade_inv ids (fold (sibling_step v2i byId) ps st)"
  by (induction ps arbitrary: st) (auto intro: sibling_step_inv)

lemma by_id_member: "map_of (by_id parsed) k = Some p \<Longrightarrow> p \<in> set parsed \<and> pr_id p = k"
  using omap_of_props [of pr_id parsed] by (auto simp: by_id_def dest!: map_of_SomeD)

lemma distinct_hash_groups: "distinct (map fst (hash_groups parsed))"
proof -
  have "distinct (map fst (fold (\<lambda>h. om_push h i) hs m))" if "distinct (map fst m)" for hs m and i :: string
    using that by (induction hs arbitrary: m) auto
  then have "distinct (map fst (fold (\<lambda>p m. fold (\<lambda>h. om_push h (pr_id p)) (pr_hashes p) m) ps m))"
    if "distinct (map fst m)" for ps m using that by (induction ps arbitrary: m) auto
  from this [of "[]" parsed] show ?thesis by (simp add: hash_groups_def)
qed

lemma hash_groups_mention:
  "map_of (hash_groups parsed) h = Some ids \<Longrightarrow> i \<in> set ids \<Longrightarrow> \<exists>p \<in> set parsed. pr_id p = i \<and> h \<in> set (pr_hashes p)"
proof (induction parsed arbitrary: ids rule: rev_induct)
  case (snoc p ps)
  have push: "map_of (fold (\<lambda>h. om_push h j) hs m) h =
      (let old = (case map_of m h of None \<Rightarrow> [] | Some l \<Rightarrow> l) in
       if h \<in> set hs then Some (old @ replicate (count_list hs h) j) else map_of m h)" for hs m and j :: string
    by (induction hs arbitrary: m) (auto simp: map_of_om_push Let_def replicate_app_Cons_same count_list_0_iff split: option.splits)
  show ?case
  proof (cases "h \<in> set (pr_hashes p) \<and> i = pr_id p")
    case False
    then obtain l where "map_of (hash_groups ps) h = Some l" "i \<in> set l"
      using snoc.prems by (auto simp: hash_groups_def push Let_def split: if_splits option.splits)
    with snoc.IH show ?thesis by auto
  qed auto
qed (simp add: hash_groups_def)

definition cascade_result :: "cluster_input list \<Rightarrow> cascade_state" where
  "cascade_result batch =
     (let parsed = map parseRelease batch; byId = by_id parsed
      in fold (sibling_step (versionToId parsed) byId) parsed
           (fold (hash_step byId) (sorted_hashes (hash_groups parsed)) \<lparr>assignedHash = [], cs_clusters = []\<rparr>))"

lemma clusterChangesets_result:
  "clusterChangesets batch =
     (if length batch < 2 then []
      else sort_by (\<lambda>a b. cmp3 (cc_hash a) (cc_hash b))
        (filter (\<lambda>c. cc_coverageIds c \<noteq> [])
          (map (\<lambda>(hash, canonical, cov). \<lparr>cc_hash = hash, cc_canonicalId = canonical, cc_coverageIds = sort cov\<rparr>)
            (cs_clusters (cascade_result batch)))))"
  by (simp add: clusterChangesets_def cascade_result_def Let_def)

lemma parseRelease_id [simp]: "pr_id (parseRelease r) = ch_id r"
  by (simp add: parseRelease_def Let_def)

lemma sorted_hashes_props:
  "distinct (map fst (sorted_hashes gs)) \<longleftrightarrow> distinct (map fst (filter (\<lambda>(_, ids). 2 \<le> length ids) gs))"
  "set (sorted_hashes gs) \<subseteq> set gs"
  by (auto simp: sorted_hashes_def)

lemma cascade_start: "cascade_inv ids \<lparr>assignedHash = [], cs_clusters = []\<rparr>"
  by (simp add: cascade_inv_def)

lemma first_pass_inv:
  "cascade_inv (pr_id ` set parsed)
     (fold (hash_step (by_id parsed)) (sorted_hashes (hash_groups parsed)) \<lparr>assignedHash = [], cs_clusters = []\<rparr>)"
proof (rule hash_steps_inv [OF cascade_start])
  show "distinct (map fst (sorted_hashes (hash_groups parsed)))"
    using distinct_hash_groups [of parsed] by (simp add: sorted_hashes_props distinct_map_filter)
qed (auto dest: by_id_member)

lemma cascade_result_inv: "cascade_inv (ch_id ` set batch) (cascade_result batch)"
proof -
  have ids: "pr_id ` set (map parseRelease batch) = ch_id ` set batch" by (simp add: image_image)
  show ?thesis unfolding cascade_result_def Let_def ids [symmetric]
    by (rule sibling_steps_inv [OF first_pass_inv]) simp
qed

lemma distinct_tagged:
  "distinct (map tag cs) \<Longrightarrow>
     (\<And>c. c \<in> set cs \<Longrightarrow> distinct (canon c # cover c) \<and> (\<forall>x \<in> set (canon c # cover c). f x = Some (tag c))) \<Longrightarrow>
     distinct (placed canon cover cs)"
proof (induction cs)
  case (Cons c cs)
  have IH: "distinct (placed canon cover cs)" using Cons by auto
  have "f x = Some (tag c)" if "x \<in> set (canon c # cover c)" for x using Cons.prems(2) [of c] that by auto
  moreover have "\<exists>d \<in> set cs. f x = Some (tag d)" if "x \<in> set (placed canon cover cs)" for x
    using Cons.prems(2) that by (fastforce simp: placed_def)
  ultimately have "set (canon c # cover c) \<inter> set (placed canon cover cs) = {}"
    using Cons.prems(1) by (fastforce simp: image_iff)
  then show ?case using IH Cons.prems(2) [of c] by (simp add: placed_def)
qed (simp add: placed_def)

definition cluster_entry :: "string \<times> string \<times> string list \<Rightarrow> changesets_cluster" where
  "cluster_entry = (\<lambda>(hash, canonical, cov). \<lparr>cc_hash = hash, cc_canonicalId = canonical, cc_coverageIds = sort cov\<rparr>)"

lemma changesets_member:
  assumes "c \<in> set (clusterChangesets batch)"
  obtains cov where "map_of (cs_clusters (cascade_result batch)) (cc_hash c) = Some (cc_canonicalId c, cov)"
    "cc_coverageIds c = sort cov"
proof -
  have "c \<in> cluster_entry ` set (cs_clusters (cascade_result batch))"
    using assms by (auto simp: clusterChangesets_result cluster_entry_def simp del: split_paired_Ex split: if_splits)
  then obtain e where e: "e \<in> set (cs_clusters (cascade_result batch))" "c = cluster_entry e" by blast
  obtain h can cov where t: "e = (h, can, cov)" by (cases e)
  have "distinct (map fst (cs_clusters (cascade_result batch)))" using cascade_result_inv [of batch] by (simp add: cascade_inv_def)
  then have "map_of (cs_clusters (cascade_result batch)) h = Some (can, cov)" using e(1) t by (simp add: map_of_is_SomeI)
  then show ?thesis using that e(2) t by (simp add: cluster_entry_def)
qed

interpretation changesets_clusterer: batch_clusterer ch_id "\<lambda>_. True" clusterChangesets cc_canonicalId cc_coverageIds
  "\<lambda>c. \<lparr>cv_canonicalId = cc_canonicalId c, cv_reason = ''changesets-cascade:'' @ cc_hash c,
        cv_decidedBy = DECIDED_BY_CHANGESETS, cv_decidedAt = now\<rparr>"
  for now :: string
proof
  fix batch :: "cluster_input list"
  note inv = cascade_result_inv [of batch]
  have d: "distinct (map cc_hash (clusterChangesets batch))"
  proof -
    have "map cc_hash (map cluster_entry es) = map fst es" for es by (simp add: cluster_entry_def split: prod.split)
    then have "distinct (map cc_hash (map cluster_entry (cs_clusters (cascade_result batch))))"
      using inv by (simp only: cascade_inv_def)
    then have "distinct (map cc_hash (sort_by (\<lambda>a b. cmp3 (cc_hash a) (cc_hash b))
        (filter (\<lambda>c. cc_coverageIds c \<noteq> []) (map cluster_entry (cs_clusters (cascade_result batch))))))"
      by (simp only: distinct_map_sort_by distinct_map_filter)
    then show ?thesis unfolding clusterChangesets_result cluster_entry_def [symmetric] by (cases "length batch < 2") simp_all
  qed
  have m: "distinct (cc_canonicalId c # cc_coverageIds c)
      \<and> (\<forall>x \<in> set (cc_canonicalId c # cc_coverageIds c). map_of (assignedHash (cascade_result batch)) x = Some (cc_hash c))"
    if mem: "c \<in> set (clusterChangesets batch)" for c
  proof -
    obtain cov where c: "map_of (cs_clusters (cascade_result batch)) (cc_hash c) = Some (cc_canonicalId c, cov)"
      "cc_coverageIds c = sort cov" using mem by (rule changesets_member)
    have "map_of (assignedHash (cascade_result batch)) x = Some (cc_hash c)" if "x \<in> set cov" for x
      using cascade_invD(4) [OF inv c(1) that] .
    then show ?thesis using cascade_invD(3,5) [OF inv c(1)] c(2) by simp
  qed
  show "distinct (placed cc_canonicalId cc_coverageIds (clusterChangesets batch))"
    by (rule distinct_tagged [where tag = cc_hash, OF d m])
  show "set (placed cc_canonicalId cc_coverageIds (clusterChangesets batch)) \<subseteq> ch_id ` set batch"
    using m cascade_invD(1) [OF inv] by (fastforce simp: placed_def)
  show "cc_coverageIds c \<noteq> []" if "c \<in> set (clusterChangesets batch)" for c
    using that by (auto simp: clusterChangesets_result split: if_splits)
qed simp

text \<open>the changesets clusterer puts no release in two clusters or twice in one, takes every member
  from the batch, and emits no empty cluster; this holds even when ids repeat.\<close>
theorem changesets_placed_once:
  "distinct (concat (map (\<lambda>c. cc_canonicalId c # cc_coverageIds c) (clusterChangesets batch)))
   \<and> set (concat (map (\<lambda>c. cc_canonicalId c # cc_coverageIds c) (clusterChangesets batch))) \<subseteq> ch_id ` set batch
   \<and> list_all (\<lambda>c. cc_coverageIds c \<noteq> []) (clusterChangesets batch)"
  using changesets_clusterer.placed_once [of batch] changesets_clusterer.placed_in [of batch]
    changesets_clusterer.covers_some
  by (simp add: placed_def list_all_iff)

subsection \<open>Why a release is demoted\<close>

definition mentions :: "string \<Rightarrow> cascade_release \<Rightarrow> bool" where
  "mentions hash p \<longleftrightarrow> hash \<in> set (pr_hashes p)"

definition rolls_up :: "cascade_release \<Rightarrow> bool" where
  "rolls_up p \<longleftrightarrow> pr_isPureCascade p \<and> pr_siblingRefs p \<noteq> []"

definition cascade_just :: "cascade_release list \<Rightarrow> cascade_state \<Rightarrow> bool" where
  "cascade_just parsed st \<longleftrightarrow>
     (\<forall>h c cov. map_of (cs_clusters st) h = Some (c, cov) \<longrightarrow>
        (\<exists>p \<in> set parsed. pr_id p = c \<and> mentions h p)
      \<and> (\<forall>x \<in> set cov. \<exists>p \<in> set parsed. pr_id p = x \<and> (mentions h p \<and> demotable h p \<or> rolls_up p)))"

lemma cascade_just_update:
  assumes "cascade_just parsed st" and "\<exists>p \<in> set parsed. pr_id p = c \<and> mentions h p"
    and "\<And>x. x \<in> set cov \<Longrightarrow> \<exists>p \<in> set parsed. pr_id p = x \<and> (mentions h p \<and> demotable h p \<or> rolls_up p)"
  shows "cascade_just parsed \<lparr>assignedHash = a, cs_clusters = AList.update h (c, cov) (cs_clusters st)\<rparr>"
  using assms unfolding cascade_just_def by (simp add: update_conv' split: if_split)

lemma group_member_parsed:
  assumes "distinct (map pr_id parsed)" "map_of (hash_groups parsed) hash = Some ids"
    "m \<in> set (List.map_filter (map_of (by_id parsed)) ids)"
  shows "m \<in> set parsed \<and> mentions hash m"
proof -
  obtain i where i: "i \<in> set ids" "map_of (by_id parsed) i = Some m"
    using assms(3) by (auto simp: List.map_filter_def)
  have m: "m \<in> set parsed" "pr_id m = i" using by_id_member [OF i(2)] by auto
  obtain p where p: "p \<in> set parsed" "pr_id p = i" "hash \<in> set (pr_hashes p)"
    using hash_groups_mention [OF assms(2) i(1)] by blast
  then have "p = m" using m assms(1) by (metis distinct_map inj_on_def)
  with m p show ?thesis by (simp add: mentions_def)
qed

lemma hash_step_just:
  assumes "distinct (map pr_id parsed)" "map_of (hash_groups parsed) hash = Some ids" "cascade_just parsed st"
  shows "cascade_just parsed (hash_step (by_id parsed) (hash, ids) st)"
proof (cases rule: hash_step_cases [of "by_id parsed" hash ids st, OF refl])
  case 1
  then show ?thesis using assms(3) by (simp add: cascade_just_def)
next
  case (2 canonical cov assigned)
  show ?thesis unfolding 2(5)
  proof (rule cascade_just_update [OF assms(3)])
    show "\<exists>p \<in> set parsed. pr_id p = pr_id canonical \<and> mentions hash p"
      using group_member_parsed [OF assms(1,2) 2(3)] by blast
    fix x assume "x \<in> set cov"
    then obtain m where "m \<in> set (List.map_filter (map_of (by_id parsed)) ids)" "pr_id m = x" "demotable hash m"
      using 2(2) by (auto simp: cover_inv_def)
    then show "\<exists>p \<in> set parsed. pr_id p = x \<and> (mentions hash p \<and> demotable hash p \<or> rolls_up p)"
      using group_member_parsed [OF assms(1,2)] by blast
  qed
qed

lemma sibling_step_just:
  assumes "cascade_inv ids st" "cascade_just parsed st" "p \<in> set parsed"
  shows "cascade_just parsed (sibling_step v2i byId p st)"
proof (cases rule: sibling_step_cases [OF assms(1), of v2i byId p])
  case 1
  with assms(2) show ?thesis by simp
next
  case (2 h c cov)
  have old: "\<exists>q \<in> set parsed. pr_id q = c \<and> mentions h q"
    "\<And>x. x \<in> set cov \<Longrightarrow> \<exists>q \<in> set parsed. pr_id q = x \<and> (mentions h q \<and> demotable h q \<or> rolls_up q)"
    using assms(2) 2(4) unfolding cascade_just_def by blast+
  have "rolls_up p" using 2(2,3) by (simp add: rolls_up_def)
  then show ?thesis unfolding 2(5)
    by (intro cascade_just_update [OF assms(2) old(1)]) (use old(2) assms(3) in auto)
qed

lemma hash_steps_just:
  assumes "distinct (map pr_id parsed)"
  shows "set hs \<subseteq> set (hash_groups parsed) \<Longrightarrow> cascade_just parsed st \<Longrightarrow>
    cascade_just parsed (fold (hash_step (by_id parsed)) hs st)"
proof (induction hs arbitrary: st)
  case (Cons h hs)
  obtain hash ids where h: "h = (hash, ids)" by (cases h)
  then have "map_of (hash_groups parsed) hash = Some ids"
    using Cons.prems(1) distinct_hash_groups [of parsed] by (simp add: map_of_is_SomeI)
  from hash_step_just [OF assms this Cons.prems(2)] show ?case using Cons h by simp
qed simp

lemma sibling_steps_just:
  "cascade_inv ids st \<Longrightarrow> pr_id ` set ps \<subseteq> ids \<Longrightarrow> set ps \<subseteq> set parsed \<Longrightarrow> cascade_just parsed st \<Longrightarrow>
     cascade_just parsed (fold (sibling_step v2i byId) ps st)"
  by (induction ps arbitrary: st) (auto intro!: sibling_step_just sibling_step_inv)

lemma cascade_result_just:
  assumes "distinct (map ch_id batch)"
  shows "cascade_just (map parseRelease batch) (cascade_result batch)"
proof -
  let ?p = "map parseRelease batch"
  have d: "distinct (map pr_id ?p)" using assms by (simp add: comp_def)
  have "cascade_just ?p (fold (hash_step (by_id ?p)) (sorted_hashes (hash_groups ?p)) \<lparr>assignedHash = [], cs_clusters = []\<rparr>)"
    by (rule hash_steps_just [OF d sorted_hashes_props(2)]) (simp add: cascade_just_def)
  then show ?thesis unfolding cascade_result_def Let_def
    by (rule sibling_steps_just [OF first_pass_inv order_refl order_refl])
qed

text \<open>a release keeps its place in the feed when it has a bullet of its own.  The canonical release
  of a cluster mentions its hash; a covered release mentions it too, without bullets for other hashes
  only, or is nothing but references to sibling packages.\<close>
theorem changesets_demotions_justified:
  assumes "distinct (map ch_id batch)"
  shows "list_all (\<lambda>c.
      list_ex (\<lambda>r. ch_id r = cc_canonicalId c \<and> mentions (cc_hash c) (parseRelease r)) batch
    \<and> list_all (\<lambda>i. list_ex (\<lambda>r. ch_id r = i \<and>
        (mentions (cc_hash c) (parseRelease r) \<and> demotable (cc_hash c) (parseRelease r) \<or> rolls_up (parseRelease r))) batch)
      (cc_coverageIds c)) (clusterChangesets batch)"
  unfolding list_all_iff
proof
  fix c assume c: "c \<in> set (clusterChangesets batch)"
  obtain cov where "map_of (cs_clusters (cascade_result batch)) (cc_hash c) = Some (cc_canonicalId c, cov)"
    "cc_coverageIds c = sort cov" using c by (rule changesets_member)
  then show "list_ex (\<lambda>r. ch_id r = cc_canonicalId c \<and> mentions (cc_hash c) (parseRelease r)) batch
    \<and> (\<forall>i \<in> set (cc_coverageIds c). list_ex (\<lambda>r. ch_id r = i \<and>
        (mentions (cc_hash c) (parseRelease r) \<and> demotable (cc_hash c) (parseRelease r) \<or> rolls_up (parseRelease r))) batch)"
    using cascade_result_just [OF assms] unfolding cascade_just_def list_ex_iff by fastforce
qed

text \<open>persisting a batch of changesets clusters keeps the coverage table flat when no row of the
  table is about a release of the batch.\<close>
theorem cascades_keep_flat:
  assumes "flat t"
    and "\<forall>k r. map_of t k = Some r \<longrightarrow> k \<notin> set (map ch_id rows) \<and> cv_canonicalId r \<notin> set (map ch_id rows)"
  shows "flat (snd (clusterAndPersistCascades now rows t))"
proof -
  have rows: "changesets_rows now cs = changesets_clusterer.coverage_rows now cs" for cs
    by (simp only: changesets_rows_def changesets_clusterer.coverage_rows_def)
  have none: "map_of t (ch_id x) = None" if "x \<in> set rows" for x
    using assms(2) that by (cases "map_of t (ch_id x)") auto
  have "flat (insert_coverage (changesets_rows now (clusterChangesets rows)) t)"
    unfolding rows
    by (rule changesets_clusterer.persist_flat [OF assms(1) none _ TrueI, where P = "\<lambda>_. True" and xs = rows])
      (use assms(2) in auto)
  with assms(1) show ?thesis by (simp add: clusterAndPersistCascades_def Let_def)
qed

text \<open>A package with the change and one that only picks it up.\<close>

definition changed_package :: cluster_input where
  "changed_package = \<lparr>ch_id = ''a'', ch_version = None, ch_content = ''- abcdef: x''\<rparr>"

definition bumped_package :: cluster_input where
  "bumped_package = \<lparr>ch_id = ''b'', ch_version = None, ch_content = ''- Updated dependencies [abcdef]''\<rparr>"

lemma sample_packages:
  "parseRelease changed_package = \<lparr>pr_id = ''a'', pr_version = None, pr_content = ''- abcdef: x'', pr_hashes = [''abcdef''],
     pr_substantiveHashes = [''abcdef''], pr_siblingRefs = [], pr_isPureCascade = False, pr_substantiveLength = 9\<rparr>"
  "parseRelease bumped_package = \<lparr>pr_id = ''b'', pr_version = None, pr_content = ''- Updated dependencies [abcdef]'',
     pr_hashes = [''abcdef''], pr_substantiveHashes = [], pr_siblingRefs = [], pr_isPureCascade = True, pr_substantiveLength = 0\<rparr>"
  by code_simp+

lemma sample_cascade:
  "clusterChangesets [changed_package, bumped_package] =
     [\<lparr>cc_hash = ''abcdef'', cc_canonicalId = ''a'', cc_coverageIds = [''b'']\<rparr>]"
  unfolding clusterChangesets_def list.map sample_packages by code_simp

theorem changesets_demotions_justified_witness:
  "mentions ''abcdef'' (parseRelease changed_package)
   \<and> (mentions ''abcdef'' (parseRelease bumped_package) \<and> demotable ''abcdef'' (parseRelease bumped_package)
      \<or> rolls_up (parseRelease bumped_package))"
  using changesets_demotions_justified [of "[changed_package, bumped_package]"]
  by (simp add: sample_cascade) (simp add: changed_package_def bumped_package_def)

theorem cascades_keep_flat_witness:
  "flat (snd (clusterAndPersistCascades ''2026-01-01'' [changed_package, bumped_package] []))"
  by (rule cascades_keep_flat) (simp_all add: flat_def)

end
