(* ===== verification/UrlSafety.thy ===== *)
theory UrlSafety
  imports Regex
begin

section \<open>Outbound webhook targets\<close>

text \<open>
  \<open>packages/core-internal/src/webhook-url-safety.ts\<close>: the gate that keeps webhook deliveries away from
  private and reserved addresses.  The URL parser of the runtime (\<open>new URL\<close>) and the DNS resolver are
  parameters: \<open>parse_url\<close> returns the parts the gate reads, or nothing when the constructor throws, and
  \<open>lookup\<close> returns the addresses of a host, or nothing when it throws.  The lemmas relate the
  verdicts to the CIDR blocks they stand for, through a grammar of the texts of IPv4 and IPv6 addresses
  that is stated apart from the parser, and show that an IPv4 address carried by an IPv6 address gets
  the verdict of the IPv4 address.
\<close>

unbundle bit_operations_syntax

subsection \<open>Strings\<close>

definition index_of_char :: "char \<Rightarrow> string \<Rightarrow> nat option" where
  "index_of_char c s = (let i = length (takeWhile (\<lambda>x. x \<noteq> c) s) in if i < length s then Some i else None)"

definition last_index_of_char :: "char \<Rightarrow> string \<Rightarrow> nat option" where
  "last_index_of_char c s = (case index_of_char c (rev s) of None \<Rightarrow> None | Some i \<Rightarrow> Some (length s - 1 - i))"

function split_str :: "string \<Rightarrow> string \<Rightarrow> string list" where
  "split_str sep [] = [[]]"
| "split_str sep (x # s) =
     (if sep \<noteq> [] \<and> js_starts_with (x # s) sep then [] # split_str sep (drop (length sep) (x # s))
      else (case split_str sep s of t # ts \<Rightarrow> (x # t) # ts | [] \<Rightarrow> [[x]]))"
  by pat_completeness auto
termination by (relation "measure (\<lambda>(sep, s). length s)") auto

definition opt_nth :: "'a list \<Rightarrow> nat \<Rightarrow> 'a option" where
  "opt_nth xs i = (if i < length xs then Some (xs ! i) else None)"

subsection \<open>Addresses\<close>

definition BLOCKED_HOSTNAMES :: "string list" where
  "BLOCKED_HOSTNAMES = [''localhost'', ''metadata'', ''metadata.google.internal'', ''169.254.169.254'',
     ''0.0.0.0'', ''[::]'', ''::'']"

definition normalizeHostname :: "string \<Rightarrow> string" where
  "normalizeHostname hostname =
     (let h = js_lower hostname in if h \<noteq> [] \<and> last h = CHR ''.'' then butlast h else h)"

definition IPV4_OCTET_RE :: re where "IPV4_OCTET_RE = seqs [Bos, between 1 3 digit, Eos]"

definition parse_octet :: "string \<Rightarrow> nat option" where
  "parse_octet part =
     (if \<not> test IPV4_OCTET_RE part then None
      else let n = dec_to_nat part in if n > 255 then None else Some n)"

fun parse_octets :: "string list \<Rightarrow> nat list option" where
  "parse_octets [] = Some []"
| "parse_octets (part # parts) =
     (case parse_octet part of None \<Rightarrow> None | Some n \<Rightarrow> map_option ((#) n) (parse_octets parts))"

definition parseIpv4 :: "string \<Rightarrow> nat list option" where
  "parseIpv4 host =
     (let parts = split_on CHR ''.'' host in if length parts \<noteq> 4 then None else parse_octets parts)"

text \<open>A comparison with an octet that is \<open>undefined\<close> is false.\<close>

definition oct_between :: "nat \<Rightarrow> nat option \<Rightarrow> nat \<Rightarrow> bool" where
  "oct_between lo x hi = (case x of None \<Rightarrow> False | Some n \<Rightarrow> lo \<le> n \<and> n \<le> hi)"
definition oct_ge :: "nat option \<Rightarrow> nat \<Rightarrow> bool" where
  "oct_ge x lo = (case x of None \<Rightarrow> False | Some n \<Rightarrow> lo \<le> n)"

definition isPrivateIpv4 :: "nat list \<Rightarrow> bool" where
  "isPrivateIpv4 octets =
     (let a = opt_nth octets 0; b = opt_nth octets 1; c = opt_nth octets 2 in
      if a = Some 0 then True
      else if a = Some 10 then True
      else if a = Some 127 then True
      else if a = Some 169 \<and> b = Some 254 then True
      else if a = Some 172 \<and> oct_between 16 b 31 then True
      else if a = Some 192 \<and> b = Some 168 then True
      else if a = Some 100 \<and> oct_between 64 b 127 then True
      else if a = Some 192 \<and> b = Some 0 \<and> (c = Some 0 \<or> c = Some 2) then True
      else if a = Some 198 \<and> (b = Some 18 \<or> b = Some 19) then True
      else if a = Some 198 \<and> b = Some 51 \<and> c = Some 100 then True
      else if a = Some 203 \<and> b = Some 0 \<and> c = Some 113 then True
      else if oct_ge a 224 then True
      else False)"

definition is_hex_char :: "char \<Rightarrow> bool" where
  "is_hex_char c \<longleftrightarrow> is_digit c \<or> (97 \<le> code_unit c \<and> code_unit c \<le> 102)"
definition HEXTET_RE :: re where "HEXTET_RE = seqs [Bos, between 1 4 (Cls is_hex_char), Eos]"

fun parse_hextets :: "string list \<Rightarrow> nat list option" where
  "parse_hextets [] = Some []"
| "parse_hextets (part # parts) =
     (if \<not> test HEXTET_RE part then None
      else case radix_to_nat 16 part of None \<Rightarrow> None | Some n \<Rightarrow> map_option ((#) n) (parse_hextets parts))"

definition parseSide :: "string \<Rightarrow> nat list option" where
  "parseSide side = (if side = [] then Some [] else parse_hextets (split_on CHR '':'' side))"

text \<open>The brackets and the zone id are dropped.\<close>

definition strip_v6 :: "string \<Rightarrow> string" where
  "strip_v6 host =
     (let h = normalizeHostname host;
          h1 = (if js_starts_with h ''['' \<and> js_ends_with h '']'' then slice h 1 (length h - 1) else h)
      in case index_of_char CHR ''%'' h1 of Some z \<Rightarrow> take z h1 | None \<Rightarrow> h1)"

text \<open>The dotted tail: the two hextets it stands for and the text with placeholders, or a failure.\<close>

definition v4_tail :: "string \<Rightarrow> ((nat list) \<times> string) option" where
  "v4_tail h =
     (let lastColon = (case last_index_of_char CHR '':'' h of Some i \<Rightarrow> i | None \<Rightarrow> 0);
          maybeV4 = drop (lastColon + 1) h
      in if js_includes maybeV4 ''.'' then
           (case parseIpv4 maybeV4 of None \<Rightarrow> None
            | Some v4 \<Rightarrow> Some ([push_bit 8 (v4 ! 0) OR (v4 ! 1), push_bit 8 (v4 ! 2) OR (v4 ! 3)],
                              take (lastColon + 1) h @ ''0:0''))
         else Some ([], h))"

definition join_halves :: "string list \<Rightarrow> nat list option" where
  "join_halves halves =
     (case (parseSide (halves ! 0), if length halves = 2 then parseSide (halves ! 1) else Some []) of
        (Some head, Some rest) \<Rightarrow>
          (if length halves = 2 then
             (let fill = 8 - int (length head) - int (length rest) in
              if fill < 1 then None else Some (head @ replicate (nat fill) 0 @ rest))
           else Some head)
      | _ \<Rightarrow> None)"

definition parseIpv6 :: "string \<Rightarrow> nat list option" where
  "parseIpv6 host =
     (let h = strip_v6 host in
      if \<not> js_includes h '':'' then None
      else (case v4_tail h of None \<Rightarrow> None
            | Some (tail, h') \<Rightarrow>
                (let halves = split_str ''::'' h' in
                 if length halves > 2 then None
                 else (case join_halves halves of None \<Rightarrow> None
                       | Some hextets \<Rightarrow>
                           if length hextets \<noteq> 8 then None
                           else if length tail = 2 then Some (take 6 hextets @ tail)
                           else Some hextets))))"

definition embeddedIpv4 :: "nat \<Rightarrow> nat \<Rightarrow> nat list" where
  "embeddedIpv4 hi lo = [drop_bit 8 hi, hi AND 0xff, drop_bit 8 lo, lo AND 0xff]"

definition private_hextets :: "nat list \<Rightarrow> bool" where
  "private_hextets x =
     (let h0 = x ! 0; h1 = x ! 1; h2 = x ! 2; h3 = x ! 3; h4 = x ! 4; h5 = x ! 5; h6 = x ! 6; h7 = x ! 7;
          firstSixZero = (h0 = 0 \<and> h1 = 0 \<and> h2 = 0 \<and> h3 = 0 \<and> h4 = 0)
      in if firstSixZero \<and> h5 = 0 then
           (if h6 = 0 \<and> (h7 = 0 \<or> h7 = 1) then True else isPrivateIpv4 (embeddedIpv4 h6 h7))
         else if firstSixZero \<and> h5 = 0xffff then isPrivateIpv4 (embeddedIpv4 h6 h7)
         else if h0 = 0 \<and> h1 = 0 \<and> h2 = 0 \<and> h3 = 0 \<and> h4 = 0xffff \<and> h5 = 0 then
           isPrivateIpv4 (embeddedIpv4 h6 h7)
         else if h0 = 0x64 \<and> h1 = 0xff9b \<and> h2 = 0 \<and> h3 = 0 \<and> h4 = 0 \<and> h5 = 0 then
           isPrivateIpv4 (embeddedIpv4 h6 h7)
         else if h0 = 0x64 \<and> h1 = 0xff9b \<and> h2 = 1 then True
         else if h0 = 0x2002 then isPrivateIpv4 (embeddedIpv4 h1 h2)
         else if h0 = 0x2001 \<and> h1 = 0 then True
         else if h0 = 0x2001 \<and> h1 = 0xdb8 then True
         else if h0 = 0x100 \<and> h1 = 0 \<and> h2 = 0 \<and> h3 = 0 then True
         else if h0 AND 0xfe00 = 0xfc00 then True
         else if h0 AND 0xffc0 = 0xfe80 then True
         else if h0 AND 0xffc0 = 0xfec0 then True
         else if h0 AND 0xff00 = 0xff00 then True
         else False)"

definition isPrivateIpv6 :: "string \<Rightarrow> bool" where
  "isPrivateIpv6 host = (case parseIpv6 host of None \<Rightarrow> True | Some x \<Rightarrow> private_hextets x)"

definition isPrivateOrReservedIp :: "string \<Rightarrow> bool" where
  "isPrivateOrReservedIp host =
     (let h = normalizeHostname host in
      case parseIpv4 h of Some v4 \<Rightarrow> isPrivateIpv4 v4
      | None \<Rightarrow> (if js_includes h '':'' then isPrivateIpv6 h else False))"

subsection \<open>The gates\<close>

record url_parts =
  up_protocol :: string
  up_hostname :: string
  up_pathname :: string

definition blockedWebhookHostname :: "string \<Rightarrow> string option" where
  "blockedWebhookHostname hostname =
     (let h = normalizeHostname hostname in
      if h \<in> set BLOCKED_HOSTNAMES then
        Some ''url must not target localhost, link-local, or metadata addresses''
      else if js_ends_with h ''.localhost'' \<or> js_ends_with h ''.local'' \<or> js_ends_with h ''.internal'' then
        Some ''url must not target private or internal hostnames''
      else if isPrivateOrReservedIp h then
        Some ''url must not target a private or reserved address''
      else None)"

definition validateWebhookUrl :: "(string \<Rightarrow> url_parts option) \<Rightarrow> string \<Rightarrow> string option" where
  "validateWebhookUrl parse_url url =
     (case parse_url url of None \<Rightarrow> Some ''url is invalid''
      | Some parsed \<Rightarrow>
          if up_protocol parsed \<noteq> ''https:'' then Some ''url must use HTTPS''
          else blockedWebhookHostname (up_hostname parsed))"

definition isIpLiteral :: "string \<Rightarrow> bool" where
  "isIpLiteral hostname =
     (let h = normalizeHostname hostname in parseIpv4 h \<noteq> None \<or> js_includes h '':'')"

text \<open>\<open>resolveHostAddresses\<close>: for each of the two record types, the reply of the resolver's HTTP
  endpoint; a fetch or a body that throws makes the whole call throw.\<close>

record doh_answer =
  da_type :: "nat option"
  da_data :: "string option"

datatype doh_reply = DohThrows | DohNotOk | DohAnswers "doh_answer list option"

definition collect_answers :: "doh_answer list \<Rightarrow> string list \<Rightarrow> string list" where
  "collect_answers answers ips =
     fold (\<lambda>a acc. if (da_type a = Some 1 \<or> da_type a = Some 28) \<and> da_data a \<noteq> None \<and> da_data a \<noteq> Some []
                   then oset_add (the (da_data a)) acc else acc) answers ips"

fun resolve_types :: "(nat \<Rightarrow> doh_reply) \<Rightarrow> nat list \<Rightarrow> string list \<Rightarrow> string list option" where
  "resolve_types fetch [] ips = Some ips"
| "resolve_types fetch (t # ts) ips =
     (case fetch t of
        DohThrows \<Rightarrow> None
      | DohNotOk \<Rightarrow> resolve_types fetch ts ips
      | DohAnswers answers \<Rightarrow>
          resolve_types fetch ts (collect_answers (case answers of Some l \<Rightarrow> l | None \<Rightarrow> []) ips))"

definition resolveHostAddresses :: "(string \<Rightarrow> nat \<Rightarrow> doh_reply) \<Rightarrow> string \<Rightarrow> string list option" where
  "resolveHostAddresses fetch hostname = resolve_types (fetch hostname) [1, 28] []"

definition SLACK_WEBHOOK_HOSTS :: "string list" where
  "SLACK_WEBHOOK_HOSTS = [''hooks.slack.com'', ''hooks.slack-gov.com'']"

definition validateSlackWebhookUrl :: "(string \<Rightarrow> url_parts option) \<Rightarrow> string \<Rightarrow> string option" where
  "validateSlackWebhookUrl parse_url url =
     (case parse_url url of None \<Rightarrow> Some ''url is invalid''
      | Some parsed \<Rightarrow>
          if js_lower (up_hostname parsed) \<notin> set SLACK_WEBHOOK_HOSTS then
            Some ''Slack webhooks must point at a hooks.slack.com incoming webhook URL''
          else None)"

definition DISCORD_WEBHOOK_HOSTS :: "string list" where
  "DISCORD_WEBHOOK_HOSTS = [''discord.com'', ''discordapp.com'', ''canary.discord.com'', ''ptb.discord.com'']"

definition discord_token_char :: "char \<Rightarrow> bool" where
  "discord_token_char c \<longleftrightarrow> is_alnum c \<or> c = CHR ''_'' \<or> c = CHR ''.'' \<or> c = CHR ''-''"

definition DISCORD_WEBHOOK_PATH :: re where
  "DISCORD_WEBHOOK_PATH = seqs [Bos, lit ''/api'', opt (seqs [lit ''/v'', plus digit]), lit ''/webhooks/'',
     plus digit, chr CHR ''/'', plus (Cls discord_token_char), opt (chr CHR ''/''), Eos]"

definition validateDiscordWebhookUrl :: "(string \<Rightarrow> url_parts option) \<Rightarrow> string \<Rightarrow> string option" where
  "validateDiscordWebhookUrl parse_url url =
     (case parse_url url of None \<Rightarrow> Some ''url is invalid''
      | Some parsed \<Rightarrow>
          if js_lower (up_hostname parsed) \<notin> set DISCORD_WEBHOOK_HOSTS then
            Some ''Discord webhooks must point at a discord.com incoming webhook URL''
          else if \<not> test DISCORD_WEBHOOK_PATH (up_pathname parsed) then
            Some ''Discord webhooks must use an /api/webhooks/{id}/{token} URL''
          else None)"

datatype webhook_format = JsonFormat | SlackFormat | DiscordFormat

definition validateFormatWebhookUrl ::
  "(string \<Rightarrow> url_parts option) \<Rightarrow> webhook_format \<Rightarrow> string \<Rightarrow> string option" where
  "validateFormatWebhookUrl parse_url format url =
     (if format = SlackFormat then validateSlackWebhookUrl parse_url url
      else if format = DiscordFormat then validateDiscordWebhookUrl parse_url url
      else None)"

definition assertPublicWebhookTarget ::
  "(string \<Rightarrow> url_parts option) \<Rightarrow> (string \<Rightarrow> string list option) \<Rightarrow> string \<Rightarrow> string option" where
  "assertPublicWebhookTarget parse_url lookup url =
     (case validateWebhookUrl parse_url url of Some e \<Rightarrow> Some e
      | None \<Rightarrow>
        (case parse_url url of None \<Rightarrow> Some ''url is invalid''
         | Some parsed \<Rightarrow>
           (case blockedWebhookHostname (up_hostname parsed) of Some e \<Rightarrow> Some e
            | None \<Rightarrow>
              if isIpLiteral (up_hostname parsed) then None
              else (case lookup (up_hostname parsed) of
                      None \<Rightarrow> Some ''url hostname could not be resolved''
                    | Some addresses \<Rightarrow>
                        if addresses = [] then Some ''url hostname could not be resolved''
                        else if list_ex isPrivateOrReservedIp addresses then
                          Some ''url must not resolve to a private or reserved address''
                        else None))))"

subsection \<open>IPv4 blocks\<close>

text \<open>The reserved blocks of the comments, as network and prefix length.\<close>

definition RESERVED_V4 :: "(nat list \<times> nat) list" where
  "RESERVED_V4 = [([0, 0, 0, 0], 8), ([10, 0, 0, 0], 8), ([127, 0, 0, 0], 8), ([169, 254, 0, 0], 16),
     ([172, 16, 0, 0], 12), ([192, 168, 0, 0], 16), ([100, 64, 0, 0], 10), ([192, 0, 0, 0], 24),
     ([192, 0, 2, 0], 24), ([198, 18, 0, 0], 15), ([198, 51, 100, 0], 24), ([203, 0, 113, 0], 24),
     ([224, 0, 0, 0], 4), ([240, 0, 0, 0], 4)]"

definition v4_number :: "nat list \<Rightarrow> nat" where
  "v4_number octets = foldl (\<lambda>n x. 256 * n + x) 0 octets"

definition in_block :: "nat list \<Rightarrow> nat list \<times> nat \<Rightarrow> bool" where
  "in_block octets blk \<longleftrightarrow>
     v4_number octets div 2 ^ (32 - snd blk) = v4_number (fst blk) div 2 ^ (32 - snd blk)"

definition is_v4 :: "nat list \<Rightarrow> bool" where
  "is_v4 octets \<longleftrightarrow> length octets = 4 \<and> (\<forall>x \<in> set octets. x < 256)"

lemma v4_number_div:
  assumes "a < 256" "b < 256" "c < 256" "d < (256::nat)"
  shows "v4_number [a, b, c, d] div 2 ^ 24 = a" "v4_number [a, b, c, d] div 2 ^ 16 = 256 * a + b"
    "v4_number [a, b, c, d] div 2 ^ 8 = 256 * (256 * a + b) + c"
  using assms by (simp_all add: v4_number_def)

lemma v4_number_div_more:
  "v4_number os div 2 ^ 28 = v4_number os div 2 ^ 24 div 16"
  "v4_number os div 2 ^ 20 = v4_number os div 2 ^ 16 div 16"
  "v4_number os div 2 ^ 22 = v4_number os div 2 ^ 16 div 64"
  "v4_number os div 2 ^ 17 = v4_number os div 2 ^ 16 div 2"
  by (simp_all flip: div_mult2_eq)

lemma pair_eq: "b < 256 \<Longrightarrow> q < 256 \<Longrightarrow> 256 * a + b = 256 * p + q \<longleftrightarrow> a = p \<and> b = q" for a b p q :: nat
  by (cases a p rule: linorder_cases) auto

lemma div_eq_between: "0 < k \<Longrightarrow> x div k = n \<longleftrightarrow> n * k \<le> x \<and> x < Suc n * k" for k x n :: nat
  by (metis div_less_iff_less_mult less_Suc_eq_le less_eq_div_iff_mult_less_eq order.antisym order_refl)

lemma pair_div:
  assumes "b < (256::nat)"
  shows "(256 * a + b) div 16 = 2753 \<longleftrightarrow> a = 172 \<and> 16 \<le> b \<and> b \<le> 31"
    and "(256 * a + b) div 64 = 401 \<longleftrightarrow> a = 100 \<and> 64 \<le> b \<and> b \<le> 127"
    and "(256 * a + b) div 2 = 25353 \<longleftrightarrow> a = 198 \<and> (b = 18 \<or> b = 19)"
proof -
  have "44048 \<le> 256 * a + b \<Longrightarrow> 256 * a + b < 44064 \<Longrightarrow> a = 172"
    "25664 \<le> 256 * a + b \<Longrightarrow> 256 * a + b < 25728 \<Longrightarrow> a = 100"
    "50706 \<le> 256 * a + b \<Longrightarrow> 256 * a + b < 50708 \<Longrightarrow> a = 198"
    using assms by linarith+
  then show "(256 * a + b) div 16 = 2753 \<longleftrightarrow> a = 172 \<and> 16 \<le> b \<and> b \<le> 31"
    "(256 * a + b) div 64 = 401 \<longleftrightarrow> a = 100 \<and> 64 \<le> b \<and> b \<le> 127"
    "(256 * a + b) div 2 = 25353 \<longleftrightarrow> a = 198 \<and> (b = 18 \<or> b = 19)"
    by (auto simp: div_eq_between)
qed

lemma isPrivateIpv4_blocks0:
  assumes "a < 256" "b < 256" "c < 256" "d < (256::nat)"
  shows "isPrivateIpv4 [a,b,c,d] \<longleftrightarrow> list_ex (in_block [a,b,c,d]) RESERVED_V4"
proof -
  have 1: "in_block [a,b,c,d] ([p,0,0,0],8) \<longleftrightarrow> a = p" if "p < 256" for p
    using v4_number_div [OF assms] v4_number_div [of p 0 0 0] that by (simp add: in_block_def)
  have 2: "in_block [a,b,c,d] ([p,q,0,0],16) \<longleftrightarrow> a = p \<and> b = q" if "p < 256" "q < 256" for p q
    using v4_number_div [OF assms] v4_number_div [of p q 0 0] that pair_eq assms by (simp add: in_block_def)
  have 3: "in_block [a,b,c,d] ([p,q,r,0],24) \<longleftrightarrow> a = p \<and> b = q \<and> c = r" if "p < 256" "q < 256" "r < 256" for p q r
    using v4_number_div [OF assms] v4_number_div [of p q r 0] that assms pair_eq [of c r "256 * a + b" "256 * p + q"]
      pair_eq [of b q a p] by (simp add: in_block_def)
  have n: "v4_number [172, 16, 0, 0] div 2 ^ 20 = 2753" "v4_number [100, 64, 0, 0] div 2 ^ 22 = 401"
    "v4_number [198, 18, 0, 0] div 2 ^ 17 = 25353" by (simp_all add: v4_number_def)
  have i: "in_block os ([172,16,0,0],12) \<longleftrightarrow> v4_number os div 2 ^ 20 = v4_number [172, 16, 0, 0] div 2 ^ 20"
    "in_block os ([100,64,0,0],10) \<longleftrightarrow> v4_number os div 2 ^ 22 = v4_number [100, 64, 0, 0] div 2 ^ 22"
    "in_block os ([198,18,0,0],15) \<longleftrightarrow> v4_number os div 2 ^ 17 = v4_number [198, 18, 0, 0] div 2 ^ 17"
    for os by (simp_all add: in_block_def)
  have 4: "in_block [a,b,c,d] ([172,16,0,0],12) \<longleftrightarrow> a = 172 \<and> 16 \<le> b \<and> b \<le> 31"
    "in_block [a,b,c,d] ([100,64,0,0],10) \<longleftrightarrow> a = 100 \<and> 64 \<le> b \<and> b \<le> 127"
    "in_block [a,b,c,d] ([198,18,0,0],15) \<longleftrightarrow> a = 198 \<and> (b = 18 \<or> b = 19)"
    by (simp_all only: i n v4_number_div_more [of "[a, b, c, d]"] v4_number_div [OF assms] pair_div [OF assms(2)])
  have 5: "in_block [a,b,c,d] ([224,0,0,0],4) \<longleftrightarrow> 224 \<le> a \<and> a \<le> 239"
     "in_block [a,b,c,d] ([240,0,0,0],4) \<longleftrightarrow> 240 \<le> a"
    using v4_number_div [OF assms] assms(1)
    by (auto simp: in_block_def v4_number_div_more div_eq_between) (auto simp: v4_number_def)
  show ?thesis
    using assms(1) unfolding RESERVED_V4_def
    by (simp add: 1 2 3 4 5 isPrivateIpv4_def opt_nth_def Let_def oct_between_def oct_ge_def) auto
qed

subsection \<open>Spellings of addresses\<close>

text \<open>
  The texts that denote an address, defined without the parsers of the code.  An IPv4 address is four decimal numbers of
  one to three digits with dots between them.  A group of an IPv6 address is one to four hexadecimal digits of either
  case; the address is eight groups with colons between them, or fewer with one \<open>::\<close> for the missing zeros, and its last
  two groups may be written as an IPv4 address.
\<close>

definition octet_text :: "string \<Rightarrow> nat \<Rightarrow> bool" where
  "octet_text t n \<longleftrightarrow> t \<noteq> [] \<and> length t \<le> 3 \<and> list_all is_digit t \<and> dec_to_nat t = n \<and> n < 256"

definition v4_written :: "string \<Rightarrow> nat list \<Rightarrow> bool" where
  "v4_written s os \<longleftrightarrow> (\<exists>ds. s = join ''.'' ds \<and> length ds = 4 \<and> list_all2 octet_text ds os)"

definition group_text :: "string \<Rightarrow> nat \<Rightarrow> bool" where
  "group_text t n \<longleftrightarrow> length t \<le> 4 \<and> radix_to_nat 16 t = Some n"

definition v4_groups :: "nat list \<Rightarrow> nat list" where
  "v4_groups os = [256 * os ! 0 + os ! 1, 256 * os ! 2 + os ! 3]"

text \<open>Groups that are followed by more text, each with its colon.\<close>

definition with_colons :: "string list \<Rightarrow> string" where
  "with_colons ts = concat (map (\<lambda>t. t @ '':'') ts)"

inductive v6_written :: "string \<Rightarrow> nat list \<Rightarrow> bool" where
  v6_full: "list_all2 group_text ts xs \<Longrightarrow> length ts = 8 \<Longrightarrow> v6_written (join '':'' ts) xs"
| v6_compressed: "list_all2 group_text ts xs \<Longrightarrow> list_all2 group_text us ys \<Longrightarrow> length ts + length us \<le> 7 \<Longrightarrow>
    v6_written (join '':'' ts @ ''::'' @ join '':'' us) (xs @ replicate (8 - length ts - length us) 0 @ ys)"
| v6_full_dotted: "list_all2 group_text ts xs \<Longrightarrow> length ts = 6 \<Longrightarrow> v4_written d os \<Longrightarrow>
    v6_written (with_colons ts @ d) (xs @ v4_groups os)"
| v6_compressed_dotted: "list_all2 group_text ts xs \<Longrightarrow> list_all2 group_text us ys \<Longrightarrow> length ts + length us \<le> 5 \<Longrightarrow>
    v4_written d os \<Longrightarrow>
    v6_written (join '':'' ts @ ''::'' @ with_colons us @ d) (xs @ replicate (6 - length ts - length us) 0 @ ys @ v4_groups os)"

text \<open>A host or a DNS answer that is a literal: a dotted address may end in a dot, a coloned one may be in brackets.\<close>

definition v4_literal :: "string \<Rightarrow> nat list \<Rightarrow> bool" where
  "v4_literal s os \<longleftrightarrow> (\<exists>w. v4_written w os \<and> (s = w \<or> s = w @ ''.''))"

definition v6_literal :: "string \<Rightarrow> nat list \<Rightarrow> bool" where
  "v6_literal s xs \<longleftrightarrow> (\<exists>w. v6_written w xs \<and> (s = w \<or> s = ''['' @ w @ '']''))"

text \<open>
  The blocks of IPv6 addresses that carry an IPv4 address: IPv4-compatible, IPv4-mapped, SIIT and NAT64 in the last two
  groups, 6to4 in the second and third.
\<close>

definition carries :: "nat list \<Rightarrow> nat list \<Rightarrow> bool" where
  "carries xs os \<longleftrightarrow> is_v4 os \<and> length xs = 8 \<and>
     (take 6 xs \<in> {[0, 0, 0, 0, 0, 0], [0, 0, 0, 0, 0, 0xffff], [0, 0, 0, 0, 0xffff, 0], [0x64, 0xff9b, 0, 0, 0, 0]} \<and>
        drop 6 xs = v4_groups os \<or>
      hd xs = 0x2002 \<and> take 2 (drop 1 xs) = v4_groups os)"

text \<open>The reserved blocks of IPv6 named in the comments, as network and prefix length.\<close>

definition RESERVED_V6 :: "(nat list \<times> nat) list" where
  "RESERVED_V6 = [([0, 0, 0, 0, 0, 0, 0, 0], 128), ([0, 0, 0, 0, 0, 0, 0, 1], 128), ([0x64, 0xff9b, 1, 0, 0, 0, 0, 0], 48),
     ([0x2001, 0, 0, 0, 0, 0, 0, 0], 32), ([0x2001, 0xdb8, 0, 0, 0, 0, 0, 0], 32), ([0x100, 0, 0, 0, 0, 0, 0, 0], 64),
     ([0xfc00, 0, 0, 0, 0, 0, 0, 0], 7), ([0xfe80, 0, 0, 0, 0, 0, 0, 0], 10), ([0xfec0, 0, 0, 0, 0, 0, 0, 0], 10),
     ([0xff00, 0, 0, 0, 0, 0, 0, 0], 8)]"

definition v6_number :: "nat list \<Rightarrow> nat" where
  "v6_number xs = foldl (\<lambda>n x. 65536 * n + x) 0 xs"

definition in_block6 :: "nat list \<Rightarrow> nat list \<times> nat \<Rightarrow> bool" where
  "in_block6 xs blk \<longleftrightarrow> v6_number xs div 2 ^ (128 - snd blk) = v6_number (fst blk) div 2 ^ (128 - snd blk)"

subsection \<open>Reading an IPv4 address\<close>

lemma octet_test: "test IPV4_OCTET_RE s \<longleftrightarrow> s \<noteq> [] \<and> length s \<le> 3 \<and> list_all is_digit s"
  using test_between [of 2 is_digit s] by (simp add: IPV4_OCTET_RE_def digit_def numeral_3_eq_3)

lemma hextet_test: "test HEXTET_RE s \<longleftrightarrow> s \<noteq> [] \<and> length s \<le> 4 \<and> list_all is_hex_char s"
  using test_between [of 3 is_hex_char s] by (simp add: HEXTET_RE_def eval_nat_numeral)

lemma parse_octet_text: "octet_text t n \<Longrightarrow> parse_octet t = Some n"
  by (simp add: octet_text_def parse_octet_def octet_test)

lemma parse_octets_text: "list_all2 octet_text ds os \<Longrightarrow> parse_octets ds = Some os"
  by (induction rule: list_all2_induct) (simp_all add: parse_octet_text)

lemma octet_text_chars: "octet_text t n \<Longrightarrow> t \<noteq> [] \<and> list_all is_digit t \<and> n < 256"
  by (simp add: octet_text_def)

definition v6_char :: "char \<Rightarrow> bool" where
  "v6_char c \<longleftrightarrow> is_hex_char c \<or> c = CHR '':'' \<or> c = CHR ''.''"

lemma hex_not: "is_hex_char c \<Longrightarrow> c \<noteq> CHR '':'' \<and> c \<noteq> CHR ''.'' \<and> lower_char c = c \<and> v6_char c"
  by (auto simp: is_hex_char_def is_digit_def v6_char_def lower_char_def code_unit_def Let_def)

lemma digit_not: "is_digit c \<Longrightarrow> is_hex_char c \<and> c \<noteq> CHR '':'' \<and> c \<noteq> CHR ''.'' \<and> v6_char c"
  by (auto simp: is_hex_char_def is_digit_def v6_char_def code_unit_def)

lemma list_all_join: "\<forall>x \<in> set xss. list_all P x \<Longrightarrow> list_all P sep \<Longrightarrow> list_all P (join sep xss)"
  by (induction sep xss rule: join.induct) auto

lemma list_all2_texts: "list_all2 R ts xs \<Longrightarrow> t \<in> set ts \<Longrightarrow> \<exists>n. R t n"
  by (auto simp: list_all2_conv_all_nth in_set_conv_nth)

lemma list_all2_values: "list_all2 R ts xs \<Longrightarrow> x \<in> set xs \<Longrightarrow> \<exists>t. R t x"
  by (auto simp: list_all2_conv_all_nth in_set_conv_nth)

lemma v4_written_props:
  assumes "v4_written s os"
  shows "parseIpv4 s = Some os" and "is_v4 os" and "s \<noteq> []" and "last s \<noteq> CHR ''.''"
    and "list_all v6_char s" and "CHR '':'' \<notin> set s" and "CHR ''.'' \<in> set s"
proof -
  obtain ds where ds: "s = join ''.'' ds" "length ds = 4" "list_all2 octet_text ds os"
    using assms by (auto simp: v4_written_def)
  have t: "t \<noteq> [] \<and> list_all is_digit t" if "t \<in> set ds" for t
    using list_all2_texts [OF ds(3) that] octet_text_chars by blast
  have "\<forall>t \<in> set ds. CHR ''.'' \<notin> set t" using t digit_not by (auto simp: list_all_iff)
  then have "split_on CHR ''.'' s = ds" unfolding ds(1) using ds(2) by (intro split_on_join) auto
  then show "parseIpv4 s = Some os" using ds parse_octets_text by (simp add: parseIpv4_def)
  show "is_v4 os" using ds(2) list_all2_lengthD [OF ds(3)] list_all2_values [OF ds(3)] octet_text_chars
    by (auto simp: is_v4_def)
  obtain a b c d where abcd: "ds = [a, b, c, d]"
    using ds(2) by (auto simp: length_Suc_conv eval_nat_numeral)
  have ch: "list_all v6_char t" "CHR '':'' \<notin> set t" if "t \<in> set ds" for t
    using t [OF that] digit_not by (auto simp: list_all_iff)
  show "s \<noteq> []" "CHR ''.'' \<in> set s" by (simp_all add: ds(1) abcd)
  have "last d \<noteq> CHR ''.''" "d \<noteq> []" using t [of d] digit_not by (auto simp: abcd list_all_iff)
  then show "last s \<noteq> CHR ''.''" by (simp add: ds(1) abcd)
  show "list_all v6_char s" "CHR '':'' \<notin> set s" using ch by (simp_all add: ds(1) abcd v6_char_def)
qed

subsection \<open>Reading an IPv6 address\<close>

text \<open>A group in lower case.\<close>

definition hex_group :: "string \<Rightarrow> nat \<Rightarrow> bool" where
  "hex_group t n \<longleftrightarrow> list_all is_hex_char t \<and> group_text t n"

lemma radix_lower: "radix_digit c < 16 \<Longrightarrow> is_hex_char (lower_char c) \<and> radix_digit (lower_char c) = radix_digit c"
proof -
  assume c: "radix_digit c < 16"
  have low: "code_unit (lower_char c) = (if 65 \<le> code_unit c \<and> code_unit c \<le> 90 then code_unit c + 32 else code_unit c)"
    if "code_unit c < 128" using that by (simp add: lower_char_def Let_def)
  have "code_unit c < 128" using c
    by (auto simp: radix_digit_def is_digit_def is_lower_def is_upper_def split: if_splits)
  with c low show ?thesis
    by (auto simp: radix_digit_def is_hex_char_def is_digit_def is_lower_def is_upper_def digit_val_def split: if_splits)
qed

lemma group_lower: "group_text t n \<Longrightarrow> hex_group (js_lower t) n"
proof -
  have "list_all (\<lambda>c. radix_digit c < 16) t \<Longrightarrow> foldl (\<lambda>n c. 16 * n + radix_digit c) k (js_lower t) = foldl (\<lambda>n c. 16 * n + radix_digit c) k t" for k
    by (induction t arbitrary: k) (simp_all add: js_lower_def radix_lower)
  moreover assume "group_text t n"
  ultimately show ?thesis
    by (auto simp: hex_group_def group_text_def radix_to_nat_def list_all_iff js_lower_def radix_lower split: if_splits)
qed

lemma groups_lower: "list_all2 group_text ts xs \<Longrightarrow> list_all2 hex_group (map js_lower ts) xs"
  by (induction rule: list_all2_induct) (simp_all add: group_lower)

lemma js_lower_join: "js_lower (join sep ts) = join (js_lower sep) (map js_lower ts)"
  by (induction sep ts rule: join.induct) (simp_all add: js_lower_def)

lemma lower_v6 [simp]: "v6_char c \<Longrightarrow> lower_char c = c"
  using hex_not [of c] by (auto simp: v6_char_def lower_char_def code_unit_def)

lemma js_lower_plain: "list_all v6_char s \<Longrightarrow> js_lower s = s"
  by (simp add: js_lower_def list_all_iff map_idI)

lemma js_lower_list [simp]: "js_lower [] = []" "js_lower (c # s) = lower_char c # js_lower s"
  by (simp_all add: js_lower_def)

lemma lower_marks [simp]:
  "lower_char CHR '':'' = CHR '':''" "lower_char CHR ''['' = CHR ''[''" "lower_char CHR '']'' = CHR '']''"
  by (simp_all add: lower_char_def code_unit_def)

lemma hex_group_props:
  assumes "hex_group t n"
  shows "t \<noteq> []" and "CHR '':'' \<notin> set t" and "CHR ''.'' \<notin> set t" and "list_all v6_char t"
    and "test HEXTET_RE t" and "radix_to_nat 16 t = Some n"
  using assms hex_not
  by (auto simp: hex_group_def group_text_def hextet_test radix_to_nat_def list_all_iff split: if_splits)

lemma radix_bound:
  "list_all (\<lambda>c. radix_digit c < 16) t \<Longrightarrow> foldl (\<lambda>n c. 16 * n + radix_digit c) k t < (k + 1) * 16 ^ length t"
proof (induction t arbitrary: k)
  case (Cons c t)
  then have "foldl (\<lambda>n c. 16 * n + radix_digit c) (16 * k + radix_digit c) t < (16 * k + radix_digit c + 1) * 16 ^ length t" by simp
  also have "\<dots> \<le> (16 * (k + 1)) * 16 ^ length t" using Cons.prems by (intro mult_right_mono) auto
  finally show ?case by (simp add: algebra_simps)
qed simp

lemma group_text_bound: "group_text t n \<Longrightarrow> n < 65536"
proof -
  assume g: "group_text t n"
  then have "n < 16 ^ length t" using radix_bound [of t 0]
    by (auto simp: group_text_def radix_to_nat_def split: if_splits)
  also have "(16::nat) ^ length t \<le> 16 ^ 4" using g by (intro power_increasing) (auto simp: group_text_def)
  finally show ?thesis by simp
qed

lemma parse_hextets_groups: "list_all2 hex_group ts xs \<Longrightarrow> parse_hextets ts = Some xs"
  by (induction rule: list_all2_induct) (simp_all add: hex_group_props)

lemma join_ne: "ts \<noteq> [] \<Longrightarrow> \<forall>t \<in> set ts. t \<noteq> [] \<Longrightarrow> join sep ts \<noteq> []"
  by (cases ts; cases "tl ts") auto

lemma groups_texts:
  assumes "list_all2 hex_group ts xs" and "t \<in> set ts"
  shows "t \<noteq> []" and "CHR '':'' \<notin> set t" and "CHR ''.'' \<notin> set t" and "list_all v6_char t"
  using list_all2_texts [OF assms] hex_group_props by blast+

lemma parseSide_groups:
  assumes "list_all2 hex_group ts xs"
  shows "parseSide (join '':'' ts) = Some xs"
proof (cases "ts = []")
  case True
  then show ?thesis using assms by (simp add: parseSide_def)
next
  case False
  have "split_on CHR '':'' (join '':'' ts) = ts" using False groups_texts(2) [OF assms] by (intro split_on_join) auto
  moreover have "join '':'' ts \<noteq> []" using False groups_texts(1) [OF assms] by (intro join_ne) auto
  ultimately show ?thesis using parse_hextets_groups [OF assms] by (simp add: parseSide_def)
qed

fun single_colons :: "string \<Rightarrow> bool" where
  "single_colons [] = True"
| "single_colons [c] = (c \<noteq> CHR '':'')"
| "single_colons (c # d # s) = (\<not> (c = CHR '':'' \<and> d = CHR '':'') \<and> single_colons (d # s))"

lemma split_str_colons:
  "single_colons x \<Longrightarrow> split_str ''::'' (x @ ''::'' @ y) = x # split_str ''::'' y"
  by (induction x rule: single_colons.induct) (auto simp: js_starts_with_def)

lemma split_str_none: "single_colons x \<Longrightarrow> split_str ''::'' x = [x]"
  by (induction x rule: single_colons.induct) (auto simp: js_starts_with_def)

lemma single_colons_append:
  "t \<noteq> [] \<Longrightarrow> CHR '':'' \<notin> set t \<Longrightarrow> s \<noteq> [] \<Longrightarrow> hd s \<noteq> CHR '':'' \<Longrightarrow> single_colons s \<Longrightarrow>
     single_colons (t @ CHR '':'' # s)"
proof (induction t)
  case (Cons c t)
  then show ?case by (cases t; cases s) auto
qed simp

lemma single_colons_none: "CHR '':'' \<notin> set t \<Longrightarrow> single_colons t"
  by (induction t rule: single_colons.induct) auto

lemma single_colons_join:
  "\<forall>t \<in> set ts. t \<noteq> [] \<and> CHR '':'' \<notin> set t \<Longrightarrow> single_colons (join '':'' ts)"
proof (induction ts)
  case (Cons x ts)
  show ?case
  proof (cases ts)
    case Nil
    then show ?thesis using Cons.prems by (simp add: single_colons_none)
  next
    case (Cons y ys)
    have "hd (join '':'' ts) = hd y" using Cons.prems Cons by (cases ys) auto
    moreover have "hd y \<noteq> CHR '':''" using Cons.prems Cons by (metis hd_in_set list.set_intros(1) list.set_intros(2))
    moreover have "join '':'' ts \<noteq> []" using Cons.prems Cons by (intro join_ne) auto
    ultimately have "single_colons (x @ CHR '':'' # join '':'' ts)"
      using Cons.IH Cons.prems by (intro single_colons_append) auto
    then show ?thesis using Cons by simp
  qed
qed simp

lemma join_trailing: "vs \<noteq> [] \<Longrightarrow> with_colons us @ join '':'' vs = join '':'' (us @ vs)"
proof (induction us)
  case (Cons u us)
  then obtain y ys where "us @ vs = y # ys" by (cases "us @ vs") auto
  with Cons show ?case by (simp add: with_colons_def)
qed (simp add: with_colons_def)

text \<open>Splitting at \<open>::\<close> and joining the halves.\<close>

lemma halves_full:
  assumes "list_all2 hex_group ts xs" and "length ts = 8"
  shows "split_str ''::'' (join '':'' ts) = [join '':'' ts]" and "join_halves [join '':'' ts] = Some xs"
  using assms groups_texts [OF assms(1)]
  by (simp_all add: split_str_none single_colons_join join_halves_def parseSide_groups)

lemma halves_compressed:
  assumes "list_all2 hex_group ts xs" and "list_all2 hex_group us ys" and "length ts + length us \<le> 7"
  shows "split_str ''::'' (join '':'' ts @ ''::'' @ join '':'' us) = [join '':'' ts, join '':'' us]"
    and "join_halves [join '':'' ts, join '':'' us] = Some (xs @ replicate (8 - length ts - length us) 0 @ ys)"
proof -
  have sc: "single_colons (join '':'' ts)" "single_colons (join '':'' us)"
    using groups_texts(1,2) [OF assms(1)] groups_texts(1,2) [OF assms(2)] by (simp_all add: single_colons_join)
  then show "split_str ''::'' (join '':'' ts @ ''::'' @ join '':'' us) = [join '':'' ts, join '':'' us]"
    by (simp only: split_str_colons split_str_none)
  have len: "length xs = length ts" "length ys = length us" using assms(1,2) by (simp_all add: list_all2_lengthD)
  then have "nat (8 - int (length xs) - int (length ys)) = 8 - length ts - length us" by simp
  then show "join_halves [join '':'' ts, join '':'' us] = Some (xs @ replicate (8 - length ts - length us) 0 @ ys)"
    using assms(3) len by (simp add: join_halves_def parseSide_groups [OF assms(1)] parseSide_groups [OF assms(2)] Let_def)
qed

lemma v6_not: "v6_char c \<Longrightarrow> c \<noteq> CHR ''['' \<and> c \<noteq> CHR '']'' \<and> c \<noteq> CHR ''%''"
  by (auto simp: is_hex_char_def is_digit_def v6_char_def code_unit_def)

lemma strip_v6_plain:
  assumes "list_all v6_char s" and "s \<noteq> []" and "last s \<noteq> CHR ''.''"
  shows "strip_v6 s = s" and "strip_v6 (''['' @ s @ '']'') = s"
proof -
  have low: "js_lower s = s" by (rule js_lower_plain [OF assms(1)])
  have "CHR ''%'' \<notin> set s" using assms(1) v6_not by (fastforce simp: list_all_iff)
  then have "takeWhile (\<lambda>x. x \<noteq> CHR ''%'') s = s" by (auto simp: takeWhile_eq_all_conv)
  then have z: "index_of_char CHR ''%'' s = None" by (simp only: index_of_char_def Let_def less_irrefl if_False)
  have "\<not> js_starts_with s ''[''"
    using assms(1,2) v6_not by (cases s) (auto simp: js_starts_with_def)
  with low z assms(3) show "strip_v6 s = s" by (simp add: strip_v6_def normalizeHostname_def Let_def)
  have "js_lower (''['' @ s @ '']'') = ''['' @ s @ '']''" using low by (simp add: js_lower_def lower_char_def code_unit_def)
  moreover have "js_ends_with (''['' @ s @ '']'') '']''" "js_starts_with (''['' @ s @ '']'') ''[''"
    by (simp_all add: js_ends_with_def js_starts_with_def)
  moreover have "slice (''['' @ s @ '']'') 1 (length (''['' @ s @ '']'') - 1) = s" by (simp add: slice_def)
  ultimately show "strip_v6 (''['' @ s @ '']'') = s"
    using z by (simp add: strip_v6_def normalizeHostname_def Let_def)
qed

lemma js_includes_char: "js_includes s [c] \<longleftrightarrow> c \<in> set s"
  by (induction s) (auto simp: js_starts_with_def)

lemma v4_tail_none: "CHR ''.'' \<notin> set h \<Longrightarrow> v4_tail h = Some ([], h)"
  by (auto simp: v4_tail_def js_includes_char Let_def split: option.split dest: in_set_dropD)

lemma last_index_of_char: "c \<notin> set q \<Longrightarrow> last_index_of_char c (p @ c # q) = Some (length p)"
  by (simp add: last_index_of_char_def index_of_char_def takeWhile_append Let_def)

lemma embedded_octets:
  assumes "is_v4 [a, b, c, d]"
  shows "embeddedIpv4 (push_bit 8 a OR b) (push_bit 8 c OR d) = [a, b, c, d]"
    and "push_bit 8 a OR b = 256 * a + b" and "push_bit 8 c OR d = 256 * c + d"
proof -
  have "push_bit 8 x OR y = 256 * x + y" "drop_bit 8 (256 * x + y) = x" "(256 * x + y) AND 0xff = y"
    if "y < 256" for x y :: nat
  proof -
    have y: "take_bit 8 y = y" using that by (simp add: take_bit_nat_eq_self_iff)
    have "push_bit 8 x AND take_bit 8 y = 0" by (intro bit_eqI) (auto simp: bit_simps)
    with y have "push_bit 8 x OR y = push_bit 8 x + y" by (simp add: disjunctive_add_eq_or)
    then show "push_bit 8 x OR y = 256 * x + y" by (simp add: push_bit_eq_mult)
    show "drop_bit 8 (256 * x + y) = x" using that by (simp add: drop_bit_eq_div)
    have "(256 * x + y) AND mask 8 = (256 * x + y) mod 256"
      by (simp flip: take_bit_eq_mask add: take_bit_eq_mod)
    then show "(256 * x + y) AND 0xff = y" using that by (simp add: mask_eq_exp_minus_1)
  qed
  with assms show "embeddedIpv4 (push_bit 8 a OR b) (push_bit 8 c OR d) = [a, b, c, d]"
    "push_bit 8 a OR b = 256 * a + b" "push_bit 8 c OR d = 256 * c + d"
    by (simp_all add: is_v4_def embeddedIpv4_def)
qed

lemma is_v4_cases:
  assumes "is_v4 os"
  obtains a b c d where "os = [a, b, c, d]" "is_v4 [a, b, c, d]"
  using assms by (auto simp: is_v4_def length_Suc_conv eval_nat_numeral)

lemma v4_groups_embedded:
  assumes "is_v4 os"
  shows "embeddedIpv4 (v4_groups os ! 0) (v4_groups os ! 1) = os"
  using embedded_octets by (rule_tac is_v4_cases [OF assms]) (simp add: v4_groups_def)

text \<open>A text without a dotted tail, and one with.\<close>

lemma parse_groups:
  assumes "strip_v6 s = w" and "CHR '':'' \<in> set w" and "CHR ''.'' \<notin> set w"
    and "split_str ''::'' w = halves" and "length halves \<le> 2" and "join_halves halves = Some xs" and "length xs = 8"
  shows "parseIpv6 s = Some xs"
  using assms v4_tail_none [OF assms(3)] by (simp add: parseIpv6_def js_includes_char)

lemma parse_dotted:
  assumes "strip_v6 s = p @ '':'' @ d" and "v4_written d os"
    and "split_str ''::'' (p @ '':0:0'') = halves" and "length halves \<le> 2"
    and "join_halves halves = Some (xs @ [0, 0])" and "length xs = 6"
  shows "parseIpv6 s = Some (xs @ v4_groups os)"
proof -
  note d = v4_written_props [OF assms(2)]
  obtain a b c e where os: "os = [a, b, c, e]" "is_v4 [a, b, c, e]" by (rule is_v4_cases [OF d(2)])
  have "last_index_of_char CHR '':'' (p @ '':'' @ d) = Some (length p)" using last_index_of_char [OF d(6)] by simp
  then have "v4_tail (p @ '':'' @ d) = Some (v4_groups os, p @ '':0:0'')"
    using d(1,7) embedded_octets(2,3) [OF os(2)] by (simp add: v4_tail_def js_includes_char os(1) v4_groups_def)
  then show ?thesis
    using assms(1,3-6) by (simp add: parseIpv6_def js_includes_char v4_groups_def del: append_Cons)
qed

text \<open>Every spelling is read as the address it denotes, bare or in brackets.\<close>

lemma zero_groups: "list_all2 hex_group [''0'', ''0''] [0, 0]"
  by (simp add: hex_group_def group_text_def radix_to_nat_def radix_digit_def digit_val_def is_hex_char_def is_digit_def code_unit_def)

lemma with_colons_lower: "js_lower (with_colons ts) = with_colons (map js_lower ts)"
  by (induction ts) (simp_all add: with_colons_def js_lower_def lower_char_def code_unit_def)

lemma groups_chars:
  assumes "list_all2 hex_group ts xs"
  shows "list_all v6_char (join '':'' ts)" and "list_all v6_char (with_colons ts)"
    and "CHR ''.'' \<notin> set (join '':'' ts)"
proof -
  show "list_all v6_char (join '':'' ts)" using groups_texts(4) [OF assms] by (intro list_all_join) (auto simp: v6_char_def)
  show "list_all v6_char (with_colons ts)"
    using groups_texts(4) [OF assms] by (auto simp: with_colons_def list_all_iff v6_char_def)
  have "list_all (\<lambda>c. c \<noteq> CHR ''.'') (join '':'' ts)"
    using groups_texts(3) [OF assms] by (intro list_all_join) (auto simp: list_all_iff)
  then show "CHR ''.'' \<notin> set (join '':'' ts)" by (auto simp: list_all_iff)
qed

lemma v6_written_read:
  assumes "v6_written w xs"
  shows "list_all v6_char (js_lower w) \<and> CHR '':'' \<in> set (js_lower w) \<and> last (js_lower w) \<noteq> CHR ''.'' \<and> length xs = 8 \<and>
    (\<forall>s. strip_v6 s = js_lower w \<longrightarrow> parseIpv6 s = Some xs)"
  using assms
proof cases
  case (v6_full ts)
  let ?ts = "map js_lower ts"
  note g = groups_lower [OF v6_full(2)]
  have w: "js_lower w = join '':'' ?ts" using v6_full by (simp add: js_lower_join)
  have len: "length xs = 8" using v6_full list_all2_lengthD by metis
  have colon: "CHR '':'' \<in> set (join '':'' ?ts)" using v6_full(3) by (auto simp: length_Suc_conv eval_nat_numeral)
  then have "last (join '':'' ?ts) \<noteq> CHR ''.''" using groups_chars(3) [OF g] by (metis empty_iff empty_set last_in_set)
  with w len colon groups_chars [OF g] halves_full [OF g] v6_full(3) show ?thesis
    by (auto intro!: parse_groups [where w = "join '':'' ?ts"])
next
  case (v6_compressed ts xs' us ys)
  let ?ts = "map js_lower ts" and ?us = "map js_lower us"
  note g = groups_lower [OF v6_compressed(3)] groups_lower [OF v6_compressed(4)]
  have w: "js_lower w = join '':'' ?ts @ ''::'' @ join '':'' ?us"
    using v6_compressed by (simp add: js_lower_join)
  have len: "length xs = 8" using v6_compressed by (simp add: list_all2_lengthD [of _ ts] list_all2_lengthD [of _ us])
  have dot: "CHR ''.'' \<notin> set (js_lower w)" using groups_chars(3) [OF g(1)] groups_chars(3) [OF g(2)] by (simp add: w)
  then have "last (js_lower w) \<noteq> CHR ''.''" using w by (metis append_is_Nil_conv last_in_set list.distinct(1))
  moreover have "list_all v6_char (js_lower w)" using groups_chars(1) [OF g(1)] groups_chars(1) [OF g(2)] by (simp add: w v6_char_def)
  moreover have "parseIpv6 s = Some xs" if "strip_v6 s = js_lower w" for s
    using halves_compressed [OF g] v6_compressed(2,5) len w dot that
    by (intro parse_groups [where w = "js_lower w" and halves = "[join '':'' ?ts, join '':'' ?us]"]) simp_all
  ultimately show ?thesis using len by (simp add: w)
next
  case (v6_full_dotted ts xs' d os)
  let ?ts = "map js_lower ts"
  note g = groups_lower [OF v6_full_dotted(3)] and d = v4_written_props [OF v6_full_dotted(5)]
  have len: "length xs' = 6" using v6_full_dotted(3,4) by (simp add: list_all2_lengthD)
  have w: "js_lower w = with_colons ?ts @ d"
    using v6_full_dotted d js_lower_plain by (simp add: with_colons_lower)
  obtain us t where ts: "?ts = us @ [t]" using v6_full_dotted(4) by (cases ?ts rule: rev_cases) auto
  let ?p = "with_colons us @ t"
  have wp: "js_lower w = ?p @ '':'' @ d" by (simp add: w ts with_colons_def)
  have g8: "list_all2 hex_group (?ts @ [''0'', ''0'']) (xs' @ [0, 0])"
    using g zero_groups by (rule list_all2_appendI)
  have p: "?p @ '':0:0'' = join '':'' (?ts @ [''0'', ''0''])"
    using join_trailing [of "[''0'', ''0'']" ?ts] by (simp add: ts with_colons_def)
  have "parseIpv6 s = Some xs" if s: "strip_v6 s = js_lower w" for s
  proof -
    have "parseIpv6 s = Some (xs' @ v4_groups os)"
      by (rule parse_dotted [OF s [unfolded wp] v6_full_dotted(5)])
        (use p halves_full [OF g8] v6_full_dotted(4) len in simp_all)
    then show ?thesis using v6_full_dotted(2) by simp
  qed
  then show ?thesis using d groups_chars(2) [OF g] len v6_full_dotted(2) wp
    by (simp add: w v4_groups_def)
next
  case (v6_compressed_dotted ts xs' us ys d os)
  let ?ts = "map js_lower ts" and ?us = "map js_lower us"
  note g = groups_lower [OF v6_compressed_dotted(3)] groups_lower [OF v6_compressed_dotted(4)]
    and d = v4_written_props [OF v6_compressed_dotted(6)]
  have len: "length xs' = length ts" "length ys = length us"
    using v6_compressed_dotted(3,4) by (simp_all add: list_all2_lengthD)
  have w: "js_lower w = join '':'' ?ts @ ''::'' @ with_colons ?us @ d"
    using v6_compressed_dotted d js_lower_plain
    by (simp add: with_colons_lower js_lower_join)
  obtain p where p: "join '':'' ?ts @ ''::'' @ with_colons ?us = p @ '':''"
  proof (cases ?us rule: rev_cases)
    case Nil
    then show thesis using that [of "join '':'' ?ts @ '':''"] by (simp add: with_colons_def)
  next
    case (snoc vs v)
    then show thesis using that [of "join '':'' ?ts @ ''::'' @ with_colons vs @ v"] by (simp add: with_colons_def)
  qed
  have wp: "js_lower w = p @ '':'' @ d" using w p by (metis append.assoc)
  have g2: "list_all2 hex_group (?us @ [''0'', ''0'']) (ys @ [0, 0])"
    using g(2) zero_groups by (rule list_all2_appendI)
  have "p @ '':0:0'' = (p @ '':'') @ ''0:0''" by simp
  also have "\<dots> = join '':'' ?ts @ ''::'' @ with_colons ?us @ join '':'' [''0'', ''0'']"
    using p by (metis append.assoc join.simps(2) join.simps(3) append_Cons append_Nil)
  also have "\<dots> = join '':'' ?ts @ ''::'' @ join '':'' (?us @ [''0'', ''0''])"
    using join_trailing [of "[''0'', ''0'']" ?us] by simp
  finally have ph: "p @ '':0:0'' = join '':'' ?ts @ ''::'' @ join '':'' (?us @ [''0'', ''0''])" .
  have le: "length ?ts + length (?us @ [''0'', ''0'']) \<le> 7" using v6_compressed_dotted(5) by simp
  have sp: "split_str ''::'' (p @ '':0:0'') = [join '':'' ?ts, join '':'' (?us @ [''0'', ''0''])]"
    unfolding ph by (rule halves_compressed(1) [OF g(1) g2 le])
  have "parseIpv6 s = Some xs" if s: "strip_v6 s = js_lower w" for s
  proof -
    have "parseIpv6 s = Some ((xs' @ replicate (6 - length ts - length us) 0 @ ys) @ v4_groups os)"
      by (rule parse_dotted [OF s [unfolded wp] v6_compressed_dotted(6) sp])
        (use halves_compressed(2) [OF g(1) g2 le] v6_compressed_dotted(5) len in simp_all)
    then show ?thesis using v6_compressed_dotted(2) by simp
  qed
  then show ?thesis using d groups_chars(1) [OF g(1)] groups_chars(2) [OF g(2)] len v6_compressed_dotted(2,5)
    by (simp add: w v6_char_def v4_groups_def)
qed

subsection \<open>Reserved and carrying addresses are private\<close>

lemma groups_bound: "list_all2 group_text ts xs \<Longrightarrow> \<forall>x \<in> set xs. x < 65536"
  using list_all2_values [of group_text ts xs] group_text_bound by blast

lemma v6_hextets: "v6_written w xs \<Longrightarrow> \<forall>x \<in> set xs. x < 65536"
proof (induction rule: v6_written.induct)
  case (v6_full ts xs)
  then show ?case using groups_bound by blast
next
  case (v6_compressed ts xs us ys)
  then show ?case
    using groups_bound [OF v6_compressed(1)] groups_bound [OF v6_compressed(2)] by auto
next
  case (v6_full_dotted ts xs d os)
  obtain a b c e where "os = [a, b, c, e]" "is_v4 [a, b, c, e]"
    by (rule is_v4_cases [OF v4_written_props(2) [OF v6_full_dotted(3)]])
  then show ?case using groups_bound [OF v6_full_dotted(1)]
    by (auto simp: v4_groups_def is_v4_def)
next
  case (v6_compressed_dotted ts xs us ys d os)
  obtain a b c e where "os = [a, b, c, e]" "is_v4 [a, b, c, e]"
    by (rule is_v4_cases [OF v4_written_props(2) [OF v6_compressed_dotted(4)]])
  then show ?case
    using groups_bound [OF v6_compressed_dotted(1)] groups_bound [OF v6_compressed_dotted(2)]
    by (auto simp: v4_groups_def is_v4_def)
qed

lemma eight_groups:
  assumes "length xs = (8::nat)"
  obtains a b c d e f g h where "xs = [a, b, c, d, e, f, g, h]"
  using assms by (auto simp: length_Suc_conv eval_nat_numeral)

lemma carries_private:
  assumes "carries xs os" and "isPrivateIpv4 os"
  shows "private_hextets xs"
proof -
  obtain a b c d e f g h where xs: "xs = [a, b, c, d, e, f, g, h]"
    using assms(1) by (auto simp: carries_def elim: eight_groups)
  have os: "is_v4 os" using assms(1) by (simp add: carries_def)
  have emb: "isPrivateIpv4 (embeddedIpv4 x y)" if "[x, y] = v4_groups os" for x y
    using v4_groups_embedded [OF os] assms(2) by (simp flip: that)
  consider "[a, b, c, d, e, f] \<in> {[0, 0, 0, 0, 0, 0], [0, 0, 0, 0, 0, 0xffff], [0, 0, 0, 0, 0xffff, 0], [0x64, 0xff9b, 0, 0, 0, 0]}"
      "[g, h] = v4_groups os"
    | "a = 0x2002" "[b, c] = v4_groups os"
    using assms(1) by (auto simp: carries_def xs)
  then show ?thesis
  proof cases
    case 1
    from 1(1) have "a = 0 \<and> b = 0 \<and> c = 0 \<and> d = 0 \<and> e = 0 \<and> f = 0 \<or> a = 0 \<and> b = 0 \<and> c = 0 \<and> d = 0 \<and> e = 0 \<and> f = 0xffff \<or>
        a = 0 \<and> b = 0 \<and> c = 0 \<and> d = 0 \<and> e = 0xffff \<and> f = 0 \<or> a = 0x64 \<and> b = 0xff9b \<and> c = 0 \<and> d = 0 \<and> e = 0 \<and> f = 0"
      by auto
    then show ?thesis using emb [OF 1(2)] by (elim disjE conjE) (simp_all add: xs private_hextets_def)
  next
    case 2
    then show ?thesis using emb [OF 2(2)] by (simp add: xs private_hextets_def)
  qed
qed

lemma v6_number_div:
  "\<forall>y \<in> set ys. y < 65536 \<Longrightarrow> v6_number (xs @ ys) div 2 ^ (16 * length ys) = v6_number xs"
proof (induction ys rule: rev_induct)
  case (snoc y ys)
  have "v6_number (xs @ ys @ [y]) = 65536 * v6_number (xs @ ys) + y" by (simp add: v6_number_def)
  moreover have "2 ^ (16 * length (ys @ [y])) = (65536 * 2 ^ (16 * length ys) :: nat)" by (simp add: power_add)
  ultimately have "v6_number (xs @ ys @ [y]) div 2 ^ (16 * length (ys @ [y])) =
      (65536 * v6_number (xs @ ys) + y) div 65536 div 2 ^ (16 * length ys)"
    by (simp only: div_mult2_eq)
  also have "(65536 * v6_number (xs @ ys) + y) div 65536 = v6_number (xs @ ys)" using snoc.prems by simp
  finally show ?case using snoc by simp
qed simp

lemma v6_number_inject:
  "length xs = length ys \<Longrightarrow> \<forall>x \<in> set xs \<union> set ys. x < 65536 \<Longrightarrow> v6_number xs = v6_number ys \<Longrightarrow> xs = ys"
proof (induction xs arbitrary: ys rule: rev_induct)
  case (snoc x xs)
  then obtain z zs where ys: "ys = zs @ [z]" by (cases ys rule: rev_cases) auto
  have e: "65536 * v6_number xs + x = 65536 * v6_number zs + z" using snoc.prems(3) by (simp add: ys v6_number_def)
  have b: "x < 65536" "z < 65536" using snoc.prems(2) by (simp_all add: ys)
  have "(65536 * v6_number xs + x) div 65536 = v6_number xs" "(65536 * v6_number zs + z) div 65536 = v6_number zs"
    using b by simp_all
  with e have "v6_number xs = v6_number zs" by simp
  with e snoc ys show ?case by simp
qed simp

lemma in_block6_groups:
  assumes "length xs = 8" "length ys = 8" "\<forall>x \<in> set xs \<union> set ys. x < 65536" "k \<le> 8" "in_block6 xs (ys, 16 * k)"
  shows "take k xs = take k ys"
proof (rule v6_number_inject)
  have "v6_number zs div 2 ^ (128 - 16 * k) = v6_number (take k zs)"
    if "length zs = 8" "\<forall>x \<in> set zs. x < 65536" for zs
    using v6_number_div [of "drop k zs" "take k zs"] that assms(4) by (simp add: diff_mult_distrib2 in_set_dropD)
  then show "v6_number (take k xs) = v6_number (take k ys)" using assms by (simp add: in_block6_def)
qed (use assms in \<open>auto dest: in_set_takeD\<close>)

lemma in_block6_head:
  assumes "length xs = 8" "length ys = 8" "\<forall>x \<in> set xs \<union> set ys. x < 65536" "b \<le> 16" "in_block6 xs (ys, b)"
  shows "hd xs div 2 ^ (16 - b) = hd ys div 2 ^ (16 - b)"
proof -
  have "v6_number zs div 2 ^ (128 - b) = hd zs div 2 ^ (16 - b)"
    if "length zs = 8" "\<forall>x \<in> set zs. x < 65536" for zs
  proof -
    obtain z zs' where zs: "zs = [z] @ zs'" "length zs' = 7" using \<open>length zs = 8\<close> by (cases zs) auto
    have "v6_number zs div 2 ^ 112 = z" using v6_number_div [of zs' "[z]"] that(2) zs by (simp add: v6_number_def)
    moreover have "128 - b = 112 + (16 - b)" using assms(4) by simp
    then have "2 ^ (128 - b) = (2 ^ 112 * 2 ^ (16 - b) :: nat)" by (simp only: power_add)
    ultimately show ?thesis by (simp add: zs(1) div_mult2_eq)
  qed
  then show ?thesis using assms by (simp add: in_block6_def)
qed

lemma and_high: "x AND push_bit k (mask m) = push_bit k (take_bit m (drop_bit k x))" for x :: nat
  by (intro bit_eqI) (auto simp: bit_simps)

lemma mask_tests:
  assumes "x < (65536 :: nat)"
  shows "x AND 0xfe00 = 512 * (x div 512)" and "x AND 0xffc0 = 64 * (x div 64)" and "x AND 0xff00 = 256 * (x div 256)"
  using and_high [of x 9 7] and_high [of x 6 10] and_high [of x 8 8] assms
  by (simp_all add: push_bit_eq_mult drop_bit_eq_div take_bit_eq_mod mask_eq_exp_minus_1 div_less_iff_less_mult)

lemma reserved6_private:
  assumes "length xs = 8" and "\<forall>x \<in> set xs. x < 65536" and "list_ex (in_block6 xs) RESERVED_V6"
  shows "private_hextets xs"
proof -
  obtain a b c d e f g h where xs: "xs = [a, b, c, d, e, f, g, h]" using assms(1) by (rule eight_groups)
  have a: "a < 65536" using assms(2) xs by simp
  have grp: "take k xs = take k ys" if "in_block6 xs (ys, 16 * k)" "length ys = 8" "\<forall>y \<in> set ys. y < 65536" "k \<le> 8" for ys k
    using in_block6_groups [OF assms(1) that(2) _ that(4,1)] assms(2) that(3) by blast
  have head: "a div 2 ^ (16 - n) = hd ys div 2 ^ (16 - n)"
    if "in_block6 xs (ys, n)" "length ys = 8" "\<forall>y \<in> set ys. y < 65536" "n \<le> 16" for ys n
    using in_block6_head [OF assms(1) that(2) _ that(4,1)] assms(2) that(3) by (simp add: xs)
  note m = mask_tests [OF a]
  consider "in_block6 xs ([0, 0, 0, 0, 0, 0, 0, 0], 16 * 8)" | "in_block6 xs ([0, 0, 0, 0, 0, 0, 0, 1], 16 * 8)"
    | "in_block6 xs ([0x64, 0xff9b, 1, 0, 0, 0, 0, 0], 16 * 3)" | "in_block6 xs ([0x2001, 0, 0, 0, 0, 0, 0, 0], 16 * 2)"
    | "in_block6 xs ([0x2001, 0xdb8, 0, 0, 0, 0, 0, 0], 16 * 2)" | "in_block6 xs ([0x100, 0, 0, 0, 0, 0, 0, 0], 16 * 4)"
    | "in_block6 xs ([0xfc00, 0, 0, 0, 0, 0, 0, 0], 7)" | "in_block6 xs ([0xfe80, 0, 0, 0, 0, 0, 0, 0], 10)"
    | "in_block6 xs ([0xfec0, 0, 0, 0, 0, 0, 0, 0], 10)" | "in_block6 xs ([0xff00, 0, 0, 0, 0, 0, 0, 0], 8)"
    using assms(3) by (auto simp: RESERVED_V6_def)
  then show ?thesis
  proof cases
    case 1 then show ?thesis using grp [OF 1] by (simp add: xs private_hextets_def)
  next
    case 2 then show ?thesis using grp [OF 2] by (simp add: xs private_hextets_def)
  next
    case 3 then show ?thesis using grp [OF 3] by (simp add: xs private_hextets_def)
  next
    case 4 then show ?thesis using grp [OF 4] by (simp add: xs private_hextets_def)
  next
    case 5 then show ?thesis using grp [OF 5] by (simp add: xs private_hextets_def)
  next
    case 6 then show ?thesis using grp [OF 6] by (simp add: xs private_hextets_def)
  next
    case 7
    then have "a div 512 = 126" using head [OF 7] by simp
    then have "a AND 0xfe00 = 0xfc00" "256 * 126 < a" using m(1) by simp_all
    then show ?thesis by (simp add: xs private_hextets_def)
  next
    case 8
    then have "a div 64 = 1018" using head [OF 8] by simp
    then have "a AND 0xffc0 = 0xfe80" "256 * 126 < a" using m(2) by simp_all
    then show ?thesis by (simp add: xs private_hextets_def)
  next
    case 9
    then have "a div 64 = 1019" using head [OF 9] by simp
    then have "a AND 0xffc0 = 0xfec0" "256 * 126 < a" using m(2) by simp_all
    then show ?thesis by (simp add: xs private_hextets_def)
  next
    case 10
    then have "a div 256 = 255" using head [OF 10] by simp
    then have "a AND 0xff00 = 0xff00" "256 * 126 < a" using m(3) by simp_all
    then show ?thesis by (simp add: xs private_hextets_def)
  qed
qed

subsection \<open>What the gate promises\<close>

lemma not_v4_colon: "CHR '':'' \<in> set s \<Longrightarrow> parseIpv4 s = None"
proof -
  have d: "parse_octet p \<noteq> None \<Longrightarrow> CHR '':'' \<notin> set p" for p
    by (auto simp: parse_octet_def octet_test list_all_iff is_digit_def code_unit_def split: if_splits)
  then have "parse_octets ps \<noteq> None \<Longrightarrow> \<forall>p \<in> set ps. CHR '':'' \<notin> set p" for ps
    by (induction ps) (auto split: option.splits)
  moreover have "\<forall>p \<in> set (split_on CHR ''.'' s). c \<notin> set p \<Longrightarrow> c \<noteq> CHR ''.'' \<Longrightarrow> c \<notin> set s" for c
    by (induction s) (auto split: list.splits if_splits)
  ultimately have "CHR '':'' \<in> set s \<Longrightarrow> parse_octets (split_on CHR ''.'' s) = None" by blast
  then show "CHR '':'' \<in> set s \<Longrightarrow> parseIpv4 s = None" by (simp add: parseIpv4_def Let_def)
qed

text \<open>The verdict on a literal, as given and as normalised.\<close>

lemma v4_literal_verdict:
  assumes "v4_literal s os"
  shows "isPrivateOrReservedIp s = isPrivateIpv4 os" and "isPrivateOrReservedIp (normalizeHostname s) = isPrivateIpv4 os"
    and "is_v4 os"
proof -
  obtain w where w: "v4_written w os" "s = w \<or> s = w @ ''.''" using assms by (auto simp: v4_literal_def)
  note p = v4_written_props [OF w(1)]
  have low: "js_lower w = w" by (rule js_lower_plain [OF p(5)])
  have w1: "normalizeHostname w = w" using low p(4) by (simp add: normalizeHostname_def)
  have "js_lower (w @ ''.'') = w @ ''.''" using low by (simp add: js_lower_def lower_char_def code_unit_def)
  then have "normalizeHostname (w @ ''.'') = w" by (simp add: normalizeHostname_def)
  then have n: "normalizeHostname s = w" using w(2) w1 by auto
  show "isPrivateOrReservedIp s = isPrivateIpv4 os" "isPrivateOrReservedIp (normalizeHostname s) = isPrivateIpv4 os"
    using n w1 p(1) by (simp_all add: isPrivateOrReservedIp_def)
  show "is_v4 os" by (rule p(2))
qed

lemma v6_literal_verdict:
  assumes "v6_literal s xs"
  shows "isPrivateOrReservedIp s = private_hextets xs" and "isPrivateOrReservedIp (normalizeHostname s) = private_hextets xs"
    and "length xs = 8" and "\<forall>x \<in> set xs. x < 65536"
proof -
  obtain w where w: "v6_written w xs" "s = w \<or> s = ''['' @ w @ '']''" using assms by (auto simp: v6_literal_def)
  let ?w = "js_lower w"
  note r = v6_written_read [OF w(1)]
  have ne: "?w \<noteq> []" using r by auto
  have strip: "strip_v6 ?w = ?w" "strip_v6 (''['' @ ?w @ '']'') = ?w" using strip_v6_plain [of ?w] r ne by blast+
  define n where "n = (if s = w then ?w else ''['' @ ?w @ '']'')"
  have low: "js_lower (''['' @ w @ '']'') = ''['' @ ?w @ '']''" by (simp add: js_lower_def lower_char_def code_unit_def)
  have nn: "normalizeHostname s = n" "normalizeHostname n = n"
    using w(2) low r by (auto simp: normalizeHostname_def n_def)
  have "parseIpv6 n = Some xs" using r strip by (simp add: n_def)
  moreover have "CHR '':'' \<in> set n" using r by (simp add: n_def)
  moreover note not_v4_colon [OF this]
  ultimately show "isPrivateOrReservedIp s = private_hextets xs" "isPrivateOrReservedIp (normalizeHostname s) = private_hextets xs"
    using nn by (simp_all add: isPrivateOrReservedIp_def js_includes_char isPrivateIpv6_def)
  show "length xs = 8" "\<forall>x \<in> set xs. x < 65536" using r v6_hextets [OF w(1)] by blast+
qed

text \<open>The IPv4 verdict is the list of reserved blocks: an address of four octets is private exactly when it lies in one of
  the fourteen CIDR blocks the comments name.\<close>

theorem isPrivateIpv4_blocks:
  assumes "is_v4 octets"
  shows "isPrivateIpv4 octets = list_ex (in_block octets) RESERVED_V4"
  using isPrivateIpv4_blocks0 assms by (auto simp: is_v4_def length_Suc_conv eval_nat_numeral)

theorem isPrivateIpv4_blocks_witness:
  "isPrivateIpv4 [172, 31, 0, 1] = list_ex (in_block [172, 31, 0, 1]) RESERVED_V4"
  by (rule isPrivateIpv4_blocks) (simp add: is_v4_def)

lemma reserved_blocks: "is_v4 os \<Longrightarrow> isPrivateIpv4 os = list_ex (in_block os) RESERVED_V4"
  using isPrivateIpv4_blocks0 by (auto simp: is_v4_def length_Suc_conv eval_nat_numeral)

text \<open>C30: When the full gate accepts a URL, the URL uses HTTPS, and the host it names, and every address its lookup
  returned for a host that is no literal, is no reserved address, however it is spelled: written as an IPv4 address it is
  in none of the reserved IPv4 blocks; written as an IPv6 address, in any mixture of groups, compression, dotted tail,
  case and brackets, it is in none of the reserved IPv6 blocks, and the IPv4 address it carries, if it is compatible,
  mapped, translated (SIIT, NAT64) or 6to4, is in none of the reserved IPv4 blocks.
\<close>

theorem accepted_target_not_reserved:
  assumes "assertPublicWebhookTarget parse_url lookup url = None" and "parse_url url = Some parsed"
    and "s = up_hostname parsed \<or> \<not> isIpLiteral (up_hostname parsed) \<and> s \<in> set (the (lookup (up_hostname parsed)))"
  shows "up_protocol parsed = ''https:'' \<and>
    (\<forall>os. v4_literal s os \<longrightarrow> \<not> list_ex (in_block os) RESERVED_V4) \<and>
    (\<forall>xs. v6_literal s xs \<longrightarrow> \<not> list_ex (in_block6 xs) RESERVED_V6 \<and>
       (\<forall>os. carries xs os \<longrightarrow> \<not> list_ex (in_block os) RESERVED_V4))"
proof -
  have v: "validateWebhookUrl parse_url url = None" and b: "blockedWebhookHostname (up_hostname parsed) = None"
    and l: "isIpLiteral (up_hostname parsed) \<or> (\<exists>as. lookup (up_hostname parsed) = Some as \<and>
       \<not> list_ex isPrivateOrReservedIp as)"
    using assms(1,2) by (auto simp: assertPublicWebhookTarget_def split: option.splits if_splits)
  have "\<not> isPrivateOrReservedIp (normalizeHostname (up_hostname parsed))"
    using b by (auto simp: blockedWebhookHostname_def Let_def split: if_splits)
  then have pub: "\<not> isPrivateOrReservedIp s \<or> \<not> isPrivateOrReservedIp (normalizeHostname s)"
    using assms(3) l by (auto simp: list_ex_iff)
  have "\<not> list_ex (in_block os) RESERVED_V4" if "v4_literal s os" for os
    using v4_literal_verdict [OF that] pub reserved_blocks by blast
  moreover have "\<not> list_ex (in_block6 xs) RESERVED_V6 \<and> (\<forall>os. carries xs os \<longrightarrow> \<not> list_ex (in_block os) RESERVED_V4)"
    if "v6_literal s xs" for xs
    using v6_literal_verdict [OF that] pub reserved_blocks carries_private reserved6_private carries_def by metis
  moreover have "up_protocol parsed = ''https:''"
    using v assms(2) by (auto simp: validateWebhookUrl_def split: if_splits)
  ultimately show ?thesis by blast
qed

text \<open>Some spellings of one address: dotted, compatible with a dotted tail, mapped in upper case, and uncompressed.\<close>

lemma octets_10_0_0_1: "list_all2 octet_text [''10'', ''0'', ''00'', ''1''] [10, 0, 0, 1]"
  by (simp add: octet_text_def is_digit_def code_unit_def dec_to_nat_def digit_val_def)

lemma spelled_10_0_0_1: "v4_written ''10.0.00.1'' [10, 0, 0, 1]"
  unfolding v4_written_def using octets_10_0_0_1 by (intro exI [of _ "[''10'', ''0'', ''00'', ''1'']"]) simp

lemma groups_0a00: "list_all2 group_text [''FFFF'', ''0A00'', ''1''] [0xffff, 0xa00, 1]"
  by (simp add: group_text_def radix_to_nat_def radix_digit_def digit_val_def is_digit_def is_lower_def is_upper_def code_unit_def)

lemma replicate_zeros: "replicate 5 (0::nat) = [0, 0, 0, 0, 0]" "replicate 6 (0::nat) = [0, 0, 0, 0, 0, 0]"
  by code_simp+

lemma spellings_10_0_0_1:
  "v6_literal ''::10.0.00.1'' [0, 0, 0, 0, 0, 0, 0xa00, 1]" "carries [0, 0, 0, 0, 0, 0, 0xa00, 1] [10, 0, 0, 1]"
  "v6_literal ''[::FFFF:0A00:1]'' [0, 0, 0, 0, 0, 0xffff, 0xa00, 1]" "carries [0, 0, 0, 0, 0, 0xffff, 0xa00, 1] [10, 0, 0, 1]"
proof -
  have "v6_written ''::10.0.00.1'' ([] @ replicate (6 - length [] - length []) 0 @ [] @ v4_groups [10, 0, 0, 1])"
    using v6_compressed_dotted [of "[]" "[]" "[]" "[]" "''10.0.00.1''" "[10, 0, 0, 1]"] spelled_10_0_0_1 by (simp add: with_colons_def)
  then show "v6_literal ''::10.0.00.1'' [0, 0, 0, 0, 0, 0, 0xa00, 1]"
    unfolding v6_literal_def by (intro exI [of _ "''::10.0.00.1''"]) (simp add: v4_groups_def replicate_zeros)
  have "v6_written ''::FFFF:0A00:1'' ([] @ replicate (8 - length [] - length [''FFFF'', ''0A00'', ''1'']) 0 @ [0xffff, 0xa00, 1])"
    using v6_compressed [of "[]" "[]" "[''FFFF'', ''0A00'', ''1'']" "[0xffff, 0xa00, 1]"] groups_0a00 by simp
  then show "v6_literal ''[::FFFF:0A00:1]'' [0, 0, 0, 0, 0, 0xffff, 0xa00, 1]"
    unfolding v6_literal_def by (intro exI [of _ "''::FFFF:0A00:1''"]) (simp add: replicate_zeros)
  show "carries [0, 0, 0, 0, 0, 0, 0xa00, 1] [10, 0, 0, 1]" "carries [0, 0, 0, 0, 0, 0xffff, 0xa00, 1] [10, 0, 0, 1]"
    by (simp_all add: carries_def is_v4_def v4_groups_def)
qed

text \<open>A name that resolves to a public address is accepted; were one of its answers \<open>::10.0.00.1\<close>, it would not be.\<close>

theorem accepted_target_not_reserved_witness:
  "\<exists>parse_url lookup. assertPublicWebhookTarget parse_url lookup ''https://a.b'' = None \<and>
     the (lookup ''a.b'') = [''8.8.4.4''] \<and> \<not> list_ex (in_block [8, 8, 4, 4]) RESERVED_V4"
proof -
  let ?p = "\<lambda>u::string. Some \<lparr>up_protocol = ''https:'', up_hostname = ''a.b'', up_pathname = ''/''\<rparr>"
  let ?l = "\<lambda>h::string. Some [''8.8.4.4'']"
  have a: "assertPublicWebhookTarget ?p ?l ''https://a.b'' = None" by code_simp
  have i: "\<not> isIpLiteral ''a.b''" by code_simp
  have "list_all2 octet_text [''8'', ''8'', ''4'', ''4''] [8, 8, 4, 4]"
    by (simp add: octet_text_def is_digit_def code_unit_def dec_to_nat_def digit_val_def)
  then have "v4_written ''8.8.4.4'' [8, 8, 4, 4]"
    unfolding v4_written_def by (intro exI [of _ "[''8'', ''8'', ''4'', ''4'']"]) simp
  then have s: "v4_literal ''8.8.4.4'' [8, 8, 4, 4]" by (auto simp: v4_literal_def)
  from accepted_target_not_reserved [OF a refl, of "''8.8.4.4''"] i s
  have "\<not> list_ex (in_block [8, 8, 4, 4]) RESERVED_V4" by simp
  with a show ?thesis by (intro exI [of _ ?p] exI [of _ ?l]) simp
qed

text \<open>The gate refuses the private address in each of these spellings.\<close>

lemma private_spellings_refused:
  "isPrivateOrReservedIp ''::10.0.00.1''" "isPrivateOrReservedIp ''[::FFFF:0A00:1]''"
  using v6_literal_verdict(1) spellings_10_0_0_1 carries_private [OF spellings_10_0_0_1(2)] carries_private [OF spellings_10_0_0_1(4)]
  by (simp_all add: isPrivateIpv4_def opt_nth_def)

end
