(* ===== verification/WebhookSign.thy ===== *)
theory WebhookSign
  imports Regex "HOL-Library.Word"
begin

section \<open>Signing and verifying webhook payloads\<close>

text \<open>
  \<open>packages/core-internal/src/webhook-sign.ts\<close>.  \<open>hmac\<close> stands for HMAC-SHA256 of \<open>crypto.subtle\<close>: it
  takes the bytes of the key and of the data.  \<open>TextEncoder\<close> is UTF-8 on the code units of the model.
  An exception of the source is \<^const>\<open>None\<close>.
\<close>

unbundle bit_operations_syntax

type_synonym byte = nat
type_synonym hmac = "byte list \<Rightarrow> byte list \<Rightarrow> byte list"

definition utf8 :: "string \<Rightarrow> byte list" where
  "utf8 s = concat (map (\<lambda>c. let n = code_unit c in if n < 128 then [n] else [192 + n div 64, 128 + n mod 64]) s)"

text \<open>\<open>parseInt(s, 16)\<close>: leading spaces, a sign and a prefix \<open>0x\<close> are skipped, then the longest run of
  hexadecimal digits is read.\<close>

definition is_hex :: "char \<Rightarrow> bool" where
  "is_hex c \<longleftrightarrow> radix_digit c < 16"

definition parse_hex :: "string \<Rightarrow> int option" where
  "parse_hex s =
     (let t = js_trim_start s;
          neg = (t \<noteq> [] \<and> hd t = CHR ''-'');
          u = (if t \<noteq> [] \<and> (hd t = CHR ''-'' \<or> hd t = CHR ''+'') then tl t else t);
          v = (if js_lower (take 2 u) = ''0x'' then drop 2 u else u);
          ds = takeWhile is_hex v
      in if ds = [] then None
         else let n = int (foldl (\<lambda>n c. 16 * n + radix_digit c) 0 ds) in Some (if neg then - n else n))"

text \<open>Storing into a \<open>Uint8Array\<close> reduces modulo 256, and \<open>NaN\<close> becomes 0.\<close>

definition to_uint8 :: "int option \<Rightarrow> byte" where
  "to_uint8 x = (case x of None \<Rightarrow> 0 | Some i \<Rightarrow> nat (i mod 256))"

definition hexToBytes :: "string \<Rightarrow> byte list option" where
  "hexToBytes hex =
     (if length hex mod 2 \<noteq> 0 then None
      else Some (map (\<lambda>i. to_uint8 (parse_hex (Prelude.slice hex (i * 2) (i * 2 + 2)))) [0..<length hex div 2]))"

definition bytesToHex :: "byte list \<Rightarrow> string" where
  "bytesToHex bytes = concat (map (\<lambda>b. pad_start 2 CHR ''0'' (nat_to_hex b)) bytes)"

text \<open>\<open>crypto.subtle.importKey\<close> refuses an empty key.\<close>

definition importHmacKey :: "string \<Rightarrow> byte list option" where
  "importHmacKey rawHex = (case hexToBytes rawHex of None \<Rightarrow> None | Some bytes \<Rightarrow> if bytes = [] then None else Some bytes)"

definition deriveSigningKey :: "hmac \<Rightarrow> string \<Rightarrow> string \<Rightarrow> int \<Rightarrow> string option" where
  "deriveSigningKey hmac masterHex subscriptionId secretVersion =
     (case importHmacKey masterHex of None \<Rightarrow> None
      | Some key \<Rightarrow> Some (bytesToHex (hmac key (utf8 (subscriptionId @ '':'' @ int_to_dec secretVersion)))))"

definition signPayload :: "hmac \<Rightarrow> string \<Rightarrow> int \<Rightarrow> string \<Rightarrow> string option" where
  "signPayload hmac signingKeyHex timestampSeconds rawBody =
     (case importHmacKey signingKeyHex of None \<Rightarrow> None
      | Some key \<Rightarrow> Some (''sha256='' @ bytesToHex (hmac key (utf8 (int_to_dec timestampSeconds @ ''.'' @ rawBody)))))"

definition constantTimeEqual :: "string \<Rightarrow> string \<Rightarrow> bool" where
  "constantTimeEqual a b =
     (if length a \<noteq> length b then False
      else fold (\<lambda>i diff. diff OR (word_of_nat (code_unit (a ! i)) XOR word_of_nat (code_unit (b ! i))))
             [0..<length a] (0 :: 32 word) = 0)"

definition verifySignature :: "hmac \<Rightarrow> string \<Rightarrow> int \<Rightarrow> string \<Rightarrow> string \<Rightarrow> bool option" where
  "verifySignature hmac signingKeyHex timestampSeconds rawBody candidate =
     map_option (\<lambda>expected. constantTimeEqual expected candidate) (signPayload hmac signingKeyHex timestampSeconds rawBody)"

definition MAX_TIMESTAMP_SKEW_SECONDS :: int where "MAX_TIMESTAMP_SKEW_SECONDS = 5 * 60"

datatype replay_result = Valid | InvalidTimestamp | TimestampOutsideWindow | SignatureMismatch

definition TIMESTAMP_RE :: re where
  "TIMESTAMP_RE = seqs [Bos, opt (chr CHR ''-''), plus digit, Eos]"

text \<open>\<open>Number.isSafeInteger(Number(s))\<close> on a header of that shape: the value when it is at most
  \<open>2^53 - 1\<close> in absolute value.\<close>

definition safe_integer :: "string \<Rightarrow> int option" where
  "safe_integer s = (case js_Number s of
     Fin r \<Rightarrow> if r = of_int \<lfloor>r\<rfloor> \<and> \<bar>r\<bar> \<le> 9007199254740991 then Some \<lfloor>r\<rfloor> else None
   | _ \<Rightarrow> None)"

definition verifyWithReplayGuard ::
  "hmac \<Rightarrow> string \<Rightarrow> string \<Rightarrow> string \<Rightarrow> string \<Rightarrow> int \<Rightarrow> int option \<Rightarrow> replay_result option" where
  "verifyWithReplayGuard hmac rawBody signingKeyHex signatureHeader timestampHeader now maxSkewSeconds =
     (if \<not> test TIMESTAMP_RE timestampHeader then Some InvalidTimestamp
      else (case safe_integer timestampHeader of
          None \<Rightarrow> Some InvalidTimestamp
        | Some ts \<Rightarrow>
            (let nowSec = now div 1000;
                 maxSkew = (case maxSkewSeconds of Some m \<Rightarrow> m | None \<Rightarrow> MAX_TIMESTAMP_SKEW_SECONDS)
             in if maxSkew < \<bar>nowSec - ts\<bar> then Some TimestampOutsideWindow
                else map_option (\<lambda>ok. if ok then Valid else SignatureMismatch)
                       (verifySignature hmac signingKeyHex ts rawBody signatureHeader))))"

subsection \<open>Hexadecimal text\<close>

lemma radix_digit_hex_digit: "n < 16 \<Longrightarrow> radix_digit (hex_digit n) = n"
  by (simp add: hex_digit_def radix_digit_def is_digit_def is_lower_def is_upper_def digit_val_def)

lemma hex_digit_plain: "n < 16 \<Longrightarrow> is_hex (hex_digit n) \<and> \<not> is_space (hex_digit n) \<and> hex_digit n \<noteq> CHR ''-'' \<and> hex_digit n \<noteq> CHR ''+''"
  using radix_digit_hex_digit [of n]
  by (auto simp: is_hex_def is_space_def hex_digit_def js_simps code_unit_def)

lemma hex_byte: "b < 256 \<Longrightarrow> pad_start 2 CHR ''0'' (nat_to_hex b) = [hex_digit (b div 16), hex_digit (b mod 16)]"
proof -
  assume b: "b < 256"
  have z: "hex_digit 0 = CHR ''0''" by (simp add: hex_digit_def char_of_eq_code code_unit_def)
  show ?thesis
  proof (cases "b < 16")
    case True
    then show ?thesis by (simp add: nat_to_hex.simps [of b] z)
  next
    case False
    then have "nat_to_hex (b div 16) = [hex_digit (b div 16)]" using b by (simp add: nat_to_hex.simps [of "b div 16"])
    with False show ?thesis by (simp add: nat_to_hex.simps [of b])
  qed
qed

lemma parse_hex_byte: "b < 256 \<Longrightarrow> to_uint8 (parse_hex [hex_digit (b div 16), hex_digit (b mod 16)]) = b"
proof -
  assume b: "b < 256"
  let ?h = "hex_digit (b div 16)" and ?l = "hex_digit (b mod 16)"
  have d: "b div 16 < 16" "b mod 16 < 16" using b by auto
  have p: "\<not> is_space ?h" "?h \<noteq> CHR ''-''" "?h \<noteq> CHR ''+''" "is_hex ?h" "is_hex ?l" using hex_digit_plain d by blast+
  have x: "lower_char ?l \<noteq> CHR ''x''"
    using d(2) by (auto simp: hex_digit_def lower_char_def Let_def js_simps code_unit_def)
  have v: "radix_digit ?h = b div 16" "radix_digit ?l = b mod 16" using d by (simp_all add: radix_digit_hex_digit)
  have "parse_hex [?h, ?l] = Some (int (16 * (b div 16) + b mod 16))"
    using p x v by (simp add: parse_hex_def js_trim_start_def Let_def js_lower_def)
  also have "16 * (b div 16) + b mod 16 = b" by simp
  finally show ?thesis using b by (simp add: to_uint8_def)
qed

lemma length_bytesToHex: "\<forall>b \<in> set bs. b < 256 \<Longrightarrow> length (bytesToHex bs) = 2 * length bs"
  by (induction bs) (simp_all add: bytesToHex_def hex_byte del: pad_start.simps)

lemma slice_shift: "Prelude.slice (a # b # xs) (Suc i * 2) (Suc i * 2 + 2) = Prelude.slice xs (i * 2) (i * 2 + 2)"
  by (simp add: Prelude.slice_def)

lemma hexToBytes_bytesToHex:
  assumes "\<forall>b \<in> set bs. b < 256"
  shows "hexToBytes (bytesToHex bs) = Some bs"
proof -
  have "map (\<lambda>i. to_uint8 (parse_hex (Prelude.slice (bytesToHex bs) (i * 2) (i * 2 + 2)))) [0..<length bs] = bs"
    using assms
  proof (induction bs)
    case (Cons b bs)
    have h: "bytesToHex (b # bs) = hex_digit (b div 16) # hex_digit (b mod 16) # bytesToHex bs"
      using Cons.prems by (simp add: bytesToHex_def hex_byte del: pad_start.simps)
    have u: "[0..<length (b # bs)] = 0 # map Suc [0..<length bs]" by (simp only: map_Suc_upt length_Cons upt_conv_Cons zero_less_Suc)
    show ?case unfolding h u using Cons by (simp add: slice_shift [simplified] parse_hex_byte comp_def) (simp add: Prelude.slice_def parse_hex_byte)
  qed (simp add: bytesToHex_def)
  then show ?thesis using length_bytesToHex [OF assms] by (simp add: hexToBytes_def)
qed

subsection \<open>Comparison and acceptance\<close>

lemma xor_code_units: "(word_of_nat (code_unit a) XOR word_of_nat (code_unit b) :: 32 word) = 0 \<longleftrightarrow> a = b"
proof -
  have "(word_of_nat (code_unit a) XOR word_of_nat (code_unit b) :: 32 word) = 0
      \<longleftrightarrow> (word_of_nat (code_unit a) :: 32 word) = word_of_nat (code_unit b)"
    by (auto simp: bit_eq_iff bit_xor_iff)
  also have "\<dots> \<longleftrightarrow> code_unit a = code_unit b"
    using code_unit_less [of a] code_unit_less [of b] by (simp add: word_of_nat_eq_iff take_bit_eq_mod del: code_unit_less)
  finally show ?thesis by (simp add: code_unit_inject)
qed

lemma fold_or_zero: "fold (\<lambda>i d. d OR f i) js d = (0 :: 32 word) \<longleftrightarrow> d = 0 \<and> (\<forall>i \<in> set js. f i = 0)"
  by (induction js arbitrary: d) (auto simp: or_eq_0_iff)

lemma constantTimeEqual_iff: "constantTimeEqual a b \<longleftrightarrow> a = b"
  by (auto simp: constantTimeEqual_def fold_or_zero xor_code_units intro: nth_equalityI)

lemma timestamp_decimal: "test TIMESTAMP_RE (nat_to_dec n)"
proof -
  obtain x u where s: "nat_to_dec n = x # u" using nat_to_dec_ne [of n] by (cases "nat_to_dec n") auto
  have d: "list_all is_digit (nat_to_dec n)" by (simp add: list_all_iff nat_to_dec_digits)
  then have x: "x \<noteq> CHR ''-''" by (auto simp: s is_digit_def code_unit_def)
  have "rm (Seq (plus digit) (Seq Eos Eps)) ([], nat_to_dec n @ [], []) = rm (Seq Eos Eps) (rev (nat_to_dec n) @ [], [], [])"
    unfolding digit_def by (rule rm_plus_det [OF d]) (simp_all add: starts_not_def)
  then have "rm (Seq (plus digit) (Seq Eos Eps)) ([], nat_to_dec n, []) \<noteq> []" by simp
  with x show ?thesis
    by (simp add: TIMESTAMP_RE_def seqs_def test_anchored opt_def chr_def rm_seq s del: rm.simps(3))
qed

lemma safe_integer_dec: "n \<le> 9007199254740991 \<Longrightarrow> safe_integer (nat_to_dec n) = Some (int n)"
proof -
  assume n: "n \<le> 9007199254740991"
  also have "(9007199254740991 :: nat) < 10 ^ 300" by simp
  finally have "js_Number (replicate 0 CHR ''0'' @ nat_to_dec n) = Fin (of_nat n)" by (rule js_Number_dec)
  then have "js_Number (nat_to_dec n) = Fin (of_nat n)" by simp
  moreover have "(of_nat n :: rat) \<le> 9007199254740991" using n by (metis of_nat_le_iff of_nat_numeral)
  ultimately show ?thesis by (simp add: safe_integer_def)
qed

text \<open>the verifier accepts exactly a header that is a safe integer within the window and the very
  signature of timestamp and body; the comparison in constant time decides equality.\<close>
theorem verify_accepts_exactly:
  "verifyWithReplayGuard hmac body key sig header now skew = Some Valid \<longleftrightarrow>
     test TIMESTAMP_RE header \<and>
     (case safe_integer header of None \<Rightarrow> False
      | Some ts \<Rightarrow> \<bar>now div 1000 - ts\<bar> \<le> (case skew of Some m \<Rightarrow> m | None \<Rightarrow> 300)
          \<and> signPayload hmac key ts body = Some sig)"
  by (auto simp: verifyWithReplayGuard_def verifySignature_def constantTimeEqual_iff MAX_TIMESTAMP_SKEW_SECONDS_def Let_def
      split: option.splits)

lemma signed_accepted:
  assumes "\<And>k d. hmac k d \<noteq> [] \<and> (\<forall>b \<in> set (hmac k d). b < 256)" and "even (length master)" "master \<noteq> []"
    and "n \<le> 9007199254740991" and "\<bar>now div 1000 - int n\<bar> \<le> 300"
  shows "\<exists>key sig. deriveSigningKey hmac master subscription version = Some key
    \<and> signPayload hmac key (int n) body = Some sig
    \<and> verifyWithReplayGuard hmac body key sig (int_to_dec (int n)) now None = Some Valid
    \<and> (\<forall>forged. forged \<noteq> sig \<longrightarrow>
         verifyWithReplayGuard hmac body key forged (int_to_dec (int n)) now None = Some SignatureMismatch)"
proof -
  obtain mk where "hexToBytes master = Some mk" "mk \<noteq> []"
    using assms(2,3) by (cases master rule: list.exhaust; cases "tl master") (auto simp: hexToBytes_def)
  then have mk: "importHmacKey master = Some mk" by (simp add: importHmacKey_def)
  define key where "key = bytesToHex (hmac mk (utf8 (subscription @ '':'' @ int_to_dec version)))"
  have "hexToBytes key = Some (hmac mk (utf8 (subscription @ '':'' @ int_to_dec version)))"
    unfolding key_def by (rule hexToBytes_bytesToHex) (use assms(1) in blast)
  then have "importHmacKey key = Some (hmac mk (utf8 (subscription @ '':'' @ int_to_dec version)))"
    using assms(1) by (simp add: importHmacKey_def)
  then obtain sig where sig: "signPayload hmac key (int n) body = Some sig" by (simp add: signPayload_def)
  have ts: "test TIMESTAMP_RE (int_to_dec (int n))" "safe_integer (int_to_dec (int n)) = Some (int n)"
    using assms(4) by (simp_all add: int_to_dec_def timestamp_decimal safe_integer_dec)
  have "deriveSigningKey hmac master subscription version = Some key"
    by (simp add: deriveSigningKey_def mk key_def)
  with sig ts assms(5) show ?thesis
    by (auto simp: verifyWithReplayGuard_def verifySignature_def constantTimeEqual_iff MAX_TIMESTAMP_SKEW_SECONDS_def Let_def)
qed

subsection \<open>What the signature binds\<close>

text \<open>The encoding of a code unit: one byte below 128, two above, told apart by the first.\<close>

lemma utf8_list_simps: "utf8 [] = []" "utf8 (c # s) = (if code_unit c < 128 then [code_unit c]
    else [192 + code_unit c div 64, 128 + code_unit c mod 64]) @ utf8 s"
  by (simp_all add: utf8_def Let_def)

lemma utf8_append: "utf8 (s @ t) = utf8 s @ utf8 t"
  by (simp add: utf8_def)

lemma utf8_inject: "utf8 s = utf8 t \<Longrightarrow> s = t"
proof (induction s arbitrary: t)
  case Nil
  then show ?case by (cases t) (auto simp: utf8_list_simps split: if_splits)
next
  case (Cons c s)
  then obtain d t' where t: "t = d # t'" by (cases t) (auto simp: utf8_list_simps split: if_splits)
  have two: "x = y" if "x div 64 = y div 64" "x mod 64 = y mod 64" for x y :: nat
    using that by (metis div_mult_mod_eq)
  have "code_unit c = code_unit d \<and> utf8 s = utf8 t'"
    using Cons.prems two [of "code_unit c" "code_unit d"] by (auto simp: t utf8_list_simps split: if_splits)
  then show ?case using Cons.IH t by (simp add: code_unit_inject)
qed

text \<open>The bytes that are authenticated, written out: the decimal timestamp, a dot, the body.\<close>

definition signed_bytes :: "int \<Rightarrow> string \<Rightarrow> byte list" where
  "signed_bytes ts body = utf8 (int_to_dec ts) @ [0x2E] @ utf8 body"

lemma dec_inject: "int_to_dec i = int_to_dec j \<Longrightarrow> i = j"
proof -
  have d: "nat_to_dec a \<noteq> CHR ''-'' # s" for a s
    using nat_to_dec_digits [of "CHR ''-''" a] by (auto simp: is_digit_def code_unit_def)
  show "int_to_dec i = int_to_dec j \<Longrightarrow> i = j"
    using d [of "nat i"] d [of "nat j"]
    by (auto simp: int_to_dec_def inj_nat_to_dec dest: sym split: if_splits)
qed

lemma dec_no_dot: "CHR ''.'' \<notin> set (int_to_dec i)"
  using nat_to_dec_digits [of "CHR ''.''"] by (auto simp: int_to_dec_def is_digit_def code_unit_def)

lemma split_at: "c \<notin> set xs \<Longrightarrow> c \<notin> set xs' \<Longrightarrow> xs @ c # ys = xs' @ c # ys' \<Longrightarrow> xs = xs' \<and> ys = ys'"
proof (induction xs arbitrary: xs')
  case Nil
  then show ?case by (cases xs') auto
next
  case (Cons x xs)
  then show ?case by (cases xs') auto
qed

lemma signed_bytes_inject: "signed_bytes ts body = signed_bytes ts' body' \<Longrightarrow> ts = ts' \<and> body = body'"
proof -
  have "signed_bytes t b = utf8 (int_to_dec t @ CHR ''.'' # b)" for t b
    by (simp add: signed_bytes_def utf8_append utf8_list_simps code_unit_def)
  moreover assume "signed_bytes ts body = signed_bytes ts' body'"
  ultimately have "int_to_dec ts @ CHR ''.'' # body = int_to_dec ts' @ CHR ''.'' # body'" using utf8_inject by metis
  then have "int_to_dec ts = int_to_dec ts' \<and> body = body'"
    by (rule split_at [OF dec_no_dot dec_no_dot])
  then show ?thesis using dec_inject by blast
qed

lemma bytesToHex_inject:
  "\<forall>b \<in> set x. b < 256 \<Longrightarrow> \<forall>b \<in> set y. b < 256 \<Longrightarrow> bytesToHex x = bytesToHex y \<Longrightarrow> x = y"
  by (metis hexToBytes_bytesToHex option.inject)

lemma sign_tag:
  assumes "\<And>k d. hmac k d \<noteq> [] \<and> (\<forall>b \<in> set (hmac k d). b < 256)"
  shows "signPayload hmac (bytesToHex (hmac mk msg)) ts body =
    Some (''sha256='' @ bytesToHex (hmac (hmac mk msg) (signed_bytes ts body)))"
proof -
  have "hexToBytes (bytesToHex (hmac mk msg)) = Some (hmac mk msg)" by (rule hexToBytes_bytesToHex) (use assms in blast)
  then show ?thesis
    using assms by (simp add: signPayload_def importHmacKey_def signed_bytes_def utf8_append utf8_list_simps code_unit_def)
qed

lemma valid_tag:
  "verifyWithReplayGuard hmac body key sig header now skew = Some Valid \<longleftrightarrow>
     test TIMESTAMP_RE header \<and>
     (\<exists>ts. safe_integer header = Some ts \<and> \<bar>now div 1000 - ts\<bar> \<le> (case skew of Some m \<Rightarrow> m | None \<Rightarrow> 300)
          \<and> signPayload hmac key ts body = Some sig)"
  by (auto simp: verifyWithReplayGuard_def verifySignature_def constantTimeEqual_iff MAX_TIMESTAMP_SKEW_SECONDS_def Let_def
      split: option.splits)

text \<open>C37: The signature of a delivery is the HMAC, under the key derived for the subscription and version, of the
  decimal timestamp, a dot and the body.  What the deliverer signs, the subscriber accepts at any time within five
  minutes of the timestamp, and what the subscriber accepts, whatever its body, timestamp and signature, carries the
  HMAC of that very timestamp and body and comes within five minutes; so the signature of one delivery is accepted for
  another body or timestamp only when HMAC collides on the two messages.
\<close>

theorem signed_delivery_verifies:
  assumes "\<And>k d. hmac k d \<noteq> [] \<and> (\<forall>b \<in> set (hmac k d). b < 256)" and "even (length master)" "master \<noteq> []"
    and "n \<le> 9007199254740991" and "\<bar>now div 1000 - int n\<bar> \<le> 300"
  shows "\<exists>mk. hexToBytes master = Some mk \<and>
    (let k = hmac mk (utf8 (subscription @ '':'' @ int_to_dec version));
         key = bytesToHex k;
         message = (\<lambda>ts b. utf8 (int_to_dec ts) @ [0x2E] @ utf8 b);
         tag = (\<lambda>ts b. ''sha256='' @ bytesToHex (hmac k (message ts b)))
     in deriveSigningKey hmac master subscription version = Some key \<and>
        signPayload hmac key (int n) body = Some (tag (int n) body) \<and>
        verifyWithReplayGuard hmac body key (tag (int n) body) (int_to_dec (int n)) now None = Some Valid \<and>
        (\<forall>body' header' now' sig'. verifyWithReplayGuard hmac body' key sig' header' now' None = Some Valid \<longrightarrow>
           (\<exists>ts. safe_integer header' = Some ts \<and> \<bar>now' div 1000 - ts\<bar> \<le> 300 \<and> sig' = tag ts body' \<and>
              (sig' = tag (int n) body \<longrightarrow> (ts = int n \<and> body' = body) \<or>
                 message ts body' \<noteq> message (int n) body \<and> hmac k (message ts body') = hmac k (message (int n) body)))))"
proof -
  obtain mk where m: "hexToBytes master = Some mk" "mk \<noteq> []"
    using assms(2,3) by (cases master rule: list.exhaust; cases "tl master") (auto simp: hexToBytes_def)
  define k where "k = hmac mk (utf8 (subscription @ '':'' @ int_to_dec version))"
  note tag = sign_tag [where hmac = hmac and mk = mk and msg = "utf8 (subscription @ '':'' @ int_to_dec version)", OF assms(1), folded k_def]
  have d: "deriveSigningKey hmac master subscription version = Some (bytesToHex k)"
    using m by (simp add: deriveSigningKey_def importHmacKey_def k_def)
  have ts: "test TIMESTAMP_RE (int_to_dec (int n))" "safe_integer (int_to_dec (int n)) = Some (int n)"
    using assms(4) by (simp_all add: int_to_dec_def timestamp_decimal safe_integer_dec)
  have v: "verifyWithReplayGuard hmac b (bytesToHex k) sig h t None = Some Valid \<longleftrightarrow> test TIMESTAMP_RE h \<and>
      (\<exists>ts. safe_integer h = Some ts \<and> \<bar>t div 1000 - ts\<bar> \<le> 300 \<and> ''sha256='' @ bytesToHex (hmac k (signed_bytes ts b)) = sig)"
    for b sig h t by (simp add: valid_tag tag)
  have same: "(x = int n \<and> b = body) \<or> signed_bytes x b \<noteq> signed_bytes (int n) body \<and>
      hmac k (signed_bytes x b) = hmac k (signed_bytes (int n) body)"
    if "bytesToHex (hmac k (signed_bytes x b)) = bytesToHex (hmac k (signed_bytes (int n) body))" for x b
    using bytesToHex_inject [OF _ _ that] assms(1) signed_bytes_inject by blast
  show ?thesis
  proof (intro exI [of _ mk] conjI m(1), unfold Let_def k_def [symmetric] signed_bytes_def [symmetric], intro conjI allI impI)
    show "deriveSigningKey hmac master subscription version = Some (bytesToHex k)" by (rule d)
    show "signPayload hmac (bytesToHex k) (int n) body = Some (''sha256='' @ bytesToHex (hmac k (signed_bytes (int n) body)))"
      by (rule tag)
    show "verifyWithReplayGuard hmac body (bytesToHex k) (''sha256='' @ bytesToHex (hmac k (signed_bytes (int n) body)))
        (int_to_dec (int n)) now None = Some Valid"
      using v ts assms(5) by blast
    fix b h t sig
    assume "verifyWithReplayGuard hmac b (bytesToHex k) sig h t None = Some Valid"
    then obtain x where x: "safe_integer h = Some x" "\<bar>t div 1000 - x\<bar> \<le> 300"
      "sig = ''sha256='' @ bytesToHex (hmac k (signed_bytes x b))" by (auto simp only: v)
    then show "\<exists>ts. safe_integer h = Some ts \<and> \<bar>t div 1000 - ts\<bar> \<le> 300 \<and>
        sig = ''sha256='' @ bytesToHex (hmac k (signed_bytes ts b)) \<and>
        (sig = ''sha256='' @ bytesToHex (hmac k (signed_bytes (int n) body)) \<longrightarrow> (ts = int n \<and> b = body) \<or>
           signed_bytes ts b \<noteq> signed_bytes (int n) body \<and> hmac k (signed_bytes ts b) = hmac k (signed_bytes (int n) body))"
      using same [of x b] by (intro exI [of _ x]) simp
  qed
qed

text \<open>A witness with a checksum in the place of HMAC.\<close>

definition checksum :: "hmac" where
  "checksum key data = [(sum_list key + sum_list data) mod 256]"

theorem signed_delivery_verifies_witness:
  "signPayload checksum (bytesToHex [68]) 1700000000 ''{}'' =
      Some (''sha256='' @ bytesToHex (checksum [68] (utf8 ''1700000000'' @ [0x2E] @ utf8 ''{}''))) \<and>
    deriveSigningKey checksum ''00ff'' ''whk_1'' 1 = Some (bytesToHex [68])"
proof -
  have h: "hexToBytes ''00ff'' = Some [0, 255]" by code_simp
  have k: "checksum [0, 255] (utf8 (''whk_1'' @ '':'' @ int_to_dec 1)) = [68]" by code_simp
  have i: "int_to_dec (int 1700000000) = ''1700000000''" by (simp add: int_to_dec_def nat_to_dec.simps js_simps code_unit_def)
  have ok: "checksum k d \<noteq> [] \<and> (\<forall>b \<in> set (checksum k d). b < 256)" for k d by (simp add: checksum_def)
  have known: "\<exists>m. x = Some m \<and> Q m \<Longrightarrow> x = Some y \<Longrightarrow> Q y" for x :: "byte list option" and Q y by auto
  have "\<bar>1700000000123 div 1000 - int 1700000000\<bar> \<le> 300" by simp
  note r = known [OF signed_delivery_verifies [where hmac = checksum and master = "''00ff''" and n = 1700000000 and now = 1700000000123
    and subscription = "''whk_1''" and version = 1 and body = "''{}''", OF ok _ _ _ this] h, unfolded Let_def k i]
  have "even (length ''00ff'')" "''00ff'' \<noteq> []" "1700000000 \<le> (9007199254740991::nat)" by simp_all
  note r' = r [OF this]
  show ?thesis using conjunct1 [OF conjunct2 [OF r']] conjunct1 [OF r'] by (simp only: of_nat_numeral simp_thms)
qed

end
