(* ===== verification/WebhookTable.thy ===== *)
theory WebhookTable
  imports UrlSafety Coverage
begin

section \<open>Webhook subscriptions: the table, its writes and the fan-out of events\<close>

text \<open>
  \<open>packages/core/src/schema.ts\<close> (\<open>webhook_subscriptions\<close>), \<open>apps/api/src/webhooks/queries.ts\<close>,
  \<open>packages/core-internal/src/webhook-delivery-state.ts\<close>, \<open>apps/api/src/webhooks/shared.ts\<close>
  (\<open>buildWebhookPatchUpdates\<close>) and the fan-out: \<open>subscription-match.ts\<close>, \<open>follows-match.ts\<close>,
  \<open>expand.ts\<close>, \<open>expand-follows.ts\<close>, \<open>expand-and-enqueue.ts\<close>.  The table is the list of its rows, the id
  being the primary key.  Every write is one SQL statement and therefore one function on the table; the
  interleaving of writers is a sequence of such functions.  \<open>parse_url\<close> is the URL parser, as in the
  theory of target gates.
\<close>

datatype webhook_scope = ScopeOrg | ScopeFollows
datatype release_type = Feature | Rollup

record subscription =
  s_id :: string
  s_userId :: "string option"
  s_workspaceId :: "string option"
  s_scope :: webhook_scope
  s_orgId :: "string option"
  s_url :: string
  s_sourceId :: "string option"
  s_productId :: "string option"
  s_releaseType :: "release_type option"
  s_enabled :: bool
  s_description :: "string option"
  s_format :: webhook_format
  s_secretVersion :: int
  s_createdAt :: string
  s_lastSuccessAt :: "string option"
  s_lastErrorAt :: "string option"
  s_lastErrorMsg :: "string option"
  s_failureStreakStartedAt :: "string option"
  s_consecutiveFailures :: nat
  s_disabledReason :: "string option"

type_synonym sub_table = "subscription list"

subsection \<open>Reads and writes\<close>

definition getWebhookSubscriptionById :: "sub_table \<Rightarrow> string \<Rightarrow> subscription option" where
  "getWebhookSubscriptionById db i = find (\<lambda>s. s_id s = i) db"

text \<open>\<open>UPDATE \<dots> WHERE cond RETURNING *\<close>.\<close>

definition update_where ::
  "(subscription \<Rightarrow> bool) \<Rightarrow> (subscription \<Rightarrow> subscription) \<Rightarrow> sub_table \<Rightarrow> subscription list \<times> sub_table" where
  "update_where cond f db = (map f (filter cond db), map (\<lambda>s. if cond s then f s else s) db)"

definition first_row :: "'a list \<Rightarrow> 'a option" where
  "first_row rows = (case rows of [] \<Rightarrow> None | r # _ \<Rightarrow> Some r)"

text \<open>An update that is present sets the column, \<open>Some None\<close> setting it to \<open>NULL\<close>.\<close>

record sub_updates =
  u_url :: "string option"
  u_description :: "string option option"
  u_enabled :: "bool option"
  u_disabledReason :: "string option option"
  u_consecutiveFailures :: "nat option"
  u_failureStreakStartedAt :: "string option option"
  u_sourceId :: "string option option"
  u_productId :: "string option option"
  u_releaseType :: "release_type option option"
  u_format :: "webhook_format option"

definition no_updates :: sub_updates where
  "no_updates = \<lparr>u_url = None, u_description = None, u_enabled = None, u_disabledReason = None,
     u_consecutiveFailures = None, u_failureStreakStartedAt = None, u_sourceId = None, u_productId = None,
     u_releaseType = None, u_format = None\<rparr>"

definition set_or :: "'a option \<Rightarrow> 'a \<Rightarrow> 'a" where
  "set_or u old = (case u of Some v \<Rightarrow> v | None \<Rightarrow> old)"

definition apply_updates :: "sub_updates \<Rightarrow> subscription \<Rightarrow> subscription" where
  "apply_updates u s = s\<lparr>s_url := set_or (u_url u) (s_url s), s_description := set_or (u_description u) (s_description s),
     s_enabled := set_or (u_enabled u) (s_enabled s), s_disabledReason := set_or (u_disabledReason u) (s_disabledReason s),
     s_consecutiveFailures := set_or (u_consecutiveFailures u) (s_consecutiveFailures s),
     s_failureStreakStartedAt := set_or (u_failureStreakStartedAt u) (s_failureStreakStartedAt s),
     s_sourceId := set_or (u_sourceId u) (s_sourceId s), s_productId := set_or (u_productId u) (s_productId s),
     s_releaseType := set_or (u_releaseType u) (s_releaseType s), s_format := set_or (u_format u) (s_format s)\<rparr>"

definition updateWebhookSubscription :: "sub_table \<Rightarrow> string \<Rightarrow> sub_updates \<Rightarrow> subscription option \<times> sub_table" where
  "updateWebhookSubscription db i u =
     (case update_where (\<lambda>s. s_id s = i) (apply_updates u) db of (rows, db') \<Rightarrow> (first_row rows, db'))"

definition deleteWebhookSubscription :: "sub_table \<Rightarrow> string \<Rightarrow> sub_table" where
  "deleteWebhookSubscription db i = filter (\<lambda>s. s_id s \<noteq> i) db"

definition bumpWebhookSecretVersion :: "sub_table \<Rightarrow> string \<Rightarrow> int option \<times> sub_table" where
  "bumpWebhookSecretVersion db i =
     (case update_where (\<lambda>s. s_id s = i) (\<lambda>s. s\<lparr>s_secretVersion := s_secretVersion s + 1\<rparr>) db of
        (rows, db') \<Rightarrow> (map_option s_secretVersion (first_row rows), db'))"

definition matchWebhookSubscriptions :: "sub_table \<Rightarrow> string list \<Rightarrow> subscription list" where
  "matchWebhookSubscriptions db orgIds =
     (if orgIds = [] then []
      else filter (\<lambda>s. s_enabled s \<and> s_scope s = ScopeOrg \<and> (case s_orgId s of Some o' \<Rightarrow> o' \<in> set orgIds | None \<Rightarrow> False)) db)"

definition matchFollowsScopedWebhookSubscriptions :: "sub_table \<Rightarrow> subscription list" where
  "matchFollowsScopedWebhookSubscriptions db = filter (\<lambda>s. s_enabled s \<and> s_scope s = ScopeFollows) db"

datatype webhook_owner = UserOwner string | WorkspaceOwner string

record sub_input =
  i_scope :: webhook_scope
  i_orgId :: "string option"
  i_url :: string
  i_sourceId :: "string option"
  i_productId :: "string option"
  i_releaseType :: "release_type option"
  i_format :: webhook_format
  i_description :: "string option"

definition owner_user :: "webhook_owner \<Rightarrow> string option" where
  "owner_user w = (case w of UserOwner u \<Rightarrow> Some u | WorkspaceOwner _ \<Rightarrow> None)"
definition owner_workspace :: "webhook_owner \<Rightarrow> string option" where
  "owner_workspace w = (case w of UserOwner _ \<Rightarrow> None | WorkspaceOwner x \<Rightarrow> Some x)"

definition ownerMatch :: "webhook_owner \<Rightarrow> subscription \<Rightarrow> bool" where
  "ownerMatch w s = (case w of UserOwner u \<Rightarrow> s_userId s = Some u | WorkspaceOwner x \<Rightarrow> s_workspaceId s = Some x)"

text \<open>The columns an insert leaves out take their defaults.\<close>

definition new_row :: "string \<Rightarrow> string \<Rightarrow> string option \<Rightarrow> string option \<Rightarrow> sub_input \<Rightarrow> subscription" where
  "new_row i createdAt user workspace inp =
     \<lparr>s_id = i, s_userId = user, s_workspaceId = workspace, s_scope = i_scope inp, s_orgId = i_orgId inp, s_url = i_url inp,
      s_sourceId = i_sourceId inp, s_productId = i_productId inp, s_releaseType = i_releaseType inp, s_enabled = True,
      s_description = i_description inp, s_format = i_format inp, s_secretVersion = 1, s_createdAt = createdAt,
      s_lastSuccessAt = None, s_lastErrorAt = None, s_lastErrorMsg = None, s_failureStreakStartedAt = None,
      s_consecutiveFailures = 0, s_disabledReason = None\<rparr>"

definition insertWebhookSubscription :: "sub_table \<Rightarrow> string \<Rightarrow> string \<Rightarrow> sub_input \<Rightarrow> subscription \<times> sub_table" where
  "insertWebhookSubscription db i createdAt inp =
     (let follows = (i_scope inp = ScopeFollows);
          row = new_row i createdAt None None
            (inp\<lparr>i_sourceId := (if follows then None else i_sourceId inp),
                 i_productId := (if follows then None else i_productId inp)\<rparr>)
      in (row, db @ [row]))"

definition owner_count :: "sub_table \<Rightarrow> webhook_owner \<Rightarrow> webhook_scope \<Rightarrow> nat" where
  "owner_count db w scope = length (filter (\<lambda>s. ownerMatch w s \<and> s_scope s = scope) db)"

definition insertWebhookSubscriptionCapped ::
  "sub_table \<Rightarrow> string \<Rightarrow> string \<Rightarrow> webhook_owner \<Rightarrow> sub_input \<Rightarrow> nat \<Rightarrow> subscription option \<times> sub_table" where
  "insertWebhookSubscriptionCapped db i createdAt w inp cap =
     (if owner_count db w (i_scope inp) < cap
      then let db' = db @ [new_row i createdAt (owner_user w) (owner_workspace w) inp]
           in (getWebhookSubscriptionById db' i, db')
      else (None, db))"

subsection \<open>\<open>buildWebhookPatchUpdates\<close>\<close>

record patch_body =
  pb_url :: "string option"
  pb_description :: "string option option"
  pb_enabled :: "bool option"
  pb_disabledReason :: "string option"
  pb_format :: "string option"

definition webhook_format_of :: "string \<Rightarrow> webhook_format option" where
  "webhook_format_of s = (if s = ''json'' then Some JsonFormat else if s = ''slack'' then Some SlackFormat
     else if s = ''discord'' then Some DiscordFormat else None)"

definition quoted :: "string \<Rightarrow> string" where "quoted s = CHR 0x27 # s @ [CHR 0x27]"
definition BAD_FORMAT :: string where
  "BAD_FORMAT = ''format must be '' @ quoted ''json'' @ '', '' @ quoted ''slack'' @ '', or '' @ quoted ''discord''"

definition patch_format ::
  "(string \<Rightarrow> url_parts option) \<Rightarrow> patch_body \<Rightarrow> sub_updates \<Rightarrow> string + sub_updates" where
  "patch_format parse_url body updates =
     (case pb_format body of None \<Rightarrow> Inr updates
      | Some f \<Rightarrow>
          (case webhook_format_of f of None \<Rightarrow> Inl BAD_FORMAT
           | Some fmt \<Rightarrow>
               (case (case pb_url body of None \<Rightarrow> None | Some u \<Rightarrow> validateFormatWebhookUrl parse_url fmt u) of
                  Some e \<Rightarrow> Inl e
                | None \<Rightarrow> Inr (updates\<lparr>u_format := Some fmt\<rparr>))))"

definition patch_enabled :: "patch_body \<Rightarrow> sub_updates \<Rightarrow> sub_updates" where
  "patch_enabled body updates =
     (case pb_enabled body of None \<Rightarrow> updates
      | Some True \<Rightarrow> updates\<lparr>u_enabled := Some True, u_consecutiveFailures := Some 0, u_disabledReason := Some None,
                             u_failureStreakStartedAt := Some None\<rparr>
      | Some False \<Rightarrow> updates\<lparr>u_enabled := Some False,
                              u_disabledReason := Some (Some (set_or (pb_disabledReason body) ''manually disabled''))\<rparr>)"

definition buildWebhookPatchUpdates ::
  "(string \<Rightarrow> url_parts option) \<Rightarrow> patch_body \<Rightarrow> string + sub_updates" where
  "buildWebhookPatchUpdates parse_url body =
     (case (case pb_url body of None \<Rightarrow> None | Some u \<Rightarrow> validateWebhookUrl parse_url u) of
        Some e \<Rightarrow> Inl e
      | None \<Rightarrow>
          (case patch_format parse_url body (no_updates\<lparr>u_url := pb_url body\<rparr>) of
             Inl e \<Rightarrow> Inl e
           | Inr updates \<Rightarrow>
               (let updates' = patch_enabled body (updates\<lparr>u_description := pb_description body\<rparr>)
                in if updates' = no_updates then Inl ''no recognized fields to update'' else Inr updates')))"

subsection \<open>\<open>webhook-delivery-state.ts\<close>\<close>

datatype summary_update = SuccessUpdate string | ErrorUpdate string string

definition record_success :: "string \<Rightarrow> subscription \<Rightarrow> subscription" where
  "record_success ts s = s\<lparr>s_lastSuccessAt := Some ts, s_consecutiveFailures := 0, s_failureStreakStartedAt := None\<rparr>"

definition record_error :: "string \<Rightarrow> string \<Rightarrow> subscription \<Rightarrow> subscription" where
  "record_error ts msg s = s\<lparr>s_lastErrorAt := Some ts, s_lastErrorMsg := Some msg,
     s_consecutiveFailures := s_consecutiveFailures s + 1,
     s_failureStreakStartedAt := (if s_consecutiveFailures s = 0 then Some ts else s_failureStreakStartedAt s)\<rparr>"

definition updateWebhookSubscriptionSummary ::
  "sub_table \<Rightarrow> string \<Rightarrow> summary_update \<Rightarrow> subscription option \<times> sub_table" where
  "updateWebhookSubscriptionSummary db i u =
     (case update_where (\<lambda>s. s_id s = i)
         (case u of SuccessUpdate ts \<Rightarrow> record_success ts | ErrorUpdate ts msg \<Rightarrow> record_error ts msg) db of
        (rows, db') \<Rightarrow> (first_row rows, db'))"

record observed_failures =
  ob_consecutiveFailures :: nat
  ob_failureStreakStartedAt :: "string option"

definition enabled_cond :: "string \<Rightarrow> bool \<Rightarrow> observed_failures option \<Rightarrow> subscription \<Rightarrow> bool" where
  "enabled_cond i enabled observed s \<longleftrightarrow>
     s_id s = i \<and> s_enabled s = (\<not> enabled)
   \<and> (case observed of None \<Rightarrow> True
      | Some ob \<Rightarrow> enabled \<or> (s_consecutiveFailures s = ob_consecutiveFailures ob
          \<and> s_failureStreakStartedAt s = ob_failureStreakStartedAt ob))"

definition setWebhookSubscriptionEnabled ::
  "sub_table \<Rightarrow> string \<Rightarrow> bool \<Rightarrow> string option \<Rightarrow> observed_failures option \<Rightarrow> bool \<times> sub_table" where
  "setWebhookSubscriptionEnabled db i enabled reason observed =
     (case update_where (enabled_cond i enabled observed)
         (\<lambda>s. s\<lparr>s_enabled := enabled, s_disabledReason := (if enabled then None else reason)\<rparr>) db of
        (rows, db') \<Rightarrow> (rows \<noteq> [], db'))"

subsection \<open>Matching and fan-out\<close>

record user_follow_targets =
  f_orgIds :: "string list"
  f_productIds :: "string list"

record event_owner =
  o_orgId :: string
  o_sourceId :: string
  o_productId :: "string option"
  o_releaseType :: release_type

definition releaseMatchesFollows :: "event_owner \<Rightarrow> user_follow_targets \<Rightarrow> bool" where
  "releaseMatchesFollows own follows =
     (if o_orgId own \<in> set (f_orgIds follows) then True
      else if text_of (o_productId own) \<noteq> [] \<and> text_of (o_productId own) \<in> set (f_productIds follows) then True
      else False)"

definition emptyFollowTargets :: user_follow_targets where
  "emptyFollowTargets = \<lparr>f_orgIds = [], f_productIds = []\<rparr>"

record follow_row =
  fr_userId :: string
  fr_targetType :: string
  fr_targetId :: string

definition fold_follow :: "follow_row \<Rightarrow> (string \<times> user_follow_targets) list \<Rightarrow> (string \<times> user_follow_targets) list" where
  "fold_follow row out =
     (let targets = (case map_of out (fr_userId row) of Some t \<Rightarrow> t | None \<Rightarrow> emptyFollowTargets);
          targets' = (if fr_targetType row = ''org'' then targets\<lparr>f_orgIds := oset_add (fr_targetId row) (f_orgIds targets)\<rparr>
            else if fr_targetType row = ''product'' then targets\<lparr>f_productIds := oset_add (fr_targetId row) (f_productIds targets)\<rparr>
            else targets)
      in AList.update (fr_userId row) targets' out)"

definition foldUserFollowRows :: "follow_row list \<Rightarrow> (string \<times> user_follow_targets) list" where
  "foldUserFollowRows rows = fold fold_follow rows []"

definition RELEASE_TYPES :: "string list" where "RELEASE_TYPES = [''feature'', ''rollup'']"

text \<open>A query or body value: absent or \<open>null\<close>, a string, or something else.\<close>

datatype js_value = Absent | JsString string | OtherValue
datatype type_filter = NoFilter | OnlyType release_type | InvalidFilter

definition parseReleaseTypeFilter :: "js_value \<Rightarrow> type_filter" where
  "parseReleaseTypeFilter v =
     (case v of Absent \<Rightarrow> NoFilter
      | JsString s \<Rightarrow> if s = [] then NoFilter
          else if s \<in> set RELEASE_TYPES then OnlyType (if s = ''feature'' then Feature else Rollup) else InvalidFilter
      | OtherValue \<Rightarrow> InvalidFilter)"

definition orgSubscriptionMatchesEvent :: "subscription \<Rightarrow> event_owner \<Rightarrow> bool" where
  "orgSubscriptionMatchesEvent sub own =
     (if s_scope sub = ScopeFollows then False
      else if text_of (s_orgId sub) = [] \<or> s_orgId sub \<noteq> Some (o_orgId own) then False
      else if s_sourceId sub \<noteq> None \<and> s_sourceId sub \<noteq> Some (o_sourceId own) then False
      else if s_productId sub \<noteq> None \<and> s_productId sub \<noteq> o_productId own then False
      else if s_releaseType sub \<noteq> None \<and> s_releaseType sub \<noteq> Some (o_releaseType own) then False
      else True)"

definition followsSubscriptionMatchesEvent :: "subscription \<Rightarrow> event_owner \<Rightarrow> user_follow_targets \<Rightarrow> bool" where
  "followsSubscriptionMatchesEvent sub own follows =
     (if s_scope sub \<noteq> ScopeFollows \<or> text_of (s_userId sub) = [] then False
      else if \<not> releaseMatchesFollows own follows then False
      else if s_releaseType sub \<noteq> None \<and> s_releaseType sub \<noteq> Some (o_releaseType own) then False
      else True)"

record 'e delivery_message =
  dm_subscriptionId :: string
  dm_url :: string
  dm_secretVersion :: int
  dm_format :: "webhook_format option"
  dm_event :: 'e
  dm_attempt :: nat

definition message_for :: "'e \<Rightarrow> subscription \<Rightarrow> 'e delivery_message" where
  "message_for event sub = \<lparr>dm_subscriptionId = s_id sub, dm_url = s_url sub, dm_secretVersion = s_secretVersion sub,
     dm_format = Some (s_format sub), dm_event = event, dm_attempt = 1\<rparr>"

definition expand :: "'e list \<Rightarrow> subscription list \<Rightarrow> ('e \<Rightarrow> event_owner option) \<Rightarrow> 'e delivery_message list" where
  "expand events subs eventOwner =
     concat (map (\<lambda>event. case eventOwner event of None \<Rightarrow> []
       | Some own \<Rightarrow> map (message_for event) (filter (\<lambda>sub. orgSubscriptionMatchesEvent sub own) subs)) events)"

definition follows_of :: "(string \<times> user_follow_targets) list \<Rightarrow> subscription \<Rightarrow> user_follow_targets option" where
  "follows_of followsByUserId sub =
     (if text_of (s_userId sub) \<noteq> [] then map_of followsByUserId (text_of (s_userId sub)) else None)"

definition expandFollows ::
  "'e list \<Rightarrow> subscription list \<Rightarrow> ('e \<Rightarrow> event_owner option) \<Rightarrow> (string \<times> user_follow_targets) list \<Rightarrow> 'e delivery_message list" where
  "expandFollows events subs eventOwner followsByUserId =
     concat (map (\<lambda>event. case eventOwner event of None \<Rightarrow> []
       | Some own \<Rightarrow> map (message_for event) (filter (\<lambda>sub.
           case follows_of followsByUserId sub of None \<Rightarrow> False
           | Some follows \<Rightarrow> followsSubscriptionMatchesEvent sub own follows) subs)) events)"

definition QUEUE_BATCH_LIMIT :: nat where "QUEUE_BATCH_LIMIT = 100"

text \<open>A loader that fails is \<^const>\<open>None\<close>; a failure is logged and, when \<open>throwOnError\<close> is set, thrown
  again after the batches sent so far.\<close>

type_synonym 'x loader = "string list \<Rightarrow> 'x option"

definition org_messages ::
  "subscription list loader \<Rightarrow> ('e \<Rightarrow> event_owner option) \<Rightarrow> 'e list \<Rightarrow> 'e delivery_message list option" where
  "org_messages loadOrgSubscriptions eventOwner events =
     (let orgIds = oset_of (filter (\<lambda>x. x \<noteq> []) (map (\<lambda>e. text_of (map_option o_orgId (eventOwner e))) events))
      in if orgIds = [] then Some []
         else (case loadOrgSubscriptions orgIds of None \<Rightarrow> None
               | Some orgSubs \<Rightarrow> Some (if orgSubs = [] then [] else expand events orgSubs eventOwner)))"

definition follow_messages ::
  "(subscription list option \<times> (string \<times> user_follow_targets) list loader) option \<Rightarrow> ('e \<Rightarrow> event_owner option) \<Rightarrow>
   'e list \<Rightarrow> 'e delivery_message list option" where
  "follow_messages loadFollows eventOwner events =
     (case loadFollows of None \<Rightarrow> Some []
      | Some (None, _) \<Rightarrow> None
      | Some (Some followsSubs, loadTargets) \<Rightarrow>
          if followsSubs = [] then Some []
          else (let userIds = oset_of (filter (\<lambda>x. x \<noteq> []) (map (\<lambda>s. text_of (s_userId s)) followsSubs))
                in map_option (expandFollows events followsSubs eventOwner) (loadTargets userIds)))"

fun send_batches :: "('m list \<Rightarrow> bool) \<Rightarrow> 'm list list \<Rightarrow> 'm list list \<times> bool" where
  "send_batches sendBatch [] = ([], True)"
| "send_batches sendBatch (b # bs) =
     (if sendBatch b then (case send_batches sendBatch bs of (sent, ok) \<Rightarrow> (b # sent, ok)) else ([], False))"

definition expandAndEnqueue ::
  "subscription list loader \<Rightarrow> (subscription list option \<times> (string \<times> user_follow_targets) list loader) option \<Rightarrow>
   ('e delivery_message list \<Rightarrow> bool) \<Rightarrow> bool \<Rightarrow> ('e \<Rightarrow> event_owner option) \<Rightarrow> 'e list \<Rightarrow>
   'e delivery_message list list \<times> bool" where
  "expandAndEnqueue loadOrgSubscriptions loadFollows sendBatch throwOnError eventOwner events =
     (if events = [] then ([], False)
      else (case org_messages loadOrgSubscriptions eventOwner events of None \<Rightarrow> ([], throwOnError)
        | Some m1 \<Rightarrow>
            (case follow_messages loadFollows eventOwner events of None \<Rightarrow> ([], throwOnError)
             | Some m2 \<Rightarrow>
                 (case send_batches sendBatch (slices QUEUE_BATCH_LIMIT (m1 @ m2)) of
                    (sent, ok) \<Rightarrow> (sent, \<not> ok \<and> throwOnError)))))"

subsection \<open>Who gets an event\<close>

definition type_wanted :: "subscription \<Rightarrow> event_owner \<Rightarrow> bool" where
  "type_wanted s own \<longleftrightarrow> s_releaseType s = None \<or> s_releaseType s = Some (o_releaseType own)"

text \<open>What a subscription asks for, in terms of its row and the rows of \<open>user_follows\<close>.\<close>

definition org_wanted :: "subscription \<Rightarrow> event_owner \<Rightarrow> bool" where
  "org_wanted s own \<longleftrightarrow> s_scope s = ScopeOrg \<and> s_orgId s = Some (o_orgId own) \<and> o_orgId own \<noteq> []
     \<and> (s_sourceId s = None \<or> s_sourceId s = Some (o_sourceId own))
     \<and> (s_productId s = None \<or> s_productId s = o_productId own) \<and> type_wanted s own"

definition follows_wanted :: "follow_row list \<Rightarrow> subscription \<Rightarrow> event_owner \<Rightarrow> bool" where
  "follows_wanted rows s own \<longleftrightarrow> s_scope s = ScopeFollows \<and> text_of (s_userId s) \<noteq> [] \<and> type_wanted s own
     \<and> list_ex (\<lambda>r. Some (fr_userId r) = s_userId s \<and>
         (fr_targetType r = ''org'' \<and> fr_targetId r = o_orgId own
          \<or> fr_targetType r = ''product'' \<and> fr_targetId r \<noteq> [] \<and> Some (fr_targetId r) = o_productId own)) rows"

definition wanted :: "follow_row list \<Rightarrow> subscription \<Rightarrow> event_owner \<Rightarrow> bool" where
  "wanted rows s own \<longleftrightarrow> s_enabled s \<and> (org_wanted s own \<or> follows_wanted rows s own)"

definition pairs_of :: "'e delivery_message list \<Rightarrow> ('e \<times> string) list" where
  "pairs_of ms = map (\<lambda>m. (dm_event m, dm_subscriptionId m)) ms"

lemma org_match: "orgSubscriptionMatchesEvent s own \<longleftrightarrow> org_wanted s own"
  by (cases "s_scope s"; cases "s_orgId s") (auto simp: orgSubscriptionMatchesEvent_def org_wanted_def type_wanted_def)

definition targets_of :: "follow_row list \<Rightarrow> string \<Rightarrow> string \<Rightarrow> string set" where
  "targets_of rows u t = {fr_targetId r | r. r \<in> set rows \<and> fr_userId r = u \<and> fr_targetType r = t}"

lemma fold_follow_spec:
  "(case map_of (foldUserFollowRows rows) u of
      None \<Rightarrow> \<not> list_ex (\<lambda>r. fr_userId r = u) rows
    | Some t \<Rightarrow> list_ex (\<lambda>r. fr_userId r = u) rows \<and> set (f_orgIds t) = targets_of rows u ''org''
        \<and> set (f_productIds t) = targets_of rows u ''product'')"
proof (induction rows rule: rev_induct)
  case (snoc r rows)
  have t: "targets_of (rows @ [r]) u k = targets_of rows u k \<union> (if fr_userId r = u \<and> fr_targetType r = k then {fr_targetId r} else {})" for k
    by (auto simp: targets_of_def)
  have none: "targets_of rows u k = {}" if "\<not> list_ex (\<lambda>r. fr_userId r = u) rows" for k
    using that by (auto simp: targets_of_def list_ex_iff)
  show ?case
    using snoc none unfolding foldUserFollowRows_def fold_append fold_simps comp_apply fold_follow_def t
    by (auto simp: update_conv' Let_def emptyFollowTargets_def split: option.splits)
qed (simp add: foldUserFollowRows_def)

lemma follows_match:
  assumes "s_userId s = Some u"
  shows "(case map_of (foldUserFollowRows rows) u of None \<Rightarrow> False | Some t \<Rightarrow> followsSubscriptionMatchesEvent s own t)
    \<longleftrightarrow> follows_wanted rows s own"
proof -
  have "(case map_of (foldUserFollowRows rows) u of None \<Rightarrow> False | Some t \<Rightarrow> releaseMatchesFollows own t) \<longleftrightarrow>
      list_ex (\<lambda>r. fr_userId r = u \<and> (fr_targetType r = ''org'' \<and> fr_targetId r = o_orgId own
        \<or> fr_targetType r = ''product'' \<and> fr_targetId r \<noteq> [] \<and> Some (fr_targetId r) = o_productId own)) rows"
    using fold_follow_spec [where rows = rows and u = u]
    by (cases "map_of (foldUserFollowRows rows) u"; cases "o_productId own")
      (auto simp: releaseMatchesFollows_def list_ex_iff targets_of_def)
  then show ?thesis using assms
    by (cases "map_of (foldUserFollowRows rows) u"; cases "s_scope s")
      (simp_all add: followsSubscriptionMatchesEvent_def follows_wanted_def type_wanted_def)
qed

lemma follows_match_row:
  assumes "loaded = foldUserFollowRows (filter (\<lambda>r. fr_userId r \<in> set users) rows)"
    and "text_of (s_userId s) \<noteq> [] \<Longrightarrow> text_of (s_userId s) \<in> set users"
  shows "(case follows_of loaded s of None \<Rightarrow> False | Some t \<Rightarrow> followsSubscriptionMatchesEvent s own t)
    \<longleftrightarrow> follows_wanted rows s own"
proof (cases "s_userId s")
  case (Some u)
  show ?thesis
  proof (cases "u = []")
    case False
    then have u: "u \<in> set users" using assms(2) Some by simp
    have "follows_wanted (filter (\<lambda>r. fr_userId r \<in> set users) rows) s own \<longleftrightarrow> follows_wanted rows s own"
      using u Some by (auto simp: follows_wanted_def list_ex_iff)
    then show ?thesis using follows_match [OF Some] False Some by (simp add: follows_of_def assms(1))
  qed (simp add: Some follows_of_def follows_wanted_def)
qed (simp add: follows_of_def follows_wanted_def)

lemma org_messages_eq:
  "org_messages (\<lambda>ids. Some (matchWebhookSubscriptions db ids)) eventOwner events = Some (concat (map (\<lambda>e.
     case eventOwner e of None \<Rightarrow> [] | Some own \<Rightarrow> map (message_for e) (filter (\<lambda>s. s_enabled s \<and> org_wanted s own) db)) events))"
proof -
  let ?ids = "oset_of (filter (\<lambda>x. x \<noteq> []) (map (\<lambda>e. text_of (map_option o_orgId (eventOwner e))) events))"
  let ?subs = "matchWebhookSubscriptions db ?ids"
  have mem: "o_orgId own \<in> set ?ids" if "e \<in> set events" "eventOwner e = Some own" "o_orgId own \<noteq> []" for e own
    using that by (force simp: image_iff)
  have sel: "filter (\<lambda>s. orgSubscriptionMatchesEvent s own) ?subs = filter (\<lambda>s. s_enabled s \<and> org_wanted s own) db"
    if "e \<in> set events" "eventOwner e = Some own" "?ids \<noteq> []" for e own
  proof -
    have "o_orgId own \<noteq> [] \<Longrightarrow> o_orgId own \<in> set ?ids" by (rule mem [OF that(1,2)])
    then show ?thesis using that(3)
      by (auto simp: matchWebhookSubscriptions_def org_match filter_filter org_wanted_def intro!: filter_cong)
  qed
  have none: "filter (\<lambda>s. s_enabled s \<and> org_wanted s own) db = []"
    if "e \<in> set events" "eventOwner e = Some own" "?ids = []" for e own
  proof -
    have "o_orgId own \<notin> set ?ids" unfolding that(3) by simp
    then have "o_orgId own = []" using mem [OF that(1,2)] by blast
    then show ?thesis by (simp add: org_wanted_def)
  qed
  have "expand events ?subs eventOwner = concat (map (\<lambda>e. case eventOwner e of None \<Rightarrow> []
      | Some own \<Rightarrow> map (message_for e) (filter (\<lambda>s. s_enabled s \<and> org_wanted s own) db)) events)" if "?ids \<noteq> []"
    unfolding expand_def using sel that by (intro arg_cong [of _ _ concat] map_cong refl) (auto split: option.split)
  moreover have "concat (map (\<lambda>e. case eventOwner e of None \<Rightarrow> []
      | Some own \<Rightarrow> map (message_for e) (filter (\<lambda>s. s_enabled s \<and> org_wanted s own) db)) events) = []" if "?ids = []"
    using none that by (auto split: option.split)
  moreover have "expand events [] eventOwner = []" by (simp add: expand_def split: option.split)
  ultimately show ?thesis by (auto simp: org_messages_def Let_def)
qed

lemma follow_messages_eq:
  "follow_messages (Some (Some (matchFollowsScopedWebhookSubscriptions db),
       \<lambda>users. Some (foldUserFollowRows (filter (\<lambda>r. fr_userId r \<in> set users) rows)))) eventOwner events =
   Some (concat (map (\<lambda>e. case eventOwner e of None \<Rightarrow> []
     | Some own \<Rightarrow> map (message_for e) (filter (\<lambda>s. s_enabled s \<and> follows_wanted rows s own) db)) events))"
proof -
  let ?subs = "matchFollowsScopedWebhookSubscriptions db"
  let ?users = "oset_of (filter (\<lambda>x. x \<noteq> []) (map (\<lambda>s. text_of (s_userId s)) ?subs))"
  have "filter (\<lambda>s. case follows_of (foldUserFollowRows (filter (\<lambda>r. fr_userId r \<in> set ?users) rows)) s of None \<Rightarrow> False
      | Some t \<Rightarrow> followsSubscriptionMatchesEvent s own t) ?subs = filter (\<lambda>s. s_enabled s \<and> follows_wanted rows s own) db" for own
  proof -
    have "(case follows_of (foldUserFollowRows (filter (\<lambda>r. fr_userId r \<in> set ?users) rows)) s of None \<Rightarrow> False
      | Some t \<Rightarrow> followsSubscriptionMatchesEvent s own t) \<longleftrightarrow> follows_wanted rows s own" if "s \<in> set ?subs" for s
      using that by (intro follows_match_row [OF refl]) auto
    then have "filter (\<lambda>s. case follows_of (foldUserFollowRows (filter (\<lambda>r. fr_userId r \<in> set ?users) rows)) s of None \<Rightarrow> False
      | Some t \<Rightarrow> followsSubscriptionMatchesEvent s own t) ?subs = filter (\<lambda>s. follows_wanted rows s own) ?subs"
      by (rule filter_cong [OF refl])
    then show ?thesis
      by (auto simp: matchFollowsScopedWebhookSubscriptions_def filter_filter follows_wanted_def intro!: filter_cong)
  qed
  then have "expandFollows events ?subs eventOwner (foldUserFollowRows (filter (\<lambda>r. fr_userId r \<in> set ?users) rows)) =
      concat (map (\<lambda>e. case eventOwner e of None \<Rightarrow> []
     | Some own \<Rightarrow> map (message_for e) (filter (\<lambda>s. s_enabled s \<and> follows_wanted rows s own) db)) events)"
    unfolding expandFollows_def by (simp only:)
  moreover have "filter (\<lambda>s. s_enabled s \<and> follows_wanted rows s own) db = []" if "?subs = []" for own
    using that by (auto simp: matchFollowsScopedWebhookSubscriptions_def filter_empty_conv follows_wanted_def)
  ultimately show ?thesis by (auto simp: follow_messages_def Let_def split: option.split)
qed

definition fan :: "(event_owner \<Rightarrow> subscription \<Rightarrow> bool) \<Rightarrow> ('e \<Rightarrow> event_owner option) \<Rightarrow> sub_table \<Rightarrow> 'e list \<Rightarrow> 'e delivery_message list" where
  "fan P eventOwner db events = concat (map (\<lambda>e. case eventOwner e of None \<Rightarrow> []
     | Some own \<Rightarrow> map (message_for e) (filter (P own) db)) events)"

lemma pairs_of_map [simp]: "pairs_of (map (message_for e) xs) = map (\<lambda>s. (e, s_id s)) xs"
  by (simp add: pairs_of_def message_for_def)

lemma fan_pairs:
  "(e, i) \<in> set (pairs_of (fan P eventOwner db events)) \<longleftrightarrow>
     e \<in> set events \<and> (\<exists>own s. eventOwner e = Some own \<and> s \<in> set db \<and> s_id s = i \<and> P own s)"
proof (induction events)
  case (Cons a events)
  have "(e, i) \<in> set (pairs_of (case eventOwner a of None \<Rightarrow> [] | Some own \<Rightarrow> map (message_for a) (filter (P own) db))) \<longleftrightarrow>
      e = a \<and> (\<exists>own s. eventOwner e = Some own \<and> s \<in> set db \<and> s_id s = i \<and> P own s)"
    by (cases "eventOwner a") (auto simp: pairs_of_def [of "[]"])
  then show ?case using Cons by (auto simp: fan_def pairs_of_def)
qed (simp add: fan_def pairs_of_def)

lemma fan_distinct:
  assumes "distinct (map s_id db)"
  shows "distinct events \<Longrightarrow> distinct (pairs_of (fan P eventOwner db events))"
proof (induction events)
  case (Cons a events)
  let ?one = "case eventOwner a of None \<Rightarrow> [] | Some own \<Rightarrow> map (message_for a) (filter (P own) db)"
  have "pairs_of ?one = (case eventOwner a of None \<Rightarrow> [] | Some own \<Rightarrow> map (\<lambda>i. (a, i)) (map s_id (filter (P own) db)))"
    by (cases "eventOwner a") (auto simp: pairs_of_def [of "[]"])
  moreover have "distinct (map (\<lambda>i. (a, i)) (map s_id (filter (P own) db)))" for own
    using assms by (simp add: distinct_map_filter distinct_map [of "Pair a"] inj_on_def del: map_map)
  ultimately have "distinct (pairs_of ?one)" by (simp split: option.split)
  moreover have "e = a" if "(e, i) \<in> set (pairs_of ?one)" for e i
    using that by (cases "eventOwner a") (auto simp: pairs_of_def [of "[]"])
  moreover have "(a, i) \<notin> set (pairs_of (fan P eventOwner db events))" for i using Cons.prems by (simp add: fan_pairs)
  ultimately have "distinct (pairs_of ?one @ pairs_of (fan P eventOwner db events))"
    using Cons unfolding distinct_append by auto
  then show ?case by (simp add: fan_def pairs_of_def)
qed (simp add: fan_def pairs_of_def)

lemma send_all: "send_batches (\<lambda>_. True) bs = (bs, True)"
  by (induction bs) auto

text \<open>C3: the fan-out of a batch of events.  Every enabled subscription that asks for an event, by its org
  filters or by its owner's follows, gets exactly one message for it and no other subscription gets
  one; the messages go to the queue in batches of at most a hundred.\<close>
theorem fanout_exact:
  assumes "distinct (map s_id db)" and "distinct events"
  shows "\<exists>sent. expandAndEnqueue (\<lambda>ids. Some (matchWebhookSubscriptions db ids))
       (Some (Some (matchFollowsScopedWebhookSubscriptions db),
              \<lambda>users. Some (foldUserFollowRows (filter (\<lambda>r. fr_userId r \<in> set users) rows))))
       (\<lambda>_. True) throwOnError eventOwner events = (sent, False)
    \<and> list_all (\<lambda>b. b \<noteq> [] \<and> length b \<le> 100) sent
    \<and> distinct (pairs_of (concat sent))
    \<and> (\<forall>e i. (e, i) \<in> set (pairs_of (concat sent)) \<longleftrightarrow>
         e \<in> set events \<and> (\<exists>own s. eventOwner e = Some own \<and> s \<in> set db \<and> s_id s = i \<and> wanted rows s own))"
proof -
  let ?o = "fan (\<lambda>own s. s_enabled s \<and> org_wanted s own) eventOwner db events"
  let ?f = "fan (\<lambda>own s. s_enabled s \<and> follows_wanted rows s own) eventOwner db events"
  define sent where "sent = (if events = [] then [] else slices QUEUE_BATCH_LIMIT (?o @ ?f))"
  have concat: "concat sent = ?o @ ?f" by (simp add: sent_def QUEUE_BATCH_LIMIT_def) (simp add: fan_def)
  have "distinct (pairs_of (?o @ ?f))"
  proof -
    have "(e, i) \<notin> set (pairs_of ?f)" if "(e, i) \<in> set (pairs_of ?o)" for e i
    proof
      assume "(e, i) \<in> set (pairs_of ?f)"
      with that obtain s t where "s \<in> set db" "t \<in> set db" "s_id s = s_id t" "s_scope s = ScopeOrg" "s_scope t = ScopeFollows"
        by (auto simp: fan_pairs org_wanted_def follows_wanted_def)
      then show False using assms(1) by (auto simp: distinct_map inj_on_def)
    qed
    then show ?thesis using fan_distinct [OF assms] by (auto simp: pairs_of_def)
  qed
  moreover have "(e, i) \<in> set (pairs_of (?o @ ?f)) \<longleftrightarrow>
      e \<in> set events \<and> (\<exists>own s. eventOwner e = Some own \<and> s \<in> set db \<and> s_id s = i \<and> wanted rows s own)" for e i
  proof -
    have "(e, i) \<in> set (pairs_of (?o @ ?f)) \<longleftrightarrow> (e, i) \<in> set (pairs_of ?o) \<or> (e, i) \<in> set (pairs_of ?f)" by (simp add: pairs_of_def)
    then show ?thesis unfolding fan_pairs wanted_def by blast
  qed
  moreover have "expandAndEnqueue (\<lambda>ids. Some (matchWebhookSubscriptions db ids))
       (Some (Some (matchFollowsScopedWebhookSubscriptions db),
              \<lambda>users. Some (foldUserFollowRows (filter (\<lambda>r. fr_userId r \<in> set users) rows))))
       (\<lambda>_. True) throwOnError eventOwner events = (sent, False)"
    by (simp add: expandAndEnqueue_def org_messages_eq follow_messages_eq send_all fan_def sent_def)
  moreover have "list_all (\<lambda>b. b \<noteq> [] \<and> length b \<le> 100) sent"
    using slices_length [of _ 100 "?o @ ?f"] by (auto simp: sent_def list_all_iff QUEUE_BATCH_LIMIT_def)
  ultimately show ?thesis by (intro exI [of _ sent] conjI) (simp_all only: concat simp_thms)
qed

definition one_sub :: subscription where
  "one_sub = new_row ''whk_1'' ''2026-01-01'' (Some ''u'') None \<lparr>i_scope = ScopeOrg, i_orgId = Some ''org'', i_url = ''https://a.io'',
     i_sourceId = None, i_productId = None, i_releaseType = None, i_format = JsonFormat, i_description = None\<rparr>"

definition one_owner :: event_owner where
  "one_owner = \<lparr>o_orgId = ''org'', o_sourceId = ''src'', o_productId = None, o_releaseType = Feature\<rparr>"

theorem fanout_exact_witness:
  "\<exists>sent. expandAndEnqueue (\<lambda>ids. Some (matchWebhookSubscriptions [one_sub] ids))
       (Some (Some (matchFollowsScopedWebhookSubscriptions [one_sub]), \<lambda>users. Some (foldUserFollowRows [])))
       (\<lambda>_. True) True (\<lambda>_. Some one_owner) [''evt''] = (sent, False)
    \<and> (''evt'', ''whk_1'') \<in> set (pairs_of (concat sent))"
  using fanout_exact [of "[one_sub]" "[''evt'']" "[]" True "\<lambda>_. Some one_owner"]
  by (auto simp: one_sub_def new_row_def one_owner_def wanted_def org_wanted_def type_wanted_def)

subsection \<open>Caps under concurrent writers\<close>

definition MAX_USER_WEBHOOK_SUBSCRIPTIONS :: nat where "MAX_USER_WEBHOOK_SUBSCRIPTIONS = 10"
definition MAX_USER_FOLLOWS_WEBHOOK_SUBSCRIPTIONS :: nat where "MAX_USER_FOLLOWS_WEBHOOK_SUBSCRIPTIONS = 1"
definition MAX_WORKSPACE_WEBHOOK_SUBSCRIPTIONS :: nat where "MAX_WORKSPACE_WEBHOOK_SUBSCRIPTIONS = 10"

text \<open>The cap each create path passes.\<close>

definition max_subscriptions :: "webhook_owner \<Rightarrow> webhook_scope \<Rightarrow> nat" where
  "max_subscriptions w scope = (case w of
     UserOwner _ \<Rightarrow> (case scope of ScopeOrg \<Rightarrow> MAX_USER_WEBHOOK_SUBSCRIPTIONS
                                   | ScopeFollows \<Rightarrow> MAX_USER_FOLLOWS_WEBHOOK_SUBSCRIPTIONS)
   | WorkspaceOwner _ \<Rightarrow> MAX_WORKSPACE_WEBHOOK_SUBSCRIPTIONS)"

text \<open>One statement of any writer; the ids of new rows are fresh.\<close>

inductive table_step :: "sub_table \<Rightarrow> sub_table \<Rightarrow> bool" where
  create: "i \<notin> s_id ` set db \<Longrightarrow>
    table_step db (snd (insertWebhookSubscriptionCapped db i ts w inp (max_subscriptions w (i_scope inp))))"
| admin_create: "i \<notin> s_id ` set db \<Longrightarrow> table_step db (snd (insertWebhookSubscription db i ts inp))"
| patch: "table_step db (snd (updateWebhookSubscription db i u))"
| outcome: "table_step db (snd (updateWebhookSubscriptionSummary db i su))"
| toggle: "table_step db (snd (setWebhookSubscriptionEnabled db i enabled reason observed))"
| rotate: "table_step db (snd (bumpWebhookSecretVersion db i))"
| delete: "table_step db (deleteWebhookSubscription db i)"

inductive_cases table_stepE: "table_step db db'"

definition table_ok :: "sub_table \<Rightarrow> bool" where
  "table_ok db \<longleftrightarrow> distinct (map s_id db)
     \<and> list_all (\<lambda>s. s_userId s = None \<or> s_workspaceId s = None) db
     \<and> (\<forall>w scope. owner_count db w scope \<le> max_subscriptions w scope)"

definition same_place :: "subscription \<Rightarrow> subscription \<Rightarrow> bool" where
  "same_place s t \<longleftrightarrow> s_id s = s_id t \<and> s_userId s = s_userId t \<and> s_workspaceId s = s_workspaceId t \<and> s_scope s = s_scope t"

lemma table_ok_update:
  assumes "table_ok db" and "\<And>s. same_place (f s) s"
  shows "table_ok (snd (update_where c f db))"
proof -
  let ?g = "\<lambda>s. if c s then f s else s"
  have g: "same_place (?g s) s" for s using assms(2) by (simp add: same_place_def)
  have "map s_id (map ?g db) = map s_id db" using g by (simp add: same_place_def)
  moreover have "list_all (\<lambda>s. s_userId s = None \<or> s_workspaceId s = None) (map ?g db)"
  proof -
    have "s_userId (?g s) = None \<or> s_workspaceId (?g s) = None" if "s \<in> set db" for s
      using g [of s] that assms(1) unfolding same_place_def table_ok_def list_all_iff by metis
    then have "Ball (set db) (\<lambda>s. s_userId (?g s) = None \<or> s_workspaceId (?g s) = None)" by (rule ballI)
    then show ?thesis unfolding list_all_iff list.set_map ball_simps(9) .
  qed
  moreover have "owner_count (map ?g db) w scope = owner_count db w scope" for w scope
  proof -
    have "ownerMatch w (?g s) = ownerMatch w s \<and> s_scope (?g s) = s_scope s" for s
      using g [of s] by (auto simp: ownerMatch_def same_place_def split: webhook_owner.split)
    then show ?thesis by (simp add: owner_count_def filter_map comp_def cong: filter_cong)
  qed
  ultimately show ?thesis using assms(1) by (simp only: update_where_def snd_conv table_ok_def simp_thms)
qed

lemma table_ok_writes:
  assumes "table_ok db"
  shows "table_ok (snd (updateWebhookSubscription db i u))" "table_ok (snd (updateWebhookSubscriptionSummary db i su))"
    "table_ok (snd (setWebhookSubscriptionEnabled db i enabled reason observed))" "table_ok (snd (bumpWebhookSecretVersion db i))"
  unfolding updateWebhookSubscription_def updateWebhookSubscriptionSummary_def setWebhookSubscriptionEnabled_def
    bumpWebhookSecretVersion_def case_prod_beta snd_conv
  by (intro table_ok_update [OF assms];
      simp add: same_place_def apply_updates_def record_success_def record_error_def split: summary_update.split)+

lemma table_ok_append:
  assumes "table_ok db" "s_id r \<notin> s_id ` set db" "s_userId r = None \<or> s_workspaceId r = None"
    and "\<And>w. ownerMatch w r \<Longrightarrow> owner_count db w (s_scope r) < max_subscriptions w (s_scope r)"
  shows "table_ok (db @ [r])"
proof -
  have "owner_count (db @ [r]) w scope \<le> max_subscriptions w scope" for w scope
    using assms(1,4) by (auto simp: table_ok_def owner_count_def Suc_le_eq)
  then show ?thesis using assms(1-3) by (simp add: table_ok_def)
qed

lemma table_ok_step: "table_step db db' \<Longrightarrow> table_ok db \<Longrightarrow> table_ok db'"
proof (induction rule: table_step.induct)
  case (create i db ts w inp)
  have "ownerMatch w' (new_row i ts (owner_user w) (owner_workspace w) inp) \<longleftrightarrow> w' = w" for w'
    by (cases w; cases w') (auto simp: ownerMatch_def new_row_def owner_user_def owner_workspace_def)
  moreover have "s_id (new_row i ts a b inp) = i" "s_userId (new_row i ts a b inp) = a"
    "s_workspaceId (new_row i ts a b inp) = b" "s_scope (new_row i ts a b inp) = i_scope inp" for a b
    by (simp_all add: new_row_def)
  ultimately show ?case
    using create by (auto simp: insertWebhookSubscriptionCapped_def Let_def owner_user_def owner_workspace_def
        intro!: table_ok_append split: webhook_owner.split)
next
  case (admin_create i db ts inp)
  then show ?case
    by (auto simp: insertWebhookSubscription_def Let_def new_row_def ownerMatch_def intro!: table_ok_append split: webhook_owner.splits)
next
  case (delete db i)
  have "owner_count (filter (\<lambda>s. s_id s \<noteq> i) db) w scope \<le> owner_count db w scope" for w scope
    by (induction db) (auto simp: owner_count_def)
  then have "owner_count (filter (\<lambda>s. s_id s \<noteq> i) db) w scope \<le> max_subscriptions w scope" for w scope
    using delete unfolding table_ok_def by (meson order_trans)
  then show ?case using delete by (auto simp: deleteWebhookSubscription_def table_ok_def distinct_map_filter list_all_iff)
qed (simp_all add: table_ok_writes)

text \<open>C13: whatever writers run and however their statements interleave, no owner ever has more
  subscriptions of a scope than the cap, ids stay unique and no row has two owners.\<close>
theorem caps_hold:
  assumes "table_step\<^sup>*\<^sup>* [] db"
  shows "distinct (map s_id db) \<and> list_all (\<lambda>s. s_userId s = None \<or> s_workspaceId s = None) db
    \<and> owner_count db (UserOwner u) ScopeOrg \<le> 10 \<and> owner_count db (UserOwner u) ScopeFollows \<le> 1
    \<and> owner_count db (WorkspaceOwner w) scope \<le> 10"
proof -
  from assms have "table_ok db"
  proof (induction rule: rtranclp_induct)
    case base
    show ?case by (simp add: table_ok_def owner_count_def)
  qed (rule table_ok_step)
  then have "owner_count db o' sc \<le> max_subscriptions o' sc" for o' sc by (simp add: table_ok_def)
  from this [of "UserOwner u" ScopeOrg] this [of "UserOwner u" ScopeFollows] this [of "WorkspaceOwner w" scope] \<open>table_ok db\<close>
  show ?thesis
    by (simp add: table_ok_def max_subscriptions_def MAX_USER_WEBHOOK_SUBSCRIPTIONS_def
        MAX_USER_FOLLOWS_WEBHOOK_SUBSCRIPTIONS_def MAX_WORKSPACE_WEBHOOK_SUBSCRIPTIONS_def)
qed

theorem caps_hold_witness: "owner_count [one_sub] (UserOwner ''u'') ScopeOrg \<le> 10 \<and> owner_count [one_sub] (UserOwner ''u'') ScopeOrg = 1"
proof -
  define inp where "inp = \<lparr>i_scope = ScopeOrg, i_orgId = Some ''org'', i_url = ''https://a.io'', i_sourceId = None, i_productId = None,
       i_releaseType = None, i_format = JsonFormat, i_description = None\<rparr>"
  have "table_step [] (snd (insertWebhookSubscriptionCapped [] ''whk_1'' ''2026-01-01'' (UserOwner ''u'') inp
      (max_subscriptions (UserOwner ''u'') (i_scope inp))))"
    by (rule create) simp
  then have "table_step [] [one_sub]"
    by (simp add: insertWebhookSubscriptionCapped_def Let_def owner_count_def max_subscriptions_def
        MAX_USER_WEBHOOK_SUBSCRIPTIONS_def owner_user_def owner_workspace_def one_sub_def inp_def)
  then have "table_step\<^sup>*\<^sup>* [] [one_sub]" by blast
  from caps_hold [OF this] show ?thesis by (simp add: owner_count_def ownerMatch_def one_sub_def new_row_def)
qed

end
