(* ===== verification/WebhookDelivery.thy ===== *)
theory WebhookDelivery
  imports WebhookTable WebhookSign
begin

section \<open>Delivery of webhooks and automatic pausing\<close>

text \<open>
  \<open>packages/core-internal/src/webhook-resilience.ts\<close> (when a failing subscription is paused, and its
  health for lists), \<open>apps/webhooks/src/deliver.ts\<close> (one attempt), and the queue consumer of
  \<open>apps/webhooks/src/index.ts\<close>.  \<open>date_parse\<close> is \<open>Date.parse\<close>.  The network, the clock, the message
  bodies of the chat formats and \<open>JSON.stringify\<close> of an event are arguments, collected in the record
  \<open>delivery_env\<close>.  Several consumers and the owner's edits interleave: their atomic pieces are the
  steps of the relation \<open>world_step\<close>.
\<close>

subsection \<open>\<open>webhook-resilience.ts\<close>\<close>

definition ADMIN_AUTO_DISABLE_FAILURES :: nat where "ADMIN_AUTO_DISABLE_FAILURES = 50"
definition USER_AUTO_DISABLE_FAILURES :: nat where "USER_AUTO_DISABLE_FAILURES = 10"
definition USER_AUTO_DISABLE_MIN_FAILURES :: nat where "USER_AUTO_DISABLE_MIN_FAILURES = 3"
definition USER_AUTO_DISABLE_STREAK_MS :: int where "USER_AUTO_DISABLE_STREAK_MS = 48 * 60 * 60 * 1000"

datatype delivery_health = NeverDelivered | Healthy | Degraded | Failing | Paused | AutoPaused

definition isAutoPaused :: "string option \<Rightarrow> bool" where
  "isAutoPaused disabledReason = (case disabledReason of None \<Rightarrow> False | Some r \<Rightarrow> js_includes r ''auto-disabled'')"

definition streakDurationMs :: "(string \<Rightarrow> int option) \<Rightarrow> string option \<Rightarrow> int \<Rightarrow> int option" where
  "streakDurationMs date_parse streakStartedAt nowMs =
     (if text_of streakStartedAt = [] then None
      else (case date_parse (text_of streakStartedAt) of None \<Rightarrow> None | Some t \<Rightarrow> Some (max 0 (nowMs - t))))"

definition long_streak :: "(string \<Rightarrow> int option) \<Rightarrow> string option \<Rightarrow> int \<Rightarrow> bool" where
  "long_streak date_parse streakStartedAt nowMs =
     (case streakDurationMs date_parse streakStartedAt nowMs of None \<Rightarrow> False | Some ms \<Rightarrow> USER_AUTO_DISABLE_STREAK_MS \<le> ms)"

definition shouldAutoDisableWebhook :: "(string \<Rightarrow> int option) \<Rightarrow> subscription \<Rightarrow> nat \<Rightarrow> int \<Rightarrow> bool" where
  "shouldAutoDisableWebhook date_parse sub adminThreshold nowMs =
     (if \<not> s_enabled sub then False
      else if text_of (s_userId sub) \<noteq> [] then
        (if USER_AUTO_DISABLE_FAILURES \<le> s_consecutiveFailures sub then True
         else if USER_AUTO_DISABLE_MIN_FAILURES \<le> s_consecutiveFailures sub
                 \<and> long_streak date_parse (s_failureStreakStartedAt sub) nowMs then True
         else False)
      else adminThreshold \<le> s_consecutiveFailures sub)"

text \<open>\<open>Math.round(ms / 3600000)\<close> rounds halves up.\<close>

definition round_hours :: "int \<Rightarrow> int" where
  "round_hours ms = (2 * ms + 3600000) div 7200000"

definition autoDisableReason :: "(string \<Rightarrow> int option) \<Rightarrow> subscription \<Rightarrow> int \<Rightarrow> string" where
  "autoDisableReason date_parse sub nowMs =
     (if text_of (s_userId sub) \<noteq> [] \<and> USER_AUTO_DISABLE_MIN_FAILURES \<le> s_consecutiveFailures sub
         \<and> long_streak date_parse (s_failureStreakStartedAt sub) nowMs
      then ''auto-disabled after '' @ nat_to_dec (s_consecutiveFailures sub) @ '' delivery failures over ''
        @ int_to_dec (round_hours (the (streakDurationMs date_parse (s_failureStreakStartedAt sub) nowMs))) @ ''h''
      else ''auto-disabled after '' @ nat_to_dec (s_consecutiveFailures sub) @ '' consecutive delivery failures'')"

text \<open>The health; its one-line summary is a fixed text for each health.\<close>

definition computeWebhookDeliveryHealth :: "(string \<Rightarrow> int option) \<Rightarrow> subscription \<Rightarrow> int \<Rightarrow> delivery_health" where
  "computeWebhookDeliveryHealth date_parse sub nowMs =
     (if \<not> s_enabled sub then (if isAutoPaused (s_disabledReason sub) then AutoPaused else Paused)
      else if text_of (s_lastSuccessAt sub) = [] \<and> text_of (s_lastErrorAt sub) = [] then NeverDelivered
      else let failures = s_consecutiveFailures sub in
        if failures = 0 then Healthy
        else let streakMs = streakDurationMs date_parse (s_failureStreakStartedAt sub) nowMs;
                 onUserLane = (s_userId sub \<noteq> None);
                 nearAutoPause = (onUserLane \<and> (USER_AUTO_DISABLE_FAILURES - 2 \<le> failures
                   \<or> (USER_AUTO_DISABLE_MIN_FAILURES \<le> failures
                      \<and> (case streakMs of None \<Rightarrow> False | Some ms \<Rightarrow> 3 * USER_AUTO_DISABLE_STREAK_MS \<le> 4 * ms))))
             in if nearAutoPause \<or> 5 \<le> failures then Failing else Degraded)"

subsection \<open>\<open>deliver.ts\<close>\<close>

datatype outcome = Success | Retry | PermFail | Skipped | Dlq | AutoDisabled
datatype error_code = Network | Timeout | SubscriberRedirect | Subscriber4xx | Subscriber5xx | SsrfBlocked

record delivery_result =
  dr_outcome :: outcome
  dr_httpStatus :: nat
  dr_latencyMs :: int
  dr_errorMessage :: "string option"
  dr_errorCode :: "error_code option"

record request =
  rq_url :: string
  rq_headers :: "(string \<times> string) list"
  rq_body :: string
  rq_followRedirects :: bool

text \<open>What \<open>fetch\<close> does: a response with its status and body text (nothing when reading it fails), or an
  exception with its name and message.\<close>

datatype fetch_reply = Response nat "string option" | Thrown string string

record 'e delivery_env =
  env_parse_url :: "string \<Rightarrow> url_parts option"
  env_resolve :: "string \<Rightarrow> string list option"
  env_hmac :: hmac
  env_slack_body :: "'e \<Rightarrow> string"
  env_discord_body :: "'e \<Rightarrow> string"
  env_event_json :: "'e \<Rightarrow> string"
  env_event_id :: "'e \<Rightarrow> string"
  env_fetch :: "request \<Rightarrow> fetch_reply"
  env_now_seconds :: int
  env_latency :: int

definition WEBHOOK_VERSION :: string where "WEBHOOK_VERSION = ''1''"
definition BODY_EXCERPT_BYTES :: nat where "BODY_EXCERPT_BYTES = 200"

definition plain_headers :: "(string \<times> string) list" where
  "plain_headers = [(''Content-Type'', ''application/json''), (''User-Agent'', ''releases-webhooks/'' @ WEBHOOK_VERSION)]"

text \<open>The request; a malformed signing key raises.\<close>

definition build_request :: "'e delivery_env \<Rightarrow> string \<Rightarrow> 'e delivery_message \<Rightarrow> request option" where
  "build_request env masterKey message =
     (case dm_format message of
        Some SlackFormat \<Rightarrow> Some \<lparr>rq_url = dm_url message, rq_headers = plain_headers,
          rq_body = env_slack_body env (dm_event message), rq_followRedirects = False\<rparr>
      | Some DiscordFormat \<Rightarrow> Some \<lparr>rq_url = dm_url message, rq_headers = plain_headers,
          rq_body = env_discord_body env (dm_event message), rq_followRedirects = False\<rparr>
      | _ \<Rightarrow>
          (let ts = env_now_seconds env; body = env_event_json env (dm_event message) in
           (case deriveSigningKey (env_hmac env) masterKey (dm_subscriptionId message) (dm_secretVersion message) of
              None \<Rightarrow> None
            | Some signingKey \<Rightarrow>
                (case signPayload (env_hmac env) signingKey ts body of None \<Rightarrow> None
                 | Some signature \<Rightarrow> Some \<lparr>rq_url = dm_url message, rq_headers =
                     [(''Content-Type'', ''application/json''), (''X-Releases-Version'', WEBHOOK_VERSION),
                      (''X-Releases-Event-Id'', env_event_id env (dm_event message)),
                      (''X-Releases-Timestamp'', int_to_dec ts), (''X-Releases-Signature'', signature),
                      (''User-Agent'', ''releases-webhooks/'' @ WEBHOOK_VERSION)],
                     rq_body = body, rq_followRedirects = False\<rparr>))))"

definition result :: "outcome \<Rightarrow> nat \<Rightarrow> int \<Rightarrow> string option \<Rightarrow> error_code option \<Rightarrow> delivery_result" where
  "result oc status latency msg code = \<lparr>dr_outcome = oc, dr_httpStatus = status, dr_latencyMs = latency,
     dr_errorMessage = msg, dr_errorCode = code\<rparr>"

definition classify_reply :: "int \<Rightarrow> fetch_reply \<Rightarrow> delivery_result" where
  "classify_reply latency reply =
     (case reply of
        Response status body \<Rightarrow>
          if 200 \<le> status \<and> status < 300 then result Success status latency None None
          else if 300 \<le> status \<and> status < 400 then
            result PermFail status latency
              (Some (''subscriber redirected ('' @ nat_to_dec status @ ''); webhook URLs must not redirect'')) (Some SubscriberRedirect)
          else if 400 \<le> status \<and> status < 500 then
            result PermFail status latency (Some (case body of Some t \<Rightarrow> take BODY_EXCERPT_BYTES t | None \<Rightarrow> [])) (Some Subscriber4xx)
          else result Retry status latency (Some (''subscriber returned '' @ nat_to_dec status)) (Some Subscriber5xx)
      | Thrown name msg \<Rightarrow>
          if name = ''TimeoutError'' \<or> name = ''AbortError'' then result Retry 0 latency (Some ''timeout'') (Some Timeout)
          else result Retry 0 latency (Some msg) (Some Network))"

text \<open>The result and the request that went out; the result is missing when the call raises.\<close>

definition deliver :: "'e delivery_env \<Rightarrow> string \<Rightarrow> 'e delivery_message \<Rightarrow> delivery_result option \<times> request option" where
  "deliver env masterKey message =
     (case assertPublicWebhookTarget (env_parse_url env) (env_resolve env) (dm_url message) of
        Some targetError \<Rightarrow> (Some (result PermFail 0 0 (Some targetError) (Some SsrfBlocked)), None)
      | None \<Rightarrow>
          (case build_request env masterKey message of None \<Rightarrow> (None, None)
           | Some request \<Rightarrow> (Some (classify_reply (env_latency env) (env_fetch env request)), Some request)))"

subsection \<open>The queue consumer\<close>

datatype queue_action = Ack | RetryNow | RetryAfter nat

record delivery_attempt =
  da_subscriptionId :: string
  da_outcome :: outcome
  da_errorMessage :: "string option"
  da_attempt :: nat

datatype start = Limited | SkipMessage string | Attempt

definition start_message :: "bool \<Rightarrow> sub_table \<Rightarrow> string \<Rightarrow> start" where
  "start_message limitOk db i =
     (if \<not> limitOk then Limited
      else (case getWebhookSubscriptionById db i of
          None \<Rightarrow> SkipMessage ''not_found''
        | Some sub \<Rightarrow> if \<not> s_enabled sub then SkipMessage ''disabled'' else Attempt))"

definition failure_update :: "string \<Rightarrow> delivery_result \<Rightarrow> summary_update" where
  "failure_update ts r = ErrorUpdate ts (set_or (dr_errorMessage r) ''unknown'')"

text \<open>The decision taken on the row the failure update returned: the reason and the observed counters.\<close>

definition disable_decision ::
  "(string \<Rightarrow> int option) \<Rightarrow> nat \<Rightarrow> int \<Rightarrow> subscription option \<Rightarrow> (string \<times> observed_failures) option" where
  "disable_decision date_parse threshold nowMs fresh =
     (case fresh of None \<Rightarrow> None
      | Some f \<Rightarrow> if shouldAutoDisableWebhook date_parse f threshold nowMs
          then Some (autoDisableReason date_parse f nowMs,
            \<lparr>ob_consecutiveFailures = s_consecutiveFailures f, ob_failureStreakStartedAt = s_failureStreakStartedAt f\<rparr>)
          else None)"

record consumed =
  co_db :: sub_table
  co_action :: queue_action
  co_attempts :: "delivery_attempt list"
  co_notified :: bool

definition attempt_row :: "string \<Rightarrow> outcome \<Rightarrow> string option \<Rightarrow> nat \<Rightarrow> delivery_attempt" where
  "attempt_row i oc msg n = \<lparr>da_subscriptionId = i, da_outcome = oc, da_errorMessage = msg, da_attempt = n\<rparr>"

text \<open>One message, handled by one consumer without interruption.  \<open>outcome_of\<close> is the result of \<open>deliver\<close>.\<close>

definition queue_message ::
  "(string \<Rightarrow> int option) \<Rightarrow> nat \<Rightarrow> bool \<Rightarrow> delivery_result \<Rightarrow> string \<Rightarrow> int \<Rightarrow> nat \<Rightarrow> string \<Rightarrow> sub_table \<Rightarrow> consumed" where
  "queue_message date_parse threshold limitOk r ts nowMs attempts i db =
     (case start_message limitOk db i of
        Limited \<Rightarrow> \<lparr>co_db = db, co_action = RetryAfter 6, co_attempts = [], co_notified = False\<rparr>
      | SkipMessage why \<Rightarrow> \<lparr>co_db = db, co_action = Ack, co_attempts = [attempt_row i Skipped (Some why) attempts], co_notified = False\<rparr>
      | Attempt \<Rightarrow>
          (let log = [attempt_row i (dr_outcome r) (dr_errorMessage r) attempts] in
           if dr_outcome r = Success then
             \<lparr>co_db = snd (updateWebhookSubscriptionSummary db i (SuccessUpdate ts)), co_action = Ack, co_attempts = log, co_notified = False\<rparr>
           else
             (case updateWebhookSubscriptionSummary db i (failure_update ts r) of
                (fresh, db1) \<Rightarrow>
                  (let action = (if dr_outcome r = PermFail then Ack else RetryNow) in
                   (case disable_decision date_parse threshold nowMs fresh of
                      None \<Rightarrow> \<lparr>co_db = db1, co_action = action, co_attempts = log, co_notified = False\<rparr>
                    | Some (reason, observed) \<Rightarrow>
                        (case setWebhookSubscriptionEnabled db1 i False (Some reason) (Some observed) of
                           (flipped, db2) \<Rightarrow>
                             \<lparr>co_db = db2, co_action = action,
                              co_attempts = log @ [attempt_row i AutoDisabled None attempts], co_notified = flipped\<rparr>))))))"

subsection \<open>Interleaved consumers and edits\<close>

text \<open>What happens to one subscription, in the order the database sees it.  A decision to pause waits in
  \<open>w_pending\<close> until its consumer writes it; the history is a ghost.\<close>

datatype delivery_event = Delivered string | Failed string | AutoPause | Reenabled | Edited

record world =
  w_db :: sub_table
  w_pending :: "(string \<times> observed_failures) list"
  w_history :: "delivery_event list"

inductive world_step ::
  "(string \<Rightarrow> int option) \<Rightarrow> nat \<Rightarrow> string \<Rightarrow> world \<Rightarrow> world \<Rightarrow> bool" for date_parse threshold i where
  succeed: "world_step date_parse threshold i w
    (w\<lparr>w_db := snd (updateWebhookSubscriptionSummary (w_db w) i (SuccessUpdate ts)),
       w_history := w_history w @ [Delivered ts]\<rparr>)"
| fail: "updateWebhookSubscriptionSummary (w_db w) i (failure_update ts r) = (fresh, db') \<Longrightarrow>
    world_step date_parse threshold i w
    (w\<lparr>w_db := db', w_pending := w_pending w @ (case disable_decision date_parse threshold nowMs fresh of None \<Rightarrow> [] | Some d \<Rightarrow> [d]),
       w_history := w_history w @ [Failed ts]\<rparr>)"
| pause: "(reason, ob) \<in> set (w_pending w) \<Longrightarrow>
    setWebhookSubscriptionEnabled (w_db w) i False (Some reason) (Some ob) = (flipped, db') \<Longrightarrow>
    world_step date_parse threshold i w
    (w\<lparr>w_db := db', w_pending := remove1 (reason, ob) (w_pending w),
       w_history := w_history w @ (if flipped then [AutoPause] else [])\<rparr>)"
| edit: "buildWebhookPatchUpdates parse_url body = Inr u \<Longrightarrow>
    world_step date_parse threshold i w
    (w\<lparr>w_db := snd (updateWebhookSubscription (w_db w) i u),
       w_history := w_history w @ [if u_enabled u = Some True then Reenabled else Edited]\<rparr>)"
| elsewhere: "getWebhookSubscriptionById db' i = getWebhookSubscriptionById (w_db w) i \<Longrightarrow> distinct (map s_id db') \<Longrightarrow>
    world_step date_parse threshold i w (w\<lparr>w_db := db'\<rparr>)"

inductive_cases world_stepE: "world_step date_parse threshold i w w'"

text \<open>The failures since the last success or re-enable, and whether an automatic pause is in force.\<close>

definition streak_after :: "string list \<Rightarrow> delivery_event \<Rightarrow> string list" where
  "streak_after ts ev = (case ev of Delivered _ \<Rightarrow> [] | Reenabled \<Rightarrow> [] | Failed t \<Rightarrow> ts @ [t] | _ \<Rightarrow> ts)"

definition streak :: "delivery_event list \<Rightarrow> string list" where
  "streak h = foldl streak_after [] h"

definition ripe :: "(string \<Rightarrow> int option) \<Rightarrow> nat \<Rightarrow> string option \<Rightarrow> string list \<Rightarrow> bool" where
  "ripe date_parse threshold user ts \<longleftrightarrow>
     (if text_of user \<noteq> [] then 10 \<le> length ts \<or> (3 \<le> length ts \<and> (\<exists>now. long_streak date_parse (Some (hd ts)) now))
      else threshold \<le> length ts)"

definition counts :: "nat \<Rightarrow> string option \<Rightarrow> string list \<Rightarrow> bool" where
  "counts n start ts \<longleftrightarrow> n = length ts \<and> start = (if ts = [] then None else Some (hd ts))"

definition paused_since :: "delivery_event list \<Rightarrow> bool" where
  "paused_since h \<longleftrightarrow> (\<exists>a b. h = a @ AutoPause # b \<and> Reenabled \<notin> set b)"

definition ripe_counts :: "(string \<Rightarrow> int option) \<Rightarrow> nat \<Rightarrow> string option \<Rightarrow> nat \<Rightarrow> string option \<Rightarrow> bool" where
  "ripe_counts date_parse threshold user n start \<longleftrightarrow>
     (if text_of user \<noteq> [] then 10 \<le> n \<or> (3 \<le> n \<and> (\<exists>now. long_streak date_parse start now)) else threshold \<le> n)"

definition world_inv :: "(string \<Rightarrow> int option) \<Rightarrow> nat \<Rightarrow> string \<Rightarrow> string option \<Rightarrow> world \<Rightarrow> bool" where
  "world_inv date_parse threshold i user w \<longleftrightarrow>
     (\<forall>s. getWebhookSubscriptionById (w_db w) i = Some s \<longrightarrow> s_userId s = user
        \<and> counts (s_consecutiveFailures s) (s_failureStreakStartedAt s) (streak (w_history w))
        \<and> (paused_since (w_history w) \<longrightarrow> \<not> s_enabled s))
   \<and> (\<forall>(reason, ob) \<in> set (w_pending w).
        ripe_counts date_parse threshold user (ob_consecutiveFailures ob) (ob_failureStreakStartedAt ob))"

text \<open>What one event means for the two ghost notions.\<close>

lemma streak_snoc [simp]: "streak (h @ [e]) = streak_after (streak h) e" "streak [] = []"
  by (simp_all add: streak_def)

lemma paused_since_snoc [simp]:
  "paused_since (h @ [e]) \<longleftrightarrow> e = AutoPause \<or> (paused_since h \<and> e \<noteq> Reenabled)"
proof
  assume "paused_since (h @ [e])"
  then obtain a b where ab: "h @ [e] = a @ AutoPause # b" "Reenabled \<notin> set b" by (auto simp: paused_since_def)
  show "e = AutoPause \<or> (paused_since h \<and> e \<noteq> Reenabled)"
  proof (cases b rule: rev_cases)
    case (snoc b' x)
    then have "h = a @ AutoPause # b'" "x = e" using ab(1) by auto
    with ab(2) snoc show ?thesis unfolding paused_since_def by auto
  qed (use ab in simp)
next
  assume "e = AutoPause \<or> (paused_since h \<and> e \<noteq> Reenabled)"
  then show "paused_since (h @ [e])"
  proof
    assume "e = AutoPause"
    then show ?thesis unfolding paused_since_def by (intro exI [of _ h] exI [of _ "[]"]) simp
  next
    assume "paused_since h \<and> e \<noteq> Reenabled"
    then obtain a b where "h = a @ AutoPause # b" "Reenabled \<notin> set b" "e \<noteq> Reenabled" by (auto simp: paused_since_def)
    then show ?thesis unfolding paused_since_def by (intro exI [of _ a] exI [of _ "b @ [e]"]) simp
  qed
qed

lemma counts_event:
  "counts 0 None []"
  "counts n start ts \<Longrightarrow> counts (n + 1) (if n = 0 then Some t else start) (ts @ [t])"
  by (auto simp: counts_def)

lemma ripe_iff: "counts n start ts \<Longrightarrow> ripe_counts date_parse threshold user n start \<Longrightarrow> ripe date_parse threshold user ts"
  by (auto simp: counts_def ripe_counts_def ripe_def split: if_splits)

lemma find_update:
  assumes "\<And>s. s_id (f s) = s_id s"
  shows "getWebhookSubscriptionById (snd (update_where c f db)) i =
    map_option (\<lambda>s. if c s then f s else s) (getWebhookSubscriptionById db i)"
  unfolding update_where_def snd_conv getWebhookSubscriptionById_def using assms by (induction db) auto

lemma first_of_update:
  assumes "\<And>s. c s \<longleftrightarrow> s_id s = i"
  shows "first_row (fst (update_where c f db)) = map_option f (getWebhookSubscriptionById db i)"
  unfolding update_where_def fst_conv getWebhookSubscriptionById_def first_row_def using assms by (induction db) auto

lemma found_id: "getWebhookSubscriptionById db i = Some s \<Longrightarrow> s_id s = i"
  by (auto simp: getWebhookSubscriptionById_def find_Some_iff)

lemma find_same:
  "map_option (\<lambda>s. if s_id s = i then f s else s) (getWebhookSubscriptionById db i) = map_option f (getWebhookSubscriptionById db i)"
  by (cases "getWebhookSubscriptionById db i") (simp_all add: found_id)

lemma find_after_summary:
  "getWebhookSubscriptionById (snd (updateWebhookSubscriptionSummary db i u)) i =
     map_option (case u of SuccessUpdate ts \<Rightarrow> record_success ts | ErrorUpdate ts msg \<Rightarrow> record_error ts msg)
       (getWebhookSubscriptionById db i)"
  unfolding updateWebhookSubscriptionSummary_def case_prod_beta snd_conv
  by (subst find_update) (simp_all only: find_same, simp add: record_success_def record_error_def split: summary_update.split)

lemma fresh_of_summary:
  "fst (updateWebhookSubscriptionSummary db i u) =
     map_option (case u of SuccessUpdate ts \<Rightarrow> record_success ts | ErrorUpdate ts msg \<Rightarrow> record_error ts msg)
       (getWebhookSubscriptionById db i)"
  unfolding updateWebhookSubscriptionSummary_def case_prod_beta fst_conv by (rule first_of_update) simp

lemma find_after_patch:
  "getWebhookSubscriptionById (snd (updateWebhookSubscription db i u)) i =
     map_option (apply_updates u) (getWebhookSubscriptionById db i)"
  unfolding updateWebhookSubscription_def case_prod_beta snd_conv
  by (subst find_update) (simp_all only: find_same, simp add: apply_updates_def)

lemma find_after_toggle:
  "getWebhookSubscriptionById (snd (setWebhookSubscriptionEnabled db i en reason ob)) i =
     map_option (\<lambda>s. if enabled_cond i en ob s then s\<lparr>s_enabled := en, s_disabledReason := (if en then None else reason)\<rparr> else s)
       (getWebhookSubscriptionById db i)"
  unfolding setWebhookSubscriptionEnabled_def case_prod_beta snd_conv by (subst find_update) simp_all

lemma patch_counters:
  "buildWebhookPatchUpdates parse_url body = Inr u \<Longrightarrow>
     (u_enabled u = Some True \<and> u_consecutiveFailures u = Some 0 \<and> u_failureStreakStartedAt u = Some None)
   \<or> (u_enabled u \<noteq> Some True \<and> u_consecutiveFailures u = None \<and> u_failureStreakStartedAt u = None)"
  by (cases "pb_enabled body"; cases "the (pb_enabled body)")
    (auto simp: buildWebhookPatchUpdates_def patch_format_def patch_enabled_def no_updates_def Let_def
      split: option.splits if_splits sum.splits)

lemma decision_ripe:
  "disable_decision date_parse threshold nowMs (Some f) = Some (reason, ob) \<Longrightarrow>
     ripe_counts date_parse threshold (s_userId f) (ob_consecutiveFailures ob) (ob_failureStreakStartedAt ob)"
  by (auto simp: disable_decision_def shouldAutoDisableWebhook_def ripe_counts_def USER_AUTO_DISABLE_FAILURES_def
      USER_AUTO_DISABLE_MIN_FAILURES_def split: if_splits)

lemma record_simps [simp]:
  "s_userId (record_success ts s) = s_userId s" "s_userId (record_error ts msg s) = s_userId s"
  "s_enabled (record_success ts s) = s_enabled s" "s_enabled (record_error ts msg s) = s_enabled s"
  "s_consecutiveFailures (record_success ts s) = 0" "s_failureStreakStartedAt (record_success ts s) = None"
  "s_consecutiveFailures (record_error ts msg s) = s_consecutiveFailures s + 1"
  "s_failureStreakStartedAt (record_error ts msg s) = (if s_consecutiveFailures s = 0 then Some ts else s_failureStreakStartedAt s)"
  by (simp_all add: record_success_def record_error_def)

lemma apply_updates_simps [simp]:
  "s_userId (apply_updates u s) = s_userId s" "s_enabled (apply_updates u s) = set_or (u_enabled u) (s_enabled s)"
  "s_consecutiveFailures (apply_updates u s) = set_or (u_consecutiveFailures u) (s_consecutiveFailures s)"
  "s_failureStreakStartedAt (apply_updates u s) = set_or (u_failureStreakStartedAt u) (s_failureStreakStartedAt s)"
  by (simp_all add: apply_updates_def)

lemma toggled_row:
  assumes "setWebhookSubscriptionEnabled db i False reason (Some ob) = (flipped, db')"
    and "getWebhookSubscriptionById db i = Some s" and "distinct (map s_id db)"
  shows "flipped = enabled_cond i False (Some ob) s"
proof -
  have "flipped \<longleftrightarrow> (\<exists>x \<in> set db. enabled_cond i False (Some ob) x)"
    using assms(1) by (auto simp: setWebhookSubscriptionEnabled_def update_where_def filter_empty_conv)
  moreover have "s \<in> set db" "s_id s = i" using assms(2) by (auto simp: getWebhookSubscriptionById_def find_Some_iff)
  moreover have "x = s" if "x \<in> set db" "enabled_cond i False (Some ob) x" for x
    using that assms(3) \<open>s \<in> set db\<close> \<open>s_id s = i\<close> by (auto simp: enabled_cond_def distinct_map inj_on_def)
  ultimately show ?thesis by blast
qed

lemma ids_after_update: "(\<And>s. s_id (f s) = s_id s) \<Longrightarrow> map s_id (snd (update_where c f db)) = map s_id db"
  by (simp add: update_where_def)

lemma ids_after_writes [simp]:
  "map s_id (snd (updateWebhookSubscriptionSummary db i su)) = map s_id db"
  "map s_id (snd (updateWebhookSubscription db i u)) = map s_id db"
  "map s_id (snd (setWebhookSubscriptionEnabled db i en reason ob)) = map s_id db"
  unfolding updateWebhookSubscriptionSummary_def updateWebhookSubscription_def setWebhookSubscriptionEnabled_def case_prod_beta snd_conv
  by (rule ids_after_update, simp add: record_success_def record_error_def apply_updates_def split: summary_update.split)+

text \<open>A history in which every automatic pause came after enough failures and with no pause in force.\<close>

definition pauses_ok :: "(string \<Rightarrow> int option) \<Rightarrow> nat \<Rightarrow> string option \<Rightarrow> delivery_event list \<Rightarrow> bool" where
  "pauses_ok date_parse threshold user h \<longleftrightarrow>
     (\<forall>a b. h = a @ AutoPause # b \<longrightarrow> ripe date_parse threshold user (streak a) \<and> \<not> paused_since a)"

lemma pauses_ok_snoc:
  "pauses_ok dp th user (h @ [e]) \<longleftrightarrow>
     pauses_ok dp th user h \<and> (e = AutoPause \<longrightarrow> ripe dp th user (streak h) \<and> \<not> paused_since h)"
proof -
  have "h @ [e] = a @ AutoPause # b \<longleftrightarrow> (b = [] \<and> a = h \<and> e = AutoPause) \<or> (\<exists>b'. b = b' @ [e] \<and> h = a @ AutoPause # b')" for a b
    by (cases b rule: rev_cases) auto
  moreover have "(\<forall>a b. (b = [] \<and> a = h \<and> E) \<or> (\<exists>b'. b = b' @ [e] \<and> P a b') \<longrightarrow> Q a) \<longleftrightarrow> (\<forall>a b. P a b \<longrightarrow> Q a) \<and> (E \<longrightarrow> Q h)"
    for E and P :: "delivery_event list \<Rightarrow> delivery_event list \<Rightarrow> bool" and Q by auto
  ultimately show ?thesis by (simp only: pauses_ok_def)
qed

definition world_good :: "(string \<Rightarrow> int option) \<Rightarrow> nat \<Rightarrow> string \<Rightarrow> string option \<Rightarrow> world \<Rightarrow> bool" where
  "world_good date_parse threshold i user w \<longleftrightarrow>
     world_inv date_parse threshold i user w \<and> distinct (map s_id (w_db w))
   \<and> getWebhookSubscriptionById (w_db w) i \<noteq> None \<and> pauses_ok date_parse threshold user (w_history w)"

lemma world_good_row:
  assumes "world_good dp th i user w"
  obtains s where "getWebhookSubscriptionById (w_db w) i = Some s" "s_userId s = user"
    "counts (s_consecutiveFailures s) (s_failureStreakStartedAt s) (streak (w_history w))"
    "paused_since (w_history w) \<longrightarrow> \<not> s_enabled s"
proof -
  obtain s where s: "getWebhookSubscriptionById (w_db w) i = Some s" using assms by (auto simp: world_good_def)
  with assms show ?thesis by (intro that [OF s]) (simp_all add: world_good_def world_inv_def)
qed

lemma world_goodI:
  assumes "getWebhookSubscriptionById (w_db w) i = Some s" "s_userId s = user"
    "counts (s_consecutiveFailures s) (s_failureStreakStartedAt s) (streak (w_history w))"
    "paused_since (w_history w) \<longrightarrow> \<not> s_enabled s"
    "\<And>reason ob. (reason, ob) \<in> set (w_pending w) \<Longrightarrow>
      ripe_counts dp th user (ob_consecutiveFailures ob) (ob_failureStreakStartedAt ob)"
    "distinct (map s_id (w_db w))" "pauses_ok dp th user (w_history w)"
  shows "world_good dp th i user w"
  using assms by (auto simp: world_good_def world_inv_def)

lemma world_good_step: "world_step dp th i w w' \<Longrightarrow> world_good dp th i user w \<Longrightarrow> world_good dp th i user w'"
proof (induction rule: world_step.induct)
  case (succeed w ts)
  obtain s where s: "getWebhookSubscriptionById (w_db w) i = Some s" "s_userId s = user"
    "counts (s_consecutiveFailures s) (s_failureStreakStartedAt s) (streak (w_history w))"
    "paused_since (w_history w) \<longrightarrow> \<not> s_enabled s" using succeed by (rule world_good_row)
  show ?case
    by (rule world_goodI [where s = "record_success ts s"])
      (use succeed s in \<open>auto simp: find_after_summary counts_event streak_after_def world_good_def world_inv_def pauses_ok_snoc\<close>)
next
  case (fail w ts r fresh db' nowMs)
  obtain s where s: "getWebhookSubscriptionById (w_db w) i = Some s" "s_userId s = user"
    "counts (s_consecutiveFailures s) (s_failureStreakStartedAt s) (streak (w_history w))"
    "paused_since (w_history w) \<longrightarrow> \<not> s_enabled s" using fail(2) by (rule world_good_row)
  define msg where "msg = set_or (dr_errorMessage r) ''unknown''"
  have u: "failure_update ts r = ErrorUpdate ts msg" by (simp add: failure_update_def msg_def)
  have db': "db' = snd (updateWebhookSubscriptionSummary (w_db w) i (ErrorUpdate ts msg))" "fresh = Some (record_error ts msg s)"
    using fail(1) u fresh_of_summary [of "w_db w" i "ErrorUpdate ts msg"] s(1) by auto
  have pend: "ripe_counts dp th user (ob_consecutiveFailures ob) (ob_failureStreakStartedAt ob)"
    if "(reason, ob) \<in> set (w_pending w @ (case disable_decision dp th nowMs fresh of None \<Rightarrow> [] | Some d \<Rightarrow> [d]))" for reason ob
    using that fail(2) decision_ripe [of dp th nowMs "record_error ts msg s" reason ob] s(2)
    by (auto simp: world_good_def world_inv_def db'(2) split: option.splits)
  show ?case
    by (rule world_goodI [where s = "record_error ts msg s"])
      (use fail(2) s pend counts_event(2) [OF s(3), of ts] in
        \<open>auto simp: db'(1) find_after_summary streak_after_def world_good_def pauses_ok_snoc\<close>)
next
  case (pause reason ob w flipped db')
  obtain s where s: "getWebhookSubscriptionById (w_db w) i = Some s" "s_userId s = user"
    "counts (s_consecutiveFailures s) (s_failureStreakStartedAt s) (streak (w_history w))"
    "paused_since (w_history w) \<longrightarrow> \<not> s_enabled s" using pause(3) by (rule world_good_row)
  have fl: "flipped = enabled_cond i False (Some ob) s"
    using toggled_row [OF pause(2) s(1)] pause(3) by (simp add: world_good_def)
  have db': "db' = snd (setWebhookSubscriptionEnabled (w_db w) i False (Some reason) (Some ob))" using pause(2) by simp
  have old: "ripe_counts dp th user (ob_consecutiveFailures o') (ob_failureStreakStartedAt o')" if "(r', o') \<in> set (w_pending w)" for r' o'
    using that pause(3) by (auto simp: world_good_def world_inv_def)
  have ripe: "ripe dp th user (streak (w_history w)) \<and> \<not> paused_since (w_history w)" if flipped
    using that fl s(4) ripe_iff [OF s(3)] old [OF pause(1)] by (auto simp: enabled_cond_def)
  let ?s = "if flipped then s\<lparr>s_enabled := False, s_disabledReason := Some reason\<rparr> else s"
  have row: "getWebhookSubscriptionById db' i = Some ?s" unfolding db' find_after_toggle fl s(1) by simp
  have rem: "(r', o') \<in> set (w_pending w)" if "(r', o') \<in> set (remove1 (reason, ob) (w_pending w))" for r' o'
    using that set_remove1_subset by fastforce
  show ?case
  proof (cases flipped)
    case True
    show ?thesis
      by (rule world_goodI [where s = ?s])
        (use pause(3) s row ripe True old rem in \<open>auto simp: db' streak_after_def world_good_def pauses_ok_snoc\<close>)
  next
    case False
    show ?thesis
      by (rule world_goodI [where s = ?s])
        (use pause(3) s row False old rem in \<open>auto simp: db' world_good_def\<close>)
  qed
next
  case (edit parse_url body u w)
  obtain s where s: "getWebhookSubscriptionById (w_db w) i = Some s" "s_userId s = user"
    "counts (s_consecutiveFailures s) (s_failureStreakStartedAt s) (streak (w_history w))"
    "paused_since (w_history w) \<longrightarrow> \<not> s_enabled s" using edit(2) by (rule world_good_row)
  have old: "ripe_counts dp th user (ob_consecutiveFailures o') (ob_failureStreakStartedAt o')" if "(r', o') \<in> set (w_pending w)" for r' o'
    using that edit(2) by (auto simp: world_good_def world_inv_def)
  show ?case
  proof (cases "u_enabled u = Some True")
    case True
    then have "u_consecutiveFailures u = Some 0" "u_failureStreakStartedAt u = Some None" using patch_counters [OF edit(1)] by auto
    then show ?thesis
      by (intro world_goodI [where s = "apply_updates u s"])
        (use edit(2) s old True in \<open>auto simp: find_after_patch set_or_def counts_event streak_after_def world_good_def pauses_ok_snoc\<close>)
  next
    case False
    then have "u_consecutiveFailures u = None" "u_failureStreakStartedAt u = None" using patch_counters [OF edit(1)] by auto
    then show ?thesis
      by (intro world_goodI [where s = "apply_updates u s"])
        (use edit(2) s old False in \<open>auto simp: find_after_patch set_or_def streak_after_def world_good_def pauses_ok_snoc split: option.splits\<close>)
  qed
next
  case (elsewhere db' w)
  then show ?case by (simp add: world_good_def world_inv_def)
qed

text \<open>C12: no stale decision pauses a webhook.  However consumers, their pending decisions and the owner's
  edits interleave, the stored counters describe the failures since the last success or re-enable,
  every automatic pause came at a moment when these were enough for one, and between two automatic
  pauses the owner re-enabled the webhook.\<close>
theorem auto_pause_justified:
  assumes "(world_step dp th i)\<^sup>*\<^sup>* \<lparr>w_db = db, w_pending = [], w_history = []\<rparr> w"
    and "getWebhookSubscriptionById db i = Some s0" and "distinct (map s_id db)"
    and "s_consecutiveFailures s0 = 0" and "s_failureStreakStartedAt s0 = None"
  shows "(\<exists>s. getWebhookSubscriptionById (w_db w) i = Some s
        \<and> s_consecutiveFailures s = length (streak (w_history w))
        \<and> s_failureStreakStartedAt s = (if streak (w_history w) = [] then None else Some (hd (streak (w_history w)))))
    \<and> (\<forall>a b. w_history w = a @ AutoPause # b \<longrightarrow> ripe dp th (s_userId s0) (streak a))
    \<and> (\<forall>a b c. w_history w = a @ AutoPause # b @ AutoPause # c \<longrightarrow> Reenabled \<in> set b)"
proof -
  from assms(1) have g: "world_good dp th i (s_userId s0) w"
  proof (induction rule: rtranclp_induct)
    case base
    show ?case
      by (rule world_goodI) (use assms in \<open>auto simp: counts_event pauses_ok_def paused_since_def\<close>)
  qed (rule world_good_step)
  then obtain s where "getWebhookSubscriptionById (w_db w) i = Some s"
    "counts (s_consecutiveFailures s) (s_failureStreakStartedAt s) (streak (w_history w))" by (rule world_good_row)
  moreover have "\<forall>a b. w_history w = a @ AutoPause # b \<longrightarrow> ripe dp th (s_userId s0) (streak a)"
    and np: "\<forall>a b. w_history w = a @ AutoPause # b \<longrightarrow> \<not> paused_since a"
    using g by (auto simp: world_good_def pauses_ok_def)
  moreover have "Reenabled \<in> set b" if h: "w_history w = a @ AutoPause # b @ AutoPause # c" for a b c
  proof -
    have "w_history w = (a @ AutoPause # b) @ AutoPause # c" using h by simp
    then have "\<not> paused_since (a @ AutoPause # b)" using np by blast
    then show ?thesis by (auto simp: paused_since_def)
  qed
  ultimately show ?thesis by (auto simp: counts_def)
qed


theorem auto_pause_justified_witness:
  "(\<exists>s. getWebhookSubscriptionById [record_error ''t1'' ''timeout'' one_sub] ''whk_1'' = Some s \<and> s_consecutiveFailures s = 1
      \<and> s_failureStreakStartedAt s = Some ''t1'')"
proof -
  let ?w = "\<lparr>w_db = [one_sub], w_pending = [], w_history = []\<rparr>"
  let ?r = "result Retry 0 5 (Some ''timeout'') (Some Timeout)"
  have u: "updateWebhookSubscriptionSummary [one_sub] ''whk_1'' (failure_update ''t1'' ?r) =
      (Some (record_error ''t1'' ''timeout'' one_sub), [record_error ''t1'' ''timeout'' one_sub])"
    by (simp add: updateWebhookSubscriptionSummary_def update_where_def failure_update_def result_def set_or_def one_sub_def
        new_row_def first_row_def)
  have "disable_decision (\<lambda>_. None) 50 0 (Some (record_error ''t1'' ''timeout'' one_sub)) = None"
    by (simp add: disable_decision_def shouldAutoDisableWebhook_def one_sub_def new_row_def text_of_def record_error_def
        USER_AUTO_DISABLE_FAILURES_def USER_AUTO_DISABLE_MIN_FAILURES_def)
  then have "world_step (\<lambda>_. None) 50 ''whk_1'' ?w
      \<lparr>w_db = [record_error ''t1'' ''timeout'' one_sub], w_pending = [], w_history = [Failed ''t1'']\<rparr>"
    using fail [where w = ?w and i = "''whk_1''" and ts = "''t1''" and r = ?r and date_parse = "\<lambda>_. None" and threshold = 50
        and nowMs = 0] u by fastforce
  then have "(world_step (\<lambda>_. None) 50 ''whk_1'')\<^sup>*\<^sup>* ?w
      \<lparr>w_db = [record_error ''t1'' ''timeout'' one_sub], w_pending = [], w_history = [Failed ''t1'']\<rparr>" by blast
  from auto_pause_justified [OF this, of one_sub] show ?thesis
    by (auto simp: getWebhookSubscriptionById_def one_sub_def new_row_def streak_def streak_after_def)
qed

subsection \<open>A dead endpoint\<close>

text \<open>A run of messages for one subscription: the result of each attempt, its times and its attempt number.\<close>

fun run_messages ::
  "(string \<Rightarrow> int option) \<Rightarrow> nat \<Rightarrow> string \<Rightarrow> (delivery_result \<times> string \<times> int \<times> nat) list \<Rightarrow> sub_table \<Rightarrow>
   consumed list \<times> sub_table" where
  "run_messages date_parse threshold i [] db = ([], db)"
| "run_messages date_parse threshold i ((r, ts, nowMs, n) # ms) db =
     (let c = queue_message date_parse threshold True r ts nowMs n i db
      in (case run_messages date_parse threshold i ms (co_db c) of (cs, db') \<Rightarrow> (c # cs, db')))"

definition failure_limit :: "nat \<Rightarrow> subscription \<Rightarrow> nat" where
  "failure_limit threshold s = (if text_of (s_userId s) \<noteq> [] then 10 else threshold)"

definition attempted :: "consumed \<Rightarrow> bool" where
  "attempted c \<longleftrightarrow> list_ex (\<lambda>a. da_outcome a \<noteq> Skipped) (co_attempts c)"

lemma reason_auto: "js_includes (autoDisableReason date_parse s nowMs) ''auto-disabled''"
  unfolding autoDisableReason_def by (auto simp: js_includes_sublist sublist_def intro: exI [of _ "[]"])

lemma disabled_message:
  assumes "getWebhookSubscriptionById db i = Some s" "\<not> s_enabled s"
  shows "queue_message dp th True r ts nowMs n i db =
    \<lparr>co_db = db, co_action = Ack, co_attempts = [attempt_row i Skipped (Some ''disabled'') n], co_notified = False\<rparr>"
  using assms by (simp add: queue_message_def start_message_def)

lemma failing_message:
  fixes ts :: string and nowMs :: int and n th :: nat and dp :: "string \<Rightarrow> int option"
  assumes "getWebhookSubscriptionById db i = Some s" "s_enabled s" "dr_outcome r \<noteq> Success" "dr_outcome r \<noteq> Skipped"
    and "distinct (map s_id db)"
  defines "f \<equiv> record_error ts (set_or (dr_errorMessage r) ''unknown'') s"
    and "c \<equiv> queue_message dp th True r ts nowMs n i db"
  shows "attempted c" "distinct (map s_id (co_db c))"
    "co_notified c = shouldAutoDisableWebhook dp f th nowMs"
    "getWebhookSubscriptionById (co_db c) i = Some (if shouldAutoDisableWebhook dp f th nowMs
       then f\<lparr>s_enabled := False, s_disabledReason := Some (autoDisableReason dp f nowMs)\<rparr> else f)"
proof -
  define msg where "msg = set_or (dr_errorMessage r) ''unknown''"
  define db1 where "db1 = snd (updateWebhookSubscriptionSummary db i (ErrorUpdate ts msg))"
  have f: "f = record_error ts msg s" by (simp add: f_def msg_def)
  have u: "updateWebhookSubscriptionSummary db i (failure_update ts r) = (Some f, db1)"
    using fresh_of_summary [of db i "ErrorUpdate ts msg"] assms(1)
    by (simp add: failure_update_def db1_def msg_def [symmetric] f prod_eq_iff)
  have row: "getWebhookSubscriptionById db1 i = Some f" using assms(1) by (simp add: db1_def find_after_summary f)
  have id: "distinct (map s_id db1)" using assms(5) by (simp add: db1_def)
  have sid: "s_id f = i" using row by (rule found_id)
  have en: "s_enabled f" using assms(2) by (simp add: f)
  let ?ob = "\<lparr>ob_consecutiveFailures = s_consecutiveFailures f, ob_failureStreakStartedAt = s_failureStreakStartedAt f\<rparr>"
  obtain fl db2 where t: "setWebhookSubscriptionEnabled db1 i False (Some (autoDisableReason dp f nowMs)) (Some ?ob) = (fl, db2)"
    by fastforce
  have fl: "fl = True" using toggled_row [OF t row id] sid en by (simp add: enabled_cond_def)
  have db2: "db2 = snd (setWebhookSubscriptionEnabled db1 i False (Some (autoDisableReason dp f nowMs)) (Some ?ob))" using t by simp
  have row2: "getWebhookSubscriptionById db2 i = Some (f\<lparr>s_enabled := False, s_disabledReason := Some (autoDisableReason dp f nowMs)\<rparr>)"
    unfolding db2 find_after_toggle row using sid en by (simp add: enabled_cond_def)
  have id2: "distinct (map s_id db2)" using id by (simp add: db2)
  have c: "c = (if shouldAutoDisableWebhook dp f th nowMs
      then \<lparr>co_db = db2, co_action = (if dr_outcome r = PermFail then Ack else RetryNow), co_attempts =
          [attempt_row i (dr_outcome r) (dr_errorMessage r) n] @ [attempt_row i AutoDisabled None n], co_notified = True\<rparr>
      else \<lparr>co_db = db1, co_action = (if dr_outcome r = PermFail then Ack else RetryNow), co_attempts =
          [attempt_row i (dr_outcome r) (dr_errorMessage r) n], co_notified = False\<rparr>)"
    unfolding c_def queue_message_def using assms(1-3)
    by (simp add: start_message_def u disable_decision_def t fl Let_def)
  show "attempted c" "distinct (map s_id (co_db c))" "co_notified c = shouldAutoDisableWebhook dp f th nowMs"
    "getWebhookSubscriptionById (co_db c) i = Some (if shouldAutoDisableWebhook dp f th nowMs
       then f\<lparr>s_enabled := False, s_disabledReason := Some (autoDisableReason dp f nowMs)\<rparr> else f)"
    unfolding c using assms(4) row row2 id id2 by (simp_all add: attempted_def attempt_row_def)
qed

lemma disabled_run:
  assumes "getWebhookSubscriptionById db i = Some s" "\<not> s_enabled s"
  shows "snd (run_messages dp th i ms db) = db \<and> filter co_notified (fst (run_messages dp th i ms db)) = []
    \<and> filter attempted (fst (run_messages dp th i ms db)) = []"
  by (induction ms)
    (auto simp: Let_def disabled_message [OF assms] attempted_def attempt_row_def split: prod.splits)

lemma limit_pauses:
  "s_enabled s \<Longrightarrow> failure_limit th s \<le> s_consecutiveFailures s \<Longrightarrow> shouldAutoDisableWebhook dp s th nowMs"
  by (simp add: shouldAutoDisableWebhook_def failure_limit_def USER_AUTO_DISABLE_FAILURES_def split: if_splits)

lemma failing_run:
  assumes "\<forall>(r, _) \<in> set ms. dr_outcome r \<in> {Retry, PermFail}" and "distinct (map s_id db)"
    and "getWebhookSubscriptionById db i = Some s" "s_enabled s"
    and "failure_limit th s \<le> s_consecutiveFailures s + length ms" "ms \<noteq> []"
  shows "\<exists>s'. getWebhookSubscriptionById (snd (run_messages dp th i ms db)) i = Some s'
    \<and> \<not> s_enabled s' \<and> isAutoPaused (s_disabledReason s')
    \<and> length (filter co_notified (fst (run_messages dp th i ms db))) = 1
    \<and> length (filter attempted (fst (run_messages dp th i ms db))) \<le> max 1 (failure_limit th s - s_consecutiveFailures s)"
  using assms
proof (induction ms arbitrary: db s)
  case (Cons m ms)
  obtain r ts nowMs n where m: "m = (r, ts, nowMs, n)" by (cases m) auto
  have r: "dr_outcome r \<noteq> Success" "dr_outcome r \<noteq> Skipped" using Cons.prems(1) by (auto simp: m)
  define f where "f = record_error ts (set_or (dr_errorMessage r) ''unknown'') s"
  define c where "c = queue_message dp th True r ts nowMs n i db"
  note step = failing_message [OF Cons.prems(3,4) r Cons.prems(2), where ts = ts and dp = dp and th = th and nowMs = nowMs and n = n,
      folded f_def c_def]
  have f: "s_enabled f" "s_consecutiveFailures f = s_consecutiveFailures s + 1" "failure_limit th f = failure_limit th s"
    using Cons.prems(4) by (simp_all add: f_def failure_limit_def)
  obtain cs db' where run: "run_messages dp th i ms (co_db c) = (cs, db')" by fastforce
  have whole: "run_messages dp th i (m # ms) db = (c # cs, db')" by (simp add: m Let_def c_def [symmetric] run)
  show ?case
  proof (cases "shouldAutoDisableWebhook dp f th nowMs")
    case True
    then have row: "getWebhookSubscriptionById (co_db c) i =
        Some (f\<lparr>s_enabled := False, s_disabledReason := Some (autoDisableReason dp f nowMs)\<rparr>)" using step(4) by simp
    with disabled_run [OF row, of dp th ms] step True reason_auto [of dp f nowMs] show ?thesis
      unfolding whole by (auto simp: run isAutoPaused_def)
  next
    case False
    then have row: "getWebhookSubscriptionById (co_db c) i = Some f" using step(4) by simp
    have lt: "s_consecutiveFailures f < failure_limit th f" using False limit_pauses [OF f(1)] by (metis not_le)
    then have "ms \<noteq> []" using Cons.prems(5) f by auto
    with Cons.IH [OF _ step(2) row f(1)] Cons.prems(1,5) f lt step(1,3) False show ?thesis
      unfolding whole by (fastforce simp: run)
  qed
qed simp

text \<open>a dead endpoint is not called for ever.  From any failure count, as many failing messages as
  are missing to the limit (10 for a user's webhook, the configured threshold for others) end with the
  webhook paused automatically; its owner is told exactly once, and the endpoint is called no more often
  than that, whatever else the queue holds.\<close>
theorem dead_endpoint_paused:
  assumes "\<forall>(r, _) \<in> set ms. dr_outcome r \<in> {Retry, PermFail}" and "distinct (map s_id db)"
    and "getWebhookSubscriptionById db i = Some s" "s_enabled s"
    and "failure_limit th s \<le> s_consecutiveFailures s + length ms" "ms \<noteq> []"
  shows "\<exists>s'. getWebhookSubscriptionById (snd (run_messages dp th i ms db)) i = Some s'
    \<and> computeWebhookDeliveryHealth dp s' now = AutoPaused
    \<and> length (filter co_notified (fst (run_messages dp th i ms db))) = 1
    \<and> length (filter attempted (fst (run_messages dp th i ms db))) \<le> max 1 (failure_limit th s - s_consecutiveFailures s)"
  using failing_run [OF assms, of dp] by (auto simp: computeWebhookDeliveryHealth_def)

theorem dead_endpoint_paused_witness:
  "\<exists>s'. getWebhookSubscriptionById (snd (run_messages (\<lambda>_. None) 50 ''whk_1''
        (replicate 12 (result Retry 0 5 None (Some Timeout), ''t'', 0, 1)) [one_sub])) ''whk_1'' = Some s'
      \<and> computeWebhookDeliveryHealth (\<lambda>_. None) s' 0 = AutoPaused"
  using dead_endpoint_paused [of "replicate 12 (result Retry 0 5 None (Some Timeout), ''t'', 0, 1)" "[one_sub]" "''whk_1''" one_sub 50
      "\<lambda>_. None" 0]
  by (auto simp: one_sub_def new_row_def getWebhookSubscriptionById_def failure_limit_def result_def text_of_def)

subsection \<open>What goes out\<close>

text \<open>C11: what leaves the consumer.  A request goes out only to an address that passed the target gate,
  without following redirects; a signed delivery carries a timestamp and a signature that the
  subscriber's verifier accepts for the very body sent, at any time within five minutes, and no other
  signature.\<close>
theorem deliver_signed_public:
  assumes "\<And>k d. env_hmac env k d \<noteq> [] \<and> (\<forall>b \<in> set (env_hmac env k d). b < 256)" and "even (length master)" "master \<noteq> []"
    and "env_now_seconds env = int n" "n \<le> 9007199254740991"
    and "deliver env master m = (r, Some q)"
  shows "assertPublicWebhookTarget (env_parse_url env) (env_resolve env) (dm_url m) = None
    \<and> rq_url q = dm_url m \<and> \<not> rq_followRedirects q
    \<and> (dm_format m \<noteq> Some SlackFormat \<and> dm_format m \<noteq> Some DiscordFormat \<longrightarrow>
        (\<exists>key sig ts. deriveSigningKey (env_hmac env) master (dm_subscriptionId m) (dm_secretVersion m) = Some key
          \<and> map_of (rq_headers q) ''X-Releases-Timestamp'' = Some ts \<and> map_of (rq_headers q) ''X-Releases-Signature'' = Some sig
          \<and> (\<forall>now other. \<bar>now div 1000 - int n\<bar> \<le> 300 \<longrightarrow>
               (verifyWithReplayGuard (env_hmac env) (rq_body q) key other ts now None = Some Valid \<longleftrightarrow> other = sig))))"
proof -
  have pub: "assertPublicWebhookTarget (env_parse_url env) (env_resolve env) (dm_url m) = None"
    and q: "build_request env master m = Some q"
    using assms(6) by (auto simp: deliver_def split: option.splits)
  note sound = signed_accepted [where hmac = "env_hmac env" and master = master and n = n and body = "env_event_json env (dm_event m)"
      and subscription = "dm_subscriptionId m" and version = "dm_secretVersion m", OF assms(1,2,3,5)]
  obtain key sig where ks: "deriveSigningKey (env_hmac env) master (dm_subscriptionId m) (dm_secretVersion m) = Some key"
    "signPayload (env_hmac env) key (int n) (env_event_json env (dm_event m)) = Some sig"
    using sound [of "1000 * int n"] by auto
  have ok: "verifyWithReplayGuard (env_hmac env) (env_event_json env (dm_event m)) key other (int_to_dec (int n)) now None = Some Valid
      \<longleftrightarrow> other = sig" if "\<bar>now div 1000 - int n\<bar> \<le> 300" for now other
    using sound [OF that] ks by auto
  show ?thesis using pub q ks ok assms(4)
    by (auto simp: build_request_def Let_def split: option.splits webhook_format.splits)
qed

definition demo_env :: "string delivery_env" where
  "demo_env = \<lparr>env_parse_url = (\<lambda>_. Some \<lparr>up_protocol = ''https:'', up_hostname = ''a.b'', up_pathname = ''/''\<rparr>),
     env_resolve = (\<lambda>_. Some [''8.8.4.4'']), env_hmac = checksum, env_slack_body = id, env_discord_body = id, env_event_json = id,
     env_event_id = id, env_fetch = (\<lambda>_. Response 200 None), env_now_seconds = 1700000000, env_latency = 3\<rparr>"

theorem deliver_signed_public_witness:
  "\<exists>q sig. snd (deliver demo_env ''00ff'' (message_for ''{}'' one_sub)) = Some q
    \<and> map_of (rq_headers q) ''X-Releases-Signature'' = Some sig"
proof -
  have a: "assertPublicWebhookTarget (env_parse_url demo_env) (env_resolve demo_env) (dm_url (message_for ''{}'' one_sub)) = None"
    by code_simp
  have b: "env_hmac demo_env k d \<noteq> [] \<and> (\<forall>b \<in> set (env_hmac demo_env k d). b < 256)" for k d by (simp add: demo_env_def checksum_def)
  have "build_request demo_env ''00ff'' (message_for ''{}'' one_sub) \<noteq> None"
    using signed_accepted [of checksum "''00ff''" 1700000000 1700000000123 "''whk_1''" 1 "''{}''"]
    by (auto simp: build_request_def demo_env_def message_for_def one_sub_def new_row_def checksum_def Let_def)
  then obtain q where q: "build_request demo_env ''00ff'' (message_for ''{}'' one_sub) = Some q" by auto
  then obtain r where d: "deliver demo_env ''00ff'' (message_for ''{}'' one_sub) = (r, Some q)" by (simp add: deliver_def a)
  from deliver_signed_public [OF b _ _ _ _ d, of 1700000000] show ?thesis
    by (simp add: d) (auto simp: demo_env_def message_for_def one_sub_def new_row_def)
qed

end
