(* ===== verification/Errors.thy ===== *)
theory Errors
  imports Regex
begin

section \<open>Errors and their envelope\<close>

text \<open>
  \<open>packages/core/src/errors.ts\<close> (categories and codes), \<open>packages/lib/src/releases-error.ts\<close> (the
  throwable hierarchy and \<open>toWire\<close>), \<open>packages/lib/src/db-errors.ts\<close> (classification of database
  failures along a chain of causes) and \<open>apps/api/src/lib/error-response.ts\<close> (the error boundary).  Thrown
  objects live in a heap, because a chain of causes can be cyclic; a reference with no object stands for
  a value that is no \<open>Error\<close>.  Log lines are left out.
\<close>

datatype error_type = Validation | Unauthorized | Forbidden | InsufficientScope | NotFound | Conflict | TooLarge
  | RateLimited | Upstream | Unavailable | Internal

definition ERROR_TYPES :: "error_type list" where
  "ERROR_TYPES = [Validation, Unauthorized, Forbidden, InsufficientScope, NotFound, Conflict, TooLarge, RateLimited, Upstream,
     Unavailable, Internal]"

fun STATUS_BY_TYPE :: "error_type \<Rightarrow> nat" where
  "STATUS_BY_TYPE Validation = 400"
| "STATUS_BY_TYPE Unauthorized = 401"
| "STATUS_BY_TYPE Forbidden = 403"
| "STATUS_BY_TYPE InsufficientScope = 403"
| "STATUS_BY_TYPE NotFound = 404"
| "STATUS_BY_TYPE Conflict = 409"
| "STATUS_BY_TYPE TooLarge = 413"
| "STATUS_BY_TYPE RateLimited = 429"
| "STATUS_BY_TYPE Upstream = 502"
| "STATUS_BY_TYPE Unavailable = 503"
| "STATUS_BY_TYPE Internal = 500"

definition statusForType :: "error_type \<Rightarrow> nat" where
  "statusForType t = STATUS_BY_TYPE t"

definition ERROR_CODES :: "string list" where
  "ERROR_CODES = [''validation_failed'', ''bad_request'', ''invalid_json'', ''unauthorized'', ''forbidden'', ''insufficient_scope'',
     ''not_found'', ''bare_slug_rejected'', ''conflict'', ''idempotency_conflict'', ''idempotency_in_progress'',
     ''idempotency_unavailable'', ''rate_limited'', ''upstream_error'', ''service_unavailable'', ''internal_error'',
     ''db_too_many_variables'', ''instance_not_found'', ''client_not_found'', ''user_not_found'', ''snapshot_expired'',
     ''slug_reserved'', ''api_key_limit'', ''limit_exceeded'', ''embed_unavailable'', ''payload_too_large'',
     ''deliveries_unavailable'', ''ae_query_failed'', ''database_not_initialized'']"

definition TYPE_BY_STATUS :: "(nat \<times> error_type) list" where
  "TYPE_BY_STATUS = foldl (\<lambda>m t. let status = STATUS_BY_TYPE t in
     if status \<in> fst ` set m then m else m @ [(status, t)]) [] ERROR_TYPES"

definition statusToType :: "nat \<Rightarrow> error_type" where
  "statusToType status = (case map_of TYPE_BY_STATUS status of Some t \<Rightarrow> t | None \<Rightarrow> Internal)"

subsection \<open>Domain errors\<close>

fun GENERIC_MESSAGE :: "error_type \<Rightarrow> string" where
  "GENERIC_MESSAGE Validation = ''Invalid request''"
| "GENERIC_MESSAGE Unauthorized = ''Authentication required''"
| "GENERIC_MESSAGE Forbidden = ''Forbidden''"
| "GENERIC_MESSAGE InsufficientScope = ''Insufficient scope''"
| "GENERIC_MESSAGE NotFound = ''Not found''"
| "GENERIC_MESSAGE Conflict = ''Conflict''"
| "GENERIC_MESSAGE TooLarge = ''Payload too large''"
| "GENERIC_MESSAGE RateLimited = ''Too many requests''"
| "GENERIC_MESSAGE Upstream = ''Upstream service error''"
| "GENERIC_MESSAGE Unavailable = ''Service unavailable''"
| "GENERIC_MESSAGE Internal = ''Internal server error''"

fun DEFAULT_CODE_BY_TYPE :: "error_type \<Rightarrow> string" where
  "DEFAULT_CODE_BY_TYPE Validation = ''validation_failed''"
| "DEFAULT_CODE_BY_TYPE Unauthorized = ''unauthorized''"
| "DEFAULT_CODE_BY_TYPE Forbidden = ''forbidden''"
| "DEFAULT_CODE_BY_TYPE InsufficientScope = ''insufficient_scope''"
| "DEFAULT_CODE_BY_TYPE NotFound = ''not_found''"
| "DEFAULT_CODE_BY_TYPE Conflict = ''conflict''"
| "DEFAULT_CODE_BY_TYPE TooLarge = ''payload_too_large''"
| "DEFAULT_CODE_BY_TYPE RateLimited = ''rate_limited''"
| "DEFAULT_CODE_BY_TYPE Upstream = ''upstream_error''"
| "DEFAULT_CODE_BY_TYPE Unavailable = ''service_unavailable''"
| "DEFAULT_CODE_BY_TYPE Internal = ''internal_error''"

datatype db_error_code = DB_OVERLOADED | DB_NETWORK_LOST | DB_STORAGE_RESET | DB_TIMEOUT | DB_INTERNAL | DB_TOO_MANY_VARIABLES
  | DB_UNKNOWN

text \<open>The \<open>details\<close> payload; only the boundary's own payloads have a structure here.\<close>

datatype error_details = EntityDetails string | DbDetails db_error_code bool | OtherDetails string

record error_options =
  op_code :: "string option"
  op_details :: "error_details option"
  op_expose :: "bool option"

record releases_error =
  re_code :: string
  re_type :: error_type
  re_status :: nat
  re_message :: string
  re_details :: "error_details option"
  re_expose :: bool

definition no_options :: error_options where
  "no_options = \<lparr>op_code = None, op_details = None, op_expose = None\<rparr>"

definition new_error :: "error_type \<Rightarrow> string \<Rightarrow> error_options \<Rightarrow> releases_error" where
  "new_error type message opts =
     \<lparr>re_code = (case op_code opts of Some c \<Rightarrow> c | None \<Rightarrow> DEFAULT_CODE_BY_TYPE type), re_type = type,
      re_status = statusForType type, re_message = message, re_details = op_details opts,
      re_expose = (case op_expose opts of Some e \<Rightarrow> e | None \<Rightarrow> True)\<rparr>"

text \<open>A subclass passes its default code, which an option overrides; two of them hide their message.\<close>

definition with_code :: "string \<Rightarrow> error_options \<Rightarrow> error_options" where
  "with_code code opts = (case op_code opts of None \<Rightarrow> opts\<lparr>op_code := Some code\<rparr> | Some _ \<Rightarrow> opts)"

definition ValidationError :: "string option \<Rightarrow> error_options \<Rightarrow> releases_error" where
  "ValidationError message opts =
     new_error Validation (case message of Some m \<Rightarrow> m | None \<Rightarrow> ''Invalid request'') (with_code ''validation_failed'' opts)"

definition ConflictError :: "string \<Rightarrow> error_options \<Rightarrow> releases_error" where
  "ConflictError message opts = new_error Conflict message (with_code ''conflict'' opts)"

definition PayloadTooLargeError :: "string \<Rightarrow> error_options \<Rightarrow> releases_error" where
  "PayloadTooLargeError message opts = new_error TooLarge message (with_code ''payload_too_large'' opts)"

definition ServiceUnavailableError :: "string \<Rightarrow> error_options \<Rightarrow> releases_error" where
  "ServiceUnavailableError message opts = new_error Unavailable message (with_code ''service_unavailable'' opts)"

definition UpstreamError :: "string \<Rightarrow> error_options \<Rightarrow> releases_error" where
  "UpstreamError message opts = new_error Upstream message ((with_code ''upstream_error'' opts)\<lparr>op_expose := Some False\<rparr>)"

definition InternalError :: "string option \<Rightarrow> error_options \<Rightarrow> releases_error" where
  "InternalError message opts =
     new_error Internal (case message of Some m \<Rightarrow> m | None \<Rightarrow> ''Internal server error'')
       ((with_code ''internal_error'' opts)\<lparr>op_expose := Some False\<rparr>)"

record wire =
  wi_code :: string
  wi_type :: error_type
  wi_message :: string
  wi_details :: "error_details option"

definition toWire :: "releases_error \<Rightarrow> wire" where
  "toWire e = \<lparr>wi_code = re_code e, wi_type = re_type e,
     wi_message = (if re_expose e then re_message e else GENERIC_MESSAGE (re_type e)), wi_details = re_details e\<rparr>"

subsection \<open>Thrown values and database failures\<close>

datatype error_kind = DomainError releases_error | BareSlugRejected string | HttpException nat "(string \<times> string) list" | OtherError

record error_object =
  eo_message :: string
  eo_kind :: error_kind
  eo_cause :: nat

type_synonym error_heap = "nat \<Rightarrow> error_object option"

record classified =
  cl_code :: db_error_code
  cl_message :: string
  cl_transient :: bool

definition D1_FOOTPRINT :: re where
  "D1_FOOTPRINT = alts [lit_i ''D1_ERROR'', lit_i ''D1 DB'', lit_i ''SQLITE_ERROR'']"

definition MATCHERS :: "(re \<times> db_error_code \<times> bool) list" where
  "MATCHERS =
     [(lit_i ''D1 DB is overloaded'', DB_OVERLOADED, True),
      (lit_i ''Network connection lost'', DB_NETWORK_LOST, True),
      (lit_i ''Internal error in D1 DB storage caused object to be reset'', DB_STORAGE_RESET, True),
      (lit_i ''D1 DB storage operation exceeded timeout'', DB_TIMEOUT, True),
      (lit_i ''internal error; reference ='', DB_INTERNAL, True),
      (lit_i ''too many SQL variables'', DB_TOO_MANY_VARIABLES, False)]"

fun walk_causes :: "error_heap \<Rightarrow> nat \<Rightarrow> nat list \<Rightarrow> nat \<Rightarrow> nat list" where
  "walk_causes heap 0 seen cur = []"
| "walk_causes heap (Suc n) seen cur =
     (case heap cur of None \<Rightarrow> []
      | Some e \<Rightarrow> if cur \<in> set seen then [] else cur # walk_causes heap n (cur # seen) (eo_cause e))"

definition walkCauseChain :: "error_heap \<Rightarrow> nat \<Rightarrow> error_object list" where
  "walkCauseChain heap err = map (\<lambda>r. the (heap r)) (walk_causes heap 8 [] err)"

definition match_message :: "string \<Rightarrow> (re \<times> db_error_code \<times> bool) option" where
  "match_message msg = find (\<lambda>m. test (fst m) msg) MATCHERS"

fun first_match :: "error_object list \<Rightarrow> classified option" where
  "first_match [] = None"
| "first_match (e # es) =
     (case match_message (eo_message e) of
        Some (_, code, transient) \<Rightarrow> Some \<lparr>cl_code = code, cl_message = eo_message e, cl_transient = transient\<rparr>
      | None \<Rightarrow> first_match es)"

definition classifyDbError :: "error_heap \<Rightarrow> nat \<Rightarrow> classified option" where
  "classifyDbError heap err =
     (let chain = walkCauseChain heap err in
      (case find (\<lambda>e. test D1_FOOTPRINT (eo_message e)) chain of
         None \<Rightarrow> None
       | Some d1Frame \<Rightarrow>
           (case first_match chain of Some c \<Rightarrow> Some c
            | None \<Rightarrow> Some \<lparr>cl_code = DB_UNKNOWN, cl_message = eo_message d1Frame, cl_transient = False\<rparr>)))"

definition dbErrorToWireCode :: "db_error_code \<Rightarrow> string" where
  "dbErrorToWireCode code = (if code = DB_TOO_MANY_VARIABLES then ''db_too_many_variables'' else ''internal_error'')"

definition dbErrorLogFields :: "error_heap \<Rightarrow> nat \<Rightarrow> (db_error_code \<times> string \<times> bool) option" where
  "dbErrorLogFields heap err = map_option (\<lambda>c. (cl_code c, cl_message c, cl_transient c)) (classifyDbError heap err)"

subsection \<open>The boundary\<close>

record error_response =
  er_status :: nat
  er_wire :: wire
  er_headers :: "(string \<times> string) list"

definition wire_response :: "releases_error \<Rightarrow> error_response" where
  "wire_response e = \<lparr>er_status = re_status e, er_wire = toWire e, er_headers = []\<rparr>"

definition http_response :: "string \<Rightarrow> nat \<Rightarrow> (string \<times> string) list \<Rightarrow> error_response" where
  "http_response message status headers =
     (let type = statusToType status;
          e = new_error type message \<lparr>op_code = (if status = 400 then Some ''invalid_json'' else None), op_details = None,
                op_expose = Some (status < 500)\<rparr>
      in \<lparr>er_status = status, er_wire = toWire e,
          er_headers = filter (\<lambda>(k, v). js_lower k \<noteq> ''content-type'' \<and> js_lower k \<noteq> ''content-length'') headers\<rparr>)"

definition fallback_response :: "error_heap \<Rightarrow> nat \<Rightarrow> error_response" where
  "fallback_response heap err =
     (case classifyDbError heap err of
        Some db \<Rightarrow> wire_response (InternalError (Some ''Internal server error'')
          \<lparr>op_code = Some (dbErrorToWireCode (cl_code db)), op_details = Some (DbDetails (cl_code db) (cl_transient db)), op_expose = None\<rparr>)
      | None \<Rightarrow> wire_response (InternalError None no_options))"

definition respondError :: "error_heap \<Rightarrow> nat \<Rightarrow> error_response" where
  "respondError heap err =
     (case heap err of
        None \<Rightarrow> fallback_response heap err
      | Some e \<Rightarrow>
          (case eo_kind e of
             DomainError d \<Rightarrow> wire_response d
           | BareSlugRejected entity \<Rightarrow> wire_response (ValidationError (Some (eo_message e))
               \<lparr>op_code = Some ''bare_slug_rejected'', op_details = Some (EntityDetails entity), op_expose = None\<rparr>)
           | HttpException status headers \<Rightarrow> http_response (eo_message e) status headers
           | OtherError \<Rightarrow> fallback_response heap err))"

subsection \<open>What the boundary guarantees\<close>

lemma type_status [simp]: "statusToType (statusForType t) = (if t = InsufficientScope then Forbidden else t)"
  by (cases t) (simp_all add: statusToType_def statusForType_def TYPE_BY_STATUS_def ERROR_TYPES_def)

lemma walk_causes_props:
  "set (walk_causes heap n seen cur) \<inter> set seen = {} \<and> distinct (walk_causes heap n seen cur)
     \<and> length (walk_causes heap n seen cur) \<le> n \<and> (\<forall>r \<in> set (walk_causes heap n seen cur). heap r \<noteq> None)"
proof (induction heap n seen cur rule: walk_causes.induct)
  case (2 heap n seen cur)
  show ?case
  proof (cases "heap cur = None \<or> cur \<in> set seen")
    case False
    then obtain e where e: "heap cur = Some e" "cur \<notin> set seen" by auto
    from 2 [OF e] e show ?thesis by auto
  qed (auto split: option.split)
qed simp

lemma default_code: "DEFAULT_CODE_BY_TYPE t \<in> set ERROR_CODES"
  by (cases t) (simp_all add: ERROR_CODES_def)

lemma find_SomeD: "find P xs = Some x \<Longrightarrow> x \<in> set xs \<and> P x"
  by (auto simp: find_Some_iff)

lemma first_match_chain:
  "first_match es = Some c \<Longrightarrow> \<exists>e \<in> set es. cl_message c = eo_message e \<and>
     (\<exists>r. (r, cl_code c, cl_transient c) \<in> set MATCHERS \<and> test r (eo_message e))"
proof (induction es)
  case (Cons e es)
  show ?case
  proof (cases "match_message (eo_message e)")
    case (Some m)
    then have "m \<in> set MATCHERS \<and> test (fst m) (eo_message e)" unfolding match_message_def by (rule find_SomeD)
    then show ?thesis using Cons.prems Some by (cases m) auto
  qed (use Cons in auto)
qed simp

text \<open>The two server-class messages the boundary may show.\<close>

definition safe_message :: "error_heap \<Rightarrow> nat \<Rightarrow> string \<Rightarrow> bool" where
  "safe_message heap err m \<longleftrightarrow>
     (\<exists>t. m = GENERIC_MESSAGE t)
   \<or> (\<exists>e. heap err = Some e \<and> (case eo_kind e of DomainError d \<Rightarrow> re_expose d \<and> m = re_message d
        | BareSlugRejected _ \<Rightarrow> m = eo_message e | HttpException status _ \<Rightarrow> status < 500 \<and> m = eo_message e | OtherError \<Rightarrow> False))"

text \<open>C31: the error boundary.  Whatever is thrown, the code on the wire is in the registry, the status is the
  one of the category (an \<open>HTTPException\<close> keeps its own), and the message is a generic one unless the
  thrown value is an exposed domain error, a rejected slug or an \<open>HTTPException\<close> below 500.\<close>
theorem error_boundary:
  assumes "\<And>e d. heap err = Some e \<Longrightarrow> eo_kind e = DomainError d \<Longrightarrow> re_code d \<in> set ERROR_CODES \<and> re_status d = statusForType (re_type d)"
  shows "wi_code (er_wire (respondError heap err)) \<in> set ERROR_CODES
    \<and> safe_message heap err (wi_message (er_wire (respondError heap err)))
    \<and> ((\<exists>e s h. heap err = Some e \<and> eo_kind e = HttpException s h \<and> er_status (respondError heap err) = s)
       \<or> er_status (respondError heap err) = statusForType (wi_type (er_wire (respondError heap err))))"
proof -
  have fb: "wi_code (er_wire (fallback_response heap err)) \<in> set ERROR_CODES \<and> wi_message (er_wire (fallback_response heap err)) = GENERIC_MESSAGE Internal
      \<and> er_status (fallback_response heap err) = statusForType (wi_type (er_wire (fallback_response heap err)))"
    by (auto simp: fallback_response_def wire_response_def toWire_def InternalError_def new_error_def with_code_def no_options_def
        dbErrorToWireCode_def ERROR_CODES_def split: option.split)
  have sm: "safe_message heap err (GENERIC_MESSAGE t)" for t by (auto simp: safe_message_def)
  show ?thesis
  proof (cases "heap err")
    case None
    then show ?thesis using fb sm [of Internal] by (simp add: respondError_def del: GENERIC_MESSAGE.simps)
  next
    case (Some e)
    show ?thesis
    proof (cases "eo_kind e")
      case (DomainError d)
      then show ?thesis using Some assms by (auto simp: respondError_def wire_response_def toWire_def safe_message_def)
    next
      case (BareSlugRejected x)
      then show ?thesis using Some
        by (auto simp: respondError_def wire_response_def toWire_def safe_message_def ValidationError_def new_error_def with_code_def
            ERROR_CODES_def)
    next
      case (HttpException s h)
      have "(if s = 400 then ''invalid_json'' else DEFAULT_CODE_BY_TYPE t) \<in> set ERROR_CODES" for t
        using default_code by (auto simp: ERROR_CODES_def)
      then show ?thesis using Some HttpException default_code
        by (auto simp: respondError_def http_response_def toWire_def safe_message_def new_error_def Let_def split: if_splits)
    next
      case OtherError
      then show ?thesis using Some fb sm [of Internal] by (simp add: respondError_def del: GENERIC_MESSAGE.simps)
    qed
  qed
qed

text \<open>An upstream failure whose message must stay inside.\<close>

definition sample_heap :: error_heap where
  "sample_heap = (\<lambda>r. if r = 0 then Some \<lparr>eo_message = ''secret'', eo_kind = HttpException 502 [(''Retry-After'', ''1'')], eo_cause = 1\<rparr>
     else None)"

theorem error_boundary_witness:
  "safe_message sample_heap 0 (wi_message (er_wire (respondError sample_heap 0)))
    \<and> wi_message (er_wire (respondError sample_heap 0)) = ''Upstream service error'' \<and> er_status (respondError sample_heap 0) = 502"
proof -
  have "wi_message (er_wire (respondError sample_heap 0)) = ''Upstream service error'' \<and> er_status (respondError sample_heap 0) = 502"
    by code_simp
  moreover have "safe_message sample_heap 0 (wi_message (er_wire (respondError sample_heap 0)))"
    using error_boundary [of sample_heap 0] by (fastforce simp: sample_heap_def)
  ultimately show ?thesis by blast
qed

text \<open>C38: the classification of a database failure reads at most eight distinct objects of a chain of causes,
  cyclic or not, ends on every heap, and calls a failure transient only when a message of the chain
  carries the footprint of the database and a message matches a transient pattern.\<close>
theorem classify_transient_sound:
  "distinct (walk_causes heap 8 [] err) \<and> length (walkCauseChain heap err) \<le> 8
   \<and> (case classifyDbError heap err of None \<Rightarrow> \<forall>e \<in> set (walkCauseChain heap err). \<not> test D1_FOOTPRINT (eo_message e)
      | Some c \<Rightarrow> (\<exists>e \<in> set (walkCauseChain heap err). test D1_FOOTPRINT (eo_message e))
          \<and> (\<exists>e \<in> set (walkCauseChain heap err). cl_message c = eo_message e)
          \<and> (cl_transient c \<longrightarrow> (\<exists>r. (r, cl_code c, True) \<in> set MATCHERS \<and> test r (cl_message c)) \<and> cl_code c \<noteq> DB_TOO_MANY_VARIABLES))"
proof -
  let ?chain = "walkCauseChain heap err"
  have "distinct (walk_causes heap 8 [] err)" "length ?chain \<le> 8"
    using walk_causes_props [of heap 8 "[]" err] by (simp_all add: walkCauseChain_def)
  moreover have "case classifyDbError heap err of None \<Rightarrow> \<forall>e \<in> set ?chain. \<not> test D1_FOOTPRINT (eo_message e)
      | Some c \<Rightarrow> (\<exists>e \<in> set ?chain. test D1_FOOTPRINT (eo_message e)) \<and> (\<exists>e \<in> set ?chain. cl_message c = eo_message e)
          \<and> (cl_transient c \<longrightarrow> (\<exists>r. (r, cl_code c, True) \<in> set MATCHERS \<and> test r (cl_message c)) \<and> cl_code c \<noteq> DB_TOO_MANY_VARIABLES)"
  proof (cases "find (\<lambda>e. test D1_FOOTPRINT (eo_message e)) ?chain")
    case None
    then have "classifyDbError heap err = None" by (simp add: classifyDbError_def Let_def)
    with None show ?thesis by (simp add: find_None_iff)
  next
    case (Some f)
    then have f: "f \<in> set ?chain" "test D1_FOOTPRINT (eo_message f)" by (auto dest: find_SomeD)
    show ?thesis
    proof (cases "first_match ?chain")
      case None
      then show ?thesis using Some f by (auto simp: classifyDbError_def Let_def)
    next
      case m: (Some c)
      obtain e r where e: "e \<in> set ?chain" "cl_message c = eo_message e" "(r, cl_code c, cl_transient c) \<in> set MATCHERS"
        "test r (eo_message e)" using first_match_chain [OF m] by blast
      have "cl_code c \<noteq> DB_TOO_MANY_VARIABLES" if "cl_transient c" using that e(3) by (auto simp: MATCHERS_def)
      then show ?thesis using Some m f e by (auto simp: classifyDbError_def Let_def)
    qed
  qed
  ultimately show ?thesis by blast
qed


theorem classify_transient_sound_witness:
  "length (walkCauseChain sample_heap 0) \<le> 8 \<and> distinct (walk_causes sample_heap 8 [] 0)"
  using classify_transient_sound [of sample_heap 0] by simp

end
