(* ===== verification/IdempotencyStore.thy ===== *)
theory IdempotencyStore
  imports Prelude
begin

section \<open>The table of idempotency records\<close>

text \<open>
  \<open>apps/api/src/lib/idempotency/idempotency-store.ts\<close> over the table \<open>idempotency_records\<close> of
  \<open>packages/core/src/schema.ts\<close>.  The table is the list of its rows in the order of their rowids, the pair of hashes being
  the primary key.  Each SQL statement is atomic and one function on the table; what the source does with
  several statements is a machine that executes one of them per step, so that other requests may act in
  between, and the source function is the machine run on its own.  Instants are the ISO texts of the source.  A stored JSON text is
  represented by its value, \<^const>\<open>None\<close> being a text \<open>JSON.parse\<close> refuses; the type variable \<open>'j\<close> is
  the type of that representation.
\<close>

datatype idem_state = Processing | Completed

record 'j idem_record =
  ir_principalHash :: string
  ir_keyHash :: string
  ir_requestHash :: string
  ir_state :: idem_state
  ir_attemptId :: string
  ir_responseStatus :: "nat option"
  ir_responseHeaders :: "'j option"
  ir_responseBody :: "'j option"
  ir_createdAt :: string
  ir_completedAt :: "string option"
  ir_expiresAt :: string

type_synonym 'j idem_table = "'j idem_record list"

record claim_input =
  ci_principalHash :: string
  ci_keyHash :: string
  ci_requestHash :: string
  ci_attemptId :: string
  ci_now :: string
  ci_expiresAt :: string

record 'j completed_record =
  cr_requestHash :: string
  cr_responseStatus :: nat
  cr_responseHeaders :: 'j
  cr_responseBody :: 'j
  cr_expiresAt :: string

datatype 'j claim_result = Claimed string | Replay "'j completed_record" | InProgress | Conflicting | ClaimUnavailable

definition MAX_ADMISSION_ATTEMPTS :: nat where "MAX_ADMISSION_ATTEMPTS = 3"

subsection \<open>Single statements\<close>

definition row_key :: "'j idem_record \<Rightarrow> string \<times> string" where
  "row_key r = (ir_principalHash r, ir_keyHash r)"

definition input_key :: "claim_input \<Rightarrow> string \<times> string" where
  "input_key inp = (ci_principalHash inp, ci_keyHash inp)"

definition idem_find :: "'j idem_table \<Rightarrow> string \<times> string \<Rightarrow> 'j idem_record option" where
  "idem_find t k = find (\<lambda>r. row_key r = k) t"

definition processing_row :: "claim_input \<Rightarrow> 'j idem_record" where
  "processing_row inp = \<lparr>ir_principalHash = ci_principalHash inp, ir_keyHash = ci_keyHash inp, ir_requestHash = ci_requestHash inp,
     ir_state = Processing, ir_attemptId = ci_attemptId inp, ir_responseStatus = None, ir_responseHeaders = None,
     ir_responseBody = None, ir_createdAt = ci_now inp, ir_completedAt = None, ir_expiresAt = ci_expiresAt inp\<rparr>"

text \<open>\<open>INSERT \<dots> ON CONFLICT DO NOTHING RETURNING attempt_id\<close>.\<close>

definition insert_guard :: "claim_input \<Rightarrow> 'j idem_table \<Rightarrow> string option \<times> 'j idem_table" where
  "insert_guard inp t =
     (case idem_find t (input_key inp) of Some _ \<Rightarrow> (None, t)
      | None \<Rightarrow> (Some (ci_attemptId inp), t @ [processing_row inp]))"

definition delete_expired :: "claim_input \<Rightarrow> 'j idem_table \<Rightarrow> 'j idem_table" where
  "delete_expired inp t = filter (\<lambda>r. \<not> (row_key r = input_key inp \<and> ir_expiresAt r \<le> ci_now inp)) t"

definition owns :: "string \<times> string \<Rightarrow> string \<Rightarrow> 'j idem_record \<Rightarrow> bool" where
  "owns k attemptId r \<longleftrightarrow> row_key r = k \<and> ir_attemptId r = attemptId \<and> ir_state r = Processing"

definition completeIdempotency ::
  "string \<times> string \<Rightarrow> string \<Rightarrow> nat \<Rightarrow> 'j \<Rightarrow> 'j \<Rightarrow> string \<Rightarrow> 'j idem_table \<Rightarrow> bool \<times> 'j idem_table" where
  "completeIdempotency k attemptId status headers body completedAt t =
     (length (filter (owns k attemptId) t) = 1,
      map (\<lambda>r. if owns k attemptId r then r\<lparr>ir_state := Completed, ir_responseStatus := Some status,
        ir_responseHeaders := Some headers, ir_responseBody := Some body, ir_completedAt := Some completedAt\<rparr> else r) t)"

definition releaseIdempotency :: "string \<times> string \<Rightarrow> string \<Rightarrow> 'j idem_table \<Rightarrow> bool \<times> 'j idem_table" where
  "releaseIdempotency k attemptId t = (length (filter (owns k attemptId) t) = 1, filter (\<lambda>r. \<not> owns k attemptId r) t)"

definition isGuardActive :: "string \<times> string \<Rightarrow> string \<Rightarrow> 'j idem_table \<Rightarrow> bool" where
  "isGuardActive k attemptId t \<longleftrightarrow> filter (owns k attemptId) t \<noteq> []"

subsection \<open>Admission\<close>

text \<open>What follows from the row that was read: a result, or its removal because it has expired.\<close>

datatype 'j verdict = Expired | Settled "'j claim_result"

definition judge :: "claim_input \<Rightarrow> 'j idem_record \<Rightarrow> 'j verdict" where
  "judge inp existing =
     (if ir_expiresAt existing \<le> ci_now inp then Expired
      else if ir_requestHash existing \<noteq> ci_requestHash inp then Settled Conflicting
      else if ir_state existing = Processing then Settled InProgress
      else (case (ir_responseStatus existing, ir_responseHeaders existing, ir_responseBody existing) of
          (Some status, Some headers, Some body) \<Rightarrow>
            Settled (Replay \<lparr>cr_requestHash = ir_requestHash existing, cr_responseStatus = status, cr_responseHeaders = headers,
              cr_responseBody = body, cr_expiresAt = ir_expiresAt existing\<rparr>)
        | _ \<Rightarrow> Settled ClaimUnavailable))"

text \<open>The number is that of the admission attempts left.\<close>

datatype 'j claim_pc = Inserting nat | Reading nat | Deleting nat | ClaimDone "'j claim_result"

fun claim_step :: "claim_input \<Rightarrow> 'j claim_pc \<Rightarrow> 'j idem_table \<Rightarrow> 'j claim_pc \<times> 'j idem_table" where
  "claim_step inp (Inserting n) t =
     (if n = 0 then (ClaimDone ClaimUnavailable, t)
      else (case insert_guard inp t of
          (Some a, t') \<Rightarrow> (ClaimDone (Claimed a), t')
        | (None, t') \<Rightarrow> (Reading (n - 1), t')))"
| "claim_step inp (Reading n) t =
     (case idem_find t (input_key inp) of
        None \<Rightarrow> (Inserting n, t)
      | Some existing \<Rightarrow> (case judge inp existing of Expired \<Rightarrow> (Deleting n, t) | Settled r \<Rightarrow> (ClaimDone r, t)))"
| "claim_step inp (Deleting n) t = (Inserting n, delete_expired inp t)"
| "claim_step inp (ClaimDone r) t = (ClaimDone r, t)"

fun claim_measure :: "'j claim_pc \<Rightarrow> nat" where
  "claim_measure (Inserting n) = 3 * n + 1"
| "claim_measure (Reading n) = 3 * n + 3"
| "claim_measure (Deleting n) = 3 * n + 2"
| "claim_measure (ClaimDone r) = 0"

lemma claim_step_less:
  assumes "claim_step inp pc t = (pc', t')" and "claim_measure pc \<noteq> 0"
  shows "claim_measure pc' < claim_measure pc"
  using assms by (cases pc) (auto simp: insert_guard_def split: if_splits option.splits verdict.splits)

function claim_from :: "claim_input \<Rightarrow> 'j claim_pc \<Rightarrow> 'j idem_table \<Rightarrow> 'j claim_result \<times> 'j idem_table" where
  "claim_from inp (ClaimDone r) t = (r, t)"
| "claim_from inp (Inserting n) t = (case claim_step inp (Inserting n) t of (pc, t') \<Rightarrow> claim_from inp pc t')"
| "claim_from inp (Reading n) t = (case claim_step inp (Reading n) t of (pc, t') \<Rightarrow> claim_from inp pc t')"
| "claim_from inp (Deleting n) t = (case claim_step inp (Deleting n) t of (pc, t') \<Rightarrow> claim_from inp pc t')"
  by pat_completeness auto
termination
proof (relation "measure (\<lambda>(inp, pc, t). claim_measure pc)")
  show "((inp, pc, t'), inp, Inserting n, t) \<in> measure (\<lambda>(inp, pc, t). claim_measure pc)"
    if "(pc, t') = claim_step inp (Inserting n) t" for inp n and t :: "'j idem_table" and pc t'
    using claim_step_less [OF that [symmetric]] by simp
  show "((inp, pc, t'), inp, Reading n, t) \<in> measure (\<lambda>(inp, pc, t). claim_measure pc)"
    if "(pc, t') = claim_step inp (Reading n) t" for inp n and t :: "'j idem_table" and pc t'
    using claim_step_less [OF that [symmetric]] by simp
  show "((inp, pc, t'), inp, Deleting n, t) \<in> measure (\<lambda>(inp, pc, t). claim_measure pc)"
    if "(pc, t') = claim_step inp (Deleting n) t" for inp n and t :: "'j idem_table" and pc t'
    using claim_step_less [OF that [symmetric]] by simp
qed simp

definition claimIdempotency :: "claim_input \<Rightarrow> 'j idem_table \<Rightarrow> 'j claim_result \<times> 'j idem_table" where
  "claimIdempotency inp t = claim_from inp (Inserting MAX_ADMISSION_ATTEMPTS) t"

definition retainIdempotency :: "claim_input \<Rightarrow> 'j idem_table \<Rightarrow> bool \<times> 'j idem_table" where
  "retainIdempotency inp t = (case claimIdempotency inp t of (r, t') \<Rightarrow> (r \<noteq> ClaimUnavailable, t'))"

subsection \<open>The sweep\<close>

text \<open>\<^const>\<open>None\<close> is the \<open>RangeError\<close>.  Rows that expire together go in the order of their rowids.\<close>

definition sweepExpiredIdempotency :: "string \<Rightarrow> int \<Rightarrow> 'j idem_table \<Rightarrow> (nat \<times> 'j idem_table) option" where
  "sweepExpiredIdempotency now limit t =
     (if limit \<le> 0 then None
      else (let victims = take (nat limit) (sort_by (\<lambda>a b. cmp3 (ir_expiresAt a) (ir_expiresAt b)) (filter (\<lambda>r. ir_expiresAt r \<le> now) t));
                gone = map row_key victims
            in Some (length victims, filter (\<lambda>r. row_key r \<notin> set gone) t)))"


subsection \<open>The table as a map\<close>

definition keys_unique :: "'j idem_table \<Rightarrow> bool" where
  "keys_unique t \<longleftrightarrow> distinct (map row_key t)"

lemma keys_unique_simps [simp]:
  "keys_unique []" "keys_unique (r # t) \<longleftrightarrow> row_key r \<notin> row_key ` set t \<and> keys_unique t"
  by (simp_all add: keys_unique_def)

lemma idem_find_simps [simp]:
  "idem_find [] k = None" "idem_find (r # t) k = (if row_key r = k then Some r else idem_find t k)"
  by (simp_all add: idem_find_def)

lemma idem_find_append [simp]: "idem_find (t @ u) k = (case idem_find t k of Some r \<Rightarrow> Some r | None \<Rightarrow> idem_find u k)"
  by (induction t) auto

lemma idem_find_None: "idem_find t k = None \<longleftrightarrow> k \<notin> row_key ` set t"
  by (induction t) auto

lemma idem_find_Some: "keys_unique t \<Longrightarrow> idem_find t k = Some r \<longleftrightarrow> r \<in> set t \<and> row_key r = k"
  by (induction t) (auto simp: image_iff)

lemma idem_find_filter:
  "keys_unique t \<Longrightarrow> idem_find (filter P t) k = (case idem_find t k of Some r \<Rightarrow> if P r then Some r else None | None \<Rightarrow> None)"
proof (induction t)
  case (Cons r t)
  then have "idem_find t (row_key r) = None" by (simp add: idem_find_None)
  with Cons show ?case by (auto split: option.splits)
qed simp

lemma idem_find_key: "idem_find t k = Some r \<Longrightarrow> row_key r = k"
  by (induction t) (auto split: if_splits)

lemma keys_unique_filter [simp]: "keys_unique t \<Longrightarrow> keys_unique (filter P t)"
  by (simp add: keys_unique_def distinct_map_filter)

lemma processing_row_simps [simp]:
  "row_key (processing_row inp) = input_key inp" "ir_attemptId (processing_row inp) = ci_attemptId inp"
  "ir_expiresAt (processing_row inp) = ci_expiresAt inp" "ir_requestHash (processing_row inp) = ci_requestHash inp"
  "ir_state (processing_row inp) = Processing"
  by (simp_all add: processing_row_def row_key_def input_key_def)

lemma insert_guard_map:
  assumes "insert_guard inp t = (a, t')"
  shows "idem_find t' = (case idem_find t (input_key inp) of None \<Rightarrow> (idem_find t)(input_key inp \<mapsto> processing_row inp) | Some _ \<Rightarrow> idem_find t)"
    and "keys_unique t \<Longrightarrow> keys_unique t'"
    and "a = (if idem_find t (input_key inp) = None then Some (ci_attemptId inp) else None)"
proof -
  show "idem_find t' = (case idem_find t (input_key inp) of None \<Rightarrow> (idem_find t)(input_key inp \<mapsto> processing_row inp) | Some _ \<Rightarrow> idem_find t)"
    using assms by (auto simp: insert_guard_def fun_eq_iff split: option.splits)
  show "a = (if idem_find t (input_key inp) = None then Some (ci_attemptId inp) else None)"
    using assms by (auto simp: insert_guard_def split: option.splits)
  show "keys_unique t'" if "keys_unique t"
  proof (cases "idem_find t (input_key inp)")
    case None
    then have "input_key inp \<notin> row_key ` set t" by (simp add: idem_find_None)
    moreover have "t' = t @ [processing_row inp]" using None assms by (simp add: insert_guard_def)
    ultimately show ?thesis using that by (simp add: keys_unique_def)
  qed (use assms that in \<open>simp add: insert_guard_def\<close>)
qed

lemma delete_expired_map:
  assumes "keys_unique t"
  shows "idem_find (delete_expired inp t) k =
      (case idem_find t k of Some r \<Rightarrow> if k = input_key inp \<and> ir_expiresAt r \<le> ci_now inp then None else Some r | None \<Rightarrow> None)"
    and "keys_unique (delete_expired inp t)"
  using assms by (auto simp: delete_expired_def idem_find_filter dest!: idem_find_key split: option.split)

lemma owned_once:
  "keys_unique t \<Longrightarrow> length (filter (owns k a) t) = 1 \<longleftrightarrow> (\<exists>r. idem_find t k = Some r \<and> owns k a r)"
proof (induction t)
  case (Cons r t)
  show ?case
  proof (cases "row_key r = k")
    case True
    then have "filter (owns k a) t = []" using Cons.prems by (auto simp: owns_def filter_empty_conv image_iff)
    with True show ?thesis by (simp only: idem_find_simps filter.simps if_True) auto
  next
    case False
    then have "\<not> owns k a r" by (simp add: owns_def)
    with False Cons show ?thesis by simp
  qed
qed simp

lemma release_map:
  assumes "releaseIdempotency k a t = (ok, t')" and "keys_unique t"
  shows "idem_find t' k' = (case idem_find t k' of Some r \<Rightarrow> if owns k a r then None else Some r | None \<Rightarrow> None)"
    and "keys_unique t'" and "ok \<longleftrightarrow> (\<exists>r. idem_find t k = Some r \<and> owns k a r)"
proof -
  have t': "t' = filter (\<lambda>r. \<not> owns k a r) t" and ok: "ok \<longleftrightarrow> length (filter (owns k a) t) = 1"
    using assms(1) by (auto simp: releaseIdempotency_def)
  show "idem_find t' k' = (case idem_find t k' of Some r \<Rightarrow> if owns k a r then None else Some r | None \<Rightarrow> None)" "keys_unique t'"
    using assms(2) by (auto simp: t' idem_find_filter split: option.split)
  show "ok \<longleftrightarrow> (\<exists>r. idem_find t k = Some r \<and> owns k a r)" unfolding ok using owned_once [OF assms(2)] .
qed

lemma complete_map:
  assumes "completeIdempotency k a st h b at' t = (ok, t')" and "keys_unique t"
  shows "idem_find t' k' = map_option (\<lambda>r. if owns k a r then r\<lparr>ir_state := Completed, ir_responseStatus := Some st,
        ir_responseHeaders := Some h, ir_responseBody := Some b, ir_completedAt := Some at'\<rparr> else r) (idem_find t k')"
    and "keys_unique t'" and "ok \<longleftrightarrow> (\<exists>r. idem_find t k = Some r \<and> owns k a r)"
proof -
  let ?f = "\<lambda>r. if owns k a r then r\<lparr>ir_state := Completed, ir_responseStatus := Some st,
        ir_responseHeaders := Some h, ir_responseBody := Some b, ir_completedAt := Some at'\<rparr> else r"
  have t': "t' = map ?f t" and ok: "ok \<longleftrightarrow> length (filter (owns k a) t) = 1"
    using assms(1) by (auto simp: completeIdempotency_def)
  have key: "row_key (?f r) = row_key r" for r by (simp add: row_key_def)
  show "idem_find t' k' = map_option ?f (idem_find t k')" unfolding t' by (induction t) (simp_all add: key)
  have "map row_key (map ?f t) = map row_key t" by (simp add: key)
  then show "keys_unique t'" using assms(2) unfolding keys_unique_def t' by (simp only:)
  show "ok \<longleftrightarrow> (\<exists>r. idem_find t k = Some r \<and> owns k a r)" unfolding ok using owned_once [OF assms(2)] .
qed

text \<open>The victims of a sweep are its earliest rows, all expired.\<close>

lemma sweep_map:
  assumes "sweepExpiredIdempotency now limit t = Some (n, t')" and "keys_unique t"
  shows "idem_find t' k = idem_find t k \<or> (idem_find t' k = None \<and> (\<exists>r. idem_find t k = Some r \<and> ir_expiresAt r \<le> now))"
    and "keys_unique t'"
proof -
  let ?victims = "take (nat limit) (sort_by (\<lambda>a b. cmp3 (ir_expiresAt a) (ir_expiresAt b)) (filter (\<lambda>r. ir_expiresAt r \<le> now) t))"
  have t': "t' = filter (\<lambda>r. row_key r \<notin> set (map row_key ?victims)) t"
    using assms(1) by (auto simp: sweepExpiredIdempotency_def Let_def split: if_splits)
  show "keys_unique t'" unfolding t' by (rule keys_unique_filter [OF assms(2)])
  show "idem_find t' k = idem_find t k \<or> (idem_find t' k = None \<and> (\<exists>r. idem_find t k = Some r \<and> ir_expiresAt r \<le> now))"
  proof (cases "idem_find t k")
    case None
    then show ?thesis by (simp add: t' idem_find_filter [OF assms(2)])
  next
    case (Some r)
    then have r: "r \<in> set t" "row_key r = k" using idem_find_Some [OF assms(2)] by auto
    have "ir_expiresAt r \<le> now" if "row_key r \<in> set (map row_key ?victims)"
    proof -
      obtain v where v: "v \<in> set ?victims" "row_key v = row_key r" using \<open>row_key r \<in> _\<close> by auto
      from v(1) have "v \<in> set t" "ir_expiresAt v \<le> now" by (auto dest!: in_set_takeD)
      moreover from this have "v = r" using assms(2) r(1) v(2) by (auto simp: keys_unique_def distinct_map inj_on_def)
      ultimately show ?thesis by simp
    qed
    then show ?thesis using Some r by (auto simp: t' idem_find_filter [OF assms(2)])
  qed
qed


subsection \<open>Properties\<close>

lemma delete_then_insert:
  assumes "keys_unique t" and "idem_find t (input_key inp) = Some r" and "ir_expiresAt r \<le> ci_now inp"
  shows "insert_guard inp (delete_expired inp t) = (Some (ci_attemptId inp), delete_expired inp t @ [processing_row inp])"
  using delete_expired_map(1) [OF assms(1), of inp "input_key inp"] assms(2,3) by (simp add: insert_guard_def)

text \<open>C39: What an undisturbed claim does: a free key is taken, a key whose record has expired is taken over, and otherwise the
  record decides, first whether the request is the same one, then whether it is still being processed; only a completed
  record without its response makes the service unavailable, and only then is a guard not retained.\<close>

theorem claim_contract:
  assumes "keys_unique t"
  shows "claimIdempotency inp t =
      (case idem_find t (input_key inp) of
         None \<Rightarrow> (Claimed (ci_attemptId inp), t @ [processing_row inp])
       | Some r \<Rightarrow>
           if ir_expiresAt r \<le> ci_now inp then (Claimed (ci_attemptId inp), delete_expired inp t @ [processing_row inp])
           else if ir_requestHash r \<noteq> ci_requestHash inp then (Conflicting, t)
           else if ir_state r = Processing then (InProgress, t)
           else (case (ir_responseStatus r, ir_responseHeaders r, ir_responseBody r) of
               (Some status, Some headers, Some body) \<Rightarrow>
                 (Replay \<lparr>cr_requestHash = ir_requestHash r, cr_responseStatus = status, cr_responseHeaders = headers,
                    cr_responseBody = body, cr_expiresAt = ir_expiresAt r\<rparr>, t)
             | _ \<Rightarrow> (ClaimUnavailable, t)))
    \<and> (retainIdempotency inp t = (False, t) \<longleftrightarrow> fst (claimIdempotency inp t) = ClaimUnavailable)"
proof (cases "idem_find t (input_key inp)")
  case None
  then show ?thesis by (simp add: claimIdempotency_def MAX_ADMISSION_ATTEMPTS_def insert_guard_def retainIdempotency_def)
next
  case (Some r)
  show ?thesis
  proof (cases "ir_expiresAt r \<le> ci_now inp")
    case True
    then show ?thesis
      using delete_then_insert [OF assms Some] Some
      by (simp add: claimIdempotency_def MAX_ADMISSION_ATTEMPTS_def judge_def retainIdempotency_def)
        (simp add: insert_guard_def judge_def)
  next
    case False
    then show ?thesis
      using Some by (simp add: claimIdempotency_def MAX_ADMISSION_ATTEMPTS_def judge_def insert_guard_def retainIdempotency_def split: option.split)
  qed
qed

definition sample_input :: "string \<Rightarrow> string \<Rightarrow> string \<Rightarrow> string \<Rightarrow> claim_input" where
  "sample_input hash attempt now expires = \<lparr>ci_principalHash = ''p'', ci_keyHash = ''k'', ci_requestHash = hash, ci_attemptId = attempt,
     ci_now = now, ci_expiresAt = expires\<rparr>"

lemma claim_contract_witness:
  "fst (claimIdempotency (sample_input ''h'' ''a2'' ''2026-01-02'' ''2026-01-03'')
     [processing_row (sample_input ''h'' ''a1'' ''2026-01-01'' ''2026-01-02'') :: nat idem_record]) = Claimed ''a2''
   \<and> fst (claimIdempotency (sample_input ''g'' ''a2'' ''2026-01-01'' ''2026-01-03'')
     [processing_row (sample_input ''h'' ''a1'' ''2026-01-01'' ''2026-01-02'') :: nat idem_record]) = Conflicting"
proof -
  have "keys_unique [processing_row (sample_input ''h'' ''a1'' ''2026-01-01'' ''2026-01-02'') :: nat idem_record]" by simp
  from claim_contract [OF this] show ?thesis by (simp add: sample_input_def input_key_def)
qed

text \<open>Admission ends whatever other requests and sweeps do to the table between its statements: after at most ten of them
  there is a result.\<close>

theorem claim_settles:
  "claim_measure (fold (\<lambda>t pc. fst (claim_step inp pc t)) ts (Inserting MAX_ADMISSION_ATTEMPTS)) \<le> 10 - length ts"
proof -
  have "claim_measure (fold (\<lambda>t pc. fst (claim_step inp pc t)) ts pc) \<le> claim_measure pc - length ts" for pc
  proof (induction ts arbitrary: pc)
    case (Cons t ts)
    have "claim_measure (fst (claim_step inp pc t)) \<le> claim_measure pc - 1"
    proof (cases "claim_measure pc = 0")
      case True
      then show ?thesis by (cases pc) auto
    next
      case False
      with claim_step_less [of inp pc t "fst (claim_step inp pc t)" "snd (claim_step inp pc t)"] show ?thesis by simp
    qed
    with Cons.IH [of "fst (claim_step inp pc t)"] show ?case by simp
  qed simp
  from this [of "Inserting MAX_ADMISSION_ATTEMPTS"] show ?thesis by (simp add: MAX_ADMISSION_ATTEMPTS_def)
qed

text \<open>A sweep removes expired rows only, the earliest of them, as many as its limit allows; a limit that is not positive
  is an error.\<close>

theorem sweep_contract:
  assumes "keys_unique t"
  shows "case sweepExpiredIdempotency now limit t of
      None \<Rightarrow> limit \<le> 0
    | Some (n, t') \<Rightarrow> 0 < limit \<and> n = min (nat limit) (length (filter (\<lambda>r. ir_expiresAt r \<le> now) t)) \<and> length t' + n = length t
        \<and> (\<forall>r \<in> set t. r \<in> set t' \<or> ir_expiresAt r \<le> now \<and> (\<forall>s \<in> set t'. ir_expiresAt r \<le> ir_expiresAt s))"
proof (cases "limit \<le> 0")
  case False
  let ?cmp = "\<lambda>a b. cmp3 (ir_expiresAt a) (ir_expiresAt b)"
  let ?old = "filter (\<lambda>r. ir_expiresAt r \<le> now) t"
  let ?sorted = "sort_by ?cmp ?old"
  let ?victims = "take (nat limit) ?sorted"
  let ?rest = "filter (\<lambda>r. row_key r \<notin> set (map row_key ?victims)) t"
  have inj: "inj_on row_key (set t)" and dist: "distinct t" using assms by (simp_all add: keys_unique_def distinct_map)
  have sub: "set ?victims \<subseteq> set ?old" by (auto dest: in_set_takeD)
  have rest: "?rest = filter (\<lambda>r. r \<notin> set ?victims) t"
    using sub inj by (intro filter_cong) (auto simp: inj_on_def)
  have len: "length ?victims = min (nat limit) (length ?old)" by simp
  have dv: "distinct ?victims" using dist by (intro distinct_take) simp
  have eq: "set (filter (\<lambda>r. r \<in> set ?victims) t) = set ?victims" using sub by auto
  have cnt: "length (filter (\<lambda>r. r \<in> set ?victims) t) = length ?victims"
    using distinct_card [OF dv] distinct_card [OF distinct_filter [OF dist, of "\<lambda>r. r \<in> set ?victims"]] by (simp only: eq)
  have "length (filter (\<lambda>r. r \<notin> set ?victims) t) + length ?victims = length t"
    using sum_length_filter_compl [of "\<lambda>r. r \<in> set ?victims" t] cnt by simp
  moreover have "ir_expiresAt r \<le> ir_expiresAt s" if r: "r \<in> set t" "r \<in> set ?victims" and s: "s \<in> set t" "s \<notin> set ?victims" for r s
  proof (cases "ir_expiresAt s \<le> now")
    case True
    have "consistent_cmp ?cmp" by (auto simp: consistent_cmp_def)
    then have "sorted_wrt (\<lambda>a b. ?cmp a b \<le> 0) ?sorted" by (rule sorted_sort_by)
    then have "sorted_wrt (\<lambda>a b. ?cmp a b \<le> 0) (?victims @ drop (nat limit) ?sorted)" by (simp only: append_take_drop_id)
    moreover have "s \<in> set ?sorted" using s(1) True by simp
    then have "s \<in> set ?victims \<or> s \<in> set (drop (nat limit) ?sorted)" by (metis Un_iff append_take_drop_id set_append)
    with s(2) have "s \<in> set (drop (nat limit) ?sorted)" by blast
    ultimately have "?cmp r s \<le> 0" using r(2) unfolding sorted_wrt_append by blast
    then show ?thesis by simp
  next
    case False
    moreover have "ir_expiresAt r \<le> now" using r(2) sub by auto
    ultimately show ?thesis by simp
  qed
  ultimately show ?thesis
    using False sub len unfolding sweepExpiredIdempotency_def Let_def rest by auto
qed (simp add: sweepExpiredIdempotency_def)

lemma sweep_contract_witness:
  "case sweepExpiredIdempotency ''2026-01-05'' 1 [processing_row (sample_input ''h'' ''a1'' ''2026-01-01'' ''2026-01-02'') :: nat idem_record] of
     None \<Rightarrow> False | Some (n, t') \<Rightarrow> length t' + n = 1"
proof -
  have "keys_unique [processing_row (sample_input ''h'' ''a1'' ''2026-01-01'' ''2026-01-02'') :: nat idem_record]" by simp
  from sweep_contract [OF this, of 1 "''2026-01-05''"] show ?thesis by (auto split: option.splits)
qed

end
