(* ===== verification/IdempotencyCodec.thy ===== *)
theory IdempotencyCodec
  imports WebhookSign Base64 Errors
begin

section \<open>Idempotency: identities, fingerprints and the stored response\<close>

text \<open>
  The pure parts of \<open>apps/api/src/middleware/idempotency.ts\<close>, \<open>lib/idempotency/idempotency-crypto.ts\<close> and
  \<open>idempotency-principal.ts\<close>.  SHA-256 and AES-GCM of \<open>crypto.subtle\<close> are the fields of a record, functions on bytes.
  A JSON value stands for the text that encodes it, as in the table of records.
\<close>

record crypto =
  c_sha256 :: "byte list \<Rightarrow> byte list"
  c_encrypt :: "byte list \<Rightarrow> byte list \<Rightarrow> byte list \<Rightarrow> byte list \<Rightarrow> byte list"
  c_decrypt :: "byte list \<Rightarrow> byte list \<Rightarrow> byte list \<Rightarrow> byte list \<Rightarrow> byte list option"

datatype json = JNull | JNum int | JStr string | JArr "json list" | JObj "(string \<times> json) list"

text \<open>\<^const>\<open>None\<close> is a text \<open>JSON.parse\<close> refuses; reading a property of anything but an object gives nothing.\<close>

type_synonym json_text = "json option"

definition json_field :: "json \<Rightarrow> string \<Rightarrow> json option" where
  "json_field v name = (case v of JObj props \<Rightarrow> map_of props name | _ \<Rightarrow> None)"

subsection \<open>Length-prefixed fields\<close>

text \<open>\<open>setUint32\<close> writes the value modulo $2^{32}$, the high byte first.\<close>

definition uint32_be :: "nat \<Rightarrow> byte list" where
  "uint32_be n = (let m = n mod 2 ^ 32 in [m div 2 ^ 24, m div 2 ^ 16 mod 256, m div 2 ^ 8 mod 256, m mod 256])"

definition encodeFields :: "byte list list \<Rightarrow> byte list" where
  "encodeFields props = concat (map (\<lambda>f. uint32_be (length f) @ f) props)"

definition sha256Hex :: "crypto \<Rightarrow> byte list \<Rightarrow> string" where
  "sha256Hex cr value = bytesToHex (c_sha256 cr value)"

datatype principal_namespace = UserNs | TokenNs | RootNs | OauthClientNs | LocalRootNs | AnonymousNs

fun namespace_name :: "principal_namespace \<Rightarrow> string" where
  "namespace_name UserNs = ''user''"
| "namespace_name TokenNs = ''token''"
| "namespace_name RootNs = ''root''"
| "namespace_name OauthClientNs = ''oauth-client''"
| "namespace_name LocalRootNs = ''local-root''"
| "namespace_name AnonymousNs = ''anonymous''"

record principal =
  pr_namespace :: principal_namespace
  pr_id :: string

definition userIdempotencyPrincipal :: "string \<Rightarrow> principal" where
  "userIdempotencyPrincipal userId = \<lparr>pr_namespace = UserNs, pr_id = userId\<rparr>"

definition anonymousIdempotencyPrincipal :: principal where
  "anonymousIdempotencyPrincipal = \<lparr>pr_namespace = AnonymousNs, pr_id = ''anonymous''\<rparr>"

datatype auth_context = RootAuth | TokenAuth string "string option"

definition authenticatedIdempotencyPrincipal :: "auth_context option \<Rightarrow> bool \<Rightarrow> string option \<Rightarrow> principal option" where
  "authenticatedIdempotencyPrincipal auth localAuthSkip environment =
     (case auth of
        Some RootAuth \<Rightarrow> Some \<lparr>pr_namespace = RootNs, pr_id = ''root''\<rparr>
      | Some (TokenAuth tokenId oauthClientId) \<Rightarrow>
          if tokenId = ''oauth_m2m'' then
            (if text_of oauthClientId \<noteq> [] then Some \<lparr>pr_namespace = OauthClientNs, pr_id = text_of oauthClientId\<rparr> else None)
          else Some \<lparr>pr_namespace = TokenNs, pr_id = tokenId\<rparr>
      | None \<Rightarrow> if localAuthSkip \<and> environment = None then Some \<lparr>pr_namespace = LocalRootNs, pr_id = ''local-root''\<rparr> else None)"

definition principal_fields :: "principal \<Rightarrow> byte list list" where
  "principal_fields p = [utf8 ''idempotency-principal-v1'', utf8 (namespace_name (pr_namespace p)), utf8 (pr_id p)]"

definition hashPrincipal :: "crypto \<Rightarrow> principal \<Rightarrow> string" where
  "hashPrincipal cr p = sha256Hex cr (encodeFields (principal_fields p))"

definition hashSecret :: "crypto \<Rightarrow> string \<Rightarrow> string" where
  "hashSecret cr secret = bytesToHex (c_sha256 cr (utf8 secret))"

subsection \<open>Requests\<close>

record http_request =
  hq_method :: string
  hq_pathname :: string
  hq_search :: string
  hq_contentType :: "string option"
  hq_contentLength :: "string option"
  hq_idempotencyKey :: "string option"
  hq_body :: "byte list list option"

text \<open>A body is the list of the chunks its stream delivers; a stream that fails is not in it.\<close>

definition MAX_BODY_BYTES :: nat where "MAX_BODY_BYTES = 64 * 1024"

text \<open>The loop carries the chunks read and their length; \<^const>\<open>None\<close> is \<open>PayloadTooLargeError\<close>.\<close>

fun read_loop :: "byte list list \<Rightarrow> byte list list \<Rightarrow> nat \<Rightarrow> byte list list option" where
  "read_loop [] chunks byteLength = Some chunks"
| "read_loop (value # rest) chunks byteLength =
     (if MAX_BODY_BYTES < byteLength + length value then None
      else read_loop rest (chunks @ [value]) (byteLength + length value))"

definition readBodyLimited :: "byte list list option \<Rightarrow> byte list option" where
  "readBodyLimited body = (case body of None \<Rightarrow> Some [] | Some stream \<Rightarrow> map_option concat (read_loop stream [] 0))"

definition contentLengthExceedsLimit :: "string option \<Rightarrow> bool" where
  "contentLengthExceedsLimit value =
     (case value of None \<Rightarrow> False
      | Some v \<Rightarrow> if v = [] \<or> \<not> test (seqs [Bos, plus digit, Eos]) v then False
          else (case js_Number v of Fin q \<Rightarrow> of_nat MAX_BODY_BYTES < q | PosInf \<Rightarrow> True | _ \<Rightarrow> False))"

definition requestBytes :: "http_request \<Rightarrow> byte list option" where
  "requestBytes q = (if contentLengthExceedsLimit (hq_contentLength q) then None else readBodyLimited (hq_body q))"

definition request_fields :: "http_request \<Rightarrow> byte list \<Rightarrow> byte list list" where
  "request_fields q body = [utf8 ''idempotency-request-v1'', utf8 (hq_method q), utf8 (hq_pathname q), utf8 (drop 1 (hq_search q)),
     utf8 (js_lower (js_trim (text_of (hq_contentType q)))), body]"

definition requestFingerprint :: "crypto \<Rightarrow> http_request \<Rightarrow> byte list \<Rightarrow> string" where
  "requestFingerprint cr q body = sha256Hex cr (encodeFields (request_fields q body))"

definition KEY_PATTERN :: re where
  "KEY_PATTERN = seqs [Bos, between 16 255 (Cls (\<lambda>c. 33 \<le> code_unit c \<and> code_unit c \<le> 126)), Eos]"

subsection \<open>The envelope of a stored body\<close>

definition ENVELOPE_VERSION :: int where "ENVELOPE_VERSION = 1"
definition AES_KEY_BYTES :: nat where "AES_KEY_BYTES = 32"
definition GCM_IV_BYTES :: nat where "GCM_IV_BYTES = 12"

definition parseRawKey :: "string \<Rightarrow> byte list option" where
  "parseRawKey rawKey = (case decodeBase64 rawKey of None \<Rightarrow> None | Some key \<Rightarrow> if length key \<noteq> AES_KEY_BYTES then None else Some key)"

definition keyFingerprint :: "crypto \<Rightarrow> byte list \<Rightarrow> string" where
  "keyFingerprint cr key = encodeBase64 (c_sha256 cr key)"

record response_binding =
  rb_principalHash :: string
  rb_keyHash :: string
  rb_requestHash :: string
  rb_status :: nat

definition aad_fields :: "response_binding \<Rightarrow> byte list list" where
  "aad_fields b = map utf8 [int_to_dec ENVELOPE_VERSION, rb_principalHash b, rb_keyHash b, rb_requestHash b, nat_to_dec (rb_status b)]"

definition encodeAad :: "response_binding \<Rightarrow> byte list" where
  "encodeAad b = concat (map (\<lambda>f. uint32_be (length f) @ f) (aad_fields b))"

record envelope =
  en_kid :: string
  en_iv :: string
  en_ciphertext :: string

definition parseEnvelope :: "json_text \<Rightarrow> envelope option" where
  "parseEnvelope value =
     (case value of None \<Rightarrow> None
      | Some v \<Rightarrow> if json_field v ''v'' \<noteq> Some (JNum ENVELOPE_VERSION) then None
          else (case (json_field v ''kid'', json_field v ''iv'', json_field v ''ciphertext'') of
              (Some (JStr kid), Some (JStr iv), Some (JStr ct)) \<Rightarrow> Some \<lparr>en_kid = kid, en_iv = iv, en_ciphertext = ct\<rparr>
            | _ \<Rightarrow> None))"

text \<open>\<open>iv\<close> is what \<open>crypto.getRandomValues\<close> returned.\<close>

definition encryptIdempotencyBody :: "crypto \<Rightarrow> byte list \<Rightarrow> byte list \<Rightarrow> string \<Rightarrow> response_binding \<Rightarrow> json_text option" where
  "encryptIdempotencyBody cr iv plaintext rawKey b =
     (case parseRawKey rawKey of None \<Rightarrow> None
      | Some key \<Rightarrow> Some (Some (JObj [(''v'', JNum ENVELOPE_VERSION), (''kid'', JStr (keyFingerprint cr key)), (''iv'', JStr (encodeBase64 iv)),
          (''ciphertext'', JStr (encodeBase64 (c_encrypt cr key iv (encodeAad b) plaintext)))])))"

definition decryptIdempotencyBody :: "crypto \<Rightarrow> json_text \<Rightarrow> string \<Rightarrow> response_binding \<Rightarrow> byte list option" where
  "decryptIdempotencyBody cr envelopeValue rawKey b =
     (case parseRawKey rawKey of None \<Rightarrow> None
      | Some key \<Rightarrow> (case parseEnvelope envelopeValue of None \<Rightarrow> None
          | Some env \<Rightarrow> if en_kid env \<noteq> keyFingerprint cr key then None
              else (case decodeBase64 (en_iv env) of None \<Rightarrow> None
                  | Some iv \<Rightarrow> if length iv \<noteq> GCM_IV_BYTES then None
                      else (case decodeBase64 (en_ciphertext env) of None \<Rightarrow> None
                          | Some ciphertext \<Rightarrow> c_decrypt cr key iv (encodeAad b) ciphertext))))"

subsection \<open>Recordable responses\<close>

record handler_response =
  hr_status :: nat
  hr_contentType :: "string option"
  hr_location :: "string option"
  hr_body :: "byte list list option"

definition strip_quote :: "string \<Rightarrow> string" where
  "strip_quote s = (let t = (if s \<noteq> [] \<and> hd s = CHR 0x22 then tl s else s)
     in if t \<noteq> [] \<and> last t = CHR 0x22 then butlast t else t)"

text \<open>\<open>parameter.split("=", 2)\<close> keeps the first two pieces.\<close>

definition charset_of :: "string list \<Rightarrow> string option" where
  "charset_of parameters =
     (case find (\<lambda>p. take 1 p = [''charset'']) (map (\<lambda>p. take 2 (split_on CHR ''='' p)) parameters) of
        Some [_, value] \<Rightarrow> Some (strip_quote value) | _ \<Rightarrow> None)"

definition recordableContentType :: "string option \<Rightarrow> bool" where
  "recordableContentType value =
     (if text_of value = [] then False
      else (let parts = map (\<lambda>p. js_lower (js_trim p)) (split_on CHR '';'' (text_of value)); mediaType = hd parts;
                charset = text_of (charset_of (tl parts))
            in if charset \<noteq> [] \<and> charset \<noteq> ''utf-8'' \<and> charset \<noteq> ''utf8'' then False
               else js_starts_with mediaType ''text/'' \<or> mediaType = ''application/json'' \<or> js_ends_with mediaType ''+json''))"

definition storedHeaders :: "handler_response \<Rightarrow> json_text" where
  "storedHeaders r = Some (JObj
     ((case hr_contentType r of None \<Rightarrow> [] | Some v \<Rightarrow> [(''content-type'', JStr v)])
      @ (case hr_location r of None \<Rightarrow> [] | Some v \<Rightarrow> [(''location'', JStr v)])))"

text \<open>A header that is absent or a string; anything else raises.\<close>

definition replay_header :: "json \<Rightarrow> string \<Rightarrow> string option option" where
  "replay_header v name = (case json_field v name of None \<Rightarrow> Some None | Some (JStr s) \<Rightarrow> Some (Some s) | Some _ \<Rightarrow> None)"

definition replayHeaders :: "json_text \<Rightarrow> (string option \<times> string option) option" where
  "replayHeaders value =
     (case value of
        Some (JObj props) \<Rightarrow>
          (case replay_header (JObj props) ''content-type'' of None \<Rightarrow> None
           | Some ct \<Rightarrow> (case replay_header (JObj props) ''location'' of None \<Rightarrow> None | Some loc \<Rightarrow> Some (ct, loc)))
      | _ \<Rightarrow> None)"

text \<open>\<open>TextDecoder\<close> with \<open>fatal: true\<close> accepts well-formed UTF-8: no overlong form, no surrogate, nothing above 10FFFF.\<close>

definition continuation :: "byte \<Rightarrow> bool" where
  "continuation b \<longleftrightarrow> 128 \<le> b \<and> b < 192"

fun utf8_ok :: "byte list \<Rightarrow> bool" where
  "utf8_ok [] = True"
| "utf8_ok (a # bs) =
     (if a < 128 then utf8_ok bs
      else if 194 \<le> a \<and> a < 224 then (case bs of b # r \<Rightarrow> continuation b \<and> utf8_ok r | _ \<Rightarrow> False)
      else if 224 \<le> a \<and> a < 240 then
        (case bs of b # c # r \<Rightarrow> continuation b \<and> continuation c \<and> (a = 224 \<longrightarrow> 160 \<le> b) \<and> (a = 237 \<longrightarrow> b < 160) \<and> utf8_ok r | _ \<Rightarrow> False)
      else if 240 \<le> a \<and> a < 245 then
        (case bs of b # c # d # r \<Rightarrow> continuation b \<and> continuation c \<and> continuation d \<and> (a = 240 \<longrightarrow> 144 \<le> b) \<and> (a = 244 \<longrightarrow> b < 144)
            \<and> utf8_ok r | _ \<Rightarrow> False)
      else False)"


subsection \<open>The encodings are injective\<close>

lemma uint32_be_inj: "uint32_be m = uint32_be n \<Longrightarrow> m < 2 ^ 32 \<Longrightarrow> n < 2 ^ 32 \<Longrightarrow> m = n"
proof -
  have v: "k = ((k div 2 ^ 24 * 256 + k div 2 ^ 16 mod 256) * 256 + k div 2 ^ 8 mod 256) * 256 + k mod 256" for k :: nat
  proof -
    have "k div 2 ^ 8 = k div 256" "k div 2 ^ 16 = k div 256 div 256" "k div 2 ^ 24 = k div 256 div 256 div 256"
      by (simp_all add: div_mult2_eq [symmetric])
    then show ?thesis by (simp add: div_mult_mod_eq)
  qed
  assume "uint32_be m = uint32_be n" "m < 2 ^ 32" "n < 2 ^ 32"
  then have "m div 2 ^ 24 = n div 2 ^ 24" "m div 2 ^ 16 mod 256 = n div 2 ^ 16 mod 256"
    "m div 2 ^ 8 mod 256 = n div 2 ^ 8 mod 256" "m mod 256 = n mod 256" by (simp_all add: uint32_be_def Let_def)
  then show "m = n" using v [of m] v [of n] by presburger
qed

lemma length_uint32_be [simp]: "length (uint32_be n) = 4"
  by (simp add: uint32_be_def Let_def)

definition field_sizes :: "byte list list \<Rightarrow> bool" where
  "field_sizes fs \<longleftrightarrow> (\<forall>f \<in> set fs. length f < 2 ^ 32)"

lemma field_sizes_simps [simp]: "field_sizes []" "field_sizes (f # fs) \<longleftrightarrow> length f < 2 ^ 32 \<and> field_sizes fs"
  by (simp_all add: field_sizes_def)

lemma encodeFields_simps:
  "encodeFields [] = []" "encodeFields (f # fs) = uint32_be (length f) @ f @ encodeFields fs"
  by (simp_all add: encodeFields_def)

lemma encodeFields_inj:
  assumes "encodeFields fs = encodeFields gs" and "field_sizes fs" and "field_sizes gs"
  shows "fs = gs"
  using assms
proof (induction fs arbitrary: gs)
  case Nil
  then show ?case by (cases gs) (auto simp: encodeFields_simps dest: arg_cong [where f = length])
next
  case (Cons f fs)
  show ?case
  proof (cases gs)
    case Nil
    with Cons.prems(1) show ?thesis by (auto simp: encodeFields_simps dest: arg_cong [where f = length])
  next
    case (Cons g gs')
    then have e: "uint32_be (length f) = uint32_be (length g)" "f @ encodeFields fs = g @ encodeFields gs'"
      using Cons.prems(1) by (simp_all add: encodeFields_simps append_eq_append_conv)
    from e(1) have "length f = length g" by (rule uint32_be_inj) (use Cons.prems local.Cons in auto)
    with e(2) have "f = g" "encodeFields fs = encodeFields gs'" by (simp_all add: append_eq_append_conv)
    then show ?thesis using Cons.IH [of gs'] Cons.prems local.Cons by simp
  qed
qed

lemma encodeAad_fields: "encodeAad b = encodeFields (aad_fields b)"
  by (simp add: encodeAad_def encodeFields_def)

lemma utf8_simps:
  "utf8 [] = []"
  "utf8 (c # s) = (if code_unit c < 128 then [code_unit c] else [192 + code_unit c div 64, 128 + code_unit c mod 64]) @ utf8 s"
  by (simp_all add: utf8_def Let_def)

lemma utf8_inj: "utf8 s = utf8 t \<Longrightarrow> s = t"
proof (induction s arbitrary: t)
  case Nil
  then show ?case by (cases t) (auto simp: utf8_simps split: if_splits)
next
  case (Cons c s)
  then obtain d t' where t: "t = d # t'" by (cases t) (auto simp: utf8_simps split: if_splits)
  have "code_unit c = code_unit d \<and> utf8 s = utf8 t'"
    using Cons.prems by (auto simp: t utf8_simps split: if_splits) (metis div_mult_mod_eq)
  then show ?case using Cons.IH [of t'] by (simp add: t code_unit_def)
qed


lemma namespace_name_inj: "namespace_name a = namespace_name b \<longleftrightarrow> a = b"
  by (cases a; cases b) simp_all

lemma bytesToHex_inj:
  "bytesToHex xs = bytesToHex ys \<Longrightarrow> \<forall>b \<in> set xs. b < 256 \<Longrightarrow> \<forall>b \<in> set ys. b < 256 \<Longrightarrow> xs = ys"
  by (metis hexToBytes_bytesToHex option.inject)

definition collision_free :: "crypto \<Rightarrow> byte list \<Rightarrow> byte list \<Rightarrow> bool" where
  "collision_free cr x y \<longleftrightarrow> (c_sha256 cr x = c_sha256 cr y \<longrightarrow> x = y) \<and> (\<forall>b \<in> set (c_sha256 cr x) \<union> set (c_sha256 cr y). b < 256)"

lemma sha256Hex_inj: "collision_free cr x y \<Longrightarrow> sha256Hex cr x = sha256Hex cr y \<longleftrightarrow> x = y"
  by (auto simp: collision_free_def sha256Hex_def dest!: bytesToHex_inj)

lemma encode_eq_iff: "field_sizes fs \<Longrightarrow> field_sizes gs \<Longrightarrow> encodeFields fs = encodeFields gs \<longleftrightarrow> fs = gs"
  using encodeFields_inj by blast

lemma utf8_eq_iff [simp]: "utf8 s = utf8 t \<longleftrightarrow> s = t"
  using utf8_inj by blast

text \<open>What a fingerprint covers: the method, the path, the query, the content type up to case and surrounding space, and
  the body.\<close>

definition same_request :: "http_request \<Rightarrow> byte list \<Rightarrow> http_request \<Rightarrow> byte list \<Rightarrow> bool" where
  "same_request q body q' body' \<longleftrightarrow> hq_method q = hq_method q' \<and> hq_pathname q = hq_pathname q' \<and> drop 1 (hq_search q) = drop 1 (hq_search q')
     \<and> js_lower (js_trim (text_of (hq_contentType q))) = js_lower (js_trim (text_of (hq_contentType q'))) \<and> body = body'"

lemma request_fields_eq: "request_fields q body = request_fields q' body' \<longleftrightarrow> same_request q body q' body'"
  by (simp add: request_fields_def same_request_def)

lemma principal_fields_eq: "principal_fields p = principal_fields p' \<longleftrightarrow> p = p'"
  by (auto simp: principal_fields_def namespace_name_inj)

lemma aad_fields_eq: "aad_fields b = aad_fields b' \<longleftrightarrow> b = b'"
  by (auto simp: aad_fields_def inj_nat_to_dec)

text \<open>Unless SHA-256 collides on the two, requests have the same fingerprint exactly when they are the same request,
  and callers the same hash exactly when they are the same caller: the length prefixes keep a byte from moving
  between fields.  The data authenticated with a stored body determines caller, key, request and status in the same way.\<close>

theorem identities_injective:
  assumes "collision_free cr (encodeFields (request_fields q body)) (encodeFields (request_fields q' body'))"
    and "collision_free cr (encodeFields (principal_fields p)) (encodeFields (principal_fields p'))"
    and "list_all field_sizes [request_fields q body, request_fields q' body', principal_fields p, principal_fields p', aad_fields b, aad_fields b']"
  shows "(requestFingerprint cr q body = requestFingerprint cr q' body' \<longleftrightarrow> same_request q body q' body')
    \<and> (hashPrincipal cr p = hashPrincipal cr p' \<longleftrightarrow> p = p') \<and> (encodeAad b = encodeAad b' \<longleftrightarrow> b = b')"
  using assms by (simp add: requestFingerprint_def hashPrincipal_def sha256Hex_inj encodeAad_fields encode_eq_iff
      request_fields_eq principal_fields_eq aad_fields_eq)

definition sample_crypto :: crypto where
  "sample_crypto = \<lparr>c_sha256 = map (\<lambda>b. b mod 256), c_encrypt = (\<lambda>key iv aad pt. 7 # pt), c_decrypt = (\<lambda>key iv aad ct. Some (tl ct))\<rparr>"

definition sample_http_request :: http_request where
  "sample_http_request = \<lparr>hq_method = ''POST'', hq_pathname = ''/v1/feedback'', hq_search = [], hq_contentType = None,
     hq_contentLength = None, hq_idempotencyKey = Some ''0123456789abcdef'', hq_body = Some [[123, 125]]\<rparr>"

lemma identities_injective_witness:
  "requestFingerprint sample_crypto sample_http_request [123, 125] \<noteq> requestFingerprint sample_crypto sample_http_request [123, 32, 125]
   \<and> hashPrincipal sample_crypto (userIdempotencyPrincipal ''root'') \<noteq> hashPrincipal sample_crypto \<lparr>pr_namespace = RootNs, pr_id = ''root''\<rparr>"
proof -
  let ?x = "encodeFields (request_fields sample_http_request [123, 125])" and ?y = "encodeFields (request_fields sample_http_request [123, 32, 125])"
  have short: "length (utf8 s) < 4294967296" if "length s < 100" for s
  proof -
    have "length (utf8 s) \<le> 2 * length s" by (induction s) (auto simp: utf8_simps)
    then show ?thesis using that by simp
  qed
  have bytes: "\<forall>b \<in> set (utf8 s). b < 256" for s
  proof (induction s)
    case (Cons c s)
    have "code_unit c < 64 * 64" by (rule less_trans [OF code_unit_less]) simp
    then have "code_unit c div 64 < 64" by (rule less_mult_imp_div_less)
    moreover have "code_unit c mod 64 < 128" by (rule less_trans [of _ 64]) simp_all
    ultimately show ?case using Cons by (simp add: utf8_simps)
  qed (simp add: utf8_simps)
  have ok: "\<forall>b \<in> set (encodeFields fs). b < 256" if "\<forall>f \<in> set fs. \<forall>b \<in> set f. b < 256" for fs
    using that by (induction fs) (auto simp: encodeFields_simps uint32_be_def Let_def)
  have id: "c_sha256 sample_crypto x = x" if "\<forall>b \<in> set x. b < 256" for x
    using that by (auto simp: sample_crypto_def intro!: map_idI)
  have free: "collision_free sample_crypto (encodeFields fs) (encodeFields gs)"
    if "\<forall>f \<in> set fs \<union> set gs. \<forall>b \<in> set f. b < 256" for fs gs
  proof -
    have f: "\<forall>b \<in> set (encodeFields fs). b < 256" and g: "\<forall>b \<in> set (encodeFields gs). b < 256"
      by (rule ok, use that in blast)+
    show ?thesis unfolding collision_free_def id [OF f] id [OF g] using f g by blast
  qed
  have neq1: "\<not> same_request sample_http_request [123, 125] sample_http_request [123, 32, 125]" by (simp add: same_request_def)
  have neq2: "userIdempotencyPrincipal ''root'' \<noteq> \<lparr>pr_namespace = RootNs, pr_id = ''root''\<rparr>" by (simp add: userIdempotencyPrincipal_def)
  have free1: "collision_free sample_crypto ?x ?y"
    by (rule free) (use bytes in \<open>auto simp: request_fields_def\<close>)
  have free2: "collision_free sample_crypto (encodeFields (principal_fields (userIdempotencyPrincipal ''root'')))
      (encodeFields (principal_fields \<lparr>pr_namespace = RootNs, pr_id = ''root''\<rparr>))"
    by (rule free) (use bytes in \<open>auto simp: principal_fields_def\<close>)
  define b where "b = \<lparr>rb_principalHash = [], rb_keyHash = [], rb_requestHash = [], rb_status = 200\<rparr>"
  have "field_sizes (principal_fields p)" if "length (pr_id p) < 100" for p
    using that by (cases "pr_namespace p") (simp_all add: principal_fields_def short)
  then have "field_sizes (principal_fields (userIdempotencyPrincipal ''root''))" "field_sizes (principal_fields \<lparr>pr_namespace = RootNs, pr_id = ''root''\<rparr>)"
    by (simp_all add: userIdempotencyPrincipal_def)
  moreover have "field_sizes (request_fields sample_http_request body)" if "length body < 100" for body
    using that by (simp add: request_fields_def sample_http_request_def short js_trim_def js_trim_start_def js_lower_def)
  moreover have "field_sizes (aad_fields b)"
    using length_nat_to_dec [of 1 1] length_nat_to_dec [of 200 3]
    by (simp add: aad_fields_def b_def ENVELOPE_VERSION_def int_to_dec_def short del: nat_to_dec.simps)
  ultimately have "list_all field_sizes [request_fields sample_http_request [123, 125], request_fields sample_http_request [123, 32, 125],
      principal_fields (userIdempotencyPrincipal ''root''), principal_fields \<lparr>pr_namespace = RootNs, pr_id = ''root''\<rparr>, aad_fields b, aad_fields b]"
    by simp
  with neq1 neq2 free1 free2 show ?thesis using identities_injective [of sample_crypto sample_http_request "[123, 125]" sample_http_request "[123, 32, 125]"
      "userIdempotencyPrincipal ''root''" "\<lparr>pr_namespace = RootNs, pr_id = ''root''\<rparr>" b b] by blast
qed


lemma read_loop_eq:
  "byteLength = length (concat chunks) \<Longrightarrow> byteLength \<le> MAX_BODY_BYTES \<Longrightarrow>
   read_loop stream chunks byteLength =
     (if length (concat (chunks @ stream)) \<le> MAX_BODY_BYTES then Some (chunks @ stream) else None)"
  by (induction stream chunks byteLength rule: read_loop.induct) auto

text \<open>The body reader accepts exactly the bodies within the limit, whatever chunks they come in, and a declared length
  never makes it accept more.\<close>

theorem body_limit:
  "readBodyLimited (Some stream) = (if length (concat stream) \<le> MAX_BODY_BYTES then Some (concat stream) else None)
   \<and> (case requestBytes q of None \<Rightarrow> True | Some bytes \<Rightarrow> bytes = concat (case hq_body q of None \<Rightarrow> [] | Some s \<Rightarrow> s) \<and> length bytes \<le> MAX_BODY_BYTES)"
  by (auto simp: readBodyLimited_def requestBytes_def read_loop_eq split: option.split if_splits)

text \<open>What the encryption must do: undo itself under the same key, initial vector and additional data, and give
  bytes, at least the sixteen of the tag.\<close>

definition aead_ok :: "crypto \<Rightarrow> byte list \<Rightarrow> byte list \<Rightarrow> byte list \<Rightarrow> byte list \<Rightarrow> bool" where
  "aead_ok cr key iv aad plaintext \<longleftrightarrow>
     (let ct = c_encrypt cr key iv aad plaintext
      in c_decrypt cr key iv aad ct = Some plaintext \<and> ct \<noteq> [] \<and> (\<forall>b \<in> set ct. b < 256))"

lemma envelope_roundtrip:
  assumes "encryptIdempotencyBody cr iv plaintext rawKey b = Some env"
    and "length iv = GCM_IV_BYTES" and "\<forall>x \<in> set iv. x < 256"
    and "\<And>key. parseRawKey rawKey = Some key \<Longrightarrow> aead_ok cr key iv (encodeAad b) plaintext"
  shows "decryptIdempotencyBody cr env rawKey b = Some plaintext"
proof -
  obtain key where key: "parseRawKey rawKey = Some key" using assms(1) by (auto simp: encryptIdempotencyBody_def split: option.splits)
  let ?ct = "c_encrypt cr key iv (encodeAad b) plaintext"
  have ct: "c_decrypt cr key iv (encodeAad b) ?ct = Some plaintext" "decodeBase64 (encodeBase64 ?ct) = Some ?ct"
    using assms(4) [OF key] by (auto simp: aead_ok_def Let_def intro!: decode_encode_bytes)
  have "decodeBase64 (encodeBase64 iv) = Some iv" using assms(2,3) by (intro decode_encode_bytes) (auto simp: GCM_IV_BYTES_def)
  moreover have "parseEnvelope env = Some \<lparr>en_kid = keyFingerprint cr key, en_iv = encodeBase64 iv, en_ciphertext = encodeBase64 ?ct\<rparr>"
    using assms(1) key by (auto simp: encryptIdempotencyBody_def parseEnvelope_def json_field_def)
  ultimately show ?thesis using key ct assms(2) by (simp add: decryptIdempotencyBody_def)
qed

lemma replay_stored_headers: "replayHeaders (storedHeaders r) = Some (hr_contentType r, hr_location r)"
  by (auto simp: replayHeaders_def storedHeaders_def replay_header_def json_field_def split: option.split)

end
