(* ===== verification/Idempotency.thy ===== *)
theory Idempotency
  imports IdempotencyStore IdempotencyCodec Dates
begin

section \<open>Idempotent requests\<close>

text \<open>
  \<open>apps/api/src/middleware/idempotency.ts\<close>: \<open>idempotentPost\<close>, from the request to the answer.  The part before the
  claim is a function of the request.  From the claim on, a request is a machine that executes one statement
  on the table of records per step, so that the requests, the sweep and arrivals interleave in any way, and
  any statement may fail, before or after it took effect; a request that takes no further step is a worker that died.
  What the routes supply, \<open>preclaim\<close> and \<open>execute\<close>, is an argument and a free choice of each step;
  \<open>JSON.parse\<close> of a body is an argument as well.
\<close>

datatype handler_outcome = Returned handler_response | RaisedDomain releases_error | RaisedOther string

datatype answer =
    Reply handler_response
  | Replayed handler_response
  | Refused releases_error "(string \<times> string) list"
  | Rethrown handler_outcome

subsection \<open>Before the claim\<close>

record 'i route =
  rt_json :: bool
  rt_invalidJsonCode :: string
  rt_payloadTooLargeCode :: string
  rt_preclaim :: "json option \<Rightarrow> handler_response + 'i"

definition refuse :: "releases_error \<Rightarrow> answer" where
  "refuse e = Refused e []"

definition coded :: "string \<Rightarrow> error_options" where
  "coded code = no_options\<lparr>op_code := Some code\<rparr>"

definition unavailable :: answer where
  "unavailable = refuse (ServiceUnavailableError ''Idempotency is temporarily unavailable'' (coded ''idempotency_unavailable''))"

definition parseJsonBodyCapped :: "(byte list \<Rightarrow> json option) \<Rightarrow> byte list \<Rightarrow> json option" where
  "parseJsonBodyCapped parse_json bytes = parse_json bytes"

datatype read_json = JsonOk json | InvalidJson | PayloadTooLarge

text \<open>The loop of \<open>readJsonBodyCapped\<close> has the limit of \<open>read_loop\<close> at its only call.\<close>

definition readJsonBodyCapped :: "(byte list \<Rightarrow> json option) \<Rightarrow> byte list list option \<Rightarrow> read_json" where
  "readJsonBodyCapped parse_json body =
     (case body of None \<Rightarrow> InvalidJson
      | Some stream \<Rightarrow> (case read_loop stream [] 0 of None \<Rightarrow> PayloadTooLarge
          | Some chunks \<Rightarrow> (case parse_json (concat chunks) of None \<Rightarrow> InvalidJson | Some v \<Rightarrow> JsonOk v)))"

definition resolveJsonBody :: "(byte list \<Rightarrow> json option) \<Rightarrow> http_request \<Rightarrow> string \<Rightarrow> string \<Rightarrow> releases_error + json" where
  "resolveJsonBody parse_json q invalidJsonCode payloadTooLargeCode =
     (if contentLengthExceedsLimit (hq_contentLength q) then Inl (ValidationError None (coded payloadTooLargeCode))
      else (case readJsonBodyCapped parse_json (hq_body q) of
          JsonOk v \<Rightarrow> Inr v
        | PayloadTooLarge \<Rightarrow> Inl (ValidationError None (coded payloadTooLargeCode))
        | InvalidJson \<Rightarrow> Inl (ValidationError None (coded invalidJsonCode))))"

record admission =
  ad_principalHash :: string
  ad_keyHash :: string
  ad_requestHash :: string

text \<open>The request is answered, or handled without a record, or it goes on to claim its key.\<close>

datatype 'i entry = Stop answer | Plain 'i | Admit admission string 'i

definition after_preclaim :: "handler_response + 'i \<Rightarrow> ('i \<Rightarrow> 'i entry) \<Rightarrow> 'i entry" where
  "after_preclaim r go = (case r of Inl response \<Rightarrow> Stop (Reply response) | Inr input \<Rightarrow> go input)"

text \<open>\<open>binding\<close> is the encryption key; it is missing when there is none or fetching it fails.\<close>

definition enter :: "crypto \<Rightarrow> (byte list \<Rightarrow> json option) \<Rightarrow> 'i route \<Rightarrow> principal option \<Rightarrow> string option \<Rightarrow> http_request \<Rightarrow> 'i entry" where
  "enter cr parse_json route caller binding q =
     (case hq_idempotencyKey q of
        None \<Rightarrow>
          if rt_json route then
            (case resolveJsonBody parse_json q (rt_invalidJsonCode route) (rt_payloadTooLargeCode route) of
               Inl e \<Rightarrow> Stop (refuse e)
             | Inr v \<Rightarrow> after_preclaim (rt_preclaim route (Some v)) Plain)
          else after_preclaim (rt_preclaim route None) Plain
      | Some rawIdempotencyKey \<Rightarrow>
          if \<not> test KEY_PATTERN rawIdempotencyKey then Stop (refuse (ValidationError (Some ''Invalid Idempotency-Key'') no_options))
          else (case caller of None \<Rightarrow> Stop unavailable
            | Some p \<Rightarrow>
                (case binding of None \<Rightarrow> Stop unavailable
                 | Some rawKey \<Rightarrow>
                     if parseRawKey rawKey = None then Stop unavailable
                     else (case requestBytes q of
                         None \<Rightarrow> Stop (refuse (PayloadTooLargeError ''Payload exceeds the 64 KiB limit'' no_options))
                       | Some body \<Rightarrow>
                           if \<not> rt_json route \<and> body \<noteq> [] then
                             Stop (refuse (ValidationError (Some ''This endpoint does not accept a request body'') no_options))
                           else
                             (let ids = \<lparr>ad_principalHash = hashPrincipal cr p, ad_keyHash = hashSecret cr rawIdempotencyKey,
                                         ad_requestHash = requestFingerprint cr q body\<rparr>
                              in if rt_json route then
                                   (case parseJsonBodyCapped parse_json body of
                                      None \<Rightarrow> Stop (refuse (ValidationError None (coded (rt_invalidJsonCode route))))
                                    | Some v \<Rightarrow> after_preclaim (rt_preclaim route (Some v)) (Admit ids rawKey))
                                 else after_preclaim (rt_preclaim route None) (Admit ids rawKey))))))"

definition RETENTION_MS :: int where "RETENTION_MS = 24 * 60 * 60 * 1000"

definition claim_input_at :: "admission \<Rightarrow> string \<Rightarrow> int \<Rightarrow> js_error + claim_input" where
  "claim_input_at ids attemptId now =
     (case toISOString (timeClip now) of Inl e \<Rightarrow> Inl e
      | Inr nowIso \<Rightarrow> (case toISOString (timeClip (now + RETENTION_MS)) of Inl e \<Rightarrow> Inl e
          | Inr expires \<Rightarrow> Inr \<lparr>ci_principalHash = ad_principalHash ids, ci_keyHash = ad_keyHash ids, ci_requestHash = ad_requestHash ids,
              ci_attemptId = attemptId, ci_now = nowIso, ci_expiresAt = expires\<rparr>))"

subsection \<open>From the claim to the answer\<close>

datatype request_pc =
    Admitting "json_text claim_pc"
  | Executing
  | Releasing answer
  | Recording handler_response
  | Confirming
  | Retaining "json_text claim_pc"
  | Answered answer

text \<open>What the source does with the outcome of \<open>execute\<close>: a client error gives the key back, a success is recorded, and after
  anything else the record stays as it is.\<close>

definition after_execute :: "handler_outcome \<Rightarrow> request_pc" where
  "after_execute out =
     (case out of
        RaisedDomain e \<Rightarrow> if 400 \<le> re_status e \<and> re_status e < 500 then Releasing (Rethrown out) else Answered (Rethrown out)
      | RaisedOther _ \<Rightarrow> Answered (Rethrown out)
      | Returned r \<Rightarrow>
          if 300 \<le> hr_status r \<and> hr_status r < 500 then Releasing (Reply r)
          else if hr_status r < 200 \<or> 300 \<le> hr_status r then Answered (Reply r)
          else Recording r)"

definition binding_of :: "claim_input \<Rightarrow> nat \<Rightarrow> response_binding" where
  "binding_of inp status = \<lparr>rb_principalHash = ci_principalHash inp, rb_keyHash = ci_keyHash inp, rb_requestHash = ci_requestHash inp,
     rb_status = status\<rparr>"

definition replay :: "crypto \<Rightarrow> string \<Rightarrow> claim_input \<Rightarrow> json_text completed_record \<Rightarrow> answer" where
  "replay cr rawKey inp rec =
     (case decryptIdempotencyBody cr (cr_responseBody rec) rawKey (binding_of inp (cr_responseStatus rec)) of None \<Rightarrow> unavailable
      | Some plaintext \<Rightarrow> (case replayHeaders (cr_responseHeaders rec) of None \<Rightarrow> unavailable
          | Some (contentType, location) \<Rightarrow> Replayed \<lparr>hr_status = cr_responseStatus rec, hr_contentType = contentType,
              hr_location = location, hr_body = Some [plaintext]\<rparr>))"

definition on_claim :: "crypto \<Rightarrow> string \<Rightarrow> claim_input \<Rightarrow> json_text claim_result \<Rightarrow> request_pc" where
  "on_claim cr rawKey inp r =
     (case r of
        Conflicting \<Rightarrow> Answered (refuse (ConflictError ''Idempotency key was already used for a different request'' (coded ''idempotency_conflict'')))
      | InProgress \<Rightarrow> Answered (Refused (ConflictError ''A matching request is already in progress'' (coded ''idempotency_in_progress''))
          [(''Retry-After'', ''1'')])
      | ClaimUnavailable \<Rightarrow> Answered unavailable
      | Replay rec \<Rightarrow> Answered (replay cr rawKey inp rec)
      | Claimed _ \<Rightarrow> Executing)"

text \<open>The headers and the encrypted body to be stored; nothing when the response cannot be recorded.\<close>

definition prepare_record :: "crypto \<Rightarrow> string \<Rightarrow> byte list \<Rightarrow> claim_input \<Rightarrow> handler_response \<Rightarrow> (json_text \<times> json_text) option" where
  "prepare_record cr rawKey iv inp r =
     (if \<not> recordableContentType (hr_contentType r) then None
      else (case readBodyLimited (hr_body r) of None \<Rightarrow> None
        | Some bytes \<Rightarrow> if \<not> utf8_ok bytes then None
            else map_option (\<lambda>env. (storedHeaders r, env)) (encryptIdempotencyBody cr iv bytes rawKey (binding_of inp (hr_status r)))))"

datatype fault = NoFault | LostBefore | LostAfter

text \<open>A statement that fails raises, whether or not it took effect.\<close>

definition attempt :: "fault \<Rightarrow> 't \<Rightarrow> 'r \<times> 't \<Rightarrow> 'r option \<times> 't" where
  "attempt fault t result = (case fault of NoFault \<Rightarrow> (Some (fst result), snd result) | LostBefore \<Rightarrow> (None, t) | LostAfter \<Rightarrow> (None, snd result))"

type_synonym records = "json_text idem_table"

definition request_step ::
  "crypto \<Rightarrow> string \<Rightarrow> byte list \<Rightarrow> string \<Rightarrow> claim_input \<Rightarrow> fault \<Rightarrow> request_pc \<Rightarrow> records \<Rightarrow> request_pc \<times> records" where
  "request_step cr rawKey iv completedAt inp fault pc t =
     (let k = input_key inp; a = ci_attemptId inp in
      case pc of
        Admitting cpc \<Rightarrow>
          (case attempt fault t (claim_step inp cpc t) of
             (None, t') \<Rightarrow> (Answered unavailable, t')
           | (Some (ClaimDone r), t') \<Rightarrow> (on_claim cr rawKey inp r, t')
           | (Some cpc', t') \<Rightarrow> (Admitting cpc', t'))
      | Releasing ans \<Rightarrow>
          (case attempt fault t (releaseIdempotency k a t) of
             (Some True, t') \<Rightarrow> (Answered ans, t')
           | (_, t') \<Rightarrow> (Confirming, t'))
      | Recording r \<Rightarrow>
          (case prepare_record cr rawKey iv inp r of None \<Rightarrow> (Confirming, t)
           | Some (headers, body) \<Rightarrow>
               (case attempt fault t (completeIdempotency k a (hr_status r) headers body completedAt t) of
                  (Some True, t') \<Rightarrow> (Answered (Reply r), t')
                | (_, t') \<Rightarrow> (Confirming, t')))
      | Confirming \<Rightarrow>
          (case attempt fault t (isGuardActive k a t, t) of
             (Some False, t') \<Rightarrow> (Retaining (Inserting MAX_ADMISSION_ATTEMPTS), t')
           | (_, t') \<Rightarrow> (Answered unavailable, t'))
      | Retaining cpc \<Rightarrow>
          (case attempt fault t (claim_step inp cpc t) of
             (None, t') \<Rightarrow> (Answered unavailable, t')
           | (Some (ClaimDone r), t') \<Rightarrow> (Answered unavailable, t')
           | (Some cpc', t') \<Rightarrow> (Retaining cpc', t'))
      | _ \<Rightarrow> (pc, t))"

subsection \<open>Interleaved requests\<close>

text \<open>The history is a ghost: the guards that were set, the runs of a handler, what was given back, recorded or removed as
  expired.\<close>

datatype idem_event =
    GuardSet claim_input
  | GuardReset claim_input
  | Ran claim_input handler_outcome
  | Freed claim_input
  | Recorded claim_input handler_response
  | Expire string

definition ghost_events :: "claim_input \<Rightarrow> request_pc \<Rightarrow> records \<Rightarrow> records \<Rightarrow> idem_event list" where
  "ghost_events inp pc t t' =
     (if t' = t then []
      else (case pc of
          Admitting (Inserting _) \<Rightarrow> [GuardSet inp] | Retaining (Inserting _) \<Rightarrow> [GuardReset inp]
        | Admitting _ \<Rightarrow> [Expire (ci_now inp)] | Retaining _ \<Rightarrow> [Expire (ci_now inp)]
        | Releasing _ \<Rightarrow> [Freed inp] | Recording r \<Rightarrow> [Recorded inp r] | _ \<Rightarrow> []))"

record idem_world =
  wo_table :: records
  wo_requests :: "(claim_input \<times> request_pc) list"
  wo_log :: "idem_event list"

text \<open>Attempt ids are those of \<open>crypto.randomUUID\<close>: no two requests have the same.\<close>

inductive idem_step :: "crypto \<Rightarrow> string \<Rightarrow> idem_world \<Rightarrow> idem_world \<Rightarrow> bool" for cr rawKey where
  arrive: "ci_attemptId inp \<notin> (ci_attemptId \<circ> fst) ` set (wo_requests w) \<Longrightarrow>
    idem_step cr rawKey w (w\<lparr>wo_requests := wo_requests w @ [(inp, Admitting (Inserting MAX_ADMISSION_ATTEMPTS))]\<rparr>)"
| statement: "j < length (wo_requests w) \<Longrightarrow> wo_requests w ! j = (inp, pc) \<Longrightarrow> length iv = GCM_IV_BYTES \<Longrightarrow> (\<forall>b \<in> set iv. b < 256) \<Longrightarrow>
    request_step cr rawKey iv completedAt inp fault pc (wo_table w) = (pc', t') \<Longrightarrow>
    idem_step cr rawKey w (w\<lparr>wo_table := t', wo_requests := (wo_requests w)[j := (inp, pc')],
      wo_log := wo_log w @ ghost_events inp pc (wo_table w) t'\<rparr>)"
| execute: "j < length (wo_requests w) \<Longrightarrow> wo_requests w ! j = (inp, Executing) \<Longrightarrow>
    idem_step cr rawKey w (w\<lparr>wo_requests := (wo_requests w)[j := (inp, after_execute out)], wo_log := wo_log w @ [Ran inp out]\<rparr>)"
| sweep: "sweepExpiredIdempotency now limit (wo_table w) = Some (n, t') \<Longrightarrow>
    idem_step cr rawKey w (w\<lparr>wo_table := t', wo_log := wo_log w @ [Expire now]\<rparr>)"

inductive idem_reachable :: "crypto \<Rightarrow> string \<Rightarrow> idem_world \<Rightarrow> bool" for cr rawKey where
  empty: "idem_reachable cr rawKey \<lparr>wo_table = [], wo_requests = [], wo_log = []\<rparr>"
| further: "idem_reachable cr rawKey w \<Longrightarrow> idem_step cr rawKey w w' \<Longrightarrow> idem_reachable cr rawKey w'"


subsection \<open>What one statement changes\<close>

definition completed_row :: "nat \<Rightarrow> json_text \<Rightarrow> json_text \<Rightarrow> string \<Rightarrow> json_text idem_record \<Rightarrow> json_text idem_record" where
  "completed_row status headers body completedAt r = r\<lparr>ir_state := Completed, ir_responseStatus := Some status,
     ir_responseHeaders := Some headers, ir_responseBody := Some body, ir_completedAt := Some completedAt\<rparr>"

lemma completed_row_simps [simp]:
  "row_key (completed_row st h b c r) = row_key r" "ir_attemptId (completed_row st h b c r) = ir_attemptId r"
  "ir_requestHash (completed_row st h b c r) = ir_requestHash r" "ir_expiresAt (completed_row st h b c r) = ir_expiresAt r"
  "ir_state (completed_row st h b c r) = Completed" "ir_responseStatus (completed_row st h b c r) = Some st"
  "ir_responseHeaders (completed_row st h b c r) = Some h" "ir_responseBody (completed_row st h b c r) = Some b"
  by (simp_all add: completed_row_def row_key_def)

lemma attempt_cases: "snd (attempt fault t (r, t')) = t \<or> snd (attempt fault t (r, t')) = t'"
  by (cases fault) (simp_all add: attempt_def)

lemma claim_step_table:
  assumes "claim_step inp cpc t = (cpc', t')"
  shows "t' = t \<or> (\<exists>n. cpc = Inserting n \<and> idem_find t (input_key inp) = None \<and> t' = t @ [processing_row inp])
    \<or> (\<exists>n. cpc = Deleting n \<and> t' = delete_expired inp t)"
  using assms by (cases cpc) (auto simp: insert_guard_def split: if_splits option.splits verdict.splits)

text \<open>The tables a step can lead to.\<close>

lemma request_step_table:
  assumes "request_step cr rawKey iv completedAt inp fault pc t = (pc', t')"
  shows "t' = t
    \<or> (\<exists>cpc. (pc = Admitting cpc \<or> pc = Retaining cpc) \<and> t' = snd (claim_step inp cpc t))
    \<or> (\<exists>ans. pc = Releasing ans \<and> t' = snd (releaseIdempotency (input_key inp) (ci_attemptId inp) t))
    \<or> (\<exists>r h b. pc = Recording r \<and> prepare_record cr rawKey iv inp r = Some (h, b)
         \<and> t' = snd (completeIdempotency (input_key inp) (ci_attemptId inp) (hr_status r) h b completedAt t))"
proof (cases pc)
  case (Admitting cpc)
  have "t' = snd (attempt fault t (claim_step inp cpc t))"
    using assms by (auto simp: Admitting request_step_def Let_def split: prod.splits option.splits claim_pc.splits)
  then show ?thesis using Admitting attempt_cases [of fault t "fst (claim_step inp cpc t)" "snd (claim_step inp cpc t)"] by auto
next
  case (Releasing ans)
  let ?rel = "releaseIdempotency (input_key inp) (ci_attemptId inp) t"
  have "t' = snd (attempt fault t ?rel)"
    using assms by (auto simp: Releasing request_step_def Let_def split: prod.splits option.splits bool.splits)
  then show ?thesis using Releasing attempt_cases [of fault t "fst ?rel" "snd ?rel"] by auto
next
  case (Recording r)
  show ?thesis
  proof (cases "prepare_record cr rawKey iv inp r")
    case (Some hb)
    obtain h b where hb: "hb = (h, b)" by (cases hb)
    let ?com = "completeIdempotency (input_key inp) (ci_attemptId inp) (hr_status r) h b completedAt t"
    have "t' = snd (attempt fault t ?com)"
      using assms Some by (auto simp: hb Recording request_step_def Let_def split: prod.splits option.splits bool.splits)
    then show ?thesis using Recording Some hb attempt_cases [of fault t "fst ?com" "snd ?com"] by auto
  qed (use assms in \<open>simp add: Recording request_step_def Let_def\<close>)
next
  case Confirming
  have "t' = snd (attempt fault t (isGuardActive (input_key inp) (ci_attemptId inp) t, t))"
    using assms by (auto simp: Confirming request_step_def Let_def split: prod.splits option.splits bool.splits)
  then show ?thesis by (cases fault) (simp_all add: attempt_def)
next
  case (Retaining cpc)
  have "t' = snd (attempt fault t (claim_step inp cpc t))"
    using assms by (auto simp: Retaining request_step_def Let_def split: prod.splits option.splits claim_pc.splits)
  then show ?thesis using Retaining attempt_cases [of fault t "fst (claim_step inp cpc t)" "snd (claim_step inp cpc t)"] by auto
qed (use assms in \<open>simp_all add: request_step_def Let_def\<close>)

text \<open>The change a step makes, seen as a map, with the event it leaves.\<close>

datatype table_change =
    Same
  | Inserted bool
  | DroppedExpired
  | Deleted answer
  | Finished handler_response json_text json_text

fun change_ok :: "crypto \<Rightarrow> string \<Rightarrow> byte list \<Rightarrow> string \<Rightarrow> claim_input \<Rightarrow> request_pc \<Rightarrow> table_change \<Rightarrow> records \<Rightarrow> records \<Rightarrow> idem_event list \<Rightarrow> bool" where
  "change_ok cr rawKey iv c inp pc Same t t' evs \<longleftrightarrow> t' = t \<and> evs = []"
| "change_ok cr rawKey iv c inp pc (Inserted first) t t' evs \<longleftrightarrow> idem_find t (input_key inp) = None
     \<and> idem_find t' = (idem_find t)(input_key inp \<mapsto> processing_row inp)
     \<and> (if first then \<exists>n. pc = Admitting (Inserting n) \<and> evs = [GuardSet inp] else evs = [GuardReset inp] \<and> (\<exists>cpc. pc = Retaining cpc))"
| "change_ok cr rawKey iv c inp pc DroppedExpired t t' evs \<longleftrightarrow> evs = [Expire (ci_now inp)]
     \<and> (\<forall>k. idem_find t' k = idem_find t k \<or> (idem_find t' k = None \<and> (\<exists>r. idem_find t k = Some r \<and> ir_expiresAt r \<le> ci_now inp)))"
| "change_ok cr rawKey iv c inp pc (Deleted ans) t t' evs \<longleftrightarrow> pc = Releasing ans \<and> evs = [Freed inp]
     \<and> (\<forall>k. idem_find t' k = idem_find t k \<or> (idem_find t' k = None \<and> (\<exists>r. idem_find t k = Some r \<and> ir_attemptId r = ci_attemptId inp)))"
| "change_ok cr rawKey iv c inp pc (Finished r h b) t t' evs \<longleftrightarrow> pc = Recording r \<and> evs = [Recorded inp r]
     \<and> prepare_record cr rawKey iv inp r = Some (h, b)
     \<and> (\<forall>k. idem_find t' k = idem_find t k \<or> (\<exists>x. idem_find t k = Some x \<and> ir_attemptId x = ci_attemptId inp
           \<and> idem_find t' k = Some (completed_row (hr_status r) h b c x)))"

lemma request_step_change:
  assumes "request_step cr rawKey iv c inp fault pc t = (pc', t')" and "keys_unique t"
  obtains ch where "change_ok cr rawKey iv c inp pc ch t t' (ghost_events inp pc t t')" and "keys_unique t'"
proof (cases "t' = t")
  case True
  then show thesis using that [of Same] assms(2) by (simp add: ghost_events_def)
next
  case False
  let ?evs = "ghost_events inp pc t t'"
  from request_step_table [OF assms(1)] False
  consider cpc where "pc = Admitting cpc \<or> pc = Retaining cpc" "t' = snd (claim_step inp cpc t)"
    | ans where "pc = Releasing ans" "t' = snd (releaseIdempotency (input_key inp) (ci_attemptId inp) t)"
    | r h b where "pc = Recording r" "prepare_record cr rawKey iv inp r = Some (h, b)"
      "t' = snd (completeIdempotency (input_key inp) (ci_attemptId inp) (hr_status r) h b c t)"
    by blast
  then show thesis
  proof cases
    case (1 cpc)
    then have "claim_step inp cpc t = (fst (claim_step inp cpc t), t')" by simp
    from claim_step_table [OF this] False
    consider n where "cpc = Inserting n" "idem_find t (input_key inp) = None" "t' = t @ [processing_row inp]"
      | n where "cpc = Deleting n" "t' = delete_expired inp t" by blast
    then show thesis
    proof cases
      case (1 n)
      then have g: "insert_guard inp t = (Some (ci_attemptId inp), t')" by (simp add: insert_guard_def)
      note m = insert_guard_map [OF g]
      from 1 m(1) have "idem_find t' = (idem_find t)(input_key inp \<mapsto> processing_row inp)" by simp
      moreover have "if pc = Admitting cpc then ?evs = [GuardSet inp] else ?evs = [GuardReset inp]"
        using False 1 \<open>pc = Admitting cpc \<or> pc = Retaining cpc\<close> by (auto simp: ghost_events_def)
      ultimately show thesis
        using that [of "Inserted (pc = Admitting cpc)"] m(2) [OF assms(2)] 1 \<open>pc = Admitting cpc \<or> pc = Retaining cpc\<close>
        by (auto split: if_splits)
    next
      case (2 n)
      then have "?evs = [Expire (ci_now inp)]" using False \<open>pc = Admitting cpc \<or> pc = Retaining cpc\<close> by (auto simp: ghost_events_def)
      then show thesis
        using that [of DroppedExpired] delete_expired_map [OF assms(2), of inp] 2
        by (auto split: option.splits if_splits)
    qed
  next
    case (2 ans)
    then have rel: "releaseIdempotency (input_key inp) (ci_attemptId inp) t = (fst (releaseIdempotency (input_key inp) (ci_attemptId inp) t), t')" by simp
    have evs: "?evs = [Freed inp]" using False 2 by (simp add: ghost_events_def)
    have "idem_find t' k = idem_find t k \<or> (idem_find t' k = None \<and> (\<exists>r. idem_find t k = Some r \<and> ir_attemptId r = ci_attemptId inp))" for k
      using release_map(1) [OF rel assms(2), of k] by (auto simp: owns_def split: option.splits if_splits)
    then show thesis using that [of "Deleted ans"] release_map(2) [OF rel assms(2)] 2 evs by auto
  next
    case (3 r h b)
    let ?com = "completeIdempotency (input_key inp) (ci_attemptId inp) (hr_status r) h b c t"
    have com: "?com = (fst ?com, t')" using 3 by simp
    have evs: "?evs = [Recorded inp r]" using False 3 by (simp add: ghost_events_def)
    have "idem_find t' k = idem_find t k \<or> (\<exists>x. idem_find t k = Some x \<and> ir_attemptId x = ci_attemptId inp
           \<and> idem_find t' k = Some (completed_row (hr_status r) h b c x))" for k
      using complete_map(1) [OF com assms(2), of k] by (cases "idem_find t k") (auto simp: owns_def completed_row_def split: if_splits)
    then show thesis using that [of "Finished r h b"] complete_map(2) [OF com assms(2)] 3 evs by auto
  qed
qed


subsection \<open>The invariant\<close>

definition ends :: "idem_event \<Rightarrow> claim_input \<Rightarrow> bool" where
  "ends e a \<longleftrightarrow> e = Freed a \<or> (\<exists>now. e = Expire now \<and> ci_expiresAt a \<le> now)"

definition holds_key :: "records \<Rightarrow> claim_input \<Rightarrow> bool" where
  "holds_key t a \<longleftrightarrow> (\<exists>r. idem_find t (input_key a) = Some r \<and> ir_attemptId r = ci_attemptId a)"

definition log_guarded :: "idem_event list \<Rightarrow> records \<Rightarrow> bool" where
  "log_guarded hist t \<longleftrightarrow> (\<forall>a zs ys. hist = zs @ GuardSet a # ys \<longrightarrow> (\<exists>e \<in> set ys. ends e a) \<or> holds_key t a)"

definition log_ordered :: "idem_event list \<Rightarrow> bool" where
  "log_ordered hist \<longleftrightarrow> (\<forall>a b zs ys xs. hist = zs @ GuardSet a # ys @ GuardSet b # xs \<longrightarrow> input_key a = input_key b \<longrightarrow> (\<exists>e \<in> set ys. ends e a))"

lemma snoc_split:
  "hist @ [e] = zs @ x # ys \<longleftrightarrow> (ys = [] \<and> zs = hist \<and> x = e) \<or> (\<exists>ys'. ys = ys' @ [e] \<and> hist = zs @ x # ys')"
  by (cases ys rule: rev_cases) auto

lemma guarded_snoc:
  assumes "log_guarded hist t"
    and "\<And>a. GuardSet a \<in> set hist \<Longrightarrow> holds_key t a \<Longrightarrow> holds_key t' a \<or> ends e a"
    and "\<And>a. e = GuardSet a \<Longrightarrow> holds_key t' a"
  shows "log_guarded (hist @ [e]) t'"
  unfolding log_guarded_def
proof (intro allI impI)
  fix a zs ys assume "hist @ [e] = zs @ GuardSet a # ys"
  then consider "e = GuardSet a" | ys' where "ys = ys' @ [e]" "hist = zs @ GuardSet a # ys'" unfolding snoc_split by auto
  then show "(\<exists>e \<in> set ys. ends e a) \<or> holds_key t' a"
  proof cases
    case 1
    then show ?thesis using assms(3) by blast
  next
    case (2 ys')
    with assms(1) have "(\<exists>e \<in> set ys'. ends e a) \<or> holds_key t a" unfolding log_guarded_def by blast
    moreover have "GuardSet a \<in> set hist" using 2 by simp
    ultimately show ?thesis using assms(2) [of a] 2 by auto
  qed
qed

lemma ordered_snoc:
  assumes "log_ordered hist" and "log_guarded hist t"
    and "\<And>a b. e = GuardSet b \<Longrightarrow> input_key a = input_key b \<Longrightarrow> \<not> holds_key t a"
  shows "log_ordered (hist @ [e])"
  unfolding log_ordered_def
proof (intro allI impI)
  fix a b zs ys xs assume l: "hist @ [e] = zs @ GuardSet a # ys @ GuardSet b # xs" and k: "input_key a = input_key b"
  have "hist @ [e] = (zs @ GuardSet a # ys) @ GuardSet b # xs" using l by simp
  then consider "e = GuardSet b" "hist = zs @ GuardSet a # ys" | xs' where "hist = zs @ GuardSet a # ys @ GuardSet b # xs'"
    unfolding snoc_split by auto
  then show "\<exists>e \<in> set ys. ends e a"
  proof cases
    case 1
    then show ?thesis using assms(2,3) k unfolding log_guarded_def by blast
  next
    case 2
    then show ?thesis using assms(1) k unfolding log_ordered_def by blast
  qed
qed

definition guards :: "idem_event list \<Rightarrow> claim_input list" where
  "guards hist = concat (map (\<lambda>e. case e of GuardSet a \<Rightarrow> [a] | _ \<Rightarrow> []) hist)"
definition runs :: "idem_event list \<Rightarrow> claim_input list" where
  "runs hist = concat (map (\<lambda>e. case e of Ran a _ \<Rightarrow> [a] | _ \<Rightarrow> []) hist)"

lemma guards_simps [simp]: "guards [] = []" "guards (xs @ ys) = guards xs @ guards ys" "guards (e # ys) = (case e of GuardSet a \<Rightarrow> [a] | _ \<Rightarrow> []) @ guards ys"
  by (simp_all add: guards_def)
lemma runs_simps [simp]: "runs [] = []" "runs (xs @ ys) = runs xs @ runs ys" "runs (e # ys) = (case e of Ran a _ \<Rightarrow> [a] | _ \<Rightarrow> []) @ runs ys"
  by (simp_all add: runs_def)

lemma set_guards: "a \<in> set (guards hist) \<longleftrightarrow> GuardSet a \<in> set hist"
  by (induction hist) (auto split: idem_event.splits)
lemma set_runs: "a \<in> set (runs hist) \<longleftrightarrow> (\<exists>out. Ran a out \<in> set hist)"
  by (induction hist) (auto split: idem_event.splits)

text \<open>A faithful replay: same caller, key and request as an earlier attempt whose handler returned the response.\<close>

definition faithful :: "idem_event list \<Rightarrow> claim_input \<Rightarrow> handler_response \<Rightarrow> bool" where
  "faithful hist inp resp \<longleftrightarrow> (\<exists>a r bytes. Ran a (Returned r) \<in> set hist \<and> Recorded a r \<in> set hist \<and> input_key a = input_key inp
     \<and> ci_requestHash a = ci_requestHash inp \<and> 200 \<le> hr_status r \<and> hr_status r < 300 \<and> readBodyLimited (hr_body r) = Some bytes
     \<and> resp = \<lparr>hr_status = hr_status r, hr_contentType = hr_contentType r, hr_location = hr_location r, hr_body = Some [bytes]\<rparr>)"

fun pc_ok :: "idem_event list \<Rightarrow> claim_input \<Rightarrow> request_pc \<Rightarrow> bool" where
  "pc_ok hist inp (Admitting cpc) \<longleftrightarrow> claim_measure cpc \<noteq> 0 \<and> inp \<notin> set (guards hist) \<and> inp \<notin> set (runs hist)"
| "pc_ok hist inp Executing \<longleftrightarrow> inp \<in> set (guards hist) \<and> inp \<notin> set (runs hist)"
| "pc_ok hist inp (Releasing ans) \<longleftrightarrow> (\<exists>out. Ran inp out \<in> set hist \<and> after_execute out = Releasing ans)"
| "pc_ok hist inp (Recording r) \<longleftrightarrow> Ran inp (Returned r) \<in> set hist \<and> after_execute (Returned r) = Recording r"
| "pc_ok hist inp (Answered (Replayed resp)) \<longleftrightarrow> faithful hist inp resp"
| "pc_ok hist inp _ \<longleftrightarrow> True"

definition recorded_row :: "crypto \<Rightarrow> string \<Rightarrow> idem_event list \<Rightarrow> claim_input \<Rightarrow> json_text idem_record \<Rightarrow> bool" where
  "recorded_row cr rawKey hist inp r \<longleftrightarrow> (\<exists>res h b iv. Recorded inp res \<in> set hist \<and> length iv = GCM_IV_BYTES \<and> (\<forall>x \<in> set iv. x < 256)
     \<and> prepare_record cr rawKey iv inp res = Some (h, b) \<and> ir_responseStatus r = Some (hr_status res)
     \<and> ir_responseHeaders r = Some h \<and> ir_responseBody r = Some b)"

definition row_ok :: "crypto \<Rightarrow> string \<Rightarrow> idem_event list \<Rightarrow> claim_input set \<Rightarrow> string \<times> string \<Rightarrow> json_text idem_record \<Rightarrow> bool" where
  "row_ok cr rawKey hist inps k r \<longleftrightarrow> (\<exists>inp \<in> inps. ci_attemptId inp = ir_attemptId r \<and> input_key inp = k \<and> ir_requestHash r = ci_requestHash inp
     \<and> ir_expiresAt r = ci_expiresAt inp \<and> (ir_state r = Processing \<or> recorded_row cr rawKey hist inp r))"

definition log_ok :: "idem_event list \<Rightarrow> claim_input set \<Rightarrow> bool" where
  "log_ok hist inps \<longleftrightarrow> distinct (guards hist) \<and> distinct (runs hist) \<and> set (guards hist) \<subseteq> inps \<and> set (runs hist) \<subseteq> set (guards hist)
     \<and> (\<forall>a. Freed a \<in> set hist \<longrightarrow> (\<exists>out ans. Ran a out \<in> set hist \<and> after_execute out = Releasing ans))
     \<and> (\<forall>a r. Recorded a r \<in> set hist \<longrightarrow> Ran a (Returned r) \<in> set hist \<and> after_execute (Returned r) = Recording r)"

definition inputs :: "idem_world \<Rightarrow> claim_input set" where
  "inputs w = fst ` set (wo_requests w)"

definition idem_ok :: "crypto \<Rightarrow> string \<Rightarrow> idem_world \<Rightarrow> bool" where
  "idem_ok cr rawKey w \<longleftrightarrow> keys_unique (wo_table w) \<and> distinct (map (ci_attemptId \<circ> fst) (wo_requests w))
     \<and> (\<forall>k r. idem_find (wo_table w) k = Some r \<longrightarrow> row_ok cr rawKey (wo_log w) (inputs w) k r)
     \<and> log_guarded (wo_log w) (wo_table w) \<and> log_ordered (wo_log w) \<and> log_ok (wo_log w) (inputs w)
     \<and> (\<forall>(inp, pc) \<in> set (wo_requests w). pc_ok (wo_log w) inp pc)"

lemma inputs_inj:
  assumes "distinct (map (ci_attemptId \<circ> fst) (wo_requests w))" "a \<in> inputs w" "b \<in> inputs w" "ci_attemptId a = ci_attemptId b"
  shows "a = b"
  using assms by (auto simp: inputs_def distinct_map inj_on_def)

lemma faithful_mono: "faithful hist inp resp \<Longrightarrow> set hist \<subseteq> set hist' \<Longrightarrow> faithful hist' inp resp"
  unfolding faithful_def by blast

lemma pc_ok_mono:
  assumes "pc_ok hist inp pc" and "inp \<notin> set (guards evs)" "inp \<notin> set (runs evs)"
  shows "pc_ok (hist @ evs) inp pc"
proof (cases pc)
  case (Answered ans)
  then show ?thesis using assms by (cases ans) (auto intro: faithful_mono)
qed (use assms in auto)

lemma row_ok_mono: "row_ok cr rawKey hist inps k r \<Longrightarrow> inps \<subseteq> inps' \<Longrightarrow> row_ok cr rawKey (hist @ evs) inps' k r"
  unfolding row_ok_def recorded_row_def by fastforce


text \<open>What a change does to the guard and to the rows of the others.\<close>

lemma change_holds:
  assumes "change_ok cr rawKey iv c inp pc ch t t' evs" and "holds_key t a"
    and "\<And>r. idem_find t (input_key a) = Some r \<Longrightarrow> ir_attemptId r = ci_attemptId a \<Longrightarrow> ir_expiresAt r = ci_expiresAt a"
    and "ci_attemptId a = ci_attemptId inp \<Longrightarrow> a = inp"
  shows "holds_key t' a \<or> (\<exists>e \<in> set evs. ends e a)"
proof -
  obtain r where r: "idem_find t (input_key a) = Some r" "ir_attemptId r = ci_attemptId a" using assms(2) by (auto simp: holds_key_def)
  have ex: "ir_expiresAt r = ci_expiresAt a" by (rule assms(3) [OF r])
  show ?thesis
  proof (cases ch)
    case Same
    then show ?thesis using assms(1,2) by simp
  next
    case (Inserted first)
    then show ?thesis using assms(1) r by (auto simp: holds_key_def split: if_splits)
  next
    case DroppedExpired
    then show ?thesis using assms(1) r ex by (auto simp: holds_key_def ends_def simp del: split_paired_All dest!: spec [of _ "input_key a"])
  next
    case (Deleted ans)
    then show ?thesis using assms(1,4) r by (auto simp: holds_key_def ends_def simp del: split_paired_All dest!: spec [of _ "input_key a"])
  next
    case (Finished res h b)
    then show ?thesis using assms(1) r by (auto simp: holds_key_def simp del: split_paired_All dest!: spec [of _ "input_key a"])
  qed
qed

lemma change_rows:
  assumes "change_ok cr rawKey iv c inp pc ch t t' evs" and "length iv = GCM_IV_BYTES" and "\<forall>x \<in> set iv. x < 256"
    and "\<And>k r. idem_find t k = Some r \<Longrightarrow> row_ok cr rawKey hist inps k r" and "inp \<in> inps"
    and "\<And>a. a \<in> inps \<Longrightarrow> ci_attemptId a = ci_attemptId inp \<Longrightarrow> a = inp" and "idem_find t' k = Some r"
  shows "row_ok cr rawKey (hist @ evs) inps k r"
proof -
  have old: ?thesis if "idem_find t k = Some r" using assms(4) [OF that] by (rule row_ok_mono) simp
  show ?thesis
  proof (cases ch)
    case Same
    then show ?thesis using assms(1,7) old by simp
  next
    case (Inserted first)
    show ?thesis
    proof (cases "k = input_key inp")
      case True
      then have "r = processing_row inp" using Inserted assms(1,7) by simp
      then show ?thesis using True assms(5) unfolding row_ok_def by (intro bexI [of _ inp]) simp_all
    qed (use Inserted assms(1,7) old in simp)
  next
    case DroppedExpired
    then show ?thesis using assms(1,7) old by (auto simp del: split_paired_All dest!: spec [of _ k])
  next
    case (Deleted ans)
    then show ?thesis using assms(1,7) old by (auto simp del: split_paired_All dest!: spec [of _ k])
  next
    case (Finished res h b)
    with assms(1) have evs: "evs = [Recorded inp res]" and prep: "prepare_record cr rawKey iv inp res = Some (h, b)"
      and "idem_find t' k = idem_find t k \<or> (\<exists>x. idem_find t k = Some x \<and> ir_attemptId x = ci_attemptId inp
           \<and> idem_find t' k = Some (completed_row (hr_status res) h b c x))" by (auto simp del: split_paired_All)
    then consider "idem_find t k = Some r" | x where "idem_find t k = Some x" "ir_attemptId x = ci_attemptId inp" "r = completed_row (hr_status res) h b c x"
      using assms(7) by auto
    then show ?thesis
    proof cases
      case (2 x)
      from assms(4) [OF 2(1)] obtain a where a: "a \<in> inps" "ci_attemptId a = ir_attemptId x" "input_key a = k"
        "ir_requestHash x = ci_requestHash a" "ir_expiresAt x = ci_expiresAt a" unfolding row_ok_def by blast
      then have "a = inp" using assms(6) 2(2) by simp
      moreover have "recorded_row cr rawKey (hist @ evs) inp r"
        unfolding recorded_row_def evs
        by (intro exI [of _ res] exI [of _ h] exI [of _ b] exI [of _ iv]) (use assms(2,3) prep 2 in simp)
      ultimately show ?thesis using a 2 unfolding row_ok_def by (intro bexI [of _ inp]) auto
    qed (rule old)
  qed
qed


text \<open>A replayed response is the one that was recorded.\<close>

definition aead_works :: "crypto \<Rightarrow> string \<Rightarrow> bool" where
  "aead_works cr rawKey \<longleftrightarrow> (\<forall>key iv aad plaintext. parseRawKey rawKey = Some key \<longrightarrow> length iv = GCM_IV_BYTES
     \<longrightarrow> (\<forall>x \<in> set plaintext. x < 256) \<longrightarrow> aead_ok cr key iv aad plaintext)"

lemma utf8_ok_head: "utf8_ok (a # bs) \<Longrightarrow> a < 256 \<and> (\<exists>xs ys. bs = xs @ ys \<and> (\<forall>x \<in> set xs. x < 256) \<and> utf8_ok ys)"
proof -
  assume ok: "utf8_ok (a # bs)"
  have c: "continuation x \<Longrightarrow> x < 256" for x by (simp add: continuation_def)
  have "a < 128 \<or> (194 \<le> a \<and> a < 224) \<or> (224 \<le> a \<and> a < 240) \<or> (240 \<le> a \<and> a < 245)"
    by (rule ccontr) (use ok in \<open>simp only: utf8_ok.simps de_Morgan_disj if_False\<close>)
  then consider "a < 128" | "\<not> a < 128" "194 \<le> a \<and> a < 224" | "\<not> a < 128" "\<not> (194 \<le> a \<and> a < 224)" "224 \<le> a \<and> a < 240"
    | "\<not> a < 128" "\<not> (194 \<le> a \<and> a < 224)" "\<not> (224 \<le> a \<and> a < 240)" "240 \<le> a \<and> a < 245"
    by blast
  then show ?thesis
  proof cases
    case 1
    then show ?thesis using ok by (intro conjI exI [of _ "[]"] exI [of _ bs]) simp_all
  next
    case 2
    then obtain b r where "bs = b # r" "continuation b" "utf8_ok r" using ok by (cases bs) simp_all
    then show ?thesis using 2 c by (intro conjI exI [of _ "[b]"] exI [of _ r]) simp_all
  next
    case 3
    then obtain b d r where "bs = b # d # r" "continuation b" "continuation d" "utf8_ok r"
      using ok by (cases bs; cases "tl bs") simp_all
    then show ?thesis using 3 c by (intro conjI exI [of _ "[b, d]"] exI [of _ r]) simp_all
  next
    case 4
    then obtain b d e r where "bs = b # d # e # r" "continuation b" "continuation d" "continuation e" "utf8_ok r"
      using ok by (cases bs; cases "tl bs"; cases "tl (tl bs)") simp_all
    then show ?thesis using 4 c by (intro conjI exI [of _ "[b, d, e]"] exI [of _ r]) simp_all
  qed
qed

lemma utf8_ok_bytes: "utf8_ok bs \<Longrightarrow> \<forall>x \<in> set bs. x < 256"
proof (induction "length bs" arbitrary: bs rule: less_induct)
  case less
  show ?case
  proof (cases bs)
    case (Cons a r)
    with utf8_ok_head less.prems obtain xs ys where "a < 256" "r = xs @ ys" "\<forall>x \<in> set xs. x < 256" "utf8_ok ys" by blast
    moreover from this less.hyps [of ys] have "\<forall>x \<in> set ys. x < 256" by (simp add: Cons)
    ultimately show ?thesis by (auto simp: Cons)
  qed simp
qed

lemma replay_recorded:
  assumes "aead_works cr rawKey" and "recorded_row cr rawKey hist a r" and "log_ok hist inps"
    and "input_key a = input_key inp" "ci_requestHash a = ci_requestHash inp"
    and "ir_responseStatus r = Some status" "ir_responseHeaders r = Some headers" "ir_responseBody r = Some body"
    and "replay cr rawKey inp \<lparr>cr_requestHash = rh, cr_responseStatus = status, cr_responseHeaders = headers, cr_responseBody = body, cr_expiresAt = ex\<rparr> = Replayed resp"
  shows "faithful hist inp resp"
proof -
  obtain res iv where rec: "Recorded a res \<in> set hist" and iv: "length iv = GCM_IV_BYTES" "\<forall>x \<in> set iv. x < 256"
    and prep: "prepare_record cr rawKey iv a res = Some (headers, body)" and st: "status = hr_status res"
    using assms(2,6-8) unfolding recorded_row_def by auto
  have same: "binding_of inp st = binding_of a st" for st using assms(4,5) by (simp add: binding_of_def input_key_def)
  obtain bytes where bytes: "readBodyLimited (hr_body res) = Some bytes" and h: "headers = storedHeaders res"
    and env: "encryptIdempotencyBody cr iv bytes rawKey (binding_of a (hr_status res)) = Some body" and "utf8_ok bytes"
    using prep by (auto simp: prepare_record_def split: if_splits option.splits)
  have "decryptIdempotencyBody cr body rawKey (binding_of a (hr_status res)) = Some bytes"
    by (rule envelope_roundtrip [OF env iv]) (use assms(1) iv(1) utf8_ok_bytes [OF \<open>utf8_ok bytes\<close>] in \<open>auto simp: aead_works_def\<close>)
  then have "resp = \<lparr>hr_status = hr_status res, hr_contentType = hr_contentType res, hr_location = hr_location res, hr_body = Some [bytes]\<rparr>"
    using assms(9) by (simp add: replay_def same st h replay_stored_headers)
  moreover have "Ran a (Returned res) \<in> set hist" "after_execute (Returned res) = Recording res" using assms(3) rec by (auto simp: log_ok_def)
  moreover from this(2) have "200 \<le> hr_status res" "hr_status res < 300" by (auto simp: after_execute_def split: if_splits)
  ultimately show ?thesis using assms(4,5) rec bytes unfolding faithful_def by blast
qed

lemma ghost_events_same [simp]: "ghost_events inp pc t t = []"
  by (simp add: ghost_events_def)

lemma answered_plain: "pc_ok hist inp (Answered unavailable)" "pc_ok hist inp (Answered (refuse e))" "pc_ok hist inp (Answered (Refused e hs))"
  by (simp_all add: unavailable_def refuse_def)

lemma after_execute_plain: "after_execute out = Releasing ans \<Longrightarrow> pc_ok hist inp (Answered ans)"
  by (auto simp: after_execute_def split: handler_outcome.splits if_splits)

lemma request_step_pc:
  assumes "request_step cr rawKey iv c inp fault pc t = (pc', t')" and "pc_ok hist inp pc" and "aead_works cr rawKey" and "log_ok hist inps"
    and "\<And>k r. idem_find t k = Some r \<Longrightarrow> row_ok cr rawKey hist inps k r"
  shows "pc_ok (hist @ ghost_events inp pc t t') inp pc'"
proof (cases pc)
  case (Admitting cpc)
  let ?evs = "ghost_events inp pc t t'"
  obtain d u where st: "claim_step inp cpc t = (d, u)" by (cases "claim_step inp cpc t")
  have fault: "pc' = Answered unavailable" if "fault \<noteq> NoFault"
    using assms(1) that by (cases fault) (auto simp: Admitting request_step_def attempt_def)
  have go: "t' = u \<and> pc' = (case d of ClaimDone r \<Rightarrow> on_claim cr rawKey inp r | _ \<Rightarrow> Admitting d)" if "fault = NoFault"
    using assms(1) that st by (auto simp: Admitting request_step_def attempt_def split: claim_pc.splits)
  show ?thesis
  proof (cases "fault = NoFault")
    case True
    note go = go [OF True]
    have before: "inp \<notin> set (guards hist)" "inp \<notin> set (runs hist)" using assms(2) by (simp_all add: Admitting)
    show ?thesis
    proof (cases cpc)
      case (Inserting n)
      show ?thesis
      proof (cases "n = 0")
        case True
        then show ?thesis using go st Inserting by (auto simp: on_claim_def answered_plain)
      next
        case False
        show ?thesis
        proof (cases "idem_find t (input_key inp)")
          case None
          then have "u = t @ [processing_row inp]" "d = ClaimDone (Claimed (ci_attemptId inp))" using st False Inserting by (auto simp: insert_guard_def)
          then show ?thesis using go before by (auto simp: Admitting Inserting ghost_events_def on_claim_def)
        next
          case (Some r)
          then have "u = t" "d = Reading (n - 1)" using st False Inserting by (auto simp: insert_guard_def)
          then show ?thesis using go before by (auto simp: ghost_events_def)
        qed
      qed
    next
      case (Reading n)
      then have u: "u = t" using st by (auto split: option.splits verdict.splits)
      then have evs: "?evs = []" using go by (simp add: ghost_events_def)
      show ?thesis
      proof (cases "idem_find t (input_key inp)")
        case None
        then show ?thesis using go st Reading before evs by auto
      next
        case (Some r)
        from assms(5) [OF Some] obtain a where a: "input_key a = input_key inp" "ir_requestHash r = ci_requestHash a"
          "ir_state r = Processing \<or> recorded_row cr rawKey hist a r" unfolding row_ok_def by blast
        show ?thesis
        proof (cases "judge inp r")
          case Expired
          then show ?thesis using go st Reading Some before evs by auto
        next
          case (Settled res)
          then have pc': "pc' = on_claim cr rawKey inp res" using go st Reading Some by auto
          show ?thesis
          proof (cases res)
            case (Replay rec)
            then obtain status headers body where cols: "ir_responseStatus r = Some status" "ir_responseHeaders r = Some headers" "ir_responseBody r = Some body"
              and rec: "rec = \<lparr>cr_requestHash = ir_requestHash r, cr_responseStatus = status, cr_responseHeaders = headers, cr_responseBody = body, cr_expiresAt = ir_expiresAt r\<rparr>"
              and "ir_requestHash r = ci_requestHash inp" "ir_state r \<noteq> Processing"
              using Settled by (auto simp: judge_def split: if_splits option.splits)
            then have "recorded_row cr rawKey hist a r" "ci_requestHash a = ci_requestHash inp" using a by auto
            then have "faithful hist inp resp" if "replay cr rawKey inp rec = Replayed resp" for resp
              using replay_recorded [OF assms(3) _ assms(4) a(1) _ cols] that unfolding rec by blast
            moreover have "(\<exists>resp. replay cr rawKey inp rec = Replayed resp) \<or> replay cr rawKey inp rec = unavailable"
              by (auto simp: replay_def split: option.split prod.split)
            ultimately show ?thesis using evs by (auto simp: pc' Replay on_claim_def answered_plain)
          next
            case (Claimed x)
            then show ?thesis using Settled by (auto simp: judge_def split: if_splits option.splits)
          qed (simp_all add: pc' on_claim_def answered_plain)
        qed
      qed
    next
      case (Deleting n)
      then show ?thesis using go st before by (auto simp: Admitting ghost_events_def)
    next
      case (ClaimDone r)
      then show ?thesis using assms(2) by (simp add: Admitting)
    qed
  qed (simp add: fault answered_plain)
qed (use assms in \<open>auto simp: request_step_def Let_def answered_plain after_execute_plain split: prod.splits option.splits bool.splits claim_pc.splits\<close>)


lemma change_events:
  assumes "change_ok cr rawKey iv c inp pc ch t t' evs"
  shows "set (guards evs) \<subseteq> {inp}" "set (runs evs) = {}" "distinct (guards evs)"
    and "inp \<in> set (guards evs) \<Longrightarrow> \<exists>n. pc = Admitting (Inserting n)"
  using assms by (cases ch; auto split: if_splits)+

text \<open>One statement keeps the ordering of the history.\<close>

lemma change_history:
  assumes "change_ok cr rawKey iv c inp pc ch t t' evs" and "log_guarded hist t" "log_ordered hist"
    and holds: "\<And>a. GuardSet a \<in> set hist \<Longrightarrow> holds_key t a \<Longrightarrow> holds_key t' a \<or> (\<exists>e \<in> set evs. ends e a)"
  shows "log_guarded (hist @ evs) t' \<and> log_ordered (hist @ evs)"
proof (cases "ch = Same")
  case True
  then show ?thesis using assms by simp
next
  case False
  then obtain e where evs: "evs = [e]" using assms(1) by (cases ch) (auto split: if_splits)
  have "holds_key t' a" if "e = GuardSet a" for a
    using assms(1) that by (cases ch) (auto simp: evs holds_key_def split: if_splits)
  moreover have "\<not> holds_key t a" if "e = GuardSet b" "input_key a = input_key b" for a b
    using assms(1) that by (cases ch) (auto simp: evs holds_key_def split: if_splits)
  moreover have "holds_key t' a \<or> ends e a" if "GuardSet a \<in> set hist" "holds_key t a" for a
    using holds [OF that] by (simp add: evs)
  ultimately show ?thesis
    unfolding evs by (intro conjI guarded_snoc [OF assms(2)] ordered_snoc [OF assms(3,2)])
qed

lemma pc_ok_others:
  assumes "distinct (map (ci_attemptId \<circ> fst) reqs)" and "j < length reqs" "reqs ! j = (inp, pc)"
    and "\<forall>(i, p) \<in> set reqs. pc_ok hist i p" and "set (guards evs) \<subseteq> {inp}" "set (runs evs) \<subseteq> {inp}"
    and "pc_ok (hist @ evs) inp pc'" and "(i, p) \<in> set (reqs[j := (inp, pc')])"
  shows "pc_ok (hist @ evs) i p"
proof -
  obtain l where l: "l < length reqs" "reqs[j := (inp, pc')] ! l = (i, p)" using assms(8) by (auto simp: in_set_conv_nth)
  show ?thesis
  proof (cases "l = j")
    case True
    then show ?thesis using l assms(2,7) by simp
  next
    case False
    then have m: "(i, p) = reqs ! l" using l by simp
    then have "(i, p) \<in> set reqs" using l(1) by simp
    moreover have "i \<noteq> inp"
      using assms(1-3) l(1) m False by (auto simp: distinct_conv_nth) (metis fst_conv)
    ultimately show ?thesis using assms(4-6) by (auto intro!: pc_ok_mono)
  qed
qed


lemma inputs_update [simp]:
  assumes "j < length (wo_requests w)" "wo_requests w ! j = (inp, pc)"
  shows "inputs (w\<lparr>wo_table := t', wo_requests := (wo_requests w)[j := (inp, pc')], wo_log := l\<rparr>) = inputs w"
    and "inputs (w\<lparr>wo_requests := (wo_requests w)[j := (inp, pc')], wo_log := l\<rparr>) = inputs w"
    and "map (ci_attemptId \<circ> fst) ((wo_requests w)[j := (inp, pc')]) = map (ci_attemptId \<circ> fst) (wo_requests w)"
proof -
  have "map fst ((wo_requests w)[j := (inp, pc')]) = map fst (wo_requests w)"
    using assms by (simp add: map_update list_update_same_conv)
  then have i: "fst ` set ((wo_requests w)[j := (inp, pc')]) = fst ` set (wo_requests w)"
    and "map ci_attemptId (map fst ((wo_requests w)[j := (inp, pc')])) = map ci_attemptId (map fst (wo_requests w))"
    by (metis list.set_map, simp only:)
  then show "map (ci_attemptId \<circ> fst) ((wo_requests w)[j := (inp, pc')]) = map (ci_attemptId \<circ> fst) (wo_requests w)" by simp
  show "inputs (w\<lparr>wo_table := t', wo_requests := (wo_requests w)[j := (inp, pc')], wo_log := l\<rparr>) = inputs w"
    "inputs (w\<lparr>wo_requests := (wo_requests w)[j := (inp, pc')], wo_log := l\<rparr>) = inputs w"
    using i by (simp_all add: inputs_def)
qed

lemma statement_keeps:
  assumes ok: "idem_ok cr rawKey w" and aead: "aead_works cr rawKey"
    and j: "j < length (wo_requests w)" "wo_requests w ! j = (inp, pc)" and iv: "length iv = GCM_IV_BYTES" "\<forall>b \<in> set iv. b < 256"
    and step: "request_step cr rawKey iv c inp fault pc (wo_table w) = (pc', t')"
  shows "idem_ok cr rawKey (w\<lparr>wo_table := t', wo_requests := (wo_requests w)[j := (inp, pc')],
      wo_log := wo_log w @ ghost_events inp pc (wo_table w) t'\<rparr>)"
proof -
  let ?t = "wo_table w" and ?hist = "wo_log w" and ?evs = "ghost_events inp pc (wo_table w) t'"
  from ok have keys: "keys_unique ?t" and dist: "distinct (map (ci_attemptId \<circ> fst) (wo_requests w))"
    and rows: "\<And>k r. idem_find ?t k = Some r \<Longrightarrow> row_ok cr rawKey ?hist (inputs w) k r"
    and guarded: "log_guarded ?hist ?t" and ordered: "log_ordered ?hist" and lok: "log_ok ?hist (inputs w)"
    and pcs: "\<forall>(i, p) \<in> set (wo_requests w). pc_ok ?hist i p" unfolding idem_ok_def by blast+
  have inp: "inp \<in> inputs w" using j by (force simp: inputs_def in_set_conv_nth)
  have inj: "a = inp" if "a \<in> inputs w" "ci_attemptId a = ci_attemptId inp" for a using inputs_inj [OF dist that(1) inp that(2)] .
  have pc: "pc_ok ?hist inp pc" using pcs j by (metis (mono_tags, lifting) case_prodD nth_mem)
  obtain ch where ch: "change_ok cr rawKey iv c inp pc ch ?t t' ?evs" and keys': "keys_unique t'"
    using request_step_change [OF step keys] by blast
  note evs = change_events [OF ch]
  have pc': "pc_ok (?hist @ ?evs) inp pc'" by (rule request_step_pc [OF step pc aead lok rows])
  have rows': "row_ok cr rawKey (?hist @ ?evs) (inputs w) k r" if "idem_find t' k = Some r" for k r
    by (rule change_rows [OF ch iv rows inp inj that])
  have "holds_key t' a \<or> (\<exists>e \<in> set ?evs. ends e a)" if a: "GuardSet a \<in> set ?hist" "holds_key ?t a" for a
  proof (rule change_holds [OF ch a(2)])
    have ai: "a \<in> inputs w" using lok a(1) by (auto simp: log_ok_def set_guards)
    then show "ci_attemptId a = ci_attemptId inp \<Longrightarrow> a = inp" by (rule inj)
    fix r assume "idem_find ?t (input_key a) = Some r" "ir_attemptId r = ci_attemptId a"
    moreover from rows [OF this(1)] obtain b where "b \<in> inputs w" "ci_attemptId b = ir_attemptId r" "ir_expiresAt r = ci_expiresAt b"
      unfolding row_ok_def by blast
    ultimately show "ir_expiresAt r = ci_expiresAt a" using inputs_inj [OF dist _ ai] by metis
  qed
  from change_history [OF ch guarded ordered this] have hist': "log_guarded (?hist @ ?evs) t'" "log_ordered (?hist @ ?evs)" by blast+
  have "log_ok (?hist @ ?evs) (inputs w)"
  proof -
    have "inp \<notin> set (guards ?hist)" if "inp \<in> set (guards ?evs)" using evs(4) [OF that] pc by auto
    then have "distinct (guards (?hist @ ?evs))" using lok evs by (auto simp: log_ok_def)
    moreover have "Ran inp (Returned r) \<in> set ?hist \<and> after_execute (Returned r) = Recording r" if "Recorded inp r \<in> set ?evs" for r
      using ch that pc by (cases ch) (auto split: if_splits)
    moreover have "\<exists>out ans. Ran inp out \<in> set ?hist \<and> after_execute out = Releasing ans" if "Freed inp \<in> set ?evs"
      using ch that pc by (cases ch) (auto split: if_splits)
    moreover have "a = inp" if "Freed a \<in> set ?evs \<or> Recorded a r \<in> set ?evs" for a r
      using ch that by (cases ch) (auto split: if_splits)
    moreover have "set (guards ?evs) \<subseteq> inputs w" using evs(1) inp by auto
    ultimately show ?thesis using lok evs(2) unfolding log_ok_def by (simp add: set_runs set_guards) blast
  qed
  moreover have "pc_ok (?hist @ ?evs) i p" if "(i, p) \<in> set ((wo_requests w)[j := (inp, pc')])" for i p
    by (rule pc_ok_others [OF dist j pcs _ _ pc' that]) (use evs in auto)
  ultimately show ?thesis
    unfolding idem_ok_def using keys' dist rows' hist' by (auto simp: j)
qed


lemma execute_keeps:
  assumes ok: "idem_ok cr rawKey w" and j: "j < length (wo_requests w)" "wo_requests w ! j = (inp, Executing)"
  shows "idem_ok cr rawKey (w\<lparr>wo_requests := (wo_requests w)[j := (inp, after_execute out)], wo_log := wo_log w @ [Ran inp out]\<rparr>)"
proof -
  let ?t = "wo_table w" and ?hist = "wo_log w" and ?evs = "[Ran inp out]"
  from ok have dist: "distinct (map (ci_attemptId \<circ> fst) (wo_requests w))"
    and rows: "\<And>k r. idem_find ?t k = Some r \<Longrightarrow> row_ok cr rawKey ?hist (inputs w) k r"
    and guarded: "log_guarded ?hist ?t" and ordered: "log_ordered ?hist" and lok: "log_ok ?hist (inputs w)"
    and pcs: "\<forall>(i, p) \<in> set (wo_requests w). pc_ok ?hist i p" unfolding idem_ok_def by blast+
  have "pc_ok ?hist inp Executing" using pcs j by (metis (mono_tags, lifting) case_prodD nth_mem)
  then have before: "inp \<in> set (guards ?hist)" "inp \<notin> set (runs ?hist)" by simp_all
  have "pc_ok (?hist @ ?evs) inp (after_execute out)"
  proof (cases "after_execute out")
    case (Releasing ans)
    then show ?thesis by (auto intro!: exI [of _ out])
  next
    case (Recording r)
    then have "out = Returned r" by (auto simp: after_execute_def split: handler_outcome.splits if_splits)
    then show ?thesis using Recording by simp
  next
    case (Answered ans)
    then show ?thesis by (auto simp: after_execute_def split: handler_outcome.splits if_splits)
  qed (auto simp: after_execute_def split: handler_outcome.splits if_splits)
  then have "pc_ok (?hist @ ?evs) i p" if "(i, p) \<in> set ((wo_requests w)[j := (inp, after_execute out)])" for i p
    by (intro pc_ok_others [OF dist j pcs _ _ _ that]) simp_all
  moreover have "log_guarded (?hist @ ?evs) ?t" by (rule guarded_snoc [OF guarded]) simp_all
  moreover have "log_ordered (?hist @ ?evs)" by (rule ordered_snoc [OF ordered guarded]) simp
  moreover have "log_ok (?hist @ ?evs) (inputs w)" using lok before unfolding log_ok_def by simp blast
  ultimately show ?thesis
    unfolding idem_ok_def using ok [unfolded idem_ok_def] dist rows by (auto simp: j intro!: row_ok_mono)
qed

lemma arrive_keeps:
  assumes ok: "idem_ok cr rawKey w" and new: "ci_attemptId inp \<notin> (ci_attemptId \<circ> fst) ` set (wo_requests w)"
  shows "idem_ok cr rawKey (w\<lparr>wo_requests := wo_requests w @ [(inp, Admitting (Inserting MAX_ADMISSION_ATTEMPTS))]\<rparr>)"
proof -
  let ?w = "w\<lparr>wo_requests := wo_requests w @ [(inp, Admitting (Inserting MAX_ADMISSION_ATTEMPTS))]\<rparr>"
  have lok: "log_ok (wo_log w) (inputs w)" using ok by (simp add: idem_ok_def)
  have sub: "inputs w \<subseteq> inputs ?w" and "inp \<notin> inputs w" using new by (auto simp: inputs_def)
  then have "inp \<notin> set (guards (wo_log w))" "inp \<notin> set (runs (wo_log w))" using lok by (auto simp: log_ok_def)
  moreover have "log_ok (wo_log w) (inputs ?w)" using lok sub unfolding log_ok_def by blast
  moreover have "row_ok cr rawKey (wo_log w) (inputs ?w) k r" if "idem_find (wo_table w) k = Some r" for k r
  proof -
    have "row_ok cr rawKey (wo_log w) (inputs w) k r" using ok that unfolding idem_ok_def by blast
    from row_ok_mono [OF this sub, of "[]"] show ?thesis by simp
  qed
  ultimately show ?thesis using ok new unfolding idem_ok_def by auto
qed

lemma sweep_keeps:
  assumes ok: "idem_ok cr rawKey w" and sw: "sweepExpiredIdempotency now limit (wo_table w) = Some (n, t')"
  shows "idem_ok cr rawKey (w\<lparr>wo_table := t', wo_log := wo_log w @ [Expire now]\<rparr>)"
proof -
  let ?t = "wo_table w" and ?hist = "wo_log w"
  from ok have keys: "keys_unique ?t" and dist: "distinct (map (ci_attemptId \<circ> fst) (wo_requests w))"
    and rows: "\<And>k r. idem_find ?t k = Some r \<Longrightarrow> row_ok cr rawKey ?hist (inputs w) k r"
    and guarded: "log_guarded ?hist ?t" and ordered: "log_ordered ?hist" and lok: "log_ok ?hist (inputs w)"
    and pcs: "\<forall>(i, p) \<in> set (wo_requests w). pc_ok ?hist i p" unfolding idem_ok_def by blast+
  note m = sweep_map [OF sw keys]
  have "holds_key t' a \<or> ends (Expire now) a" if a: "GuardSet a \<in> set ?hist" "holds_key ?t a" for a
  proof -
    obtain r where r: "idem_find ?t (input_key a) = Some r" "ir_attemptId r = ci_attemptId a" using a(2) by (auto simp: holds_key_def)
    have ai: "a \<in> inputs w" using lok a(1) by (auto simp: log_ok_def set_guards)
    from rows [OF r(1)] obtain b where "b \<in> inputs w" "ci_attemptId b = ir_attemptId r" "ir_expiresAt r = ci_expiresAt b"
      unfolding row_ok_def by blast
    then have "ir_expiresAt r = ci_expiresAt a" using inputs_inj [OF dist _ ai] r(2) by metis
    then show ?thesis using m(1) [of "input_key a"] r by (auto simp: holds_key_def ends_def)
  qed
  then have "log_guarded (?hist @ [Expire now]) t'" by (rule guarded_snoc [OF guarded]) simp_all
  moreover have "log_ordered (?hist @ [Expire now])" by (rule ordered_snoc [OF ordered guarded]) simp
  moreover have "log_ok (?hist @ [Expire now]) (inputs w)" using lok unfolding log_ok_def by simp
  moreover have "row_ok cr rawKey (?hist @ [Expire now]) (inputs w) k r" if "idem_find t' k = Some r" for k r
  proof -
    have "idem_find ?t k = Some r" using m(1) [of k] that by auto
    from row_ok_mono [OF rows [OF this] order_refl] show ?thesis .
  qed
  moreover have "inputs (w\<lparr>wo_table := t', wo_log := l\<rparr>) = inputs w" for l by (simp add: inputs_def)
  moreover have "pc_ok (?hist @ [Expire now]) i p" if "(i, p) \<in> set (wo_requests w)" for i p
    using pcs that by (intro pc_ok_mono) auto
  ultimately show ?thesis unfolding idem_ok_def using m(2) dist by auto
qed

lemma reachable_ok:
  assumes "idem_reachable cr rawKey w" and "aead_works cr rawKey"
  shows "idem_ok cr rawKey w"
  using assms(1)
proof induction
  case empty
  show ?case by (simp add: idem_ok_def log_guarded_def log_ordered_def log_ok_def)
next
  case (further w w')
  from further.hyps(2) show ?case
  proof cases
    case (arrive inp)
    then show ?thesis using arrive_keeps [OF further.IH] by simp
  next
    case (statement j inp pc iv completedAt fault pc' t')
    then show ?thesis using statement_keeps [OF further.IH assms(2)] by simp
  next
    case (execute j inp out)
    then show ?thesis using execute_keeps [OF further.IH] by simp
  next
    case (sweep now limit n t')
    then show ?thesis using sweep_keeps [OF further.IH] by simp
  qed
qed

subsection \<open>Properties\<close>

lemma runs_split: "hist = xs @ Ran a oa # ys @ Ran b ob # zs \<Longrightarrow> distinct (runs hist) \<Longrightarrow> a \<noteq> b"
  by auto

text \<open>C1: However requests, retries, failing statements and sweeps interleave, a handler runs at most once for a key: when it runs
  twice for one caller and key, then for two different attempts, and the first of the two guards was given back after
  an outcome that ends with neither a success nor a server error, or it had reached the end of its retention.\<close>

theorem at_most_once:
  assumes "idem_reachable cr rawKey w" and "aead_works cr rawKey"
    and "wo_log w = xs @ Ran a oa # ys @ Ran b ob # zs" and "input_key a = input_key b"
  shows "a \<noteq> b \<and> (\<exists>c \<in> {a, b}. (\<exists>out ans. Ran c out \<in> set (wo_log w) \<and> after_execute out = Releasing ans)
      \<or> (\<exists>now. Expire now \<in> set (wo_log w) \<and> ci_expiresAt c \<le> now))"
proof -
  have ok: "idem_ok cr rawKey w" by (rule reachable_ok [OF assms(1,2)])
  then have lok: "log_ok (wo_log w) (inputs w)" and ordered: "log_ordered (wo_log w)" by (simp_all add: idem_ok_def)
  have ne: "a \<noteq> b" using runs_split [OF assms(3)] lok by (simp add: log_ok_def)
  have "a \<in> set (runs (wo_log w))" "b \<in> set (runs (wo_log w))" by (simp_all add: assms(3))
  then have g: "GuardSet a \<in> set (wo_log w)" "GuardSet b \<in> set (wo_log w)" using lok by (auto simp: log_ok_def set_guards)
  then obtain p q where pq: "wo_log w = p @ GuardSet a # q" by (meson split_list)
  have "\<exists>c d us vs ws. {c, d} = {a, b} \<and> wo_log w = us @ GuardSet c # vs @ GuardSet d # ws"
  proof (cases "GuardSet b \<in> set q")
    case True
    then obtain vs ws where "q = vs @ GuardSet b # ws" by (meson split_list)
    with pq show ?thesis by blast
  next
    case False
    then have "GuardSet b \<in> set p" using g(2) ne by (auto simp: pq)
    then obtain us vs where "p = us @ GuardSet b # vs" by (meson split_list)
    with pq have "wo_log w = us @ GuardSet b # vs @ GuardSet a # q" by simp
    then show ?thesis by (metis insert_commute)
  qed
  then obtain c d us vs ws where cd: "{c, d} = {a, b}" and l: "wo_log w = us @ GuardSet c # vs @ GuardSet d # ws" by blast
  have "input_key c = input_key d" using cd assms(4) by (metis doubleton_eq_iff)
  with ordered l obtain e where e: "e \<in> set vs" "ends e c" unfolding log_ordered_def by blast
  have "c \<in> {a, b}" using cd by blast
  moreover have "(\<exists>out ans. Ran c out \<in> set (wo_log w) \<and> after_execute out = Releasing ans)
      \<or> (\<exists>now. Expire now \<in> set (wo_log w) \<and> ci_expiresAt c \<le> now)"
  proof -
    have "e \<in> set (wo_log w)" using e(1) by (simp add: l)
    then show ?thesis using e(2) lok unfolding ends_def log_ok_def by blast
  qed
  ultimately show ?thesis using ne by blast
qed

text \<open>C2: A replayed answer is faithful: it carries the status, the two stored headers and the body of a successful
  response that the handler gave to an earlier request of the same caller with the same key and the same
  fingerprint.\<close>

theorem replay_faithful:
  assumes "idem_reachable cr rawKey w" and "aead_works cr rawKey" and "(inp, Answered (Replayed resp)) \<in> set (wo_requests w)"
  shows "\<exists>a r bytes. Ran a (Returned r) \<in> set (wo_log w) \<and> input_key a = input_key inp \<and> ci_requestHash a = ci_requestHash inp
    \<and> 200 \<le> hr_status r \<and> hr_status r < 300 \<and> readBodyLimited (hr_body r) = Some bytes
    \<and> resp = \<lparr>hr_status = hr_status r, hr_contentType = hr_contentType r, hr_location = hr_location r, hr_body = Some [bytes]\<rparr>"
proof -
  have "pc_ok (wo_log w) inp (Answered (Replayed resp))" using reachable_ok [OF assms(1,2)] assms(3) unfolding idem_ok_def by blast
  then have "faithful (wo_log w) inp resp" by simp
  then show ?thesis unfolding faithful_def by blast
qed


subsection \<open>Undisturbed requests\<close>

lemma claim_free:
  assumes "idem_reachable cr rawKey w" and "ci_attemptId inp \<notin> (ci_attemptId \<circ> fst) ` set (wo_requests w)"
    and "idem_find (wo_table w) (input_key inp) = None"
  shows "idem_reachable cr rawKey \<lparr>wo_table = wo_table w @ [processing_row inp], wo_requests = wo_requests w @ [(inp, Executing)],
    wo_log = wo_log w @ [GuardSet inp]\<rparr>"
proof -
  let ?w = "w\<lparr>wo_requests := wo_requests w @ [(inp, Admitting (Inserting MAX_ADMISSION_ATTEMPTS))]\<rparr>"
  have "idem_reachable cr rawKey ?w" by (rule further [OF assms(1) arrive [OF assms(2)]])
  moreover have "request_step cr rawKey (replicate GCM_IV_BYTES 0) [] inp NoFault (Admitting (Inserting MAX_ADMISSION_ATTEMPTS)) (wo_table ?w)
      = (Executing, wo_table w @ [processing_row inp])"
    using assms(3) by (simp add: request_step_def attempt_def insert_guard_def MAX_ADMISSION_ATTEMPTS_def on_claim_def)
  note statement [OF _ _ _ _ this, of "length (wo_requests w)"]
  then have "idem_step cr rawKey ?w (?w\<lparr>wo_table := wo_table w @ [processing_row inp], wo_requests := (wo_requests ?w)[length (wo_requests w) := (inp, Executing)],
      wo_log := wo_log w @ ghost_events inp (Admitting (Inserting MAX_ADMISSION_ATTEMPTS)) (wo_table w) (wo_table w @ [processing_row inp])\<rparr>)"
    by (simp add: GCM_IV_BYTES_def)
  ultimately have "idem_reachable cr rawKey (?w\<lparr>wo_table := wo_table w @ [processing_row inp], wo_requests := (wo_requests ?w)[length (wo_requests w) := (inp, Executing)],
      wo_log := wo_log w @ ghost_events inp (Admitting (Inserting MAX_ADMISSION_ATTEMPTS)) (wo_table w) (wo_table w @ [processing_row inp])\<rparr>)" by (rule further)
  then show ?thesis by (cases w) (simp add: ghost_events_def)
qed

lemma run_last:
  assumes "idem_reachable cr rawKey \<lparr>wo_table = t, wo_requests = reqs @ [(inp, Executing)], wo_log = hist\<rparr>"
  shows "idem_reachable cr rawKey \<lparr>wo_table = t, wo_requests = reqs @ [(inp, after_execute out)], wo_log = hist @ [Ran inp out]\<rparr>"
  using further [OF assms execute [of "length reqs" _ inp]] by simp

lemma step_last:
  assumes "idem_reachable cr rawKey \<lparr>wo_table = t, wo_requests = reqs @ [(inp, pc)], wo_log = hist\<rparr>"
    and "request_step cr rawKey (replicate GCM_IV_BYTES 0) [] inp NoFault pc t = (pc', t')"
  shows "idem_reachable cr rawKey \<lparr>wo_table = t', wo_requests = reqs @ [(inp, pc')], wo_log = hist @ ghost_events inp pc t t'\<rparr>"
proof -
  let ?w = "\<lparr>wo_table = t, wo_requests = reqs @ [(inp, pc)], wo_log = hist\<rparr>"
  have "request_step cr rawKey (replicate GCM_IV_BYTES 0) [] inp NoFault pc (wo_table ?w) = (pc', t')" using assms(2) by simp
  from further [OF assms(1) statement [OF _ _ _ _ this, of "length reqs"]] show ?thesis by (simp add: GCM_IV_BYTES_def)
qed


definition sample_key :: string where
  "sample_key = encodeBase64 (replicate 32 0)"

lemma sample_aead: "aead_works sample_crypto sample_key"
  by (auto simp: aead_works_def aead_ok_def sample_crypto_def)

lemma sample_raw_key: "parseRawKey sample_key = Some (replicate 32 0)"
  by (simp add: parseRawKey_def sample_key_def decode_encode_bytes AES_KEY_BYTES_def)

definition first_attempt :: claim_input where "first_attempt = sample_input ''h'' ''a1'' ''2026-01-01'' ''2026-01-02''"
definition second_attempt :: claim_input where "second_attempt = sample_input ''h'' ''a2'' ''2026-01-01'' ''2026-01-02''"

lemma attempts [simp]:
  "input_key second_attempt = input_key first_attempt" "first_attempt \<noteq> second_attempt"
  "ci_requestHash second_attempt = ci_requestHash first_attempt" "ci_attemptId first_attempt = ''a1''" "ci_attemptId second_attempt = ''a2''"
  by (simp_all add: first_attempt_def second_attempt_def sample_input_def input_key_def)

definition not_found :: handler_response where
  "not_found = \<lparr>hr_status = 404, hr_contentType = Some ''application/json'', hr_location = None, hr_body = Some [[123, 125]]\<rparr>"
definition created :: handler_response where
  "created = \<lparr>hr_status = 201, hr_contentType = Some ''application/json'', hr_location = None, hr_body = Some [[123, 125]]\<rparr>"

lemma after_samples: "after_execute (Returned not_found) = Releasing (Reply not_found)" "after_execute (Returned created) = Recording created"
  by (simp_all add: after_execute_def not_found_def created_def)

lemma claimed_world: "idem_reachable cr rawKey \<lparr>wo_table = [processing_row first_attempt], wo_requests = [(first_attempt, Executing)], wo_log = [GuardSet first_attempt]\<rparr>"
  using claim_free [OF empty, of first_attempt] by simp

lemma at_most_once_witness:
  "\<exists>w. idem_reachable sample_crypto sample_key w
     \<and> wo_log w = [GuardSet first_attempt, Ran first_attempt (Returned not_found), Freed first_attempt, GuardSet second_attempt, Ran second_attempt (Returned created)]
     \<and> first_attempt \<noteq> second_attempt \<and> (\<exists>c \<in> {first_attempt, second_attempt}. (\<exists>out ans. Ran c out \<in> set (wo_log w) \<and> after_execute out = Releasing ans)
      \<or> (\<exists>now. Expire now \<in> set (wo_log w) \<and> ci_expiresAt c \<le> now))"
proof -
  have "idem_reachable sample_crypto sample_key \<lparr>wo_table = [processing_row first_attempt],
      wo_requests = [] @ [(first_attempt, Releasing (Reply not_found))], wo_log = [GuardSet first_attempt] @ [Ran first_attempt (Returned not_found)]\<rparr>"
    using run_last [where reqs = "[]" and out = "Returned not_found", simplified, OF claimed_world] by (simp add: after_samples)
  from step_last [OF this, of "Answered (Reply not_found)" "[]"]
  have "idem_reachable sample_crypto sample_key \<lparr>wo_table = [], wo_requests = [(first_attempt, Answered (Reply not_found))],
      wo_log = [GuardSet first_attempt, Ran first_attempt (Returned not_found), Freed first_attempt]\<rparr>"
    by (simp add: request_step_def releaseIdempotency_def attempt_def owns_def ghost_events_def)
  from run_last [where reqs = "[(first_attempt, Answered (Reply not_found))]" and out = "Returned created", simplified,
      OF claim_free [OF this, of second_attempt, simplified]]
  obtain w where w: "idem_reachable sample_crypto sample_key w" and hist: "wo_log w = [GuardSet first_attempt]
      @ Ran first_attempt (Returned not_found) # [Freed first_attempt, GuardSet second_attempt] @ Ran second_attempt (Returned created) # []"
    by fastforce
  from at_most_once [OF w sample_aead hist] have "\<exists>c \<in> {first_attempt, second_attempt}. (\<exists>out ans. Ran c out \<in> set (wo_log w) \<and> after_execute out = Releasing ans)
      \<or> (\<exists>now. Expire now \<in> set (wo_log w) \<and> ci_expiresAt c \<le> now)" by (simp only: attempts simp_thms)
  with w hist show ?thesis by (intro exI [of _ w]) simp
qed


lemma sample_recordable: "prepare_record sample_crypto sample_key (replicate GCM_IV_BYTES 0) first_attempt created \<noteq> None"
proof -
  have "recordableContentType (Some ''application/json'')"
    by code_simp
  moreover have "utf8_ok [123, 125]" by simp
  ultimately show ?thesis
    by (simp add: prepare_record_def created_def readBodyLimited_def MAX_BODY_BYTES_def encryptIdempotencyBody_def sample_raw_key)
qed

lemma replay_faithful_witness:
  "\<exists>w resp. idem_reachable sample_crypto sample_key w \<and> (second_attempt, Answered (Replayed resp)) \<in> set (wo_requests w)
     \<and> 200 \<le> hr_status resp \<and> hr_status resp < 300"
proof -
  obtain h b where prep: "prepare_record sample_crypto sample_key (replicate GCM_IV_BYTES 0) first_attempt created = Some (h, b)"
    using sample_recordable by auto
  let ?row = "completed_row 201 h b [] (processing_row first_attempt)"
  let ?reqs = "[(first_attempt, Answered (Reply created))]"
  have "idem_reachable sample_crypto sample_key \<lparr>wo_table = [processing_row first_attempt],
      wo_requests = [] @ [(first_attempt, Recording created)], wo_log = [GuardSet first_attempt] @ [Ran first_attempt (Returned created)]\<rparr>"
    using run_last [where reqs = "[]" and out = "Returned created", simplified, OF claimed_world] by (simp add: after_samples)
  moreover have "request_step sample_crypto sample_key (replicate GCM_IV_BYTES 0) [] first_attempt NoFault (Recording created) [processing_row first_attempt]
      = (Answered (Reply created), [?row])"
  proof -
    have "hr_status created = 201" by (simp add: created_def)
    then show ?thesis by (simp add: request_step_def prep completeIdempotency_def attempt_def owns_def completed_row_def)
  qed
  ultimately have "idem_reachable sample_crypto sample_key \<lparr>wo_table = [?row], wo_requests = [] @ ?reqs,
      wo_log = ([GuardSet first_attempt] @ [Ran first_attempt (Returned created)]) @ ghost_events first_attempt (Recording created) [processing_row first_attempt] [?row]\<rparr>"
    by (rule step_last)
  then have done1: "idem_reachable sample_crypto sample_key \<lparr>wo_table = [?row], wo_requests = ?reqs,
      wo_log = [GuardSet first_attempt] @ [Ran first_attempt (Returned created)] @ ghost_events first_attempt (Recording created) [processing_row first_attempt] [?row]\<rparr>"
    by simp
  let ?w = "\<lparr>wo_table = [?row], wo_requests = ?reqs,
      wo_log = [GuardSet first_attempt] @ [Ran first_attempt (Returned created)] @ ghost_events first_attempt (Recording created) [processing_row first_attempt] [?row]\<rparr>"
  from further [OF done1 arrive [of second_attempt ?w]]
  have "idem_reachable sample_crypto sample_key \<lparr>wo_table = [?row], wo_requests = ?reqs @ [(second_attempt, Admitting (Inserting MAX_ADMISSION_ATTEMPTS))], wo_log = wo_log ?w\<rparr>"
    by simp
  from step_last [OF this, of "Admitting (Reading 2)" "[?row]"]
  have "idem_reachable sample_crypto sample_key \<lparr>wo_table = [?row], wo_requests = ?reqs @ [(second_attempt, Admitting (Reading 2))], wo_log = wo_log ?w\<rparr>"
    by (simp add: request_step_def attempt_def insert_guard_def MAX_ADMISSION_ATTEMPTS_def)
  moreover have judge: "judge second_attempt ?row = Settled (Replay \<lparr>cr_requestHash = ''h'', cr_responseStatus = 201, cr_responseHeaders = h, cr_responseBody = b,
      cr_expiresAt = ''2026-01-02''\<rparr>)"
    by (simp add: judge_def) (simp add: first_attempt_def second_attempt_def sample_input_def)
  let ?rec = "\<lparr>cr_requestHash = ''h'', cr_responseStatus = 201, cr_responseHeaders = h, cr_responseBody = b, cr_expiresAt = ''2026-01-02''\<rparr>"
  obtain resp where resp: "replay sample_crypto sample_key second_attempt ?rec = Replayed resp"
  proof -
    have bind: "binding_of second_attempt st = binding_of first_attempt st" for st
      by (simp add: binding_of_def first_attempt_def second_attempt_def sample_input_def)
    obtain bytes where env: "encryptIdempotencyBody sample_crypto (replicate GCM_IV_BYTES 0) bytes sample_key (binding_of first_attempt 201) = Some b"
      and h: "h = storedHeaders created" and ok: "utf8_ok bytes"
      using prep by (auto simp: prepare_record_def created_def split: if_splits option.splits)
    have "decryptIdempotencyBody sample_crypto b sample_key (binding_of first_attempt 201) = Some bytes"
      by (rule envelope_roundtrip [OF env]) (use sample_aead utf8_ok_bytes [OF ok] in \<open>auto simp: aead_works_def GCM_IV_BYTES_def\<close>)
    with that show thesis by (simp add: replay_def bind h replay_stored_headers)
  qed
  ultimately have "idem_reachable sample_crypto sample_key \<lparr>wo_table = [?row], wo_requests = ?reqs @ [(second_attempt, Answered (Replayed resp))], wo_log = wo_log ?w\<rparr>"
    using step_last [of _ _ "[?row]" ?reqs second_attempt "Admitting (Reading 2)" "wo_log ?w" "Answered (Replayed resp)" "[?row]"]
    by (simp add: request_step_def attempt_def judge on_claim_def)
  moreover from replay_faithful [OF this sample_aead, of second_attempt resp]
  have "200 \<le> hr_status resp \<and> hr_status resp < 300" by auto
  ultimately show ?thesis by fastforce
qed

text \<open>The statements a request still may take; running the handler counts as one.\<close>

fun request_measure :: "request_pc \<Rightarrow> nat" where
  "request_measure (Admitting cpc) = claim_measure cpc + 15"
| "request_measure Executing = 14"
| "request_measure (Releasing ans) = 13"
| "request_measure (Recording r) = 13"
| "request_measure Confirming = 12"
| "request_measure (Retaining cpc) = Suc (claim_measure cpc)"
| "request_measure (Answered ans) = 0"

text \<open>A request comes to an answer: whatever the others do, whatever its handler answers and whichever of its statements fail,
  each of its own steps brings the answer nearer, and twenty-five of them suffice.\<close>

theorem request_settles:
  "(pc = Executing \<or> request_measure pc = 0
      \<or> request_measure (fst (request_step cr rawKey iv c inp fault pc t)) < request_measure pc)
   \<and> request_measure (after_execute out) < request_measure Executing
   \<and> request_measure (Admitting (Inserting MAX_ADMISSION_ATTEMPTS)) = 25"
proof -
  have claim: "claim_measure (fst (claim_step inp cpc t)) < claim_measure cpc" if "claim_measure cpc \<noteq> 0" for cpc
    using claim_step_less [of inp cpc t "fst (claim_step inp cpc t)" "snd (claim_step inp cpc t)"] that by simp
  have "request_measure (fst (request_step cr rawKey iv c inp fault pc t)) < request_measure pc" if "pc \<noteq> Executing" "request_measure pc \<noteq> 0"
  proof (cases pc)
    case (Admitting cpc)
    show ?thesis
      using claim [of cpc] by (cases fault; cases "fst (claim_step inp cpc t)"; cases cpc)
        (auto simp: Admitting request_step_def attempt_def on_claim_def Let_def split: claim_result.split)
  next
    case (Retaining cpc)
    show ?thesis
      using claim [of cpc] by (cases fault; cases "fst (claim_step inp cpc t)"; cases cpc)
        (auto simp: Retaining request_step_def attempt_def Let_def)
  qed (use that in \<open>auto simp: request_step_def attempt_def Let_def MAX_ADMISSION_ATTEMPTS_def split: fault.split bool.split option.split prod.split\<close>)
  moreover have "request_measure (after_execute out) < request_measure Executing"
    by (auto simp: after_execute_def split: handler_outcome.split)
  ultimately show ?thesis by (cases "pc = Executing"; cases "request_measure pc = 0") (simp_all add: MAX_ADMISSION_ATTEMPTS_def)
qed

end
