(* ===== verification/FeedPaging.thy ===== *)
theory FeedPaging
  imports Base64 SqlLogic "HOL-Library.Option_ord" "HOL-Library.Product_Lexorder"
begin

section \<open>Keyset paging of release feeds\<close>

text \<open>
  \<open>packages/core-internal/src/feed-cursor.ts\<close>, \<open>collection-feed.ts\<close> and \<open>category-feed.ts\<close>, the raw
  twin of the cursor predicate in \<open>apps/api/src/utils.ts\<close>, the one of \<open>packages/queries/src/releases.ts\<close>,
  and the paging step of the category route (\<open>apps/api/src/routes/taxonomy.ts\<close>).  A snapshot of the database is the
  list of the rows of the join of releases with their active source, and with their organisation and
  product where they have one; \<open>fr_visible\<close>, \<open>fr_org_active\<close> and \<open>fr_org_public\<close> say whether the release
  and the organisation are in the views of these names.  \<open>NULL\<close> is \<^const>\<open>None\<close> and conditions are three-valued, as in SQL.
\<close>

record feed_row =
  fr_id :: string
  fr_published_at :: "string option"
  fr_fetched_at :: string
  fr_type :: string
  fr_importance :: "int option"
  fr_suppressed :: "bool option"
  fr_prerelease :: "bool option"
  fr_category :: "string option"
  fr_visible :: bool
  fr_source_id :: string
  fr_source_type :: string
  fr_source_kind :: "string option"
  fr_source_hidden :: "bool option"
  fr_org_id :: "string option"
  fr_org_slug :: "string option"
  fr_org_hidden :: "bool option"
  fr_org_deleted_at :: "string option"
  fr_org_active :: bool
  fr_org_public :: bool
  fr_product_id :: "string option"
  fr_product_kind :: "string option"

type_synonym snapshot = "feed_row list"

subsection \<open>Cursors\<close>

definition buildFeedCursor :: "feed_row \<Rightarrow> string" where
  "buildFeedCursor r = (case fr_published_at r of Some p \<Rightarrow> p | None \<Rightarrow> []) @ ''|'' @ fr_fetched_at r @ ''|'' @ fr_id r"

record feed_cursor_key =
  ck_publishedAt :: "string option"
  ck_fetchedAt :: "string option"
  ck_id :: "string option"

definition or_null :: "string \<Rightarrow> string option" where
  "or_null s = (if s = [] then None else Some s)"

definition parseFeedCursorKey :: "string option \<Rightarrow> feed_cursor_key option" where
  "parseFeedCursorKey cursorParam =
     (if text_of cursorParam = [] then None
      else (case split_on CHR ''|'' (text_of cursorParam) of
          [pub, fet, i] \<Rightarrow>
            if fet \<noteq> [] \<and> i \<noteq> [] then Some \<lparr>ck_publishedAt = or_null pub, ck_fetchedAt = Some fet, ck_id = Some i\<rparr> else None
        | [pub, i] \<Rightarrow>
            if i \<noteq> [] then Some \<lparr>ck_publishedAt = or_null pub, ck_fetchedAt = None, ck_id = Some i\<rparr> else None
        | [pub] \<Rightarrow> if pub \<noteq> [] then Some \<lparr>ck_publishedAt = Some pub, ck_fetchedAt = None, ck_id = None\<rparr> else None
        | _ \<Rightarrow> None))"

definition feedCursorSql :: "string option \<Rightarrow> feed_row \<Rightarrow> tern" where
  "feedCursorSql cursorParam r =
     (case parseFeedCursorKey cursorParam of None \<Rightarrow> Some True
      | Some key \<Rightarrow>
          (let pub = text_of (ck_publishedAt key); fet = text_of (ck_fetchedAt key); i = text_of (ck_id key);
               p = fr_published_at r; f = Some (fr_fetched_at r); d = Some (fr_id r)
           in if fet \<noteq> [] \<and> i \<noteq> [] then
                (if pub \<noteq> [] then
                   sql_or (sql_or (sql_or (is_null p) (sql_lt p pub)) (sql_and (sql_eq p pub) (sql_lt f fet)))
                     (sql_and (sql_and (sql_eq p pub) (sql_eq f fet)) (sql_lt d i))
                 else sql_and (is_null p) (sql_or (sql_lt f fet) (sql_and (sql_eq f fet) (sql_lt d i))))
              else if i \<noteq> [] then
                (if pub \<noteq> [] then sql_or (sql_or (is_null p) (sql_lt p pub)) (sql_and (sql_eq p pub) (sql_lt d i))
                 else sql_and (is_null p) (sql_lt d i))
              else sql_or (is_null p) (sql_lt p pub)))"

text \<open>The raw form: a text with positional parameters and the values bound to them, from left to right.\<close>

datatype column = Pub | Fet | Rid
datatype sql_cond = IsNull column | LtQ column | EqQ column | AndQ sql_cond sql_cond | OrQ sql_cond sql_cond | TrueQ

fun column_of :: "column \<Rightarrow> feed_row \<Rightarrow> string option" where
  "column_of Pub r = fr_published_at r"
| "column_of Fet r = Some (fr_fetched_at r)"
| "column_of Rid r = Some (fr_id r)"

fun eval_cond :: "feed_row \<Rightarrow> sql_cond \<Rightarrow> string list \<Rightarrow> tern \<times> string list" where
  "eval_cond r TrueQ bs = (Some True, bs)"
| "eval_cond r (IsNull c) bs = (is_null (column_of c r), bs)"
| "eval_cond r (LtQ c) bs = (sql_lt (column_of c r) (hd bs), tl bs)"
| "eval_cond r (EqQ c) bs = (sql_eq (column_of c r) (hd bs), tl bs)"
| "eval_cond r (AndQ a b) bs = (case eval_cond r a bs of (x, bs1) \<Rightarrow> (case eval_cond r b bs1 of (y, bs2) \<Rightarrow> (sql_and x y, bs2)))"
| "eval_cond r (OrQ a b) bs = (case eval_cond r a bs of (x, bs1) \<Rightarrow> (case eval_cond r b bs1 of (y, bs2) \<Rightarrow> (sql_or x y, bs2)))"

definition parseFeedCursor :: "string option \<Rightarrow> sql_cond \<times> string list" where
  "parseFeedCursor cursorParam =
     (case parseFeedCursorKey cursorParam of None \<Rightarrow> (TrueQ, [])
      | Some key \<Rightarrow>
          (let pub = text_of (ck_publishedAt key); fet = text_of (ck_fetchedAt key); i = text_of (ck_id key)
           in if fet \<noteq> [] \<and> i \<noteq> [] then
                (if pub \<noteq> [] then
                   (OrQ (OrQ (OrQ (IsNull Pub) (LtQ Pub)) (AndQ (EqQ Pub) (LtQ Fet))) (AndQ (AndQ (EqQ Pub) (EqQ Fet)) (LtQ Rid)),
                    [pub, pub, fet, pub, fet, i])
                 else (AndQ (IsNull Pub) (OrQ (LtQ Fet) (AndQ (EqQ Fet) (LtQ Rid))), [fet, fet, i]))
              else if i \<noteq> [] then
                (if pub \<noteq> [] then (OrQ (OrQ (IsNull Pub) (LtQ Pub)) (AndQ (EqQ Pub) (LtQ Rid)), [pub, pub, i])
                 else (AndQ (IsNull Pub) (LtQ Rid), [i]))
              else (OrQ (IsNull Pub) (LtQ Pub), [pub])))"

text \<open>The form of the shared query: absent arguments of \<open>and\<close> and \<open>or\<close> drop out.\<close>

definition opt_and :: "tern option \<Rightarrow> tern option \<Rightarrow> tern option" where
  "opt_and x y = (case x of None \<Rightarrow> y | Some a \<Rightarrow> (case y of None \<Rightarrow> x | Some b \<Rightarrow> Some (sql_and a b)))"
definition opt_or :: "tern option \<Rightarrow> tern option \<Rightarrow> tern option" where
  "opt_or x y = (case x of None \<Rightarrow> y | Some a \<Rightarrow> (case y of None \<Rightarrow> x | Some b \<Rightarrow> Some (sql_or a b)))"

definition afterFeedKey :: "feed_row \<Rightarrow> feed_cursor_key \<Rightarrow> tern option" where
  "afterFeedKey r key =
     (let pub = text_of (ck_publishedAt key); fet = text_of (ck_fetchedAt key); i = text_of (ck_id key);
          undated = Some (is_null (fr_published_at r));
          f = Some (fr_fetched_at r); d = Some (fr_id r);
          tie = (if fet \<noteq> [] \<and> i \<noteq> [] then opt_or (Some (sql_lt f fet)) (opt_and (Some (sql_eq f fet)) (Some (sql_lt d i)))
                 else if i \<noteq> [] then Some (sql_lt d i) else None)
      in if pub = [] then opt_and undated tie
         else opt_or (opt_or undated (Some (sql_lt (fr_published_at r) pub)))
                (if tie \<noteq> None then opt_and (Some (sql_eq (fr_published_at r) pub)) tie else None))"

subsection \<open>The order of a feed\<close>

definition lexc :: "int \<Rightarrow> int \<Rightarrow> int" where
  "lexc c d = (if c \<noteq> 0 then c else d)"

text \<open>\<open>ORDER BY CASE WHEN published_at IS NOT NULL THEN 0 ELSE 1 END, published_at DESC, fetched_at DESC,
  id DESC\<close>, \<open>NULL\<close> being the least value.\<close>

definition order_cmp :: "feed_row \<Rightarrow> feed_row \<Rightarrow> int" where
  "order_cmp a b =
     lexc (cmp3 (if fr_published_at a \<noteq> None then 0 else 1 :: nat) (if fr_published_at b \<noteq> None then 0 else 1))
       (lexc (cmp3 (fr_published_at b) (fr_published_at a))
         (lexc (cmp3 (fr_fetched_at b) (fr_fetched_at a)) (cmp3 (fr_id b) (fr_id a))))"

definition compareRows :: "feed_row \<Rightarrow> feed_row \<Rightarrow> int" where
  "compareRows a b =
     (let aDated = (if fr_published_at a \<noteq> None then 0 else 1 :: int); bDated = (if fr_published_at b \<noteq> None then 0 else 1)
      in if aDated \<noteq> bDated then aDated - bDated
         else if fr_published_at a \<noteq> fr_published_at b then
           (case (fr_published_at a, fr_published_at b) of
              (None, _) \<Rightarrow> 1 | (_, None) \<Rightarrow> - 1 | (Some p, Some q) \<Rightarrow> if q < p then - 1 else if p < q then 1 else 0)
         else if fr_fetched_at a \<noteq> fr_fetched_at b then
           (if fr_fetched_at b < fr_fetched_at a then - 1 else if fr_fetched_at a < fr_fetched_at b then 1 else 0)
         else if fr_id b < fr_id a then - 1 else if fr_id a < fr_id b then 1 else 0)"

definition feed_key :: "feed_row \<Rightarrow> string option \<times> string \<times> string" where
  "feed_key r = (fr_published_at r, fr_fetched_at r, fr_id r)"

definition order_by_feed :: "feed_row list \<Rightarrow> feed_row list" where
  "order_by_feed rows = sort_by order_cmp rows"

subsection \<open>The collection feed\<close>

definition ID_CHUNK_SIZE :: nat where "ID_CHUNK_SIZE = 89"

datatype member_kind = OrgMember | ProductMember

definition memberWhere :: "member_kind \<Rightarrow> string list \<Rightarrow> feed_row \<Rightarrow> tern" where
  "memberWhere kind ids r = (case kind of OrgMember \<Rightarrow> sql_in (fr_org_id r) ids | ProductMember \<Rightarrow> sql_in (fr_product_id r) ids)"

definition not_set :: "bool option \<Rightarrow> tern" where
  "not_set col = sql_or (is_null col) (map_option (\<lambda>b. \<not> b) col)"

definition prereleaseWhere :: "bool \<Rightarrow> feed_row \<Rightarrow> tern" where
  "prereleaseWhere includePrereleases r = (if includePrereleases then Some True else not_set (fr_prerelease r))"

definition sourceTypeWhere :: "string list option \<Rightarrow> feed_row \<Rightarrow> tern" where
  "sourceTypeWhere sourceTypes r =
     (case map_option oset_of sourceTypes of None \<Rightarrow> Some True
      | Some ts \<Rightarrow> if ts = [] then Some False else sql_in (Some (fr_source_type r)) ts)"

record feed_options =
  fo_includePrereleases :: bool
  fo_sourceTypes :: "string list option"
  fo_productIds :: "string list"

definition feed_filter :: "feed_options \<Rightarrow> feed_row \<Rightarrow> bool" where
  "feed_filter opts r \<longleftrightarrow> fr_visible r \<and> fr_org_active r \<and> holds (sql_and (sql_and (not_set (fr_suppressed r)) (prereleaseWhere (fo_includePrereleases opts) r))
     (sourceTypeWhere (fo_sourceTypes opts) r))"

definition runFeedChunk :: "snapshot \<Rightarrow> member_kind \<times> string list \<Rightarrow> string option \<Rightarrow> feed_options \<Rightarrow> nat \<Rightarrow> feed_row list" where
  "runFeedChunk db chunk cursor opts limit =
     take limit (order_by_feed (filter (\<lambda>r. holds (memberWhere (fst chunk) (snd chunk) r) \<and> feed_filter opts r
       \<and> holds (feedCursorSql cursor r)) db))"

text \<open>Keep the first row of each id.\<close>

definition dedupe_step :: "feed_row \<Rightarrow> string list \<times> feed_row list \<Rightarrow> string list \<times> feed_row list" where
  "dedupe_step row st = (case st of (seen, merged) \<Rightarrow>
     if fr_id row \<in> set seen then (seen, merged) else (seen @ [fr_id row], merged @ [row]))"

definition dedupe_rows :: "feed_row list \<Rightarrow> feed_row list" where
  "dedupe_rows rows = snd (fold dedupe_step rows ([], []))"

definition feed_chunks :: "string list \<Rightarrow> string list \<Rightarrow> (member_kind \<times> string list) list" where
  "feed_chunks orgIds productIds =
     map (Pair OrgMember) (slices ID_CHUNK_SIZE orgIds) @ map (Pair ProductMember) (slices ID_CHUNK_SIZE productIds)"

definition getCollectionReleasesFeed ::
  "snapshot \<Rightarrow> string list \<Rightarrow> string option \<Rightarrow> nat \<Rightarrow> feed_options \<Rightarrow> feed_row list" where
  "getCollectionReleasesFeed db orgIds cursor limit opts =
     (if orgIds = [] \<and> fo_productIds opts = [] then []
      else (case feed_chunks orgIds (fo_productIds opts) of
          [chunk] \<Rightarrow> runFeedChunk db chunk cursor opts limit
        | chunks \<Rightarrow> take limit (sort_by compareRows
            (dedupe_rows (concat (map (\<lambda>c. runFeedChunk db c cursor opts limit) chunks))))))"

subsection \<open>The category feed and the latest feed\<close>

definition orgWhere :: "string list option \<Rightarrow> feed_row \<Rightarrow> tern" where
  "orgWhere orgSlugs r =
     (case map_option oset_of orgSlugs of None \<Rightarrow> Some True
      | Some ss \<Rightarrow> if ss = [] then Some False else sql_in (fr_org_slug r) ss)"

definition getCategoryReleasesFeed ::
  "snapshot \<Rightarrow> string \<Rightarrow> string option \<Rightarrow> nat \<Rightarrow> bool \<Rightarrow> string list option \<Rightarrow> string list option \<Rightarrow> feed_row list" where
  "getCategoryReleasesFeed db category cursor limit includePrereleases sourceTypes orgSlugs =
     take limit (order_by_feed (filter (\<lambda>r. fr_visible r \<and> fr_org_public r \<and> holds (sql_eq (fr_category r) category) \<and> holds (not_set (fr_suppressed r))
       \<and> holds (prereleaseWhere includePrereleases r) \<and> holds (sourceTypeWhere sourceTypes r)
       \<and> holds (orgWhere orgSlugs r)
       \<and> holds (feedCursorSql cursor r)) db))"

record latest_query =
  lq_sourceIds :: "string list option"
  lq_orgId :: "string option"
  lq_type :: "string option"
  lq_kind :: "string option"
  lq_since :: "string option"
  lq_until :: "string option"
  lq_minImportance :: "int option"
  lq_includeCoverage :: bool
  lq_includePrereleases :: bool
  lq_notAfter :: "string option"
  lq_excludeSourceTypes :: "string list option"

text \<open>A condition that is pushed only when its argument is present and, for strings, not empty.\<close>

definition when_text :: "string option \<Rightarrow> (string \<Rightarrow> tern) \<Rightarrow> tern" where
  "when_text v cond = (if text_of v = [] then Some True else cond (text_of v))"

definition coalesce :: "'a option \<Rightarrow> 'a option \<Rightarrow> 'a option" where
  "coalesce x y = (case x of Some _ \<Rightarrow> x | None \<Rightarrow> y)"

definition latest_conds :: "latest_query \<Rightarrow> feed_row \<Rightarrow> tern list" where
  "latest_conds q r =
     [not_set (fr_source_hidden r), not_set (fr_org_hidden r), is_null (fr_org_deleted_at r), not_set (fr_suppressed r),
      (if lq_includePrereleases q then Some True else not_set (fr_prerelease r)),
      when_text (lq_notAfter q) (\<lambda>v. sql_or (sql_le (fr_published_at r) v) (is_null (fr_published_at r))),
      (case lq_sourceIds q of None \<Rightarrow> Some True | Some ids \<Rightarrow> sql_in (Some (fr_source_id r)) ids),
      when_text (lq_orgId q) (sql_eq (fr_org_id r)),
      when_text (lq_type q) (sql_eq (Some (fr_type r))),
      when_text (lq_since q) (sql_ge (fr_published_at r)),
      when_text (lq_until q) (sql_le (fr_published_at r)),
      (case lq_minImportance q of None \<Rightarrow> Some True | Some m \<Rightarrow> sql_ge (fr_importance r) m),
      when_text (lq_kind q) (sql_eq (coalesce (fr_source_kind r) (fr_product_kind r))),
      (case lq_excludeSourceTypes q of None \<Rightarrow> Some True
       | Some ts \<Rightarrow> if ts = [] then Some True else sql_not_in (Some (fr_source_type r)) ts)]"

definition latest_cmp :: "feed_row \<Rightarrow> feed_row \<Rightarrow> int" where
  "latest_cmp a b = lexc (cmp3 (fr_published_at b) (fr_published_at a))
     (lexc (cmp3 (fr_fetched_at b) (fr_fetched_at a)) (cmp3 (fr_id b) (fr_id a)))"

definition listLatestReleases :: "snapshot \<Rightarrow> latest_query \<Rightarrow> feed_cursor_key option \<Rightarrow> nat \<Rightarrow> feed_row list" where
  "listLatestReleases db q after limit =
     take limit (sort_by latest_cmp (filter (\<lambda>r. (lq_includeCoverage q \<or> fr_visible r) \<and> list_all holds (latest_conds q r)
       \<and> (case after of None \<Rightarrow> True | Some key \<Rightarrow> (case afterFeedKey r key of None \<Rightarrow> True | Some t \<Rightarrow> holds t))) db))"

text \<open>One page of a feed route: one row more than the page decides whether there is a next cursor.\<close>

definition feed_page :: "(string option \<Rightarrow> nat \<Rightarrow> feed_row list) \<Rightarrow> nat \<Rightarrow> string option \<Rightarrow> feed_row list \<times> string option" where
  "feed_page fetch limit cursor =
     (let results = fetch cursor (limit + 1);
          hasMore = limit < length results;
          pageRows = (if hasMore then take limit results else results)
      in (pageRows, if hasMore \<and> pageRows \<noteq> [] then Some (buildFeedCursor (last pageRows)) else None))"

text \<open>A client that follows \<open>nextCursor\<close>; each request sees a database of its own.\<close>

fun read_feed :: "(string option \<Rightarrow> nat \<Rightarrow> feed_row list) list \<Rightarrow> nat \<Rightarrow> string option \<Rightarrow> feed_row list \<times> bool" where
  "read_feed [] limit cursor = ([], False)"
| "read_feed (fetch # fetches) limit cursor =
     (case feed_page fetch limit cursor of
        (rows, None) \<Rightarrow> (rows, True)
      | (rows, Some c) \<Rightarrow> (case read_feed fetches limit (Some c) of (later_rows, ended) \<Rightarrow> (rows @ later_rows, ended)))"


subsection \<open>Cursors and the order\<close>

text \<open>The cursor of the tool \<open>get_latest_releases\<close> (\<open>apps/mcp/src/lib/pagination.ts\<close>), with its older
  opaque form.\<close>

definition decodeReleaseCursor :: "string \<Rightarrow> feed_cursor_key option" where
  "decodeReleaseCursor token =
     (if token = [] then None
      else if CHR ''|'' \<notin> set token then
        (case fromBase64Url token of None \<Rightarrow> None
         | Some legacy \<Rightarrow> if legacy \<noteq> [] \<and> CHR ''|'' \<in> set legacy then parseFeedCursorKey (Some legacy) else None)
      else parseFeedCursorKey (Some token))"

definition decode_cursor :: "string option \<Rightarrow> feed_cursor_key option" where
  "decode_cursor cursor = (case cursor of None \<Rightarrow> None | Some token \<Rightarrow> decodeReleaseCursor token)"

text \<open>What a cursor can carry: the separator does not occur in the fields and none of them is empty.\<close>

definition good_text :: "string \<Rightarrow> bool" where
  "good_text s \<longleftrightarrow> s \<noteq> [] \<and> CHR ''|'' \<notin> set s"

definition good_row :: "feed_row \<Rightarrow> bool" where
  "good_row r \<longleftrightarrow> good_text (fr_id r) \<and> good_text (fr_fetched_at r)
     \<and> (case fr_published_at r of None \<Rightarrow> True | Some p \<Rightarrow> good_text p)"

definition later :: "feed_row \<Rightarrow> feed_row \<Rightarrow> bool" where
  "later r x \<longleftrightarrow> feed_key x < feed_key r"

lemma parse_build:
  assumes "good_row r"
  shows "parseFeedCursorKey (Some (buildFeedCursor r)) =
    Some \<lparr>ck_publishedAt = fr_published_at r, ck_fetchedAt = Some (fr_fetched_at r), ck_id = Some (fr_id r)\<rparr>"
proof -
  have "split_on CHR ''|'' (buildFeedCursor r) =
      [case fr_published_at r of Some p \<Rightarrow> p | None \<Rightarrow> [], fr_fetched_at r, fr_id r]"
    using assms by (auto simp: buildFeedCursor_def good_row_def good_text_def split_on_append split_on_no_sep split: option.splits)
  then show ?thesis
    using assms by (auto simp: parseFeedCursorKey_def good_row_def good_text_def or_null_def buildFeedCursor_def text_of_def
        split: option.splits)
qed

lemma cursor_sql_later:
  assumes "good_row r"
  shows "holds (feedCursorSql (Some (buildFeedCursor r)) x) \<longleftrightarrow> later r x"
  using assms
  by (cases "fr_published_at r"; cases "fr_published_at x")
    (auto simp: feedCursorSql_def parse_build text_of_def later_def feed_key_def good_row_def good_text_def less_prod_def Let_def)

lemma order_cmp_key: "order_cmp a b = cmp3 (feed_key b) (feed_key a)"
  by (cases "fr_published_at a"; cases "fr_published_at b")
    (auto simp: order_cmp_def lexc_def cmp3_def feed_key_def less_prod_def)

lemma latest_cmp_key: "latest_cmp a b = cmp3 (feed_key b) (feed_key a)"
  by (auto simp: latest_cmp_def lexc_def cmp3_def feed_key_def less_prod_def)

lemma compareRows_key: "compareRows a b \<le> 0 \<longleftrightarrow> cmp3 (feed_key b) (feed_key a) \<le> 0"
  by (cases "fr_published_at a"; cases "fr_published_at b")
    (auto simp: compareRows_def feed_key_def less_eq_prod_def Let_def)

definition feed_sort :: "feed_row list \<Rightarrow> feed_row list" where
  "feed_sort = sort_by (\<lambda>a b. cmp3 (feed_key b) (feed_key a))"

lemma feed_sorts: "order_by_feed = feed_sort" "sort_by latest_cmp = feed_sort"
  by (rule ext, simp add: order_by_feed_def feed_sort_def order_cmp_key [abs_def] latest_cmp_key [abs_def])+

lemma sort_compareRows: "distinct xs \<Longrightarrow> sort_by compareRows xs = feed_sort xs"
  unfolding feed_sort_def by (rule sort_by_cong) (simp_all only: compareRows_key)

text \<open>Distinct ids make the order strict.\<close>

abbreviation descending :: "feed_row list \<Rightarrow> bool" where
  "descending xs \<equiv> sorted_wrt later xs"

lemma later_trans [trans]: "later a b \<Longrightarrow> later b c \<Longrightarrow> later a c"
  by (simp add: later_def)

lemma later_irrefl [simp]: "\<not> later a a"
  by (simp add: later_def)

lemma set_feed_sort [simp]: "set (feed_sort xs) = set xs"
  by (simp add: feed_sort_def)

lemma descending_distinct: "descending xs \<Longrightarrow> distinct xs"
  by (induction xs) auto

lemma descending_feed_sort:
  assumes "distinct (map fr_id xs)"
  shows "descending (feed_sort xs)"
proof -
  have "consistent_cmp (\<lambda>a b. cmp3 (feed_key b) (feed_key a))" by (auto simp: consistent_cmp_def)
  then have "sorted_wrt (\<lambda>a b. feed_key b \<le> feed_key a) (feed_sort xs)"
    using sorted_sort_by [of "\<lambda>a b. cmp3 (feed_key b) (feed_key a)" xs] by (simp add: feed_sort_def)
  moreover have "distinct (map fr_id (feed_sort xs))" using assms by (simp add: feed_sort_def)
  moreover have "descending ys" if "sorted_wrt (\<lambda>a b. feed_key b \<le> feed_key a) ys" "distinct (map fr_id ys)" for ys
    using that
  proof (induction ys)
    case (Cons y ys)
    have "feed_key z \<noteq> feed_key y" if "z \<in> set ys" for z
      using Cons.prems(2) that by (auto simp: feed_key_def image_iff)
    then show ?case using Cons by (auto simp: later_def less_le)
  qed simp
  ultimately show ?thesis by blast
qed

lemma descending_filter: "descending xs \<Longrightarrow> descending (filter P xs)"
  by (induction xs) auto

lemma descending_unique: "descending xs \<Longrightarrow> descending ys \<Longrightarrow> set xs = set ys \<Longrightarrow> xs = ys"
proof (induction xs arbitrary: ys)
  case (Cons x xs)
  then obtain y ys' where ys: "ys = y # ys'" by (cases ys) auto
  have "x = y"
  proof (rule ccontr)
    assume "x \<noteq> y"
    then have "x \<in> set ys'" "y \<in> set xs" using Cons.prems(3) by (auto simp: ys)
    then have "later y x" "later x y" using Cons.prems(1,2) by (auto simp: ys)
    then show False by (simp add: later_def)
  qed
  moreover have "x \<notin> set xs" "y \<notin> set ys'" using Cons.prems(1,2) by (auto simp: ys)
  ultimately have "set xs = set ys'" using Cons.prems(3) by (auto simp: ys)
  then show ?case using Cons \<open>x = y\<close> by (simp add: ys)
qed simp

lemma feed_sort_filter:
  assumes "distinct (map fr_id xs)"
  shows "feed_sort (filter P xs) = filter P (feed_sort xs)"
proof (rule descending_unique)
  show "descending (feed_sort (filter P xs))" using assms by (intro descending_feed_sort) (simp add: distinct_map_filter)
  show "descending (filter P (feed_sort xs))" using assms by (intro descending_filter descending_feed_sort)
qed auto

text \<open>The best \<open>n\<close> rows of a list survive in every sublist that holds them.\<close>

lemma take_descending:
  assumes "descending xs" and "set (take n xs) \<subseteq> P" and "P \<subseteq> set xs" and "descending ys" "set ys = P"
  shows "take n ys = take n xs"
  using assms
proof (induction n arbitrary: xs ys P)
  case (Suc n)
  show ?case
  proof (cases xs)
    case (Cons x xs')
    then have "x \<in> set ys" using Suc.prems by auto
    then obtain y ys' where ys: "ys = y # ys'" by (cases ys) auto
    have "y = x"
    proof (rule ccontr)
      assume "y \<noteq> x"
      then have "later y x" using \<open>x \<in> set ys\<close> Suc.prems(4) by (auto simp: ys)
      moreover have "y \<in> set xs'" using Suc.prems(3,5) \<open>y \<noteq> x\<close> Cons ys by auto
      then have "later x y" using Suc.prems(1) Cons by auto
      ultimately show False by (simp add: later_def)
    qed
    moreover have "x \<notin> set xs'" "x \<notin> set ys'" using Suc.prems(1,4) Cons ys \<open>y = x\<close> by auto
    ultimately have "take n ys' = take n xs'"
      using Suc.prems Cons ys by (intro Suc.IH [of xs' "P - {x}" ys']) (auto dest: in_set_takeD)
    then show ?thesis using Cons ys \<open>y = x\<close> by simp
  qed (use Suc.prems in auto)
qed simp


subsection \<open>Following cursors\<close>

text \<open>
  What the paging of a route asks of a feed query: at the head it returns the first rows of the matching ones, and
  with the cursor of a row the first of those after that row, in the order of the feed.
\<close>

locale keyset_feed =
  fixes fetch :: "snapshot \<Rightarrow> string option \<Rightarrow> nat \<Rightarrow> feed_row list"
    and matching :: "feed_row \<Rightarrow> bool"
    and wf :: "snapshot \<Rightarrow> bool"
  assumes fetch_head: "wf db \<Longrightarrow> fetch db None n = take n (feed_sort (filter matching db))"
    and fetch_after: "wf db \<Longrightarrow> good_row r \<Longrightarrow>
      fetch db (Some (buildFeedCursor r)) n = take n (filter (later r) (feed_sort (filter matching db)))"
    and wf_ids: "wf db \<Longrightarrow> distinct (map fr_id db)"
    and wf_rows: "wf db \<Longrightarrow> r \<in> set db \<Longrightarrow> good_row r"
begin

definition beyond :: "feed_row option \<Rightarrow> feed_row \<Rightarrow> bool" where
  "beyond c x \<longleftrightarrow> (case c of None \<Rightarrow> True | Some r \<Rightarrow> later r x)"

lemma beyond_simps [simp]: "beyond None = (\<lambda>_. True)" "beyond (Some r) = later r"
  by (simp_all add: beyond_def fun_eq_iff)

definition remaining :: "snapshot \<Rightarrow> feed_row option \<Rightarrow> feed_row list" where
  "remaining db c = filter (beyond c) (feed_sort (filter matching db))"

lemma remaining_props:
  assumes "wf db"
  shows "descending (remaining db c)" "set (remaining db c) = {x \<in> set db. matching x \<and> beyond c x}"
  using wf_ids [OF assms]
  by (auto simp: remaining_def distinct_map_filter intro!: descending_filter descending_feed_sort)

lemma page:
  assumes "wf db" and "pred_option good_row c"
  shows "feed_page (fetch db) limit (map_option buildFeedCursor c) =
    (take limit (remaining db c),
     if 0 < limit \<and> limit < length (remaining db c) then Some (buildFeedCursor (last (take limit (remaining db c)))) else None)"
proof -
  have "fetch db (map_option buildFeedCursor c) n = take n (remaining db c)" for n
    using fetch_head [OF assms(1)] fetch_after [OF assms(1)] assms(2) by (cases c) (auto simp: remaining_def)
  then show ?thesis by (auto simp: feed_page_def Let_def take_eq_Nil)
qed

lemma take_last:
  assumes "descending L" "take n L \<noteq> []"
  shows "x \<in> set (take n L) \<Longrightarrow> x = last (take n L) \<or> later x (last (take n L))"
    and "x \<in> set (drop n L) \<Longrightarrow> later (last (take n L)) x"
    and "x \<in> set L \<Longrightarrow> x \<in> set (take n L) \<or> x \<in> set (drop n L)"
proof -
  have split: "descending (take n L @ drop n L)" using assms(1) by simp
  then have "descending (take n L)" by (simp only: sorted_wrt_append)
  then show "x \<in> set (take n L) \<Longrightarrow> x = last (take n L) \<or> later x (last (take n L))"
    by (cases "take n L" rule: rev_cases) (auto simp: sorted_wrt_append)
  show "x \<in> set (drop n L) \<Longrightarrow> later (last (take n L)) x"
    using split last_in_set [OF assms(2)] unfolding sorted_wrt_append by blast
  show "x \<in> set L \<Longrightarrow> x \<in> set (take n L) \<or> x \<in> set (drop n L)" by (metis Un_iff append_take_drop_id set_append)
qed

lemma read_from:
  assumes "\<forall>db \<in> set dbs. wf db" and "pred_option good_row c" and "0 < limit"
    and "read_feed (map fetch dbs) limit (map_option buildFeedCursor c) = (out, ended)"
  shows "descending out \<and> (\<forall>x \<in> set out. beyond c x \<and> (\<exists>db \<in> set dbs. x \<in> set db \<and> matching x))
    \<and> (ended \<longrightarrow> (\<forall>x. (\<forall>db \<in> set dbs. x \<in> set db \<and> matching x) \<and> beyond c x \<longrightarrow> x \<in> set out))"
  using assms
proof (induction dbs arbitrary: c out ended)
  case (Cons db dbs)
  have wf: "wf db" using Cons.prems by simp
  note L = remaining_props [OF wf, of c]
  let ?L = "remaining db c"
  note pg = page [OF wf Cons.prems(2), of limit]
  show ?case
  proof (cases "limit < length ?L")
    case False
    then have "out = ?L \<and> ended" using Cons.prems(3,4) by (auto simp: pg)
    then show ?thesis using L by auto
  next
    case True
    let ?P = "take limit ?L"
    have ne: "?P \<noteq> []" using Cons.prems(3) True by auto
    then have last: "last ?P \<in> set ?L" by (meson in_set_takeD last_in_set)
    then have good: "good_row (last ?P)" using L wf_rows [OF wf] by auto
    obtain rest where rest: "read_feed (map fetch dbs) limit (map_option buildFeedCursor (Some (last ?P))) = (rest, ended)"
      and out: "out = ?P @ rest" using Cons.prems(3,4) True by (auto simp: pg split: prod.splits)
    have "pred_option good_row (Some (last ?P))" using good by simp
    moreover have "\<forall>db \<in> set dbs. wf db" using Cons.prems(1) by simp
    ultimately have IH0: "descending rest \<and> (\<forall>x \<in> set rest. beyond (Some (last ?P)) x \<and> (\<exists>db \<in> set dbs. x \<in> set db \<and> matching x))
      \<and> (ended \<longrightarrow> (\<forall>x. (\<forall>db \<in> set dbs. x \<in> set db \<and> matching x) \<and> beyond (Some (last ?P)) x \<longrightarrow> x \<in> set rest))"
      by (intro Cons.IH [OF _ _ Cons.prems(3) rest])
    have IH: "descending rest" "\<forall>x \<in> set rest. later (last ?P) x \<and> (\<exists>db \<in> set dbs. x \<in> set db \<and> matching x)"
      "ended \<longrightarrow> (\<forall>x. (\<forall>db \<in> set dbs. x \<in> set db \<and> matching x) \<and> later (last ?P) x \<longrightarrow> x \<in> set rest)"
      using IH0 [unfolded beyond_simps] by blast+
    note P = take_last [OF L(1) ne]
    have "descending ?P" using L(1) by (metis append_take_drop_id sorted_wrt_append)
    moreover have "later x y" if "x \<in> set ?P" "y \<in> set rest" for x y
      using P(1) [OF that(1)] IH(2) that(2) later_trans by blast
    ultimately have "descending out" using IH(1) by (auto simp: out sorted_wrt_append)
    moreover have "beyond c x \<and> (\<exists>d \<in> set (db # dbs). x \<in> set d \<and> matching x)" if "x \<in> set out" for x
    proof (cases "x \<in> set ?P")
      case True
      then have "x \<in> set ?L" by (rule in_set_takeD)
      then show ?thesis using L(2) by auto
    next
      case False
      then have "x \<in> set rest" using that by (simp add: out)
      moreover have "beyond c (last ?P)" using last L(2) by auto
      ultimately show ?thesis using IH(2) by (cases c) (auto intro: later_trans)
    qed
    moreover have "x \<in> set out" if "ended" "\<forall>d \<in> set (db # dbs). x \<in> set d \<and> matching x" "beyond c x" for x
    proof -
      have "x \<in> set ?L" using that L(2) by auto
      then have "x \<in> set ?P \<or> later (last ?P) x" using P(2,3) by blast
      then show ?thesis using that(1,2) IH(3) by (auto simp: out)
    qed
    ultimately show ?thesis by blast
  qed
qed simp

text \<open>One snapshot, read to the end: the pages are exactly the ordered matching rows.\<close>

lemma read_whole:
  assumes "wf db" and "pred_option good_row c" and "0 < limit" and "length (remaining db c) \<le> n * limit" "0 < n"
  shows "read_feed (replicate n (fetch db)) limit (map_option buildFeedCursor c) = (remaining db c, True)"
  using assms(2-)
proof (induction n arbitrary: c)
  case (Suc n)
  note L = remaining_props [OF assms(1), of c]
  let ?L = "remaining db c"
  let ?P = "take limit ?L"
  note pg = page [OF assms(1) Suc.prems(1), of limit]
  show ?case
  proof (cases "limit < length ?L")
    case False
    then show ?thesis using Suc.prems(2) by (simp add: pg)
  next
    case True
    then have ne: "?P \<noteq> []" using Suc.prems(2) by auto
    note P = take_last [OF L(1) ne]
    from ne have last: "last ?P \<in> set ?L" by (meson in_set_takeD last_in_set)
    then have good: "good_row (last ?P)" using L wf_rows [OF assms(1)] by auto
    have "remaining db (Some (last ?P)) = drop limit ?L"
    proof (rule descending_unique)
      show "descending (drop limit ?L)" using L(1) by (metis append_take_drop_id sorted_wrt_append)
      have "x \<notin> set ?P" if "later (last ?P) x" for x using P(1) [of x] that by (auto simp: later_def)
      moreover have "beyond c x" if "later (last ?P) x" for x
        using that last L(2) by (cases c) (auto intro: later_trans)
      moreover have "drop limit ?L = [] \<or> set (drop limit ?L) \<subseteq> set ?L" by (simp add: set_drop_subset)
      ultimately show "set (remaining db (Some (last ?P))) = set (drop limit ?L)"
        using L(2) remaining_props(2) [OF assms(1), of "Some (last ?P)"] P(2,3) by fastforce
    qed (rule remaining_props(1) [OF assms(1)])
    moreover from this have "length (remaining db (Some (last ?P))) \<le> n * limit" using Suc.prems(3) by simp
    moreover have "0 < n" using True Suc.prems(3) by (cases n) auto
    ultimately have "read_feed (replicate n (fetch db)) limit (map_option buildFeedCursor (Some (last ?P))) = (drop limit ?L, True)"
      using Suc.IH [of "Some (last ?P)"] Suc.prems(2) good by simp
    then show ?thesis using True Suc.prems(2) by (simp add: pg)
  qed
qed simp

end


subsection \<open>The feeds are keyset feeds\<close>

definition feed_wf :: "snapshot \<Rightarrow> bool" where
  "feed_wf db \<longleftrightarrow> distinct (map fr_id db) \<and> list_all good_row db"

lemma take_filter_mem: "x \<in> set (take n L) \<Longrightarrow> R x \<Longrightarrow> x \<in> set (take n (filter R L))"
proof (induction L arbitrary: n)
  case (Cons y L)
  show ?case
  proof (cases n)
    case (Suc m)
    then consider "x = y" | "x \<in> set (take m (filter R L))" using Cons by auto
    then show ?thesis
    proof cases
      case 2
      moreover have "set (take m (filter R L)) \<subseteq> set (take (Suc m) (filter R L))" by (rule set_take_subset_set_take) simp
      ultimately show ?thesis using Suc by auto
    qed (use Cons.prems Suc in simp)
  qed (use Cons in simp)
qed simp

lemma dedupe_fold:
  assumes "\<And>x y. x \<in> set (merged @ rows) \<Longrightarrow> y \<in> set (merged @ rows) \<Longrightarrow> fr_id x = fr_id y \<Longrightarrow> x = y"
    and "distinct (map fr_id merged)"
  shows "set (snd (fold dedupe_step rows (map fr_id merged, merged))) = set merged \<union> set rows
    \<and> distinct (map fr_id (snd (fold dedupe_step rows (map fr_id merged, merged))))"
  using assms
proof (induction rows arbitrary: merged)
  case (Cons row rows)
  show ?case
  proof (cases "fr_id row \<in> set (map fr_id merged)")
    case True
    then obtain m where m: "m \<in> set merged" "fr_id row = fr_id m" by auto
    then have "row = m" by (intro Cons.prems(1)) auto
    with m have row: "row \<in> set merged" by simp
    have "x = y" if "x \<in> set (merged @ rows)" "y \<in> set (merged @ rows)" "fr_id x = fr_id y" for x y
      by (rule Cons.prems(1)) (use that in auto)
    note IH = Cons.IH [OF this Cons.prems(2)]
    have "dedupe_step row (map fr_id merged, merged) = (map fr_id merged, merged)" using True by (simp add: dedupe_step_def)
    moreover have "set merged \<union> set (row # rows) = set merged \<union> set rows" using row by auto
    ultimately show ?thesis using IH by (simp only: fold_simps comp_apply)
  next
    case False
    have "x = y" if "x \<in> set ((merged @ [row]) @ rows)" "y \<in> set ((merged @ [row]) @ rows)" "fr_id x = fr_id y" for x y
      by (rule Cons.prems(1)) (use that in auto)
    moreover have "distinct (map fr_id (merged @ [row]))" using Cons.prems(2) False by simp
    ultimately have IH: "set (snd (fold dedupe_step rows (map fr_id (merged @ [row]), merged @ [row]))) = set (merged @ [row]) \<union> set rows
        \<and> distinct (map fr_id (snd (fold dedupe_step rows (map fr_id (merged @ [row]), merged @ [row]))))" by (rule Cons.IH)
    have "dedupe_step row (map fr_id merged, merged) = (map fr_id (merged @ [row]), merged @ [row])"
      using False by (simp add: dedupe_step_def)
    moreover have "set merged \<union> set (row # rows) = set (merged @ [row]) \<union> set rows" by auto
    ultimately show ?thesis using IH by (simp only: fold_simps comp_apply)
  qed
qed simp

lemma dedupe_rows_props:
  assumes "\<And>x y. x \<in> set rows \<Longrightarrow> y \<in> set rows \<Longrightarrow> fr_id x = fr_id y \<Longrightarrow> x = y"
  shows "set (dedupe_rows rows) = set rows" "distinct (map fr_id (dedupe_rows rows))"
  using dedupe_fold [of "[]" rows] assms by (auto simp: dedupe_rows_def)

definition is_member :: "string list \<Rightarrow> string list \<Rightarrow> feed_row \<Rightarrow> bool" where
  "is_member orgIds productIds r \<longleftrightarrow>
     (case fr_org_id r of Some i \<Rightarrow> i \<in> set orgIds | None \<Rightarrow> False) \<or> (case fr_product_id r of Some i \<Rightarrow> i \<in> set productIds | None \<Rightarrow> False)"

lemma member_chunks:
  "is_member orgIds productIds r \<longleftrightarrow> (\<exists>c \<in> set (feed_chunks orgIds productIds). holds (memberWhere (fst c) (snd c) r))"
proof -
  have m: "i \<in> set ids \<longleftrightarrow> (\<exists>c \<in> set (slices ID_CHUNK_SIZE ids). i \<in> set c)" for i ids
    using concat_slices [of ID_CHUNK_SIZE ids] by (metis ID_CHUNK_SIZE_def UN_iff set_concat zero_less_numeral)
  have h: "holds (sql_in col ids) \<longleftrightarrow> (\<exists>c \<in> set (slices ID_CHUNK_SIZE ids). holds (sql_in col c))" for col ids
    by (cases col) (use m [of "the col" ids] in auto)
  have "is_member orgIds productIds r \<longleftrightarrow> holds (sql_in (fr_org_id r) orgIds) \<or> holds (sql_in (fr_product_id r) productIds)"
    by (auto simp: is_member_def split: option.split)
  then show ?thesis
    using h [of "fr_org_id r" orgIds] h [of "fr_product_id r" productIds]
    by (simp add: feed_chunks_def memberWhere_def bex_Un del: holds_simps)
qed

lemma collection_feed_eq:
  assumes "feed_wf db"
  shows "getCollectionReleasesFeed db orgIds cursor n opts =
    take n (feed_sort (filter (\<lambda>r. is_member orgIds (fo_productIds opts) r \<and> feed_filter opts r \<and> holds (feedCursorSql cursor r)) db))"
    (is "_ = take n ?L")
proof -
  let ?Q = "\<lambda>r. feed_filter opts r \<and> holds (feedCursorSql cursor r)"
  let ?mem = "is_member orgIds (fo_productIds opts)"
  let ?chunks = "feed_chunks orgIds (fo_productIds opts)"
  let ?rows = "concat (map (\<lambda>c. runFeedChunk db c cursor opts n) ?chunks)"
  have ids: "distinct (map fr_id db)" using assms by (simp add: feed_wf_def)
  have run: "runFeedChunk db c cursor opts n = take n (filter (\<lambda>r. holds (memberWhere (fst c) (snd c) r)) ?L)"
    if "c \<in> set ?chunks" for c
  proof -
    have "filter (\<lambda>r. holds (memberWhere (fst c) (snd c) r)) (filter (\<lambda>r. ?mem r \<and> ?Q r) db) =
        filter (\<lambda>r. holds (memberWhere (fst c) (snd c) r) \<and> ?Q r) db"
      unfolding filter_filter using that by (intro filter_cong) (auto simp: member_chunks)
    then show ?thesis
      using feed_sort_filter [of "filter (\<lambda>r. ?mem r \<and> ?Q r) db" "\<lambda>r. holds (memberWhere (fst c) (snd c) r)"] ids
      by (simp add: runFeedChunk_def feed_sorts distinct_map_filter)
  qed
  have L: "descending ?L" "set ?L \<subseteq> set db" using ids by (auto intro!: descending_feed_sort simp: distinct_map_filter)
  consider "?chunks = []" | c where "?chunks = [c]" | c d cs where "?chunks = c # d # cs"
    by (metis neq_Nil_conv)
  then show ?thesis
  proof cases
    case 1
    then have "?L = []" by (simp add: member_chunks feed_sort_def)
    then show ?thesis using 1 by (auto simp: getCollectionReleasesFeed_def sort_by_def dedupe_rows_def)
  next
    case 2
    then have "filter (\<lambda>r. holds (memberWhere (fst c) (snd c) r)) ?L = ?L" by (auto simp: filter_id_conv member_chunks)
    then have "runFeedChunk db c cursor opts n = take n ?L" using run [of c] 2 by simp
    moreover have "\<not> (orgIds = [] \<and> fo_productIds opts = [])" using 2 by (auto simp: feed_chunks_def slices.simps)
    ultimately show ?thesis using 2 unfolding getCollectionReleasesFeed_def by (simp only: if_False list.case)
  next
    case 3
    have sub: "set ?rows \<subseteq> set ?L" by (auto simp: run dest!: in_set_takeD)
    have top: "set (take n ?L) \<subseteq> set ?rows"
    proof
      fix x assume x: "x \<in> set (take n ?L)"
      then have "?mem x" by (auto dest: in_set_takeD)
      then obtain c where "c \<in> set ?chunks" "holds (memberWhere (fst c) (snd c) x)" by (auto simp: member_chunks)
      moreover from this have "x \<in> set (runFeedChunk db c cursor opts n)" using take_filter_mem [OF x] by (simp add: run)
      ultimately show "x \<in> set ?rows" by auto
    qed
    have inj: "x = y" if "x \<in> set ?rows" "y \<in> set ?rows" "fr_id x = fr_id y" for x y
      using that sub L(2) ids by (meson distinct_map inj_onD subsetD)
    have dedupe: "set (dedupe_rows ?rows) = set ?rows" "distinct (map fr_id (dedupe_rows ?rows))"
      by (rule dedupe_rows_props, use inj in blast)+
    have "distinct (dedupe_rows ?rows)" using dedupe(2) distinct_map by blast
    then have "sort_by compareRows (dedupe_rows ?rows) = feed_sort (dedupe_rows ?rows)" by (rule sort_compareRows)
    moreover have "take n (feed_sort (dedupe_rows ?rows)) = take n ?L"
      using dedupe by (intro take_descending [OF L(1) top sub] descending_feed_sort) simp_all
    moreover have "\<not> (orgIds = [] \<and> fo_productIds opts = [])" using 3 by (auto simp: feed_chunks_def slices.simps)
    ultimately show ?thesis using 3 unfolding getCollectionReleasesFeed_def by (simp only: if_False list.case)
  qed
qed

text \<open>A query that filters by a condition and by its cursor is a keyset feed.\<close>

lemma no_cursor [simp]: "feedCursorSql None = (\<lambda>r. Some True)"
  by (simp add: fun_eq_iff feedCursorSql_def parseFeedCursorKey_def text_of_def)

lemma keyset_feedI:
  assumes "\<And>db cursor n. feed_wf db \<Longrightarrow> cursor = None \<or> (\<exists>r. cursor = Some (buildFeedCursor r)) \<Longrightarrow>
      fetch db cursor n = take n (feed_sort (filter (\<lambda>r. M r \<and> holds (feedCursorSql cursor r)) db))"
  shows "keyset_feed fetch M feed_wf"
proof
  fix db :: snapshot and n r assume wf: "feed_wf db"
  then show "fetch db None n = take n (feed_sort (filter M db))" using assms by simp
  show "distinct (map fr_id db)" using wf by (simp add: feed_wf_def)
  show "good_row r" if "r \<in> set db" using wf that by (simp add: feed_wf_def list_all_iff)
  assume "good_row r"
  then have "filter (\<lambda>x. M x \<and> holds (feedCursorSql (Some (buildFeedCursor r)) x)) db = filter (later r) (filter M db)"
    by (auto simp: cursor_sql_later conj_commute intro!: filter_cong)
  then show "fetch db (Some (buildFeedCursor r)) n = take n (filter (later r) (feed_sort (filter M db)))"
    using assms [OF wf, of "Some (buildFeedCursor r)" n] wf feed_sort_filter [of "filter M db" "later r"]
    by (auto simp: feed_wf_def distinct_map_filter)
qed

definition collection_matching :: "string list \<Rightarrow> feed_options \<Rightarrow> feed_row \<Rightarrow> bool" where
  "collection_matching orgIds opts r \<longleftrightarrow> is_member orgIds (fo_productIds opts) r \<and> feed_filter opts r"

interpretation collection: keyset_feed "\<lambda>db cursor n. getCollectionReleasesFeed db orgIds cursor n opts"
  "collection_matching orgIds opts" feed_wf for orgIds opts
  by (rule keyset_feedI) (simp add: collection_feed_eq collection_matching_def conj_assoc)

definition category_matching :: "string \<Rightarrow> bool \<Rightarrow> string list option \<Rightarrow> string list option \<Rightarrow> feed_row \<Rightarrow> bool" where
  "category_matching category includePrereleases sourceTypes orgSlugs r \<longleftrightarrow>
     fr_visible r \<and> fr_org_public r \<and> fr_category r = Some category \<and> fr_suppressed r \<noteq> Some True
   \<and> (includePrereleases \<or> fr_prerelease r \<noteq> Some True)
   \<and> (case sourceTypes of None \<Rightarrow> True | Some ts \<Rightarrow> fr_source_type r \<in> set ts)
   \<and> (case orgSlugs of None \<Rightarrow> True | Some ss \<Rightarrow> (case fr_org_slug r of None \<Rightarrow> False | Some s \<Rightarrow> s \<in> set ss))"

lemma holds_not_set [simp]: "holds (not_set col) \<longleftrightarrow> col \<noteq> Some True"
  by (cases col) (auto simp: not_set_def is_null_def)

lemma oset_of_Nil [simp]: "oset_of xs = [] \<longleftrightarrow> xs = []"
  by (metis empty_iff list.set(1) list.set_intros(1) neq_Nil_conv set_oset_of)

lemma holds_filters [simp]:
  "holds (prereleaseWhere p r) \<longleftrightarrow> p \<or> fr_prerelease r \<noteq> Some True"
  "holds (sourceTypeWhere ts r) \<longleftrightarrow> (case ts of None \<Rightarrow> True | Some ts \<Rightarrow> fr_source_type r \<in> set ts)"
  "holds (orgWhere ss r) \<longleftrightarrow> (case ss of None \<Rightarrow> True | Some ss \<Rightarrow> (case fr_org_slug r of None \<Rightarrow> False | Some s \<Rightarrow> s \<in> set ss))"
  by (auto simp: prereleaseWhere_def sourceTypeWhere_def orgWhere_def split: option.split)

interpretation category: keyset_feed "\<lambda>db cursor n. getCategoryReleasesFeed db category cursor n includePrereleases sourceTypes orgSlugs"
  "category_matching category includePrereleases sourceTypes orgSlugs" feed_wf for category includePrereleases sourceTypes orgSlugs
  by (rule keyset_feedI)
    (simp add: getCategoryReleasesFeed_def feed_sorts category_matching_def conj_assoc)

definition latest_matching :: "latest_query \<Rightarrow> feed_row \<Rightarrow> bool" where
  "latest_matching q r \<longleftrightarrow> (lq_includeCoverage q \<or> fr_visible r) \<and> list_all holds (latest_conds q r)"

text \<open>The three forms of the cursor condition have the same value, for every cursor a client may send.\<close>

lemma raw_cursor: "eval_cond r (fst (parseFeedCursor c)) (snd (parseFeedCursor c)) = (feedCursorSql c r, [])"
  by (auto simp: parseFeedCursor_def feedCursorSql_def Let_def split: option.split)

lemma key_shape:
  "parseFeedCursorKey c = Some key \<Longrightarrow>
     (text_of (ck_id key) = [] \<longrightarrow> text_of (ck_fetchedAt key) = [] \<and> text_of (ck_publishedAt key) \<noteq> [])"
  by (auto simp: parseFeedCursorKey_def or_null_def text_of_def split: if_splits list.splits)

lemma after_key_cursor:
  assumes "parseFeedCursorKey c = Some key"
  shows "\<exists>t. afterFeedKey r key = Some t \<and> (holds t \<longleftrightarrow> holds (feedCursorSql c r))"
  using key_shape [OF assms] assms
  by (auto simp: afterFeedKey_def feedCursorSql_def opt_and_def opt_or_def Let_def)

lemma decode_built:
  assumes "cursor = None \<or> (\<exists>r. cursor = Some (buildFeedCursor r))"
  shows "decode_cursor cursor = parseFeedCursorKey cursor"
proof (cases cursor)
  case None
  then show ?thesis by (simp add: decode_cursor_def parseFeedCursorKey_def)
next
  case (Some c)
  with assms have "CHR ''|'' \<in> set c" "c \<noteq> []" by (auto simp: buildFeedCursor_def)
  then show ?thesis by (simp add: Some decode_cursor_def decodeReleaseCursor_def)
qed

interpretation latest: keyset_feed "\<lambda>db cursor n. listLatestReleases db q (decode_cursor cursor) n"
  "latest_matching q" feed_wf for q
proof (rule keyset_feedI)
  fix db :: snapshot and cursor n assume "cursor = None \<or> (\<exists>r. cursor = Some (buildFeedCursor r))"
  note [simp] = decode_built [OF this]
  have "(case parseFeedCursorKey cursor of None \<Rightarrow> True | Some key \<Rightarrow> (case afterFeedKey r key of None \<Rightarrow> True | Some t \<Rightarrow> holds t))
      \<longleftrightarrow> holds (feedCursorSql cursor r)" for r
  proof (cases "parseFeedCursorKey cursor")
    case None
    then show ?thesis by (simp add: feedCursorSql_def)
  next
    case (Some key)
    from after_key_cursor [OF this, of r] Some show ?thesis by auto
  qed
  then show "listLatestReleases db q (decode_cursor cursor) n =
      take n (feed_sort (filter (\<lambda>r. latest_matching q r \<and> holds (feedCursorSql cursor r)) db))"
    by (simp add: listLatestReleases_def feed_sorts latest_matching_def conj_assoc)
qed


subsection \<open>Properties\<close>

text \<open>C22: The collection feed, read page by page through its cursors, is complete and in order: with enough requests a
  client that follows \<open>nextCursor\<close> gets exactly the matching releases, each once, in the order of the feed, and
  the last page has no cursor.  The query may be split in chunks of members and merged again.\<close>

theorem collection_pages_exact:
  assumes "feed_wf db" and "0 < limit" and "0 < n" and "length (filter (collection_matching orgIds opts) db) \<le> n * limit"
  shows "read_feed (replicate n (\<lambda>cursor k. getCollectionReleasesFeed db orgIds cursor k opts)) limit None =
      (feed_sort (filter (collection_matching orgIds opts) db), True)"
  using collection.read_whole [of db None limit orgIds opts n] assms
  by (simp add: collection.remaining_def feed_sort_def)

definition sample_row :: "string \<Rightarrow> string option \<Rightarrow> string \<Rightarrow> feed_row" where
  "sample_row i p org = \<lparr>fr_id = i, fr_published_at = p, fr_fetched_at = ''2026-01-03'', fr_type = ''feature'', fr_importance = None,
     fr_suppressed = None, fr_prerelease = None, fr_category = Some ''ai'', fr_visible = True, fr_source_id = ''src_1'',
     fr_source_type = ''github'', fr_source_kind = None, fr_source_hidden = None, fr_org_id = Some org, fr_org_slug = Some org,
     fr_org_hidden = None, fr_org_deleted_at = None, fr_org_active = True, fr_org_public = True, fr_product_id = None,
     fr_product_kind = None\<rparr>"

definition sample_snapshot :: snapshot where
  "sample_snapshot = [sample_row ''rel_a'' None ''org_x'', sample_row ''rel_b'' (Some ''2026-01-02'') ''org_x'',
     sample_row ''rel_c'' (Some ''2026-01-02'') ''org_x'', sample_row ''rel_d'' (Some ''2025-12-30'') ''org_y'']"

lemma sample_wf [simp]: "feed_wf sample_snapshot"
  by (simp add: sample_snapshot_def sample_row_def feed_wf_def good_row_def good_text_def)

definition sample_options :: feed_options where
  "sample_options = \<lparr>fo_includePrereleases = False, fo_sourceTypes = None, fo_productIds = []\<rparr>"

lemma collection_pages_exact_witness:
  "map fr_id (fst (read_feed (replicate 2 (\<lambda>cursor k. getCollectionReleasesFeed sample_snapshot [''org_x''] cursor k sample_options)) 2 None))
     = [''rel_c'', ''rel_b'', ''rel_a'']"
proof -
  have m: "filter (collection_matching [''org_x''] sample_options) sample_snapshot =
      [sample_row ''rel_a'' None ''org_x'', sample_row ''rel_b'' (Some ''2026-01-02'') ''org_x'', sample_row ''rel_c'' (Some ''2026-01-02'') ''org_x'']"
    by (simp add: sample_snapshot_def sample_row_def collection_matching_def is_member_def feed_filter_def sample_options_def)
  have "map fr_id (feed_sort [sample_row ''rel_a'' None ''org_x'', sample_row ''rel_b'' (Some ''2026-01-02'') ''org_x'',
      sample_row ''rel_c'' (Some ''2026-01-02'') ''org_x'']) = [''rel_c'', ''rel_b'', ''rel_a'']"
    by (simp add: sample_row_def feed_sort_def sort_by_def feed_key_def cmp3_def less_prod_def)
  with collection_pages_exact [OF sample_wf, of 2 2 "[''org_x'']" sample_options] show ?thesis by (simp add: m)
qed

text \<open>C23: Paging the feed of the latest releases is stable under concurrent writes: whatever well-formed databases
  the successive requests see, the rows a client gets are matching rows of some of them, strictly descending in the
  order of the feed, so that no unchanged release comes twice; and when the client reaches the end it has been given every
  release that was there, and matched, all along.\<close>

theorem latest_pages_stable:
  assumes "list_all feed_wf dbs" and "0 < limit"
    and "read_feed (map (\<lambda>db cursor k. listLatestReleases db q (decode_cursor cursor) k) dbs) limit None = (out, ended)"
  shows "sorted_wrt later out \<and> (\<forall>x \<in> set out. \<exists>db \<in> set dbs. x \<in> set db \<and> latest_matching q x)
    \<and> (ended \<longrightarrow> (\<forall>x. (\<forall>db \<in> set dbs. x \<in> set db \<and> latest_matching q x) \<longrightarrow> x \<in> set out))"
  using latest.read_from [of dbs None limit q out ended] assms by (simp add: list_all_iff)

definition sample_query :: latest_query where
  "sample_query = \<lparr>lq_sourceIds = None, lq_orgId = None, lq_type = None, lq_kind = None, lq_since = None, lq_until = None,
     lq_minImportance = None, lq_includeCoverage = False, lq_includePrereleases = False, lq_notAfter = Some ''2026-02'',
     lq_excludeSourceTypes = None\<rparr>"

lemma latest_pages_stable_witness:
  "\<exists>out ended. read_feed (map (\<lambda>db cursor k. listLatestReleases db sample_query (decode_cursor cursor) k)
       [sample_snapshot, sample_row ''rel_e'' (Some ''2026-01-09'') ''org_x'' # tl sample_snapshot]) 2 None = (out, ended)
     \<and> sorted_wrt later out \<and> (\<forall>x \<in> set out. x \<in> set sample_snapshot \<or> x = sample_row ''rel_e'' (Some ''2026-01-09'') ''org_x'')"
proof -
  let ?dbs = "[sample_snapshot, sample_row ''rel_e'' (Some ''2026-01-09'') ''org_x'' # tl sample_snapshot]"
  have wf: "list_all feed_wf ?dbs"
    by (simp add: sample_snapshot_def sample_row_def feed_wf_def good_row_def good_text_def)
  obtain out ended where r: "read_feed (map (\<lambda>db cursor k. listLatestReleases db sample_query (decode_cursor cursor) k) ?dbs) 2 None = (out, ended)"
    by fastforce
  have sub: "set (tl sample_snapshot) \<subseteq> set sample_snapshot" by (simp add: sample_snapshot_def)
  from latest_pages_stable [OF wf _ r] have out: "sorted_wrt later out"
    and src: "\<forall>x \<in> set out. \<exists>db \<in> set ?dbs. x \<in> set db" by simp_all
  from src sub have "\<forall>x \<in> set out. x \<in> set sample_snapshot \<or> x = sample_row ''rel_e'' (Some ''2026-01-09'') ''org_x''" by auto
  with r out show ?thesis by blast
qed

text \<open>The three implementations of the cursor condition agree: the raw text of the API, run with its positional
  values, is the condition of the feeds and uses up exactly its values, and the condition of the shared query selects the same
  rows.\<close>

theorem cursor_predicates_agree:
  "eval_cond r (fst (parseFeedCursor c)) (snd (parseFeedCursor c)) = (feedCursorSql c r, [])
   \<and> (case parseFeedCursorKey c of None \<Rightarrow> feedCursorSql c r = Some True
      | Some key \<Rightarrow> map_option holds (afterFeedKey r key) = Some (holds (feedCursorSql c r)))"
proof (cases "parseFeedCursorKey c")
  case None
  then show ?thesis by (simp add: raw_cursor feedCursorSql_def)
next
  case (Some key)
  from after_key_cursor [OF this, of r] Some show ?thesis by (auto simp: raw_cursor)
qed

text \<open>The values one statement of the collection feed binds: the members, the deduplicated source types, the values of
  the cursor and the limit.\<close>

definition chunk_binds :: "member_kind \<times> string list \<Rightarrow> string option \<Rightarrow> feed_options \<Rightarrow> nat" where
  "chunk_binds chunk cursor opts =
     length (snd chunk) + (case fo_sourceTypes opts of None \<Rightarrow> 0 | Some ts \<Rightarrow> length (oset_of ts))
       + length (snd (parseFeedCursor cursor)) + 1"

lemma cursor_binds: "length (snd (parseFeedCursor c)) \<le> 6"
  by (auto simp: parseFeedCursor_def Let_def split: option.split)

lemma chunk_sizes:
  assumes "c \<in> set (feed_chunks orgIds productIds)"
  shows "0 < length (snd c)" "length (snd c) \<le> ID_CHUNK_SIZE"
  using assms by (auto simp: feed_chunks_def ID_CHUNK_SIZE_def dest: slices_length)

text \<open>No statement of the collection feed binds more than the hundred values D1 allows, however many members the
  collection has and however often a source type is repeated, as long as the types are among the four known ones; and
  every member is in exactly the chunks of its kind, in order.\<close>

theorem collection_binds:
  assumes "set (case fo_sourceTypes opts of None \<Rightarrow> [] | Some ts \<Rightarrow> ts) \<subseteq> {''github'', ''scrape'', ''feed'', ''agent''}"
    and "chunk \<in> set (feed_chunks orgIds (fo_productIds opts))"
  shows "chunk_binds chunk cursor opts \<le> 100"
proof -
  have "card {''github'', ''scrape'', ''feed'', ''agent''} = 4" by simp
  then have "length (oset_of ts) \<le> 4" if "fo_sourceTypes opts = Some ts" for ts
    using assms(1) that card_mono [of "{''github'', ''scrape'', ''feed'', ''agent''}" "set ts"]
    by (simp flip: distinct_card)
  then show ?thesis
    using chunk_sizes(2) [OF assms(2)] cursor_binds [of cursor]
    by (auto simp: chunk_binds_def ID_CHUNK_SIZE_def split: option.splits)
qed

lemma collection_binds_witness:
  "chunk_binds (OrgMember, replicate 89 ''org_x'') (Some ''2026-01-02|2026-01-03|rel_b'')
     \<lparr>fo_includePrereleases = False, fo_sourceTypes = Some [''feed'', ''feed''], fo_productIds = []\<rparr> \<le> 100"
  by (rule collection_binds [of _ _ "replicate 89 ''org_x''"]) (simp_all add: feed_chunks_def ID_CHUNK_SIZE_def slices.simps)

text \<open>A cursor carries the position of its row and nothing else: read back it is the key of the row, and its
  condition selects exactly the rows after it in the order the feeds are sorted by.\<close>

theorem cursor_position:
  assumes "good_row r"
  shows "parseFeedCursorKey (Some (buildFeedCursor r)) =
      Some \<lparr>ck_publishedAt = fr_published_at r, ck_fetchedAt = Some (fr_fetched_at r), ck_id = Some (fr_id r)\<rparr>
    \<and> (holds (feedCursorSql (Some (buildFeedCursor r)) x) \<longleftrightarrow> order_cmp r x < 0)
    \<and> (holds (feedCursorSql (Some (buildFeedCursor r)) x) \<longleftrightarrow> compareRows r x < 0)"
proof -
  have "order_cmp r x < 0 \<longleftrightarrow> later r x" by (auto simp: order_cmp_key later_def cmp3_def)
  moreover have "compareRows r x < 0 \<longleftrightarrow> later r x"
    using compareRows_key [of x r]
    by (cases "fr_published_at r"; cases "fr_published_at x")
      (auto simp: compareRows_def later_def feed_key_def less_prod_def Let_def)
  ultimately show ?thesis by (simp add: parse_build [OF assms] cursor_sql_later [OF assms])
qed

lemma cursor_position_witness:
  "holds (feedCursorSql (Some (buildFeedCursor (sample_row ''rel_b'' (Some ''2026-01-02'') ''org_x''))) (sample_row ''rel_a'' None ''org_x''))"
  using cursor_position [of "sample_row ''rel_b'' (Some ''2026-01-02'') ''org_x''" "sample_row ''rel_a'' None ''org_x''"]
  by (simp add: good_row_def good_text_def sample_row_def order_cmp_def cmp3_def lexc_def)


text \<open>The number of positional parameters of a condition.\<close>

fun parameters :: "sql_cond \<Rightarrow> nat" where
  "parameters TrueQ = 0"
| "parameters (IsNull c) = 0"
| "parameters (LtQ c) = 1"
| "parameters (EqQ c) = 1"
| "parameters (AndQ a b) = parameters a + parameters b"
| "parameters (OrQ a b) = parameters a + parameters b"

text \<open>C40: The raw condition comes with one value for each of its parameters, and every value is a text that is there and not
  empty: the date the last branch asserts to be present always is.\<close>

theorem cursor_values_present:
  "length (snd (parseFeedCursor c)) = parameters (fst (parseFeedCursor c)) \<and> [] \<notin> set (snd (parseFeedCursor c))"
proof (cases "parseFeedCursorKey c")
  case (Some key)
  from key_shape [OF this] Some show ?thesis by (auto simp: parseFeedCursor_def Let_def)
qed (simp add: parseFeedCursor_def)

end
