(* ===== verification/FetchPlan.thy ===== *)
theory FetchPlan
  imports Instants
begin

section \<open>How and how often a source is fetched\<close>

text \<open>
  \<open>packages/adapters/src/fetch-plan.ts\<close> and the predicates of \<open>source-meta.ts\<close> it rests on, over the row of the
  table \<open>sources\<close> (\<open>packages/core/src/schema.ts\<close>).  Nullable columns are options, instants are their texts, and
  the JSON text of \<open>metadata\<close> is given by the value it stands for, or as a broken text.  Reading a
  property of \<open>null\<close> raises \<open>TypeError\<close>.
\<close>

subsection \<open>JSON values and the source row\<close>

datatype jvalue = VNull | VBool bool | VNum rat | VStr string | VArr "jvalue list" | VObj "(string \<times> jvalue) list"

datatype meta_col = MetaNull | MetaBroken string | MetaText jvalue

datatype source_type = Github | Scrape | Feed | Agent | Appstore | Video
datatype priority = Normal | Low | Paused

record source =
  s_id :: string
  s_type :: source_type
  s_org_id :: string
  s_metadata :: meta_col
  s_created_at :: string
  s_last_fetched_at :: "string option"
  s_fetch_priority :: "priority option"
  s_no_change :: "int option"
  s_errors :: "int option"
  s_unproductive :: "int option"
  s_next_fetch_after :: "string option"
  s_change_detected_at :: "string option"
  s_last_drain_at :: "string option"
  s_last_polled_at :: "string option"
  s_actor_managed :: "bool option"
  s_actor_next_alarm_at :: "string option"
  s_actor_last_alarm_at :: "string option"
  s_is_hidden :: "bool option"
  s_deleted_at :: "string option"

datatype js_fault = TypeError | RangeFault | DbFault

text \<open>\<open>v.key\<close> of a value that is not \<open>null\<close>, and \<open>v?.key\<close> of one that may be absent or \<open>null\<close>.\<close>

fun js_prop :: "jvalue \<Rightarrow> string \<Rightarrow> jvalue option" where
  "js_prop (VObj kvs) k = map_of kvs k"
| "js_prop _ k = None"

definition js_chain :: "jvalue option \<Rightarrow> string \<Rightarrow> jvalue option" where
  "js_chain v k = (case v of None \<Rightarrow> None | Some x \<Rightarrow> js_prop x k)"

text \<open>\<open>a ?? b\<close>.\<close>

definition js_coalesce :: "jvalue option \<Rightarrow> jvalue \<Rightarrow> jvalue" where
  "js_coalesce a b = (case a of None \<Rightarrow> b | Some VNull \<Rightarrow> b | Some v \<Rightarrow> v)"

fun js_truthy :: "jvalue option \<Rightarrow> bool" where
  "js_truthy None = False"
| "js_truthy (Some VNull) = False"
| "js_truthy (Some (VBool b)) = b"
| "js_truthy (Some (VNum n)) = (n \<noteq> 0)"
| "js_truthy (Some (VStr s)) = (s \<noteq> [])"
| "js_truthy _ = True"

subsection \<open>\<open>source-meta.ts\<close>\<close>

definition getSourceMeta :: "source \<Rightarrow> jvalue" where
  "getSourceMeta src = (case s_metadata src of MetaNull \<Rightarrow> VObj [] | MetaBroken _ \<Rightarrow> VObj [] | MetaText v \<Rightarrow> v)"

definition isGitHubFetched :: "source \<Rightarrow> jvalue \<Rightarrow> bool" where
  "isGitHubFetched src meta \<longleftrightarrow>
     s_type src = Github \<or> (case js_prop meta ''githubUrl'' of Some (VStr u) \<Rightarrow> 0 < length u | _ \<Rightarrow> False)"

definition isPushFed :: "jvalue \<Rightarrow> bool" where
  "isPushFed meta \<longleftrightarrow> js_prop meta ''ingestMode'' = Some (VStr ''push'')"

definition isAppStoreFetched :: "source \<Rightarrow> bool" where
  "isAppStoreFetched src \<longleftrightarrow> s_type src = Appstore"

definition isVideoFetched :: "source \<Rightarrow> bool" where
  "isVideoFetched src \<longleftrightarrow> s_type src = Video"

subsection \<open>The plan\<close>

datatype tier = TNormal | TLow

fun TIER_INTERVALS :: "tier \<Rightarrow> int" where
  "TIER_INTERVALS TNormal = 4"
| "TIER_INTERVALS TLow = 24"

definition FIRECRAWL_DEFAULT_SCHEDULE :: string where
  "FIRECRAWL_DEFAULT_SCHEDULE = ''every 6 hours''"

datatype strategy = SGithub | SFeed | SAppstore | SVideo | SCrawl | SScrape | SAgent | SFirecrawl | SPush
datatype cadence = Poll | FirecrawlWebhook | Push
datatype paused_by = BySource | ByOrg

text \<open>
  The label of the interval: \<open>every n hours\<close>, a schedule of Firecrawl (any JSON value the metadata holds),
  \<open>on publish\<close>, \<open>paused\<close>, \<open>org paused\<close>, or the dash of a source without a tier.
\<close>

datatype interval_label = EveryHours int | Schedule jvalue | OnPublish | LabelPaused | LabelOrgPaused | Dash

record fetch_plan =
  p_strategy :: strategy
  p_label :: string
  p_interval_hours :: "int option"
  p_interval_label :: interval_label
  p_cadence :: cadence
  p_paused :: bool
  p_paused_by :: "paused_by option"
  p_firecrawl_schedule :: "jvalue option"

definition resolveStrategy :: "source \<Rightarrow> jvalue \<Rightarrow> strategy" where
  "resolveStrategy src meta =
     (if isGitHubFetched src meta then SGithub
      else if isAppStoreFetched src then SAppstore
      else if isVideoFetched src then SVideo
      else if js_truthy (js_prop meta ''feedUrl'') then SFeed
      else if js_truthy (js_prop meta ''crawlEnabled'') then SCrawl
      else if s_type src = Agent then SAgent
      else SScrape)"

definition feed_label :: "jvalue \<Rightarrow> string" where
  "feed_label meta =
     (let t = js_coalesce (js_prop meta ''feedType'') (VStr ''rss'') in
      if t = VStr ''rss'' then ''RSS feed''
      else if t = VStr ''atom'' then ''Atom feed''
      else if t = VStr ''jsonfeed'' then ''JSON Feed''
      else ''RSS feed'')"

fun strategyLabel :: "strategy \<Rightarrow> jvalue \<Rightarrow> string" where
  "strategyLabel SGithub meta = ''GitHub API''"
| "strategyLabel SAppstore meta = ''App Store''"
| "strategyLabel SVideo meta = ''Video feed''"
| "strategyLabel SFeed meta = feed_label meta"
| "strategyLabel SCrawl meta = ''Multi-page crawl''"
| "strategyLabel SAgent meta = ''Agent extraction''"
| "strategyLabel SFirecrawl meta = ''Firecrawl''"
| "strategyLabel SPush meta = ''Published directly''"
| "strategyLabel SScrape meta = ''Browser scrape''"

fun tierHours :: "priority option \<Rightarrow> int option" where
  "tierHours (Some Normal) = Some (TIER_INTERVALS TNormal)"
| "tierHours (Some Low) = Some (TIER_INTERVALS TLow)"
| "tierHours _ = None"

definition describeFetchPlan :: "source \<Rightarrow> bool \<Rightarrow> js_fault + fetch_plan" where
  "describeFetchPlan src orgPaused =
     (let meta = getSourceMeta src;
          paused = (s_fetch_priority src = Some Paused);
          pausedBy = (if paused then Some BySource else None)
      in if meta = VNull then Inl TypeError
         else if isPushFed meta then
           Inr \<lparr>p_strategy = SPush, p_label = ''Published directly'', p_interval_hours = None,
                p_interval_label = OnPublish, p_cadence = Push, p_paused = paused, p_paused_by = pausedBy,
                p_firecrawl_schedule = None\<rparr>
         else if js_truthy (js_chain (js_prop meta ''firecrawl'') ''enabled'') then
           (let schedule = js_coalesce (js_chain (js_prop meta ''firecrawl'') ''schedule'') (VStr FIRECRAWL_DEFAULT_SCHEDULE)
            in Inr \<lparr>p_strategy = SFirecrawl, p_label = ''Firecrawl'', p_interval_hours = None,
                    p_interval_label = Schedule schedule, p_cadence = FirecrawlWebhook, p_paused = paused,
                    p_paused_by = pausedBy, p_firecrawl_schedule = Some schedule\<rparr>)
         else
           (let strategy = resolveStrategy src meta;
                pollPausedBy = (case pausedBy of Some b \<Rightarrow> Some b | None \<Rightarrow> if orgPaused then Some ByOrg else None);
                pollPaused = (pollPausedBy \<noteq> None);
                hours = (if pollPaused then None else tierHours (s_fetch_priority src))
            in Inr \<lparr>p_strategy = strategy, p_label = strategyLabel strategy meta, p_interval_hours = hours,
                    p_interval_label =
                      (if pollPausedBy = Some ByOrg then LabelOrgPaused
                       else if pollPaused then LabelPaused
                       else (case hours of None \<Rightarrow> Dash | Some h \<Rightarrow> EveryHours h)),
                    p_cadence = Poll, p_paused = pollPaused, p_paused_by = pollPausedBy,
                    p_firecrawl_schedule = None\<rparr>))"

subsection \<open>When it is next due\<close>

abbreviation msPerHour :: int where "msPerHour \<equiv> 3600000"

text \<open>\<open>t ? Date.parse(t) : NaN\<close> of a nullable column; \<^const>\<open>None\<close> is \<open>NaN\<close>.\<close>

definition parse_col :: "(string \<Rightarrow> int option) \<Rightarrow> string option \<Rightarrow> int option" where
  "parse_col parse t = (case t of None \<Rightarrow> None | Some s \<Rightarrow> if s = [] then None else parse s)"

record fetch_state =
  f_last_polled_at :: "string option"
  f_next_due_at :: "string option"
  f_backed_off :: bool
  f_paused :: bool

definition next_due :: "(string \<Rightarrow> int option) \<Rightarrow> source \<Rightarrow> int \<Rightarrow> int \<Rightarrow> int" where
  "next_due parse src hours now =
     (let tierBase = (case parse_col parse (s_last_polled_at src) of Some t \<Rightarrow> t | None \<Rightarrow> now);
          tierDue = tierBase + hours * msPerHour
      in (case parse_col parse (s_next_fetch_after src) of
            Some b \<Rightarrow> if tierDue < b then b else tierDue
          | None \<Rightarrow> tierDue))"

definition computeFetchState :: "(string \<Rightarrow> int option) \<Rightarrow> source \<Rightarrow> fetch_plan \<Rightarrow> int \<Rightarrow> js_fault + fetch_state" where
  "computeFetchState parse src plan now =
     (let lastPolledAt = s_last_polled_at src;
          idle = Inr \<lparr>f_last_polled_at = lastPolledAt, f_next_due_at = None, f_backed_off = False, f_paused = p_paused plan\<rparr>
      in if p_paused plan \<or> p_cadence plan = FirecrawlWebhook \<or> p_cadence plan = Push then idle
         else (case p_interval_hours plan of None \<Rightarrow> idle
           | Some hours \<Rightarrow>
               (let tierBase = (case parse_col parse lastPolledAt of Some t \<Rightarrow> t | None \<Rightarrow> now);
                    tierDue = tierBase + hours * msPerHour;
                    backoff = parse_col parse (s_next_fetch_after src);
                    backedOff = (case backoff of Some b \<Rightarrow> tierDue < b | None \<Rightarrow> False);
                    nextDue = (if backedOff then the backoff else tierDue)
                in (case toISOString (timeClip nextDue) of Inl _ \<Rightarrow> Inl RangeFault
                    | Inr s \<Rightarrow> Inr \<lparr>f_last_polled_at = lastPolledAt, f_next_due_at = Some s,
                                    f_backed_off = backedOff, f_paused = False\<rparr>))))"

subsection \<open>The health of the managed sweep\<close>

definition SWEEP_STARVED_THRESHOLD_HOURS :: int where
  "SWEEP_STARVED_THRESHOLD_HOURS = 48"

record sweep_health =
  w_sweep_driven :: bool
  w_flagged_at :: "string option"
  w_last_fetched_at :: "string option"
  w_stale_hours :: "rat option"
  w_starved :: bool

definition computeSweepHealth :: "(string \<Rightarrow> int option) \<Rightarrow> source \<Rightarrow> fetch_plan \<Rightarrow> int \<Rightarrow> sweep_health" where
  "computeSweepHealth parse src plan now =
     (let sweepDriven = (\<not> p_paused plan \<and> (p_strategy plan = SScrape \<or> p_strategy plan = SAgent));
          flaggedAt = s_change_detected_at src;
          lastFetchedAt = s_last_fetched_at src;
          clock = (case lastFetchedAt of Some t \<Rightarrow> t | None \<Rightarrow> s_created_at src);
          staleHours = map_option (\<lambda>ms. of_int (now - ms) / of_int msPerHour) (parse_col parse (Some clock));
          starved = (sweepDriven \<and> flaggedAt \<noteq> None \<and>
            (case staleHours of None \<Rightarrow> False | Some h \<Rightarrow> of_int SWEEP_STARVED_THRESHOLD_HOURS < h))
      in \<lparr>w_sweep_driven = sweepDriven, w_flagged_at = flaggedAt, w_last_fetched_at = lastFetchedAt,
          w_stale_hours = staleHours, w_starved = starved\<rparr>)"

subsection \<open>What the plan says\<close>

lemma plan_paused_no_hours:
  "describeFetchPlan src org = Inr plan \<Longrightarrow> p_paused plan \<Longrightarrow> p_interval_hours plan = None"
  by (auto simp: describeFetchPlan_def Let_def split: if_splits)

lemma plan_hours:
  "describeFetchPlan src org = Inr plan \<Longrightarrow> p_interval_hours plan = Some h \<longleftrightarrow>
     p_cadence plan = Poll \<and> \<not> org \<and> tierHours (s_fetch_priority src) = Some h"
  by (auto simp: describeFetchPlan_def Let_def split: if_splits)

lemma tierHours_Some: "tierHours pr = Some h \<longleftrightarrow> pr = Some Normal \<and> h = 4 \<or> pr = Some Low \<and> h = 24"
  by (cases pr rule: tierHours.cases) auto

lemma plan_poll:
  "describeFetchPlan src org = Inr plan \<Longrightarrow> p_cadence plan = Poll \<longleftrightarrow>
     \<not> isPushFed (getSourceMeta src) \<and> \<not> js_truthy (js_chain (js_prop (getSourceMeta src) ''firecrawl'') ''enabled'')"
  by (auto simp: describeFetchPlan_def Let_def split: if_splits)

text \<open>The state of a polled source is the latest of its tier deadline and its backoff.\<close>

lemma computeFetchState_due:
  assumes "p_interval_hours plan = Some h" and "\<not> p_paused plan" and "p_cadence plan = Poll"
    and "instant (next_due parse src h now)"
  shows "computeFetchState parse src plan now =
     Inr \<lparr>f_last_polled_at = s_last_polled_at src, f_next_due_at = Some (iso_text (next_due parse src h now)),
          f_backed_off = (case parse_col parse (s_next_fetch_after src) of None \<Rightarrow> False
             | Some b \<Rightarrow> (case parse_col parse (s_last_polled_at src) of Some t \<Rightarrow> t | None \<Rightarrow> now) + h * msPerHour < b),
          f_paused = False\<rparr>"
  using assms instant_clip [OF assms(4)]
  by (auto simp: computeFetchState_def next_due_def Let_def toISOString_Some split: option.splits if_splits)

lemma computeFetchState_idle:
  assumes "describeFetchPlan src org = Inr plan" and "p_interval_hours plan = None"
  shows "computeFetchState parse src plan now =
    Inr \<lparr>f_last_polled_at = s_last_polled_at src, f_next_due_at = None, f_backed_off = False, f_paused = p_paused plan\<rparr>"
  using assms by (simp add: computeFetchState_def Let_def)

lemma next_due_le:
  "next_due parse src h now \<le> t \<longleftrightarrow>
     (case parse_col parse (s_last_polled_at src) of Some p \<Rightarrow> p | None \<Rightarrow> now) + h * msPerHour \<le> t \<and>
     (case parse_col parse (s_next_fetch_after src) of Some b \<Rightarrow> b \<le> t | None \<Rightarrow> True)"
  by (auto simp: next_due_def Let_def split: option.splits)

end
