(* ===== verification/FetchHealth.thy ===== *)
theory FetchHealth
  imports FetchPlan SqlLogic
begin

section \<open>The fetch health of a source\<close>

text \<open>
  \<open>apps/api/src/lib/ingest/source-fetch-health.ts\<close>, \<open>fetch-log-ingest.ts\<close>, the completion write of
  \<open>source-fetch-complete.ts\<close>, the bookkeeping of \<open>fetchOne\<close> in \<open>apps/api/src/cron/poll-fetch.ts\<close>, the failure of
  \<open>workflows/firecrawl-ingest.ts\<close> and the patch of \<open>routes/sources.ts\<close>.  The
  table is a map from the id to the row; one statement is one function on it, so an interleaving of runs
  is a sequence of statements.  \<open>now\<close> is the instant of SQLite's \<open>'now'\<close> or of \<open>Date.now()\<close>, given to each call;
  \<open>cast\<close> stands for the numeric value SQLite gives to a text.
\<close>

type_synonym sources_db = "string \<rightharpoonup> source"

definition AUTO_PAUSE_AFTER_ERRORS :: int where "AUTO_PAUSE_AFTER_ERRORS = 6"
definition UNPRODUCTIVE_DRAIN_PAUSE_AFTER :: int where "UNPRODUCTIVE_DRAIN_PAUSE_AFTER = 5"
definition FEED_4XX_INVALIDATE_THRESHOLD :: rat where "FEED_4XX_INVALIDATE_THRESHOLD = 5"

text \<open>\<open>ERROR_BACKOFF_CAP_HOURS\<close> and \<open>NO_CHANGE_BACKOFF_CAP_HOURS\<close>, the two caps the type admits.\<close>

datatype backoff_cap = ErrorCap | NoChangeCap

fun cap_hours :: "backoff_cap \<Rightarrow> rat" where
  "cap_hours ErrorCap = 72"
| "cap_hours NoChangeCap = 48"

datatype counter = ConsecutiveErrors | ConsecutiveNoChange | UnproductiveDrains

fun counter_col :: "counter \<Rightarrow> source \<Rightarrow> int option" where
  "counter_col ConsecutiveErrors r = s_errors r"
| "counter_col ConsecutiveNoChange r = s_no_change r"
| "counter_col UnproductiveDrains r = s_unproductive r"

fun set_counter :: "counter \<Rightarrow> int \<Rightarrow> source \<Rightarrow> source" where
  "set_counter ConsecutiveErrors n r = r\<lparr>s_errors := Some n\<rparr>"
| "set_counter ConsecutiveNoChange n r = r\<lparr>s_no_change := Some n\<rparr>"
| "set_counter UnproductiveDrains n r = r\<lparr>s_unproductive := Some n\<rparr>"

text \<open>\<open>COALESCE(col, 0)\<close>.\<close>

definition or_zero :: "int option \<Rightarrow> int" where
  "or_zero c = (case c of None \<Rightarrow> 0 | Some n \<Rightarrow> n)"

subsection \<open>The ladder\<close>

definition failureBackoffHours :: "int \<Rightarrow> backoff_cap \<Rightarrow> rat" where
  "failureBackoffHours n cap = min (2 powi (n - 1)) (cap_hours cap)"

text \<open>The loop over \<open>prior\<close> leaves at the first delay that reaches the cap.\<close>

definition hour_arms :: "backoff_cap \<Rightarrow> (int \<times> rat) list" where
  "hour_arms cap = takeWhile (\<lambda>(prior, hours). hours < cap_hours cap)
     (map (\<lambda>prior. (prior, failureBackoffHours (prior + 1) cap)) [0..15])"

definition hoursCase :: "int option \<Rightarrow> backoff_cap \<Rightarrow> rat" where
  "hoursCase col cap = (case map_of (hour_arms cap) (or_zero col) of Some hours \<Rightarrow> hours | None \<Rightarrow> cap_hours cap)"

text \<open>\<open>strftime('%Y-%m-%dT%H:%M:%fZ', 'now', '+' || h || ' hours')\<close>: \<open>NULL\<close> outside the years 0 to 9999.\<close>

definition strftime_after :: "int \<Rightarrow> rat \<Rightarrow> string option" where
  "strftime_after now hours =
     (let t = now + \<lfloor>hours * of_int msPerHour\<rfloor>
      in if -62167219200000 \<le> t \<and> t \<le> 253402300799999 then Some (iso_text t) else None)"

text \<open>The scalar \<open>max\<close> of texts is \<open>NULL\<close> when an argument is.\<close>

definition nextFetchAfterSql :: "int \<Rightarrow> int option \<Rightarrow> backoff_cap \<Rightarrow> string option \<Rightarrow> string option" where
  "nextFetchAfterSql now col cap floorIso =
     (let due = strftime_after now (hoursCase col cap)
      in (case floorIso of None \<Rightarrow> due | Some f \<Rightarrow> if f = [] then due else map_option (max f) due))"

definition pauseSql :: "int option \<Rightarrow> priority option \<Rightarrow> int \<Rightarrow> priority option" where
  "pauseSql col fp pauseAt =
     (if pauseAt - 1 \<le> or_zero col \<and> (case fp of None \<Rightarrow> Normal | Some p \<Rightarrow> p) \<noteq> Paused then Some Paused else fp)"

subsection \<open>One bump\<close>

record extra_set =
  x_errors :: "int option option"
  x_no_change :: "int option option"
  x_change_detected_at :: "string option option"
  x_last_fetched_at :: "string option option"
  x_metadata :: "(meta_col \<Rightarrow> meta_col) option"

definition no_extra :: extra_set where
  "no_extra = \<lparr>x_errors = None, x_no_change = None, x_change_detected_at = None, x_last_fetched_at = None, x_metadata = None\<rparr>"

record bump_opts =
  b_pause_at :: "int option"
  b_backoff_cap :: "backoff_cap option"
  b_floor :: "string option"
  b_extra :: extra_set

definition bump_defaults :: bump_opts where
  "bump_defaults = \<lparr>b_pause_at = None, b_backoff_cap = None, b_floor = None, b_extra = no_extra\<rparr>"

text \<open>\<open>Object.assign(set, extra)\<close>: a column of \<open>extra\<close> replaces the one set before.\<close>

definition assign_extra :: "extra_set \<Rightarrow> source \<Rightarrow> source \<Rightarrow> source" where
  "assign_extra x pre r = r\<lparr>
     s_errors := (case x_errors x of Some v \<Rightarrow> v | None \<Rightarrow> s_errors r),
     s_no_change := (case x_no_change x of Some v \<Rightarrow> v | None \<Rightarrow> s_no_change r),
     s_change_detected_at := (case x_change_detected_at x of Some v \<Rightarrow> v | None \<Rightarrow> s_change_detected_at r),
     s_last_fetched_at := (case x_last_fetched_at x of Some v \<Rightarrow> v | None \<Rightarrow> s_last_fetched_at r),
     s_metadata := (case x_metadata x of Some f \<Rightarrow> f (s_metadata pre) | None \<Rightarrow> s_metadata r)\<rparr>"

text \<open>Every right-hand side reads the row before the update.\<close>

definition bump_row :: "int \<Rightarrow> counter \<Rightarrow> bump_opts \<Rightarrow> source \<Rightarrow> source" where
  "bump_row now name opts pre =
     (let col = counter_col name pre;
          r1 = set_counter name (or_zero col + 1) pre;
          r2 = (case b_pause_at opts of None \<Rightarrow> r1
                | Some n \<Rightarrow> r1\<lparr>s_fetch_priority := pauseSql col (s_fetch_priority pre) n\<rparr>);
          r3 = (case b_backoff_cap opts of None \<Rightarrow> r2
                | Some cap \<Rightarrow> r2\<lparr>s_next_fetch_after := nextFetchAfterSql now col cap (b_floor opts)\<rparr>)
      in assign_extra (b_extra opts) pre r3)"

text \<open>An \<open>UPDATE ... WHERE id = ? RETURNING\<close>: the new table and the row it returns.\<close>

definition update_source :: "string \<Rightarrow> (source \<Rightarrow> source) \<Rightarrow> sources_db \<Rightarrow> sources_db \<times> source option" where
  "update_source sid f db =
     (case db sid of None \<Rightarrow> (db, None) | Some r \<Rightarrow> (db(sid \<mapsto> f r), Some (f r)))"

definition bumpSourceCounterQuery ::
  "int \<Rightarrow> string \<Rightarrow> counter \<Rightarrow> bump_opts \<Rightarrow> sources_db \<Rightarrow> sources_db \<times> source option" where
  "bumpSourceCounterQuery now sid name opts = update_source sid (bump_row now name opts)"

record counter_bump =
  cb_value :: int
  cb_fetch_priority :: "priority option"
  cb_next_fetch_after :: "string option"
  cb_did_pause :: bool

text \<open>The batch reads the priority and bumps in one transaction.\<close>

definition bumpSourceCounter ::
  "int \<Rightarrow> string \<Rightarrow> counter \<Rightarrow> bump_opts \<Rightarrow> sources_db \<Rightarrow> sources_db \<times> counter_bump option" where
  "bumpSourceCounter now sid name opts db =
     (let prior = map_option s_fetch_priority (db sid);
          (db', updated) = bumpSourceCounterQuery now sid name opts db
      in (case updated of None \<Rightarrow> (db', None)
          | Some row \<Rightarrow>
             (case counter_col name row of None \<Rightarrow> (db', None)
              | Some value \<Rightarrow>
                  (let wasPaused = (case prior of Some (Some p) \<Rightarrow> p = Paused | _ \<Rightarrow> False)
                   in (db', Some \<lparr>cb_value = value, cb_fetch_priority = s_fetch_priority row,
                        cb_next_fetch_after = s_next_fetch_after row,
                        cb_did_pause = (b_pause_at opts \<noteq> None \<and> \<not> wasPaused \<and> s_fetch_priority row = Some Paused)\<rparr>)))))"

text \<open>\<open>new Date(t).toISOString()\<close>.\<close>

definition iso_of :: "int \<Rightarrow> js_fault + string" where
  "iso_of t = (case timeClip t of None \<Rightarrow> Inl RangeFault | Some v \<Rightarrow> Inr (iso_text v))"

definition recordConsecutiveFetchError ::
  "int \<Rightarrow> int \<Rightarrow> string \<Rightarrow> int option \<Rightarrow> int option \<Rightarrow> sources_db \<Rightarrow> js_fault + sources_db \<times> counter_bump option" where
  "recordConsecutiveFetchError js_now now sid retryAfterMs pauseAt db =
     (case (case retryAfterMs of Some ms \<Rightarrow> if 0 < ms then map_sum id Some (iso_of (js_now + ms)) else Inr None
            | None \<Rightarrow> Inr None) of
        Inl e \<Rightarrow> Inl e
      | Inr floorIso \<Rightarrow> Inr (bumpSourceCounter now sid ConsecutiveErrors
          (bump_defaults\<lparr>b_pause_at := pauseAt, b_backoff_cap := Some ErrorCap, b_floor := floorIso\<rparr>) db))"

subsection \<open>Keys of the metadata\<close>

fun json_set :: "string list \<Rightarrow> jvalue \<Rightarrow> jvalue \<Rightarrow> jvalue" where
  "json_set [] v _ = v"
| "json_set (k # ks) v (VObj kvs) =
     VObj (case map_of kvs k of
       Some w \<Rightarrow> AList.update k (json_set ks v w) kvs
     | None \<Rightarrow> kvs @ [(k, json_set ks v (VObj []))])"
| "json_set (k # ks) v w = w"

fun json_get :: "jvalue \<Rightarrow> string list \<Rightarrow> jvalue option" where
  "json_get v [] = (if v = VNull then None else Some v)"
| "json_get (VObj kvs) (k # ks) = (case map_of kvs k of None \<Rightarrow> None | Some w \<Rightarrow> json_get w ks)"
| "json_get _ (k # ks) = None"

fun json_remove :: "string list \<Rightarrow> jvalue \<Rightarrow> jvalue" where
  "json_remove ks (VObj kvs) = VObj (filter (\<lambda>(k, _). k \<notin> set ks) kvs)"
| "json_remove ks v = v"

text \<open>\<open>coalesce(json_extract(m, path), 0)\<close> as a number.\<close>

definition sql_number :: "(string \<Rightarrow> rat) \<Rightarrow> jvalue option \<Rightarrow> rat" where
  "sql_number cast v = (case v of Some (VNum n) \<Rightarrow> n | Some (VBool b) \<Rightarrow> of_bool b | Some (VStr s) \<Rightarrow> cast s | _ \<Rightarrow> 0)"

definition patchMetadata :: "(jvalue \<Rightarrow> jvalue) \<Rightarrow> meta_col \<Rightarrow> meta_col" where
  "patchMetadata patch col = (case col of MetaBroken s \<Rightarrow> MetaBroken s
     | MetaNull \<Rightarrow> MetaText (patch (VObj [])) | MetaText v \<Rightarrow> MetaText (patch v))"

text \<open>A text or a list is not equal to a number, whatever it reads as; only an absent or \<open>null\<close> value is 0.\<close>

definition metadataEquals :: "string list \<Rightarrow> rat \<Rightarrow> meta_col \<Rightarrow> bool" where
  "metadataEquals path value col = (case col of MetaText v \<Rightarrow>
     (case json_get v path of None \<Rightarrow> value = 0 | Some (VNum n) \<Rightarrow> n = value
      | Some (VBool b) \<Rightarrow> of_bool b = value | Some _ \<Rightarrow> False)
   | _ \<Rightarrow> False)"

definition CLEARED_FEED_PATHS :: "string list" where
  "CLEARED_FEED_PATHS = [''feedUrl'', ''feedType'', ''feedDiscoveredAt'', ''feedEtag'', ''feedLastModified'',
     ''feedContentLength'', ''feed4xxStreak'']"

definition metadataNumber :: "meta_col \<Rightarrow> string \<Rightarrow> rat" where
  "metadataNumber col key = (case col of MetaText v \<Rightarrow> (case js_prop v key of Some (VNum n) \<Rightarrow> n | _ \<Rightarrow> 0) | _ \<Rightarrow> 0)"

definition feed4xx_bump :: "(string \<Rightarrow> rat) \<Rightarrow> source \<Rightarrow> source" where
  "feed4xx_bump cast r = r\<lparr>s_metadata := patchMetadata
     (\<lambda>m. json_set [''feed4xxStreak''] (VNum (sql_number cast (json_get m [''feed4xxStreak'']) + 1)) m) (s_metadata r)\<rparr>"

definition feed4xx_clear :: "source \<Rightarrow> source" where
  "feed4xx_clear r = r\<lparr>s_metadata := patchMetadata
       (\<lambda>m. json_set [''noFeedFound''] (VBool False) (json_remove CLEARED_FEED_PATHS m)) (s_metadata r),
     s_errors := Some 0, s_next_fetch_after := None\<rparr>"

text \<open>The two statements of \<open>recordFeed4xx\<close>; other statements may run between them.\<close>

definition recordFeed4xx_bump :: "(string \<Rightarrow> rat) \<Rightarrow> string \<Rightarrow> sources_db \<Rightarrow> sources_db \<times> rat option" where
  "recordFeed4xx_bump cast sid db =
     (case update_source sid (feed4xx_bump cast) db of
        (db', None) \<Rightarrow> (db', None)
      | (db', Some row) \<Rightarrow> (db', Some (metadataNumber (s_metadata row) ''feed4xxStreak'')))"

definition recordFeed4xx_clear :: "string \<Rightarrow> rat \<Rightarrow> rat \<Rightarrow> sources_db \<Rightarrow> sources_db \<times> rat \<times> bool" where
  "recordFeed4xx_clear sid invalidateAt streak db =
     (if streak < invalidateAt then (db, streak, False)
      else (case db sid of
          Some r \<Rightarrow> if metadataEquals [''feed4xxStreak''] streak (s_metadata r)
                    then (db(sid \<mapsto> feed4xx_clear r), streak, True) else (db, streak, False)
        | None \<Rightarrow> (db, streak, False)))"

definition recordFeed4xx :: "(string \<Rightarrow> rat) \<Rightarrow> string \<Rightarrow> rat \<Rightarrow> sources_db \<Rightarrow> sources_db \<times> (rat \<times> bool) option" where
  "recordFeed4xx cast sid invalidateAt db =
     (case recordFeed4xx_bump cast sid db of
        (db', None) \<Rightarrow> (db', None)
      | (db', Some streak) \<Rightarrow> apsnd Some (recordFeed4xx_clear sid invalidateAt streak db'))"

datatype enrichment_outcome = EnrichOk rat | EnrichFailed

definition recordEnrichmentOutcome :: "(string \<Rightarrow> rat) \<Rightarrow> string \<Rightarrow> enrichment_outcome \<Rightarrow> sources_db \<Rightarrow> sources_db" where
  "recordEnrichmentOutcome cast sid outcome db =
     (case db sid of None \<Rightarrow> db
      | Some r \<Rightarrow>
          (case outcome of
             EnrichOk observed \<Rightarrow>
               if metadataEquals [''enrichment'', ''consecutiveFailures''] observed (s_metadata r)
               then db(sid \<mapsto> r\<lparr>s_metadata := patchMetadata
                      (json_set [''enrichment''] (VObj [(''consecutiveFailures'', VNum 0)])) (s_metadata r)\<rparr>)
               else db
           | EnrichFailed \<Rightarrow>
               db(sid \<mapsto> r\<lparr>s_metadata := patchMetadata
                  (\<lambda>m. json_set [''enrichment''] (VObj [(''consecutiveFailures'',
                     VNum (sql_number cast (json_get m [''enrichment'', ''consecutiveFailures'']) + 1))]) m)
                  (s_metadata r)\<rparr>)))"

definition firecrawlBookkeepingMetadata :: "string \<Rightarrow> string \<Rightarrow> meta_col \<Rightarrow> meta_col" where
  "firecrawlBookkeepingMetadata checkId changed = patchMetadata
     (\<lambda>m. json_set [''firecrawl'', ''lastChangeAt''] (VStr changed)
        (json_set [''firecrawl'', ''lastCheckId''] (VStr checkId)
          (json_set [''firecrawl'', ''enabled''] (VBool True) m)))"

subsection \<open>What a fetch writes\<close>

definition completion_row :: "string \<Rightarrow> source \<Rightarrow> source" where
  "completion_row nowIso r = r\<lparr>s_last_fetched_at := Some nowIso, s_change_detected_at := None, s_errors := Some 0,
     s_no_change := Some 0, s_next_fetch_after := None\<rparr>"

definition completeSourceFetch :: "int \<Rightarrow> string \<Rightarrow> sources_db \<Rightarrow> sources_db" where
  "completeSourceFetch now sid db = fst (update_source sid (completion_row (iso_text now)) db)"

definition recordNoChange :: "int \<Rightarrow> int \<Rightarrow> string \<Rightarrow> (meta_col \<Rightarrow> meta_col) option \<Rightarrow> sources_db \<Rightarrow> sources_db" where
  "recordNoChange js_now now sid metadata db = fst (bumpSourceCounterQuery now sid ConsecutiveNoChange
     (bump_defaults\<lparr>b_backoff_cap := Some NoChangeCap,
        b_extra := no_extra\<lparr>x_errors := Some (Some 0), x_change_detected_at := Some None,
          x_last_fetched_at := Some (Some (iso_text js_now)), x_metadata := metadata\<rparr>\<rparr>) db)"

text \<open>The error branch of \<open>fetchOne\<close>: a failed write is logged and swallowed.\<close>

datatype fetch_error = DbError bool | FeedHttp nat "int option" | OtherError

definition isTransientFeedHttpStatus :: "nat \<Rightarrow> bool" where
  "isTransientFeedHttpStatus status \<longleftrightarrow> status = 429 \<or> status = 408"

definition on_fetch_error ::
  "(string \<Rightarrow> rat) \<Rightarrow> int \<Rightarrow> int \<Rightarrow> string \<Rightarrow> fetch_error \<Rightarrow> sources_db \<Rightarrow> sources_db" where
  "on_fetch_error cast js_now now sid err db =
     (let bump = (\<lambda>retry. (case recordConsecutiveFetchError js_now now sid retry None db of
                             Inl _ \<Rightarrow> db | Inr (db', _) \<Rightarrow> db'))
      in (case err of
            DbError transient \<Rightarrow> if transient then db else bump None
          | FeedHttp status retryAfterMs \<Rightarrow>
              if isTransientFeedHttpStatus status then bump retryAfterMs
              else fst (recordFeed4xx cast sid FEED_4XX_INVALIDATE_THRESHOLD db)
          | OtherError \<Rightarrow> bump None))"

subsection \<open>The fetch log\<close>

definition shouldBackoffScrapeFailure :: "string option \<Rightarrow> bool" where
  "shouldBackoffScrapeFailure errorCategory \<longleftrightarrow>
     (case errorCategory of None \<Rightarrow> False | Some c \<Rightarrow> c = ''model'' \<or> c = ''bot_challenge'')"

definition applyScrapeFailureBackoff :: "int \<Rightarrow> int \<Rightarrow> string \<Rightarrow> sources_db \<Rightarrow> sources_db \<times> counter_bump option" where
  "applyScrapeFailureBackoff js_now now sid db =
     (case recordConsecutiveFetchError js_now now sid None (Some AUTO_PAUSE_AFTER_ERRORS) db of
        Inl _ \<Rightarrow> (db, None) | Inr r \<Rightarrow> r)"

definition applyDrainConvergence :: "int \<Rightarrow> string \<Rightarrow> int \<Rightarrow> sources_db \<Rightarrow> sources_db \<times> counter_bump option" where
  "applyDrainConvergence now sid releasesInserted db =
     (if 0 < releasesInserted then (fst (update_source sid (\<lambda>r. r\<lparr>s_unproductive := Some 0\<rparr>) db), None)
      else bumpSourceCounter now sid UnproductiveDrains
             (bump_defaults\<lparr>b_pause_at := Some UNPRODUCTIVE_DRAIN_PAUSE_AFTER\<rparr>) db)"

record fetch_log_input =
  fl_source_id :: "string option"
  fl_releases_inserted :: int
  fl_error_category :: "string option"
  fl_was_flagged :: "bool option"

text \<open>
  \<open>ingestFetchLog\<close> up to the notification: whether the insert, the backoff and the convergence write reach
  the database is given by the three flags; only a failed insert is reported.
\<close>

definition ingestFetchLog ::
  "bool \<Rightarrow> bool \<Rightarrow> bool \<Rightarrow> int \<Rightarrow> int \<Rightarrow> fetch_log_input \<Rightarrow> fetch_log_input list \<times> sources_db \<Rightarrow>
     unit + fetch_log_input list \<times> sources_db" where
  "ingestFetchLog insert_ok backoff_ok drain_ok js_now now input st =
     (case st of (entries, db) \<Rightarrow>
        if \<not> insert_ok then Inl ()
        else
          (let db1 = (case fl_source_id input of
                 Some sid \<Rightarrow> if sid \<noteq> [] \<and> shouldBackoffScrapeFailure (fl_error_category input) \<and> backoff_ok
                             then fst (applyScrapeFailureBackoff js_now now sid db) else db
               | None \<Rightarrow> db);
               db2 = (case fl_source_id input of
                 Some sid \<Rightarrow> if sid \<noteq> [] \<and> fl_was_flagged input = Some True \<and> drain_ok
                             then fst (applyDrainConvergence now sid (fl_releases_inserted input) db1) else db1
               | None \<Rightarrow> db1)
           in Inr (entries @ [input], db2)))"

text \<open>\<open>mergeSourceMetadata\<close> of the same file: a \<open>null\<close> deletes its key.\<close>

definition mergeSourceMetadata :: "meta_col \<Rightarrow> (string \<times> jvalue) list \<Rightarrow> (string \<times> jvalue) list" where
  "mergeSourceMetadata existing patch =
     (let base = (case existing of MetaText (VObj kvs) \<Rightarrow> kvs | _ \<Rightarrow> [])
      in fold (\<lambda>(k, v) merged. if v = VNull then AList.delete k merged else AList.update k v merged) patch base)"

text \<open>
  The update of \<open>PATCH /v1/sources/:slug\<close> (\<open>apps/api/src/routes/sources.ts\<close>), on the columns of the modelled row: \<open>sp_metadata\<close> is the metadata after a notice is merged into it, and \<open>src\<close> is the row the handler read
  before.  A patch that takes the source off \<open>paused\<close> forgets the failed extraction and, unless the body sets it, the
  streak of empty drains.
\<close>

record source_patch =
  sp_type :: "source_type option"
  sp_org_id :: "string option"
  sp_metadata :: "meta_col option"
  sp_last_fetched_at :: "string option option"
  sp_fetch_priority :: "priority option"
  sp_no_change :: "int option"
  sp_errors :: "int option"
  sp_unproductive :: "int option"
  sp_next_fetch_after :: "string option option"
  sp_is_hidden :: "bool option"
  sp_change_detected_at :: "string option option"
  sp_last_polled_at :: "string option option"

definition col_or :: "'a option \<Rightarrow> 'a \<Rightarrow> 'a" where
  "col_or u old = (case u of None \<Rightarrow> old | Some v \<Rightarrow> v)"

definition leaves_pause :: "source \<Rightarrow> source_patch \<Rightarrow> bool" where
  "leaves_pause src p \<longleftrightarrow> (case sp_fetch_priority p of None \<Rightarrow> False
     | Some q \<Rightarrow> q \<noteq> Paused \<and> s_fetch_priority src = Some Paused)"

definition patch_source_row :: "source \<Rightarrow> source_patch \<Rightarrow> source \<Rightarrow> source" where
  "patch_source_row src p r =
     (let metadata = (if leaves_pause src p
            then Some (MetaText (VObj (mergeSourceMetadata (col_or (sp_metadata p) (s_metadata src)) [(''lastFailedExtractHash'', VNull)])))
            else sp_metadata p);
          drains = (if leaves_pause src p \<and> sp_unproductive p = None then Some 0 else sp_unproductive p)
      in r\<lparr>s_type := col_or (sp_type p) (s_type r),
           s_org_id := col_or (sp_org_id p) (s_org_id r),
           s_metadata := col_or metadata (s_metadata r),
           s_last_fetched_at := col_or (sp_last_fetched_at p) (s_last_fetched_at r),
           s_fetch_priority := (case sp_fetch_priority p of None \<Rightarrow> s_fetch_priority r | Some q \<Rightarrow> Some q),
           s_no_change := (case sp_no_change p of None \<Rightarrow> s_no_change r | Some n \<Rightarrow> Some n),
           s_errors := (case sp_errors p of None \<Rightarrow> s_errors r | Some n \<Rightarrow> Some n),
           s_unproductive := (case drains of None \<Rightarrow> s_unproductive r | Some n \<Rightarrow> Some n),
           s_next_fetch_after := col_or (sp_next_fetch_after p) (s_next_fetch_after r),
           s_is_hidden := (case sp_is_hidden p of None \<Rightarrow> s_is_hidden r | Some h \<Rightarrow> Some h),
           s_change_detected_at := col_or (sp_change_detected_at p) (s_change_detected_at r),
           s_last_polled_at := col_or (sp_last_polled_at p) (s_last_polled_at r)\<rparr>)"

text \<open>The bump of a Firecrawl ingest that failed: neither a pause nor a deadline, and its result is not read.\<close>

definition recordIngestFailure :: "int \<Rightarrow> string \<Rightarrow> sources_db \<Rightarrow> sources_db" where
  "recordIngestFailure now sid db = fst (bumpSourceCounterQuery now sid ConsecutiveErrors bump_defaults db)"

text \<open>The bookkeeping of a fetch that succeeded, and of one handed to an update run or refused by its gate.\<close>

definition success_row :: "string \<Rightarrow> (meta_col \<Rightarrow> meta_col) option \<Rightarrow> source \<Rightarrow> source" where
  "success_row nowIso feedMetadata r =
     (completion_row nowIso r)\<lparr>s_metadata := (case feedMetadata of None \<Rightarrow> s_metadata r | Some f \<Rightarrow> f (s_metadata r))\<rparr>"

definition DELEGATION_COOLDOWN_MS :: int where "DELEGATION_COOLDOWN_MS = 60 * 60000"
definition DELEGATION_REFUSAL_COOLDOWN_MS :: int where "DELEGATION_REFUSAL_COOLDOWN_MS = 30 * 60000"

definition delegated_row :: "int \<Rightarrow> source \<Rightarrow> source" where
  "delegated_row now r = r\<lparr>s_next_fetch_after := Some (iso_text (now + DELEGATION_COOLDOWN_MS)), s_change_detected_at := None\<rparr>"

definition refused_row :: "int \<Rightarrow> source \<Rightarrow> source" where
  "refused_row now r = r\<lparr>s_next_fetch_after := Some (iso_text (now + DELEGATION_REFUSAL_COOLDOWN_MS))\<rparr>"

subsection \<open>Histories of one source\<close>

text \<open>
  The statements that runs and requests execute on the row of one source, in the order the database commits them, each
  with what it reported.  \<open>Success\<close> is the write of every fetch that completed, the Firecrawl ingest included; a patch
  carries the row its handler had read; \<open>Elsewhere\<close> is any statement that leaves the two counters alone, such as those of
  the poller, the retiering and the actor.
\<close>

datatype health_write =
    ErrorBump int int "int option" "int option"
  | NoChangeBump int int "(meta_col \<Rightarrow> meta_col) option"
  | Completion int
  | Success int "(meta_col \<Rightarrow> meta_col) option"
  | Feed4xxBump
  | Feed4xxClear rat rat
  | Drained int int
  | Enriched enrichment_outcome
  | Delegated int
  | Refused int
  | IngestFailed int
  | Patched source source_patch
  | Elsewhere "source \<Rightarrow> source"

datatype health_outcome = Quiet | Bumped counter_bump | Invalidated

fun health_step :: "(string \<Rightarrow> rat) \<Rightarrow> string \<Rightarrow> health_write \<Rightarrow> sources_db \<Rightarrow> sources_db \<times> health_outcome" where
  "health_step cast sid (ErrorBump js_now now retry pauseAt) db =
     (case recordConsecutiveFetchError js_now now sid retry pauseAt db of
        Inl _ \<Rightarrow> (db, Quiet) | Inr (db', None) \<Rightarrow> (db', Quiet) | Inr (db', Some b) \<Rightarrow> (db', Bumped b))"
| "health_step cast sid (NoChangeBump js_now now metadata) db = (recordNoChange js_now now sid metadata db, Quiet)"
| "health_step cast sid (Completion now) db = (completeSourceFetch now sid db, Quiet)"
| "health_step cast sid (Success now metadata) db = (fst (update_source sid (success_row (iso_text now) metadata) db), Quiet)"
| "health_step cast sid Feed4xxBump db = (fst (recordFeed4xx_bump cast sid db), Quiet)"
| "health_step cast sid (Feed4xxClear invalidateAt streak) db =
     (case recordFeed4xx_clear sid invalidateAt streak db of (db', _, cleared) \<Rightarrow> (db', if cleared then Invalidated else Quiet))"
| "health_step cast sid (Drained now inserted) db =
     (case applyDrainConvergence now sid inserted db of (db', None) \<Rightarrow> (db', Quiet) | (db', Some b) \<Rightarrow> (db', Bumped b))"
| "health_step cast sid (Enriched outcome) db = (recordEnrichmentOutcome cast sid outcome db, Quiet)"
| "health_step cast sid (Delegated now) db = (fst (update_source sid (delegated_row now) db), Quiet)"
| "health_step cast sid (Refused now) db = (fst (update_source sid (refused_row now) db), Quiet)"
| "health_step cast sid (IngestFailed now) db = (recordIngestFailure now sid db, Quiet)"
| "health_step cast sid (Patched src p) db = (fst (update_source sid (patch_source_row src p) db), Quiet)"
| "health_step cast sid (Elsewhere f) db =
     (fst (update_source sid (\<lambda>r. (f r)\<lparr>s_errors := s_errors r, s_unproductive := s_unproductive r\<rparr>) db), Quiet)"

fun health_run ::
  "(string \<Rightarrow> rat) \<Rightarrow> string \<Rightarrow> health_write list \<Rightarrow> sources_db \<Rightarrow> sources_db \<times> (health_write \<times> health_outcome) list" where
  "health_run cast sid [] db = (db, [])"
| "health_run cast sid (w # ws) db =
     (case health_step cast sid w db of (db', oc) \<Rightarrow>
        (case health_run cast sid ws db' of (db'', hist) \<Rightarrow> (db'', (w, oc) # hist)))"

text \<open>
  The streaks a history shows, counted from the events alone: an error adds one, a fetch that worked or an invalidated
  feed starts over, and a patch may set the count; likewise for the drains.
\<close>

fun errors_after :: "health_write \<times> health_outcome \<Rightarrow> int \<Rightarrow> int" where
  "errors_after (ErrorBump _ _ _ _, Bumped _) n = n + 1"
| "errors_after (IngestFailed _, _) n = n + 1"
| "errors_after (NoChangeBump _ _ _, _) n = 0"
| "errors_after (Completion _, _) n = 0"
| "errors_after (Success _ _, _) n = 0"
| "errors_after (Feed4xxClear _ _, Invalidated) n = 0"
| "errors_after (Patched _ p, _) n = (case sp_errors p of None \<Rightarrow> n | Some k \<Rightarrow> k)"
| "errors_after _ n = n"

fun drains_after :: "health_write \<times> health_outcome \<Rightarrow> int \<Rightarrow> int" where
  "drains_after (Drained _ k, Bumped _) n = n + 1"
| "drains_after (Drained _ k, Quiet) n = (if 0 < k then 0 else n)"
| "drains_after (Patched src p, _) n = (case sp_unproductive p of Some k \<Rightarrow> k
     | None \<Rightarrow> if sp_fetch_priority p \<in> {Some Normal, Some Low} \<and> s_fetch_priority src = Some Paused then 0 else n)"
| "drains_after _ n = n"

definition error_streak :: "(health_write \<times> health_outcome) list \<Rightarrow> int" where
  "error_streak hist = fold errors_after hist 0"
definition drain_streak :: "(health_write \<times> health_outcome) list \<Rightarrow> int" where
  "drain_streak hist = fold drains_after hist 0"

lemma health_run_snoc:
  "health_run cast sid (ws @ [w]) db =
     (case health_run cast sid ws db of (db1, hist) \<Rightarrow>
        (case health_step cast sid w db1 of (db2, oc) \<Rightarrow> (db2, hist @ [(w, oc)])))"
  by (induction ws arbitrary: db) (auto split: prod.splits)

subsection \<open>The ladder is the helper\<close>

lemma upto_15: "[0..15 :: int] = [0, 1, 2, 3, 4, 5, 6, 7, 8, 9, 10, 11, 12, 13, 14, 15]"
  by (simp add: upto_rec1)

lemma hour_arms_eq:
  "hour_arms ErrorCap = [(0, 1), (1, 2), (2, 4), (3, 8), (4, 16), (5, 32), (6, 64)]"
  "hour_arms NoChangeCap = [(0, 1), (1, 2), (2, 4), (3, 8), (4, 16), (5, 32)]"
  by (simp_all add: hour_arms_def failureBackoffHours_def upto_15 power_int_def min_def)

lemma big_powi: "7 \<le> n \<Longrightarrow> cap_hours cap \<le> 2 powi n"
proof -
  assume "7 \<le> n"
  then have "(2 :: rat) powi 7 \<le> 2 powi n" by (intro power_int_increasing) simp_all
  moreover have "cap_hours cap \<le> 2 powi 7" by (cases cap) simp_all
  ultimately show ?thesis by linarith
qed

text \<open>The ladder of the SQL is the helper of the log, on every count the statements can reach.\<close>

theorem ladder_is_helper:
  assumes "0 \<le> or_zero col"
  shows "hoursCase col cap = failureBackoffHours (or_zero col + 1) cap"
proof (cases "or_zero col < 7")
  case True
  with assms consider "or_zero col = 0" | "or_zero col = 1" | "or_zero col = 2" | "or_zero col = 3"
    | "or_zero col = 4" | "or_zero col = 5" | "or_zero col = 6" by linarith
  then show ?thesis
    by cases (cases cap; simp add: hoursCase_def hour_arms_eq failureBackoffHours_def power_int_def min_def)+
next
  case False
  then have "hoursCase col cap = cap_hours cap"
    by (cases cap) (auto simp: hoursCase_def hour_arms_eq)
  with False big_powi [of "or_zero col" cap] show ?thesis by (simp add: failureBackoffHours_def min_def)
qed

theorem ladder_is_helper_witness: "hoursCase (Some 9) NoChangeCap = failureBackoffHours (9 + 1) NoChangeCap"
  using ladder_is_helper [of "Some 9" NoChangeCap] by (simp add: or_zero_def)

lemma failureBackoffHours_bounds:
  assumes "1 \<le> n"
  shows "1 \<le> failureBackoffHours n cap" and "failureBackoffHours n cap \<le> cap_hours cap"
    and "failureBackoffHours n cap \<in> \<int>"
proof -
  have "(2 :: rat) powi 0 \<le> 2 powi (n - 1)" using assms by (intro power_int_increasing) simp_all
  then show "1 \<le> failureBackoffHours n cap" by (cases cap) (simp_all add: failureBackoffHours_def)
  show "failureBackoffHours n cap \<le> cap_hours cap" by (simp add: failureBackoffHours_def)
  have "cap_hours cap \<in> \<int>" by (cases cap) simp_all
  moreover have "(2 :: rat) powi (n - 1) \<in> \<int>" using assms by (simp add: power_int_def)
  ultimately show "failureBackoffHours n cap \<in> \<int>" by (simp add: failureBackoffHours_def min_def)
qed

lemma failureBackoffHours_mono: "1 \<le> m \<Longrightarrow> m \<le> n \<Longrightarrow> failureBackoffHours m cap \<le> failureBackoffHours n cap"
  using power_int_increasing [of "m - 1" "n - 1" "2 :: rat"] by (simp add: failureBackoffHours_def min_def)

subsection \<open>One bump\<close>

lemma assign_no_extra [simp]: "assign_extra no_extra pre r = r"
  by (simp add: assign_extra_def no_extra_def)

lemma set_counter_simps [simp]:
  "counter_col name (set_counter name n r) = Some n"
  "s_fetch_priority (set_counter name n r) = s_fetch_priority r"
  "s_next_fetch_after (set_counter name n r) = s_next_fetch_after r"
  "s_errors (set_counter ConsecutiveErrors n r) = Some n"
  "s_unproductive (set_counter ConsecutiveErrors n r) = s_unproductive r"
  "s_errors (set_counter ConsecutiveNoChange n r) = s_errors r"
  "s_unproductive (set_counter ConsecutiveNoChange n r) = s_unproductive r"
  "s_errors (set_counter UnproductiveDrains n r) = s_errors r"
  "s_unproductive (set_counter UnproductiveDrains n r) = Some n"
  by (cases name; simp)+

lemma counter_col_update [simp]:
  "counter_col name (r\<lparr>s_fetch_priority := p\<rparr>) = counter_col name r"
  "counter_col name (r\<lparr>s_next_fetch_after := t\<rparr>) = counter_col name r"
  by (cases name; simp)+

lemma bump_row_simps:
  assumes "b_extra opts = no_extra"
  shows "counter_col name (bump_row now name opts r) = Some (or_zero (counter_col name r) + 1)"
    and "s_fetch_priority (bump_row now name opts r) =
      (case b_pause_at opts of None \<Rightarrow> s_fetch_priority r | Some n \<Rightarrow> pauseSql (counter_col name r) (s_fetch_priority r) n)"
    and "s_next_fetch_after (bump_row now name opts r) =
      (case b_backoff_cap opts of None \<Rightarrow> s_next_fetch_after r
       | Some cap \<Rightarrow> nextFetchAfterSql now (counter_col name r) cap (b_floor opts))"
    and "name = ConsecutiveErrors \<Longrightarrow> s_unproductive (bump_row now name opts r) = s_unproductive r"
    and "name = UnproductiveDrains \<Longrightarrow> s_errors (bump_row now name opts r) = s_errors r"
  using assms by (auto simp: bump_row_def Let_def split: option.split)

lemma bumpSourceCounter_row:
  assumes "db sid = Some r" and "b_extra opts = no_extra"
  shows "bumpSourceCounter now sid name opts db =
    (db(sid \<mapsto> bump_row now name opts r),
     Some \<lparr>cb_value = or_zero (counter_col name r) + 1,
       cb_fetch_priority = s_fetch_priority (bump_row now name opts r),
       cb_next_fetch_after = s_next_fetch_after (bump_row now name opts r),
       cb_did_pause = (s_fetch_priority r \<noteq> Some Paused \<and>
         (\<exists>n. b_pause_at opts = Some n \<and> n \<le> or_zero (counter_col name r) + 1))\<rparr>)"
proof -
  have "(case s_fetch_priority r of None \<Rightarrow> False | Some p \<Rightarrow> p = Paused) = (s_fetch_priority r = Some Paused)"
    by (auto split: option.split)
  moreover have "pauseSql c fp n = Some Paused \<longleftrightarrow> n \<le> or_zero c + 1 \<or> fp = Some Paused" for c fp n
    by (auto simp: pauseSql_def split: option.splits)
  ultimately show ?thesis
    using assms(1) bump_row_simps [OF assms(2), where name = name and now = now and r = r]
    by (auto simp: bumpSourceCounter_def bumpSourceCounterQuery_def update_source_def Let_def split: option.splits)
qed

subsection \<open>The streaks are exact\<close>

definition tracks :: "source \<Rightarrow> (health_write \<times> health_outcome) list \<Rightarrow> bool" where
  "tracks r hist \<longleftrightarrow> or_zero (s_errors r) = error_streak hist \<and> or_zero (s_unproductive r) = drain_streak hist"

lemma streak_simps [simp]:
  "error_streak [] = 0" "drain_streak [] = 0"
  "error_streak (hist @ [e]) = errors_after e (error_streak hist)"
  "drain_streak (hist @ [e]) = drains_after e (drain_streak hist)"
  by (simp_all add: error_streak_def drain_streak_def)

lemma or_zero_Some [simp]: "or_zero (Some n) = n"
  by (simp add: or_zero_def)

text \<open>What one statement reports of the row it met, and the row it leaves.\<close>

lemma error_bump_row:
  assumes "db sid = Some r" and "health_step cast sid (ErrorBump js_now now retry pauseAt) db = (db', Bumped b)"
  obtains floorIso where "db' sid = Some (bump_row now ConsecutiveErrors
      (bump_defaults\<lparr>b_pause_at := pauseAt, b_backoff_cap := Some ErrorCap, b_floor := floorIso\<rparr>) r)"
    and "floorIso = (case retry of Some ms \<Rightarrow> if 0 < ms then Some (iso_text (js_now + ms)) else None | None \<Rightarrow> None)"
    and "cb_value b = or_zero (s_errors r) + 1"
    and "cb_did_pause b \<longleftrightarrow> s_fetch_priority r \<noteq> Some Paused \<and> (\<exists>n. pauseAt = Some n \<and> n \<le> or_zero (s_errors r) + 1)"
    and "cb_next_fetch_after b = nextFetchAfterSql now (s_errors r) ErrorCap floorIso"
proof -
  let ?floor = "case retry of Some ms \<Rightarrow> if 0 < ms then Some (iso_text (js_now + ms)) else None | None \<Rightarrow> None"
  let ?opts = "\<lambda>f. bump_defaults\<lparr>b_pause_at := pauseAt, b_backoff_cap := Some ErrorCap, b_floor := f\<rparr>"
  have x: "b_extra (?opts f) = no_extra" for f by (simp add: bump_defaults_def)
  from assms(2) obtain f where f: "Inr (bumpSourceCounter now sid ConsecutiveErrors (?opts f) db) =
      (Inr (db', Some b) :: js_fault + _)" "f = ?floor"
    by (auto simp: recordConsecutiveFetchError_def iso_of_def timeClip_def split: sum.splits option.splits if_splits prod.splits)
  then show ?thesis
    using that [of f] bumpSourceCounter_row [where sid = sid and db = db, OF assms(1) x [of f], of now ConsecutiveErrors]
      bump_row_simps(3) [OF x [of f], of now ConsecutiveErrors r]
    by auto
qed

lemma drain_bump_row:
  assumes "db sid = Some r" and "health_step cast sid (Drained now n) db = (db', Bumped b)"
  shows "db' sid = Some (bump_row now UnproductiveDrains (bump_defaults\<lparr>b_pause_at := Some UNPRODUCTIVE_DRAIN_PAUSE_AFTER\<rparr>) r)"
    and "\<not> 0 < n" and "cb_value b = or_zero (s_unproductive r) + 1"
    and "cb_did_pause b \<longleftrightarrow> s_fetch_priority r \<noteq> Some Paused \<and> 5 \<le> or_zero (s_unproductive r) + 1"
proof -
  have x: "b_extra (bump_defaults\<lparr>b_pause_at := Some UNPRODUCTIVE_DRAIN_PAUSE_AFTER\<rparr>) = no_extra" by (simp add: bump_defaults_def)
  from assms(2) have n: "\<not> 0 < n" and
    e: "bumpSourceCounter now sid UnproductiveDrains (bump_defaults\<lparr>b_pause_at := Some UNPRODUCTIVE_DRAIN_PAUSE_AFTER\<rparr>) db
      = (db', Some b)"
    by (auto simp: applyDrainConvergence_def split: if_splits prod.splits option.splits)
  then show "\<not> 0 < n" by blast
  from e bumpSourceCounter_row [where db = db and sid = sid, OF assms(1) x, of now UnproductiveDrains]
  show "db' sid = Some (bump_row now UnproductiveDrains (bump_defaults\<lparr>b_pause_at := Some UNPRODUCTIVE_DRAIN_PAUSE_AFTER\<rparr>) r)"
    "cb_value b = or_zero (s_unproductive r) + 1"
    "cb_did_pause b \<longleftrightarrow> s_fetch_priority r \<noteq> Some Paused \<and> 5 \<le> or_zero (s_unproductive r) + 1"
    by (auto simp: UNPRODUCTIVE_DRAIN_PAUSE_AFTER_def)
qed

lemma update_row: "db sid = Some r \<Longrightarrow> update_source sid f db = (db(sid \<mapsto> f r), Some (f r))"
  by (simp add: update_source_def)

lemmas health_writes = recordNoChange_def bumpSourceCounterQuery_def completeSourceFetch_def recordFeed4xx_bump_def
  recordFeed4xx_clear_def recordEnrichmentOutcome_def success_row_def completion_row_def feed4xx_bump_def
  feed4xx_clear_def delegated_row_def refused_row_def

lemma no_change_row:
  "or_zero (s_errors (bump_row now ConsecutiveNoChange (bump_defaults\<lparr>b_backoff_cap := c, b_extra := no_extra
      \<lparr>x_errors := Some (Some 0), x_change_detected_at := d, x_last_fetched_at := l, x_metadata := m\<rparr>\<rparr>) r)) = 0"
  "s_unproductive (bump_row now ConsecutiveNoChange (bump_defaults\<lparr>b_backoff_cap := c, b_extra := no_extra
      \<lparr>x_errors := Some (Some 0), x_change_detected_at := d, x_last_fetched_at := l, x_metadata := m\<rparr>\<rparr>) r) = s_unproductive r"
  by (simp_all add: bump_row_def bump_defaults_def assign_extra_def no_extra_def Let_def split: option.split)

lemma patch_source_counters:
  "s_errors (patch_source_row src p r) = (case sp_errors p of None \<Rightarrow> s_errors r | Some n \<Rightarrow> Some n)"
  "s_unproductive (patch_source_row src p r) = (case sp_unproductive p of Some n \<Rightarrow> Some n
     | None \<Rightarrow> if sp_fetch_priority p \<in> {Some Normal, Some Low} \<and> s_fetch_priority src = Some Paused then Some 0
               else s_unproductive r)"
proof -
  have "leaves_pause src p \<longleftrightarrow> sp_fetch_priority p \<in> {Some Normal, Some Low} \<and> s_fetch_priority src = Some Paused"
    by (cases "sp_fetch_priority p") (auto simp: leaves_pause_def intro: priority.exhaust)
  then show "s_errors (patch_source_row src p r) = (case sp_errors p of None \<Rightarrow> s_errors r | Some n \<Rightarrow> Some n)"
    "s_unproductive (patch_source_row src p r) = (case sp_unproductive p of Some n \<Rightarrow> Some n
     | None \<Rightarrow> if sp_fetch_priority p \<in> {Some Normal, Some Low} \<and> s_fetch_priority src = Some Paused then Some 0
               else s_unproductive r)"
    by (auto simp: patch_source_row_def Let_def split: option.split)
qed

lemma error_step_cases:
  assumes "health_step cast sid (ErrorBump js_now now retry pauseAt) db = (db', oc)" and "db sid = Some r"
  shows "(oc = Quiet \<and> db' = db) \<or> (\<exists>b. oc = Bumped b)"
  using assms bumpSourceCounter_row [where db = db and sid = sid and r = r]
  by (auto simp: recordConsecutiveFetchError_def bump_defaults_def split: sum.splits option.splits if_splits prod.splits)

lemma drain_step_cases:
  assumes "health_step cast sid (Drained now n) db = (db', oc)" and "db sid = Some r"
  shows "(0 < n \<and> oc = Quiet \<and> db' = db(sid \<mapsto> r\<lparr>s_unproductive := Some 0\<rparr>)) \<or> (\<not> 0 < n \<and> (\<exists>b. oc = Bumped b))"
  using assms bumpSourceCounter_row [where db = db and sid = sid and r = r, of "bump_defaults\<lparr>b_pause_at := Some UNPRODUCTIVE_DRAIN_PAUSE_AFTER\<rparr>"]
  by (auto simp: applyDrainConvergence_def bump_defaults_def update_source_def split: if_splits prod.splits option.splits)

lemma step_tracks:
  assumes "db sid = Some r" and "tracks r hist" and "health_step cast sid w db = (db', oc)"
  shows "\<exists>r'. db' sid = Some r' \<and> tracks r' (hist @ [(w, oc)])"
proof (cases w)
  case w: (ErrorBump js_now now retry pauseAt)
  from error_step_cases [OF assms(3) [unfolded w] assms(1)] show ?thesis
  proof
    assume "oc = Quiet \<and> db' = db"
    then show ?thesis using assms(1,2) w by (simp add: tracks_def)
  next
    assume "\<exists>b. oc = Bumped b"
    then obtain b where oc: "oc = Bumped b" by blast
    from error_bump_row [OF assms(1) assms(3) [unfolded w oc]] obtain f where
      "db' sid = Some (bump_row now ConsecutiveErrors
         (bump_defaults\<lparr>b_pause_at := pauseAt, b_backoff_cap := Some ErrorCap, b_floor := f\<rparr>) r)" by metis
    then show ?thesis
      using assms(2) w oc bump_row_simps(1,4) [of "bump_defaults\<lparr>b_pause_at := pauseAt, b_backoff_cap := Some ErrorCap, b_floor := f\<rparr>" ConsecutiveErrors now r]
      by (simp add: tracks_def bump_defaults_def)
  qed
next
  case w: (Drained now n)
  from drain_step_cases [OF assms(3) [unfolded w] assms(1)] show ?thesis
  proof
    assume "0 < n \<and> oc = Quiet \<and> db' = db(sid \<mapsto> r\<lparr>s_unproductive := Some 0\<rparr>)"
    then show ?thesis using assms(2) w by (simp add: tracks_def)
  next
    assume "\<not> 0 < n \<and> (\<exists>b. oc = Bumped b)"
    then obtain b where oc: "oc = Bumped b" by blast
    note d = drain_bump_row [OF assms(1) assms(3) [unfolded w oc]]
    show ?thesis
      using d(1) assms(2) w oc bump_row_simps(1,5) [of "bump_defaults\<lparr>b_pause_at := Some UNPRODUCTIVE_DRAIN_PAUSE_AFTER\<rparr>" UnproductiveDrains now r]
      by (simp add: tracks_def bump_defaults_def)
  qed
next
  case (Feed4xxClear inv streak)
  then show ?thesis
    using assms by (auto simp: health_writes tracks_def split: if_splits)
next
  case (Enriched outcome)
  then show ?thesis
    using assms by (auto simp: health_writes tracks_def split: if_splits enrichment_outcome.splits)
next
  case (Patched src p)
  then show ?thesis
    using assms by (auto simp: update_row tracks_def patch_source_counters split: option.split)
next
  case (IngestFailed now)
  then show ?thesis
    using assms bump_row_simps(1,4) [of bump_defaults ConsecutiveErrors now r]
    by (auto simp: recordIngestFailure_def bumpSourceCounterQuery_def update_row tracks_def bump_defaults_def)
qed (use assms in \<open>auto simp: health_writes update_row tracks_def no_change_row\<close>)

lemma run_tracks:
  assumes "db sid = Some r0" and "or_zero (s_errors r0) = 0" and "or_zero (s_unproductive r0) = 0"
    and "health_run cast sid ws db = (db', hist)"
  shows "\<exists>r. db' sid = Some r \<and> tracks r hist"
  using assms(4)
proof (induction ws arbitrary: db' hist rule: rev_induct)
  case Nil
  then show ?case using assms(1-3) by (simp add: tracks_def)
next
  case (snoc w ws)
  obtain db1 h1 where r1: "health_run cast sid ws db = (db1, h1)" by (cases "health_run cast sid ws db")
  with snoc.prems obtain oc where s: "health_step cast sid w db1 = (db', oc)" "hist = h1 @ [(w, oc)]"
    by (auto simp: health_run_snoc split: prod.splits)
  from snoc.IH [OF r1] step_tracks s show ?case by metis
qed

lemma health_run_last:
  assumes "db sid = Some r0" and "or_zero (s_errors r0) = 0" and "or_zero (s_unproductive r0) = 0"
    and "health_run cast sid (ws @ [w]) db = (db', hist @ [(w, oc)])"
  obtains db1 r where "health_run cast sid ws db = (db1, hist)" "db1 sid = Some r" "tracks r hist"
    "health_step cast sid w db1 = (db', oc)"
proof -
  obtain db1 h1 where r1: "health_run cast sid ws db = (db1, h1)" by (cases "health_run cast sid ws db")
  with assms(4) have s: "health_step cast sid w db1 = (db', oc)" "h1 = hist"
    by (auto simp: health_run_snoc split: prod.splits)
  from run_tracks [OF assms(1-3) r1] obtain r where "db1 sid = Some r" "tracks r h1" by blast
  with that r1 s show ?thesis by metis
qed

text \<open>C7: A source is paused by its own failures exactly when one deserves it.  In any history of the statements that write
  its row, other requests and runs in between, a bump that reports a count reports the number of errors (or empty drains)
  since the count was last cleared or set, the one it records included, counted from the history; and it pauses the source
  exactly when that number has reached its threshold and the source is not paused already, in which case the row is paused.
\<close>

theorem source_auto_pause_exact:
  assumes "db sid = Some r0" and "or_zero (s_errors r0) = 0" and "or_zero (s_unproductive r0) = 0"
    and "health_run cast sid (ws @ [w]) db = (db', hist @ [(w, Bumped b)])"
  shows "(cb_did_pause b \<longleftrightarrow>
      (\<exists>r. fst (health_run cast sid ws db) sid = Some r \<and> s_fetch_priority r \<noteq> Some Paused) \<and>
      (case w of ErrorBump _ _ _ pauseAt \<Rightarrow> (\<exists>n. pauseAt = Some n \<and> n \<le> error_streak (hist @ [(w, Bumped b)]))
       | Drained _ _ \<Rightarrow> 5 \<le> drain_streak (hist @ [(w, Bumped b)]) | _ \<Rightarrow> False)) \<and>
    cb_value b = (case w of ErrorBump _ _ _ _ \<Rightarrow> error_streak (hist @ [(w, Bumped b)])
       | _ \<Rightarrow> drain_streak (hist @ [(w, Bumped b)])) \<and>
    (cb_did_pause b \<longrightarrow> (\<exists>r. db' sid = Some r \<and> s_fetch_priority r = Some Paused))"
proof -
  from health_run_last [OF assms] obtain db1 r where d: "health_run cast sid ws db = (db1, hist)" "db1 sid = Some r"
    "tracks r hist" "health_step cast sid w db1 = (db', Bumped b)" by metis
  have "(\<exists>js_now now retry pauseAt. w = ErrorBump js_now now retry pauseAt) \<or> (\<exists>now n. w = Drained now n)"
    using d(4) by (cases w) (auto split: prod.splits if_splits)
  then have "(cb_did_pause b \<longleftrightarrow> s_fetch_priority r \<noteq> Some Paused \<and>
      (case w of ErrorBump _ _ _ pauseAt \<Rightarrow> (\<exists>n. pauseAt = Some n \<and> n \<le> error_streak (hist @ [(w, Bumped b)]))
       | Drained _ _ \<Rightarrow> 5 \<le> drain_streak (hist @ [(w, Bumped b)]) | _ \<Rightarrow> False)) \<and>
    cb_value b = (case w of ErrorBump _ _ _ _ \<Rightarrow> error_streak (hist @ [(w, Bumped b)])
       | _ \<Rightarrow> drain_streak (hist @ [(w, Bumped b)])) \<and>
    (cb_did_pause b \<longrightarrow> (\<exists>r. db' sid = Some r \<and> s_fetch_priority r = Some Paused))"
  proof (elim disjE exE)
    fix js_now now retry pauseAt assume w: "w = ErrorBump js_now now retry pauseAt"
    show ?thesis
      by (rule error_bump_row [OF d(2) d(4) [unfolded w]])
        (use d(3) w in \<open>auto simp: tracks_def bump_row_simps bump_defaults_def pauseSql_def split: option.splits\<close>)
  next
    fix now n assume w: "w = Drained now n"
    show ?thesis
      using drain_bump_row [OF d(2) d(4) [unfolded w]] d(3) w
      by (auto simp: tracks_def bump_row_simps bump_defaults_def pauseSql_def UNPRODUCTIVE_DRAIN_PAUSE_AFTER_def split: option.splits)
  qed
  then show ?thesis using d(1,2) by simp
qed

definition sample_source :: source where
  "sample_source = \<lparr>s_id = ''src_1'', s_type = Scrape, s_org_id = ''org_1'', s_metadata = MetaNull,
     s_created_at = ''2026-01-01T00:00:00.000Z'', s_last_fetched_at = None, s_fetch_priority = Some Normal,
     s_no_change = Some 0, s_errors = Some 0, s_unproductive = Some 0, s_next_fetch_after = None,
     s_change_detected_at = None, s_last_drain_at = None, s_last_polled_at = None, s_actor_managed = None,
     s_actor_next_alarm_at = None, s_actor_last_alarm_at = None, s_is_hidden = Some False, s_deleted_at = None\<rparr>"

abbreviation drain_report :: "int \<Rightarrow> priority \<Rightarrow> bool \<Rightarrow> counter_bump" where
  "drain_report n p d \<equiv> \<lparr>cb_value = n, cb_fetch_priority = Some p, cb_next_fetch_after = None, cb_did_pause = d\<rparr>"

lemma five_empty_drains:
  "health_run (\<lambda>_. 0) ''src_1'' (replicate 4 (Drained 0 0) @ [Drained 0 0]) [''src_1'' \<mapsto> sample_source] =
     ([''src_1'' \<mapsto> sample_source\<lparr>s_unproductive := Some 5, s_fetch_priority := Some Paused\<rparr>],
      [(Drained 0 0, Bumped (drain_report 1 Normal False)), (Drained 0 0, Bumped (drain_report 2 Normal False)),
       (Drained 0 0, Bumped (drain_report 3 Normal False)), (Drained 0 0, Bumped (drain_report 4 Normal False))]
      @ [(Drained 0 0, Bumped (drain_report 5 Paused True))])"
  by (simp add: sample_source_def bumpSourceCounter_def bumpSourceCounterQuery_def update_source_def bump_row_def
      bump_defaults_def Let_def pauseSql_def UNPRODUCTIVE_DRAIN_PAUSE_AFTER_def numeral_eq_Suc applyDrainConvergence_def)

theorem source_auto_pause_exact_witness:
  "cb_did_pause (drain_report 5 Paused True) \<and>
   (\<exists>r. [''src_1'' \<mapsto> sample_source\<lparr>s_unproductive := Some 5, s_fetch_priority := Some Paused\<rparr>] ''src_1'' = Some r
      \<and> s_fetch_priority r = Some Paused)"
  using source_auto_pause_exact [OF _ _ _ five_empty_drains, of sample_source] by (simp add: sample_source_def)

subsection \<open>The deadline an error sets\<close>

lemma instant_strftime:
  assumes "instant t" shows "-62167219200000 \<le> t" and "t \<le> 253402300799999"
proof -
  have "-683003 \<le> t div msPerDay" "t div msPerDay \<le> 2932896"
    using assms by (simp_all add: instant_def keyDay_def dayFromCivil_def yearStart_def monthStart_def monthDays_def leap_def)
  with div_bounds [of msPerDay t] show "-62167219200000 \<le> t" "t \<le> 253402300799999" by simp_all
qed

lemma iso_max: "instant a \<Longrightarrow> instant b \<Longrightarrow> max (iso_text a) (iso_text b) = iso_text (max a b)"
  by (simp add: max_def instant_less(2))

definition backoff_due :: "int \<Rightarrow> int \<Rightarrow> int" where
  "backoff_due now n = now + \<lfloor>failureBackoffHours n ErrorCap * of_int msPerHour\<rfloor>"

lemma backoff_due_bounds:
  assumes "1 \<le> n"
  shows "now + msPerHour \<le> backoff_due now n" and "backoff_due now n \<le> now + 72 * msPerHour"
proof -
  let ?h = "failureBackoffHours n ErrorCap"
  obtain k where k: "?h = of_int k" using failureBackoffHours_bounds(3) [OF assms] by (auto elim: Ints_cases)
  have "1 \<le> ?h" "?h \<le> 72" using failureBackoffHours_bounds(1,2) [OF assms, of ErrorCap] by simp_all
  then have "1 \<le> k" "k \<le> 72" by (simp_all add: k)
  moreover have "backoff_due now n = now + k * msPerHour"
    unfolding backoff_due_def k by (simp only: of_int_mult [symmetric] floor_of_int)
  ultimately show "now + msPerHour \<le> backoff_due now n" "backoff_due now n \<le> now + 72 * msPerHour" by simp_all
qed

text \<open>
  The instant an error defers the source to: an hour doubled with each error before it, at most three days.  A count a patch
  has set below zero is off the ladder, and waits the three days at once.
\<close>

definition error_wait :: "int \<Rightarrow> int \<Rightarrow> int" where
  "error_wait now n = (if 1 \<le> n then backoff_due now n else now + 72 * msPerHour)"

lemma error_wait_bounds: "now + msPerHour \<le> error_wait now n" "error_wait now n \<le> now + 72 * msPerHour"
  using backoff_due_bounds [of n now] by (simp_all add: error_wait_def)

lemma error_wait_ladder: "now + \<lfloor>hoursCase col ErrorCap * of_int msPerHour\<rfloor> = error_wait now (or_zero col + 1)"
proof (cases "0 \<le> or_zero col")
  case True
  then show ?thesis by (simp add: error_wait_def backoff_due_def ladder_is_helper)
next
  case False
  then have "hoursCase col ErrorCap = 72" by (auto simp: hoursCase_def hour_arms_eq)
  with False show ?thesis by (simp add: error_wait_def)
qed

text \<open>C33: The deadline of the n-th error in a row.\<close>

theorem error_deadline:
  assumes "db sid = Some r0" and "or_zero (s_errors r0) = 0" and "or_zero (s_unproductive r0) = 0"
    and "health_run cast sid (ws @ [ErrorBump js_now now retry pauseAt]) db =
      (db', hist @ [(ErrorBump js_now now retry pauseAt, Bumped b)])"
    and "instant now" and "instant (now + 72 * msPerHour)"
    and "case retry of Some ms \<Rightarrow> instant (js_now + ms) | None \<Rightarrow> True"
  shows "\<exists>r due. db' sid = Some r \<and> s_next_fetch_after r = Some (iso_text due) \<and> date_parse legacy (iso_text due) = Some due \<and>
    due = (case retry of Some ms \<Rightarrow> if 0 < ms then max (js_now + ms) (error_wait now (error_streak hist + 1))
             else error_wait now (error_streak hist + 1) | None \<Rightarrow> error_wait now (error_streak hist + 1)) \<and>
    now + msPerHour \<le> due \<and> (retry = None \<longrightarrow> due \<le> now + 72 * msPerHour)"
proof -
  let ?due = "error_wait now (error_streak hist + 1)"
  let ?floor = "case retry of Some ms \<Rightarrow> if 0 < ms then Some (iso_text (js_now + ms)) else None | None \<Rightarrow> None"
  from health_run_last [OF assms(1-4)] obtain db1 r where d: "db1 sid = Some r" "tracks r hist"
    "health_step cast sid (ErrorBump js_now now retry pauseAt) db1 = (db', Bumped b)" by metis
  have e: "or_zero (s_errors r) = error_streak hist" using d(2) by (simp add: tracks_def)
  note b = error_wait_bounds [of now "error_streak hist + 1"]
  have i: "instant ?due" using instant_between [OF assms(5,6)] b by simp
  have s: "strftime_after now (hoursCase (s_errors r) ErrorCap) = Some (iso_text ?due)"
    using instant_strftime [OF i] error_wait_ladder [of now "s_errors r"]
    by (simp add: strftime_after_def e Let_def)
  obtain floorIso r' where f: "floorIso = ?floor" "db' sid = Some r'"
    "s_next_fetch_after r' = nextFetchAfterSql now (s_errors r) ErrorCap floorIso"
    by (rule error_bump_row [OF d(1,3)]) (use that in \<open>auto simp: bump_row_simps(3) bump_defaults_def\<close>)
  have ne: "iso_text t \<noteq> []" for t by (simp add: iso_text_def)
  show ?thesis
  proof (cases "\<exists>ms. retry = Some ms \<and> 0 < ms")
    case True
    then obtain ms where ms: "retry = Some ms" "0 < ms" by blast
    let ?m = "max (js_now + ms) ?due"
    have "instant ?m" using assms(7) ms i by (simp add: max_def)
    moreover have "s_next_fetch_after r' = Some (iso_text ?m)"
      using f ms s ne iso_max [of "js_now + ms" ?due] assms(7) i by (simp add: nextFetchAfterSql_def Let_def)
    ultimately show ?thesis using f(2) ms b date_parse_iso [of ?m legacy] by (intro exI [of _ r'] exI [of _ ?m]) simp
  next
    case False
    then have "s_next_fetch_after r' = Some (iso_text ?due)"
      using f s by (auto simp: nextFetchAfterSql_def Let_def split: option.splits if_splits)
    then show ?thesis
      using f(2) False b date_parse_iso [OF i, of legacy]
      by (intro exI [of _ r'] exI [of _ ?due]) (auto split: option.splits)
  qed
qed

abbreviation error_report :: "int \<Rightarrow> int \<Rightarrow> counter_bump" where
  "error_report n due \<equiv> \<lparr>cb_value = n, cb_fetch_priority = Some Normal, cb_next_fetch_after = Some (iso_text due), cb_did_pause = False\<rparr>"

lemma two_errors:
  "health_run (\<lambda>_. 0) ''src_1'' ([ErrorBump 0 0 None None] @ [ErrorBump 7200000 7200000 None None]) [''src_1'' \<mapsto> sample_source] =
    ([''src_1'' \<mapsto> sample_source\<lparr>s_errors := Some 2, s_next_fetch_after := Some (iso_text 14400000)\<rparr>],
     [(ErrorBump 0 0 None None, Bumped (error_report 1 3600000))] @
     [(ErrorBump 7200000 7200000 None None, Bumped (error_report 2 14400000))])"
  by (simp add: sample_source_def recordConsecutiveFetchError_def bumpSourceCounter_def bumpSourceCounterQuery_def
      update_source_def bump_row_def bump_defaults_def Let_def nextFetchAfterSql_def strftime_after_def
      hoursCase_def hour_arms_eq)

theorem error_deadline_witness:
  "\<exists>due. s_next_fetch_after (sample_source\<lparr>s_errors := Some 2, s_next_fetch_after := Some (iso_text 14400000)\<rparr>) = Some (iso_text due)
     \<and> date_parse (\<lambda>_. None) (iso_text due) = Some due \<and> due = error_wait 7200000 2"
proof -
  have i: "instant 7200000" "instant (7200000 + 72 * msPerHour)"
    by (simp_all add: instant_def keyDay_def dayFromCivil_def yearStart_def monthStart_def monthDays_def leap_def)
  have "case (None :: int option) of Some ms \<Rightarrow> instant (7200000 + ms) | None \<Rightarrow> True" by simp
  from error_deadline [OF _ _ _ two_errors i this, of sample_source "\<lambda>_. None"] show ?thesis
    by (simp add: sample_source_def error_streak_def)
qed
end
