(* ===== verification/SourceQueries.thy ===== *)
theory SourceQueries
  imports FetchHealth "HOL-Library.Option_ord" "HOL-Library.Product_Lexorder"
begin

section \<open>The queries that pick sources\<close>

text \<open>
  \<open>dueSourcesWhere\<close> of \<open>apps/api/src/cron/poll-fetch.ts\<close>, the sweep for sources without a live alarm
  (\<open>apps/api/src/queries/unmanaged-source-actors.ts\<close>, \<open>source-fetch-routing.ts\<close>) and the candidates of an
  organisation's drain (\<open>apps/api/src/lib/sources/drain-candidates.ts\<close>), as three-valued conditions on a
  row.  \<open>json_extract\<close> raises on a broken text; the conditions are stated for rows whose metadata is JSON.
\<close>

definition json_extract :: "meta_col \<Rightarrow> string list \<Rightarrow> jvalue option" where
  "json_extract col path = (case col of MetaText v \<Rightarrow> json_get v path | _ \<Rightarrow> None)"

text \<open>\<open>IS NOT 1\<close> and \<open>IS NOT 'push'\<close>: never unknown; \<open>true\<close> is extracted as 1.\<close>

definition pushFedSql :: "meta_col \<Rightarrow> tern" where
  "pushFedSql metadata = sql_eq (json_extract metadata [''ingestMode'']) (VStr ''push'')"

definition locallyFetchedSql :: "meta_col \<Rightarrow> tern" where
  "locallyFetchedSql metadata =
     sql_and (Some (json_extract metadata [''firecrawl'', ''enabled''] \<notin> {Some (VBool True), Some (VNum 1)}))
             (Some (json_extract metadata [''ingestMode''] \<noteq> Some (VStr ''push'')))"

definition not_null :: "'a option \<Rightarrow> tern" where
  "not_null col = Some (col \<noteq> None)"

lemma holds_not_null [simp]: "holds (not_null c) \<longleftrightarrow> c \<noteq> None"
  by (simp add: not_null_def)

subsection \<open>Sources due for a poll\<close>

text \<open>The rows of \<open>sources_active\<close>.\<close>

definition sources_active :: "source list \<Rightarrow> source list" where
  "sources_active = filter (\<lambda>r. s_deleted_at r = None)"

definition pollable :: "bool \<Rightarrow> source \<Rightarrow> tern" where
  "pollable changeDetectEnabled r =
     (let base = sql_or (sql_or (sql_or (not_null (json_extract (s_metadata r) [''feedUrl'']))
                   (not_null (json_extract (s_metadata r) [''githubUrl''])))
                   (Some (s_type r = Github))) (Some (s_type r = Appstore))
      in if changeDetectEnabled then sql_or base (Some (s_type r \<in> {Scrape, Agent})) else base)"

definition tier_condition :: "int \<Rightarrow> source \<Rightarrow> tier \<Rightarrow> tern" where
  "tier_condition now r t =
     (let cutoff = iso_text (now - TIER_INTERVALS t * msPerHour)
      in sql_and (sql_eq (s_fetch_priority r) (case t of TNormal \<Rightarrow> Normal | TLow \<Rightarrow> Low))
           (sql_or (is_null (s_last_polled_at r)) (sql_lt (s_last_polled_at r) cutoff)))"

definition backoffReady :: "int \<Rightarrow> source \<Rightarrow> tern" where
  "backoffReady now r = sql_or (is_null (s_next_fetch_after r)) (sql_le (s_next_fetch_after r) (iso_text now))"

definition dueSourcesWhere :: "string list \<Rightarrow> int \<Rightarrow> bool \<Rightarrow> source \<Rightarrow> tern" where
  "dueSourcesWhere pausedOrgIds now changeDetectEnabled r =
     sql_and (sql_and (sql_and (sql_and (sql_and
       (pollable changeDetectEnabled r)
       (sql_ne (s_fetch_priority r) Paused))
       (sql_not_in (Some (s_org_id r)) pausedOrgIds))
       (backoffReady now r))
       (locallyFetchedSql (s_metadata r)))
       (sql_or (tier_condition now r TNormal) (tier_condition now r TLow))"

definition queryDueSources :: "string list \<Rightarrow> int \<Rightarrow> bool \<Rightarrow> source list \<Rightarrow> source list" where
  "queryDueSources pausedOrgIds now changeDetectEnabled rows =
     filter (\<lambda>r. holds (dueSourcesWhere pausedOrgIds now changeDetectEnabled r)) (sources_active rows)"

definition queryDueSourceRefs :: "string list \<Rightarrow> int \<Rightarrow> bool \<Rightarrow> source list \<Rightarrow> (string \<times> string) list" where
  "queryDueSourceRefs pausedOrgIds now changeDetectEnabled rows =
     map (\<lambda>r. (s_id r, s_org_id r)) (queryDueSources pausedOrgIds now changeDetectEnabled rows)"

subsection \<open>Sources without a live alarm\<close>

definition UNMANAGED_ALARM_STALE_MS :: int where "UNMANAGED_ALARM_STALE_MS = 5 * 60 * 1000"

definition unmanagedWhere :: "string list \<Rightarrow> int \<Rightarrow> source \<Rightarrow> tern" where
  "unmanagedWhere pausedOrgIds now r =
     (let staleCutoff = iso_text (now - UNMANAGED_ALARM_STALE_MS);
          hasCadence = sql_or (sql_eq (s_fetch_priority r) Normal) (sql_eq (s_fetch_priority r) Low)
      in sql_and (sql_and (sql_and hasCadence
           (sql_not_in (Some (s_org_id r)) pausedOrgIds))
           (locallyFetchedSql (s_metadata r)))
           (sql_or (sql_or (sql_or (is_null (s_actor_managed r)) (sql_eq (s_actor_managed r) False))
             (is_null (s_actor_next_alarm_at r))) (sql_lt (s_actor_next_alarm_at r) staleCutoff)))"

definition queryUnmanagedActiveSources :: "string list \<Rightarrow> int \<Rightarrow> nat option \<Rightarrow> source list \<Rightarrow> source list" where
  "queryUnmanagedActiveSources pausedOrgIds now limit rows =
     (let hits = filter (\<lambda>r. holds (unmanagedWhere pausedOrgIds now r)) (sources_active rows)
      in case limit of None \<Rightarrow> hits | Some n \<Rightarrow> take n hits)"

definition countUnmanagedActiveSources :: "string list \<Rightarrow> int \<Rightarrow> source list \<Rightarrow> nat" where
  "countUnmanagedActiveSources pausedOrgIds now rows =
     length (filter (\<lambda>r. holds (unmanagedWhere pausedOrgIds now r)) (sources_active rows))"

text \<open>
  The sources the hourly heartbeat seeds (\<open>fanOutPollAndFetch\<close> in \<open>apps/api/src/index.ts\<close>): the union by id, a
  row of the sweep replacing the due one of the same id.
\<close>

definition heartbeat_refs :: "string list \<Rightarrow> int \<Rightarrow> source list \<Rightarrow> (string \<times> string) list" where
  "heartbeat_refs pausedOrgIds now rows =
     fold (\<lambda>r m. AList.update (s_id r) (s_org_id r) m)
       (queryUnmanagedActiveSources pausedOrgIds now None rows)
       (fold (\<lambda>(i, g) m. AList.update i g m) (queryDueSourceRefs pausedOrgIds now True rows) [])"

subsection \<open>Candidates of a drain\<close>

definition DRAIN_COOLDOWN_MS :: int where "DRAIN_COOLDOWN_MS = 20 * 60 * 60 * 1000"

record organization =
  o_id :: string
  o_slug :: string
  o_name :: string
  o_fetch_paused :: "bool option"

record candidate =
  c_id :: string
  c_type :: source_type
  c_org_id :: string
  c_org_slug :: string
  c_org_name :: string
  c_change_detected_at :: "string option"

definition candidateWhere :: "int \<Rightarrow> int \<Rightarrow> string option \<Rightarrow> source \<times> organization \<Rightarrow> tern" where
  "candidateWhere now cooldownMs orgId row =
     (case row of (r, g) \<Rightarrow>
       (let cooldownCutoff = iso_text (now - cooldownMs)
        in sql_and (sql_and (sql_and (sql_and (sql_and (sql_and (sql_and (sql_and
             (Some (s_type r \<in> {Scrape, Agent}))
             (sql_or (sql_ne (s_fetch_priority r) Paused) (is_null (s_fetch_priority r))))
             (not_null (s_change_detected_at r)))
             (if 0 < cooldownMs then sql_or (is_null (s_last_drain_at r)) (sql_lt (s_last_drain_at r) cooldownCutoff)
              else Some True))
             (sql_or (is_null (json_extract (s_metadata r) [''feedUrl''])) (Some (s_metadata r = MetaNull))))
             (locallyFetchedSql (s_metadata r)))
             (sql_or (sql_eq (s_is_hidden r) False) (is_null (s_is_hidden r))))
             (sql_or (sql_eq (o_fetch_paused g) False) (is_null (o_fetch_paused g))))
             (case orgId of None \<Rightarrow> Some True | Some i \<Rightarrow> Some (s_org_id r = i))))"

text \<open>Rows of equal keys come in the order of the table.\<close>

definition drain_order :: "source \<times> organization \<Rightarrow> string option \<times> string option" where
  "drain_order row = (s_last_fetched_at (fst row), s_change_detected_at (fst row))"

definition candidate_of :: "source \<times> organization \<Rightarrow> candidate" where
  "candidate_of row = (case row of (r, g) \<Rightarrow> \<lparr>c_id = s_id r, c_type = s_type r, c_org_id = s_org_id r,
     c_org_slug = o_slug g, c_org_name = o_name g, c_change_detected_at = s_change_detected_at r\<rparr>)"

definition drain_join :: "source list \<Rightarrow> organization list \<Rightarrow> (source \<times> organization) list" where
  "drain_join rows orgs = concat (map (\<lambda>r. map (Pair r) (filter (\<lambda>g. o_id g = s_org_id r) orgs)) rows)"

definition queryCandidates ::
  "nat \<Rightarrow> string option \<Rightarrow> int option \<Rightarrow> int \<Rightarrow> source list \<Rightarrow> organization list \<Rightarrow> candidate list \<times> nat" where
  "queryCandidates cap orgId drainCooldownMs now rows orgs =
     (let cooldownMs = (case drainCooldownMs of None \<Rightarrow> DRAIN_COOLDOWN_MS | Some ms \<Rightarrow> ms);
          hits = filter (\<lambda>row. holds (candidateWhere now cooldownMs orgId row)) (drain_join rows orgs);
          page = take (cap + 1) (sort_key drain_order hits)
      in if cap < length page then (map candidate_of (take cap page), length hits - cap)
         else (map candidate_of page, 0))"

text \<open>
  The page holds eligible sources, stalest first; none that waits is staler than one that is taken, and the
  ones that wait are counted.
\<close>

lemma candidate_pages:
  fixes hits :: "(source \<times> organization) list"
  assumes "hits = filter (\<lambda>row. holds (candidateWhere now cool orgId row)) (drain_join rows orgs)"
    and "cool = (case drainCooldownMs of None \<Rightarrow> DRAIN_COOLDOWN_MS | Some ms \<Rightarrow> ms)"
  shows "queryCandidates cap orgId drainCooldownMs now rows orgs =
     (map candidate_of (take cap (sort_key drain_order hits)), length hits - cap)"
  using assms by (auto simp: queryCandidates_def Let_def min_def)

theorem drain_takes_stalest:
  "\<exists>taken waiting. queryCandidates cap orgId drainCooldownMs now rows orgs = (map candidate_of taken, length waiting) \<and>
     length taken \<le> cap \<and> (waiting \<noteq> [] \<longrightarrow> length taken = cap) \<and>
     mset (taken @ waiting) = mset (filter (\<lambda>row. holds (candidateWhere now
       (case drainCooldownMs of None \<Rightarrow> DRAIN_COOLDOWN_MS | Some ms \<Rightarrow> ms) orgId row)) (drain_join rows orgs)) \<and>
     sorted_wrt (\<lambda>x y. drain_order x \<le> drain_order y) (taken @ waiting)"
proof -
  define hits where "hits = filter (\<lambda>row. holds (candidateWhere now
       (case drainCooldownMs of None \<Rightarrow> DRAIN_COOLDOWN_MS | Some ms \<Rightarrow> ms) orgId row)) (drain_join rows orgs)"
  let ?s = "sort_key drain_order hits"
  have "sorted_wrt (\<lambda>x y. drain_order x \<le> drain_order y) ?s"
    using sorted_sort_key [of drain_order hits] by (simp add: sorted_map)
  moreover have "mset (take cap ?s @ drop cap ?s) = mset hits" by simp
  ultimately show ?thesis
    using candidate_pages [OF hits_def refl, of cap]
    by (intro exI [of _ "take cap ?s"] exI [of _ "drop cap ?s"]) (simp add: hits_def [symmetric])
qed

lemma candidate_eligible:
  assumes "holds (candidateWhere now cool orgId (r, g))"
  shows "s_type r \<in> {Scrape, Agent}" "s_fetch_priority r \<noteq> Some Paused" "s_change_detected_at r \<noteq> None"
    "o_fetch_paused g \<noteq> Some True" "s_is_hidden r \<noteq> Some True" "json_extract (s_metadata r) [''ingestMode''] \<noteq> Some (VStr ''push'')"
    "0 < cool \<Longrightarrow> \<forall>t. s_last_drain_at r = Some t \<longrightarrow> t < iso_text (now - cool)"
proof -
  note c = assms [unfolded candidateWhere_def prod.case Let_def holds_and holds_or]
  show "s_type r \<in> {Scrape, Agent}" "s_fetch_priority r \<noteq> Some Paused" "s_change_detected_at r \<noteq> None"
    "o_fetch_paused g \<noteq> Some True" "s_is_hidden r \<noteq> Some True"
    using c by auto
  show "json_extract (s_metadata r) [''ingestMode''] \<noteq> Some (VStr ''push'')"
    using c by (simp add: locallyFetchedSql_def)
  show "0 < cool \<Longrightarrow> \<forall>t. s_last_drain_at r = Some t \<longrightarrow> t < iso_text (now - cool)"
    using c by auto
qed

end
