(* ===== verification/SourceActor.thy ===== *)
theory SourceActor
  imports SourceQueries "HOL-Library.Word"
begin

unbundle bit_operations_syntax

section \<open>The actor of a source\<close>

text \<open>
  \<open>apps/api/src/source-actor.ts\<close>, the seed jitter of \<open>lib/sources/source-actor-seed.ts\<close> and the status look-up
  of \<open>lib/workflow-instance.ts\<close>.  A handler of the durable object runs alone; it reads its storage, the row
  and the pause of the organisation in the database, and the platform of workflows.  What the platform
  answers is an argument: whether a \<open>create\<close> took effect and whether it threw, and what a look-up gave.  One
  handler reads one clock.  A failed read of the database makes it throw before it acts.
\<close>

subsection \<open>Seed jitter\<close>

definition fnv1a32 :: "string \<Rightarrow> 32 word" where
  "fnv1a32 s = foldl (\<lambda>h c. (h XOR of_nat (code_unit c)) * 16777619) 2166136261 s"

definition SEED_JITTER_WINDOW_MS :: int where "SEED_JITTER_WINDOW_MS = 5 * 60 * 1000"

definition seedJitterMs :: "string \<Rightarrow> int \<Rightarrow> int" where
  "seedJitterMs sourceId windowMs = (if windowMs \<le> 0 then 0 else uint (fnv1a32 sourceId) mod windowMs)"

subsection \<open>Storage\<close>

definition SAFETY_WINDOW_MS :: int where "SAFETY_WINDOW_MS = 15 * 60 * 1000"
definition CREATE_FAILURE_RETRY_MS :: int where "CREATE_FAILURE_RETRY_MS = 10 * 60 * 1000"
definition DUE_SLACK_MS :: int where "DUE_SLACK_MS = 30 * 1000"
definition SCRAPE_LOCK_LEASE_MS :: int where "SCRAPE_LOCK_LEASE_MS = 15 * 60 * 1000"

record actor_state =
  st_tier :: priority
  st_last_fetched_at :: "string option"
  st_next_alarm_at :: "int option"
  st_in_flight :: bool
  st_last_fired_at :: "int option"
  st_no_change :: int
  st_errors :: int
  st_next_fetch_after :: "string option"

record scrape_lock =
  lk_session :: string
  lk_expires_at :: int

record actor_storage =
  a_source_id :: "string option"
  a_alarm :: "int option"
  a_state :: "actor_state option"
  a_lock :: "scrape_lock option"

type_synonym instances = "string \<rightharpoonup> string"

record actor_world =
  w_storage :: actor_storage
  w_row :: "source option"
  w_org_paused :: "bool option"
  w_instances :: instances

datatype status_reply = Status string | Threw string
datatype create_mode = CreateOk | CreateLost | CreateAmbiguous

record actor_env =
  e_now :: int
  e_workflow :: bool
  e_reply :: "string \<Rightarrow> status_reply"
  e_create :: create_mode
  e_db_ok :: bool
  e_mirror_ok :: bool

datatype actor_effect = NotifyOrg string | Created string

subsection \<open>The workflow\<close>

definition sourceActorWorkflowId :: "string \<Rightarrow> int \<Rightarrow> string" where
  "sourceActorWorkflowId sourceId firedAtMs =
     ''source-actor-'' @ sourceId @ ''-'' @ int_to_dec (firedAtMs div SAFETY_WINDOW_MS)"

definition LIVE_WORKFLOW_STATUSES :: "string list" where
  "LIVE_WORKFLOW_STATUSES = [''queued'', ''running'', ''waiting'', ''paused'', ''waitingForPause'']"

definition WORKFLOW_NOT_FOUND_RE :: re where
  "WORKFLOW_NOT_FOUND_RE = alts [seqs [lit_i ''not'', Star space, lit_i ''found''],
     seqs [lit_i ''does'', plus space, lit_i ''not'', plus space, lit_i ''exist'']]"

datatype status_code = Unavailable | NotFound | StatusError

definition workflowInstanceStatus :: "bool \<Rightarrow> (string \<Rightarrow> status_reply) \<Rightarrow> string \<Rightarrow> status_code + string" where
  "workflowInstanceStatus bound reply i =
     (if \<not> bound then Inl Unavailable
      else (case reply i of Status s \<Rightarrow> Inr s
        | Threw message \<Rightarrow> Inl (if test WORKFLOW_NOT_FOUND_RE message then NotFound else StatusError)))"

definition previousWorkflowAlive :: "actor_env \<Rightarrow> string \<Rightarrow> int \<Rightarrow> bool" where
  "previousWorkflowAlive env sourceId lastFiredAt =
     (if \<not> e_workflow env then False
      else (case workflowInstanceStatus True (e_reply env) (sourceActorWorkflowId sourceId lastFiredAt) of
          Inl code \<Rightarrow> code \<noteq> NotFound
        | Inr status \<Rightarrow> status \<in> set LIVE_WORKFLOW_STATUSES))"

text \<open>\<open>create\<close> of an id that exists throws.  A \<open>create\<close> may also throw without effect, or after it took effect.\<close>

definition creates :: "actor_env \<Rightarrow> string \<Rightarrow> instances \<Rightarrow> bool" where
  "creates env sourceId insts \<longleftrightarrow>
     e_workflow env \<and> insts (sourceActorWorkflowId sourceId (e_now env)) = None \<and> e_create env \<noteq> CreateLost"

definition fireWorkflow :: "actor_env \<Rightarrow> string \<Rightarrow> instances \<Rightarrow> bool \<times> instances" where
  "fireWorkflow env sourceId insts =
     (if creates env sourceId insts
      then (e_create env = CreateOk, insts(sourceActorWorkflowId sourceId (e_now env) \<mapsto> ''queued''))
      else (False, insts))"

subsection \<open>Writing back\<close>

definition persistState :: "source \<Rightarrow> int option \<Rightarrow> bool \<Rightarrow> int option \<Rightarrow> actor_storage \<Rightarrow> actor_storage" where
  "persistState row nextAlarmAt inFlight lastFiredAt st = st\<lparr>a_state := Some
     \<lparr>st_tier = (case s_fetch_priority row of None \<Rightarrow> Normal | Some p \<Rightarrow> p),
      st_last_fetched_at = s_last_fetched_at row, st_next_alarm_at = nextAlarmAt, st_in_flight = inFlight,
      st_last_fired_at = lastFiredAt, st_no_change = or_zero (s_no_change row), st_errors = or_zero (s_errors row),
      st_next_fetch_after = s_next_fetch_after row\<rparr>\<rparr>"

text \<open>The mirror: a write that fails, or a date out of range, is logged and dropped.\<close>

definition mirrorToD1 :: "actor_env \<Rightarrow> int option \<Rightarrow> bool \<Rightarrow> source option \<Rightarrow> source option" where
  "mirrorToD1 env nextAlarmMs managed row =
     (if e_mirror_ok env \<and> (\<forall>t. nextAlarmMs = Some t \<longrightarrow> timeClip t \<noteq> None) \<and> timeClip (e_now env) \<noteq> None
      then map_option (\<lambda>r. r\<lparr>s_actor_managed := Some managed, s_actor_next_alarm_at := map_option iso_text nextAlarmMs,
             s_actor_last_alarm_at := Some (iso_text (e_now env))\<rparr>) row
      else row)"

definition scheduleAt :: "actor_env \<Rightarrow> source \<Rightarrow> int \<Rightarrow> bool \<Rightarrow> int option \<Rightarrow> actor_world \<Rightarrow> actor_world" where
  "scheduleAt env row alarmAtMs inFlight lastFiredAt w = w\<lparr>
     w_storage := persistState row (Some alarmAtMs) inFlight lastFiredAt ((w_storage w)\<lparr>a_alarm := Some alarmAtMs\<rparr>),
     w_row := mirrorToD1 env (Some alarmAtMs) True (w_row w)\<rparr>"

definition noReschedule :: "actor_env \<Rightarrow> source \<Rightarrow> actor_world \<Rightarrow> actor_world" where
  "noReschedule env row w = w\<lparr>
     w_storage := (persistState row None False None (w_storage w))\<lparr>a_alarm := None\<rparr>,
     w_row := mirrorToD1 env None False (w_row w)\<rparr>"

definition stop_actor :: "actor_env \<Rightarrow> actor_world \<Rightarrow> actor_world" where
  "stop_actor env w = w\<lparr>w_storage := (w_storage w)\<lparr>a_alarm := None, a_state := None\<rparr>,
     w_row := mirrorToD1 env None False (w_row w)\<rparr>"

subsection \<open>The operations\<close>

definition ensureScheduled :: "actor_env \<Rightarrow> string \<Rightarrow> bool \<Rightarrow> actor_world \<Rightarrow> (bool \<times> int) \<times> actor_world" where
  "ensureScheduled env sourceId force w =
     (let w1 = w\<lparr>w_storage := (w_storage w)\<lparr>a_source_id := Some sourceId\<rparr>\<rparr>;
          existing = a_alarm (w_storage w1);
          now = e_now env;
          stale = (case existing of None \<Rightarrow> False | Some t \<Rightarrow> t \<le> now - 60000);
          next_alarm = now + seedJitterMs sourceId SEED_JITTER_WINDOW_MS
      in if existing \<noteq> None \<and> \<not> stale \<and> \<not> force then
           ((False, the existing), w1\<lparr>w_row := mirrorToD1 env existing True (w_row w1)\<rparr>)
         else ((True, next_alarm), w1\<lparr>w_storage := (w_storage w1)\<lparr>a_alarm := Some next_alarm\<rparr>,
                 w_row := mirrorToD1 env (Some next_alarm) True (w_row w1)\<rparr>))"

definition onSourceChanged :: "actor_env \<Rightarrow> string \<Rightarrow> actor_world \<Rightarrow> actor_world" where
  "onSourceChanged env sourceId w =
     (let next_alarm = e_now env + seedJitterMs sourceId SEED_JITTER_WINDOW_MS
      in w\<lparr>w_storage := (w_storage w)\<lparr>a_source_id := Some sourceId, a_alarm := Some next_alarm\<rparr>,
           w_row := mirrorToD1 env (Some next_alarm) True (w_row w)\<rparr>)"

definition getState :: "actor_world \<Rightarrow> actor_state option" where
  "getState w = a_state (w_storage w)"

definition maybeNotifyOrgDrain :: "source \<Rightarrow> js_fault + actor_effect list" where
  "maybeNotifyOrgDrain row =
     (if s_type row \<noteq> Scrape \<and> s_type row \<noteq> Agent then Inr []
      else if text_of (s_change_detected_at row) = [] \<or> s_org_id row = [] then Inr []
      else if getSourceMeta row = VNull then Inl TypeError
      else if isPushFed (getSourceMeta row) then Inr []
      else Inr [NotifyOrg (s_org_id row)])"

definition orgFetchPaused :: "source \<Rightarrow> actor_world \<Rightarrow> bool" where
  "orgFetchPaused row w = (if s_org_id row = [] then False else w_org_paused w = Some True)"

text \<open>The deadline of the alarm: a source never polled is due at once, or when its backoff ends.\<close>

definition effective_due :: "(string \<Rightarrow> int option) \<Rightarrow> source \<Rightarrow> string \<Rightarrow> int \<Rightarrow> int option" where
  "effective_due legacy row nextDueAt now =
     (let backoffMs = parse_col (date_parse legacy) (s_next_fetch_after row)
      in if s_last_polled_at row = None then (case backoffMs of Some b \<Rightarrow> Some b | None \<Rightarrow> Some now)
         else date_parse legacy nextDueAt)"

definition in_flight_alive :: "actor_env \<Rightarrow> string \<Rightarrow> actor_state option \<Rightarrow> int option" where
  "in_flight_alive env sourceId prev =
     (case prev of None \<Rightarrow> None
      | Some p \<Rightarrow> (case st_last_fired_at p of None \<Rightarrow> None
          | Some fired \<Rightarrow>
              if st_in_flight p \<and> (e_now env - fired < SAFETY_WINDOW_MS \<or> previousWorkflowAlive env sourceId fired)
              then Some fired else None))"

definition fire_and_schedule ::
  "actor_env \<Rightarrow> string \<Rightarrow> source \<Rightarrow> fetch_plan \<Rightarrow> actor_state option \<Rightarrow> actor_world \<Rightarrow> actor_world \<times> actor_effect list" where
  "fire_and_schedule env sourceId row plan prev w =
     (let now = e_now env;
          (fired, insts) = fireWorkflow env sourceId (w_instances w);
          intervalMs = (case p_interval_hours plan of None \<Rightarrow> 4 | Some h \<Rightarrow> h) * msPerHour;
          nextAlarmMs = (if fired then now + intervalMs else now + CREATE_FAILURE_RETRY_MS);
          lastFired = (if fired then Some now else (case prev of None \<Rightarrow> None | Some p \<Rightarrow> st_last_fired_at p))
      in (scheduleAt env row nextAlarmMs fired lastFired (w\<lparr>w_instances := insts\<rparr>),
          if creates env sourceId (w_instances w) then [Created (sourceActorWorkflowId sourceId now)] else []))"

text \<open>The runtime clears the alarm before it calls the handler; a handler that throws leaves it cleared.\<close>

definition alarm :: "(string \<Rightarrow> int option) \<Rightarrow> actor_env \<Rightarrow> actor_world \<Rightarrow> js_fault + actor_world \<times> actor_effect list" where
  "alarm legacy env w0 =
     (let w = w0\<lparr>w_storage := (w_storage w0)\<lparr>a_alarm := None\<rparr>\<rparr>; now = e_now env in
      case a_source_id (w_storage w) of None \<Rightarrow> Inr (w, [])
      | Some sourceId \<Rightarrow>
        if sourceId = [] then Inr (w, []) else
        if \<not> e_db_ok env then Inl DbFault else
        (case w_row w of None \<Rightarrow> Inr (stop_actor env w, [])
         | Some row \<Rightarrow>
           (case maybeNotifyOrgDrain row of Inl e \<Rightarrow> Inl e
            | Inr notes \<Rightarrow>
              (case describeFetchPlan row False of Inl e \<Rightarrow> Inl e
               | Inr plan \<Rightarrow>
                 (case computeFetchState (date_parse legacy) row plan now of Inl e \<Rightarrow> Inl e
                  | Inr state \<Rightarrow>
                    if orgFetchPaused row w then Inr (noReschedule env row w, notes)
                    else (case f_next_due_at state of None \<Rightarrow> Inr (noReschedule env row w, notes)
                      | Some nextDueAt \<Rightarrow>
                        (let prev = getState w;
                             due = effective_due legacy row nextDueAt now
                         in if (case due of Some d \<Rightarrow> now + DUE_SLACK_MS < d | None \<Rightarrow> False) then
                              Inr (scheduleAt env row (the due) False
                                     (case prev of None \<Rightarrow> None | Some p \<Rightarrow> st_last_fired_at p) w, notes)
                            else (case in_flight_alive env sourceId prev of
                                Some fired \<Rightarrow> Inr (scheduleAt env row (now + SAFETY_WINDOW_MS) True (Some fired) w, notes)
                              | None \<Rightarrow> (case fire_and_schedule env sourceId row plan prev w of (w', effects) \<Rightarrow> Inr (w', notes @ effects)))))))))) "

subsection \<open>The update lock\<close>

definition tryAcquireScrapeLock :: "int \<Rightarrow> string \<Rightarrow> actor_storage \<Rightarrow> (bool \<times> string) \<times> actor_storage" where
  "tryAcquireScrapeLock now sessionId st =
     (case a_lock st of
        Some l \<Rightarrow> if now < lk_expires_at l then ((False, lk_session l), st)
                  else ((True, sessionId), st\<lparr>a_lock := Some \<lparr>lk_session = sessionId, lk_expires_at = now + SCRAPE_LOCK_LEASE_MS\<rparr>\<rparr>)
      | None \<Rightarrow> ((True, sessionId), st\<lparr>a_lock := Some \<lparr>lk_session = sessionId, lk_expires_at = now + SCRAPE_LOCK_LEASE_MS\<rparr>\<rparr>))"

definition releaseScrapeLock :: "string \<Rightarrow> actor_storage \<Rightarrow> actor_storage" where
  "releaseScrapeLock sessionId st =
     (case a_lock st of Some l \<Rightarrow> if lk_session l = sessionId then st\<lparr>a_lock := None\<rparr> else st | None \<Rightarrow> st)"

subsection \<open>The query and the actor agree on what is due\<close>

text \<open>Metadata as the routes write it: JSON, not \<open>null\<close>, with a boolean \<open>firecrawl.enabled\<close> if any.\<close>

definition meta_typed :: "meta_col \<Rightarrow> bool" where
  "meta_typed m \<longleftrightarrow> (case m of MetaNull \<Rightarrow> True | MetaBroken _ \<Rightarrow> False
     | MetaText v \<Rightarrow> v \<noteq> VNull \<and> (case js_chain (js_prop v ''firecrawl'') ''enabled'' of
         None \<Rightarrow> True | Some VNull \<Rightarrow> True | Some (VBool b) \<Rightarrow> True | Some _ \<Rightarrow> False))"

text \<open>A column the code stamped, with room for one interval of the slow tier.\<close>

definition stamped :: "string option \<Rightarrow> bool" where
  "stamped c \<longleftrightarrow> (\<forall>s. c = Some s \<longrightarrow> (\<exists>t. s = iso_text t \<and> instant t \<and> instant (t + 24 * msPerHour)))"

lemma iso_text_ne [simp]: "iso_text t \<noteq> []"
  by (simp add: iso_text_def)

lemma stamped_cases:
  assumes "stamped c"
  obtains "c = None" | t where "c = Some (iso_text t)" "instant t" "instant (t + 24 * msPerHour)"
  using assms by (cases c) (auto simp: stamped_def)

lemma json_get_one: "json_get v [k] = (case js_prop v k of Some VNull \<Rightarrow> None | x \<Rightarrow> x)"
  by (cases v) (auto split: option.split jvalue.split)

lemma json_get_two: "json_get v [k, e] = (case js_chain (js_prop v k) e of Some VNull \<Rightarrow> None | x \<Rightarrow> x)"
  by (cases v) (auto simp: js_chain_def json_get_one split: option.split)

lemma locally_fetched_iff:
  assumes "meta_typed (s_metadata r)"
  shows "holds (locallyFetchedSql (s_metadata r)) \<longleftrightarrow> \<not> isPushFed (getSourceMeta r) \<and>
     \<not> js_truthy (js_chain (js_prop (getSourceMeta r) ''firecrawl'') ''enabled'')"
    and "getSourceMeta r \<noteq> VNull"
  using assms
  by (auto simp: locallyFetchedSql_def json_extract_def getSourceMeta_def meta_typed_def json_get_one json_get_two
      isPushFed_def js_chain_def split: meta_col.splits option.splits jvalue.splits)

lemma polled_plan:
  assumes "getSourceMeta r \<noteq> VNull" and "\<not> isPushFed (getSourceMeta r)"
    and "\<not> js_truthy (js_chain (js_prop (getSourceMeta r) ''firecrawl'') ''enabled'')"
  obtains plan where "describeFetchPlan r False = Inr plan" "p_cadence plan = Poll"
    "p_paused plan = (s_fetch_priority r = Some Paused)" "p_interval_hours plan = tierHours (s_fetch_priority r)"
  using assms that by (auto simp: describeFetchPlan_def Let_def)

text \<open>The actor's view of a row at an instant: its deadline, when the row has one.\<close>

definition actor_due :: "(string \<Rightarrow> int option) \<Rightarrow> source \<Rightarrow> int \<Rightarrow> int option" where
  "actor_due legacy r now =
     (case describeFetchPlan r False of Inl _ \<Rightarrow> None
      | Inr plan \<Rightarrow> (case computeFetchState (date_parse legacy) r plan now of Inl _ \<Rightarrow> None
         | Inr st \<Rightarrow> (case f_next_due_at st of None \<Rightarrow> None | Some nd \<Rightarrow> effective_due legacy r nd now)))"

lemma actor_due_none:
  assumes "meta_typed (s_metadata r)"
    and "\<not> holds (locallyFetchedSql (s_metadata r)) \<or> tierHours (s_fetch_priority r) = None"
  shows "actor_due legacy r now = None"
proof -
  have "f_next_due_at st = None"
    if p: "describeFetchPlan r False = Inr plan" "computeFetchState (date_parse legacy) r plan now = Inr st" for plan st
  proof -
    have "p_interval_hours plan = None"
      using plan_hours [OF p(1), of "the (p_interval_hours plan)"] plan_poll [OF p(1)] locally_fetched_iff [OF assms(1)] assms(2)
      by (cases "p_interval_hours plan") auto
    with p(2) computeFetchState_idle [OF p(1)] show ?thesis by auto
  qed
  then show ?thesis by (auto simp: actor_due_def split: sum.split option.split)
qed

lemma actor_due_some:
  assumes "meta_typed (s_metadata r)" and "holds (locallyFetchedSql (s_metadata r))"
    and h: "tierHours (s_fetch_priority r) = Some h"
    and "stamped (s_last_polled_at r)" and "stamped (s_next_fetch_after r)"
    and "instant now" and "instant (now + 24 * msPerHour)"
  shows "actor_due legacy r now = Some (case s_last_polled_at r of
       None \<Rightarrow> (case parse_col (date_parse legacy) (s_next_fetch_after r) of None \<Rightarrow> now | Some b \<Rightarrow> b)
     | Some _ \<Rightarrow> next_due (date_parse legacy) r h now)"
proof -
  obtain plan where plan: "describeFetchPlan r False = Inr plan" "p_cadence plan = Poll"
    "p_paused plan = (s_fetch_priority r = Some Paused)" "p_interval_hours plan = Some h"
    using polled_plan [of r] locally_fetched_iff [OF assms(1)] assms(2) h by metis
  have np: "\<not> p_paused plan" using plan(3) h by auto
  have hb: "0 \<le> h" "h \<le> 24" using h by (auto simp: tierHours_Some)
  have base: "instant t \<Longrightarrow> instant (t + 24 * msPerHour) \<Longrightarrow> instant (t + h * msPerHour)" for t
    using instant_between [of t "t + 24 * msPerHour" "t + h * msPerHour"] hb by simp
  have i: "instant (next_due (date_parse legacy) r h now)"
    by (rule stamped_cases [OF assms(4)]; rule stamped_cases [OF assms(5)])
      (use base base [OF assms(6,7)] in \<open>simp_all add: next_due_def parse_col_def date_parse_iso Let_def\<close>)
  show ?thesis
    using computeFetchState_due [OF plan(4) np plan(2) i] date_parse_iso [OF i, of legacy] plan(1)
    by (auto simp: actor_due_def effective_due_def Let_def split: option.split)
qed

lemma parse_col_None [simp]: "parse_col parse None = None"
  by (simp add: parse_col_def)

lemma date_parse_col: "instant t \<Longrightarrow> parse_col (date_parse legacy) (Some (iso_text t)) = Some t"
  by (simp add: parse_col_def date_parse_iso)

text \<open>C24: The SQL condition of the poll cron selects exactly the rows the source actor finds due: a polled row is due when the
  instant the actor computes from the tier interval and the backoff has come, except at the exact instant of the tier
  deadline, which the strict comparison of the query leaves to the next tick.
\<close>

theorem due_query_matches_actor:
  assumes "meta_typed (s_metadata r)" and "stamped (s_last_polled_at r)" and "stamped (s_next_fetch_after r)"
    and "instant (now - 24 * msPerHour)" and "instant (now + 24 * msPerHour)"
  shows "holds (dueSourcesWhere pausedOrgs now changeDetect r) \<longleftrightarrow>
     holds (pollable changeDetect r) \<and> s_org_id r \<notin> set pausedOrgs \<and>
     (\<exists>due. actor_due legacy r now = Some due \<and> due \<le> now) \<and>
     (\<forall>h p. tierHours (s_fetch_priority r) = Some h \<and> parse_col (date_parse legacy) (s_last_polled_at r) = Some p \<longrightarrow>
        p + h * msPerHour \<noteq> now)"
proof (cases "holds (locallyFetchedSql (s_metadata r)) \<and> (\<exists>h. tierHours (s_fetch_priority r) = Some h)")
  case False
  then have "actor_due legacy r now = None" using actor_due_none [OF assms(1)] by (cases "tierHours (s_fetch_priority r)") auto
  moreover have "\<not> holds (dueSourcesWhere pausedOrgs now changeDetect r)"
    using False by (auto simp: dueSourcesWhere_def tier_condition_def Let_def)
  ultimately show ?thesis by simp
next
  case True
  then obtain h where lf: "holds (locallyFetchedSql (s_metadata r))" and h: "tierHours (s_fetch_priority r) = Some h" by blast
  have now: "instant now" "instant (now - h * msPerHour)"
    using instant_between [OF assms(4,5)] h by (auto simp: tierHours_Some)
  have t: "holds (sql_or (tier_condition now r TNormal) (tier_condition now r TLow)) \<longleftrightarrow>
      (\<forall>s. s_last_polled_at r = Some s \<longrightarrow> s < iso_text (now - h * msPerHour))"
    using h by (auto simp: tierHours_Some tier_condition_def Let_def)
  have np: "holds (sql_ne (s_fetch_priority r) Paused)" using h by (auto simp: tierHours_Some)
  have og: "holds (sql_not_in (Some (s_org_id r)) pausedOrgs) \<longleftrightarrow> s_org_id r \<notin> set pausedOrgs"
    by (simp add: sql_not_in_def)
  have b: "holds (backoffReady now r) \<longleftrightarrow> (case parse_col (date_parse legacy) (s_next_fetch_after r) of None \<Rightarrow> True | Some b \<Rightarrow> b \<le> now)"
    by (rule stamped_cases [OF assms(3)])
      (simp_all add: backoffReady_def holds_le date_parse_col instant_less(2) now(1))
  note due = actor_due_some [OF assms(1) lf h assms(2,3) now(1) assms(5), of legacy]
  have d: "holds (dueSourcesWhere pausedOrgs now changeDetect r) \<longleftrightarrow>
      holds (pollable changeDetect r) \<and> s_org_id r \<notin> set pausedOrgs \<and> holds (backoffReady now r) \<and>
      (\<forall>s. s_last_polled_at r = Some s \<longrightarrow> s < iso_text (now - h * msPerHour))"
    unfolding dueSourcesWhere_def holds_and t og using lf np by blast
  show ?thesis
    by (rule stamped_cases [OF assms(2)])
      (auto simp: d b due next_due_le date_parse_col instant_less(1) now h split: option.splits)
qed

lemma sample_due:
  "actor_due (\<lambda>_. None) sample_source 1767225600000 = Some 1767225600000"
  "meta_typed (s_metadata sample_source)" "stamped (s_last_polled_at sample_source)" "stamped (s_next_fetch_after sample_source)"
  "instant (1767225600000 - 24 * msPerHour)" "instant (1767225600000 + 24 * msPerHour)"
proof -
  show i: "instant (1767225600000 - 24 * msPerHour)" "instant (1767225600000 + 24 * msPerHour)"
    by (simp_all add: instant_def keyDay_def dayFromCivil_def yearStart_def monthStart_def monthDays_def leap_def)
  have n: "instant 1767225600000" using instant_between [OF i] by simp
  show r: "meta_typed (s_metadata sample_source)" "stamped (s_last_polled_at sample_source)" "stamped (s_next_fetch_after sample_source)"
    by (simp_all add: sample_source_def meta_typed_def stamped_def)
  have "holds (locallyFetchedSql (s_metadata sample_source))" "tierHours (s_fetch_priority sample_source) = Some 4"
    by (simp_all add: sample_source_def locallyFetchedSql_def json_extract_def)
  then show "actor_due (\<lambda>_. None) sample_source 1767225600000 = Some 1767225600000"
    using actor_due_some [OF r(1) _ _ r(2,3) n i(2)] by (simp add: sample_source_def)
qed

theorem due_query_matches_actor_witness:
  "holds (dueSourcesWhere [] 1767225600000 True sample_source)"
  using due_query_matches_actor [OF sample_due(2-6), of "[]" True "\<lambda>_. None"] sample_due(1)
  by (simp add: sample_source_def pollable_def)

subsection \<open>What one alarm does\<close>

abbreviation cleared :: "actor_world \<Rightarrow> actor_world" where
  "cleared w \<equiv> w\<lparr>w_storage := (w_storage w)\<lparr>a_alarm := None\<rparr>\<rparr>"

lemma seedJitter_bounds: "0 \<le> seedJitterMs s SEED_JITTER_WINDOW_MS" "seedJitterMs s SEED_JITTER_WINDOW_MS < SEED_JITTER_WINDOW_MS"
  by (simp_all add: seedJitterMs_def SEED_JITTER_WINDOW_MS_def)

text \<open>The alarm of a source with a deadline.\<close>

lemma alarm_due:
  assumes "a_source_id (w_storage w) = Some sid" and "sid \<noteq> []" and "e_db_ok env" and "w_row w = Some r"
    and "\<not> orgFetchPaused r w" and "actor_due legacy r (e_now env) = Some due"
  shows "\<exists>noted plan. maybeNotifyOrgDrain r = Inr noted \<and> describeFetchPlan r False = Inr plan \<and> alarm legacy env w = Inr
    (if e_now env + DUE_SLACK_MS < due then
       (scheduleAt env r due False (case getState w of None \<Rightarrow> None | Some p \<Rightarrow> st_last_fired_at p) (cleared w), noted)
     else (case in_flight_alive env sid (getState w) of
         Some fired \<Rightarrow> (scheduleAt env r (e_now env + SAFETY_WINDOW_MS) True (Some fired) (cleared w), noted)
       | None \<Rightarrow> (case fire_and_schedule env sid r plan (getState w) (cleared w) of (w', effects) \<Rightarrow> (w', noted @ effects))))
    \<and> (\<forall>i. Created i \<notin> set noted)"
proof -
  obtain plan st nd where p: "describeFetchPlan r False = Inr plan"
    "computeFetchState (date_parse legacy) r plan (e_now env) = Inr st" "f_next_due_at st = Some nd"
    "effective_due legacy r nd (e_now env) = Some due"
    using assms(6) by (auto simp: actor_due_def split: sum.splits option.splits)
  then have "getSourceMeta r \<noteq> VNull" by (auto simp: describeFetchPlan_def Let_def)
  then have "\<exists>noted. maybeNotifyOrgDrain r = Inr noted \<and> (\<forall>i. Created i \<notin> set noted)"
    by (simp add: maybeNotifyOrgDrain_def)
  then obtain noted where n: "maybeNotifyOrgDrain r = Inr noted" "\<forall>i. Created i \<notin> set noted" by blast
  have g: "getState (cleared w) = getState w" "orgFetchPaused r (cleared w) = orgFetchPaused r w"
    by (simp_all add: getState_def orgFetchPaused_def)
  show ?thesis
    using assms(1-5) p n g by (intro exI [of _ noted] exI [of _ plan]) (auto simp: alarm_def Let_def split: option.split prod.split)
qed

text \<open>The ways an alarm ends: it leaves the world, stops the actor, or sets the next alarm.\<close>

definition next_alarms :: "(string \<Rightarrow> int option) \<Rightarrow> actor_env \<Rightarrow> source \<Rightarrow> int set" where
  "next_alarms legacy env r =
     {due. actor_due legacy r (e_now env) = Some due \<and> e_now env + DUE_SLACK_MS < due} \<union>
     {e_now env + SAFETY_WINDOW_MS, e_now env + CREATE_FAILURE_RETRY_MS, e_now env + 4 * msPerHour, e_now env + 24 * msPerHour}"

lemma alarm_ends:
  assumes "alarm legacy env w = Inr (w', effs)"
  obtains "w' = cleared w" "w_row w = None \<or> a_source_id (w_storage w) = None \<or> a_source_id (w_storage w) = Some []"
  | "w' = stop_actor env (cleared w)" "w_row w = None"
  | r where "w_row w = Some r" "w' = noReschedule env r (cleared w)"
  | r t fl lf insts where "w_row w = Some r" "t \<in> next_alarms legacy env r"
      "w' = scheduleAt env r t fl lf ((cleared w)\<lparr>w_instances := insts\<rparr>)"
proof -
  let ?w = "cleared w"
  consider (none) "a_source_id (w_storage w) = None \<or> a_source_id (w_storage w) = Some []"
    | (sid) sid where "a_source_id (w_storage w) = Some sid" "sid \<noteq> []"
    by (cases "a_source_id (w_storage w)") auto
  then show ?thesis
  proof cases
    case none
    then show ?thesis using assms that(1) by (auto simp: alarm_def Let_def)
  next
    case (sid sid)
    with assms have db: "e_db_ok env" by (auto simp: alarm_def Let_def split: if_splits)
    show ?thesis
    proof (cases "w_row w")
      case None
      then show ?thesis using assms sid db that(2) by (auto simp: alarm_def Let_def)
    next
      case (Some r)
      from assms sid db Some obtain noted where n: "maybeNotifyOrgDrain r = Inr noted"
        by (auto simp: alarm_def Let_def split: sum.splits)
      from assms sid db Some n obtain plan where p: "describeFetchPlan r False = Inr plan"
        by (auto simp: alarm_def Let_def split: sum.splits)
      from assms sid db Some n p obtain st where st: "computeFetchState (date_parse legacy) r plan (e_now env) = Inr st"
        by (auto simp: alarm_def Let_def split: sum.splits)
      have g: "getState ?w = getState w" by (simp add: getState_def)
      show ?thesis
      proof (cases "orgFetchPaused r ?w \<or> f_next_due_at st = None")
        case True
        with assms sid db Some n p st have "w' = noReschedule env r ?w"
          by (auto simp: alarm_def Let_def split: option.splits)
        with that(3) Some show ?thesis by blast
      next
        case False
        then obtain nd where nd: "f_next_due_at st = Some nd" by blast
        let ?due = "effective_due legacy r nd (e_now env)"
        show ?thesis
        proof (cases "\<exists>d. ?due = Some d \<and> e_now env + DUE_SLACK_MS < d")
          case True
          then obtain d where d: "?due = Some d" "e_now env + DUE_SLACK_MS < d" by blast
          with assms sid db Some n p st False nd
          have "w' = scheduleAt env r d False (case getState w of None \<Rightarrow> None | Some p \<Rightarrow> st_last_fired_at p) ?w"
            by (simp add: alarm_def Let_def g)
          moreover have "actor_due legacy r (e_now env) = Some d" using p st nd d by (simp add: actor_due_def)
          ultimately show ?thesis
            using that(4) [of r d False _ "w_instances ?w"] Some d by (simp add: next_alarms_def)
        next
          case early: False
          then have e: "\<not> (case ?due of Some d \<Rightarrow> e_now env + DUE_SLACK_MS < d | None \<Rightarrow> False)"
            by (auto split: option.split)
          show ?thesis
          proof (cases "in_flight_alive env sid (getState w)")
            case (Some fired)
            with assms sid db \<open>w_row w = Some r\<close> n p st False nd e
            have "w' = scheduleAt env r (e_now env + SAFETY_WINDOW_MS) True (Some fired) ?w"
              by (simp add: alarm_def Let_def g)
            then show ?thesis using that(4) [of r "e_now env + SAFETY_WINDOW_MS" True "Some fired" "w_instances ?w"] \<open>w_row w = Some r\<close> by (simp add: next_alarms_def)
          next
            case None
            with assms sid db Some n p st False nd e
            have "w' = fst (fire_and_schedule env sid r plan (getState w) ?w)"
              by (auto simp: alarm_def Let_def g split: prod.splits)
            moreover obtain fired insts where f: "fireWorkflow env sid (w_instances ?w) = (fired, insts)"
              by (cases "fireWorkflow env sid (w_instances ?w)")
            ultimately have w': "w' = scheduleAt env r
                (if fired then e_now env + (case p_interval_hours plan of None \<Rightarrow> 4 | Some h \<Rightarrow> h) * msPerHour
                 else e_now env + CREATE_FAILURE_RETRY_MS) fired
                (if fired then Some (e_now env) else (case getState w of None \<Rightarrow> None | Some p \<Rightarrow> st_last_fired_at p))
                (?w\<lparr>w_instances := insts\<rparr>)"
              by (simp add: fire_and_schedule_def Let_def)
            have "p_interval_hours plan \<in> {None, Some 4, Some 24}"
              using plan_hours [OF p, of "the (p_interval_hours plan)"]
              by (cases "p_interval_hours plan") (auto simp: tierHours_Some)
            then show ?thesis
              by (intro that(4) [OF Some _ w']) (auto simp: next_alarms_def)
          qed
        qed
      qed
    qed
  qed
qed

text \<open>C20: An alarm creates a run only for a due row without a live one, and it always sets the next alarm ahead.\<close>

theorem alarm_rearms:
  assumes "a_source_id (w_storage w) = Some sid" and "sid \<noteq> []" and "e_db_ok env" and "w_row w = Some r"
    and "\<not> orgFetchPaused r w" and "actor_due legacy r (e_now env) = Some due"
  shows "\<exists>w' effs t. alarm legacy env w = Inr (w', effs) \<and> a_alarm (w_storage w') = Some t \<and>
     e_now env + DUE_SLACK_MS < t \<and> (t = due \<or> t \<le> e_now env + 24 * msPerHour) \<and>
     ((\<exists>i. Created i \<in> set effs) \<longleftrightarrow> due \<le> e_now env + DUE_SLACK_MS \<and> in_flight_alive env sid (getState w) = None \<and>
        creates env sid (w_instances w)) \<and>
     (\<forall>i. Created i \<in> set effs \<longrightarrow> i = sourceActorWorkflowId sid (e_now env) \<and> w_instances w i = None \<and> w_instances w' i \<noteq> None)"
proof -
  obtain noted plan where p: "describeFetchPlan r False = Inr plan" and n: "\<forall>i. Created i \<notin> set noted" and
    a: "alarm legacy env w = Inr
    (if e_now env + DUE_SLACK_MS < due then
       (scheduleAt env r due False (case getState w of None \<Rightarrow> None | Some p \<Rightarrow> st_last_fired_at p) (cleared w), noted)
     else (case in_flight_alive env sid (getState w) of
         Some fired \<Rightarrow> (scheduleAt env r (e_now env + SAFETY_WINDOW_MS) True (Some fired) (cleared w), noted)
       | None \<Rightarrow> (case fire_and_schedule env sid r plan (getState w) (cleared w) of (w', effects) \<Rightarrow> (w', noted @ effects))))"
    using alarm_due [OF assms] by metis
  consider (early) "e_now env + DUE_SLACK_MS < due"
    | (alive) fired where "\<not> e_now env + DUE_SLACK_MS < due" "in_flight_alive env sid (getState w) = Some fired"
    | (fire) "\<not> e_now env + DUE_SLACK_MS < due" "in_flight_alive env sid (getState w) = None"
    by (cases "in_flight_alive env sid (getState w)") auto
  then show ?thesis
  proof cases
    case early
    then show ?thesis using a n by (simp add: scheduleAt_def persistState_def)
  next
    case alive
    then show ?thesis using a n by (simp add: scheduleAt_def persistState_def SAFETY_WINDOW_MS_def DUE_SLACK_MS_def)
  next
    case fire
    obtain w' effs where f: "fire_and_schedule env sid r plan (getState w) (cleared w) = (w', effs)" by (cases "fire_and_schedule env sid r plan (getState w) (cleared w)")
    have "p_interval_hours plan \<in> {None, Some 4, Some 24}"
      using plan_hours [OF p, of "the (p_interval_hours plan)"] by (cases "p_interval_hours plan") (auto simp: tierHours_Some)
    moreover obtain ok insts where k: "fireWorkflow env sid (w_instances w) = (ok, insts)" by (cases "fireWorkflow env sid (w_instances w)")
    ultimately have t: "a_alarm (w_storage w') = Some (if ok then e_now env + (case p_interval_hours plan of None \<Rightarrow> 4 | Some h \<Rightarrow> h) * msPerHour
          else e_now env + CREATE_FAILURE_RETRY_MS)" "w_instances w' = insts"
      "effs = (if creates env sid (w_instances w) then [Created (sourceActorWorkflowId sid (e_now env))] else [])"
      using f by (auto simp: fire_and_schedule_def Let_def scheduleAt_def persistState_def)
    have "creates env sid (w_instances w) \<Longrightarrow> w_instances w (sourceActorWorkflowId sid (e_now env)) = None \<and>
        insts (sourceActorWorkflowId sid (e_now env)) \<noteq> None"
      using k by (auto simp: fireWorkflow_def creates_def split: if_splits)
    then show ?thesis
      using a f fire n t \<open>p_interval_hours plan \<in> {None, Some 4, Some 24}\<close>
      by (auto simp: DUE_SLACK_MS_def CREATE_FAILURE_RETRY_MS_def)
  qed
qed

theorem alarm_rearms_witness:
  "\<exists>w' effs t. alarm (\<lambda>_. None)
       \<lparr>e_now = 1767225600000, e_workflow = True, e_reply = (\<lambda>_. Threw ''instance not found''), e_create = CreateOk,
        e_db_ok = True, e_mirror_ok = True\<rparr>
       \<lparr>w_storage = \<lparr>a_source_id = Some ''src_1'', a_alarm = None, a_state = None, a_lock = None\<rparr>,
        w_row = Some sample_source, w_org_paused = None, w_instances = Map.empty\<rparr> = Inr (w', effs) \<and>
     a_alarm (w_storage w') = Some t \<and> 1767225600000 < t \<and> (\<exists>i. Created i \<in> set effs)"
proof -
  let ?env = "\<lparr>e_now = 1767225600000, e_workflow = True, e_reply = (\<lambda>_. Threw ''instance not found''), e_create = CreateOk,
        e_db_ok = True, e_mirror_ok = True\<rparr>"
  let ?w = "\<lparr>w_storage = \<lparr>a_source_id = Some ''src_1'', a_alarm = None, a_state = None, a_lock = None\<rparr>,
        w_row = Some sample_source, w_org_paused = None, w_instances = Map.empty\<rparr>"
  have "a_source_id (w_storage ?w) = Some ''src_1''" "''src_1'' \<noteq> []" "e_db_ok ?env" "w_row ?w = Some sample_source"
    "\<not> orgFetchPaused sample_source ?w" "actor_due (\<lambda>_. None) sample_source (e_now ?env) = Some 1767225600000"
    using sample_due(1) by (simp_all add: orgFetchPaused_def)
  from alarm_rearms [OF this] obtain w' effs t where "alarm (\<lambda>_. None) ?env ?w = Inr (w', effs)"
    "a_alarm (w_storage w') = Some t" "e_now ?env + DUE_SLACK_MS < t" "\<exists>i. Created i \<in> set effs"
    by (auto simp: DUE_SLACK_MS_def in_flight_alive_def getState_def creates_def)
  then show ?thesis by (auto simp: DUE_SLACK_MS_def)
qed

end
