(* ===== verification/ActorRuns.thy ===== *)
theory ActorRuns
  imports SourceActor
begin

section \<open>Runs of a source's actor\<close>

text \<open>
  The actor of one source among the others that touch its world: the clock, the platform of workflows, the
  writers of the row (who leave the mirror columns to the actor), the switch of the organisation.  A state
  is the instant of the last event, whether the last mirror write the actor attempted reached the table, and the world.
  Mirror writes are best-effort and any of them may fail.
\<close>

definition actor_row_ok :: "source \<Rightarrow> bool" where
  "actor_row_ok r \<longleftrightarrow> meta_typed (s_metadata r) \<and> stamped (s_last_polled_at r) \<and> stamped (s_next_fetch_after r)"

text \<open>Another writer's statement.\<close>

definition foreign_write :: "(source \<Rightarrow> source) \<Rightarrow> source \<Rightarrow> source" where
  "foreign_write f r = (f r)\<lparr>s_id := s_id r, s_actor_managed := s_actor_managed r,
     s_actor_next_alarm_at := s_actor_next_alarm_at r, s_actor_last_alarm_at := s_actor_last_alarm_at r\<rparr>"

definition sane_env :: "actor_env \<Rightarrow> bool" where
  "sane_env env \<longleftrightarrow> instant (e_now env) \<and> instant (e_now env + 24 * msPerHour)"

text \<open>An alarm without a source id returns before it mirrors anything; every other one that does not throw mirrors.\<close>

definition told_after :: "actor_env \<Rightarrow> actor_world \<Rightarrow> bool \<Rightarrow> bool" where
  "told_after env w told = (if a_source_id (w_storage w) \<in> {None, Some []} then told else e_mirror_ok env)"

inductive actor_step :: "(string \<Rightarrow> int option) \<Rightarrow> string \<Rightarrow> int \<times> bool \<times> actor_world \<Rightarrow> int \<times> bool \<times> actor_world \<Rightarrow> bool"
  for legacy sid where
  tick: "c \<le> c' \<Longrightarrow> actor_step legacy sid (c, told, w) (c', told, w)"
| fires: "c \<le> e_now env \<Longrightarrow> sane_env env \<Longrightarrow> a_alarm (w_storage w) = Some t \<Longrightarrow> t \<le> e_now env \<Longrightarrow>
    alarm legacy env w = Inr (w', effs) \<Longrightarrow> actor_step legacy sid (c, told, w) (e_now env, told_after env w told, w')"
| throws: "c \<le> e_now env \<Longrightarrow> a_alarm (w_storage w) = Some t \<Longrightarrow> t \<le> e_now env \<Longrightarrow>
    alarm legacy env w = Inl e \<Longrightarrow> actor_step legacy sid (c, told, w) (e_now env, told, cleared w)"
| ensures: "c \<le> e_now env \<Longrightarrow> sane_env env \<Longrightarrow>
    actor_step legacy sid (c, told, w) (e_now env, e_mirror_ok env, snd (ensureScheduled env sid force w))"
| changes: "c \<le> e_now env \<Longrightarrow> sane_env env \<Longrightarrow>
    actor_step legacy sid (c, told, w) (e_now env, e_mirror_ok env, onSourceChanged env sid w)"
| writes: "w_row w = Some r \<Longrightarrow> actor_row_ok (f r) \<Longrightarrow>
    actor_step legacy sid (c, told, w) (c, told, w\<lparr>w_row := Some (foreign_write f r)\<rparr>)"
| deletes: "actor_step legacy sid (c, told, w) (c, told, w\<lparr>w_row := None\<rparr>)"
| switches: "actor_step legacy sid (c, told, w) (c, told, w\<lparr>w_org_paused := p\<rparr>)"
| proceeds: "dom insts = dom (w_instances w) \<Longrightarrow> actor_step legacy sid (c, told, w) (c, told, w\<lparr>w_instances := insts\<rparr>)"

abbreviation actor_reach ::
    "(string \<Rightarrow> int option) \<Rightarrow> string \<Rightarrow> int \<times> bool \<times> actor_world \<Rightarrow> int \<times> bool \<times> actor_world \<Rightarrow> bool" where
  "actor_reach legacy sid \<equiv> (actor_step legacy sid)\<^sup>*\<^sup>*"

text \<open>
  What the mirror says after a write that reached it: it names the pending alarm; without one it says that the actor is
  off, or names an alarm whose handler threw.
\<close>

definition mirror_says :: "int \<Rightarrow> int option \<Rightarrow> source \<Rightarrow> bool" where
  "mirror_says c pending r \<longleftrightarrow> (case pending of
       Some t \<Rightarrow> instant t \<and> s_actor_managed r = Some True \<and> s_actor_next_alarm_at r = Some (iso_text t)
     | None \<Rightarrow> s_actor_managed r \<noteq> Some True \<or> s_actor_next_alarm_at r = None \<or>
         (\<exists>t. instant t \<and> t \<le> c \<and> s_actor_next_alarm_at r = Some (iso_text t)))"

definition mirror_inv :: "int \<times> bool \<times> actor_world \<Rightarrow> bool" where
  "mirror_inv s \<longleftrightarrow> (case s of (c, told, w) \<Rightarrow>
     (\<forall>t. a_alarm (w_storage w) = Some t \<longrightarrow> instant t) \<and>
     (\<forall>r. w_row w = Some r \<longrightarrow> actor_row_ok r \<and> (told \<longrightarrow> mirror_says c (a_alarm (w_storage w)) r)))"

lemma mirror_says_later: "mirror_says c p r \<Longrightarrow> c \<le> c' \<Longrightarrow> mirror_says c' p r"
  by (auto simp: mirror_says_def split: option.splits)

lemma foreign_write_simps [simp]:
  "mirror_says c p (foreign_write f r) = mirror_says c p r" "actor_row_ok (foreign_write f r) = actor_row_ok (f r)"
  by (simp_all add: foreign_write_def mirror_says_def actor_row_ok_def split: option.split)

lemma mirrored:
  assumes "sane_env env" and "\<forall>t. a = Some t \<longrightarrow> instant t" and "\<forall>r. row = Some r \<longrightarrow> actor_row_ok r"
    and "a = None \<longrightarrow> \<not> managed" and "a \<noteq> None \<longrightarrow> managed"
  shows "mirrorToD1 env a managed row = Some r \<Longrightarrow> actor_row_ok r \<and> (e_mirror_ok env \<longrightarrow> mirror_says c a r)"
  using assms instant_clip
  by (auto simp: mirrorToD1_def sane_env_def mirror_says_def actor_row_ok_def split: option.split if_splits)

lemma next_alarms_instant:
  assumes "t \<in> next_alarms legacy env r" and "sane_env env" and "actor_row_ok r"
  shows "instant t"
proof -
  have n: "instant (e_now env)" "instant (e_now env + 24 * msPerHour)" using assms(2) by (simp_all add: sane_env_def)
  have now: "instant (e_now env + x)" if "0 \<le> x" "x \<le> 24 * msPerHour" for x
    using instant_between [of "e_now env" "e_now env + 24 * msPerHour"] that assms(2) by (simp add: sane_env_def)
  have "instant d" if d: "actor_due legacy r (e_now env) = Some d" for d
  proof -
    have s: "stamped (s_last_polled_at r)" "stamped (s_next_fetch_after r)" "meta_typed (s_metadata r)"
      using assms(3) by (simp_all add: actor_row_ok_def)
    obtain h where h: "holds (locallyFetchedSql (s_metadata r))" "tierHours (s_fetch_priority r) = Some h"
      using d actor_due_none [OF s(3), of legacy "e_now env"] by (cases "tierHours (s_fetch_priority r)") auto
    have "0 \<le> h" "h \<le> 24" using h(2) by (auto simp: tierHours_Some)
    then have p: "instant (p + h * msPerHour)" if "instant p" "instant (p + 24 * msPerHour)" for p
      using instant_between [of p "p + 24 * msPerHour" "p + h * msPerHour"] that by simp
    have e: "d = (case s_last_polled_at r of
         None \<Rightarrow> (case parse_col (date_parse legacy) (s_next_fetch_after r) of None \<Rightarrow> e_now env | Some b \<Rightarrow> b)
       | Some _ \<Rightarrow> next_due (date_parse legacy) r h (e_now env))"
      using d actor_due_some [OF s(3) h s(1,2) n, of legacy] by simp
    have b: "instant b" if "parse_col (date_parse legacy) (s_next_fetch_after r) = Some b" for b
      using s(2) by (rule stamped_cases) (use that in \<open>auto simp: date_parse_col\<close>)
    show ?thesis
      using s(1)
    proof (rule stamped_cases)
      assume "s_last_polled_at r = None"
      then show ?thesis unfolding e using b n(1) by (auto split: option.split)
    next
      fix t assume t: "s_last_polled_at r = Some (iso_text t)" "instant t" "instant (t + 24 * msPerHour)"
      then show ?thesis unfolding e next_due_def Let_def using b p [OF t(2,3)] by (auto simp: date_parse_col split: option.split)
    qed
  qed
  with assms(1) now show ?thesis
    by (auto simp: next_alarms_def SAFETY_WINDOW_MS_def CREATE_FAILURE_RETRY_MS_def)
qed

lemma alarm_mirror:
  assumes "alarm legacy env w = Inr (w', effs)" and "sane_env env" and "mirror_inv (c, told, w)" and "c \<le> e_now env"
    and "a_alarm (w_storage w) = Some t" and "t \<le> e_now env"
  shows "mirror_inv (e_now env, told_after env w told, w')"
proof (cases "a_source_id (w_storage w) \<in> {None, Some []}")
  case True
  then have "w' = cleared w" using assms(1) by (auto simp: alarm_def Let_def)
  with True assms(3,5,6) show ?thesis by (auto simp: mirror_inv_def mirror_says_def told_after_def)
next
  case sid: False
  then have told: "told_after env w told = e_mirror_ok env" by (auto simp: told_after_def)
  from assms(1) show ?thesis
  proof (cases rule: alarm_ends)
    case 1
    with sid show ?thesis by (auto simp: mirror_inv_def)
  next
    case 2
    then show ?thesis by (simp add: mirror_inv_def stop_actor_def mirrorToD1_def)
  next
    case (3 r)
    have "actor_row_ok r" using assms(3) 3(1) by (simp add: mirror_inv_def)
    then have "actor_row_ok r' \<and> (e_mirror_ok env \<longrightarrow> mirror_says (e_now env) None r')"
      if "mirrorToD1 env None False (w_row w) = Some r'" for r'
      using mirrored [OF assms(2) _ _ _ _ that] 3(1) by simp
    then show ?thesis using told by (simp add: mirror_inv_def 3(2) noReschedule_def)
  next
    case (4 r n fl lf insts)
    have r: "actor_row_ok r" using assms(3) 4(1) by (simp add: mirror_inv_def)
    then have n: "instant n" using next_alarms_instant [OF 4(2) assms(2)] by blast
    with r have "actor_row_ok r' \<and> (e_mirror_ok env \<longrightarrow> mirror_says (e_now env) (Some n) r')"
      if "mirrorToD1 env (Some n) True (w_row w) = Some r'" for r'
      using mirrored [OF assms(2) _ _ _ _ that] 4(1) by simp
    then show ?thesis using n told by (simp add: mirror_inv_def 4(3) scheduleAt_def persistState_def)
  qed
qed

lemma seed_instant: "sane_env env \<Longrightarrow> instant (e_now env + seedJitterMs sid SEED_JITTER_WINDOW_MS)"
  using seedJitter_bounds [of sid] instant_between [of "e_now env" "e_now env + 24 * msPerHour"]
  by (simp add: sane_env_def SEED_JITTER_WINDOW_MS_def)

lemma step_mirror: "actor_step legacy sid s s' \<Longrightarrow> mirror_inv s \<Longrightarrow> mirror_inv s'"
proof (induction rule: actor_step.induct)
  case (tick c c' told w)
  then show ?case by (auto simp: mirror_inv_def mirror_says_later)
next
  case (fires c env w t w' effs told)
  then show ?case using alarm_mirror by blast
next
  case (throws c env w t e told)
  then show ?case by (auto simp: mirror_inv_def mirror_says_def)
next
  case (ensures c env told w force)
  let ?n = "e_now env + seedJitterMs sid SEED_JITTER_WINDOW_MS" and ?a = "a_alarm (w_storage w)"
  have r: "\<forall>r. w_row w = Some r \<longrightarrow> actor_row_ok r" "\<forall>t. ?a = Some t \<longrightarrow> instant t" using ensures(3) by (simp_all add: mirror_inv_def)
  note n = seed_instant [OF ensures(2), of sid]
  have new: "actor_row_ok r' \<and> (e_mirror_ok env \<longrightarrow> mirror_says (e_now env) (Some ?n) r')"
    if "mirrorToD1 env (Some ?n) True (w_row w) = Some r'" for r'
    using mirrored [OF ensures(2) _ r(1) _ _ that] n by simp
  have old: "actor_row_ok r' \<and> (e_mirror_ok env \<longrightarrow> mirror_says (e_now env) ?a r')"
    if m: "mirrorToD1 env ?a True (w_row w) = Some r'" and a: "?a \<noteq> None" for r'
    using mirrored [OF ensures(2) r(2,1) _ _ m] a by simp
  show ?case
    by (cases "?a \<noteq> None \<and> \<not> (case ?a of None \<Rightarrow> False | Some t \<Rightarrow> t \<le> e_now env - 60000) \<and> \<not> force")
      (use new old r(2) n in \<open>simp_all add: ensureScheduled_def Let_def mirror_inv_def\<close>)
next
  case (changes c env told w)
  let ?n = "e_now env + seedJitterMs sid SEED_JITTER_WINDOW_MS"
  have r: "\<forall>r. w_row w = Some r \<longrightarrow> actor_row_ok r" using changes(3) by (simp add: mirror_inv_def)
  note n = seed_instant [OF changes(2), of sid]
  have "actor_row_ok r' \<and> (e_mirror_ok env \<longrightarrow> mirror_says (e_now env) (Some ?n) r')"
    if "mirrorToD1 env (Some ?n) True (w_row w) = Some r'" for r'
    using mirrored [OF changes(2) _ r _ _ that] n by simp
  then show ?case using n by (simp add: onSourceChanged_def Let_def mirror_inv_def)
qed (auto simp: mirror_inv_def)

lemma reach_mirror: "actor_reach legacy sid s s' \<Longrightarrow> mirror_inv s \<Longrightarrow> mirror_inv s'"
  by (induction rule: rtranclp_induct) (auto intro: step_mirror)

subsection \<open>No source is lost\<close>

definition should_poll :: "string list \<Rightarrow> source \<Rightarrow> bool" where
  "should_poll pausedOrgs r \<longleftrightarrow> s_fetch_priority r \<in> {Some Normal, Some Low} \<and> s_org_id r \<notin> set pausedOrgs \<and>
     holds (locallyFetchedSql (s_metadata r))"

lemma unmanaged_iff:
  assumes "mirror_says c pending r" and "instant (now - UNMANAGED_ALARM_STALE_MS)"
    and "pending = None \<longrightarrow> c + UNMANAGED_ALARM_STALE_MS < now"
  shows "holds (unmanagedWhere pausedOrgs now r) \<longleftrightarrow> should_poll pausedOrgs r \<and>
     (case pending of None \<Rightarrow> True | Some t \<Rightarrow> t + UNMANAGED_ALARM_STALE_MS < now)"
proof -
  have less: "iso_text t < iso_text (now - UNMANAGED_ALARM_STALE_MS) \<longleftrightarrow> t + UNMANAGED_ALARM_STALE_MS < now" if "instant t" for t
    using instant_less(1) [OF that assms(2)] by linarith
  have "(s_actor_managed r = None \<or> s_actor_managed r = Some False \<or> s_actor_next_alarm_at r = None \<or>
      (\<exists>s. s_actor_next_alarm_at r = Some s \<and> s < iso_text (now - UNMANAGED_ALARM_STALE_MS))) \<longleftrightarrow>
      (case pending of None \<Rightarrow> True | Some t \<Rightarrow> t + UNMANAGED_ALARM_STALE_MS < now)"
  proof (cases pending)
    case None
    with assms(1,3) less show ?thesis
      by (cases "s_actor_managed r") (auto simp: mirror_says_def)
  next
    case (Some t)
    with assms(1) less show ?thesis by (auto simp: mirror_says_def)
  qed
  then show ?thesis
    by (auto simp: unmanagedWhere_def Let_def should_poll_def sql_not_in_def)
qed

lemma keys_fold_update: "fst ` set (fold (\<lambda>x m. AList.update (k x) (v x) m) xs m) = fst ` set m \<union> k ` set xs"
  by (induction xs arbitrary: m) (auto simp: dom_update)

lemma heartbeat_keys:
  "fst ` set (heartbeat_refs pausedOrgs now rows) =
     s_id ` set (queryDueSources pausedOrgs now True rows) \<union> s_id ` set (queryUnmanagedActiveSources pausedOrgs now None rows)"
proof -
  have d: "fold (\<lambda>(i, g) m. AList.update i g m) (queryDueSourceRefs pausedOrgs now True rows) [] =
      fold (\<lambda>r m. AList.update (s_id r) (s_org_id r) m) (queryDueSources pausedOrgs now True rows) []"
    by (simp add: queryDueSourceRefs_def fold_map comp_def)
  show ?thesis by (simp add: heartbeat_refs_def d keys_fold_update)
qed

text \<open>The date the mirror shows is past by more than the heartbeat's patience, or it shows none.\<close>

definition mirror_past :: "int \<Rightarrow> source \<Rightarrow> bool" where
  "mirror_past now r \<longleftrightarrow> s_actor_managed r \<noteq> Some True \<or> s_actor_next_alarm_at r = None \<or>
     (\<exists>t. instant t \<and> t + UNMANAGED_ALARM_STALE_MS < now \<and> s_actor_next_alarm_at r = Some (iso_text t))"

lemma past_unmanaged:
  assumes "mirror_past now r" and "should_poll pausedOrgs r" and "instant (now - UNMANAGED_ALARM_STALE_MS)"
  shows "holds (unmanagedWhere pausedOrgs now r)"
proof -
  have "mirror_says (now - UNMANAGED_ALARM_STALE_MS - 1) None r"
    using assms(1) by (auto simp: mirror_past_def mirror_says_def)
  from unmanaged_iff [OF this assms(3)] assms(2) show ?thesis by simp
qed

lemma told_past:
  assumes "mirror_says c pending r"
    and "case pending of None \<Rightarrow> c + UNMANAGED_ALARM_STALE_MS < now | Some t \<Rightarrow> t + UNMANAGED_ALARM_STALE_MS < now"
  shows "mirror_past now r"
  using assms by (fastforce simp: mirror_says_def mirror_past_def split: option.splits)

text \<open>C21: Whatever the actor, its failures, lost mirror writes and foreign writes have done, a source that should poll and
  whose alarm is missing or long past is among the sources of a heartbeat: of the next one if the last mirror write reached
  the table, and otherwise of the first one after the row is due or the date left in the mirror is past.  Seeding it
  sets an alarm within five minutes, and mirrors it if that write arrives.
\<close>

theorem heartbeat_recovers:
  assumes "mirror_inv (c0, told0, w0)" and "actor_reach legacy sid (c0, told0, w0) (c, told, w)"
    and "w_row w = Some r" and "r \<in> set rows" and "s_deleted_at r = None" and "should_poll pausedOrgs r"
    and "case a_alarm (w_storage w) of None \<Rightarrow> c + UNMANAGED_ALARM_STALE_MS < e_now env
         | Some t \<Rightarrow> t + UNMANAGED_ALARM_STALE_MS < e_now env"
    and "told \<or> holds (dueSourcesWhere pausedOrgs (e_now env) True r) \<or> mirror_past (e_now env) r"
    and "sane_env env" and "instant (e_now env - UNMANAGED_ALARM_STALE_MS)"
  shows "s_id r \<in> fst ` set (heartbeat_refs pausedOrgs (e_now env) rows) \<and>
    (\<exists>t w' r'. ensureScheduled env sid False w = ((True, t), w') \<and> a_alarm (w_storage w') = Some t \<and>
       e_now env \<le> t \<and> t < e_now env + SEED_JITTER_WINDOW_MS \<and> w_row w' = Some r' \<and>
       (e_mirror_ok env \<longrightarrow> s_actor_managed r' = Some True \<and> s_actor_next_alarm_at r' = Some (iso_text t)))"
proof -
  have "told \<longrightarrow> mirror_past (e_now env) r"
    using reach_mirror [OF assms(2,1)] assms(3,7) told_past by (auto simp: mirror_inv_def)
  with assms(8) have "holds (dueSourcesWhere pausedOrgs (e_now env) True r) \<or> holds (unmanagedWhere pausedOrgs (e_now env) r)"
    using past_unmanaged [OF _ assms(6,10)] by blast
  then have "r \<in> set (queryDueSources pausedOrgs (e_now env) True rows) \<or>
      r \<in> set (queryUnmanagedActiveSources pausedOrgs (e_now env) None rows)"
    using assms(4,5) by (auto simp: queryDueSources_def queryUnmanagedActiveSources_def sources_active_def)
  then have found: "s_id r \<in> fst ` set (heartbeat_refs pausedOrgs (e_now env) rows)"
    by (auto simp: heartbeat_keys)
  let ?t = "e_now env + seedJitterMs sid SEED_JITTER_WINDOW_MS"
  have "case a_alarm (w_storage w) of None \<Rightarrow> True | Some t \<Rightarrow> t \<le> e_now env - 60000"
    using assms(7) by (auto simp: UNMANAGED_ALARM_STALE_MS_def split: option.splits)
  then have e: "ensureScheduled env sid False w = ((True, ?t),
      w\<lparr>w_storage := (w_storage w)\<lparr>a_source_id := Some sid, a_alarm := Some ?t\<rparr>, w_row := mirrorToD1 env (Some ?t) True (w_row w)\<rparr>)"
    by (auto simp: ensureScheduled_def Let_def split: option.splits)
  obtain r' where "mirrorToD1 env (Some ?t) True (w_row w) = Some r'"
    "e_mirror_ok env \<longrightarrow> s_actor_managed r' = Some True \<and> s_actor_next_alarm_at r' = Some (iso_text ?t)"
    using instant_clip [OF seed_instant [OF assms(9), of sid]] instant_clip [of "e_now env"] assms(3,9)
    by (cases "e_mirror_ok env") (simp_all add: mirrorToD1_def sane_env_def)
  with found e seedJitter_bounds [of sid] show ?thesis by auto
qed

subsection \<open>The lease of a running fetch\<close>

text \<open>The platform tells the truth: a look-up gives the status of the instance, or fails without denying it.\<close>

definition honest :: "actor_env \<Rightarrow> instances \<Rightarrow> bool" where
  "honest env insts \<longleftrightarrow> (\<forall>i s. insts i = Some s \<longrightarrow>
     e_reply env i = Status s \<or> (\<exists>m. e_reply env i = Threw m \<and> \<not> test WORKFLOW_NOT_FOUND_RE m))"

text \<open>The actor remembers the run it fired at \<open>fired\<close>, and that run is alive.\<close>

definition leased :: "string \<Rightarrow> int \<Rightarrow> actor_world \<Rightarrow> bool" where
  "leased sid fired w \<longleftrightarrow> a_source_id (w_storage w) = Some sid \<and> sid \<noteq> [] \<and>
     (\<exists>p. getState w = Some p \<and> st_in_flight p \<and> st_last_fired_at p = Some fired) \<and>
     (\<exists>s. w_instances w (sourceActorWorkflowId sid fired) = Some s \<and> s \<in> set LIVE_WORKFLOW_STATUSES)"

text \<open>An alarm that passes over the row: it is gone, its organisation is paused, it has no deadline, or is not due yet.\<close>

definition passes_over :: "(string \<Rightarrow> int option) \<Rightarrow> actor_env \<Rightarrow> actor_world \<Rightarrow> bool" where
  "passes_over legacy env w \<longleftrightarrow> (case w_row w of None \<Rightarrow> True
     | Some r \<Rightarrow> orgFetchPaused r w \<or> (case describeFetchPlan r False of Inl _ \<Rightarrow> False
         | Inr plan \<Rightarrow> (case computeFetchState (date_parse legacy) r plan (e_now env) of Inl _ \<Rightarrow> False
             | Inr st \<Rightarrow> (case f_next_due_at st of None \<Rightarrow> True
                 | Some nd \<Rightarrow> (case effective_due legacy r nd (e_now env) of None \<Rightarrow> False
                     | Some due \<Rightarrow> e_now env + DUE_SLACK_MS < due)))))"

text \<open>Steps in which no alarm passes the row over, and the run stays alive.\<close>

inductive due_step :: "(string \<Rightarrow> int option) \<Rightarrow> string \<Rightarrow> int \<Rightarrow> actor_world \<Rightarrow> actor_world \<Rightarrow> bool"
  for legacy sid fired where
  fires: "alarm legacy env w = Inr (w', effs) \<Longrightarrow> e_workflow env \<Longrightarrow> honest env (w_instances w) \<Longrightarrow>
    \<not> passes_over legacy env w \<Longrightarrow> due_step legacy sid fired w w'"
| throws: "alarm legacy env w = Inl e \<Longrightarrow> due_step legacy sid fired w (cleared w)"
| ensures: "due_step legacy sid fired w (snd (ensureScheduled env sid force w))"
| changes: "due_step legacy sid fired w (onSourceChanged env sid w)"
| writes: "due_step legacy sid fired w (w\<lparr>w_row := r\<rparr>)"
| switches: "due_step legacy sid fired w (w\<lparr>w_org_paused := p\<rparr>)"
| proceeds: "dom insts = dom (w_instances w) \<Longrightarrow> insts (sourceActorWorkflowId sid fired) = Some s \<Longrightarrow>
    s \<in> set LIVE_WORKFLOW_STATUSES \<Longrightarrow> due_step legacy sid fired w (w\<lparr>w_instances := insts\<rparr>)"

lemma leased_alive: "leased sid fired w \<Longrightarrow> e_workflow env \<Longrightarrow> honest env (w_instances w) \<Longrightarrow>
    in_flight_alive env sid (getState w) = Some fired"
  by (fastforce simp: leased_def honest_def in_flight_alive_def previousWorkflowAlive_def workflowInstanceStatus_def)

lemma stops_forget [simp]:
  "\<not> leased sid fired (stop_actor env w)" "\<not> leased sid fired (noReschedule env r w)" "\<not> leased sid fired (scheduleAt env r t False l w)"
  "w_instances (stop_actor env w) = w_instances w" "w_instances (noReschedule env r w) = w_instances w"
  "w_instances (scheduleAt env r t fl l w) = w_instances w"
  by (auto simp: leased_def stop_actor_def noReschedule_def scheduleAt_def persistState_def getState_def)

lemma alarm_lease:
  assumes "leased sid fired w" and "e_workflow env" and "honest env (w_instances w)" and "alarm legacy env w = Inr (w', effs)"
  shows "w_instances w' = w_instances w \<and> (leased sid fired w' \<longleftrightarrow> \<not> passes_over legacy env w)"
proof -
  have sid: "a_source_id (w_storage w) = Some sid" "sid \<noteq> []" using assms(1) by (auto simp: leased_def)
  have db: "e_db_ok env" using assms(4) sid by (auto simp: alarm_def Let_def split: if_splits)
  have g: "getState (cleared w) = getState w" "orgFetchPaused r (cleared w) = orgFetchPaused r w" for r
    by (simp_all add: getState_def orgFetchPaused_def)
  have keeps: "leased sid fired (scheduleAt env r t True (Some fired) (cleared w))" for r t
    using assms(1) by (simp add: leased_def scheduleAt_def persistState_def getState_def)
  show ?thesis
  proof (cases "w_row w")
    case None
    with assms(4) sid db have "w' = stop_actor env (cleared w)" by (simp add: alarm_def Let_def)
    with None show ?thesis by (simp add: passes_over_def)
  next
    case (Some r)
    obtain noted plan st where p: "maybeNotifyOrgDrain r = Inr noted" "describeFetchPlan r False = Inr plan"
      "computeFetchState (date_parse legacy) r plan (e_now env) = Inr st"
      using assms(4) sid db Some by (auto simp: alarm_def Let_def split: sum.splits)
    note a = assms(4) [unfolded alarm_def Let_def, simplified sid db Some p g, simplified]
    from p Some show ?thesis
      using a leased_alive [OF assms(1-3)] keeps sid db
      by (auto simp: passes_over_def g split: option.splits if_splits)
  qed
qed

lemma due_step_lease:
  assumes "due_step legacy sid fired w w'" and "leased sid fired w"
  shows "leased sid fired w' \<and> dom (w_instances w') = dom (w_instances w)"
  using assms
proof (induction rule: due_step.induct)
  case (fires env w w' effs)
  then show ?case using alarm_lease by metis
qed (auto simp: leased_def getState_def ensureScheduled_def onSourceChanged_def Let_def)

text \<open>C28: While the run a source actor fired is alive and the platform does not deny it, no alarm creates another run.
  The actor keeps the run in mind through every bootstrap, change notice, foreign write and alarm that finds the row due,
  and the next alarm, whatever it finds, creates nothing and forgets the run exactly when it passes the row over, because
  the row is gone, paused or not yet due.  (What may follow such an alarm is \<open>paused_run_restarted\<close> below.)
\<close>

theorem lease_blocks_second_run:
  assumes "(due_step legacy sid fired)\<^sup>*\<^sup>* w w'" and "leased sid fired w"
  shows "leased sid fired w' \<and> dom (w_instances w') = dom (w_instances w) \<and>
    (\<forall>env w'' effs. e_workflow env \<and> honest env (w_instances w') \<and> alarm legacy env w' = Inr (w'', effs) \<longrightarrow>
       w_instances w'' = w_instances w' \<and> (leased sid fired w'' \<longleftrightarrow> \<not> passes_over legacy env w'))"
proof -
  have "leased sid fired w' \<and> dom (w_instances w') = dom (w_instances w)"
    using assms(1) by (induction rule: rtranclp_induct) (use assms(2) due_step_lease in \<open>auto\<close>)
  then show ?thesis using alarm_lease by metis
qed

subsection \<open>A day in the life of one source\<close>

abbreviation t0 :: int where "t0 \<equiv> 1767225600000"

definition calm_env :: "int \<Rightarrow> actor_env" where
  "calm_env now = \<lparr>e_now = now, e_workflow = True, e_reply = (\<lambda>_. Status ''paused''), e_create = CreateOk, e_db_ok = True, e_mirror_ok = True\<rparr>"

definition fresh_world :: "source \<Rightarrow> actor_world" where
  "fresh_world r = \<lparr>w_storage = \<lparr>a_source_id = Some ''src_1'', a_alarm = None, a_state = None, a_lock = None\<rparr>,
     w_row = Some r, w_org_paused = Some False, w_instances = Map.empty\<rparr>"

definition polled :: "int \<Rightarrow> source" where
  "polled t = sample_source\<lparr>s_type := Github, s_last_polled_at := Some (iso_text t)\<rparr>"

definition in_flight_world :: "int \<Rightarrow> source \<Rightarrow> actor_world" where
  "in_flight_world fired r = (fresh_world r)\<lparr>
     w_storage := persistState r (Some (fired + 4 * msPerHour)) True (Some fired)
       \<lparr>a_source_id = Some ''src_1'', a_alarm = Some (fired + 4 * msPerHour), a_state = None, a_lock = None\<rparr>,
     w_instances := [sourceActorWorkflowId ''src_1'' fired \<mapsto> ''paused'']\<rparr>"

lemma calm_instants:
  "0 \<le> x \<Longrightarrow> x \<le> 1000 * msPerHour \<Longrightarrow> instant (t0 + x)" "instant (t0 - UNMANAGED_ALARM_STALE_MS)"
proof -
  have i: "instant t0" "instant (t0 + 1000 * msPerHour)"
    by (simp_all add: instant_def keyDay_def dayFromCivil_def yearStart_def monthStart_def monthDays_def leap_def)
  show "0 \<le> x \<Longrightarrow> x \<le> 1000 * msPerHour \<Longrightarrow> instant (t0 + x)" by (rule instant_between [OF i]) linarith+
  show "instant (t0 - UNMANAGED_ALARM_STALE_MS)"
    by (simp add: instant_def keyDay_def dayFromCivil_def yearStart_def monthStart_def monthDays_def leap_def UNMANAGED_ALARM_STALE_MS_def)
qed

definition polled_at :: "int \<Rightarrow> source \<Rightarrow> bool" where
  "polled_at t r \<longleftrightarrow> s_type r = Github \<and> s_org_id r = ''org_1'' \<and> s_metadata r = MetaNull \<and>
     s_fetch_priority r = Some Normal \<and> s_next_fetch_after r = None \<and> s_last_polled_at r = Some (iso_text t)"

lemma polled_at_polled [simp]: "polled_at t (polled t)"
  by (simp add: polled_at_def polled_def sample_source_def)

lemma polled_due:
  assumes "0 \<le> x" "x \<le> 100 * msPerHour" "0 \<le> y" "y \<le> 100 * msPerHour" and r: "polled_at (t0 + x) r"
  shows "actor_due legacy r (t0 + y) = Some (t0 + x + 4 * msPerHour)"
proof -
  have i: "instant (t0 + z)" if "0 \<le> z" "z \<le> 1000 * msPerHour" for z using that by (rule calm_instants(1))
  have "stamped (s_last_polled_at r)" "stamped (s_next_fetch_after r)"
    using i [of x] i [of "x + 24 * msPerHour"] assms by (auto simp: stamped_def polled_at_def add.assoc)
  moreover have "holds (locallyFetchedSql (s_metadata r))" "meta_typed (s_metadata r)" "tierHours (s_fetch_priority r) = Some 4"
    using r by (simp_all add: polled_at_def locallyFetchedSql_def json_extract_def meta_typed_def)
  ultimately show ?thesis
    using actor_due_some [of r 4 "t0 + y" legacy] i [of x] i [of y] i [of "y + 24 * msPerHour"] assms
    by (simp add: polled_at_def next_due_def date_parse_col add.assoc)
qed

theorem heartbeat_recovers_witness:
  "''src_1'' \<in> fst ` set (heartbeat_refs [] t0 [polled (t0 - 3600000)]) \<and>
   (\<exists>t w'. ensureScheduled (calm_env t0) ''src_1'' False (fresh_world (polled (t0 - 3600000))) = ((True, t), w') \<and> t0 \<le> t)"
proof -
  let ?r = "polled (t0 - 3600000)" and ?w = "fresh_world (polled (t0 - 3600000))"
  have "instant (t0 - 3600000)" "instant (t0 - 3600000 + 24 * msPerHour)"
    by (simp_all add: instant_def keyDay_def dayFromCivil_def yearStart_def monthStart_def monthDays_def leap_def)
  then have m: "mirror_inv (t0 - 3600000, True, ?w)"
    by (auto simp: mirror_inv_def fresh_world_def actor_row_ok_def polled_def sample_source_def stamped_def meta_typed_def mirror_says_def)
  have s: "sane_env (calm_env t0)"
    using calm_instants(1) [of 0] calm_instants(1) [of "24 * msPerHour"] by (simp add: sane_env_def calm_env_def)
  have "should_poll [] ?r"
    by (simp add: should_poll_def polled_def sample_source_def locallyFetchedSql_def json_extract_def)
  then show ?thesis
    using heartbeat_recovers [where legacy = "\<lambda>_. None" and sid = "''src_1''", OF m rtranclp.rtrancl_refl,
        where r = ?r and rows = "[?r]" and pausedOrgs = "[]" and env = "calm_env t0"] s calm_instants(2)
    by (auto simp: fresh_world_def polled_def sample_source_def calm_env_def UNMANAGED_ALARM_STALE_MS_def)
qed

lemma no_notes: "s_type r = Github \<Longrightarrow> maybeNotifyOrgDrain r = Inr []"
  by (simp add: maybeNotifyOrgDrain_def)

lemma polled_simps [simp]:
  "s_type (polled t) = Github" "s_org_id (polled t) = ''org_1''" "s_last_polled_at (polled t) = Some (iso_text t)"
  by (simp_all add: polled_def sample_source_def)

theorem lease_blocks_second_run_witness:
  "\<exists>w' effs. alarm (\<lambda>_. None) (calm_env (t0 + 4 * msPerHour)) (in_flight_world t0 (polled t0)) = Inr (w', effs) \<and>
     leased ''src_1'' t0 w' \<and> dom (w_instances w') = {sourceActorWorkflowId ''src_1'' t0}"
proof -
  let ?env = "calm_env (t0 + 4 * msPerHour)" and ?w = "in_flight_world t0 (polled t0)"
  have l: "leased ''src_1'' t0 ?w"
    by (simp add: leased_def in_flight_world_def fresh_world_def persistState_def getState_def LIVE_WORKFLOW_STATUSES_def)
  have d: "actor_due (\<lambda>_. None) (polled t0) (e_now ?env) = Some (t0 + 4 * msPerHour)"
    using polled_due [of 0 "4 * msPerHour" "polled t0"] by (simp add: calm_env_def)
  have o: "\<not> orgFetchPaused (polled t0) ?w" by (simp add: orgFetchPaused_def in_flight_world_def fresh_world_def)
  have h: "honest ?env (w_instances ?w)" by (auto simp: honest_def calm_env_def in_flight_world_def split: if_splits)
  have r: "w_row ?w = Some (polled t0)" by (simp add: in_flight_world_def fresh_world_def)
  have "\<exists>w' effs. alarm (\<lambda>_. None) ?env ?w = Inr (w', effs)"
    using alarm_due [of ?w "''src_1''" ?env "polled t0" "\<lambda>_. None", OF _ _ _ r o d] leased_alive [OF l _ h]
    by (auto simp: in_flight_world_def fresh_world_def persistState_def calm_env_def DUE_SLACK_MS_def)
  then obtain w' effs where a: "alarm (\<lambda>_. None) ?env ?w = Inr (w', effs)" by blast
  have "due_step (\<lambda>_. None) ''src_1'' t0 ?w w'"
    by (rule due_step.fires [OF a _ h]) (use r o d in \<open>auto simp: passes_over_def actor_due_def calm_env_def DUE_SLACK_MS_def split: sum.splits option.splits\<close>)
  from lease_blocks_second_run [OF r_into_rtranclp [where r = "due_step (\<lambda>_. None) ''src_1'' t0", OF this] l] a
  show ?thesis by (simp add: in_flight_world_def)
qed

lemma workflow_id_inj: "0 \<le> a \<Longrightarrow> 0 \<le> b \<Longrightarrow>
    sourceActorWorkflowId sid a = sourceActorWorkflowId sid b \<longleftrightarrow> a div SAFETY_WINDOW_MS = b div SAFETY_WINDOW_MS"
  using pos_imp_zdiv_nonneg_iff [of SAFETY_WINDOW_MS a] pos_imp_zdiv_nonneg_iff [of SAFETY_WINDOW_MS b]
  by (simp add: sourceActorWorkflowId_def int_to_dec_def inj_nat_to_dec SAFETY_WINDOW_MS_def eq_nat_nat_iff)

text \<open>
  A run is fired at \<open>t1\<close>, polls a minute later and is then paused by an operator.  The alarm at the end of
  the interval finds the row not yet due and drops the lease; the next one starts a second run.
\<close>

abbreviation t1 :: int where "t1 \<equiv> t0 + 14400000"

definition after_poll :: "actor_world \<Rightarrow> actor_world" where
  "after_poll w = w\<lparr>w_row := Some (polled (t1 + 60000)), w_instances := (w_instances w)(sourceActorWorkflowId ''src_1'' t1 \<mapsto> ''paused'')\<rparr>"

lemma polled_alarm:
  assumes "a_source_id (w_storage w) = Some ''src_1''" and "w_row w = Some r" and "w_org_paused w = Some False"
    and "0 \<le> x" "x \<le> 100 * msPerHour" "0 \<le> y" "y \<le> 100 * msPerHour" and "polled_at (t0 + x) r"
  shows "\<exists>plan. describeFetchPlan r False = Inr plan \<and> alarm legacy (calm_env (t0 + y)) w = Inr
    (if y + DUE_SLACK_MS < x + 4 * msPerHour then
       (scheduleAt (calm_env (t0 + y)) r (t0 + x + 4 * msPerHour) False
          (case getState w of None \<Rightarrow> None | Some p \<Rightarrow> st_last_fired_at p) (cleared w), [])
     else (case in_flight_alive (calm_env (t0 + y)) ''src_1'' (getState w) of
         Some fired \<Rightarrow> (scheduleAt (calm_env (t0 + y)) r (t0 + y + SAFETY_WINDOW_MS) True (Some fired) (cleared w), [])
       | None \<Rightarrow> fire_and_schedule (calm_env (t0 + y)) ''src_1'' r plan (getState w) (cleared w)))"
proof -
  have g: "s_type r = Github" "s_org_id r = ''org_1''" using assms(8) by (simp_all add: polled_at_def)
  show ?thesis
    using alarm_due [of w "''src_1''" "calm_env (t0 + y)" r legacy "t0 + x + 4 * msPerHour"]
      polled_due [OF assms(4-8), of legacy] no_notes [OF g(1)] assms(1-3) g(2)
    by (auto simp: calm_env_def orgFetchPaused_def split: option.splits prod.splits)
qed

text \<open>A run that is paused after it stamped the row as polled loses its lease at the next alarm, which finds the row not
  due by more than the slack and forgets that a run is in flight; the alarm after that starts a second run beside the
  paused one.
\<close>

theorem paused_run_restarted:
  "\<exists>w1 w2 w3. alarm legacy (calm_env t1) (fresh_world (polled t0)) = Inr (w1, [Created (sourceActorWorkflowId ''src_1'' t1)]) \<and>
     alarm legacy (calm_env (t1 + 4 * msPerHour)) (after_poll w1) = Inr (w2, []) \<and>
     alarm legacy (calm_env (t1 + 4 * msPerHour + 60000)) w2 =
       Inr (w3, [Created (sourceActorWorkflowId ''src_1'' (t1 + 4 * msPerHour + 60000))]) \<and>
     w_instances w3 (sourceActorWorkflowId ''src_1'' t1) = Some ''paused'' \<and>
     w_instances w3 (sourceActorWorkflowId ''src_1'' (t1 + 4 * msPerHour + 60000)) = Some ''queued''"
proof -
  let ?i = "sourceActorWorkflowId ''src_1'' t1" and ?j = "sourceActorWorkflowId ''src_1'' (t1 + 4 * msPerHour + 60000)"
  have ij: "?i \<noteq> ?j" by (simp add: workflow_id_inj SAFETY_WINDOW_MS_def)
  obtain p1 where a1: "alarm legacy (calm_env t1) (fresh_world (polled t0)) =
      Inr (fire_and_schedule (calm_env t1) ''src_1'' (polled t0) p1 None (cleared (fresh_world (polled t0))))"
    using polled_alarm [of "fresh_world (polled t0)" "polled t0" 0 14400000 legacy]
    by (auto simp: fresh_world_def DUE_SLACK_MS_def getState_def in_flight_alive_def)
  define w1 where "w1 = fst (fire_and_schedule (calm_env t1) ''src_1'' (polled t0) p1 None (cleared (fresh_world (polled t0))))"
  have f1: "fire_and_schedule (calm_env t1) ''src_1'' (polled t0) p1 None (cleared (fresh_world (polled t0))) = (w1, [Created ?i])"
    by (simp add: w1_def fire_and_schedule_def Let_def fireWorkflow_def creates_def calm_env_def fresh_world_def)
  have w1: "a_source_id (w_storage w1) = Some ''src_1''" "w_org_paused w1 = Some False" "w_instances w1 = [?i \<mapsto> ''queued'']"
    "getState w1 = Some p \<Longrightarrow> st_in_flight p \<and> st_last_fired_at p = Some t1" for p
    by (auto simp: w1_def fire_and_schedule_def Let_def fireWorkflow_def creates_def calm_env_def fresh_world_def
        scheduleAt_def persistState_def getState_def)
  define w2 where "w2 = scheduleAt (calm_env (t1 + 4 * msPerHour)) (polled (t1 + 60000)) (t1 + 60000 + 4 * msPerHour) False
     (case getState (after_poll w1) of None \<Rightarrow> None | Some p \<Rightarrow> st_last_fired_at p) (cleared (after_poll w1))"
  have a2: "alarm legacy (calm_env (t1 + 4 * msPerHour)) (after_poll w1) = Inr (w2, [])"
    using polled_alarm [of "after_poll w1" "polled (t1 + 60000)" 14460000 28800000 legacy] w1
    by (simp add: w2_def after_poll_def DUE_SLACK_MS_def)
  have w2: "a_source_id (w_storage w2) = Some ''src_1''" "w_org_paused w2 = Some False" "w_instances w2 = [?i \<mapsto> ''paused'']"
    "in_flight_alive env sid (getState w2) = None" for env sid
    using w1 by (simp_all add: w2_def after_poll_def scheduleAt_def persistState_def getState_def in_flight_alive_def split: option.split)
  obtain r where r: "w_row w2 = Some r" "polled_at (t1 + 60000) r"
    by (cases "w_row w2") (auto simp: w2_def after_poll_def scheduleAt_def mirrorToD1_def polled_at_def polled_def sample_source_def
        split: if_splits)
  obtain p3 where a3: "alarm legacy (calm_env (t1 + 4 * msPerHour + 60000)) w2 =
      Inr (fire_and_schedule (calm_env (t1 + 4 * msPerHour + 60000)) ''src_1'' r p3 (getState w2) (cleared w2))"
    using polled_alarm [of w2 r 14460000 28860000 legacy] w2 r by (auto simp: DUE_SLACK_MS_def)
  define w3 where "w3 = fst (fire_and_schedule (calm_env (t1 + 4 * msPerHour + 60000)) ''src_1'' r p3 (getState w2) (cleared w2))"
  have f3: "fire_and_schedule (calm_env (t1 + 4 * msPerHour + 60000)) ''src_1'' r p3 (getState w2) (cleared w2) = (w3, [Created ?j])"
    "w_instances w3 = [?i \<mapsto> ''paused'', ?j \<mapsto> ''queued'']"
    using w2(3) ij by (simp_all add: w3_def fire_and_schedule_def Let_def fireWorkflow_def creates_def calm_env_def scheduleAt_def)
  show ?thesis using a1 f1 a2 a3 f3 ij by (intro exI [of _ w1] exI [of _ w2] exI [of _ w3]) simp
qed

end
