(* ===== verification/SpendCap.thy ===== *)
theory SpendCap
  imports Dates
begin

section \<open>The daily spend cap\<close>

text \<open>
  \<open>packages/lib/src/spend-cap.ts\<close>.  The key-value store maps keys to texts; a read or a write of it may throw.
  Amounts are cents; \<open>estimatedUsd\<close> is a rational number.
\<close>

type_synonym kv_store = "string \<rightharpoonup> string"

definition TTL_SECONDS :: int where "TTL_SECONDS = 26 * 3600"
definition DEFAULT_ORG_CAP_CENTS :: int where "DEFAULT_ORG_CAP_CENTS = 200"
definition DEFAULT_GLOBAL_CAP_CENTS :: int where "DEFAULT_GLOBAL_CAP_CENTS = 1500"

text \<open>\<open>Number.parseInt(s, 10)\<close>: white space, a sign, and the longest run of digits; \<^const>\<open>None\<close> is \<open>NaN\<close>.\<close>

definition js_parse_int :: "string \<Rightarrow> int option" where
  "js_parse_int s =
     (let t = js_trim_start s;
          negative = (t \<noteq> [] \<and> hd t = CHR ''-'');
          u = (if t \<noteq> [] \<and> (hd t = CHR ''-'' \<or> hd t = CHR ''+'') then tl t else t);
          ds = takeWhile is_digit u
      in if ds = [] then None else Some (if negative then - int (dec_to_nat ds) else int (dec_to_nat ds)))"

definition parseNonNegativeInt :: "string option \<Rightarrow> int \<Rightarrow> int" where
  "parseNonNegativeInt raw fallback =
     (case raw of None \<Rightarrow> fallback
      | Some s \<Rightarrow> (case js_parse_int s of None \<Rightarrow> fallback | Some n \<Rightarrow> if 0 \<le> n then n else fallback))"

text \<open>The value a counter reads as.\<close>

definition cents_of :: "string option \<Rightarrow> int" where
  "cents_of raw = parseNonNegativeInt raw 0"

definition globalKey :: "string \<Rightarrow> string" where
  "globalKey date = ''ma:spend:global:'' @ date"
definition orgKey :: "string \<Rightarrow> string \<Rightarrow> string" where
  "orgKey orgId date = ''ma:spend:org:'' @ orgId @ '':'' @ date"

datatype cap_scope = OrgScope | GlobalScope
datatype spend_cap_result = NotBlocked | Blocked cap_scope int int

record cap_env =
  cap_org_cents :: "string option"
  cap_global_cents :: "string option"

text \<open>\<open>kv\<close> is \<^const>\<open>None\<close> when a read throws; \<open>orgId\<close> is absent or empty for a run without organisation.\<close>

definition checkSpendCap :: "kv_store option \<Rightarrow> string \<Rightarrow> string option \<Rightarrow> cap_env \<Rightarrow> spend_cap_result" where
  "checkSpendCap kv date orgId env =
     (let orgCap = parseNonNegativeInt (cap_org_cents env) DEFAULT_ORG_CAP_CENTS;
          globalCap = parseNonNegativeInt (cap_global_cents env) DEFAULT_GLOBAL_CAP_CENTS
      in case kv of None \<Rightarrow> NotBlocked
         | Some store \<Rightarrow>
            (let globalCents = cents_of (store (globalKey date));
                 orgCents = (if text_of orgId = [] then 0 else cents_of (store (orgKey (text_of orgId) date)))
             in if text_of orgId \<noteq> [] \<and> orgCap \<le> orgCents then Blocked OrgScope orgCents orgCap
                else if globalCap \<le> globalCents then Blocked GlobalScope globalCents globalCap
                else NotBlocked))"

text \<open>\<open>incrementKvSpend\<close> is a read and, later, a write of what was read plus the amount.\<close>

definition increment_value :: "string option \<Rightarrow> int \<Rightarrow> string" where
  "increment_value raw cents = int_to_dec (cents_of raw + cents)"

definition session_cents :: "rat \<Rightarrow> int" where
  "session_cents estimatedUsd = \<lfloor>estimatedUsd * 100 + 1 / 2\<rfloor>"

text \<open>The counters a finished run adds to, and by how much.\<close>

definition recordSessionSpend :: "rat \<Rightarrow> string option \<Rightarrow> string \<Rightarrow> (string \<times> int) list" where
  "recordSessionSpend estimatedUsd orgId date =
     (if estimatedUsd \<le> 0 then []
      else (globalKey date, session_cents estimatedUsd) #
        (if text_of orgId = [] then [] else [(orgKey (text_of orgId) date, session_cents estimatedUsd)]))"

subsection \<open>Concurrent increments\<close>

text \<open>
  The increments of one key in any interleaving: a run reads the counter, perhaps an older value of it, and
  later writes.  \<open>sm_seen\<close> are the values the key has had, \<open>sm_reads\<close> the reads in progress, \<open>sm_spent\<close> what the
  runs that wrote have spent.
\<close>

record spend_machine =
  sm_value :: "string option"
  sm_seen :: "string option list"
  sm_reads :: "(int \<times> string option) list"
  sm_spent :: int

inductive spend_step :: "spend_machine \<Rightarrow> spend_machine \<Rightarrow> bool" where
  reads: "0 \<le> c \<Longrightarrow> v \<in> set (sm_seen m) \<Longrightarrow> spend_step m (m\<lparr>sm_reads := (c, v) # sm_reads m\<rparr>)"
| puts: "(c, v) \<in> set (sm_reads m) \<Longrightarrow> spend_step m (m\<lparr>sm_value := Some (increment_value v c),
     sm_seen := Some (increment_value v c) # sm_seen m, sm_reads := remove1 (c, v) (sm_reads m), sm_spent := sm_spent m + c\<rparr>)"
| fails: "(c, v) \<in> set (sm_reads m) \<Longrightarrow> spend_step m (m\<lparr>sm_reads := remove1 (c, v) (sm_reads m), sm_spent := sm_spent m + c\<rparr>)"
| expires: "spend_step m (m\<lparr>sm_value := None, sm_seen := None # sm_seen m\<rparr>)"

definition fresh_counter :: spend_machine where
  "fresh_counter = \<lparr>sm_value = None, sm_seen = [None], sm_reads = [], sm_spent = 0\<rparr>"

lemma parse_dec: "0 \<le> n \<Longrightarrow> js_parse_int (int_to_dec n) = Some n"
proof -
  assume n: "0 \<le> n"
  let ?s = "nat_to_dec (nat n)"
  have d: "\<forall>c \<in> set ?s. is_digit c" using nat_to_dec_digits by blast
  obtain c cs where s: "?s = c # cs" using nat_to_dec_ne [of "nat n"] by (cases ?s) auto
  then have c: "is_digit c" using d by simp
  then have "\<not> is_space c" "c \<noteq> CHR ''-''" "c \<noteq> CHR ''+''"
    by (auto simp: is_digit_def is_space_def code_unit_def)
  moreover have "takeWhile is_digit ?s = ?s" using d by (simp add: takeWhile_eq_all_conv)
  moreover have "dec_to_nat (c # cs) = nat n" unfolding s [symmetric] by simp
  ultimately show ?thesis
    using n s by (simp add: js_parse_int_def int_to_dec_def js_trim_start_def Let_def)
qed

lemma cents_of_simps [simp]: "cents_of None = 0" "0 \<le> n \<Longrightarrow> cents_of (Some (int_to_dec n)) = n"
  by (simp_all add: cents_of_def parseNonNegativeInt_def parse_dec)

lemma cents_of_nonneg: "0 \<le> cents_of v"
  by (auto simp: cents_of_def parseNonNegativeInt_def split: option.split)

lemma increment_cents: "0 \<le> c \<Longrightarrow> cents_of (Some (increment_value v c)) = cents_of v + c"
  using cents_of_nonneg [of v] by (simp add: increment_value_def)

definition spend_inv :: "spend_machine \<Rightarrow> bool" where
  "spend_inv m \<longleftrightarrow> 0 \<le> sm_spent m \<and> sm_value m \<in> set (sm_seen m) \<and> (\<forall>v \<in> set (sm_seen m). cents_of v \<le> sm_spent m) \<and>
     (\<forall>(c, v) \<in> set (sm_reads m). 0 \<le> c \<and> cents_of v \<le> sm_spent m)"

lemma spend_step_inv: "spend_step m m' \<Longrightarrow> spend_inv m \<Longrightarrow> spend_inv m'"
proof (induction rule: spend_step.induct)
  case (puts c v m)
  then have cv: "0 \<le> c" "cents_of v \<le> sm_spent m" by (auto simp: spend_inv_def)
  with puts(2) show ?case
    by (auto simp: spend_inv_def increment_cents dest!: notin_set_remove1 set_remove1_subset [THEN subsetD])
next
  case (fails c v m)
  then have "0 \<le> c" by (auto simp: spend_inv_def)
  with fails(2) show ?case
    by (auto simp: spend_inv_def dest!: set_remove1_subset [THEN subsetD])
qed (auto simp: spend_inv_def)

abbreviation spend_reach :: "spend_machine \<Rightarrow> bool" where
  "spend_reach m \<equiv> spend_step\<^sup>*\<^sup>* fresh_counter m"

lemma spend_reach_inv: "spend_reach m \<Longrightarrow> spend_inv m"
proof (induction rule: rtranclp_induct)
  case base
  then show ?case by (simp add: spend_inv_def fresh_counter_def)
qed (rule spend_step_inv)

text \<open>The gate never refuses a run whose counters have not spent the cap.\<close>

theorem cap_refuses_only_spent:
  assumes "spend_reach g" and "spend_reach m"
    and "store (globalKey date) = sm_value g" and "store (orgKey (text_of orgId) date) = sm_value m"
    and "checkSpendCap (Some store) date orgId env = Blocked scope current cap"
  shows "cap \<le> current \<and> (case scope of OrgScope \<Rightarrow> text_of orgId \<noteq> [] \<and> current \<le> sm_spent m | GlobalScope \<Rightarrow> current \<le> sm_spent g)"
proof -
  have "cents_of (sm_value g) \<le> sm_spent g" "cents_of (sm_value m) \<le> sm_spent m"
    using spend_reach_inv assms(1,2) by (auto simp: spend_inv_def)
  then show ?thesis
    using assms(3-5) by (auto simp: checkSpendCap_def Let_def split: if_splits cap_scope.splits)
qed

lemma reads_together:
  "spend_step\<^sup>*\<^sup>* fresh_counter (fresh_counter\<lparr>sm_reads := replicate n (c, None)\<rparr>)" if "0 \<le> c"
proof (induction n)
  case 0
  have "fresh_counter\<lparr>sm_reads := []\<rparr> = fresh_counter" by (simp add: fresh_counter_def)
  then show ?case by simp
next
  case (Suc n)
  have "spend_step (fresh_counter\<lparr>sm_reads := replicate n (c, None)\<rparr>) (fresh_counter\<lparr>sm_reads := replicate (Suc n) (c, None)\<rparr>)"
    using spend_step.reads [OF that, of None "fresh_counter\<lparr>sm_reads := replicate n (c, None)\<rparr>"] by (simp add: fresh_counter_def)
  with Suc show ?case by (rule rtranclp.rtrancl_into_rtrancl)
qed

lemma puts_lost:
  assumes "sm_reads m = replicate n (c, None)" and "sm_value m = Some (increment_value None c) \<or> 0 < n"
  shows "\<exists>m'. spend_step\<^sup>*\<^sup>* m m' \<and> sm_value m' = Some (increment_value None c) \<and> sm_spent m' = sm_spent m + int n * c"
  using assms
proof (induction n arbitrary: m)
  case (Suc n)
  let ?m = "m\<lparr>sm_value := Some (increment_value None c), sm_seen := Some (increment_value None c) # sm_seen m,
    sm_reads := remove1 (c, None) (sm_reads m), sm_spent := sm_spent m + c\<rparr>"
  have "spend_step m ?m" using Suc.prems by (intro spend_step.puts) simp
  moreover have "sm_reads ?m = replicate n (c, None)" using Suc.prems by simp
  then obtain m' where "spend_step\<^sup>*\<^sup>* ?m m'" "sm_value m' = Some (increment_value None c)" "sm_spent m' = sm_spent ?m + int n * c"
    using Suc.IH [of ?m] by auto
  ultimately show ?case
    by (intro exI [of _ m']) (auto intro: converse_rtranclp_into_rtranclp simp: algebra_simps)
qed auto

text \<open>Runs that read together spend any multiple of the cap while the gate stays open.\<close>

theorem cap_overrun_unbounded:
  "\<exists>m. spend_reach m \<and> sm_spent m = int (Suc n) * 199 \<and>
     checkSpendCap (Some [orgKey ''org_1'' date \<mapsto> the (sm_value m)]) date (Some ''org_1'')
       \<lparr>cap_org_cents = None, cap_global_cents = None\<rparr> = NotBlocked"
proof -
  let ?m = "fresh_counter\<lparr>sm_reads := replicate (Suc n) (199, None)\<rparr>"
  obtain m where m: "spend_step\<^sup>*\<^sup>* ?m m" "sm_value m = Some (increment_value None 199)" "sm_spent m = sm_spent ?m + int (Suc n) * 199"
    using puts_lost [of ?m "Suc n" 199] by auto
  have "spend_reach m" using reads_together [of 199 "Suc n"] m(1) by simp
  moreover have "cents_of (Some (increment_value None 199)) = 199" by (simp add: increment_cents)
  ultimately show ?thesis
    using m(2,3) by (intro exI [of _ m]) (auto simp: checkSpendCap_def Let_def parseNonNegativeInt_def fresh_counter_def
      DEFAULT_ORG_CAP_CENTS_def DEFAULT_GLOBAL_CAP_CENTS_def orgKey_def globalKey_def)
qed

theorem cap_refuses_only_spent_witness:
  "\<exists>m. spend_reach m \<and> 200 \<le> sm_spent m \<and>
     checkSpendCap (Some [orgKey ''org_1'' ''2026-01-01'' \<mapsto> int_to_dec 250]) ''2026-01-01'' (Some ''org_1'')
       \<lparr>cap_org_cents = None, cap_global_cents = None\<rparr> = Blocked OrgScope 250 200"
proof -
  let ?store = "[orgKey ''org_1'' ''2026-01-01'' \<mapsto> int_to_dec 250]"
  let ?r = "fresh_counter\<lparr>sm_reads := [(250, None)]\<rparr>"
  let ?m = "?r\<lparr>sm_value := Some (increment_value None 250), sm_seen := [Some (increment_value None 250), None], sm_reads := [], sm_spent := 250\<rparr>"
  have "spend_step fresh_counter ?r" using spend_step.reads [of 250 None fresh_counter] by (simp add: fresh_counter_def)
  moreover have "spend_step ?r ?m" using spend_step.puts [of 250 None ?r] by (simp add: fresh_counter_def)
  ultimately have m: "spend_reach ?m" by (meson r_into_rtranclp rtranclp_trans)
  have b: "checkSpendCap (Some ?store) ''2026-01-01'' (Some ''org_1'') \<lparr>cap_org_cents = None, cap_global_cents = None\<rparr> = Blocked OrgScope 250 200"
    by (simp add: checkSpendCap_def Let_def parseNonNegativeInt_def DEFAULT_ORG_CAP_CENTS_def)
  have v: "sm_value ?m = Some (int_to_dec 250)" by (simp add: increment_value_def)
  have "?store (globalKey ''2026-01-01'') = sm_value fresh_counter" "?store (orgKey (text_of (Some ''org_1'')) ''2026-01-01'') = sm_value ?m"
    using v by (simp_all add: orgKey_def globalKey_def fresh_counter_def)
  from cap_refuses_only_spent [OF rtranclp.rtrancl_refl m this b] m b show ?thesis by (intro exI [of _ ?m]) simp
qed

end
