(* ===== verification/SourceLock.thy ===== *)
theory SourceLock
  imports SourceActor
begin

section \<open>The update lock of a batch of sources\<close>

text \<open>
  \<open>apps/api/src/lib/sources/source-lock.ts\<close> on the lease each source's actor keeps
  (\<open>tryAcquireScrapeLock\<close>, \<open>releaseScrapeLock\<close>).  The locale \<open>lease\<close> is what the callers rely on; the machine below
  is \<open>tryAcquireSourceLocks\<close> and \<open>releaseSourceLocks\<close> of many sessions at once, one remote call at a time.  A call
  may throw before it reaches the actor or after the actor acted.
\<close>

subsection \<open>Leases\<close>

locale lease =
  fixes try_lease :: "int \<Rightarrow> 'k \<Rightarrow> 's \<Rightarrow> (bool \<times> 'k) \<times> 's"
    and free_lease :: "'k \<Rightarrow> 's \<Rightarrow> 's"
    and holder :: "'s \<Rightarrow> ('k \<times> int) option"
    and period :: int
  assumes try_free: "\<forall>j e. holder st = Some (j, e) \<longrightarrow> e \<le> now \<Longrightarrow>
      fst (try_lease now k st) = (True, k) \<and> holder (snd (try_lease now k st)) = Some (k, now + period)"
    and try_held: "holder st = Some (j, e) \<Longrightarrow> now < e \<Longrightarrow> try_lease now k st = ((False, j), st)"
    and free_own: "holder st = Some (k, e) \<Longrightarrow> holder (free_lease k st) = None"
    and free_foreign: "\<forall>e. holder st \<noteq> Some (k, e) \<Longrightarrow> free_lease k st = st"
    and period_pos: "0 < period"
begin

lemma try_grants:
  assumes "try_lease now k st = ((True, j), st')"
  shows "j = k \<and> holder st' = Some (k, now + period) \<and> (\<forall>i e. holder st = Some (i, e) \<longrightarrow> e \<le> now)"
proof (cases "\<exists>i e. holder st = Some (i, e) \<and> now < e")
  case True
  with try_held assms show ?thesis by fastforce
next
  case False
  then have f: "\<forall>i e. holder st = Some (i, e) \<longrightarrow> e \<le> now" by (meson not_less)
  from try_free [OF f, of k] assms f show ?thesis by simp
qed

lemma try_refuses:
  assumes "try_lease now k st = ((False, j), st')"
  shows "st' = st \<and> (\<exists>e. holder st = Some (j, e) \<and> now < e)"
proof (cases "\<exists>i e. holder st = Some (i, e) \<and> now < e")
  case True
  with try_held assms show ?thesis by fastforce
next
  case False
  then have f: "\<forall>i e. holder st = Some (i, e) \<longrightarrow> e \<le> now" by (meson not_less)
  from try_free [OF f, of k] assms show ?thesis by simp
qed

text \<open>A live lease survives every call of another session.\<close>

lemma live_survives:
  assumes "holder st = Some (k, e)" and "now < e" and "j \<noteq> k"
  shows "holder (snd (try_lease now j st)) = Some (k, e)" and "holder (free_lease j st) = Some (k, e)"
  using try_held [OF assms(1,2), of j] free_foreign [of st j] assms by auto

text \<open>A session that took and freed a lease leaves no live one of its own, and takes no other's.\<close>

lemma try_then_free:
  "holder (free_lease k (snd (try_lease now k st))) = (case holder st of None \<Rightarrow> None
     | Some (j, e) \<Rightarrow> if now < e \<and> j \<noteq> k then Some (j, e) else None)"
proof (cases "\<exists>i e. holder st = Some (i, e) \<and> now < e")
  case True
  then obtain i e where h: "holder st = Some (i, e)" "now < e" by blast
  with try_held [OF h, of k] free_own [of st k e] free_foreign [of st k] show ?thesis by (cases "i = k") auto
next
  case False
  then have f: "\<forall>i e. holder st = Some (i, e) \<longrightarrow> e \<le> now" by (meson not_less)
  from try_free [OF f, of k] free_own f show ?thesis by (auto split: option.split)
qed

end

definition lock_holder :: "actor_storage \<Rightarrow> (string \<times> int) option" where
  "lock_holder st = map_option (\<lambda>l. (lk_session l, lk_expires_at l)) (a_lock st)"

interpretation scrape: lease tryAcquireScrapeLock releaseScrapeLock lock_holder SCRAPE_LOCK_LEASE_MS
  by unfold_locales
    (auto simp: tryAcquireScrapeLock_def releaseScrapeLock_def lock_holder_def SCRAPE_LOCK_LEASE_MS_def not_less
      split: option.splits if_splits)

subsection \<open>Acquiring a batch\<close>

datatype lock_conflict = Contended string string | LockUnavailable string

datatype rpc_mode = RpcOk | RpcLost | RpcAmbiguous

type_synonym actors = "string \<Rightarrow> actor_storage"

text \<open>One remote call of the acquisition: the conflict it reports, and the actors after it.\<close>

definition acquire_call :: "int \<Rightarrow> string \<Rightarrow> rpc_mode \<Rightarrow> string \<Rightarrow> actors \<Rightarrow> lock_conflict option \<times> actors" where
  "acquire_call now sessionId mode i actors =
     (case tryAcquireScrapeLock now sessionId (actors i) of ((acquired, owner), st) \<Rightarrow>
        (case mode of
           RpcOk \<Rightarrow> (if acquired then None else Some (Contended i owner), actors(i := st))
         | RpcLost \<Rightarrow> (Some (LockUnavailable i), actors)
         | RpcAmbiguous \<Rightarrow> (Some (LockUnavailable i), actors(i := st))))"

definition release_call :: "string \<Rightarrow> rpc_mode \<Rightarrow> string \<Rightarrow> actors \<Rightarrow> actors" where
  "release_call sessionId mode i actors =
     (case mode of RpcLost \<Rightarrow> actors | _ \<Rightarrow> actors(i := releaseScrapeLock sessionId (actors i)))"

text \<open>The calls of one batch at one instant, in the order of the list; \<open>modes\<close> gives the fate of each.\<close>

fun acquire_all :: "int \<Rightarrow> string \<Rightarrow> (string \<times> rpc_mode) list \<Rightarrow> actors \<Rightarrow> string list \<times> lock_conflict list \<times> actors" where
  "acquire_all now sessionId [] actors = ([], [], actors)"
| "acquire_all now sessionId ((i, mode) # calls) actors =
     (case acquire_call now sessionId mode i actors of (conflict, actors1) \<Rightarrow>
        (case acquire_all now sessionId calls actors1 of (acquired, conflicts, actors2) \<Rightarrow>
           (case conflict of None \<Rightarrow> (i # acquired, conflicts, actors2) | Some c \<Rightarrow> (acquired, c # conflicts, actors2))))"

definition releaseSourceLocks :: "string \<Rightarrow> (string \<times> rpc_mode) list \<Rightarrow> actors \<Rightarrow> actors" where
  "releaseSourceLocks sessionId calls actors = fold (\<lambda>(i, mode). release_call sessionId mode i) calls actors"

text \<open>\<open>bound\<close> says whether \<open>SOURCE_ACTOR\<close> is bound; \<open>rollback\<close> gives the fate of each release.\<close>

definition tryAcquireSourceLocks ::
  "bool \<Rightarrow> int \<Rightarrow> string \<Rightarrow> (string \<times> rpc_mode) list \<Rightarrow> (string \<Rightarrow> rpc_mode) \<Rightarrow> actors \<Rightarrow> lock_conflict list \<times> actors" where
  "tryAcquireSourceLocks bound now sessionId calls rollback actors =
     (if \<not> bound then ([], actors)
      else (case acquire_all now sessionId calls actors of (acquired, conflicts, actors1) \<Rightarrow>
        if conflicts \<noteq> [] then (conflicts, releaseSourceLocks sessionId (map (\<lambda>i. (i, rollback i)) acquired) actors1)
        else ([], actors1)))"

subsection \<open>A batch takes every lease or leaves none\<close>

definition live_owner :: "int \<Rightarrow> actor_storage \<Rightarrow> (string \<times> int) option" where
  "live_owner now st = (case lock_holder st of None \<Rightarrow> None | Some (k, e) \<Rightarrow> if now < e then Some (k, e) else None)"

definition takes :: "int \<Rightarrow> actors \<Rightarrow> string \<times> rpc_mode \<Rightarrow> bool" where
  "takes now actors call \<longleftrightarrow> snd call = RpcOk \<and> live_owner now (actors (fst call)) = None"

lemma acquire_call_cases:
  assumes "mode \<noteq> RpcAmbiguous"
  shows "takes now actors (i, mode) \<Longrightarrow> \<exists>st. acquire_call now k mode i actors = (None, actors(i := st)) \<and>
      lock_holder st = Some (k, now + SCRAPE_LOCK_LEASE_MS) \<and> st = snd (tryAcquireScrapeLock now k (actors i))"
    and "\<not> takes now actors (i, mode) \<Longrightarrow> \<exists>c. acquire_call now k mode i actors = (Some c, actors)"
proof -
  obtain acq owner st where t: "tryAcquireScrapeLock now k (actors i) = ((acq, owner), st)" by (metis surj_pair)
  show "takes now actors (i, mode) \<Longrightarrow> \<exists>st. acquire_call now k mode i actors = (None, actors(i := st)) \<and>
      lock_holder st = Some (k, now + SCRAPE_LOCK_LEASE_MS) \<and> st = snd (tryAcquireScrapeLock now k (actors i))"
    using t scrape.try_grants [of now k "actors i" owner st] scrape.try_refuses [of now k "actors i" owner st]
    by (cases acq) (auto simp: takes_def acquire_call_def live_owner_def)
  show "\<not> takes now actors (i, mode) \<Longrightarrow> \<exists>c. acquire_call now k mode i actors = (Some c, actors)"
    using t assms scrape.try_grants [of now k "actors i" owner st] scrape.try_refuses [of now k "actors i" owner st]
    by (cases acq; cases mode) (auto simp: takes_def acquire_call_def live_owner_def split: option.splits if_splits)
qed

lemma live_none: "live_owner now st = None \<longleftrightarrow> (\<forall>j e. lock_holder st = Some (j, e) \<longrightarrow> e \<le> now)"
  by (auto simp: live_owner_def split: option.splits)

lemma live_after_take:
  assumes "live_owner now st = None"
  shows "live_owner now (snd (tryAcquireScrapeLock now k st)) = Some (k, now + SCRAPE_LOCK_LEASE_MS)"
    and "live_owner now (releaseScrapeLock k (snd (tryAcquireScrapeLock now k st))) = None"
  using scrape.try_free [OF assms [unfolded live_none], of k] scrape.free_own scrape.period_pos
  by (simp_all add: live_owner_def)

lemma takes_upd: "fst call \<noteq> i \<Longrightarrow> takes now (actors(i := st)) call = takes now actors call"
  by (simp add: takes_def)

lemma acquire_all_spec:
  assumes "distinct (map fst calls)" and "\<forall>c \<in> set calls. snd c \<noteq> RpcAmbiguous"
  shows "\<exists>conflicts. acquire_all now k calls actors = (map fst (filter (takes now actors) calls), conflicts,
       \<lambda>i. if i \<in> fst ` set (filter (takes now actors) calls) then snd (tryAcquireScrapeLock now k (actors i)) else actors i) \<and>
     (conflicts = [] \<longleftrightarrow> (\<forall>c \<in> set calls. takes now actors c))"
  using assms
proof (induction calls arbitrary: actors)
  case (Cons call calls)
  obtain i mode where c: "call = (i, mode)" by (cases call)
  have i: "i \<notin> fst ` set calls" using Cons.prems(1) c by (simp add: image_iff)
  then have f: "filter (takes now (actors(i := st))) calls = filter (takes now actors) calls" for st
    by (intro filter_cong refl takes_upd) force
  have all: "(\<forall>c \<in> set calls. takes now (actors(i := st)) c) \<longleftrightarrow> (\<forall>c \<in> set calls. takes now actors c)" for st
    using takes_upd i by (metis image_eqI)
  have IH: "\<exists>conflicts. acquire_all now k calls a = (map fst (filter (takes now a) calls), conflicts,
       \<lambda>i. if i \<in> fst ` set (filter (takes now a) calls) then snd (tryAcquireScrapeLock now k (a i)) else a i) \<and>
     (conflicts = [] \<longleftrightarrow> (\<forall>c \<in> set calls. takes now a c))" for a
    using Cons.IH Cons.prems by simp
  have m: "mode \<noteq> RpcAmbiguous" using Cons.prems(2) c by simp
  show ?case
  proof (cases "takes now actors call")
    case True
    then obtain st where st: "acquire_call now k mode i actors = (None, actors(i := st))"
      "st = snd (tryAcquireScrapeLock now k (actors i))"
      using acquire_call_cases(1) [OF m] c by blast
    obtain conflicts where q: "acquire_all now k calls (actors(i := st)) = (map fst (filter (takes now actors) calls), conflicts,
       \<lambda>j. if j \<in> fst ` set (filter (takes now actors) calls) then snd (tryAcquireScrapeLock now k ((actors(i := st)) j)) else (actors(i := st)) j)"
      "conflicts = [] \<longleftrightarrow> (\<forall>c \<in> set calls. takes now actors c)"
      using IH [of "actors(i := st)"] unfolding f all by blast
    have "i \<notin> fst ` set (filter (takes now actors) calls)" using i by auto
    then show ?thesis
      using True st q c by (intro exI [of _ conflicts]) (auto intro!: ext)
  next
    case False
    then obtain x where st: "acquire_call now k mode i actors = (Some x, actors)"
      using acquire_call_cases(2) [OF m] c by blast
    then show ?thesis using False IH [of actors] c by auto
  qed
qed simp

lemma release_all:
  assumes "\<forall>i. rollback i \<noteq> RpcLost"
  shows "releaseSourceLocks k (map (\<lambda>i. (i, rollback i)) is) actors =
    (\<lambda>i. if i \<in> set is then releaseScrapeLock k (actors i) else actors i)"
proof (induction "is" arbitrary: actors)
  case (Cons j js)
  have r: "release_call k (rollback j) j actors = actors(j := releaseScrapeLock k (actors j))"
    using assms by (cases "rollback j") (auto simp: release_call_def)
  have twice: "releaseScrapeLock k (releaseScrapeLock k st) = releaseScrapeLock k st" for st
    by (auto simp: releaseScrapeLock_def split: option.split)
  have "releaseSourceLocks k (map (\<lambda>i. (i, rollback i)) (j # js)) actors =
      (\<lambda>i. if i \<in> set js then releaseScrapeLock k ((release_call k (rollback j) j actors) i) else (release_call k (rollback j) j actors) i)"
    using Cons [of "release_call k (rollback j) j actors"] by (simp add: releaseSourceLocks_def)
  also have "\<dots> = (\<lambda>i. if i \<in> set (j # js) then releaseScrapeLock k (actors i) else actors i)"
    unfolding r by (rule ext) (simp add: twice)
  finally show ?case .
qed (simp add: releaseSourceLocks_def)

lemma batch_all_or_nothing:
  assumes "distinct (map fst calls)" and "\<forall>c \<in> set calls. snd c \<noteq> RpcAmbiguous" and "\<forall>i. rollback i \<noteq> RpcLost"
    and "tryAcquireSourceLocks True now k calls rollback actors = (conflicts, actors')"
  shows "(conflicts = [] \<longleftrightarrow> (\<forall>(i, mode) \<in> set calls. mode = RpcOk \<and> live_owner now (actors i) = None)) \<and>
     (if conflicts = [] then
        (\<forall>i. if i \<in> fst ` set calls then live_owner now (actors' i) = Some (k, now + SCRAPE_LOCK_LEASE_MS) else actors' i = actors i)
      else (\<forall>i. live_owner now (actors' i) = live_owner now (actors i)))"
proof -
  let ?t = "filter (takes now actors) calls"
  obtain cs where a: "acquire_all now k calls actors = (map fst ?t, cs,
       \<lambda>i. if i \<in> fst ` set ?t then snd (tryAcquireScrapeLock now k (actors i)) else actors i)"
    "cs = [] \<longleftrightarrow> (\<forall>c \<in> set calls. takes now actors c)"
    using acquire_all_spec [OF assms(1,2)] by blast
  have all: "(\<forall>c \<in> set calls. takes now actors c) \<longleftrightarrow> (\<forall>(i, mode) \<in> set calls. mode = RpcOk \<and> live_owner now (actors i) = None)"
    by (auto simp: takes_def)
  show ?thesis
  proof (cases "cs = []")
    case True
    then have t: "\<forall>c \<in> set calls. takes now actors c" using a(2) by blast
    then have f: "?t = calls" by simp
    have e: "conflicts = []" "actors' = (\<lambda>i. if i \<in> fst ` set calls then snd (tryAcquireScrapeLock now k (actors i)) else actors i)"
      using assms(4) a True f by (simp_all add: tryAcquireSourceLocks_def)
    have "live_owner now (snd (tryAcquireScrapeLock now k (actors i))) = Some (k, now + SCRAPE_LOCK_LEASE_MS)"
      if "i \<in> fst ` set calls" for i
      using that t live_after_take(1) by (auto simp: takes_def)
    then show ?thesis using e t all by simp
  next
    case False
    then have e: "conflicts \<noteq> []" "actors' = (\<lambda>i. if i \<in> fst ` set ?t then releaseScrapeLock k (snd (tryAcquireScrapeLock now k (actors i))) else actors i)"
      using assms(4) a release_all [OF assms(3), of k "map fst ?t"]
      by (auto simp: tryAcquireSourceLocks_def intro!: ext)
    have "live_owner now (releaseScrapeLock k (snd (tryAcquireScrapeLock now k (actors i)))) = live_owner now (actors i)"
      if "i \<in> fst ` set ?t" for i
      using that live_after_take(2) by (auto simp: takes_def)
    then show ?thesis using e a(2) all False by auto
  qed
qed

end
