(* ===== verification/UpdateDispatch.thy ===== *)
theory UpdateDispatch
  imports SourceLock SpendCap
begin

section \<open>The dispatch gate of update runs\<close>

text \<open>
  \<open>apps/api/src/lib/sources/update-dispatch.ts\<close> (kill switch, spend cap, leases, workflow), \<open>flag\<close> of
  \<open>packages/lib/src/flags.ts\<close>, the drain of \<open>apps/api/src/org-actor.ts\<close>, the loop of
  \<open>packages/adapters/src/deterministic-update.ts\<close> and the run of
  \<open>apps/api/src/workflows/deterministic-update.ts\<close>.  What the platform answers (key-value reads, flags, remote calls,
  the creation of an instance, a fetch step) is an argument.  Log lines, and the summaries and embeddings computed after
  an insert, are left out.
\<close>

subsection \<open>Flags and the kill switch\<close>

text \<open>A binding maps a key and a default to the answer, \<^const>\<open>None\<close> where it throws.\<close>

type_synonym flagship = "string \<Rightarrow> bool \<Rightarrow> bool option"

record flag_def =
  fd_key :: string
  fd_default :: bool

definition fallbackOf :: "string option \<Rightarrow> flag_def \<Rightarrow> bool" where
  "fallbackOf varValue d = (case varValue of None \<Rightarrow> fd_default d | Some v \<Rightarrow> v = ''true'')"

definition flag :: "flagship option \<Rightarrow> string option \<Rightarrow> flag_def \<Rightarrow> bool" where
  "flag binding varValue d =
     (let fb = fallbackOf varValue d
      in case binding of None \<Rightarrow> fb | Some f \<Rightarrow> (case f (fd_key d) fb of None \<Rightarrow> fb | Some b \<Rightarrow> b))"

datatype flag_state = FlagOn | FlagOff | FlagUnset

text \<open>The two probes with opposite defaults agree exactly when the key has a value.\<close>

definition flagState :: "flagship option \<Rightarrow> string option \<Rightarrow> flag_def \<Rightarrow> flag_state" where
  "flagState binding varValue d =
     (let rest = (case varValue of None \<Rightarrow> FlagUnset | Some v \<Rightarrow> if v = ''true'' then FlagOn else FlagOff)
      in case binding of None \<Rightarrow> rest
         | Some f \<Rightarrow> (case (f (fd_key d) False, f (fd_key d) True) of
             (Some asFalse, Some asTrue) \<Rightarrow> if asFalse = asTrue then (if asFalse then FlagOn else FlagOff) else rest
           | _ \<Rightarrow> rest))"

definition maSessionsDisabled :: flag_def where
  "maSessionsDisabled = \<lparr>fd_key = ''ma-sessions-disabled'', fd_default = False\<rparr>"

text \<open>The key-value namespace answers a text or nothing, or throws (\<^const>\<open>None\<close>).\<close>

type_synonym kv_binding = "string \<Rightarrow> string option option"

datatype create_reply = RunCreated | RunNotCreated string | RunAnswerLost string
datatype hub_reply = HubOk | HubFails

record update_env =
  ue_cache :: "kv_binding option"
  ue_flags :: "flagship option"
  ue_ma_disabled :: "string option"
  ue_caps :: cap_env
  ue_actor_bound :: bool
  ue_workflow :: "create_reply option"
  ue_hub :: "hub_reply option"

datatype disabled_via = ViaKv | ViaEnv

definition updatesDisabled :: "update_env \<Rightarrow> disabled_via option" where
  "updatesDisabled env =
     (let viaFlag = (if flag (ue_flags env) (ue_ma_disabled env) maSessionsDisabled then Some ViaEnv else None)
      in case ue_cache env of None \<Rightarrow> viaFlag
         | Some kv \<Rightarrow> (case kv ''ma:sessions:disabled'' of None \<Rightarrow> viaFlag
             | Some v \<Rightarrow> if text_of v \<noteq> [] then Some ViaKv else viaFlag))"

subsection \<open>The gates\<close>

definition MAX_UPDATE_SOURCES :: nat where "MAX_UPDATE_SOURCES = 20"

record update_params =
  up_company :: string
  up_sources :: "string list"
  up_org :: "string option"
  up_correlation :: "string option"

datatype refusal = RefInvalid | RefKillSwitch | RefSpendCap | RefLocked | RefUnavailable
datatype start_result = Started string | RunRefused refusal string "int option"

text \<open>The two arguments are untyped values; an absent one is \<open>undefined\<close>.\<close>

definition validateUpdateParams :: "jvalue option \<Rightarrow> jvalue option \<Rightarrow> string option" where
  "validateUpdateParams company sourceIdentifiers =
     (case company of Some (VStr c) \<Rightarrow>
        (if c = [] then Some ''Missing required field: company''
         else (case sourceIdentifiers of Some (VArr ids) \<Rightarrow>
            (if ids = [] then Some ''sourceIdentifiers must be a non-empty array''
             else if MAX_UPDATE_SOURCES < length ids then
               Some (''Too many sources ('' @ nat_to_dec (length ids) @ ''/'' @ nat_to_dec MAX_UPDATE_SOURCES @
                 '' max). Split into multiple requests.'')
             else None)
          | _ \<Rightarrow> Some ''sourceIdentifiers must be a non-empty array''))
      | _ \<Rightarrow> Some ''Missing required field: company'')"

text \<open>An event of the status hub; \<open>notifyUpdateStatusHub\<close> drops it when the hub is not bound or fails.\<close>

datatype hub_event =
    SessionStart string string "string option" "string option" "string list"
  | SessionError string string string string "string option"
  | SessionComplete string string nat nat int int nat

record dispatch_world =
  dw_actors :: actors
  dw_runs :: "(string \<times> update_params) list"
  dw_hub :: "hub_event list"

definition notifyUpdateStatusHub :: "update_env \<Rightarrow> hub_event \<Rightarrow> dispatch_world \<Rightarrow> dispatch_world" where
  "notifyUpdateStatusHub env event w = (case ue_hub env of Some HubOk \<Rightarrow> w\<lparr>dw_hub := dw_hub w @ [event]\<rparr> | _ \<Rightarrow> w)"

definition present_text :: "string option \<Rightarrow> string option" where
  "present_text t = (if text_of t = [] then None else t)"

text \<open>\<open>(cents / 100).toFixed(2)\<close> of a natural number of cents.\<close>

definition dollars :: "int \<Rightarrow> string" where
  "dollars cents = int_to_dec (cents div 100) @ ''.'' @ pad_start 2 CHR ''0'' (int_to_dec (cents mod 100))"

fun cap_message :: "spend_cap_result \<Rightarrow> string option" where
  "cap_message NotBlocked = None"
| "cap_message (Blocked scope current cap) = Some (''Daily '' @ (case scope of OrgScope \<Rightarrow> ''org'' | GlobalScope \<Rightarrow> ''global'') @
     '' spend cap reached ($'' @ dollars current @ '' of $'' @ dollars cap @ '')'')"

text \<open>What \<open>checkSpendCap\<close> reads: nothing when one of its reads throws.\<close>

definition spend_reads :: "kv_binding \<Rightarrow> string \<Rightarrow> string option \<Rightarrow> kv_store option" where
  "spend_reads kv date orgId =
     (if kv (globalKey date) = None \<or> text_of orgId \<noteq> [] \<and> kv (orgKey (text_of orgId) date) = None then None
      else Some (\<lambda>k. case kv k of None \<Rightarrow> None | Some v \<Rightarrow> v))"

fun conflict_text :: "lock_conflict \<Rightarrow> string" where
  "conflict_text (Contended i s) = ''Source '' @ i @ '' has an active update session ('' @ s @ '')''"
| "conflict_text (LockUnavailable i) = ''Source '' @ i @ '' lock check unavailable (failed closed)''"

text \<open>The fate of each remote call: of the acquisitions by position, of the releases by source.\<close>

record call_fates =
  cf_acquire :: "nat \<Rightarrow> rpc_mode"
  cf_release :: "string \<Rightarrow> rpc_mode"

definition lock_calls :: "call_fates \<Rightarrow> string list \<Rightarrow> (string \<times> rpc_mode) list" where
  "lock_calls fates ids = map (\<lambda>(n, i). (i, cf_acquire fates n)) (enumerate 0 ids)"

definition free_calls :: "call_fates \<Rightarrow> string list \<Rightarrow> (string \<times> rpc_mode) list" where
  "free_calls fates ids = map (\<lambda>i. (i, cf_release fates i)) ids"

definition release_if_bound :: "update_env \<Rightarrow> call_fates \<Rightarrow> string \<Rightarrow> string list \<Rightarrow> actors \<Rightarrow> actors" where
  "release_if_bound env fates sessionId ids actors =
     (if ue_actor_bound env then releaseSourceLocks sessionId (free_calls fates ids) actors else actors)"

definition spend_gate :: "update_env \<Rightarrow> int \<Rightarrow> string option \<Rightarrow> string option" where
  "spend_gate env now orgId =
     (case ue_cache env of None \<Rightarrow> None
      | Some kv \<Rightarrow> (let date = take 10 (iso_text now)
          in cap_message (checkSpendCap (spend_reads kv date orgId) date orgId (ue_caps env))))"

definition det_session :: "string \<Rightarrow> string" where "det_session uuid = ''det-'' @ uuid"

text \<open>\<open>uuid\<close> is the fresh identifier; the instance exists after \<open>create\<close> returned, and also when only its answer was lost.\<close>

definition startDeterministicUpdate ::
  "update_env \<Rightarrow> call_fates \<Rightarrow> int \<Rightarrow> string \<Rightarrow> update_params \<Rightarrow> dispatch_world \<Rightarrow> start_result \<times> dispatch_world" where
  "startDeterministicUpdate env fates now uuid p w =
     (case validateUpdateParams (Some (VStr (up_company p))) (Some (VArr (map VStr (up_sources p)))) of
        Some m \<Rightarrow> (RunRefused RefInvalid m None, w)
      | None \<Rightarrow>
     (case updatesDisabled env of
        Some _ \<Rightarrow> (RunRefused RefKillSwitch ''Managed-agent sessions temporarily disabled (kill switch)'' None, w)
      | None \<Rightarrow>
     (case spend_gate env now (up_org p) of
        Some m \<Rightarrow> (RunRefused RefSpendCap m None, w)
      | None \<Rightarrow>
     (case ue_workflow env of
        None \<Rightarrow> (RunRefused RefUnavailable ''DETERMINISTIC_UPDATE_WORKFLOW binding not configured'' None, w)
      | Some created \<Rightarrow>
        (let sessionId = det_session uuid in
         case tryAcquireSourceLocks (ue_actor_bound env) now sessionId (lock_calls fates (up_sources p)) (cf_release fates) (dw_actors w) of
           (conflicts, actors1) \<Rightarrow>
             (if conflicts \<noteq> [] then
                (RunRefused RefLocked (join ''; '' (map conflict_text conflicts)) (Some 900), w\<lparr>dw_actors := actors1\<rparr>)
              else
                (let undone = release_if_bound env fates sessionId (up_sources p) actors1
                 in case created of
                   RunNotCreated m \<Rightarrow> (RunRefused RefUnavailable (''Failed to start update workflow: '' @ m) None, w\<lparr>dw_actors := undone\<rparr>)
                 | RunAnswerLost m \<Rightarrow> (RunRefused RefUnavailable (''Failed to start update workflow: '' @ m) None,
                     w\<lparr>dw_actors := undone, dw_runs := dw_runs w @ [(sessionId, p)]\<rparr>)
                 | RunCreated \<Rightarrow> (Started sessionId, notifyUpdateStatusHub env
                     (SessionStart sessionId (up_company p) (present_text (up_org p)) (present_text (up_correlation p)) (up_sources p))
                     (w\<lparr>dw_actors := actors1, dw_runs := dw_runs w @ [(sessionId, p)]\<rparr>)))))))))"

subsection \<open>The fetch loop of a run\<close>

text \<open>
  A fetch returns a text or throws.  \<open>parse\<close> is \<open>JSON.parse\<close> followed by reading the four fields, \<^const>\<open>None\<close> where
  that throws.
\<close>

datatype fetch_reply = Fetched string | FetchThrew string

record scrape_json =
  sj_status :: "string option"
  sj_found :: "int option"
  sj_inserted :: "int option"
  sj_ids :: "string list option"

record scrape_outcome =
  so_source :: string
  so_ok :: bool
  so_status :: "string option"
  so_found :: "int option"
  so_inserted :: "int option"
  so_error :: "string option"
  so_category :: "string option"
  so_ids :: "string list option"

definition ERROR_WITH_CATEGORY :: re where
  "ERROR_WITH_CATEGORY = seqs [Bos, lit ''Error ['', Grp 1 (plus (Cls is_lower)), lit '']:'', Star space,
     Grp 2 (Star (Cls (\<lambda>c. True))), Eos]"

definition scrapeFetchErrorCategory :: "string \<Rightarrow> string option" where
  "scrapeFetchErrorCategory raw = map_option (\<lambda>m. group 1 (snd m)) (exec ERROR_WITH_CATEGORY raw)"

definition failed_outcome :: "string \<Rightarrow> string \<Rightarrow> string option \<Rightarrow> scrape_outcome" where
  "failed_outcome source err category = \<lparr>so_source = source, so_ok = False, so_status = None, so_found = None, so_inserted = None,
     so_error = Some err, so_category = present_text category, so_ids = None\<rparr>"

definition parseScrapeFetchResult :: "(string \<Rightarrow> scrape_json option) \<Rightarrow> string \<Rightarrow> string \<Rightarrow> scrape_outcome" where
  "parseScrapeFetchResult parse source raw =
     (case exec ERROR_WITH_CATEGORY raw of
        Some m \<Rightarrow> failed_outcome source (group 2 (snd m)) (Some (group 1 (snd m)))
      | None \<Rightarrow>
          (if js_starts_with raw ''Error:'' then failed_outcome source (js_trim (drop 6 raw)) None
           else (case parse raw of
               Some j \<Rightarrow> \<lparr>so_source = source, so_ok = True, so_status = sj_status j,
                  so_found = Some (case sj_found j of None \<Rightarrow> 0 | Some n \<Rightarrow> n),
                  so_inserted = Some (case sj_inserted j of None \<Rightarrow> 0 | Some n \<Rightarrow> n),
                  so_error = None, so_category = None, so_ids = sj_ids j\<rparr>
             | None \<Rightarrow> failed_outcome source (''Unparseable fetch result: '' @ take 200 raw) None)))"

definition fetch_outcome :: "(string \<Rightarrow> fetch_reply) \<Rightarrow> (string \<Rightarrow> scrape_json option) \<Rightarrow> string \<Rightarrow> scrape_outcome" where
  "fetch_outcome fetch parse source =
     (case fetch source of Fetched raw \<Rightarrow> parseScrapeFetchResult parse source raw | FetchThrew m \<Rightarrow> failed_outcome source m None)"

record update_summary =
  us_results :: "scrape_outcome list"
  us_skipped :: nat
  us_found :: int
  us_inserted :: int
  us_errors :: nat

definition add_outcome :: "scrape_outcome \<Rightarrow> update_summary \<Rightarrow> update_summary" where
  "add_outcome oc s = s\<lparr>us_results := us_results s @ [oc],
     us_found := us_found s + (case so_found oc of None \<Rightarrow> 0 | Some n \<Rightarrow> n),
     us_inserted := us_inserted s + (case so_inserted oc of None \<Rightarrow> 0 | Some n \<Rightarrow> n),
     us_errors := us_errors s + (if so_ok oc then 0 else 1)\<rparr>"

text \<open>\<open>clock n\<close> is the \<open>n\<close>-th reading of the clock; a budget of \<^const>\<open>None\<close> is infinite.\<close>

definition spent_budget :: "(nat \<Rightarrow> int) \<Rightarrow> int option \<Rightarrow> nat \<Rightarrow> bool" where
  "spent_budget clock budgetMs n = (case budgetMs of None \<Rightarrow> False | Some b \<Rightarrow> b \<le> clock n - clock 0)"

fun scrape_loop :: "(nat \<Rightarrow> int) \<Rightarrow> int option \<Rightarrow> (string \<Rightarrow> scrape_outcome) \<Rightarrow> nat \<Rightarrow> update_summary \<Rightarrow> string list \<Rightarrow> update_summary" where
  "scrape_loop clock budgetMs outcome n s [] = s"
| "scrape_loop clock budgetMs outcome n s (source # rest) =
     (if spent_budget clock budgetMs n then s\<lparr>us_skipped := length (source # rest)\<rparr>
      else scrape_loop clock budgetMs outcome (Suc n) (add_outcome (outcome source) s) rest)"

definition runScrapeFetchLoop ::
  "(nat \<Rightarrow> int) \<Rightarrow> int option \<Rightarrow> (string \<Rightarrow> fetch_reply) \<Rightarrow> (string \<Rightarrow> scrape_json option) \<Rightarrow> string list \<Rightarrow> update_summary" where
  "runScrapeFetchLoop clock budgetMs fetch parse sources =
     scrape_loop clock budgetMs (fetch_outcome fetch parse) 1
       \<lparr>us_results = [], us_skipped = 0, us_found = 0, us_inserted = 0, us_errors = 0\<rparr> sources"

subsection \<open>A run\<close>

definition truncate_text :: "string \<Rightarrow> nat \<Rightarrow> string \<Rightarrow> string" where
  "truncate_text ellipsis maxLength t = (if length t \<le> maxLength then t else take maxLength t @ ellipsis)"

text \<open>The error type \<open>classifyUsFatal\<close> attaches; its source is always \<open>us\<close>.\<close>

definition classifyUsFatal :: "string option \<Rightarrow> string option" where
  "classifyUsFatal category = present_text category"

definition terminal_event :: "string \<Rightarrow> string \<Rightarrow> string \<Rightarrow> update_summary \<Rightarrow> hub_event" where
  "terminal_event ellipsis sessionId company s =
     (if 0 < length (us_results s) \<and> length (us_results s) \<le> us_errors s then
        (let firstError = find (\<lambda>r. \<not> so_ok r) (us_results s);
             all = ''All '' @ nat_to_dec (us_errors s) @ '' source fetch(es) failed'';
             err = (case firstError of None \<Rightarrow> None | Some r \<Rightarrow> present_text (so_error r));
             detail = (case err of None \<Rightarrow> all | Some m \<Rightarrow> all @ '': '' @ truncate_text ellipsis 120 m)
         in SessionError sessionId company detail ''us''
              (classifyUsFatal (case firstError of None \<Rightarrow> None | Some r \<Rightarrow> so_category r)))
      else SessionComplete sessionId company (length (us_results s)) (us_skipped s) (us_found s) (us_inserted s) (us_errors s))"

text \<open>\<open>secrets\<close> says whether \<open>buildScrapeEnv\<close> found its secrets; the leases are released on every path.\<close>

definition update_run ::
  "update_env \<Rightarrow> call_fates \<Rightarrow> string \<Rightarrow> bool \<Rightarrow> (string \<Rightarrow> fetch_reply) \<Rightarrow> (string \<Rightarrow> scrape_json option) \<Rightarrow> (nat \<Rightarrow> int) \<Rightarrow>
     string \<Rightarrow> update_params \<Rightarrow> dispatch_world \<Rightarrow> dispatch_world" where
  "update_run env fates ellipsis secrets fetch parse clock sessionId p w =
     (let event = (if \<not> secrets then SessionError sessionId (up_company p) ''scrape secrets not configured'' ''us'' None
                   else terminal_event ellipsis sessionId (up_company p) (runScrapeFetchLoop clock None fetch parse (up_sources p)));
          w1 = notifyUpdateStatusHub env event w
      in w1\<lparr>dw_actors := release_if_bound env fates sessionId (up_sources p) (dw_actors w1)\<rparr>)"

subsection \<open>The drain of an organisation\<close>

record org_storage =
  os_org :: "string option"
  os_alarm :: "int option"

definition ORG_DRAIN_CHUNK :: nat where "ORG_DRAIN_CHUNK = MAX_UPDATE_SOURCES"

definition ensureDrainScheduled :: "int \<Rightarrow> string \<Rightarrow> org_storage \<Rightarrow> org_storage" where
  "ensureDrainScheduled now orgId st =
     st\<lparr>os_org := Some orgId,
       os_alarm := (case os_alarm st of None \<Rightarrow> Some (now + seedJitterMs orgId SEED_JITTER_WINDOW_MS) | Some a \<Rightarrow> Some a)\<rparr>"

datatype drain_event = DrainNoOrg | DrainSkipped | DrainSuperseded | DrainFailed refusal | DrainDispatched string

definition stamp_drain :: "string list \<Rightarrow> int \<Rightarrow> source list \<Rightarrow> source list" where
  "stamp_drain ids t rows = map (\<lambda>r. if s_id r \<in> set ids then r\<lparr>s_last_drain_at := Some (iso_text t)\<rparr> else r) rows"

text \<open>\<open>later\<close> is the instant of the stamp, \<open>stamp_ok\<close> whether its write succeeds.\<close>

definition org_alarm ::
  "update_env \<Rightarrow> call_fates \<Rightarrow> int \<Rightarrow> int \<Rightarrow> string \<Rightarrow> bool \<Rightarrow> organization list \<Rightarrow> org_storage \<Rightarrow> source list \<Rightarrow> dispatch_world \<Rightarrow>
     drain_event \<times> org_storage \<times> source list \<times> dispatch_world" where
  "org_alarm env fates now later uuid stamp_ok orgs st rows w =
     (let orgId = text_of (os_org st); st1 = st\<lparr>os_alarm := None\<rparr>
      in if orgId = [] then (DrainNoOrg, st1, rows, w)
         else (case fst (queryCandidates ORG_DRAIN_CHUNK (Some orgId) None now rows orgs) of
             [] \<Rightarrow> (DrainSkipped, st1, rows, w)
           | c # cs \<Rightarrow>
              (let ids = map c_id (c # cs) in
               case startDeterministicUpdate env fates now uuid
                   \<lparr>up_company = c_org_name c, up_sources = ids, up_org = Some orgId, up_correlation = Some (''org-actor:'' @ orgId)\<rparr> w of
                 (Started s, w1) \<Rightarrow> (DrainDispatched s, st1, if stamp_ok then stamp_drain ids later rows else rows, w1)
               | (RunRefused why m retry, w1) \<Rightarrow>
                   (if why = RefLocked then DrainSuperseded else DrainFailed why, st1, rows, w1))))"

subsection \<open>What a dispatch leaves behind\<close>

lemma lock_calls_fst [simp]: "map fst (lock_calls fates ids) = ids"
  by (simp add: lock_calls_def case_prod_beta comp_def)

lemma lock_calls_ids [simp]: "fst ` set (lock_calls fates ids) = set ids"
  using lock_calls_fst [of fates ids] by (metis list.set_map)

lemma lock_calls_mode: "c \<in> set (lock_calls fates ids) \<Longrightarrow> \<exists>n. snd c = cf_acquire fates n"
  by (auto simp: lock_calls_def)

lemma free_calls_all:
  assumes "\<forall>i. cf_release fates i \<noteq> RpcLost" and "ue_actor_bound env"
  shows "release_if_bound env fates k ids actors = (\<lambda>i. if i \<in> set ids then releaseScrapeLock k (actors i) else actors i)"
  using release_all [OF assms(1), of k ids actors] assms(2) by (simp add: release_if_bound_def free_calls_def)

lemma valid_params:
  "validateUpdateParams (Some (VStr c)) (Some (VArr (map VStr ids))) = None \<longleftrightarrow>
     c \<noteq> [] \<and> ids \<noteq> [] \<and> length ids \<le> MAX_UPDATE_SOURCES"
  by (auto simp: validateUpdateParams_def)

lemma released_owner:
  assumes "live_owner now st = Some (k, e)"
  shows "lock_holder (releaseScrapeLock k st) = None"
  using assms scrape.free_own by (auto simp: live_owner_def split: option.splits if_splits)

text \<open>The gates, in their order, and what the leases say once they are all open.\<close>

definition gates_open :: "update_env \<Rightarrow> int \<Rightarrow> update_params \<Rightarrow> bool" where
  "gates_open env now p \<longleftrightarrow> up_company p \<noteq> [] \<and> up_sources p \<noteq> [] \<and> length (up_sources p) \<le> MAX_UPDATE_SOURCES \<and>
     updatesDisabled env = None \<and> spend_gate env now (up_org p) = None \<and> ue_workflow env \<noteq> None"

lemma start_closed:
  assumes "\<not> gates_open env now p"
  shows "\<exists>why m. startDeterministicUpdate env fates now uuid p w = (RunRefused why m None, w) \<and> why \<noteq> RefLocked"
  using assms valid_params [of "up_company p" "up_sources p"]
  by (auto simp: startDeterministicUpdate_def gates_open_def split: option.split)

lemma start_open:
  assumes "gates_open env now p"
  shows "startDeterministicUpdate env fates now uuid p w =
    (case tryAcquireSourceLocks (ue_actor_bound env) now (det_session uuid) (lock_calls fates (up_sources p)) (cf_release fates) (dw_actors w) of
       (conflicts, actors1) \<Rightarrow>
        if conflicts \<noteq> [] then (RunRefused RefLocked (join ''; '' (map conflict_text conflicts)) (Some 900), w\<lparr>dw_actors := actors1\<rparr>)
        else (case the (ue_workflow env) of
            RunNotCreated m \<Rightarrow> (RunRefused RefUnavailable (''Failed to start update workflow: '' @ m) None,
              w\<lparr>dw_actors := release_if_bound env fates (det_session uuid) (up_sources p) actors1\<rparr>)
          | RunAnswerLost m \<Rightarrow> (RunRefused RefUnavailable (''Failed to start update workflow: '' @ m) None,
              w\<lparr>dw_actors := release_if_bound env fates (det_session uuid) (up_sources p) actors1, dw_runs := dw_runs w @ [(det_session uuid, p)]\<rparr>)
          | RunCreated \<Rightarrow> (Started (det_session uuid), notifyUpdateStatusHub env
              (SessionStart (det_session uuid) (up_company p) (present_text (up_org p)) (present_text (up_correlation p)) (up_sources p))
              (w\<lparr>dw_actors := actors1, dw_runs := dw_runs w @ [(det_session uuid, p)]\<rparr>))))"
proof -
  obtain created where c: "ue_workflow env = Some created" using assms by (auto simp: gates_open_def)
  have v: "validateUpdateParams (Some (VStr (up_company p))) (Some (VArr (map VStr (up_sources p)))) = None"
    using assms by (simp add: valid_params gates_open_def)
  from assms c v show ?thesis by (simp add: startDeterministicUpdate_def gates_open_def Let_def split: prod.split create_reply.split)
qed

lemma notify_simps [simp]:
  "dw_actors (notifyUpdateStatusHub env e w) = dw_actors w" "dw_runs (notifyUpdateStatusHub env e w) = dw_runs w"
  by (simp_all add: notifyUpdateStatusHub_def split: option.split hub_reply.split)

lemma started_run:
  assumes "startDeterministicUpdate env fates now uuid p w = (Started s, w')"
  shows "dw_runs w' = dw_runs w @ [(s, p)]"
proof -
  have o: "gates_open env now p" using start_closed [of env now p fates uuid w] assms by fastforce
  show ?thesis using assms start_open [OF o, of fates uuid w]
    by (auto split: prod.splits if_splits create_reply.splits)
qed

lemma notify_hub: "ue_hub env = Some HubOk \<Longrightarrow> dw_hub (notifyUpdateStatusHub env e w) = dw_hub w @ [e]"
  by (simp add: notifyUpdateStatusHub_def)

text \<open>
  What a dispatch must answer: the first gate that is closed, in the order of the checks, names the refusal.  Without a
  binding for the source actors no lease is asked for.
\<close>

definition leases_free :: "update_env \<Rightarrow> call_fates \<Rightarrow> int \<Rightarrow> update_params \<Rightarrow> dispatch_world \<Rightarrow> bool" where
  "leases_free env fates now p w \<longleftrightarrow> (ue_actor_bound env \<longrightarrow> (\<forall>n < length (up_sources p).
     cf_acquire fates n = RpcOk \<and> live_owner now (dw_actors w (up_sources p ! n)) = None))"

definition due_refusal :: "update_env \<Rightarrow> call_fates \<Rightarrow> int \<Rightarrow> update_params \<Rightarrow> dispatch_world \<Rightarrow> refusal option" where
  "due_refusal env fates now p w =
     (if up_company p = [] \<or> up_sources p = [] \<or> 20 < length (up_sources p) then Some RefInvalid
      else if updatesDisabled env \<noteq> None then Some RefKillSwitch
      else if spend_gate env now (up_org p) \<noteq> None then Some RefSpendCap
      else if ue_workflow env = None then Some RefUnavailable
      else if \<not> leases_free env fates now p w then Some RefLocked
      else if ue_workflow env \<noteq> Some RunCreated then Some RefUnavailable
      else None)"

definition calls_settle :: "update_env \<Rightarrow> call_fates \<Rightarrow> update_params \<Rightarrow> bool" where
  "calls_settle env fates p \<longleftrightarrow> (ue_actor_bound env \<longrightarrow> distinct (up_sources p) \<and>
     (\<forall>n. cf_acquire fates n \<noteq> RpcAmbiguous) \<and> (\<forall>i. cf_release fates i \<noteq> RpcLost))"

lemma lock_calls_set: "set (lock_calls fates ids) = (\<lambda>n. (ids ! n, cf_acquire fates n)) ` {..<length ids}"
  by (force simp: lock_calls_def in_set_enumerate_eq)

lemma acquire_gate:
  assumes "calls_settle env fates p"
    and t: "tryAcquireSourceLocks (ue_actor_bound env) now k (lock_calls fates (up_sources p)) (cf_release fates) (dw_actors w) = (cs, acts)"
  shows "cs = [] \<longleftrightarrow> leases_free env fates now p w"
    and "cs = [] \<Longrightarrow> (if ue_actor_bound env \<and> i \<in> set (up_sources p)
           then live_owner now (acts i) = Some (k, now + SCRAPE_LOCK_LEASE_MS) else acts i = dw_actors w i)"
    and "cs \<noteq> [] \<Longrightarrow> live_owner now (acts i) = live_owner now (dw_actors w i)"
proof -
  let ?c = "lock_calls fates (up_sources p)"
  have "(cs = [] \<longleftrightarrow> leases_free env fates now p w) \<and>
    (cs = [] \<longrightarrow> (if ue_actor_bound env \<and> i \<in> set (up_sources p)
           then live_owner now (acts i) = Some (k, now + SCRAPE_LOCK_LEASE_MS) else acts i = dw_actors w i)) \<and>
    (cs \<noteq> [] \<longrightarrow> live_owner now (acts i) = live_owner now (dw_actors w i))"
  proof (cases "ue_actor_bound env")
    case False
    then show ?thesis using t by (simp add: tryAcquireSourceLocks_def leases_free_def)
  next
    case True
    have d: "distinct (map fst ?c)" "\<forall>c \<in> set ?c. snd c \<noteq> RpcAmbiguous" "\<forall>i. cf_release fates i \<noteq> RpcLost"
      using assms(1) True lock_calls_mode [of _ fates "up_sources p"] by (auto simp: calls_settle_def) metis
    have "(\<forall>(i, mode) \<in> set ?c. mode = RpcOk \<and> live_owner now (dw_actors w i) = None) \<longleftrightarrow> leases_free env fates now p w"
      using True by (auto simp: leases_free_def lock_calls_set)
    then show ?thesis using batch_all_or_nothing [OF d t [unfolded eqTrueI [OF True]]] True by simp
  qed
  then show "cs = [] \<longleftrightarrow> leases_free env fates now p w"
    and "cs = [] \<Longrightarrow> (if ue_actor_bound env \<and> i \<in> set (up_sources p)
           then live_owner now (acts i) = Some (k, now + SCRAPE_LOCK_LEASE_MS) else acts i = dw_actors w i)"
    and "cs \<noteq> [] \<Longrightarrow> live_owner now (acts i) = live_owner now (dw_actors w i)" by blast+
qed

text \<open>Giving the leases back leaves every live lease as it was before they were taken.\<close>

lemma release_undoes:
  assumes "calls_settle env fates p" and "leases_free env fates now p w"
    and taken: "\<And>i. if ue_actor_bound env \<and> i \<in> set (up_sources p)
           then live_owner now (acts i) = Some (k, now + SCRAPE_LOCK_LEASE_MS) else acts i = dw_actors w i"
  shows "live_owner now (release_if_bound env fates k (up_sources p) acts i) = live_owner now (dw_actors w i)"
proof (cases "ue_actor_bound env")
  case True
  then have r: "\<forall>i. cf_release fates i \<noteq> RpcLost" using assms(1) by (simp add: calls_settle_def)
  show ?thesis
  proof (cases "i \<in> set (up_sources p)")
    case mem: True
    then have "live_owner now (dw_actors w i) = None"
      using assms(2) True by (auto simp: leases_free_def in_set_conv_nth)
    moreover have "live_owner now (acts i) = Some (k, now + SCRAPE_LOCK_LEASE_MS)" using taken [of i] True mem by simp
    ultimately show ?thesis using released_owner mem free_calls_all [OF r True]
      by (simp add: live_owner_def [of now "releaseScrapeLock _ _"])
  next
    case False
    then show ?thesis using taken [of i] free_calls_all [OF r True] by simp
  qed
next
  case False
  then show ?thesis using taken [of i] by (simp add: release_if_bound_def)
qed

lemma start_refusal:
  assumes "due_refusal env fates now p w = Some why" and "why \<noteq> RefLocked" and "ue_workflow env = None \<or> \<not> gates_open env now p"
  shows "\<exists>m. startDeterministicUpdate env fates now uuid p w = (RunRefused why m None, w)"
proof -
  have "validateUpdateParams (Some (VStr (up_company p))) (Some (VArr (map VStr (up_sources p)))) \<noteq> None \<longleftrightarrow>
      up_company p = [] \<or> up_sources p = [] \<or> 20 < length (up_sources p)"
    using valid_params [of "up_company p" "up_sources p"] by (auto simp: MAX_UPDATE_SOURCES_def)
  with assms show ?thesis
    by (auto simp: startDeterministicUpdate_def due_refusal_def gates_open_def MAX_UPDATE_SOURCES_def
        split: if_splits option.split)
qed

text \<open>C14: What a dispatch answers and leaves behind.  It is refused for the first gate that is closed, in the order invalid
  parameters, kill switch, spend cap, workflow not bound, a lease that is held or cannot be checked, creation failed, and
  started exactly when none is.  A started one created its run, announced it, and holds the lease of each of its sources,
  all free before, for a quarter of an hour; a refused one leaves every live lease as it was, sends nothing to the hub, is
  told to retry in fifteen minutes exactly when it is refused for a lease, and leaves a run only when the answer of the
  creation was lost.  Where the source actors are not bound the gate is open and no lease is taken.  Where they are, the
  sources are distinct, no acquisition is lost after it took effect, and no release is lost.
\<close>

theorem dispatch_contract:
  assumes "calls_settle env fates p" and "startDeterministicUpdate env fates now uuid p w = (r, w')"
  shows "case due_refusal env fates now p w of
      None \<Rightarrow> r = Started (det_session uuid) \<and> dw_runs w' = dw_runs w @ [(det_session uuid, p)] \<and>
        dw_hub w' = dw_hub w @ (if ue_hub env = Some HubOk then [SessionStart (det_session uuid) (up_company p)
          (present_text (up_org p)) (present_text (up_correlation p)) (up_sources p)] else []) \<and>
        (\<forall>i. if ue_actor_bound env \<and> i \<in> set (up_sources p) then live_owner now (dw_actors w i) = None \<and>
               live_owner now (dw_actors w' i) = Some (det_session uuid, now + SCRAPE_LOCK_LEASE_MS)
             else dw_actors w' i = dw_actors w i)
    | Some why \<Rightarrow> (\<exists>m. r = RunRefused why m (if why = RefLocked then Some 900 else None)) \<and>
        (\<forall>i. live_owner now (dw_actors w' i) = live_owner now (dw_actors w i)) \<and> dw_hub w' = dw_hub w \<and>
        (dw_runs w' = dw_runs w \<or>
          why = RefUnavailable \<and> (\<exists>e. ue_workflow env = Some (RunAnswerLost e)) \<and> dw_runs w' = dw_runs w @ [(det_session uuid, p)])"
proof (cases "gates_open env now p")
  case False
  then have "\<exists>why. due_refusal env fates now p w = Some why \<and> why \<noteq> RefLocked"
    by (auto simp: due_refusal_def gates_open_def MAX_UPDATE_SOURCES_def)
  then obtain why where "due_refusal env fates now p w = Some why" "why \<noteq> RefLocked" by blast
  with start_refusal [OF this, of uuid] False assms(2) show ?thesis by auto
next
  case op: True
  let ?k = "det_session uuid"
  obtain cs acts where t: "tryAcquireSourceLocks (ue_actor_bound env) now ?k (lock_calls fates (up_sources p)) (cf_release fates)
      (dw_actors w) = (cs, acts)" by (metis surj_pair)
  note g = acquire_gate [OF assms(1) t]
  note start = start_open [OF op, of fates uuid w] t assms(2)
  obtain created where c: "ue_workflow env = Some created" using op by (auto simp: gates_open_def)
  have due: "due_refusal env fates now p w = (if cs \<noteq> [] then Some RefLocked else if created \<noteq> RunCreated then Some RefUnavailable else None)"
    using op g(1) c by (auto simp: due_refusal_def gates_open_def MAX_UPDATE_SOURCES_def)
  show ?thesis
  proof (cases "cs = []")
    case True
    have lf: "leases_free env fates now p w" using g(1) True by simp
    have undo: "live_owner now (release_if_bound env fates ?k (up_sources p) acts i) = live_owner now (dw_actors w i)" for i
      by (rule release_undoes [OF assms(1) lf g(2) [OF True]])
    show ?thesis
    proof (cases created)
      case RunCreated
      have w': "r = Started ?k" "dw_actors w' = acts" "dw_runs w' = dw_runs w @ [(?k, p)]"
        "dw_hub w' = dw_hub w @ (if ue_hub env = Some HubOk then [SessionStart ?k (up_company p)
          (present_text (up_org p)) (present_text (up_correlation p)) (up_sources p)] else [])"
        using start True c RunCreated by (auto simp: notifyUpdateStatusHub_def split: option.splits hub_reply.splits)
      have "live_owner now (dw_actors w i) = None" if "ue_actor_bound env" "i \<in> set (up_sources p)" for i
        using lf that by (auto simp: leases_free_def in_set_conv_nth)
      then show ?thesis using w' g(2) [OF True] due True RunCreated by simp
    qed (use start True c undo due in auto)
  next
    case False
    then show ?thesis using start g(3) [OF False] due by auto
  qed
qed

subsection \<open>What a run leaves behind\<close>

text \<open>The loop processes a prefix of the sources, and all of them under an infinite budget.\<close>

lemma scrape_loop_spec:
  "\<exists>k \<le> length xs. us_results (scrape_loop clock budget outcome n s xs) = us_results s @ map outcome (take k xs) \<and>
     (k < length xs \<longrightarrow> us_skipped (scrape_loop clock budget outcome n s xs) = length xs - k) \<and>
     (k = length xs \<longrightarrow> us_skipped (scrape_loop clock budget outcome n s xs) = us_skipped s) \<and>
     us_errors (scrape_loop clock budget outcome n s xs) = us_errors s + length (filter (\<lambda>x. \<not> so_ok (outcome x)) (take k xs)) \<and>
     (budget = None \<longrightarrow> k = length xs)"
proof (induction xs arbitrary: n s)
  case (Cons x xs)
  show ?case
  proof (cases "spent_budget clock budget n")
    case True
    then show ?thesis by (intro exI [of _ 0]) (auto simp: spent_budget_def split: option.splits)
  next
    case False
    let ?r = "scrape_loop clock budget outcome (Suc n) (add_outcome (outcome x) s) xs"
    obtain k where k: "k \<le> length xs" "us_results ?r = us_results s @ outcome x # map outcome (take k xs)"
      "k < length xs \<longrightarrow> us_skipped ?r = length xs - k" "k = length xs \<longrightarrow> us_skipped ?r = us_skipped s"
      "us_errors ?r = us_errors s + (if so_ok (outcome x) then 0 else 1) + length (filter (\<lambda>x. \<not> so_ok (outcome x)) (take k xs))"
      "budget = None \<longrightarrow> k = length xs"
      using Cons.IH [of "Suc n" "add_outcome (outcome x) s"] by (auto simp: add_outcome_def)
    then show ?thesis using False by (intro exI [of _ "Suc k"]) simp
  qed
qed simp

lemma update_loop_all:
  fixes fetch parse
  defines "f \<equiv> fetch_outcome fetch parse"
  shows "us_results (runScrapeFetchLoop clock None fetch parse xs) = map f xs"
    and "us_skipped (runScrapeFetchLoop clock None fetch parse xs) = 0"
    and "us_errors (runScrapeFetchLoop clock None fetch parse xs) = length (filter (\<lambda>x. \<not> so_ok (f x)) xs)"
  using scrape_loop_spec [of xs clock None f 1 "\<lparr>us_results = [], us_skipped = 0, us_found = 0, us_inserted = 0, us_errors = 0\<rparr>"]
  by (auto simp: runScrapeFetchLoop_def f_def)

lemma all_filtered: "length xs \<le> length (filter P xs) \<longleftrightarrow> (\<forall>x \<in> set xs. P x)"
  by (metis filter_id_conv length_filter_le less_irrefl linorder_not_le filter_True length_filter_less)

definition is_session_error :: "hub_event \<Rightarrow> bool" where
  "is_session_error e = (case e of SessionError _ _ _ _ _ \<Rightarrow> True | _ \<Rightarrow> False)"

fun hub_event_session :: "hub_event \<Rightarrow> string" where
  "hub_event_session (SessionStart s _ _ _ _) = s"
| "hub_event_session (SessionError s _ _ _ _) = s"
| "hub_event_session (SessionComplete s _ _ _ _ _ _) = s"

lemma terminal_event_session: "hub_event_session (terminal_event ellipsis s company u) = s"
  by (simp add: terminal_event_def Let_def)

text \<open>The two events of a run.\<close>

lemma dispatched_events:
  assumes "ue_hub env = Some HubOk" and "startDeterministicUpdate env fates now uuid p w = (Started s, w1)"
    and "update_run env fates ellipsis secrets fetch parse clock s p w1 = w2"
  shows "\<exists>e. dw_hub w2 = dw_hub w @ [SessionStart s (up_company p) (present_text (up_org p)) (present_text (up_correlation p)) (up_sources p), e] \<and>
    hub_event_session e = s \<and> (\<forall>s' c g r xs. e \<noteq> SessionStart s' c g r xs) \<and>
    (is_session_error e \<longleftrightarrow> \<not> secrets \<or> (\<forall>x \<in> set (up_sources p). \<not> so_ok (fetch_outcome fetch parse x)))"
proof -
  have o: "gates_open env now p" using start_closed [of env now p fates uuid w] assms(2) by fastforce
  obtain cs acts where t: "tryAcquireSourceLocks (ue_actor_bound env) now (det_session uuid) (lock_calls fates (up_sources p))
      (cf_release fates) (dw_actors w) = (cs, acts)" by (metis surj_pair)
  have h1: "dw_hub w1 = dw_hub w @ [SessionStart s (up_company p) (present_text (up_org p)) (present_text (up_correlation p)) (up_sources p)]"
    using assms(1,2) start_open [OF o, of fates uuid w] t by (auto simp: notify_hub split: if_splits create_reply.splits)
  let ?sum = "runScrapeFetchLoop clock None fetch parse (up_sources p)"
  let ?e = "if \<not> secrets then SessionError s (up_company p) ''scrape secrets not configured'' ''us'' None
            else terminal_event ellipsis s (up_company p) ?sum"
  have ne: "up_sources p \<noteq> []" using o by (simp add: gates_open_def)
  have "is_session_error ?e \<longleftrightarrow> \<not> secrets \<or> (\<forall>x \<in> set (up_sources p). \<not> so_ok (fetch_outcome fetch parse x))"
    using ne by (simp add: terminal_event_def is_session_error_def update_loop_all all_filtered Let_def)
  moreover have "dw_hub w2 = dw_hub w1 @ [?e]" using assms(1,3) by (auto simp: update_run_def Let_def notify_hub)
  moreover have "hub_event_session ?e = s" by (simp add: terminal_event_session)
  moreover have "\<forall>s' c g r xs. ?e \<noteq> SessionStart s' c g r xs" by (simp add: terminal_event_def Let_def)
  ultimately show ?thesis using h1 by auto
qed

text \<open>C25: A dispatched run announces itself once and ends with one terminal event, which is an error exactly when its secrets
  are missing or every source failed, and after it no lease of its sources is held, nor any other touched.
\<close>

theorem dispatched_run_settles:
  assumes "distinct (up_sources p)" and "ue_actor_bound env" and "ue_hub env = Some HubOk"
    and "\<forall>n. cf_acquire fates n \<noteq> RpcAmbiguous" and "\<forall>i. cf_release fates i \<noteq> RpcLost"
    and "startDeterministicUpdate env fates now uuid p w = (Started s, w1)"
    and "update_run env fates ellipsis secrets fetch parse clock s p w1 = w2"
  shows "\<exists>e. dw_hub w2 = dw_hub w @ [SessionStart s (up_company p) (present_text (up_org p)) (present_text (up_correlation p)) (up_sources p), e] \<and>
      (is_session_error e \<longleftrightarrow> \<not> secrets \<or> (\<forall>x \<in> set (up_sources p). \<not> so_ok (fetch_outcome fetch parse x))) \<and>
      (\<forall>i. if i \<in> set (up_sources p) then lock_holder (dw_actors w2 i) = None else dw_actors w2 i = dw_actors w i)"
proof -
  have o: "gates_open env now p" using start_closed [of env now p fates uuid w] assms(6) by fastforce
  then obtain created where c: "ue_workflow env = Some created" by (auto simp: gates_open_def)
  let ?k = "det_session uuid" and ?c = "lock_calls fates (up_sources p)"
  obtain cs acts where t: "tryAcquireSourceLocks True now ?k ?c (cf_release fates) (dw_actors w) = (cs, acts)"
    by (metis surj_pair)
  have cs: "cs = []" and s: "s = ?k" and w1: "dw_actors w1 = acts"
    using assms(2,3,6) start_open [OF o, of fates uuid w] t c
    by (auto simp: notify_hub split: if_splits create_reply.splits)
  have b: "\<forall>i. if i \<in> set (up_sources p) then live_owner now (acts i) = Some (?k, now + SCRAPE_LOCK_LEASE_MS) else acts i = dw_actors w i"
    using batch_all_or_nothing [OF _ _ assms(5) t] assms(1,4) lock_calls_mode cs by (simp, metis)
  have fr: "lock_holder (releaseScrapeLock s (acts i)) = None" if "i \<in> set (up_sources p)" for i
    using b that s by (intro released_owner [of now]) simp
  have "if i \<in> set (up_sources p) then lock_holder (dw_actors w2 i) = None else dw_actors w2 i = dw_actors w i" for i
    using assms(7) b fr s w1 free_calls_all [OF assms(5,2), of s "up_sources p" acts]
    by (auto simp: update_run_def Let_def)
  then show ?thesis using dispatched_events [OF assms(3,6,7)] by blast
qed

subsection \<open>The drain cooldown\<close>

lemma page_ids:
  assumes "c \<in> set (fst (queryCandidates cap orgId None now rows orgs))"
  shows "\<exists>r \<in> set rows. s_id r = c_id c \<and> (\<forall>t. s_last_drain_at r = Some t \<longrightarrow> t < iso_text (now - DRAIN_COOLDOWN_MS))"
proof -
  define hits where "hits = filter (\<lambda>row. holds (candidateWhere now DRAIN_COOLDOWN_MS orgId row)) (drain_join rows orgs)"
  have "fst (queryCandidates cap orgId None now rows orgs) = map candidate_of (take cap (sort_key drain_order hits))"
    using candidate_pages [OF hits_def, of None] by simp
  then obtain r g where rg: "(r, g) \<in> set hits" "c = candidate_of (r, g)"
    using assms by (auto dest!: in_set_takeD)
  then show ?thesis
    using candidate_eligible(7) [of now DRAIN_COOLDOWN_MS orgId r g]
    by (auto simp: hits_def drain_join_def candidate_of_def DRAIN_COOLDOWN_MS_def intro!: bexI [of _ r])
qed

text \<open>C32: The sources of a drain that was dispatched are no candidates of any drain until the twenty hours of the cooldown
  have passed.
\<close>

theorem drained_once_per_window:
  assumes "org_alarm env fates now later uuid True orgs st rows w = (DrainDispatched s, st', rows', w')"
    and "instant later" and "instant (t - DRAIN_COOLDOWN_MS)" and "t \<le> later + DRAIN_COOLDOWN_MS"
  shows "\<exists>p. dw_runs w' = dw_runs w @ [(s, p)] \<and> up_org p = Some (text_of (os_org st)) \<and> up_sources p \<noteq> [] \<and>
    (\<forall>c \<in> set (fst (queryCandidates cap orgId None t rows' orgs')). c_id c \<notin> set (up_sources p))"
proof -
  obtain c cs where q: "fst (queryCandidates ORG_DRAIN_CHUNK (Some (text_of (os_org st))) None now rows orgs) = c # cs"
    using assms(1) by (auto simp: org_alarm_def Let_def split: if_splits list.splits)
  define p where "p = \<lparr>up_company = c_org_name c, up_sources = map c_id (c # cs), up_org = Some (text_of (os_org st)),
    up_correlation = Some (''org-actor:'' @ text_of (os_org st))\<rparr>"
  have d: "startDeterministicUpdate env fates now uuid p w = (Started s, w')" "rows' = stamp_drain (up_sources p) later rows"
    using assms(1) q by (auto simp: org_alarm_def Let_def p_def split: if_splits prod.splits start_result.splits)
  have "c_id x \<notin> set (up_sources p)" if x: "x \<in> set (fst (queryCandidates cap orgId None t rows' orgs'))" for x
  proof
    assume i: "c_id x \<in> set (up_sources p)"
    obtain r where r: "r \<in> set rows'" "s_id r = c_id x" "\<forall>u. s_last_drain_at r = Some u \<longrightarrow> u < iso_text (t - DRAIN_COOLDOWN_MS)"
      using page_ids [OF x] by blast
    then have "s_last_drain_at r = Some (iso_text later)" using i d(2) by (auto simp: stamp_drain_def)
    with r(3) have "iso_text later < iso_text (t - DRAIN_COOLDOWN_MS)" by simp
    then show False using instant_less(1) [OF assms(2,3)] assms(4) by simp
  qed
  moreover have "dw_runs w' = dw_runs w @ [(s, p)]" by (rule started_run [OF d(1)])
  ultimately show ?thesis by (intro exI [of _ p]) (simp add: p_def)
qed

subsection \<open>Concrete runs\<close>

definition open_env :: update_env where
  "open_env = \<lparr>ue_cache = None, ue_flags = None, ue_ma_disabled = Some ''false'', ue_caps = \<lparr>cap_org_cents = None, cap_global_cents = None\<rparr>,
     ue_actor_bound = True, ue_workflow = Some RunCreated, ue_hub = Some HubOk\<rparr>"

definition good_calls :: call_fates where
  "good_calls = \<lparr>cf_acquire = (\<lambda>_. RpcOk), cf_release = (\<lambda>_. RpcOk)\<rparr>"

definition idle_actor :: actor_storage where
  "idle_actor = \<lparr>a_source_id = None, a_alarm = None, a_state = None, a_lock = None\<rparr>"

definition idle_world :: dispatch_world where
  "idle_world = \<lparr>dw_actors = (\<lambda>_. idle_actor), dw_runs = [], dw_hub = []\<rparr>"

definition two_sources :: update_params where
  "two_sources = \<lparr>up_company = ''Acme'', up_sources = [''src_1'', ''src_2''], up_org = None, up_correlation = None\<rparr>"

lemma idle_start:
  assumes "distinct (up_sources p)" and "up_company p \<noteq> []" and "up_sources p \<noteq> []" and "length (up_sources p) \<le> 20"
  shows "\<exists>w1. startDeterministicUpdate open_env good_calls now uuid p idle_world = (Started (det_session uuid), w1)"
proof -
  have o: "gates_open open_env now p"
    using assms by (simp add: gates_open_def open_env_def MAX_UPDATE_SOURCES_def updatesDisabled_def spend_gate_def flag_def
        fallbackOf_def maSessionsDisabled_def)
  let ?c = "lock_calls good_calls (up_sources p)"
  obtain cs acts where t: "tryAcquireSourceLocks True now (det_session uuid) ?c (cf_release good_calls) (\<lambda>_. idle_actor) = (cs, acts)"
    by (metis surj_pair)
  have m: "\<forall>c \<in> set ?c. snd c = RpcOk" using lock_calls_mode [of _ good_calls] by (force simp: good_calls_def)
  have "live_owner now idle_actor = None" by (simp add: live_owner_def lock_holder_def idle_actor_def)
  then have "cs = []" using batch_all_or_nothing [OF _ _ _ t] assms(1) m by (auto simp: good_calls_def)
  with start_open [OF o, of good_calls uuid idle_world] t show ?thesis
    by (simp add: idle_world_def open_env_def)
qed

lemma two_sources_start:
  "\<exists>w1. startDeterministicUpdate open_env good_calls 0 ''7'' two_sources idle_world = (Started (det_session ''7''), w1)"
  by (rule idle_start) (simp_all add: two_sources_def)

theorem dispatch_contract_witness:
  "\<exists>w1. startDeterministicUpdate open_env good_calls 0 ''7'' two_sources idle_world = (Started (det_session ''7''), w1) \<and>
     live_owner 0 (dw_actors w1 ''src_2'') = Some (det_session ''7'', SCRAPE_LOCK_LEASE_MS) \<and> dw_actors w1 ''src_3'' = idle_actor"
proof -
  obtain w1 where w1: "startDeterministicUpdate open_env good_calls 0 ''7'' two_sources idle_world = (Started (det_session ''7''), w1)"
    using two_sources_start by blast
  have a: "calls_settle open_env good_calls two_sources"
    by (simp add: calls_settle_def two_sources_def open_env_def good_calls_def)
  have d: "due_refusal open_env good_calls 0 two_sources idle_world = None"
    by (simp add: due_refusal_def leases_free_def two_sources_def open_env_def good_calls_def updatesDisabled_def spend_gate_def
        flag_def fallbackOf_def maSessionsDisabled_def idle_world_def idle_actor_def live_owner_def lock_holder_def less_Suc_eq)
  have "if ue_actor_bound open_env \<and> i \<in> set (up_sources two_sources) then live_owner 0 (dw_actors idle_world i) = None \<and>
      live_owner 0 (dw_actors w1 i) = Some (det_session ''7'', 0 + SCRAPE_LOCK_LEASE_MS) else dw_actors w1 i = dw_actors idle_world i" for i
    using dispatch_contract [OF a w1] d by simp
  from this [of "''src_2''"] this [of "''src_3''"] w1 show ?thesis
    by (auto simp: two_sources_def idle_world_def open_env_def)
qed

theorem dispatched_run_settles_witness:
  "\<exists>w1 e. startDeterministicUpdate open_env good_calls 0 ''7'' two_sources idle_world = (Started (det_session ''7''), w1) \<and>
     is_session_error e \<and> last (dw_hub (update_run open_env good_calls [] True (\<lambda>_. FetchThrew ''timeout'') (\<lambda>_. None) int
       (det_session ''7'') two_sources w1)) = e"
proof -
  obtain w1 where w1: "startDeterministicUpdate open_env good_calls 0 ''7'' two_sources idle_world = (Started (det_session ''7''), w1)"
    using two_sources_start by blast
  have a: "distinct (up_sources two_sources)" "ue_actor_bound open_env" "ue_hub open_env = Some HubOk"
    "\<forall>n. cf_acquire good_calls n \<noteq> RpcAmbiguous" "\<forall>i. cf_release good_calls i \<noteq> RpcLost"
    by (simp_all add: two_sources_def open_env_def good_calls_def)
  have "\<not> so_ok (fetch_outcome (\<lambda>_. FetchThrew ''timeout'') (\<lambda>_. None) x)" for x
    by (simp add: fetch_outcome_def failed_outcome_def)
  with dispatched_run_settles [OF a w1 refl, of "[]" True "\<lambda>_. FetchThrew ''timeout''" "\<lambda>_. None" int] w1 show ?thesis by auto
qed

definition flagged_source :: source where
  "flagged_source = sample_source\<lparr>s_change_detected_at := Some ''2026-01-01T00:00:00.000Z''\<rparr>"

definition sample_org :: organization where
  "sample_org = \<lparr>o_id = ''org_1'', o_slug = ''acme'', o_name = ''Acme'', o_fetch_paused = Some False\<rparr>"

lemma flagged_candidate:
  "fst (queryCandidates ORG_DRAIN_CHUNK (Some ''org_1'') None now [flagged_source] [sample_org]) = [candidate_of (flagged_source, sample_org)]"
proof -
  have j: "drain_join [flagged_source] [sample_org] = [(flagged_source, sample_org)]"
    by (simp add: drain_join_def flagged_source_def sample_source_def sample_org_def)
  have "holds (candidateWhere now DRAIN_COOLDOWN_MS (Some ''org_1'') (flagged_source, sample_org))"
    by (simp add: candidateWhere_def flagged_source_def sample_source_def sample_org_def not_null_def json_extract_def locallyFetchedSql_def)
  then show ?thesis
    by (simp add: queryCandidates_def j ORG_DRAIN_CHUNK_def MAX_UPDATE_SOURCES_def)
qed

theorem drained_once_per_window_witness:
  "\<exists>st' rows' w'. org_alarm open_env good_calls 1767225600000 1767225600000 ''7'' True [sample_org]
       \<lparr>os_org = Some ''org_1'', os_alarm = Some 0\<rparr> [flagged_source] idle_world = (DrainDispatched (det_session ''7''), st', rows', w') \<and>
     fst (queryCandidates ORG_DRAIN_CHUNK None None 1767240000000 [flagged_source] [sample_org]) \<noteq> [] \<and>
     (\<exists>p. dw_runs w' = [(det_session ''7'', p)] \<and> up_sources p \<noteq> [] \<and>
       (\<forall>c \<in> set (fst (queryCandidates 5 None None 1767240000000 rows' [sample_org])). c_id c \<notin> set (up_sources p)))"
proof -
  let ?p = "\<lparr>up_company = ''Acme'', up_sources = [''src_1''], up_org = Some ''org_1'', up_correlation = Some ''org-actor:org_1''\<rparr>"
  obtain w1 where w1: "startDeterministicUpdate open_env good_calls 1767225600000 ''7'' ?p idle_world = (Started (det_session ''7''), w1)"
    using idle_start [of ?p] by auto
  have c: "candidate_of (flagged_source, sample_org) = \<lparr>c_id = ''src_1'', c_type = Scrape, c_org_id = ''org_1'', c_org_slug = ''acme'',
      c_org_name = ''Acme'', c_change_detected_at = Some ''2026-01-01T00:00:00.000Z''\<rparr>"
    by (simp add: candidate_of_def flagged_source_def sample_source_def sample_org_def)
  obtain st' rows' where a: "org_alarm open_env good_calls 1767225600000 1767225600000 ''7'' True [sample_org]
      \<lparr>os_org = Some ''org_1'', os_alarm = Some 0\<rparr> [flagged_source] idle_world = (DrainDispatched (det_session ''7''), st', rows', w1)"
    using w1 flagged_candidate [of 1767225600000] c by (simp add: org_alarm_def Let_def)
  have i: "instant 1767225600000" "instant (1767240000000 - DRAIN_COOLDOWN_MS)"
    by (simp_all add: DRAIN_COOLDOWN_MS_def instant_def keyDay_def dayFromCivil_def yearStart_def monthStart_def monthDays_def leap_def)
  have t: "1767240000000 \<le> 1767225600000 + DRAIN_COOLDOWN_MS" by (simp add: DRAIN_COOLDOWN_MS_def)
  have j: "drain_join [flagged_source] [sample_org] = [(flagged_source, sample_org)]"
    by (simp add: drain_join_def flagged_source_def sample_source_def sample_org_def)
  have "holds (candidateWhere 1767240000000 DRAIN_COOLDOWN_MS None (flagged_source, sample_org))"
    by (simp add: candidateWhere_def flagged_source_def sample_source_def sample_org_def not_null_def json_extract_def locallyFetchedSql_def)
  then have "fst (queryCandidates ORG_DRAIN_CHUNK None None 1767240000000 [flagged_source] [sample_org]) \<noteq> []"
    by (simp add: queryCandidates_def j ORG_DRAIN_CHUNK_def MAX_UPDATE_SOURCES_def)
  with drained_once_per_window [OF a i t, of 5 None "[sample_org]"] a show ?thesis
    by (auto simp: idle_world_def)
qed

end
