(* ===== verification/UpdateRuns.thy ===== *)
theory UpdateRuns
  imports UpdateDispatch
begin

section \<open>Update runs of many sessions at once\<close>

text \<open>
  The sessions of \<open>startDeterministicUpdate\<close> and \<open>DeterministicUpdateWorkflow\<close> interleaved, one remote call or one local
  step at a time, with the alarms of the source actors between them and a clock that may advance at any point.
  \<open>lw_granted\<close> is history: when a session was last granted the lease of a source, until its release took effect.
\<close>

subsection \<open>The machine\<close>

text \<open>
  \<open>Acquiring ids pending acquired refused\<close>: \<open>tryAcquireSourceLocks\<close> of \<open>ids\<close>.  \<open>Running ids\<close>: the instance was created and
  the dispatcher knows.  \<open>Orphan ids pending\<close>: it was created, but the dispatcher saw \<open>create\<close> throw and releases the leases.
\<close>

datatype run_phase = NotBegun
  | Acquiring "string list" "string list" "string list" bool
  | Running "string list"
  | Orphan "string list" "string list"
  | Releasing "string list"

record lock_world =
  lw_actors :: actors
  lw_now :: int
  lw_phase :: "string \<Rightarrow> run_phase"
  lw_granted :: "string \<Rightarrow> string \<Rightarrow> int option"

abbreviation set_phase :: "string \<Rightarrow> run_phase \<Rightarrow> lock_world \<Rightarrow> lock_world" where
  "set_phase k ph w \<equiv> w\<lparr>lw_phase := (lw_phase w)(k := ph)\<rparr>"

definition grants :: "int \<Rightarrow> string \<Rightarrow> rpc_mode \<Rightarrow> actor_storage \<Rightarrow> bool" where
  "grants now k mode st \<longleftrightarrow> mode \<noteq> RpcLost \<and> fst (fst (tryAcquireScrapeLock now k st))"

definition acquire_step :: "string \<Rightarrow> rpc_mode \<Rightarrow> string \<Rightarrow> lock_world \<Rightarrow> lock_world" where
  "acquire_step k mode i w =
     w\<lparr>lw_actors := snd (acquire_call (lw_now w) k mode i (lw_actors w)),
       lw_granted := (if grants (lw_now w) k mode (lw_actors w i)
          then (lw_granted w)(k := (lw_granted w k)(i := Some (lw_now w))) else lw_granted w)\<rparr>"

definition release_step :: "string \<Rightarrow> rpc_mode \<Rightarrow> string \<Rightarrow> lock_world \<Rightarrow> lock_world" where
  "release_step k mode i w =
     w\<lparr>lw_actors := release_call k mode i (lw_actors w),
       lw_granted := (if mode \<noteq> RpcLost then (lw_granted w)(k := (lw_granted w k)(i := None)) else lw_granted w)\<rparr>"

inductive lock_step :: "lock_world \<Rightarrow> lock_world \<Rightarrow> bool" where
  ticks: "lw_now w \<le> t \<Longrightarrow> lock_step w (w\<lparr>lw_now := t\<rparr>)"
| wakes: "alarm legacy env \<lparr>w_storage = lw_actors w i, w_row = row, w_org_paused = paused, w_instances = insts\<rparr> = Inr (v, effs) \<Longrightarrow>
    lock_step w (w\<lparr>lw_actors := (lw_actors w)(i := w_storage v)\<rparr>)"
| begins: "lw_phase w k = NotBegun \<Longrightarrow> lock_step w (set_phase k (Acquiring ids ids [] False) w)"
| acquires: "lw_phase w k = Acquiring ids pending acquired refused \<Longrightarrow> i \<in> set pending \<Longrightarrow>
    fst (acquire_call (lw_now w) k mode i (lw_actors w)) = c \<Longrightarrow>
    lock_step w (set_phase k (Acquiring ids (remove1 i pending) (if c = None then acquired @ [i] else acquired) (refused \<or> c \<noteq> None))
      (acquire_step k mode i w))"
| refuses: "lw_phase w k = Acquiring ids [] acquired True \<Longrightarrow> lock_step w (set_phase k (Releasing acquired) w)"
| creates: "lw_phase w k = Acquiring ids [] acquired False \<Longrightarrow> lock_step w (set_phase k (Running ids) w)"
| fails: "lw_phase w k = Acquiring ids [] acquired False \<Longrightarrow> lock_step w (set_phase k (Releasing ids) w)"
| loses: "lw_phase w k = Acquiring ids [] acquired False \<Longrightarrow> lock_step w (set_phase k (Orphan ids ids) w)"
| undoes: "lw_phase w k = Orphan ids pending \<Longrightarrow> i \<in> set pending \<Longrightarrow>
    lock_step w (set_phase k (Orphan ids (remove1 i pending)) (release_step k mode i w))"
| finishes: "lw_phase w k = Running ids \<or> lw_phase w k = Orphan ids pending \<Longrightarrow> lock_step w (set_phase k (Releasing ids) w)"
| dies: "lw_phase w k = Running ids \<or> lw_phase w k = Orphan ids pending \<Longrightarrow> lock_step w (set_phase k (Releasing []) w)"
| releases: "lw_phase w k = Releasing pending \<Longrightarrow> i \<in> set pending \<Longrightarrow>
    lock_step w (set_phase k (Releasing (remove1 i pending)) (release_step k mode i w))"

definition fresh_locks :: "int \<Rightarrow> lock_world" where
  "fresh_locks now = \<lparr>lw_actors = (\<lambda>_. idle_actor), lw_now = now, lw_phase = (\<lambda>_. NotBegun), lw_granted = (\<lambda>_ _. None)\<rparr>"

inductive lock_reach :: "lock_world \<Rightarrow> bool" where
  start: "lock_reach (fresh_locks now)"
| step: "lock_reach w \<Longrightarrow> lock_step w w' \<Longrightarrow> lock_reach w'"

inductive_cases lock_stepE: "lock_step w w'"

subsection \<open>The invariant\<close>

text \<open>
  The grants of one source: the holder was granted its lease, a grant without the lease is a quarter of an hour old,
  and two grants are a quarter of an hour apart.
\<close>

definition grants_ok :: "int \<Rightarrow> actor_storage \<Rightarrow> (string \<Rightarrow> int option) \<Rightarrow> bool" where
  "grants_ok now st g \<longleftrightarrow>
     (\<forall>k e. lock_holder st = Some (k, e) \<longrightarrow> g k = Some (e - SCRAPE_LOCK_LEASE_MS)) \<and>
     (\<forall>k t. g k = Some t \<longrightarrow> t \<le> now \<and> (lock_holder st = Some (k, t + SCRAPE_LOCK_LEASE_MS) \<or> t + SCRAPE_LOCK_LEASE_MS \<le> now)) \<and>
     (\<forall>j k t u. g j = Some t \<longrightarrow> g k = Some u \<longrightarrow> j \<noteq> k \<longrightarrow> SCRAPE_LOCK_LEASE_MS \<le> \<bar>t - u\<bar>)"

definition phase_ok :: "run_phase \<Rightarrow> (string \<Rightarrow> int option) \<Rightarrow> bool" where
  "phase_ok ph g \<longleftrightarrow> (case ph of
       Acquiring ids pending acquired refused \<Rightarrow> (\<forall>i \<in> set acquired. g i \<noteq> None) \<and>
         (\<not> refused \<longrightarrow> set ids \<subseteq> set pending \<union> set acquired)
     | Running ids \<Rightarrow> (\<forall>i \<in> set ids. g i \<noteq> None)
     | _ \<Rightarrow> True)"

definition locks_inv :: "lock_world \<Rightarrow> bool" where
  "locks_inv w \<longleftrightarrow> (\<forall>i. grants_ok (lw_now w) (lw_actors w i) (\<lambda>k. lw_granted w k i)) \<and>
     (\<forall>k. phase_ok (lw_phase w k) (lw_granted w k))"

lemma alarm_keeps_lock:
  assumes "alarm legacy env w = Inr (v, effs)"
  shows "a_lock (w_storage v) = a_lock (w_storage w)"
  using assms
  by (auto simp: alarm_def Let_def stop_actor_def noReschedule_def scheduleAt_def persistState_def fire_and_schedule_def
      split: option.splits sum.splits if_splits prod.splits)

lemma grants_ok_cong: "lock_holder st = lock_holder st' \<Longrightarrow> grants_ok now st g = grants_ok now st' g"
  by (simp add: grants_ok_def)

lemma grants_ok_later: "grants_ok now st g \<Longrightarrow> now \<le> t \<Longrightarrow> grants_ok t st g"
  unfolding grants_ok_def by (meson order_trans)

lemma grants_ok_grant:
  assumes ok: "grants_ok now st g" and "fst (fst (tryAcquireScrapeLock now k st))"
  shows "grants_ok now (snd (tryAcquireScrapeLock now k st)) (g(k := Some now))"
proof -
  have t: "lock_holder (snd (tryAcquireScrapeLock now k st)) = Some (k, now + SCRAPE_LOCK_LEASE_MS)"
    "\<forall>i e. lock_holder st = Some (i, e) \<longrightarrow> e \<le> now"
    using scrape.try_grants [of now k st] assms(2) by (metis (full_types) prod.collapse)+
  have old: "t + SCRAPE_LOCK_LEASE_MS \<le> now" if "g j = Some t" for j t
    using ok t(2) that unfolding grants_ok_def by blast
  have past: "t \<le> now" if "g j = Some t" for j t
    using old [OF that] scrape.period_pos by linarith
  have "SCRAPE_LOCK_LEASE_MS \<le> \<bar>u - v\<bar>"
    if "(g(k := Some now)) i = Some u" "(g(k := Some now)) j = Some v" "i \<noteq> j" for i j u v
  proof (cases "i = k \<or> j = k")
    case True
    then show ?thesis using that old [of i u] old [of j v] by auto
  next
    case False
    then show ?thesis using that ok unfolding grants_ok_def by simp
  qed
  then show ?thesis using t(1) old past unfolding grants_ok_def by auto
qed

lemma grants_okI:
  assumes "\<And>k e. lock_holder st = Some (k, e) \<Longrightarrow> g k = Some (e - SCRAPE_LOCK_LEASE_MS)"
    and "\<And>k t. g k = Some t \<Longrightarrow> t \<le> now"
    and "\<And>k t. g k = Some t \<Longrightarrow> lock_holder st \<noteq> Some (k, t + SCRAPE_LOCK_LEASE_MS) \<Longrightarrow> t + SCRAPE_LOCK_LEASE_MS \<le> now"
    and "\<And>j k t u. g j = Some t \<Longrightarrow> g k = Some u \<Longrightarrow> j \<noteq> k \<Longrightarrow> SCRAPE_LOCK_LEASE_MS \<le> \<bar>t - u\<bar>"
  shows "grants_ok now st g"
  using assms unfolding grants_ok_def by blast

lemma grants_okD:
  assumes "grants_ok now st g"
  shows "lock_holder st = Some (k, e) \<Longrightarrow> g k = Some (e - SCRAPE_LOCK_LEASE_MS)"
    and "g k = Some t \<Longrightarrow> t \<le> now"
    and "g k = Some t \<Longrightarrow> lock_holder st \<noteq> Some (k, t + SCRAPE_LOCK_LEASE_MS) \<Longrightarrow> t + SCRAPE_LOCK_LEASE_MS \<le> now"
    and "g j = Some t \<Longrightarrow> g k = Some u \<Longrightarrow> j \<noteq> k \<Longrightarrow> SCRAPE_LOCK_LEASE_MS \<le> \<bar>t - u\<bar>"
  using assms unfolding grants_ok_def by blast+

lemma grants_ok_release:
  assumes ok: "grants_ok now st g"
  shows "grants_ok now (releaseScrapeLock k st) (g(k := None))"
proof (cases "\<exists>e. lock_holder st = Some (k, e)")
  case True
  then obtain e where e: "lock_holder st = Some (k, e)" by blast
  have n: "lock_holder (releaseScrapeLock k st) = None" using scrape.free_own [OF e] .
  show ?thesis
  proof (rule grants_okI)
    fix l t assume "(g(k := None)) l = Some t"
    then have l: "l \<noteq> k" "g l = Some t" by (auto split: if_splits)
    show "t \<le> now" using grants_okD(2) [OF ok l(2)] .
    show "t + SCRAPE_LOCK_LEASE_MS \<le> now" using grants_okD(3) [OF ok l(2)] e l(1) by simp
  qed (use n grants_okD(4) [OF ok] in \<open>auto split: if_splits\<close>)
next
  case False
  then have s: "releaseScrapeLock k st = st" using scrape.free_foreign by blast
  show ?thesis unfolding s
  proof (rule grants_okI)
    fix l e assume "lock_holder st = Some (l, e)"
    then show "(g(k := None)) l = Some (e - SCRAPE_LOCK_LEASE_MS)" using grants_okD(1) [OF ok] False by auto
  qed (use grants_okD(2-4) [OF ok] in \<open>auto split: if_splits\<close>)
qed

lemma acquire_step_grants:
  assumes "\<forall>j. grants_ok (lw_now w) (lw_actors w j) (\<lambda>k. lw_granted w k j)"
  shows "grants_ok (lw_now (acquire_step k mode i w)) (lw_actors (acquire_step k mode i w) j) (\<lambda>l. lw_granted (acquire_step k mode i w) l j)"
proof -
  let ?st = "lw_actors w i" and ?t = "tryAcquireScrapeLock (lw_now w) k (lw_actors w i)"
  have same: "snd ?t = ?st" if "\<not> fst (fst ?t)"
    using scrape.try_refuses [of "lw_now w" k ?st "snd (fst ?t)" "snd ?t"] that by (metis (full_types) prod.collapse)
  have a: "snd (acquire_call (lw_now w) k mode i (lw_actors w)) = (if mode = RpcLost then lw_actors w else (lw_actors w)(i := snd ?t))"
    by (cases mode) (auto simp: acquire_call_def split: prod.split)
  have g: "(\<lambda>l. lw_granted (acquire_step k mode i w) l j) =
      (if j = i \<and> grants (lw_now w) k mode ?st then (\<lambda>l. lw_granted w l i)(k := Some (lw_now w)) else (\<lambda>l. lw_granted w l j))"
    by (auto simp: acquire_step_def)
  show ?thesis
    using assms same grants_ok_grant [of "lw_now w" ?st "\<lambda>l. lw_granted w l i" k]
    unfolding g by (auto simp: acquire_step_def a grants_def)
qed

lemma release_step_grants:
  assumes "\<forall>j. grants_ok (lw_now w) (lw_actors w j) (\<lambda>k. lw_granted w k j)"
  shows "grants_ok (lw_now (release_step k mode i w)) (lw_actors (release_step k mode i w) j) (\<lambda>l. lw_granted (release_step k mode i w) l j)"
proof -
  have g: "(\<lambda>l. lw_granted (release_step k mode i w) l j) =
      (if j = i \<and> mode \<noteq> RpcLost then (\<lambda>l. lw_granted w l i)(k := None) else (\<lambda>l. lw_granted w l j))"
    by (auto simp: release_step_def)
  show ?thesis
    using assms grants_ok_release [of "lw_now w" "lw_actors w i" "\<lambda>l. lw_granted w l i" k]
    unfolding g by (auto simp: release_step_def release_call_def split: rpc_mode.splits)
qed

text \<open>A session's phase concerns its own grants only; an acquisition adds to them, a release is past \<open>Running\<close>.\<close>

lemma acquire_step_phase:
  "j \<noteq> k \<Longrightarrow> lw_granted (acquire_step k mode i w) j = lw_granted w j"
  "lw_granted w k x \<noteq> None \<Longrightarrow> lw_granted (acquire_step k mode i w) k x \<noteq> None"
  "fst (acquire_call (lw_now w) k mode i (lw_actors w)) = None \<Longrightarrow> lw_granted (acquire_step k mode i w) k i \<noteq> None"
  "lw_phase (acquire_step k mode i w) = lw_phase w"
  by (auto simp: acquire_step_def acquire_call_def grants_def split: prod.splits rpc_mode.splits if_splits)

lemma release_step_phase:
  "j \<noteq> k \<Longrightarrow> lw_granted (release_step k mode i w) j = lw_granted w j" "lw_phase (release_step k mode i w) = lw_phase w"
  by (simp_all add: release_step_def)

lemma session_step:
  assumes "locks_inv w" and "\<And>j. grants_ok (lw_now v) (lw_actors v j) (\<lambda>l. lw_granted v l j)"
    and "\<And>j. j \<noteq> k \<Longrightarrow> lw_granted v j = lw_granted w j" and "lw_phase v = lw_phase w" and "phase_ok ph (lw_granted v k)"
  shows "locks_inv (set_phase k ph v)"
  using assms by (auto simp: locks_inv_def)

lemma lock_step_inv:
  assumes "lock_step w w'" and "locks_inv w"
  shows "locks_inv w'"
  using assms
proof (induction rule: lock_step.induct)
  case (ticks w t)
  then show ?case by (auto simp: locks_inv_def intro: grants_ok_later)
next
  case (wakes legacy env w i row paused insts v effs)
  have "lock_holder (w_storage v) = lock_holder (lw_actors w i)"
    using alarm_keeps_lock [OF wakes(1)] by (simp add: lock_holder_def)
  note c = grants_ok_cong [OF this]
  show ?case using wakes(2) by (simp add: locks_inv_def c)
next
  case (acquires w k ids pending acquired refused i mode c)
  have "phase_ok (Acquiring ids (remove1 i pending) (if c = None then acquired @ [i] else acquired) (refused \<or> c \<noteq> None))
      (lw_granted (acquire_step k mode i w) k)"
    using acquires(1,3,4) acquire_step_phase(2) [of w k _ mode i] acquire_step_phase(3) [of w k mode i]
      in_set_remove1 [of _ i pending]
    by (auto simp: locks_inv_def phase_ok_def dest!: spec [of _ k])
  then show ?case
    using acquires(4) acquire_step_grants [of w k mode i] acquire_step_phase(1,4)
    by (intro session_step) (simp_all add: locks_inv_def)
next
  case (undoes w k ids pending i mode)
  then show ?case
    using release_step_grants [of w k mode i] release_step_phase
    by (intro session_step) (simp_all add: locks_inv_def phase_ok_def)
next
  case (releases w k pending i mode)
  then show ?case
    using release_step_grants [of w k mode i] release_step_phase
    by (intro session_step) (simp_all add: locks_inv_def phase_ok_def)
next
  case (creates w k ids acquired)
  then have "phase_ok (Acquiring ids [] acquired False) (lw_granted w k)" by (metis locks_inv_def)
  then have "phase_ok (Running ids) (lw_granted w k)" by (auto simp: phase_ok_def)
  with creates(2) show ?case by (intro session_step) (simp_all add: locks_inv_def)
qed (rule session_step; simp add: locks_inv_def phase_ok_def)+

lemma lock_reach_inv: "lock_reach w \<Longrightarrow> locks_inv w"
proof (induction rule: lock_reach.induct)
  case (start now)
  show ?case by (simp add: locks_inv_def fresh_locks_def grants_ok_def phase_ok_def lock_holder_def idle_actor_def)
qed (rule lock_step_inv)

text \<open>C6: Two accepted runs on one source that are both still running were granted its lease at least a quarter of an hour
  apart, and while the lease of one lives, the actor names it as the holder.
\<close>

theorem one_run_per_lease:
  assumes "lock_reach w" and "lw_phase w j = Running ids" and "lw_phase w k = Running jds" and "j \<noteq> k"
    and "i \<in> set ids" and "i \<in> set jds"
  shows "\<exists>t u. lw_granted w j i = Some t \<and> lw_granted w k i = Some u \<and> SCRAPE_LOCK_LEASE_MS \<le> \<bar>t - u\<bar> \<and>
     (lw_now w < t + SCRAPE_LOCK_LEASE_MS \<longrightarrow> lock_holder (lw_actors w i) = Some (j, t + SCRAPE_LOCK_LEASE_MS))"
proof -
  have inv: "grants_ok (lw_now w) (lw_actors w i) (\<lambda>k. lw_granted w k i)" "\<forall>k. phase_ok (lw_phase w k) (lw_granted w k)"
    using lock_reach_inv [OF assms(1)] by (simp_all add: locks_inv_def)
  have "lw_granted w j i \<noteq> None" "lw_granted w k i \<noteq> None"
    using inv(2) [rule_format, of j] inv(2) [rule_format, of k] assms(2,3,5,6) by (simp_all add: phase_ok_def)
  then obtain t u where g: "lw_granted w j i = Some t" "lw_granted w k i = Some u" by blast
  with inv(1) assms(4) have "SCRAPE_LOCK_LEASE_MS \<le> \<bar>t - u\<bar>"
    "t + SCRAPE_LOCK_LEASE_MS \<le> lw_now w \<or> lock_holder (lw_actors w i) = Some (j, t + SCRAPE_LOCK_LEASE_MS)"
    unfolding grants_ok_def by blast+
  then show ?thesis using g by (intro exI [of _ t] exI [of _ u]) auto
qed

subsection \<open>A lease is not renewed\<close>

lemma single_run:
  assumes "lock_reach w" and "lw_phase w k = NotBegun" and "live_owner (lw_now w) (lw_actors w i) = None"
  shows "\<exists>v. lock_reach v \<and> lw_phase v = (lw_phase w)(k := Running [i]) \<and> lw_now v = lw_now w \<and>
     lock_holder (lw_actors v i) = Some (k, lw_now w + SCRAPE_LOCK_LEASE_MS)"
proof -
  let ?a = "set_phase k (Acquiring [i] [i] [] False) w"
  have a: "lock_reach ?a" using lock_reach.step [OF assms(1) lock_step.begins [OF assms(2)]] by blast
  obtain st where c: "acquire_call (lw_now w) k RpcOk i (lw_actors w) = (None, (lw_actors w)(i := st))"
    "lock_holder st = Some (k, lw_now w + SCRAPE_LOCK_LEASE_MS)"
    using acquire_call_cases(1) [of RpcOk "lw_now w" "lw_actors w" i k] assms(3) by (auto simp: takes_def)
  let ?b = "set_phase k (Acquiring [i] [] [i] False) (acquire_step k RpcOk i ?a)"
  have "lock_step ?a ?b"
    using lock_step.acquires [of ?a k "[i]" "[i]" "[]" False i RpcOk None] c(1) by simp
  then have b: "lock_reach ?b" using a by (rule lock_reach.step [rotated])
  let ?v = "set_phase k (Running [i]) ?b"
  have "lock_reach ?v" using lock_reach.step [OF b lock_step.creates [of ?b k "[i]" "[i]"]] by simp
  then show ?thesis
    using c by (intro exI [of _ ?v]) (simp add: acquire_step_def)
qed

lemma two_running:
  "\<exists>w. lock_reach w \<and> lw_phase w ''a'' = Running [''src_1''] \<and> lw_phase w ''b'' = Running [''src_1''] \<and>
     lw_now w = SCRAPE_LOCK_LEASE_MS"
proof -
  have "live_owner 0 idle_actor = None" by (simp add: live_owner_def lock_holder_def idle_actor_def)
  then obtain v where v: "lock_reach v" "lw_phase v = (\<lambda>_. NotBegun)(''a'' := Running [''src_1''])" "lw_now v = 0"
    "lock_holder (lw_actors v ''src_1'') = Some (''a'', SCRAPE_LOCK_LEASE_MS)"
    using single_run [OF lock_reach.start [of 0], of "''a''" "''src_1''"] by (auto simp: fresh_locks_def)
  let ?u = "v\<lparr>lw_now := SCRAPE_LOCK_LEASE_MS\<rparr>"
  have u: "lock_reach ?u" using lock_reach.step [OF v(1) lock_step.ticks] v(3) scrape.period_pos by simp
  have "live_owner (lw_now ?u) (lw_actors ?u ''src_1'') = None" using v(4) by (simp add: live_owner_def)
  from single_run [OF u _ this, of "''b''"] v(2) show ?thesis by auto
qed

text \<open>A second run starts on a source at the moment the lease of a run that still goes on ends.\<close>

theorem lease_outlived:
  "\<exists>w. lock_reach w \<and> lw_phase w ''a'' = Running [''src_1''] \<and> lw_phase w ''b'' = Running [''src_1''] \<and>
     lw_now w = SCRAPE_LOCK_LEASE_MS"
  by (rule two_running)

theorem one_run_per_lease_witness:
  "\<exists>w t u. lock_reach w \<and> lw_phase w ''a'' = Running [''src_1''] \<and> lw_phase w ''b'' = Running [''src_1''] \<and>
     lw_granted w ''a'' ''src_1'' = Some t \<and> lw_granted w ''b'' ''src_1'' = Some u \<and> SCRAPE_LOCK_LEASE_MS \<le> \<bar>t - u\<bar>"
proof -
  obtain w where w: "lock_reach w" "lw_phase w ''a'' = Running [''src_1'']" "lw_phase w ''b'' = Running [''src_1'']"
    using two_running by blast
  from one_run_per_lease [OF w, of "''src_1''"] w show ?thesis by fastforce
qed

end
