(* ===== verification/EventBuffer.thy ===== *)
theory EventBuffer
  imports Dates
begin

section \<open>The buffer of release events\<close>

text \<open>
  \<open>apps/api/src/events/buffer.ts\<close> and the wire types of \<open>packages/core-internal/src/release-event.ts\<close>: the ring of
  the last events, kept under zero-padded keys in the storage of the hub.  The buffer sees the storage through the
  interface \<open>EventStore\<close>, a record of four operations here as there; the locale \<open>ordered_store\<close> states what it
  relies on, and the storage of a Durable Object (an ordered map from keys to values) is interpreted below.
\<close>

subsection \<open>The interface and the wire types\<close>

record ('s, 'v) event_store =
  es_get :: "string \<Rightarrow> 's \<Rightarrow> 'v option"
  es_put :: "string \<Rightarrow> 'v \<Rightarrow> 's \<Rightarrow> 's"
  es_delete :: "string list \<Rightarrow> 's \<Rightarrow> 's"
  es_list :: "string \<Rightarrow> string option \<Rightarrow> 's \<Rightarrow> (string \<times> 'v) list"

datatype media_kind = Image | Video | Gif

record media_item =
  mi_type :: media_kind
  mi_url :: string
  mi_alt :: "string option"
  mi_r2Key :: "string option"

record event_org =
  eo_slug :: string
  eo_name :: string
  eo_avatarUrl :: "string option"
  eo_githubHandle :: "string option"

record release_payload =
  rp_id :: string
  rp_title :: string
  rp_version :: "string option"
  rp_publishedAt :: "string option"
  rp_sourceName :: string
  rp_sourceSlug :: string
  rp_sourceType :: "string option"
  rp_org :: "event_org option"
  rp_product :: "(string \<times> string) option"
  rp_webUrl :: "string option"
  rp_summary :: "string option"
  rp_titleGenerated :: "string option"
  rp_titleShort :: "string option"
  rp_media :: "media_item list"
  rp_contentChars :: "nat option"
  rp_contentTokens :: "nat option"

record release_event =
  ev_id :: string
  ev_seq :: nat
  ev_ts :: int
  ev_release :: release_payload

datatype hub_value = SeqValue nat | EventValue release_event

definition EVENT_BUFFER_SIZE :: nat where "EVENT_BUFFER_SIZE = 7000"
definition SEQ_PAD_WIDTH :: nat where "SEQ_PAD_WIDTH = 16"

definition padSeq :: "nat \<Rightarrow> string" where
  "padSeq seq = pad_start SEQ_PAD_WIDTH CHR ''0'' (nat_to_dec seq)"

subsection \<open>The operations\<close>

definition SEQ_KEY :: string where "SEQ_KEY = ''seq''"
definition OLDEST_SEQ_KEY :: string where "OLDEST_SEQ_KEY = ''oldest-seq''"
definition EVT_PREFIX :: string where "EVT_PREFIX = ''evt:''"

definition evt_key :: "nat \<Rightarrow> string" where
  "evt_key seq = EVT_PREFIX @ padSeq seq"

text \<open>\<open>get<number>(key) ?? 0\<close>, and the events among the values of a listing.\<close>

fun number_at :: "hub_value option \<Rightarrow> nat" where
  "number_at (Some (SeqValue n)) = n"
| "number_at _ = 0"

fun event_values :: "(string \<times> hub_value) list \<Rightarrow> release_event list" where
  "event_values [] = []"
| "event_values ((k, EventValue e) # xs) = e # event_values xs"
| "event_values ((k, SeqValue n) # xs) = event_values xs"

text \<open>\<open>eid\<close> is the random identifier of \<open>newEventId\<close>, \<open>now\<close> the clock.\<close>

definition appendEvent ::
  "('s, hub_value) event_store \<Rightarrow> int \<Rightarrow> string \<Rightarrow> release_payload \<Rightarrow> nat \<Rightarrow> 's \<Rightarrow> release_event \<times> 's" where
  "appendEvent S now eid payload maxSize s =
     (let current = number_at (es_get S SEQ_KEY s);
          seq = current + 1;
          event = \<lparr>ev_id = eid, ev_seq = seq, ev_ts = now, ev_release = payload\<rparr>;
          s1 = es_put S (evt_key seq) (EventValue event) s;
          s2 = es_put S SEQ_KEY (SeqValue seq) s1;
          s3 = (if current = 0 then es_put S OLDEST_SEQ_KEY (SeqValue 1) s2 else s2);
          s4 = (if maxSize < seq then
                  (let oldSeq = seq - maxSize
                   in es_put S OLDEST_SEQ_KEY (SeqValue (oldSeq + 1)) (es_delete S [evt_key oldSeq] s3))
                else s3)
      in (event, s4))"

definition replayEvents :: "('s, hub_value) event_store \<Rightarrow> nat \<Rightarrow> 's \<Rightarrow> release_event list" where
  "replayEvents S since s =
     (let after = (if 0 < since then Some (evt_key since) else None)
      in event_values (es_list S EVT_PREFIX after s))"

definition currentSeq :: "('s, hub_value) event_store \<Rightarrow> 's \<Rightarrow> nat" where
  "currentSeq S s = number_at (es_get S SEQ_KEY s)"

definition oldestSeq :: "('s, hub_value) event_store \<Rightarrow> 's \<Rightarrow> nat" where
  "oldestSeq S s = number_at (es_get S OLDEST_SEQ_KEY s)"

subsection \<open>Keys\<close>

lemma padSeq_pad_int: "padSeq n = pad_int 16 (int n)"
  by (simp add: padSeq_def SEQ_PAD_WIDTH_def pad_int_def int_to_dec_def)

lemma evt_key_less:
  assumes "m < 10 ^ 16" and "n < 10 ^ 16"
  shows "evt_key m < evt_key n \<longleftrightarrow> m < n" and "evt_key m = evt_key n \<longleftrightarrow> m = n"
proof -
  have b: "int m < 10 ^ 16" "int n < 10 ^ 16" using assms by simp_all
  note p = pad_less [OF of_nat_0_le_iff b(1) of_nat_0_le_iff b(2)]
  have "evt_key m < evt_key n \<longleftrightarrow> pad_int 16 (int m) < pad_int 16 (int n)"
    unfolding evt_key_def padSeq_pad_int append_less [OF refl] by blast
  then show "evt_key m < evt_key n \<longleftrightarrow> m < n" using p(1) by (simp del: less_list_code)
  show "evt_key m = evt_key n \<longleftrightarrow> m = n"
    unfolding evt_key_def padSeq_pad_int same_append_eq using p(2) by (simp del: eq_numeral_simps)
qed

lemma evt_key_other [simp]: "js_starts_with (evt_key n) EVT_PREFIX" "\<not> js_starts_with SEQ_KEY EVT_PREFIX"
  "\<not> js_starts_with OLDEST_SEQ_KEY EVT_PREFIX" "SEQ_KEY \<noteq> OLDEST_SEQ_KEY"
  "OLDEST_SEQ_KEY \<noteq> SEQ_KEY" "evt_key n \<noteq> SEQ_KEY" "evt_key n \<noteq> OLDEST_SEQ_KEY" "SEQ_KEY \<noteq> evt_key n" "OLDEST_SEQ_KEY \<noteq> evt_key n"
  by (simp_all add: js_starts_with_def evt_key_def EVT_PREFIX_def SEQ_KEY_def OLDEST_SEQ_KEY_def)

text \<open>Two strictly ordered association lists with the same lookups are equal.\<close>

lemma ordered_map_eq:
  fixes xs ys :: "('k::linorder \<times> 'v) list"
  assumes "sorted_wrt (<) (map fst xs)" and "sorted_wrt (<) (map fst ys)" and "\<And>k. map_of xs k = map_of ys k"
  shows "xs = ys"
  using assms
proof (induction xs arbitrary: ys)
  case Nil
  from Nil(3) have "map_of ys = Map.empty" by (metis map_of.simps(1))
  then show ?case by (simp add: map_of_eq_empty_iff)
next
  case (Cons x xs)
  obtain y zs where ys: "ys = y # zs" using Cons.prems(3) [of "fst x"] by (cases ys) auto
  have gone: "map_of xs (fst x) = None" "map_of zs (fst y) = None"
    using Cons.prems(1,2) ys by (auto simp: map_of_eq_None_iff)
  have "fst x = fst y"
  proof (rule ccontr)
    assume n: "fst x \<noteq> fst y"
    have "fst x \<in> fst ` set zs" using Cons.prems(3) [of "fst x"] ys n by (cases x, cases y) (auto split: if_splits dest!: sym [of "Some _"] map_of_SomeD intro: rev_image_eqI)
    moreover have "fst y \<in> fst ` set xs" using Cons.prems(3) [of "fst y"] ys n by (cases x, cases y) (auto split: if_splits dest!: map_of_SomeD intro: rev_image_eqI)
    ultimately show False using Cons.prems(1,2) ys by fastforce
  qed
  moreover from this have "snd x = snd y" using Cons.prems(3) [of "fst x"] ys by (cases x, cases y) simp
  moreover have "map_of xs k = map_of zs k" for k
    using Cons.prems(3) [of k] ys calculation gone by (cases x, cases y) (auto split: if_splits)
  ultimately show ?case using Cons.IH [of zs] Cons.prems(1,2) ys by (simp add: prod_eq_iff)
qed


subsection \<open>What the buffer relies on\<close>

locale ordered_store =
  fixes S :: "('s, hub_value) event_store"
    and good :: "'s \<Rightarrow> bool"
  assumes put_good: "good s \<Longrightarrow> good (es_put S k v s)"
    and delete_good: "good s \<Longrightarrow> good (es_delete S ks s)"
    and get_put: "good s \<Longrightarrow> es_get S j (es_put S k v s) = (if j = k then Some v else es_get S j s)"
    and get_delete: "good s \<Longrightarrow> es_get S j (es_delete S ks s) = (if j \<in> set ks then None else es_get S j s)"
    and list_sorted: "good s \<Longrightarrow> sorted_wrt (<) (map fst (es_list S p a s))"
    and list_get: "good s \<Longrightarrow> map_of (es_list S p a s) k =
        (if js_starts_with k p \<and> (case a of None \<Rightarrow> True | Some b \<Rightarrow> b < k) then es_get S k s else None)"

text \<open>
  What the storage holds after the events \<open>evs\<close>, the last \<open>maxSize\<close> of them: their entries, the head and the oldest
  number.  This is the contract of the buffer; nothing of it mentions how the keys are laid out but the entries.
\<close>

definition retained :: "nat \<Rightarrow> release_event list \<Rightarrow> release_event list" where
  "retained maxSize evs = drop (length evs - maxSize) evs"

definition buffer_entry :: "release_event \<Rightarrow> string \<times> hub_value" where
  "buffer_entry e = (evt_key (ev_seq e), EventValue e)"

definition numbered :: "release_event list \<Rightarrow> bool" where
  "numbered evs \<longleftrightarrow> map ev_seq evs = [1..<Suc (length evs)] \<and> length evs < 10 ^ 16"

definition holds_events :: "('s, hub_value) event_store \<Rightarrow> nat \<Rightarrow> release_event list \<Rightarrow> 's \<Rightarrow> bool" where
  "holds_events S maxSize evs s \<longleftrightarrow> numbered evs \<and>
     es_get S SEQ_KEY s = (if evs = [] then None else Some (SeqValue (length evs))) \<and>
     es_get S OLDEST_SEQ_KEY s = (if evs = [] then None else Some (SeqValue (length evs - maxSize + 1))) \<and>
     (\<forall>k. js_starts_with k EVT_PREFIX \<longrightarrow> es_get S k s = map_of (map buffer_entry (retained maxSize evs)) k)"

lemma buffer_entry_values [simp]: "event_values (map buffer_entry es) = es"
  by (induction es) (simp_all add: buffer_entry_def)

lemma numbered_nth: "numbered evs \<Longrightarrow> i < length evs \<Longrightarrow> ev_seq (evs ! i) = Suc i"
proof -
  assume n: "numbered evs" and i: "i < length evs"
  have "ev_seq (evs ! i) = map ev_seq evs ! i" using i by simp
  also have "\<dots> = [1..<Suc (length evs)] ! i" using n by (simp only: numbered_def)
  also have "\<dots> = Suc i" using i by (simp only: nth_upt)
  finally show ?thesis .
qed

lemma numbered_snoc:
  "numbered (evs @ [e]) \<longleftrightarrow> numbered evs \<and> ev_seq e = Suc (length evs) \<and> Suc (length evs) < 10 ^ 16"
  by (auto simp: numbered_def)

lemma numbered_bound: "numbered evs \<Longrightarrow> e \<in> set evs \<Longrightarrow> 0 < ev_seq e \<and> ev_seq e \<le> length evs"
  by (metis in_set_conv_nth numbered_nth Suc_leI zero_less_Suc)

lemma numbered_drop_seqs: "numbered evs \<Longrightarrow> map ev_seq (drop n evs) = [Suc n..<Suc (length evs)]"
  by (simp only: numbered_def drop_map [symmetric] drop_upt One_nat_def add_Suc plus_nat.add_0)

lemma numbered_filter:
  assumes "numbered evs"
  shows "filter (\<lambda>e. n < ev_seq e) evs = drop n evs"
proof (cases "n \<le> length evs")
  case True
  have "filter (\<lambda>e. n < ev_seq e) (take n evs) = []"
    using numbered_nth [OF assms] True by (auto simp: filter_empty_conv in_set_conv_nth)
  moreover have "filter (\<lambda>e. n < ev_seq e) (drop n evs) = drop n evs"
    using numbered_nth [OF assms] True by (auto simp: filter_id_conv in_set_conv_nth)
  ultimately show ?thesis using filter_append [of "\<lambda>e. n < ev_seq e" "take n evs" "drop n evs"] by simp
next
  case False
  then show ?thesis using numbered_bound [OF assms] by (force simp: filter_empty_conv)
qed

lemma retained_bound:
  assumes "numbered evs" and "e \<in> set (retained m evs)"
  shows "0 < ev_seq e \<and> ev_seq e < 10 ^ 16"
proof -
  have "e \<in> set evs" using assms(2) by (auto simp: retained_def dest: in_set_dropD)
  from numbered_bound [OF assms(1) this] assms(1) show ?thesis by (auto simp: numbered_def)
qed

lemma retained_sorted:
  assumes "numbered evs"
  shows "sorted_wrt (<) (map fst (map buffer_entry (retained m evs)))"
proof -
  have s: "map ev_seq (retained m evs) = [Suc (length evs - m)..<Suc (length evs)]"
    using numbered_drop_seqs [OF assms] by (simp add: retained_def)
  have "sorted_wrt (<) (map ev_seq (retained m evs))" by (simp only: s sorted_wrt_upt)
  then have "sorted_wrt (\<lambda>e f. ev_seq e < ev_seq f) (retained m evs)" by (simp add: sorted_wrt_map)
  moreover have b: "ev_seq e < 10 ^ 16" if "e \<in> set (retained m evs)" for e
    using retained_bound [OF assms that] by blast
  ultimately have "sorted_wrt (\<lambda>e f. evt_key (ev_seq e) < evt_key (ev_seq f)) (retained m evs)"
    using evt_key_less(1) [OF b b] by (blast intro: sorted_wrt_mono_rel [rotated])
  then show ?thesis by (simp add: sorted_wrt_map buffer_entry_def)
qed

lemma map_of_filter_key: "map_of (filter (\<lambda>(k, _). P k) xs) k = (if P k then map_of xs k else None)"
  by (induction xs) auto

context ordered_store
begin

lemma list_eq:
  assumes "good s" and "sorted_wrt (<) (map fst xs)"
    and "\<And>k. map_of xs k = (if js_starts_with k p \<and> (case a of None \<Rightarrow> True | Some b \<Rightarrow> b < k) then es_get S k s else None)"
  shows "es_list S p a s = xs"
  using list_sorted [OF assms(1)] assms(2) list_get [OF assms(1)] assms(3) by (intro ordered_map_eq) simp_all

lemma replay_all:
  assumes "good s" and h: "holds_events S m evs s" and "since < 10 ^ 16"
  shows "replayEvents S since s = filter (\<lambda>e. since < ev_seq e) (retained m evs)"
proof -
  have n: "numbered evs" using h by (simp add: holds_events_def)
  define es where "es = filter (\<lambda>e. since < ev_seq e) (retained m evs)"
  define after where "after = (if 0 < since then Some (evt_key since) else None)"
  have b: "ev_seq e < 10 ^ 16 \<and> 0 < ev_seq e" if "e \<in> set (retained m evs)" for e
    using retained_bound [OF n that] by blast
  have after: "(case after of None \<Rightarrow> True | Some b \<Rightarrow> b < evt_key (ev_seq e)) \<longleftrightarrow> since < ev_seq e" if "e \<in> set (retained m evs)" for e
    using b [OF that] evt_key_less(1) [OF assms(3), of "ev_seq e"] by (auto simp: after_def)
  have f: "map buffer_entry es = filter (\<lambda>(k, _). case after of None \<Rightarrow> True | Some b \<Rightarrow> b < k) (map buffer_entry (retained m evs))"
    unfolding es_def filter_map using after by (auto simp: buffer_entry_def intro!: arg_cong [of _ _ "map buffer_entry"] filter_cong)
  have srt: "sorted_wrt (<) (map fst (map buffer_entry es))"
    using retained_sorted [OF n, of m] unfolding f by (simp add: sorted_wrt_map sorted_wrt_filter)
  have "es_list S EVT_PREFIX after s = map buffer_entry es"
  proof (rule list_eq [OF assms(1) srt])
    fix k
    have "map_of (map buffer_entry es) k = (if case after of None \<Rightarrow> True | Some b \<Rightarrow> b < k then map_of (map buffer_entry (retained m evs)) k else None)"
      unfolding f by (rule map_of_filter_key)
    moreover have "map_of (map buffer_entry (retained m evs)) k = None" if "\<not> js_starts_with k EVT_PREFIX"
      using that by (auto simp: map_of_eq_None_iff buffer_entry_def)
    ultimately show "map_of (map buffer_entry es) k =
        (if js_starts_with k EVT_PREFIX \<and> (case after of None \<Rightarrow> True | Some b \<Rightarrow> b < k) then es_get S k s else None)"
      using h by (cases "js_starts_with k EVT_PREFIX") (simp_all add: holds_events_def)
  qed
  then show ?thesis by (simp add: replayEvents_def after_def es_def)
qed

text \<open>An append stores one more event and keeps the last ones; the storage stays one of the events.\<close>

lemma append_one:
  assumes g: "good s" and h: "holds_events S m evs s" and room: "Suc (length evs) < 10 ^ 16" and m: "0 < m"
    and a: "appendEvent S now eid payload m s = (e, s')"
  shows "e = \<lparr>ev_id = eid, ev_seq = Suc (length evs), ev_ts = now, ev_release = payload\<rparr>"
    and "good s'" and "holds_events S m (evs @ [e]) s'"
proof -
  have n: "numbered evs" using h by (simp add: holds_events_def)
  have seq: "number_at (es_get S SEQ_KEY s) = length evs" using h by (simp add: holds_events_def)
  show e: "e = \<lparr>ev_id = eid, ev_seq = Suc (length evs), ev_ts = now, ev_release = payload\<rparr>"
    using a seq by (simp add: appendEvent_def Let_def)
  define s2 where "s2 = es_put S SEQ_KEY (SeqValue (Suc (length evs))) (es_put S (evt_key (Suc (length evs))) (EventValue e) s)"
  define s3 where "s3 = (if evs = [] then es_put S OLDEST_SEQ_KEY (SeqValue 1) s2 else s2)"
  have s': "s' = (if m < Suc (length evs) then es_put S OLDEST_SEQ_KEY (SeqValue (Suc (length evs) - m + 1))
      (es_delete S [evt_key (Suc (length evs) - m)] s3) else s3)"
    using a seq by (auto simp: appendEvent_def Let_def s2_def s3_def)
  have g2: "good s2" "good s3" using g by (simp_all add: s2_def s3_def put_good)
  show g': "good s'" using g2 by (simp add: s' put_good delete_good)
  let ?old = "Suc (length evs) - m"
  have get: "es_get S k s' = (if k = OLDEST_SEQ_KEY then Some (SeqValue (Suc (length evs) - m + 1))
      else if k = SEQ_KEY then Some (SeqValue (Suc (length evs)))
      else if m < Suc (length evs) \<and> k = evt_key ?old then None
      else if k = evt_key (Suc (length evs)) then Some (EventValue e) else es_get S k s)"
    if k: "k = OLDEST_SEQ_KEY \<or> k = SEQ_KEY \<or> js_starts_with k EVT_PREFIX" for k
  proof -
    have 2: "es_get S k s2 = (if k = SEQ_KEY then Some (SeqValue (Suc (length evs)))
        else if k = evt_key (Suc (length evs)) then Some (EventValue e) else es_get S k s)"
      using g by (simp add: s2_def get_put put_good)
    have 3: "es_get S k s3 = (if k = OLDEST_SEQ_KEY \<and> evs = [] then Some (SeqValue 1) else es_get S k s2)"
      using g2 by (simp add: s3_def get_put)
    have o: "es_get S OLDEST_SEQ_KEY s = (if evs = [] then None else Some (SeqValue (length evs - m + 1)))"
      using h by (simp add: holds_events_def)
    have n1: "evs = [] \<Longrightarrow> \<not> m < Suc (length evs)" "\<not> m < Suc (length evs) \<Longrightarrow> Suc (length evs) - m = 0"
      "\<not> m < Suc (length evs) \<Longrightarrow> length evs - m = 0"
      using m by auto
    show ?thesis
    proof (cases "m < Suc (length evs)")
      case True
      then have "es_get S k s' = (if k = OLDEST_SEQ_KEY then Some (SeqValue (Suc (length evs) - m + 1))
          else if k = evt_key ?old then None else es_get S k s3)"
        using g2 by (simp add: s' get_put get_delete delete_good)
      then show ?thesis using True n1 k 2 3 by auto
    next
      case False
      then show ?thesis using n1 k 2 3 o by (auto simp: s')
    qed
  qed
  show "holds_events S m (evs @ [e]) s'"
    unfolding holds_events_def
  proof (intro conjI allI impI)
    show "numbered (evs @ [e])" using n e room by (simp add: numbered_snoc)
    fix k assume k: "js_starts_with k EVT_PREFIX"
    have first: "map_of (map buffer_entry (retained m evs)) (evt_key (Suc (length evs))) = None"
    proof -
      have "evt_key (Suc (length evs)) \<noteq> evt_key (ev_seq f)" if "f \<in> set (retained m evs)" for f
        using numbered_bound [OF n, of f] that room evt_key_less(2) [of "Suc (length evs)" "ev_seq f"]
        by (auto simp: retained_def dest: in_set_dropD)
      then show ?thesis by (force simp: map_of_eq_None_iff buffer_entry_def)
    qed
    show "es_get S k s' = map_of (map buffer_entry (retained m (evs @ [e]))) k"
    proof (cases "m < Suc (length evs)")
      case False
      then have "retained m (evs @ [e]) = retained m evs @ [e]" by (simp add: retained_def)
      then show ?thesis using False k get [of k] first h e
        by (auto simp: map_of_append buffer_entry_def holds_events_def map_add_def split: option.splits)
    next
      case True
      have hd: "retained m evs = evs ! (length evs - m) # drop (Suc (length evs - m)) evs"
        using True m by (simp add: retained_def Cons_nth_drop_Suc)
      have new: "retained m (evs @ [e]) = drop (Suc (length evs - m)) evs @ [e]"
        using True m by (simp add: retained_def Suc_diff_le)
      have old: "ev_seq (evs ! (length evs - m)) = ?old" using numbered_nth [OF n, of "length evs - m"] True m by simp
      have gone: "map_of (map buffer_entry (drop (Suc (length evs - m)) evs)) (evt_key ?old) = None"
        using retained_sorted [OF n, of m] unfolding hd by (auto simp: map_of_eq_None_iff buffer_entry_def old)
      have "?old \<noteq> Suc (length evs)" "?old < 10 ^ 16" using m room by auto
      then have ne: "evt_key ?old \<noteq> evt_key (Suc (length evs))" using evt_key_less(2) room by blast
      show ?thesis using True k get [of k] first h e ne gone old
        unfolding new by (auto simp: hd map_of_append buffer_entry_def holds_events_def map_add_def split: option.splits)
    qed
  qed (use get h in \<open>simp_all\<close>)
qed

lemma none_yet: "good s \<Longrightarrow> (\<And>k. es_get S k s = None) \<Longrightarrow> holds_events S m [] s"
  by (simp add: holds_events_def numbered_def retained_def)

lemma head_oldest:
  assumes "holds_events S m evs s"
  shows "currentSeq S s = length evs" and "oldestSeq S s = (if evs = [] then 0 else length evs - m + 1)"
  using assms by (simp_all add: holds_events_def currentSeq_def oldestSeq_def)

end

subsection \<open>The storage of a Durable Object\<close>

text \<open>
  \<open>storageAsEventStore\<close>: the documented behaviour of the storage is that of a map whose \<open>list\<close> runs through the keys
  in ascending order, those with the prefix and after \<open>startAfter\<close>.
\<close>

type_synonym 'v kv = "(string \<times> 'v) list"

definition kv_put :: "string \<Rightarrow> 'v \<Rightarrow> 'v kv \<Rightarrow> 'v kv" where
  "kv_put k v s = filter (\<lambda>(j, _). j < k) s @ (k, v) # filter (\<lambda>(j, _). k < j) s"

definition kv_delete :: "string list \<Rightarrow> 'v kv \<Rightarrow> 'v kv" where
  "kv_delete ks s = filter (\<lambda>(j, _). j \<notin> set ks) s"

definition kv_list :: "string \<Rightarrow> string option \<Rightarrow> 'v kv \<Rightarrow> 'v kv" where
  "kv_list p startAfter s =
     filter (\<lambda>(k, _). js_starts_with k p \<and> (case startAfter of None \<Rightarrow> True | Some b \<Rightarrow> b < k)) s"

definition kv_ok :: "'v kv \<Rightarrow> bool" where
  "kv_ok s \<longleftrightarrow> sorted_wrt (<) (map fst s)"

definition storageAsEventStore :: "(hub_value kv, hub_value) event_store" where
  "storageAsEventStore = \<lparr>es_get = (\<lambda>k s. map_of s k), es_put = kv_put, es_delete = kv_delete, es_list = kv_list\<rparr>"

lemma kv_get_put: "kv_ok s \<Longrightarrow> map_of (kv_put k v s) j = (if j = k then Some v else map_of s j)"
  by (auto simp: kv_put_def map_of_append map_of_filter_key map_add_def split: option.splits)

lemma kv_ok_put: "kv_ok s \<Longrightarrow> kv_ok (kv_put k v s)"
  by (auto simp: kv_ok_def kv_put_def sorted_wrt_map sorted_wrt_append sorted_wrt_filter)

lemma kv_ok_filter: "kv_ok s \<Longrightarrow> kv_ok (filter P s)"
  by (simp add: kv_ok_def sorted_wrt_map sorted_wrt_filter)

lemma kv_get_delete: "map_of (kv_delete ks s) j = (if j \<in> set ks then None else map_of s j)"
  by (simp add: kv_delete_def map_of_filter_key)

lemma kv_get_list: "map_of (kv_list p a s) k =
    (if js_starts_with k p \<and> (case a of None \<Rightarrow> True | Some b \<Rightarrow> b < k) then map_of s k else None)"
  by (simp add: kv_list_def map_of_filter_key)

interpretation durable: ordered_store storageAsEventStore kv_ok
proof unfold_locales
  fix s :: "hub_value kv" and p a
  show "sorted_wrt (<) (map fst (es_list storageAsEventStore p a s))" if "kv_ok s"
    using kv_ok_filter [OF that] by (simp add: storageAsEventStore_def kv_list_def kv_ok_def)
qed (simp_all add: storageAsEventStore_def kv_ok_put kv_get_put kv_get_delete kv_get_list kv_ok_filter kv_delete_def map_of_filter_key)

end
