(* ===== verification/ReleaseHub.thy ===== *)
theory ReleaseHub
  imports EventBuffer SpendCap
begin

section \<open>The hub of release events\<close>

text \<open>
  \<open>apps/api/src/release-hub.ts\<close>, the Durable Object that stores published events and streams them to its
  subscribers, and the public route in front of it (\<open>apps/api/src/routes/stream.ts\<close>).  One request runs at a time: the
  storage calls of a Durable Object hold back other events, so a request is one step of the machine.  A socket gets
  what the hub sends in order; here the hub returns what it sends.
\<close>

subsection \<open>The requests of the hub\<close>

datatype server_message =
    Ready nat
  | SnapshotGap nat nat
  | EventMessage release_event

text \<open>A payload to publish, with the clock and the random identifier its event gets.\<close>

type_synonym publication = "int \<times> string \<times> release_payload"

datatype hub_request =
    PublishRequest "publication list"
  | SubscribeRequest "string option" "string option"
  | ReplayRequest "string option" "string option"
  | SeqRequest
  | OtherRequest

record replay_body =
  rb_events :: "release_event list"
  rb_head :: nat
  rb_gap :: "nat option"

text \<open>The answer of a publication carries the messages broadcast to every attached socket.\<close>

datatype hub_response =
    PublishDone nat "server_message list"
  | UpgradeRequired
  | Upgraded "server_message list"
  | ReplayDone replay_body
  | SeqDone nat
  | HubNotFound

definition parseSince :: "string option \<Rightarrow> nat option" where
  "parseSince raw =
     (case raw of None \<Rightarrow> None
      | Some s \<Rightarrow> (case js_parse_int s of None \<Rightarrow> None
          | Some n \<Rightarrow> if is_finite (num_of_rat (of_int n)) \<and> 0 \<le> n then Some (nat n) else None))"

fun append_all :: "publication list \<Rightarrow> hub_value kv \<Rightarrow> release_event list \<times> hub_value kv" where
  "append_all [] st = ([], st)"
| "append_all ((now, eid, payload) # ps) st =
     (case appendEvent storageAsEventStore now eid payload EVENT_BUFFER_SIZE st of
       (event, st1) \<Rightarrow> (case append_all ps st1 of (stored, st2) \<Rightarrow> (event # stored, st2)))"

text \<open>The cursor of a caller lies before the buffer.\<close>

definition beyond_buffer :: "nat \<Rightarrow> nat \<Rightarrow> bool" where
  "beyond_buffer since oldest \<longleftrightarrow> 0 < oldest \<and> int since < int oldest - 1"

definition subscribe_messages :: "nat option \<Rightarrow> hub_value kv \<Rightarrow> server_message list" where
  "subscribe_messages since st =
     (let head = currentSeq storageAsEventStore st
      in Ready head #
         (case since of None \<Rightarrow> []
          | Some n \<Rightarrow>
             (let oldest = oldestSeq storageAsEventStore st
              in if beyond_buffer n oldest then [SnapshotGap n oldest]
                 else if n < head then map EventMessage (replayEvents storageAsEventStore n st)
                 else [])))"

definition replay_limit :: "string option \<Rightarrow> nat" where
  "replay_limit limit =
     (case js_parse_int (case limit of None \<Rightarrow> ''500'' | Some s \<Rightarrow> s) of
        None \<Rightarrow> 500
      | Some n \<Rightarrow> if is_finite (num_of_rat (of_int n)) then nat (max 1 (min 500 n)) else 500)"

definition replay_response :: "string option \<Rightarrow> string option \<Rightarrow> hub_value kv \<Rightarrow> replay_body" where
  "replay_response since_raw limit_raw st =
     (let since = (case parseSince since_raw of None \<Rightarrow> 0 | Some n \<Rightarrow> n);
          limit = replay_limit limit_raw;
          head = currentSeq storageAsEventStore st;
          oldest = oldestSeq storageAsEventStore st
      in \<lparr>rb_events = (if since < head then slice (replayEvents storageAsEventStore since st) 0 limit else []),
          rb_head = head,
          rb_gap = (if beyond_buffer since oldest then Some oldest else None)\<rparr>)"

definition hub_fetch :: "hub_request \<Rightarrow> hub_value kv \<Rightarrow> hub_response \<times> hub_value kv" where
  "hub_fetch request st =
     (case request of
        PublishRequest ps \<Rightarrow>
          (case append_all ps st of (stored, st1) \<Rightarrow> (PublishDone (length stored) (map EventMessage stored), st1))
      | SubscribeRequest upgrade since \<Rightarrow>
          (if upgrade \<noteq> Some ''websocket'' then (UpgradeRequired, st)
           else (Upgraded (subscribe_messages (parseSince since) st), st))
      | ReplayRequest since limit \<Rightarrow> (ReplayDone (replay_response since limit st), st)
      | SeqRequest \<Rightarrow> (SeqDone (currentSeq storageAsEventStore st), st)
      | OtherRequest \<Rightarrow> (HubNotFound, st))"

subsection \<open>The public route\<close>

text \<open>\<open>encodeURIComponent\<close> and the query parser of the hub's request are inverse to each other.\<close>

definition stream_route :: "string option \<Rightarrow> string option \<Rightarrow> hub_value kv \<Rightarrow> hub_response" where
  "stream_route upgrade since st =
     (let tokens = (if text_of upgrade = [] then []
                    else map (\<lambda>t. js_lower (js_trim t)) (split_on CHR '','' (text_of upgrade)))
      in if ''websocket'' \<notin> set tokens then UpgradeRequired
         else fst (hub_fetch (SubscribeRequest upgrade (if text_of since = [] then None else since)) st))"

subsection \<open>The hub and its history\<close>

text \<open>\<open>hub_history evs st\<close>: the events \<open>evs\<close> were published, and the storage holds the last of them.\<close>

definition hub_history :: "release_event list \<Rightarrow> hub_value kv \<Rightarrow> bool" where
  "hub_history evs st \<longleftrightarrow> kv_ok st \<and> holds_events storageAsEventStore EVENT_BUFFER_SIZE evs st"

lemma buffer_size_pos: "0 < EVENT_BUFFER_SIZE" by (simp add: EVENT_BUFFER_SIZE_def)

lemma hub_history_empty: "hub_history [] []"
  unfolding hub_history_def
  by (intro conjI durable.none_yet) (simp_all add: kv_ok_def storageAsEventStore_def)

lemma hub_history_numbered: "hub_history evs st \<Longrightarrow> numbered evs"
  by (simp add: hub_history_def holds_events_def)

definition event_of :: "nat \<Rightarrow> publication \<Rightarrow> release_event" where
  "event_of n p = (case p of (now, eid, payload) \<Rightarrow> \<lparr>ev_id = eid, ev_seq = n, ev_ts = now, ev_release = payload\<rparr>)"

lemma append_all_history:
  assumes "hub_history evs st" and "length evs + length ps < 10 ^ 16" and "append_all ps st = (stored, st')"
  shows "stored = map2 event_of [Suc (length evs)..<Suc (length evs + length ps)] ps \<and> hub_history (evs @ stored) st'"
  using assms
proof (induction ps arbitrary: evs st stored)
  case Nil
  then show ?case by simp
next
  case (Cons p ps)
  obtain now eid payload where p: "p = (now, eid, payload)" by (cases p)
  obtain e st1 where a: "appendEvent storageAsEventStore now eid payload EVENT_BUFFER_SIZE st = (e, st1)"
    by (metis surj_pair)
  obtain stored1 where r: "append_all ps st1 = (stored1, st')" and s: "stored = e # stored1"
    using Cons.prems(3) by (auto simp: p a split: prod.splits)
  have room: "Suc (length evs) < 10 ^ 16" using Cons.prems(2) by simp
  note one = durable.append_one [OF _ _ room buffer_size_pos a]
  have e: "e = event_of (Suc (length evs)) p" and h: "hub_history (evs @ [e]) st1"
    using one Cons.prems(1) by (simp_all add: hub_history_def event_of_def p)
  have room2: "length (evs @ [e]) + length ps < 10 ^ 16" using Cons.prems(2) by simp
  have "[Suc (length evs)..<Suc (length evs + length (p # ps))] =
      Suc (length evs) # [Suc (Suc (length evs))..<Suc (Suc (length evs + length ps))]"
    by (simp add: upt_conv_Cons del: upt_Suc)
  then show ?case using Cons.IH [OF h room2 r] e s by (auto simp del: upt_Suc)
qed

text \<open>An event after \<open>n\<close> has left the buffer.\<close>

definition evicted :: "nat \<Rightarrow> release_event list \<Rightarrow> bool" where
  "evicted n evs \<longleftrightarrow> (\<exists>e \<in> set (take (length evs - EVENT_BUFFER_SIZE) evs). n < ev_seq e)"

lemma beyond_buffer_none [simp]: "\<not> beyond_buffer n 0"
  by (simp add: beyond_buffer_def)

lemma gap_iff:
  assumes "numbered evs"
  shows "beyond_buffer n (if evs = [] then 0 else length evs - EVENT_BUFFER_SIZE + 1) \<longleftrightarrow> evicted n evs"
proof -
  have "evicted n evs \<longleftrightarrow> (\<exists>i < length evs - EVENT_BUFFER_SIZE. n < Suc i)"
    using numbered_nth [OF assms] by (auto simp: evicted_def in_set_conv_nth Bex_def)
  also have "\<dots> \<longleftrightarrow> n < length evs - EVENT_BUFFER_SIZE" by (auto simp: less_Suc_eq_le)
  finally show ?thesis by (auto simp: beyond_buffer_def)
qed

lemma replay_after:
  assumes h: "hub_history evs st" and n: "n < length evs" and "\<not> beyond_buffer n (oldestSeq storageAsEventStore st)"
  shows "replayEvents storageAsEventStore n st = drop n evs"
proof -
  have num: "numbered evs" by (rule hub_history_numbered [OF h])
  have b: "n < 10 ^ 16" using n num by (auto simp: numbered_def)
  have "length evs - EVENT_BUFFER_SIZE \<le> n"
  proof -
    have "oldestSeq storageAsEventStore st = length evs - EVENT_BUFFER_SIZE + 1"
      using durable.head_oldest(2) [of EVENT_BUFFER_SIZE evs st] h n by (simp add: hub_history_def split: if_splits)
    then show ?thesis using assms(3) by (simp add: beyond_buffer_def)
  qed
  moreover have "filter (\<lambda>e. n < ev_seq e) (drop k evs) = drop n evs" if "k \<le> n" for k
  proof -
    have "filter (\<lambda>e. n < ev_seq e) (take k evs) = []"
      using numbered_nth [OF num] that n by (auto simp: filter_empty_conv in_set_conv_nth)
    then show ?thesis using numbered_filter [OF num, of n] filter_append [of "\<lambda>e. n < ev_seq e" "take k evs" "drop k evs"] by simp
  qed
  ultimately show ?thesis
    using durable.replay_all [of st EVENT_BUFFER_SIZE evs n] h b by (simp add: hub_history_def retained_def)
qed

lemma subscribe_history:
  assumes h: "hub_history evs st"
  shows "subscribe_messages None st = [Ready (length evs)]"
    and "subscribe_messages (Some n) st = Ready (length evs) #
      (if evicted n evs
       then [SnapshotGap n (length evs - EVENT_BUFFER_SIZE + 1)] else map EventMessage (drop n evs))"
proof -
  have head: "currentSeq storageAsEventStore st = length evs"
    and old: "oldestSeq storageAsEventStore st = (if evs = [] then 0 else length evs - EVENT_BUFFER_SIZE + 1)"
    using durable.head_oldest h by (auto simp: hub_history_def)
  show "subscribe_messages None st = [Ready (length evs)]" by (simp add: subscribe_messages_def head)
  note gap = gap_iff [OF hub_history_numbered [OF h], of n]
  show "subscribe_messages (Some n) st = Ready (length evs) #
      (if evicted n evs
       then [SnapshotGap n (length evs - EVENT_BUFFER_SIZE + 1)] else map EventMessage (drop n evs))"
  proof (cases "beyond_buffer n (oldestSeq storageAsEventStore st)")
    case True
    then show ?thesis using gap by (auto simp: subscribe_messages_def head old Let_def beyond_buffer_def)
  next
    case False
    then show ?thesis using gap replay_after [OF h _ False]
      by (auto simp: subscribe_messages_def head old Let_def not_less)
  qed
qed

subsection \<open>Reachable hubs\<close>

inductive hub_reached :: "release_event list \<Rightarrow> hub_value kv \<Rightarrow> bool" where
  hub_new: "hub_reached [] []"
| hub_publish: "hub_reached evs st \<Longrightarrow> length evs + length ps < 10 ^ 16 \<Longrightarrow>
    hub_fetch (PublishRequest ps) st = (PublishDone n (map EventMessage stored), st') \<Longrightarrow> hub_reached (evs @ stored) st'"

lemma publish_fetch:
  "hub_fetch (PublishRequest ps) st = (PublishDone n ms, st') \<longleftrightarrow>
     (\<exists>stored. append_all ps st = (stored, st') \<and> n = length stored \<and> ms = map EventMessage stored)"
  by (auto simp: hub_fetch_def split: prod.splits)

lemma map_message_inject [simp]: "map EventMessage xs = map EventMessage ys \<longleftrightarrow> xs = ys"
  by (simp add: inj_map_eq_map inj_def)

lemma hub_reached_history: "hub_reached evs st \<Longrightarrow> hub_history evs st"
proof (induction rule: hub_reached.induct)
  case (hub_publish evs st ps n stored st')
  then show ?case using append_all_history [of evs st ps stored st'] by (auto simp: publish_fetch)
qed (rule hub_history_empty)

lemma subscribe_fetch:
  "fst (hub_fetch (SubscribeRequest (Some ''websocket'') since) st) = Upgraded (subscribe_messages (parseSince since) st)"
  by (simp add: hub_fetch_def)

lemma upgrade_websocket [simp]:
  "split_on CHR '','' ''websocket'' = [''websocket'']" "js_lower (js_trim ''websocket'') = ''websocket''"
  by (simp_all add: js_lower_def js_trim_def is_space_def code_unit_def lower_char_def is_upper_def)

text \<open>C17: A subscriber that resumes after the event \<open>n\<close> is told the head and then gets exactly the events published after
  \<open>n\<close>, in order, or, when one of them has left the buffer, a gap and none of them; a caller of the replay endpoint
  gets the first of the retained events after \<open>n\<close>, and the gap in the same case.
\<close>

theorem resume_exact:
  assumes "hub_reached evs st" and "parseSince since = Some n" and "since \<noteq> Some []"
  shows "map ev_seq evs = [1..<Suc (length evs)] \<and>
    stream_route (Some ''websocket'') since st = Upgraded (Ready (length evs) #
      (if evicted n evs
       then [SnapshotGap n (length evs - EVENT_BUFFER_SIZE + 1)]
       else map EventMessage (filter (\<lambda>e. n < ev_seq e) evs))) \<and>
    hub_fetch (ReplayRequest since limit) st = (ReplayDone
      \<lparr>rb_events = take (replay_limit limit) (filter (\<lambda>e. n < ev_seq e) (drop (length evs - EVENT_BUFFER_SIZE) evs)),
       rb_head = length evs,
       rb_gap = (if evicted n evs
                 then Some (length evs - EVENT_BUFFER_SIZE + 1) else None)\<rparr>, st)"
proof -
  have h: "hub_history evs st" by (rule hub_reached_history [OF assms(1)])
  have num: "numbered evs" by (rule hub_history_numbered [OF h])
  have route: "stream_route (Some ''websocket'') since st = Upgraded (subscribe_messages (Some n) st)"
    using assms(2,3) by (cases since) (simp_all add: stream_route_def subscribe_fetch parseSince_def del: split_on.simps)
  have hd: "currentSeq storageAsEventStore st = length evs"
    "oldestSeq storageAsEventStore st = (if evs = [] then 0 else length evs - EVENT_BUFFER_SIZE + 1)"
    using durable.head_oldest h by (auto simp: hub_history_def)
  have none: "filter (\<lambda>e. n < ev_seq e) (drop k evs) = []" if "length evs \<le> n" for k
    using numbered_bound [OF num] that by (fastforce simp: filter_empty_conv dest: in_set_dropD)
  have some: "replayEvents storageAsEventStore n st = filter (\<lambda>e. n < ev_seq e) (drop (length evs - EVENT_BUFFER_SIZE) evs)"
    if "n < length evs"
    using durable.replay_all [of st EVENT_BUFFER_SIZE evs n] h num that by (simp add: hub_history_def retained_def numbered_def)
  have "hub_fetch (ReplayRequest since limit) st = (ReplayDone
      \<lparr>rb_events = take (replay_limit limit) (filter (\<lambda>e. n < ev_seq e) (drop (length evs - EVENT_BUFFER_SIZE) evs)),
       rb_head = length evs,
       rb_gap = (if evicted n evs
                 then Some (length evs - EVENT_BUFFER_SIZE + 1) else None)\<rparr>, st)"
    using gap_iff [OF num, of n] none [of "length evs - EVENT_BUFFER_SIZE"] some
    by (auto simp: hub_fetch_def replay_response_def assms(2) hd Let_def slice_def not_less)
  then show ?thesis using route subscribe_history(2) [OF h, of n] num numbered_filter [OF num, of n] by (simp add: numbered_def del: upt_Suc)
qed

text \<open>The hub upgrades one spelling of the header only, whatever list of tokens the route accepts.\<close>

theorem upgrade_spelling:
  "stream_route upgrade since st = UpgradeRequired \<longleftrightarrow> upgrade \<noteq> Some ''websocket''"
  by (auto simp: stream_route_def hub_fetch_def Let_def js_lower_def js_trim_def is_space_def code_unit_def lower_char_def is_upper_def)

definition sample_payload :: "string \<Rightarrow> release_payload" where
  "sample_payload i = \<lparr>rp_id = i, rp_title = ''v1'', rp_version = None, rp_publishedAt = None, rp_sourceName = ''Acme'',
     rp_sourceSlug = ''acme'', rp_sourceType = None, rp_org = None, rp_product = None, rp_webUrl = None, rp_summary = None,
     rp_titleGenerated = None, rp_titleShort = None, rp_media = [], rp_contentChars = None, rp_contentTokens = None\<rparr>"

definition three_releases :: "publication list" where
  "three_releases = [(5, ''evt_a'', sample_payload ''rel_1''), (5, ''evt_b'', sample_payload ''rel_2''), (6, ''evt_c'', sample_payload ''rel_3'')]"

lemma three_reached:
  "\<exists>st. hub_reached [event_of 1 (three_releases ! 0), event_of 2 (three_releases ! 1), event_of 3 (three_releases ! 2)] st"
proof -
  obtain stored st where a: "append_all three_releases [] = (stored, st)" by (metis surj_pair)
  have "stored = map2 event_of [Suc 0..<Suc (length three_releases)] three_releases"
    using append_all_history [OF hub_history_empty _ a] by (simp add: three_releases_def)
  then have "stored = [event_of 1 (three_releases ! 0), event_of 2 (three_releases ! 1), event_of 3 (three_releases ! 2)]"
    by (simp add: three_releases_def upt_rec eval_nat_numeral)
  with hub_publish [OF hub_new, of three_releases "length stored" stored st] a show ?thesis
    by (auto simp: publish_fetch three_releases_def)
qed

theorem resume_exact_witness:
  "\<exists>evs st. length evs = 3 \<and> stream_route (Some ''websocket'') (Some ''1'') st =
     Upgraded [Ready 3, EventMessage (evs ! 1), EventMessage (evs ! 2)]"
proof -
  let ?evs = "[event_of 1 (three_releases ! 0), event_of 2 (three_releases ! 1), event_of 3 (three_releases ! 2)]"
  obtain st where st: "hub_reached ?evs st" using three_reached by blast
  have p: "parseSince (Some ''1'') = Some 1"
    by (simp add: parseSince_def js_parse_int_def js_trim_start_def is_space_def code_unit_def is_digit_def num_of_rat_def
        max_finite_def is_finite_def dec_to_nat_def digit_val_def Let_def)
  from resume_exact [OF st p, of None] show ?thesis
    by (intro exI [of _ ?evs] exI [of _ st]) (simp add: evicted_def EVENT_BUFFER_SIZE_def event_of_def split: prod.split)
qed

end
