(* ===== verification/LiveStream.thy ===== *)
theory LiveStream
  imports ReleaseHub
begin

section \<open>The live list of the web client\<close>

text \<open>
  \<open>apps/web/src/hooks/use-release-stream.ts\<close> against the hub: the reducer of the page, the messages it handles, and
  the machine of one client, its socket and the hub, with the connection dropping at any moment.  The timers only choose
  when a step happens and are left out, so are the rendering and the shape of the page.
\<close>

subsection \<open>The releases of the page\<close>

record live_org =
  lo_slug :: "string option"
  lo_name :: "string option"
  lo_avatarUrl :: "string option"
  lo_githubHandle :: "string option"

record live_release =
  lr_id :: string
  lr_title :: "string option"
  lr_version :: "string option"
  lr_publishedAt :: "string option"
  lr_source :: "string \<times> string \<times> string option"
  lr_org :: "live_org option"
  lr_product :: "(string \<times> string) option"
  lr_summary :: "string option"
  lr_titleGenerated :: "string option"
  lr_titleShort :: "string option"
  lr_importance :: "nat option"
  lr_media :: "media_item list"
  lr_url :: "string option"

record latest_source =
  ls_slug :: string
  ls_name :: string
  ls_type :: string
  ls_orgSlug :: "string option"
  ls_orgName :: "string option"
  ls_orgAvatarUrl :: "string option"
  ls_orgGithubHandle :: "string option"

record latest_item =
  li_id :: string
  li_title :: "string option"
  li_version :: "string option"
  li_publishedAt :: "string option"
  li_source :: latest_source
  li_product :: "(string \<times> string) option"
  li_summary :: "string option"
  li_titleGenerated :: "string option"
  li_titleShort :: "string option"
  li_importance :: "nat option"
  li_media :: "media_item list option"
  li_url :: "string option"

definition orgFrom :: "latest_source \<Rightarrow> live_org option" where
  "orgFrom src =
     (if text_of (ls_orgSlug src) = [] \<and> text_of (ls_orgName src) = [] then None
      else Some \<lparr>lo_slug = ls_orgSlug src, lo_name = ls_orgName src, lo_avatarUrl = ls_orgAvatarUrl src,
        lo_githubHandle = ls_orgGithubHandle src\<rparr>)"

text \<open>The payload of a stored event carries no importance.\<close>

definition fromStreamEvent :: "release_event \<Rightarrow> live_release" where
  "fromStreamEvent e =
     (let r = ev_release e
      in \<lparr>lr_id = rp_id r, lr_title = Some (rp_title r), lr_version = rp_version r, lr_publishedAt = rp_publishedAt r,
          lr_source = (rp_sourceSlug r, rp_sourceName r, rp_sourceType r),
          lr_org = map_option (\<lambda>g. \<lparr>lo_slug = Some (eo_slug g), lo_name = Some (eo_name g), lo_avatarUrl = eo_avatarUrl g,
            lo_githubHandle = eo_githubHandle g\<rparr>) (rp_org r),
          lr_product = rp_product r, lr_summary = rp_summary r, lr_titleGenerated = rp_titleGenerated r,
          lr_titleShort = rp_titleShort r, lr_importance = None, lr_media = rp_media r, lr_url = None\<rparr>)"

definition fromLatestItem :: "latest_item \<Rightarrow> live_release" where
  "fromLatestItem item =
     \<lparr>lr_id = li_id item, lr_title = li_title item, lr_version = li_version item, lr_publishedAt = li_publishedAt item,
      lr_source = (ls_slug (li_source item), ls_name (li_source item), Some (ls_type (li_source item))),
      lr_org = orgFrom (li_source item), lr_product = li_product item, lr_summary = li_summary item,
      lr_titleGenerated = li_titleGenerated item, lr_titleShort = li_titleShort item, lr_importance = li_importance item,
      lr_media = (case li_media item of None \<Rightarrow> [] | Some m \<Rightarrow> m), lr_url = li_url item\<rparr>"

subsection \<open>The reducer\<close>

datatype live_mode = WebsocketMode | PollingMode

record live_state =
  l_releases :: "live_release list"
  l_connected :: bool
  l_mode :: live_mode
  l_lastSeq :: "nat option"

datatype live_action =
    WsReady nat
  | WsEvent nat live_release
  | WsClose
  | RestBatch "live_release list"
  | PollingStart
  | SnapshotGapSeen

definition LIVE_MAX_ITEMS :: nat where "LIVE_MAX_ITEMS = 100"

definition INITIAL_LIVE_STATE :: live_state where
  "INITIAL_LIVE_STATE = \<lparr>l_releases = [], l_connected = False, l_mode = WebsocketMode, l_lastSeq = None\<rparr>"

definition mergeReleases :: "live_release list \<Rightarrow> live_release list \<Rightarrow> live_release list" where
  "mergeReleases existing incoming =
     (if incoming = [] then existing
      else (let seen = map lr_id existing; fresh = filter (\<lambda>r. lr_id r \<notin> set seen) incoming
            in if fresh = [] then existing else slice (fresh @ existing) 0 LIVE_MAX_ITEMS))"

fun liveReducer :: "live_state \<Rightarrow> live_action \<Rightarrow> live_state" where
  "liveReducer st (WsReady n) = st\<lparr>l_connected := True, l_mode := WebsocketMode, l_lastSeq := Some n\<rparr>"
| "liveReducer st (WsEvent n r) = st\<lparr>l_connected := True, l_releases := mergeReleases (l_releases st) [r], l_lastSeq := Some n\<rparr>"
| "liveReducer st WsClose = st\<lparr>l_connected := False\<rparr>"
| "liveReducer st (RestBatch rs) = st\<lparr>l_releases := mergeReleases (l_releases st) rs\<rparr>"
| "liveReducer st PollingStart = (if l_connected st then st else st\<lparr>l_mode := PollingMode\<rparr>)"
| "liveReducer st SnapshotGapSeen = st\<lparr>l_lastSeq := None\<rparr>"

text \<open>What a message dispatches; a gap also asks for one poll, a step of its own below.\<close>

fun message_action :: "server_message \<Rightarrow> live_action" where
  "message_action (Ready n) = WsReady n"
| "message_action (SnapshotGap since oldest) = SnapshotGapSeen"
| "message_action (EventMessage e) = WsEvent (ev_seq e) (fromStreamEvent e)"

subsection \<open>A client and the hub\<close>

text \<open>
  \<open>w_socket\<close> holds what the hub sent and the client has not handled yet, and is \<^const>\<open>None\<close> while there is no
  connection; \<open>w_seen\<close> records the events the client handled.  \<open>connect\<close> reads \<open>lastSeqRef\<close>, which an effect
  keeps equal to \<open>lastSeq\<close>.
\<close>

record live_world =
  w_store :: "hub_value kv"
  w_client :: live_state
  w_socket :: "server_message list option"
  w_seen :: "release_event list"

datatype live_move = Publish "publication list" | Connect | Deliver | Drop | PollOnce "latest_item list"

definition connect_since :: "live_state \<Rightarrow> string option" where
  "connect_since st = map_option nat_to_dec (l_lastSeq st)"

fun seen_of :: "server_message \<Rightarrow> release_event list" where
  "seen_of (EventMessage e) = [e]"
| "seen_of _ = []"

fun live_step :: "live_move \<Rightarrow> live_world \<Rightarrow> live_world" where
  "live_step (Publish ps) w =
     (case hub_fetch (PublishRequest ps) (w_store w) of
        (PublishDone _ ms, st) \<Rightarrow> w\<lparr>w_store := st, w_socket := map_option (\<lambda>q. q @ ms) (w_socket w)\<rparr>
      | (_, st) \<Rightarrow> w)"
| "live_step Connect w =
     (if w_socket w \<noteq> None then w
      else (case stream_route (Some ''websocket'') (connect_since (w_client w)) (w_store w) of
              Upgraded ms \<Rightarrow> w\<lparr>w_socket := Some ms\<rparr>
            | _ \<Rightarrow> w\<lparr>w_client := liveReducer (w_client w) WsClose\<rparr>))"
| "live_step Deliver w =
     (case w_socket w of
        Some (m # ms) \<Rightarrow> w\<lparr>w_socket := Some ms, w_client := liveReducer (w_client w) (message_action m), w_seen := w_seen w @ seen_of m\<rparr>
      | _ \<Rightarrow> w)"
| "live_step Drop w =
     (if w_socket w = None then w else w\<lparr>w_socket := None, w_client := liveReducer (w_client w) WsClose\<rparr>)"
| "live_step (PollOnce items) w = w\<lparr>w_client := liveReducer (w_client w) (RestBatch (map fromLatestItem items))\<rparr>"

definition live_run :: "live_move list \<Rightarrow> live_world \<Rightarrow> live_world" where
  "live_run steps w = fold live_step steps w"

text \<open>
  A step that keeps the promise of the stream: no publication beyond the numbers, no connection whose cursor lies before
  the buffer, and no drop between \<open>ready\<close> and the first event it replays.
\<close>

fun kept_step :: "live_move \<Rightarrow> live_world \<Rightarrow> bool" where
  "kept_step (Publish ps) w \<longleftrightarrow> currentSeq storageAsEventStore (w_store w) + length ps < 10 ^ 16"
| "kept_step Connect w \<longleftrightarrow> (case l_lastSeq (w_client w) of None \<Rightarrow> True
     | Some n \<Rightarrow> \<not> beyond_buffer n (oldestSeq storageAsEventStore (w_store w)))"
| "kept_step Drop w \<longleftrightarrow> (case (w_socket w, l_lastSeq (w_client w)) of
     (Some (EventMessage e # _), Some n) \<Rightarrow> n < ev_seq e | _ \<Rightarrow> True)"
| "kept_step _ w \<longleftrightarrow> True"

fun kept_run :: "live_move list \<Rightarrow> live_world \<Rightarrow> bool" where
  "kept_run [] w \<longleftrightarrow> True"
| "kept_run (s # ss) w \<longleftrightarrow> kept_step s w \<and> kept_run ss (live_step s w)"

text \<open>A client that has just connected to a hub with some history and handled its \<open>ready\<close>.\<close>

definition live_start :: "hub_value kv \<Rightarrow> live_world" where
  "live_start st = live_run [Connect, Deliver] \<lparr>w_store = st, w_client = INITIAL_LIVE_STATE, w_socket = None, w_seen = []\<rparr>"

subsection \<open>The promise of the stream\<close>

text \<open>
  While connected, what was seen and what is queued are together the events since the start, apart from a leading
  \<open>ready\<close> still queued; while not, the cursor is the number of the last event seen.
\<close>

definition live_inv :: "nat \<Rightarrow> release_event list \<Rightarrow> live_world \<Rightarrow> bool" where
  "live_inv b evs w \<longleftrightarrow> hub_history evs (w_store w) \<and> b + length (w_seen w) \<le> length evs \<and>
     prefix (w_seen w) (drop b evs) \<and>
     (let k = b + length (w_seen w)
      in case w_socket w of
           None \<Rightarrow> l_lastSeq (w_client w) = Some k
         | Some q \<Rightarrow> (\<exists>h \<ge> k. h \<le> length evs \<and> q = Ready h # map EventMessage (drop k evs) \<and> l_lastSeq (w_client w) = Some k) \<or>
             q = map EventMessage (drop k evs) \<and> (\<exists>n. l_lastSeq (w_client w) = Some n \<and> k \<le> n \<and> n \<le> length evs))"

fun publications :: "live_move list \<Rightarrow> publication list" where
  "publications [] = []"
| "publications (Publish ps # ms) = ps @ publications ms"
| "publications (_ # ms) = publications ms"

definition published_after :: "nat \<Rightarrow> publication list \<Rightarrow> release_event list" where
  "published_after n ps = map2 event_of [Suc n..<Suc (n + length ps)] ps"

lemma published_after_Nil [simp]: "published_after n [] = []"
  by (simp add: published_after_def)

lemma length_published_after [simp]: "length (published_after n ps) = length ps"
  by (simp add: published_after_def del: upt_Suc)

lemma published_after_append: "published_after n (ps @ qs) = published_after n ps @ published_after (n + length ps) qs"
proof -
  have "[Suc n..<Suc (n + length (ps @ qs))] = [Suc n..<Suc (n + length ps)] @ [Suc (n + length ps)..<Suc (n + length ps + length qs)]"
    using upt_add_eq_append [of "Suc n" "Suc (n + length ps)" "length qs"] by (simp add: add.assoc del: upt_Suc)
  then show ?thesis by (simp add: published_after_def zip_append del: upt_Suc)
qed

lemma since_roundtrip: "n < 10 ^ 16 \<Longrightarrow> parseSince (Some (nat_to_dec n)) = Some n"
  using parse_dec [of "int n"]
  by (simp add: parseSince_def int_to_dec_def num_of_rat_def max_finite_def is_finite_def)

lemma nat_to_dec_nonempty [simp]: "nat_to_dec n \<noteq> []"
  by (simp add: nat_to_dec.simps [of n])

lemma stream_connect:
  assumes "case since of None \<Rightarrow> True | Some n \<Rightarrow> n < 10 ^ 16"
  shows "stream_route (Some ''websocket'') (map_option nat_to_dec since) st = Upgraded (subscribe_messages since st)"
  using assms since_roundtrip upgrade_websocket
  by (cases since) (simp_all add: stream_route_def subscribe_fetch parseSince_def del: split_on.simps)

lemma connect_messages:
  assumes h: "hub_history evs st" and n: "n \<le> length evs" and b: "\<not> beyond_buffer n (oldestSeq storageAsEventStore st)"
  shows "subscribe_messages (Some n) st = Ready (length evs) # map EventMessage (drop n evs)"
proof -
  have "oldestSeq storageAsEventStore st = (if evs = [] then 0 else length evs - EVENT_BUFFER_SIZE + 1)"
    using durable.head_oldest h by (simp add: hub_history_def)
  then have "\<not> evicted n evs" using b gap_iff [OF hub_history_numbered [OF h], of n] by simp
  then show ?thesis using subscribe_history(2) [OF h, of n] by simp
qed

lemma live_inv_base:
  assumes "live_inv b evs w"
  shows "hub_history evs (w_store w)" and "b + length (w_seen w) \<le> length evs"
    and "drop b evs = w_seen w @ drop (b + length (w_seen w)) evs"
proof -
  show "hub_history evs (w_store w)" "b + length (w_seen w) \<le> length evs" using assms by (simp_all add: live_inv_def)
  obtain zs where "drop b evs = w_seen w @ zs" using assms by (auto simp: live_inv_def prefix_def)
  then show "drop b evs = w_seen w @ drop (b + length (w_seen w)) evs"
    by (metis add.commute append_eq_conv_conj drop_drop)
qed

lemma live_inv_socket:
  assumes "live_inv b evs w" and "w_socket w = Some q" and "k = b + length (w_seen w)"
  shows "(\<exists>h \<ge> k. h \<le> length evs \<and> q = Ready h # map EventMessage (drop k evs) \<and> l_lastSeq (w_client w) = Some k) \<or>
    q = map EventMessage (drop k evs) \<and> (\<exists>n. l_lastSeq (w_client w) = Some n \<and> k \<le> n \<and> n \<le> length evs)"
  using assms(1) unfolding live_inv_def Let_def assms(2,3) option.case by blast

lemma live_inv_publish:
  assumes inv: "live_inv b evs w" and room: "length evs + length ps < 10 ^ 16"
  shows "live_inv b (evs @ published_after (length evs) ps) (live_step (Publish ps) w)"
proof -
  let ?k = "b + length (w_seen w)"
  obtain stored st where a: "append_all ps (w_store w) = (stored, st)" by (metis surj_pair)
  have h: "hub_history evs (w_store w)" by (rule live_inv_base(1) [OF inv])
  have st: "stored = published_after (length evs) ps" "hub_history (evs @ stored) st"
    using append_all_history [OF h room a] by (auto simp: published_after_def simp del: upt_Suc)
  have step: "live_step (Publish ps) w = w\<lparr>w_store := st, w_socket := map_option (\<lambda>q. q @ map EventMessage stored) (w_socket w)\<rparr>"
    using a by (simp add: hub_fetch_def)
  show ?thesis using inv st unfolding step live_inv_def Let_def
    by (cases "w_socket w") auto
qed

text \<open>Every kept step keeps the promise.\<close>

lemma live_inv_step:
  assumes inv: "live_inv b evs w" and kept: "kept_step m w"
  shows "live_inv b (evs @ published_after (length evs) (publications [m])) (live_step m w)"
proof -
  let ?k = "b + length (w_seen w)"
  note h = live_inv_base(1) [OF inv] and k = live_inv_base(2) [OF inv] and seen = live_inv_base(3) [OF inv]
  have big: "length evs < 10 ^ 16" using hub_history_numbered [OF h] by (simp add: numbered_def)
  have head: "currentSeq storageAsEventStore (w_store w) = length evs"
    using h durable.head_oldest(1) [of EVENT_BUFFER_SIZE evs] by (simp add: hub_history_def)
  show ?thesis
  proof (cases m)
    case (Publish ps)
    with kept have "length evs + length ps < 10 ^ 16" by (simp add: head)
    from live_inv_publish [OF inv this] Publish show ?thesis by simp
  next
    case Connect
    show ?thesis
    proof (cases "w_socket w")
      case None
      then have seq: "l_lastSeq (w_client w) = Some ?k" using inv by (simp add: live_inv_def Let_def)
      have "stream_route (Some ''websocket'') (connect_since (w_client w)) (w_store w) =
          Upgraded (Ready (length evs) # map EventMessage (drop ?k evs))"
        using stream_connect [of "Some ?k" "w_store w"] connect_messages [OF h k] kept seq big k Connect
        by (simp add: connect_since_def)
      then show ?thesis using inv None Connect seq k unfolding live_inv_def Let_def by simp
    qed (use inv Connect in simp)
  next
    case Deliver
    show ?thesis
    proof (cases "w_socket w")
      case (Some q)
      consider (none) "q = []" | (ready) h where "?k \<le> h" "h \<le> length evs" "q = Ready h # map EventMessage (drop ?k evs)"
        | (event) "q \<noteq> []" "q = map EventMessage (drop ?k evs)"
      proof -
        have "q = map EventMessage (drop ?k evs) \<or> (\<exists>h \<ge> ?k. h \<le> length evs \<and> q = Ready h # map EventMessage (drop ?k evs))"
          using live_inv_socket [OF inv Some refl] by blast
        then show thesis using none ready event by blast
      qed
      then show ?thesis
      proof cases
        case none
        then show ?thesis using inv Some Deliver by simp
      next
        case ready
        then show ?thesis using inv Some Deliver unfolding live_inv_def Let_def by auto
      next
        case event
        then have lt: "?k < length evs" by auto
        then have d: "drop ?k evs = evs ! ?k # drop (Suc ?k) evs" by (simp add: Cons_nth_drop_Suc)
        have s: "ev_seq (evs ! ?k) = Suc ?k" using numbered_nth [OF hub_history_numbered [OF h] lt] .
        have t: "prefix (w_seen w @ [evs ! ?k]) (drop b evs)"
          using seen d by (metis append_Cons append_Nil append.assoc prefixI)
        have "live_step Deliver w = w\<lparr>w_socket := Some (map EventMessage (drop (Suc ?k) evs)),
            w_client := liveReducer (w_client w) (WsEvent (Suc ?k) (fromStreamEvent (evs ! ?k))), w_seen := w_seen w @ [evs ! ?k]\<rparr>"
          using Some event(2) d s by simp
        then show ?thesis using inv lt t Deliver unfolding live_inv_def Let_def by simp
      qed
    qed (use inv Deliver in simp)
  next
    case Drop
    show ?thesis
    proof (cases "w_socket w")
      case (Some q)
      have "l_lastSeq (w_client w) = Some ?k"
      proof (cases "drop ?k evs")
        case Nil
        then have "length evs \<le> ?k" by simp
        then show ?thesis using live_inv_socket [OF inv Some refl] by auto
      next
        case (Cons e es)
        then have "?k < length evs" by (metis drop_eq_Nil leI list.distinct(1))
        moreover from this Cons have "e = evs ! ?k" by (metis Cons_nth_drop_Suc list.inject)
        ultimately have "ev_seq e = Suc ?k" using numbered_nth [OF hub_history_numbered [OF h]] by blast
        then show ?thesis using live_inv_socket [OF inv Some refl] Some Cons kept Drop by auto
      qed
      then show ?thesis using inv Some Drop unfolding live_inv_def Let_def by simp
    qed (use inv Drop in simp)
  next
    case (PollOnce items)
    then show ?thesis using inv unfolding live_inv_def Let_def by (cases "w_socket w") simp_all
  qed
qed

lemma publications_Cons: "publications (m # ms) = publications [m] @ publications ms"
  by (cases m) simp_all

lemma live_inv_run:
  assumes "live_inv b evs w" and "kept_run ms w"
  shows "live_inv b (evs @ published_after (length evs) (publications ms)) (live_run ms w)"
  using assms
proof (induction ms arbitrary: evs w)
  case Nil
  then show ?case by (simp add: live_run_def)
next
  case (Cons m ms)
  have "live_inv b (evs @ published_after (length evs) (publications [m])) (live_step m w)"
    using live_inv_step Cons.prems by simp
  from Cons.IH [OF this] Cons.prems(2) show ?case
    by (simp add: publications_Cons [of m ms] published_after_append live_run_def)
qed

lemma live_start_inv:
  assumes "hub_history evs st"
  shows "live_inv (length evs) evs (live_start st)"
  using assms stream_connect [of None st] subscribe_history(1) [OF assms]
  by (simp add: live_start_def live_run_def connect_since_def INITIAL_LIVE_STATE_def live_inv_def)

text \<open>
  Without any condition on the drops: what was seen is in the order of publication and without repetition, since what is
  queued is always the end of the history and begins after the last event seen.
\<close>

definition pending :: "server_message list \<Rightarrow> release_event list" where
  "pending q = concat (map seen_of q)"

lemma pending_simps [simp]:
  "pending [] = []" "pending (m # q) = seen_of m @ pending q" "pending (q @ r) = pending q @ pending r"
  "pending (map EventMessage es) = es"
  by (induction es) (simp_all add: pending_def)

definition order_inv :: "nat \<Rightarrow> release_event list \<Rightarrow> live_world \<Rightarrow> nat \<Rightarrow> bool" where
  "order_inv b evs w m \<longleftrightarrow> hub_history evs (w_store w) \<and> b \<le> m \<and> m \<le> length evs \<and>
     subseq (w_seen w) (drop b (take m evs)) \<and>
     (\<forall>n. l_lastSeq (w_client w) = Some n \<longrightarrow> m \<le> n \<and> n \<le> length evs) \<and>
     (\<forall>q. w_socket w = Some q \<longrightarrow> (\<exists>j. m \<le> j \<and> j \<le> length evs \<and> pending q = drop j evs) \<and>
        (\<forall>h. Ready h \<in> set q \<longrightarrow> m \<le> h \<and> h \<le> length evs) \<and> (\<forall>h. Ready h \<notin> set (tl q)))"

lemma order_inv_publish:
  assumes inv: "order_inv b evs w m" and room: "length evs + length ps < 10 ^ 16"
  shows "order_inv b (evs @ published_after (length evs) ps) (live_step (Publish ps) w) m"
proof -
  obtain stored st where a: "append_all ps (w_store w) = (stored, st)" by (metis surj_pair)
  have h: "hub_history evs (w_store w)" using inv by (simp add: order_inv_def)
  have st: "stored = published_after (length evs) ps" "hub_history (evs @ stored) st"
    using append_all_history [OF h room a] by (auto simp: published_after_def simp del: upt_Suc)
  have step: "live_step (Publish ps) w = w\<lparr>w_store := st, w_socket := map_option (\<lambda>q. q @ map EventMessage stored) (w_socket w)\<rparr>"
    using a by (simp add: hub_fetch_def)
  have tl: "Ready h \<in> set (tl (q @ map EventMessage stored)) \<Longrightarrow> Ready h \<in> set (tl q)" for h q
    by (cases q) (auto simp flip: map_tl)
  have seen: "drop b (take m (evs @ stored)) = drop b (take m evs)" using inv by (simp add: order_inv_def)
  have room': "h \<le> length evs \<Longrightarrow> h \<le> length (evs @ stored)" for h by simp
  show ?thesis
  proof (cases "w_socket w")
    case None
    then show ?thesis using inv st(2) room' unfolding step order_inv_def st(1) [symmetric] seen by fastforce
  next
    case (Some q)
    obtain j where j: "m \<le> j" "j \<le> length evs" "pending q = drop j evs" using inv Some by (auto simp: order_inv_def)
    then have "pending (q @ map EventMessage stored) = drop j (evs @ stored)" by simp
    moreover have "Ready h \<in> set (q @ map EventMessage stored) \<Longrightarrow> m \<le> h \<and> h \<le> length evs" for h
      using inv Some by (auto simp: order_inv_def)
    moreover have "Ready h \<notin> set (tl (q @ map EventMessage stored))" for h
      using tl [of h q] inv Some by (auto simp: order_inv_def)
    ultimately show ?thesis
      using inv st(2) j(1,2) Some room' unfolding step order_inv_def st(1) [symmetric] seen
      by (simp del: set_append pending_simps(3))
        (intro conjI allI impI exI [of _ j]; fastforce simp del: set_append)
  qed
qed

lemma order_inv_connect:
  assumes inv: "order_inv b evs w m" and none: "w_socket w = None"
  shows "order_inv b evs (live_step Connect w) m"
proof -
  have h: "hub_history evs (w_store w)" and m: "m \<le> length evs" using inv by (simp_all add: order_inv_def)
  have big: "length evs < 10 ^ 16" using hub_history_numbered [OF h] by (simp add: numbered_def)
  have seq: "case l_lastSeq (w_client w) of None \<Rightarrow> True | Some n \<Rightarrow> m \<le> n \<and> n \<le> length evs"
    using inv by (simp add: order_inv_def split: option.split)
  define q where "q = subscribe_messages (l_lastSeq (w_client w)) (w_store w)"
  have "case l_lastSeq (w_client w) of None \<Rightarrow> True | Some n \<Rightarrow> n < 10 ^ 16"
    using seq big by (auto split: option.split)
  from stream_connect [OF this, of "w_store w"]
  have step: "live_step Connect w = w\<lparr>w_socket := Some q\<rparr>"
    using none by (simp add: connect_since_def q_def)
  obtain rest where q: "q = Ready (length evs) # rest" "\<forall>h. Ready h \<notin> set rest"
    "\<exists>j \<ge> m. j \<le> length evs \<and> pending rest = drop j evs"
  proof (cases "l_lastSeq (w_client w)")
    case None
    then show thesis using that [of "[]"] m subscribe_history(1) [OF h] by (auto simp: q_def)
  next
    case (Some n)
    show thesis
    proof (cases "evicted n evs")
      case True
      with Some show thesis
        using that [of "[SnapshotGap n (length evs - EVENT_BUFFER_SIZE + 1)]"] m subscribe_history(2) [OF h, of n]
        by (auto simp: q_def)
    next
      case False
      with Some show thesis
        using that [of "map EventMessage (drop n evs)"] seq subscribe_history(2) [OF h, of n] by (auto simp: q_def)
    qed
  qed
  then show ?thesis using inv m unfolding step order_inv_def by auto
qed

lemma order_inv_deliver:
  assumes inv: "order_inv b evs w m" and sock: "w_socket w = Some (msg # q)"
  shows "\<exists>m'. order_inv b evs (live_step Deliver w) m'"
proof -
  have h: "hub_history evs (w_store w)" using inv by (simp add: order_inv_def)
  have q: "\<forall>h. Ready h \<notin> set q" "\<forall>h. Ready h \<in> set (tl q) \<longrightarrow> False"
    using inv sock by (cases q; simp add: order_inv_def)+
  obtain j where j: "m \<le> j" "j \<le> length evs" "pending (msg # q) = drop j evs"
    using inv sock by (auto simp: order_inv_def)
  show ?thesis
  proof (cases msg)
    case (EventMessage e)
    then have lt: "j < length evs" using j by (metis append_Cons drop_all list.distinct(1) not_le pending_simps(2) seen_of.simps(1))
    then have d: "drop j evs = evs ! j # drop (Suc j) evs" by (simp add: Cons_nth_drop_Suc)
    then have e: "e = evs ! j" "pending q = drop (Suc j) evs" using j EventMessage by auto
    have s: "ev_seq e = Suc j" using numbered_nth [OF hub_history_numbered [OF h] lt] e by simp
    have b: "b \<le> m" "subseq (w_seen w) (drop b (take m evs))" using inv by (simp_all add: order_inv_def)
    have "take (Suc j) evs = take m evs @ slice evs m j @ [evs ! j]"
      using j lt by (simp add: take_Suc_conv_app_nth slice_def flip: take_add)
    then have "drop b (take (Suc j) evs) = drop b (take m evs) @ slice evs m j @ [evs ! j]"
      using b(1) j by simp
    then have "subseq (w_seen w @ [e]) (drop b (take (Suc j) evs))"
      using list_emb_append_mono [OF b(2), of "[e]" "slice evs m j @ [evs ! j]"]
        list_emb_append2 [of "(=)" "[e]" "[evs ! j]" "slice evs m j"] e(1) by simp
    then have "order_inv b evs (live_step Deliver w) (Suc j)"
      using h lt b(1) j(1) sock EventMessage q e(2) s by (auto simp: order_inv_def Suc_le_eq intro!: exI [of _ "Suc j"])
    then show ?thesis by blast
  next
    case (Ready n)
    then have "order_inv b evs (live_step Deliver w) m"
      using inv sock q j by (auto simp: order_inv_def)
    then show ?thesis by blast
  next
    case (SnapshotGap since oldest)
    then have "order_inv b evs (live_step Deliver w) m"
      using inv sock q j by (auto simp: order_inv_def)
    then show ?thesis by blast
  qed
qed

lemma order_inv_step:
  assumes inv: "order_inv b evs w m" and room: "length evs + length (publications [mv]) < 10 ^ 16"
  shows "\<exists>m'. order_inv b (evs @ published_after (length evs) (publications [mv])) (live_step mv w) m'"
proof (cases mv)
  case (Publish ps)
  then show ?thesis using order_inv_publish [OF inv] room by auto
next
  case Connect
  then show ?thesis using order_inv_connect [OF inv] inv by (cases "w_socket w") auto
next
  case Deliver
  show ?thesis
  proof (cases "w_socket w")
    case (Some q)
    then show ?thesis using order_inv_deliver [OF inv] inv Deliver by (cases q) auto
  qed (use inv Deliver in auto)
next
  case Drop
  then have "order_inv b evs (live_step mv w) m" using inv by (auto simp: order_inv_def)
  with Drop show ?thesis by auto
next
  case (PollOnce items)
  then have "order_inv b evs (live_step mv w) m" using inv by (simp add: order_inv_def)
  with PollOnce show ?thesis by auto
qed

lemma order_inv_run:
  assumes "order_inv b evs w m" and "length evs + length (publications ms) < 10 ^ 16"
  shows "\<exists>m'. order_inv b (evs @ published_after (length evs) (publications ms)) (live_run ms w) m'"
  using assms
proof (induction ms arbitrary: evs w m)
  case Nil
  then show ?case by (auto simp: live_run_def)
next
  case (Cons mv ms)
  have len: "length (publications (mv # ms)) = length (publications [mv]) + length (publications ms)"
    by (simp add: publications_Cons [of mv ms])
  obtain m' where "order_inv b (evs @ published_after (length evs) (publications [mv])) (live_step mv w) m'"
    using order_inv_step Cons.prems len by (metis (no_types) add_lessD1 add.assoc)
  from Cons.IH [OF this] Cons.prems(2) len show ?case
    by (simp add: publications_Cons [of mv ms] published_after_append live_run_def add.assoc)
qed

lemma live_start_order:
  assumes "hub_history evs st"
  shows "order_inv (length evs) evs (live_start st) (length evs)"
  using assms stream_connect [of None st] subscribe_history(1) [OF assms]
  by (auto simp: live_start_def live_run_def connect_since_def INITIAL_LIVE_STATE_def order_inv_def)

text \<open>C4: Over any run of publications, connections, deliveries, drops and polls, what the client handles are events
  published since it first connected, in their order and none twice.  None is missing either, and all have been handled
  once the queue is empty, when the run keeps two conditions: the connection does not drop between \<open>ready\<close> and the
  first event it replays, and reconnects while its cursor is within the buffer.  (\<open>drop_after_ready_loses\<close> shows the
  first condition is needed.)
\<close>

theorem stream_no_loss:
  assumes "hub_reached evs st" and "length evs + length (publications moves) < 10 ^ 16"
  shows "subseq (w_seen (live_run moves (live_start st))) (published_after (length evs) (publications moves)) \<and>
   (kept_run moves (live_start st) \<longrightarrow>
    prefix (w_seen (live_run moves (live_start st))) (published_after (length evs) (publications moves)) \<and>
    (w_socket (live_run moves (live_start st)) = Some [] \<longrightarrow>
       w_seen (live_run moves (live_start st)) = published_after (length evs) (publications moves)) \<and>
    (w_socket (live_run moves (live_start st)) = None \<longrightarrow> l_lastSeq (w_client (live_run moves (live_start st))) =
       Some (length evs + length (w_seen (live_run moves (live_start st))))))"
proof (intro conjI impI)
  let ?w = "live_run moves (live_start st)" and ?new = "published_after (length evs) (publications moves)"
  note h = hub_reached_history [OF assms(1)]
  obtain m where o: "order_inv (length evs) (evs @ ?new) ?w m"
    using order_inv_run [OF live_start_order [OF h] assms(2)] by blast
  then have "subseq (w_seen ?w) (drop (length evs) (take m (evs @ ?new)))" "length evs \<le> m"
    unfolding order_inv_def by blast+
  then have "subseq (w_seen ?w) (take (m - length evs) ?new)" by (simp add: min_absorb1)
  moreover have "subseq (take (m - length evs) ?new) ?new" by (rule prefix_imp_subseq [OF take_is_prefix])
  ultimately show "subseq (w_seen ?w) ?new" by (rule subseq_order.order_trans)
  assume kept: "kept_run moves (live_start st)"
  have inv: "live_inv (length evs) (evs @ ?new) ?w"
    by (rule live_inv_run [OF live_start_inv [OF h] kept])
  then have s: "?new = w_seen ?w @ drop (length (w_seen ?w)) ?new" using live_inv_base(3) [OF inv] by simp
  then show "prefix (w_seen ?w) ?new" by (metis prefixI)
  show "w_seen ?w = ?new" if "w_socket ?w = Some []"
  proof -
    have "drop (length (w_seen ?w)) ?new = []" using live_inv_socket [OF inv that refl] by simp
    with s show ?thesis by simp
  qed
  show "l_lastSeq (w_client ?w) = Some (length evs + length (w_seen ?w))" if "w_socket ?w = None"
    using inv that by (simp add: live_inv_def Let_def)
qed

text \<open>A connection that drops after \<open>ready\<close> and before the first event it replays loses every event in between: the
  client has already taken the head as its cursor, so the next connection replays nothing and announces no gap.
\<close>

theorem drop_after_ready_loses:
  assumes "hub_history evs (w_store w)" and "w_socket w = None" and "l_lastSeq (w_client w) = Some n"
    and "n < length evs" and "\<not> evicted n evs" and "w' = live_run [Connect, Deliver, Drop, Connect, Deliver] w"
  shows "w_socket w' = Some [] \<and> w_seen w' = w_seen w \<and> l_releases (w_client w') = l_releases (w_client w) \<and>
    l_lastSeq (w_client w') = Some (length evs)"
proof -
  have big: "length evs < 10 ^ 16" using hub_history_numbered [OF assms(1)] by (simp add: numbered_def)
  have first: "stream_route (Some ''websocket'') (Some (nat_to_dec n)) (w_store w) = Upgraded (Ready (length evs) # map EventMessage (drop n evs))"
    using stream_connect [of "Some n" "w_store w"] subscribe_history(2) [OF assms(1), of n] assms(4,5) big by simp
  have "\<not> evicted (length evs) evs"
    using numbered_bound [OF hub_history_numbered [OF assms(1)]] by (fastforce simp: evicted_def dest: in_set_takeD)
  then have "stream_route (Some ''websocket'') (Some (nat_to_dec (length evs))) (w_store w) = Upgraded [Ready (length evs)]"
    using stream_connect [of "Some (length evs)" "w_store w"] subscribe_history(2) [OF assms(1), of "length evs"] big by simp
  with first show ?thesis using assms(2,3,6) by (simp add: live_run_def connect_since_def)
qed

subsection \<open>The page\<close>

definition page_ok :: "live_state \<Rightarrow> bool" where
  "page_ok st \<longleftrightarrow> distinct (map lr_id (l_releases st)) \<and> length (l_releases st) \<le> LIVE_MAX_ITEMS"

lemma mergeReleases_ok:
  assumes "distinct (map lr_id xs)" and "length xs \<le> LIVE_MAX_ITEMS" and "distinct (map lr_id ys)"
  shows "distinct (map lr_id (mergeReleases xs ys))" and "length (mergeReleases xs ys) \<le> LIVE_MAX_ITEMS"
proof -
  let ?f = "filter (\<lambda>r. lr_id r \<notin> set (map lr_id xs)) ys"
  have "distinct (map lr_id (?f @ xs))" using assms(1,3) by (auto simp: distinct_map_filter)
  then have "distinct (map lr_id (slice (?f @ xs) 0 LIVE_MAX_ITEMS))"
    by (simp add: slice_def take_map [symmetric] del: map_append take_append)
  then show "distinct (map lr_id (mergeReleases xs ys))" using assms(1) by (simp add: mergeReleases_def Let_def)
  show "length (mergeReleases xs ys) \<le> LIVE_MAX_ITEMS" using assms(2) by (auto simp: mergeReleases_def Let_def slice_def min_def)
qed

lemma mergeReleases_shows: "lr_id r \<in> lr_id ` set (mergeReleases xs [r])"
  by (auto simp: mergeReleases_def slice_def LIVE_MAX_ITEMS_def Let_def numeral_eq_Suc)

lemma page_ok_reducer:
  assumes "page_ok st" and "\<And>rs. a = RestBatch rs \<Longrightarrow> distinct (map lr_id rs)"
  shows "page_ok (liveReducer st a)"
  using assms mergeReleases_ok by (cases a) (simp_all add: page_ok_def)

lemma fromLatestItem_id [simp]: "lr_id (fromLatestItem i) = li_id i"
  by (simp add: fromLatestItem_def)

lemma page_ok_step:
  assumes "page_ok (w_client w)" and "\<And>items. m = PollOnce items \<Longrightarrow> distinct (map li_id items)"
  shows "page_ok (w_client (live_step m w))"
proof (cases m)
  case (Publish ps)
  then show ?thesis using assms(1) by (simp split: prod.split hub_response.split)
next
  case Connect
  then show ?thesis using assms(1) by (auto simp: page_ok_def split: hub_response.split)
next
  case Deliver
  have "page_ok (liveReducer (w_client w) (message_action x))" for x
    by (rule page_ok_reducer [OF assms(1)]) (cases x, simp_all)
  then show ?thesis using assms(1) Deliver by (simp split: option.split list.split)
next
  case Drop
  then show ?thesis using assms(1) by (simp add: page_ok_def)
next
  case (PollOnce items)
  then show ?thesis using assms page_ok_reducer [OF assms(1), of "RestBatch (map fromLatestItem items)"] by (simp add: comp_def)
qed

subsection \<open>Concrete runs\<close>

definition three_events :: "release_event list" where
  "three_events = published_after 0 three_releases"

lemma three_publish: "\<exists>st. append_all three_releases [] = (three_events, st) \<and> hub_history three_events st"
proof -
  obtain stored st where a: "append_all three_releases [] = (stored, st)" by (metis surj_pair)
  from append_all_history [OF hub_history_empty _ a] have "stored = three_events" "hub_history stored st"
    by (auto simp: three_events_def published_after_def three_releases_def)
  with a show ?thesis by blast
qed

lemma three_events_eq:
  "three_events = [event_of 1 (three_releases ! 0), event_of 2 (three_releases ! 1), event_of 3 (three_releases ! 2)]"
  by (simp add: three_events_def published_after_def three_releases_def upt_rec eval_nat_numeral)

lemma three_seqs [simp]: "ev_seq (event_of n p) = n" by (simp add: event_of_def split: prod.split)

lemma three_resume:
  assumes "hub_history three_events st"
  shows "stream_route (Some ''websocket'') (Some (nat_to_dec 1)) st =
    Upgraded [Ready 3, EventMessage (event_of 2 (three_releases ! 1)), EventMessage (event_of 3 (three_releases ! 2))]"
  using stream_connect [of "Some 1" st] subscribe_history(2) [OF assms, of 1]
  by (simp add: three_events_eq evicted_def EVENT_BUFFER_SIZE_def)

lemma empty_connect: "stream_route (Some ''websocket'') None [] = Upgraded [Ready 0]"
  using stream_connect [of None "[]"] subscribe_history(1) [OF hub_history_empty] by simp

theorem stream_no_loss_witness:
  "w_seen (live_run [Publish three_releases, Deliver, Drop, Connect, Deliver, Deliver, Deliver] (live_start [])) = three_events"
proof -
  obtain st where st: "append_all three_releases [] = (three_events, st)" "hub_history three_events st"
    using three_publish by blast
  let ?moves = "[Publish three_releases, Deliver, Drop, Connect, Deliver, Deliver, Deliver]"
  have o: "\<not> beyond_buffer 1 (oldestSeq storageAsEventStore st)"
    using durable.head_oldest(2) [of EVENT_BUFFER_SIZE three_events st] st(2)
    by (simp add: hub_history_def beyond_buffer_def three_events_eq EVENT_BUFFER_SIZE_def)
  note facts = live_start_def live_run_def connect_since_def INITIAL_LIVE_STATE_def empty_connect hub_fetch_def st(1) three_events_eq
  have k: "kept_run ?moves (live_start [])"
    using three_resume [OF st(2)] o
    by (simp add: facts currentSeq_def storageAsEventStore_def three_releases_def [THEN arg_cong [of _ _ length]])
  have "w_socket (live_run ?moves (live_start [])) = Some []"
    using three_resume [OF st(2)] by (simp add: facts)
  with stream_no_loss [OF hub_new, of ?moves] k show ?thesis
    by (simp add: three_events_def three_releases_def [THEN arg_cong [of _ _ length]])
qed

theorem drop_after_ready_loses_witness:
  "\<exists>w. l_lastSeq (w_client w) = Some 1 \<and> hub_history three_events (w_store w) \<and>
     l_lastSeq (w_client (live_run [Connect, Deliver, Drop, Connect, Deliver] w)) = Some 3 \<and>
     w_seen (live_run [Connect, Deliver, Drop, Connect, Deliver] w) = []"
proof -
  obtain st where st: "hub_history three_events st" using three_publish by blast
  let ?w = "\<lparr>w_store = st, w_client = INITIAL_LIVE_STATE\<lparr>l_lastSeq := Some 1\<rparr>, w_socket = None, w_seen = []\<rparr>"
  have "\<not> evicted 1 three_events" by (simp add: evicted_def three_events_eq EVENT_BUFFER_SIZE_def)
  with drop_after_ready_loses [of three_events ?w 1, OF _ _ _ _ _ refl] st show ?thesis
    by (intro exI [of _ ?w]) (simp add: three_events_eq)
qed

end
