(* ===== verification/StatusHub.thy ===== *)
theory StatusHub
  imports UpdateDispatch EventBuffer
begin

section \<open>The status hub\<close>

text \<open>
  \<open>apps/api/src/status-hub.ts\<close>, the Durable Object that shows what every run is doing: its rows are written by the
  events of the runs, swept by the readers (a session silent for a quarter of an hour is shown as failed), cancelled and
  dismissed by the operator and deleted by a daily alarm.  One request runs at a time.  What it broadcasts to the
  sockets is output and left out, but opening one sweeps like a listing.
\<close>

subsection \<open>Sessions\<close>

definition STALE_SESSION_MS :: int where "STALE_SESSION_MS = 15 * 60 * 1000"
definition STALE_TIMEOUT_ERROR :: string where "STALE_TIMEOUT_ERROR = ''Session timed out (no updates received)''"
definition RETENTION_MS :: int where "RETENTION_MS = 30 * 24 * 60 * 60 * 1000"
definition CLEANUP_INTERVAL_MS :: int where "CLEANUP_INTERVAL_MS = 24 * 60 * 60 * 1000"
definition STDOUT_MAX_LINES :: nat where "STDOUT_MAX_LINES = 1000"
definition LOG_MAX_LINES :: nat where "LOG_MAX_LINES = 500"

datatype session_status = SRunning | SComplete | SError | SCancelled
datatype session_type = OnboardSession | UpdateSession
datatype session_agent = Sonnet | Haiku | Coordinator | Deterministic

record session_state =
  ss_id :: string
  ss_company :: string
  ss_org :: "string option"
  ss_type :: session_type
  ss_agent :: "session_agent option"
  ss_runner :: "string option"
  ss_correlation :: "string option"
  ss_anthropic :: "string option"
  ss_status :: session_status
  ss_step :: "string option"
  ss_sources_found :: "nat option"
  ss_sources_validated :: "nat option"
  ss_total_sources :: "nat option"
  ss_sources_fetched :: "nat option"
  ss_releases_found :: "nat option"
  ss_releases_inserted :: "nat option"
  ss_action :: "string option"
  ss_started :: int
  ss_updated :: int
  ss_error :: "string option"
  ss_error_source :: "string option"
  ss_error_type :: "string option"
  ss_stop_reason :: "string option"
  ss_retries :: "nat option"
  ss_warnings :: "string list option"
  ss_usage :: "jvalue option"
  ss_dismissed :: bool
  ss_active :: "string list option"
  ss_cancel :: bool
  ss_result :: "jvalue option"

definition isTerminalSession :: "session_status \<Rightarrow> bool" where
  "isTerminalSession status \<longleftrightarrow> status \<in> {SComplete, SError, SCancelled}"

definition isSweepTimeout :: "session_state \<Rightarrow> bool" where
  "isSweepTimeout s \<longleftrightarrow> ss_status s = SError \<and> ss_error s = Some STALE_TIMEOUT_ERROR \<and> ss_error_source s = Some ''us''"

definition blocksLateTerminal :: "session_state \<Rightarrow> session_status \<Rightarrow> bool" where
  "blocksLateTerminal s incoming \<longleftrightarrow>
     (if \<not> isTerminalSession (ss_status s) then False
      else if isSweepTimeout s \<and> (incoming = SComplete \<or> incoming = SCancelled) then False
      else True)"

subsection \<open>The events\<close>

record start_event =
  se_id :: string
  se_company :: string
  se_org :: "string option"
  se_type :: "session_type option"
  se_agent :: "session_agent option"
  se_runner :: "string option"
  se_correlation :: "string option"
  se_anthropic :: "string option"
  se_active :: "string list option"

record progress_event =
  pe_step :: "string option"
  pe_sources_found :: "nat option"
  pe_sources_validated :: "nat option"
  pe_action :: "string option"
  pe_total_sources :: "nat option"
  pe_sources_fetched :: "nat option"
  pe_releases_found :: "nat option"
  pe_releases_inserted :: "nat option"
  pe_active :: "string list option"
  pe_anthropic :: "string option"
  pe_warning :: "string option"
  pe_log_line :: "string option"

record error_event =
  ee_company :: "string option"
  ee_type :: "session_type option"
  ee_error :: "string option"
  ee_source :: "string option"
  ee_error_type :: "string option"
  ee_stop_reason :: "string option"
  ee_retries :: "nat option"
  ee_usage :: "jvalue option"

text \<open>An event, with its \<open>sessionId\<close>; the hub only broadcasts the others.\<close>

datatype status_event =
    EvStart start_event
  | EvProgress string progress_event
  | EvComplete string "jvalue option" "jvalue option" "string list option"
  | EvCancelled string
  | EvStdout string bool string
  | EvError string error_event
  | EvOther "string option"

text \<open>\<open>x && typeof x === "object"\<close>.\<close>

fun json_object :: "jvalue option \<Rightarrow> bool" where
  "json_object (Some (VObj _)) = True"
| "json_object (Some (VArr _)) = True"
| "json_object _ = False"

definition newer :: "'a option \<Rightarrow> 'a option \<Rightarrow> 'a option" where
  "newer sent old = (case sent of None \<Rightarrow> old | Some _ \<Rightarrow> sent)"

definition started_session :: "int \<Rightarrow> start_event \<Rightarrow> session_state" where
  "started_session now e =
     \<lparr>ss_id = se_id e, ss_company = se_company e, ss_org = se_org e,
      ss_type = (case se_type e of None \<Rightarrow> OnboardSession | Some t \<Rightarrow> t), ss_agent = se_agent e, ss_runner = se_runner e,
      ss_correlation = se_correlation e, ss_anthropic = se_anthropic e, ss_status = SRunning, ss_step = None,
      ss_sources_found = None, ss_sources_validated = None, ss_total_sources = None, ss_sources_fetched = None,
      ss_releases_found = None, ss_releases_inserted = None, ss_action = None, ss_started = now, ss_updated = now,
      ss_error = None, ss_error_source = None, ss_error_type = None, ss_stop_reason = None, ss_retries = None,
      ss_warnings = None, ss_usage = None, ss_dismissed = False,
      ss_active = Some (case se_active e of None \<Rightarrow> [] | Some xs \<Rightarrow> xs), ss_cancel = False, ss_result = None\<rparr>"

definition progressed_session :: "int \<Rightarrow> progress_event \<Rightarrow> session_state \<Rightarrow> session_state" where
  "progressed_session now e s =
     s\<lparr>ss_step := newer (pe_step e) (ss_step s),
       ss_sources_found := newer (pe_sources_found e) (ss_sources_found s),
       ss_sources_validated := newer (pe_sources_validated e) (ss_sources_validated s),
       ss_action := newer (pe_action e) (ss_action s),
       ss_total_sources := newer (pe_total_sources e) (ss_total_sources s),
       ss_sources_fetched := newer (pe_sources_fetched e) (ss_sources_fetched s),
       ss_releases_found := newer (pe_releases_found e) (ss_releases_found s),
       ss_releases_inserted := newer (pe_releases_inserted e) (ss_releases_inserted s),
       ss_active := newer (pe_active e) (ss_active s),
       ss_anthropic := newer (pe_anthropic e) (ss_anthropic s),
       ss_warnings := (case pe_warning e of None \<Rightarrow> ss_warnings s
         | Some w \<Rightarrow> Some ((case ss_warnings s of None \<Rightarrow> [] | Some ws \<Rightarrow> ws) @ [w])),
       ss_updated := now\<rparr>"

definition completed_session :: "int \<Rightarrow> jvalue option \<Rightarrow> jvalue option \<Rightarrow> string list option \<Rightarrow> session_state \<Rightarrow> session_state" where
  "completed_session now result usage warnings s =
     (if blocksLateTerminal s SComplete then s
      else s\<lparr>ss_status := SComplete, ss_error := None, ss_error_source := None, ss_active := Some [], ss_updated := now,
        ss_result := (if json_object result then result else ss_result s),
        ss_usage := (if json_object usage then usage else ss_usage s),
        ss_warnings := (case warnings of None \<Rightarrow> ss_warnings s | Some [] \<Rightarrow> ss_warnings s
          | Some ws \<Rightarrow> Some ((case ss_warnings s of None \<Rightarrow> [] | Some old \<Rightarrow> old) @ ws))\<rparr>)"

definition cancelled_session :: "int \<Rightarrow> session_state \<Rightarrow> session_state" where
  "cancelled_session now s =
     (if blocksLateTerminal s SCancelled then s
      else s\<lparr>ss_status := SCancelled, ss_error := None, ss_error_source := None, ss_active := Some [], ss_updated := now\<rparr>)"

text \<open>A part of a classification that is missing or empty leaves what the row has.\<close>

definition classified :: "error_event \<Rightarrow> session_state \<Rightarrow> session_state" where
  "classified e s =
     s\<lparr>ss_error_source := newer (present_text (ee_source e)) (ss_error_source s),
       ss_error_type := newer (present_text (ee_error_type e)) (ss_error_type s),
       ss_stop_reason := newer (present_text (ee_stop_reason e)) (ss_stop_reason s),
       ss_retries := newer (ee_retries e) (ss_retries s)\<rparr>"

definition failed_session :: "int \<Rightarrow> error_event \<Rightarrow> session_state \<Rightarrow> session_state" where
  "failed_session now e s =
     (if isTerminalSession (ss_status s) then s
      else (classified e (s\<lparr>ss_status := SError, ss_error := ee_error e\<rparr>))
        \<lparr>ss_updated := now, ss_usage := (if json_object (ee_usage e) then ee_usage e else ss_usage s)\<rparr>)"

definition ghost_session :: "int \<Rightarrow> string \<Rightarrow> error_event \<Rightarrow> session_state" where
  "ghost_session now sid e =
     classified e (started_session now
       \<lparr>se_id = sid, se_company = (case ee_company e of None \<Rightarrow> ''(unknown)'' | Some c \<Rightarrow> c), se_org = None,
        se_type = Some (case ee_type e of None \<Rightarrow> UpdateSession | Some t \<Rightarrow> t), se_agent = None, se_runner = None,
        se_correlation = None, se_anthropic = None, se_active = Some []\<rparr>)
       \<lparr>ss_status := SError, ss_error := ee_error e\<rparr>"

subsection \<open>The storage of the hub\<close>

datatype status_value = SessionValue session_state | LinesValue "string list"

record hub_state =
  hb_store :: "status_value kv"
  hb_alarm :: "int option"
  hb_buffer :: "(string \<times> string list) list"
  hb_timer :: bool

definition SESSION_PREFIX :: string where "SESSION_PREFIX = ''session:''"
definition session_key :: "string \<Rightarrow> string" where "session_key sid = SESSION_PREFIX @ sid"
definition logs_key :: "string \<Rightarrow> string" where "logs_key sid = ''logs:'' @ sid"
definition stdout_key :: "string \<Rightarrow> string" where "stdout_key sid = ''stdout:'' @ sid"

fun session_value :: "status_value option \<Rightarrow> session_state option" where
  "session_value (Some (SessionValue s)) = Some s"
| "session_value _ = None"

fun lines_value :: "status_value option \<Rightarrow> string list" where
  "lines_value (Some (LinesValue ls)) = ls"
| "lines_value _ = []"

definition get_session :: "string \<Rightarrow> status_value kv \<Rightarrow> session_state option" where
  "get_session sid st = session_value (map_of st (session_key sid))"

definition get_lines :: "string \<Rightarrow> status_value kv \<Rightarrow> string list" where
  "get_lines k st = lines_value (map_of st k)"

definition put_session :: "session_state \<Rightarrow> status_value kv \<Rightarrow> status_value kv" where
  "put_session s st = kv_put (session_key (ss_id s)) (SessionValue s) st"

definition stored_sessions :: "status_value kv \<Rightarrow> session_state list" where
  "stored_sessions st = List.map_filter (\<lambda>(_, v). session_value (Some v)) (kv_list SESSION_PREFIX None st)"

subsection \<open>The handler of events\<close>

definition keep_last :: "nat \<Rightarrow> 'a list \<Rightarrow> 'a list" where
  "keep_last n xs = (if n < length xs then drop (length xs - n) xs else xs)"

definition clock_text :: "int \<Rightarrow> string" where
  "clock_text now = Prelude.slice (iso_text now) 11 19"

definition ensure_alarm :: "int \<Rightarrow> hub_state \<Rightarrow> hub_state" where
  "ensure_alarm now hub = (if hb_alarm hub = None then hub\<lparr>hb_alarm := Some (now + CLEANUP_INTERVAL_MS)\<rparr> else hub)"

definition change_session :: "(session_state \<Rightarrow> session_state) \<Rightarrow> string \<Rightarrow> status_value kv \<Rightarrow> status_value kv" where
  "change_session f sid st = (case get_session sid st of None \<Rightarrow> st | Some s \<Rightarrow> put_session (f s) st)"

definition bufferStdoutLine :: "string \<Rightarrow> string \<Rightarrow> hub_state \<Rightarrow> hub_state" where
  "bufferStdoutLine sid line hub = hub\<lparr>hb_buffer := om_push sid line (hb_buffer hub), hb_timer := True\<rparr>"

definition merged_lines :: "string \<times> string list \<Rightarrow> status_value kv \<Rightarrow> status_value kv" where
  "merged_lines entry st =
     (case entry of (sid, lines) \<Rightarrow>
        kv_put (stdout_key sid) (LinesValue (keep_last STDOUT_MAX_LINES (get_lines (stdout_key sid) st @ lines))) st)"

definition flushStdout :: "hub_state \<Rightarrow> hub_state" where
  "flushStdout hub = hub\<lparr>hb_timer := False, hb_buffer := [], hb_store := fold merged_lines (hb_buffer hub) (hb_store hub)\<rparr>"

definition log_progress :: "int \<Rightarrow> string \<Rightarrow> progress_event \<Rightarrow> status_value kv \<Rightarrow> status_value kv" where
  "log_progress now sid e st =
     (let line = text_of (case pe_log_line e of None \<Rightarrow> pe_action e | Some l \<Rightarrow> Some l)
      in if line = [] then st
         else kv_put (logs_key sid) (LinesValue (keep_last LOG_MAX_LINES
                (get_lines (logs_key sid) st @ [clock_text now @ ''  '' @ line]))) st)"

fun handleEvent :: "int \<Rightarrow> status_event \<Rightarrow> hub_state \<Rightarrow> hub_state" where
  "handleEvent now (EvStart e) hub =
     ensure_alarm now (hub\<lparr>hb_store := put_session (started_session now e) (hb_store hub)\<rparr>)"
| "handleEvent now (EvProgress sid e) hub =
     hub\<lparr>hb_store := log_progress now sid e (change_session (progressed_session now e) sid (hb_store hub))\<rparr>"
| "handleEvent now (EvComplete sid result usage warnings) hub =
     hub\<lparr>hb_store := change_session (completed_session now result usage warnings) sid (hb_store hub)\<rparr>"
| "handleEvent now (EvCancelled sid) hub = hub\<lparr>hb_store := change_session (cancelled_session now) sid (hb_store hub)\<rparr>"
| "handleEvent now (EvStdout sid stderr line) hub =
     (if sid = [] then hub
      else bufferStdoutLine sid (clock_text now @ '' ['' @ (if stderr then ''ERR'' else ''OUT'') @ ''] '' @ line) hub)"
| "handleEvent now (EvError sid e) hub =
     (case get_session sid (hb_store hub) of
        Some s \<Rightarrow> hub\<lparr>hb_store := put_session (failed_session now e s) (hb_store hub)\<rparr>
      | None \<Rightarrow> ensure_alarm now (hub\<lparr>hb_store := put_session (ghost_session now sid e) (hb_store hub)\<rparr>))"
| "handleEvent now (EvOther sid) hub = hub"

fun event_session :: "status_event \<Rightarrow> string" where
  "event_session (EvStart e) = se_id e"
| "event_session (EvProgress sid _) = sid"
| "event_session (EvComplete sid _ _ _) = sid"
| "event_session (EvCancelled sid) = sid"
| "event_session (EvStdout sid _ _) = sid"
| "event_session (EvError sid _) = sid"
| "event_session (EvOther sid) = text_of sid"

text \<open>The answer to an event tells its sender whether its session should stop.\<close>

definition cancel_requested :: "status_event \<Rightarrow> hub_state \<Rightarrow> bool" where
  "cancel_requested e hub =
     (event_session e \<noteq> [] \<and>
      (case get_session (event_session e) (hb_store hub) of None \<Rightarrow> False | Some s \<Rightarrow> ss_cancel s))"

subsection \<open>The readers\<close>

definition last_update :: "session_state \<Rightarrow> int" where
  "last_update s = (if ss_updated s = 0 then ss_started s else ss_updated s)"

definition stale :: "int \<Rightarrow> session_state \<Rightarrow> bool" where
  "stale now s \<longleftrightarrow> ss_status s = SRunning \<and> STALE_SESSION_MS < now - last_update s"

definition swept :: "int \<Rightarrow> session_state \<Rightarrow> session_state" where
  "swept now s =
     (if stale now s then s\<lparr>ss_status := SError, ss_error := Some STALE_TIMEOUT_ERROR, ss_error_source := Some ''us'', ss_updated := now\<rparr>
      else s)"

definition sweep_one :: "int \<Rightarrow> session_state \<Rightarrow> status_value kv \<Rightarrow> status_value kv" where
  "sweep_one now s st = (if stale now s then put_session (swept now s) st else st)"

definition session_order :: "session_state \<Rightarrow> session_state \<Rightarrow> int" where
  "session_order a b =
     (if ss_status a = SRunning \<and> ss_status b \<noteq> SRunning then - 1
      else if ss_status b = SRunning \<and> ss_status a \<noteq> SRunning then 1
      else ss_started b - ss_started a)"

definition getSessions :: "int \<Rightarrow> status_value kv \<Rightarrow> session_state list \<times> status_value kv" where
  "getSessions now st =
     (let entries = stored_sessions st
      in (sort_by session_order (filter (\<lambda>s. \<not> ss_dismissed s) (map (swept now) entries)),
          fold (sweep_one now) entries st))"

record list_query =
  lq_status :: "string option"
  lq_type :: "string option"
  lq_recent :: "string option"
  lq_limit :: "string option"
  lq_page :: "string option"

fun status_text :: "session_status \<Rightarrow> string" where
  "status_text SRunning = ''running''"
| "status_text SComplete = ''complete''"
| "status_text SError = ''error''"
| "status_text SCancelled = ''cancelled''"

fun type_text :: "session_type \<Rightarrow> string" where
  "type_text OnboardSession = ''onboard''"
| "type_text UpdateSession = ''update''"

text \<open>The arithmetic of the window is exact here.\<close>

definition recent_filter :: "int \<Rightarrow> string option \<Rightarrow> session_state list \<Rightarrow> session_state list" where
  "recent_filter now raw ss =
     (if text_of raw = [] then ss
      else (case js_Number (text_of raw) of
          Fin m \<Rightarrow> (if 0 < m then filter (\<lambda>s. ss_status s = SRunning \<or> of_int now - m * 60 * 1000 \<le> of_int (ss_updated s)) ss else ss)
        | _ \<Rightarrow> ss))"

definition applySessionFilters :: "session_state list \<Rightarrow> list_query \<Rightarrow> int \<Rightarrow> session_state list" where
  "applySessionFilters sessions q now =
     (let out = (if text_of (lq_status q) = [] then sessions
                 else filter (\<lambda>s. status_text (ss_status s) = text_of (lq_status q)) sessions);
          out = (if text_of (lq_type q) = [] then out else filter (\<lambda>s. type_text (ss_type s) = text_of (lq_type q)) out)
      in recent_filter now (lq_recent q) out)"

text \<open>\<open>packages/queries/src/pagination.ts\<close>, \<open>apps/api/src/lib/pagination.ts\<close> and \<open>computePagination\<close>.\<close>

definition DEFAULT_PAGE_SIZE :: nat where "DEFAULT_PAGE_SIZE = 500"

record page_window =
  pw_page :: nat
  pw_size :: nat
  pw_offset :: nat

definition positiveInt :: "int option \<Rightarrow> nat option" where
  "positiveInt value =
     (case value of None \<Rightarrow> None | Some n \<Rightarrow> if is_finite (num_of_rat (of_int n)) \<and> 0 < n then Some (nat n) else None)"

definition resolvePageWindow :: "int option \<Rightarrow> int option \<Rightarrow> nat \<Rightarrow> nat \<Rightarrow> page_window" where
  "resolvePageWindow page limit defaultPageSize maxPageSize =
     (let dflt = min defaultPageSize maxPageSize;
          size = (case positiveInt limit of None \<Rightarrow> dflt | Some n \<Rightarrow> min n maxPageSize);
          p = (case positiveInt page of None \<Rightarrow> 1 | Some n \<Rightarrow> n)
      in \<lparr>pw_page = p, pw_size = size, pw_offset = (p - 1) * size\<rparr>)"

definition parseListPagination :: "string option \<Rightarrow> string option \<Rightarrow> page_window" where
  "parseListPagination limit page =
     resolvePageWindow (case page of None \<Rightarrow> None | Some s \<Rightarrow> js_parse_int s) (case limit of None \<Rightarrow> None | Some s \<Rightarrow> js_parse_int s)
       DEFAULT_PAGE_SIZE DEFAULT_PAGE_SIZE"

definition slicePage :: "'a list \<Rightarrow> page_window \<Rightarrow> 'a list" where
  "slicePage items w = Prelude.slice items (pw_offset w) (pw_offset w + pw_size w)"

record pagination =
  pg_page :: nat
  pg_size :: nat
  pg_returned :: nat
  pg_total_items :: nat
  pg_total_pages :: nat
  pg_has_more :: bool

definition computePagination :: "nat \<Rightarrow> nat \<Rightarrow> nat \<Rightarrow> nat \<Rightarrow> pagination" where
  "computePagination page pageSize returned totalItems =
     \<lparr>pg_page = page, pg_size = pageSize, pg_returned = returned, pg_total_items = totalItems,
      pg_total_pages = max 1 (nat \<lceil>of_nat totalItems / (of_nat pageSize :: rat)\<rceil>),
      pg_has_more = page * pageSize < totalItems\<rparr>"

definition buildSessionListResponse :: "session_state list \<Rightarrow> list_query \<Rightarrow> int \<Rightarrow> session_state list \<times> pagination" where
  "buildSessionListResponse sessions q now =
     (let filtered = applySessionFilters sessions q now;
          w = parseListPagination (lq_limit q) (lq_page q);
          items = slicePage filtered w
      in (items, computePagination (pw_page w) (pw_size w) (length items) (length filtered)))"

text \<open>The sources the running sessions are at work on, and the session of each.\<close>

definition active_sources :: "int \<Rightarrow> status_value kv \<Rightarrow> (string \<times> string) list" where
  "active_sources now st =
     fold (\<lambda>s m. fold (\<lambda>slug m. AList.update slug (ss_id s) m)
        (if ss_status s = SRunning \<and> now - last_update s \<le> STALE_SESSION_MS
         then (case ss_active s of None \<Rightarrow> [] | Some xs \<Rightarrow> xs) else []) m) (stored_sessions st) []"

subsection \<open>The requests and the alarm\<close>

datatype status_request =
    PostEvent status_event
  | WatchSessions
  | ListSessions list_query
  | GetLogs string
  | GetStdout string
  | CancelSession string
  | GetActive
  | GetOne string
  | DismissOne string
  | UnknownRequest

datatype status_response =
    EventTaken bool
  | Watching "session_state list"
  | SessionList "session_state list" pagination
  | Lines "string list"
  | NotRunning session_status
  | CancelTaken
  | ActiveList "(string \<times> string) list"
  | OneSession session_state
  | Dismissed
  | StatusNotFound

definition request_cancel :: "session_state \<Rightarrow> session_state" where
  "request_cancel s = s\<lparr>ss_cancel := True\<rparr>"

definition dismissed_session :: "session_state \<Rightarrow> session_state" where
  "dismissed_session s = s\<lparr>ss_dismissed := True\<rparr>"

fun status_fetch :: "int \<Rightarrow> status_request \<Rightarrow> hub_state \<Rightarrow> status_response \<times> hub_state" where
  "status_fetch now (PostEvent e) hub =
     (let hub1 = handleEvent now e hub in (EventTaken (cancel_requested e hub1), hub1))"
| "status_fetch now WatchSessions hub =
     (case getSessions now (hb_store hub) of (ss, st) \<Rightarrow> (Watching ss, hub\<lparr>hb_store := st\<rparr>))"
| "status_fetch now (ListSessions q) hub =
     (case getSessions now (hb_store hub) of (ss, st) \<Rightarrow>
        (case buildSessionListResponse ss q now of (items, pg) \<Rightarrow> (SessionList items pg, hub\<lparr>hb_store := st\<rparr>)))"
| "status_fetch now (GetLogs sid) hub = (Lines (get_lines (logs_key sid) (hb_store hub)), hub)"
| "status_fetch now (GetStdout sid) hub =
     (let hub1 = (if sid \<in> set (map fst (hb_buffer hub)) then flushStdout hub else hub)
      in (Lines (get_lines (stdout_key sid) (hb_store hub1)), hub1))"
| "status_fetch now (CancelSession sid) hub =
     (case get_session sid (hb_store hub) of
        None \<Rightarrow> (StatusNotFound, hub)
      | Some s \<Rightarrow> (if ss_status s \<noteq> SRunning then (NotRunning (ss_status s), hub)
                 else (CancelTaken, hub\<lparr>hb_store := put_session (request_cancel s) (hb_store hub)\<rparr>)))"
| "status_fetch now GetActive hub = (ActiveList (active_sources now (hb_store hub)), hub)"
| "status_fetch now (GetOne sid) hub =
     (case get_session sid (hb_store hub) of None \<Rightarrow> (StatusNotFound, hub) | Some s \<Rightarrow> (OneSession s, hub))"
| "status_fetch now (DismissOne sid) hub =
     (Dismissed, hub\<lparr>hb_store := change_session dismissed_session sid (hb_store hub)\<rparr>)"
| "status_fetch now UnknownRequest hub = (StatusNotFound, hub)"

text \<open>
  The retention alarm deletes what has expired in one call; the storage takes \<open>DELETE_KEYS\<close> keys in one, and the
  alarm throws beyond, before it schedules the next one.
\<close>

definition DELETE_KEYS :: nat where "DELETE_KEYS = 128"

definition expired :: "int \<Rightarrow> session_state \<Rightarrow> bool" where
  "expired now s \<longleftrightarrow> RETENTION_MS < now - last_update s \<and> ss_status s \<noteq> SRunning"

definition expired_keys :: "int \<Rightarrow> status_value kv \<Rightarrow> string list" where
  "expired_keys now st =
     concat (map (\<lambda>s. [session_key (ss_id s), logs_key (ss_id s), stdout_key (ss_id s)]) (filter (expired now) (stored_sessions st)))"

definition status_alarm :: "int \<Rightarrow> hub_state \<Rightarrow> hub_state option" where
  "status_alarm now hub =
     (let ks = expired_keys now (hb_store hub)
      in if DELETE_KEYS < length ks then None
         else Some (hub\<lparr>hb_store := (if ks = [] then hb_store hub else kv_delete ks (hb_store hub)),
                        hb_alarm := Some (now + CLEANUP_INTERVAL_MS)\<rparr>))"

text \<open>
  What happens to the hub, one thing at a time: a request, its alarm (cleared before the handler runs, and not set again
  when that throws), the timer of the buffer, or the loss of its memory.
\<close>

datatype hub_move = Request status_request | AlarmFires | TimerFires | Restarted

fun hub_step :: "int \<times> hub_move \<Rightarrow> hub_state \<Rightarrow> hub_state" where
  "hub_step (now, Request r) hub = snd (status_fetch now r hub)"
| "hub_step (now, AlarmFires) hub =
     (case status_alarm now hub of None \<Rightarrow> hub\<lparr>hb_alarm := None\<rparr> | Some hub1 \<Rightarrow> hub1)"
| "hub_step (now, TimerFires) hub = (if hb_timer hub then flushStdout hub else hub)"
| "hub_step (now, Restarted) hub = hub\<lparr>hb_buffer := [], hb_timer := False\<rparr>"

definition hub_run :: "(int \<times> hub_move) list \<Rightarrow> hub_state \<Rightarrow> hub_state" where
  "hub_run moves hub = fold hub_step moves hub"

definition new_hub :: hub_state where
  "new_hub = \<lparr>hb_store = [], hb_alarm = None, hb_buffer = [], hb_timer = False\<rparr>"

subsection \<open>Rows\<close>

text \<open>Every row lies under its own key, and only rows lie under the prefix of the rows.\<close>

definition store_ok :: "status_value kv \<Rightarrow> bool" where
  "store_ok st \<longleftrightarrow> kv_ok st \<and>
     (\<forall>k s. map_of st k = Some (SessionValue s) \<longrightarrow> k = session_key (ss_id s)) \<and>
     (\<forall>k ls. map_of st k = Some (LinesValue ls) \<longrightarrow> \<not> js_starts_with k SESSION_PREFIX)"

lemma key_simps [simp]:
  "session_key a = session_key b \<longleftrightarrow> a = b" "logs_key a = logs_key b \<longleftrightarrow> a = b" "stdout_key a = stdout_key b \<longleftrightarrow> a = b"
  "session_key a \<noteq> logs_key b" "session_key a \<noteq> stdout_key b" "logs_key a \<noteq> session_key b" "stdout_key a \<noteq> session_key b"
  "logs_key a \<noteq> stdout_key b" "stdout_key a \<noteq> logs_key b"
  "js_starts_with (session_key a) SESSION_PREFIX" "\<not> js_starts_with (logs_key a) SESSION_PREFIX" "\<not> js_starts_with (stdout_key a) SESSION_PREFIX"
  by (simp_all add: session_key_def logs_key_def stdout_key_def SESSION_PREFIX_def js_starts_with_def)

lemma store_ok_empty [simp]: "store_ok []"
  by (simp add: store_ok_def kv_ok_def)

lemma store_ok_put_session [simp]: "store_ok st \<Longrightarrow> store_ok (put_session s st)"
  by (auto simp: store_ok_def put_session_def kv_ok_put kv_get_put split: if_splits)

lemma store_ok_put_lines: "store_ok st \<Longrightarrow> \<not> js_starts_with k SESSION_PREFIX \<Longrightarrow> store_ok (kv_put k (LinesValue ls) st)"
  by (auto simp: store_ok_def kv_ok_put kv_get_put split: if_splits)

lemma store_ok_delete: "store_ok st \<Longrightarrow> store_ok (kv_delete ks st)"
  by (auto simp: store_ok_def kv_delete_def kv_ok_filter map_of_filter_key split: if_splits)

lemma store_kv_ok: "store_ok st \<Longrightarrow> kv_ok st"
  by (simp add: store_ok_def)

lemma get_put_session: "store_ok st \<Longrightarrow> get_session sid (put_session s st) = (if sid = ss_id s then Some s else get_session sid st)"
  by (simp add: get_session_def put_session_def kv_get_put store_kv_ok)

lemma get_put_lines:
  "store_ok st \<Longrightarrow> \<not> js_starts_with k SESSION_PREFIX \<Longrightarrow> get_session sid (kv_put k v st) = get_session sid st"
  by (auto simp: get_session_def kv_get_put store_kv_ok)

lemma get_session_id:
  assumes "store_ok st" and "get_session sid st = Some s"
  shows "ss_id s = sid"
proof -
  obtain v where v: "map_of st (session_key sid) = Some v" "session_value (Some v) = Some s"
    using assms(2) by (cases "map_of st (session_key sid)") (auto simp: get_session_def)
  then have "session_key sid = session_key (ss_id s)" using assms(1) by (cases v) (auto simp: store_ok_def)
  then show ?thesis by simp
qed

lemma listed_distinct: "store_ok st \<Longrightarrow> distinct (map fst (kv_list p a st))"
  using kv_ok_filter store_kv_ok unfolding kv_list_def kv_ok_def strict_sorted_iff by blast

lemma stored_sessions_set:
  assumes "store_ok st"
  shows "s \<in> set (stored_sessions st) \<longleftrightarrow> get_session (ss_id s) st = Some s"
proof -
  let ?l = "kv_list SESSION_PREFIX None st"
  have d: "distinct (map fst ?l)" by (rule listed_distinct [OF assms])
  have "s \<in> set (stored_sessions st) \<longleftrightarrow> (\<exists>k. (k, SessionValue s) \<in> set ?l)"
    by (auto simp: stored_sessions_def map_filter_def) (metis session_value.elims option.inject option.discI option.sel, force)
  also have "\<dots> \<longleftrightarrow> (\<exists>k. map_of ?l k = Some (SessionValue s))" using d by (simp add: map_of_eq_Some_iff)
  also have "\<dots> \<longleftrightarrow> get_session (ss_id s) st = Some s"
  proof
    assume "\<exists>k. map_of ?l k = Some (SessionValue s)"
    then obtain k where "map_of st k = Some (SessionValue s)" by (auto simp: kv_get_list split: if_splits)
    moreover from this have "k = session_key (ss_id s)" using assms by (simp add: store_ok_def)
    ultimately show "get_session (ss_id s) st = Some s" by (simp add: get_session_def)
  next
    assume "get_session (ss_id s) st = Some s"
    then have "map_of st (session_key (ss_id s)) = Some (SessionValue s)"
      unfolding get_session_def by (cases "map_of st (session_key (ss_id s))" rule: session_value.cases) simp_all
    then have "map_of ?l (session_key (ss_id s)) = Some (SessionValue s)" by (simp add: kv_get_list)
    then show "\<exists>k. map_of ?l k = Some (SessionValue s)" ..
  qed
  finally show ?thesis .
qed

text \<open>The sweep of the readers changes every row by itself.\<close>

lemma stored_sessions_distinct:
  assumes "store_ok st"
  shows "distinct (map ss_id (stored_sessions st))"
proof -
  have key: "map_of st k = Some (SessionValue s) \<Longrightarrow> k = session_key (ss_id s)" for k s
    using assms by (simp add: store_ok_def)
  have "distinct (map ss_id (List.map_filter (\<lambda>(_, v). session_value (Some v)) l))"
    if "distinct (map fst l)" "\<And>k s. (k, SessionValue s) \<in> set l \<Longrightarrow> k = session_key (ss_id s)" for l
    using that
  proof (induction l)
    case (Cons x l)
    obtain k v where x: "x = (k, v)" by (cases x)
    have ih: "distinct (map ss_id (List.map_filter (\<lambda>(_, v). session_value (Some v)) l))"
      using Cons by simp
    show ?case
    proof (cases v)
      case (SessionValue s)
      have "ss_id s \<noteq> ss_id s'" if m: "s' \<in> set (List.map_filter (\<lambda>(_, v). session_value (Some v)) l)" for s'
      proof
        assume e: "ss_id s = ss_id s'"
        obtain j v' where j: "(j, v') \<in> set l" "session_value (Some v') = Some s'" using m by (auto simp: map_filter_def)
        then have "v' = SessionValue s'" by (cases v') simp_all
        with j Cons.prems(2) [of j s'] Cons.prems(2) [of k s] e x SessionValue have "j = k" by simp
        with j(1) Cons.prems(1) x show False by (auto simp: image_iff)
      qed
      with ih show ?thesis by (auto simp: x SessionValue map_filter_simps)
    qed (use ih in \<open>simp add: x map_filter_simps\<close>)
  qed (simp add: map_filter_simps)
  moreover have "distinct (map fst (kv_list SESSION_PREFIX None st))" by (rule listed_distinct [OF assms])
  moreover have "k = session_key (ss_id s)" if "(k, SessionValue s) \<in> set (kv_list SESSION_PREFIX None st)" for k s
  proof -
    have "distinct (map fst st)" using assms by (simp add: store_ok_def kv_ok_def strict_sorted_iff)
    then show ?thesis using that key by (auto simp: kv_list_def)
  qed
  ultimately show ?thesis unfolding stored_sessions_def by blast
qed

lemma sweep_one_row:
  assumes "store_ok st" and "get_session (ss_id s) st = Some s"
  shows "store_ok (sweep_one now s st)"
    and "get_session j (sweep_one now s st) = (if j = ss_id s then Some (swept now s) else get_session j st)"
proof -
  have "ss_id (swept now s) = ss_id s" "\<not> stale now s \<Longrightarrow> swept now s = s" by (simp_all add: swept_def)
  then show "store_ok (sweep_one now s st)"
    "get_session j (sweep_one now s st) = (if j = ss_id s then Some (swept now s) else get_session j st)"
    using assms by (simp_all add: sweep_one_def get_put_session)
qed

lemma sweep_fold:
  assumes "store_ok st" and "distinct (map ss_id ss)" and "\<forall>s \<in> set ss. get_session (ss_id s) st = Some s"
  shows "store_ok (fold (sweep_one now) ss st) \<and> get_session sid (fold (sweep_one now) ss st) =
      (if sid \<in> ss_id ` set ss then map_option (swept now) (get_session sid st) else get_session sid st)"
  using assms
proof (induction ss arbitrary: st)
  case (Cons s ss)
  have st: "get_session (ss_id s) st = Some s" using Cons.prems(3) by simp
  note row = sweep_one_row [OF Cons.prems(1) st, where now = now]
  have "\<forall>t \<in> set ss. get_session (ss_id t) (sweep_one now s st) = Some t"
  proof
    fix t assume t: "t \<in> set ss"
    then have "ss_id t \<noteq> ss_id s" using Cons.prems(2) by (metis distinct.simps(2) image_eqI list.set_map list.simps(9))
    then show "get_session (ss_id t) (sweep_one now s st) = Some t" using Cons.prems(3) t by (simp add: row(2))
  qed
  with Cons.IH [OF row(1)] Cons.prems(2)
  have ih: "store_ok (fold (sweep_one now) ss (sweep_one now s st))"
    "get_session sid (fold (sweep_one now) ss (sweep_one now s st)) = (if sid \<in> ss_id ` set ss
        then map_option (swept now) (get_session sid (sweep_one now s st)) else get_session sid (sweep_one now s st))"
    by simp_all
  then show ?case using Cons.prems(2) st by (cases "sid = ss_id s") (simp_all add: row(2))
qed simp

lemma sweep_rows:
  assumes "store_ok st"
  shows "store_ok (snd (getSessions now st))"
    and "get_session sid (snd (getSessions now st)) = map_option (swept now) (get_session sid st)"
proof -
  have all: "\<forall>s \<in> set (stored_sessions st). get_session (ss_id s) st = Some s" using stored_sessions_set [OF assms] by blast
  have sweep: "snd (getSessions now st) = fold (sweep_one now) (stored_sessions st) st"
    by (simp add: getSessions_def Let_def)
  note f = sweep_fold [OF assms stored_sessions_distinct [OF assms] all, of now sid]
  show "store_ok (snd (getSessions now st))" using f by (simp add: sweep)
  have "get_session sid st = None" if "sid \<notin> ss_id ` set (stored_sessions st)"
  proof (rule ccontr)
    assume "get_session sid st \<noteq> None"
    then obtain s where s: "get_session sid st = Some s" by blast
    with get_session_id [OF assms s] stored_sessions_set [OF assms, of s] that show False by auto
  qed
  then show "get_session sid (snd (getSessions now st)) = map_option (swept now) (get_session sid st)"
    using f by (auto simp: sweep)
qed

end
