(* ===== verification/SessionLife.thy ===== *)
theory SessionLife
  imports StatusHub
begin

section \<open>The life of a session on the hub\<close>

text \<open>
  The abstract machine of one session, which the hub refines: its row changes by its own events, by the sweep of any
  reader and by the alarm, and by nothing that happens to other sessions.  The verdicts of runs, the delivery of
  cancellations and the retention of rows are proved on it and hold of the hub.
\<close>

subsection \<open>One session\<close>

fun apply_event :: "int \<Rightarrow> status_event \<Rightarrow> string \<Rightarrow> session_state option \<Rightarrow> session_state option" where
  "apply_event now (EvStart e) sid x = (if se_id e = sid then Some (started_session now e) else x)"
| "apply_event now (EvProgress i e) sid x = (if i = sid then map_option (progressed_session now e) x else x)"
| "apply_event now (EvComplete i result usage warnings) sid x =
     (if i = sid then map_option (completed_session now result usage warnings) x else x)"
| "apply_event now (EvCancelled i) sid x = (if i = sid then map_option (cancelled_session now) x else x)"
| "apply_event now (EvError i e) sid x =
     (if i = sid then Some (case x of None \<Rightarrow> ghost_session now sid e | Some s \<Rightarrow> failed_session now e s) else x)"
| "apply_event now (EvStdout i stderr line) sid x = x"
| "apply_event now (EvOther i) sid x = x"

text \<open>\<open>deletes\<close> says whether the alarm gets through.\<close>

fun session_step :: "bool \<Rightarrow> int \<times> hub_move \<Rightarrow> string \<Rightarrow> session_state option \<Rightarrow> session_state option" where
  "session_step deletes (now, Request (PostEvent e)) sid x = apply_event now e sid x"
| "session_step deletes (now, Request WatchSessions) sid x = map_option (swept now) x"
| "session_step deletes (now, Request (ListSessions q)) sid x = map_option (swept now) x"
| "session_step deletes (now, Request (CancelSession i)) sid x =
     (if i = sid then map_option (\<lambda>s. if ss_status s = SRunning then request_cancel s else s) x else x)"
| "session_step deletes (now, Request (DismissOne i)) sid x = (if i = sid then map_option dismissed_session x else x)"
| "session_step deletes (now, AlarmFires) sid x =
     (case x of None \<Rightarrow> None | Some s \<Rightarrow> if deletes \<and> expired now s then None else Some s)"
| "session_step deletes (now, _) sid x = x"

definition hub_ok :: "hub_state \<Rightarrow> bool" where
  "hub_ok hub \<longleftrightarrow> store_ok (hb_store hub)"

lemma change_session_row:
  assumes "store_ok st" and "\<And>s. ss_id (f s) = ss_id s"
  shows "store_ok (change_session f sid st)"
    and "get_session j (change_session f sid st) = (if j = sid then map_option f (get_session j st) else get_session j st)"
proof -
  show "store_ok (change_session f sid st)" using assms(1) by (simp add: change_session_def split: option.split)
  show "get_session j (change_session f sid st) = (if j = sid then map_option f (get_session j st) else get_session j st)"
    using assms(1) get_session_id [OF assms(1), of sid]
    by (auto simp: change_session_def get_put_session assms(2) split: option.split)
qed

lemma row_ids [simp]:
  "ss_id (started_session now e) = se_id e" "ss_id (progressed_session now pe s) = ss_id s"
  "ss_id (completed_session now r u w s) = ss_id s" "ss_id (cancelled_session now s) = ss_id s"
  "ss_id (failed_session now ee s) = ss_id s" "ss_id (ghost_session now sid ee) = sid" "ss_id (request_cancel s) = ss_id s"
  "ss_id (dismissed_session s) = ss_id s" "ss_id (swept now s) = ss_id s"
  by (simp_all add: started_session_def progressed_session_def completed_session_def cancelled_session_def failed_session_def
      ghost_session_def classified_def request_cancel_def dismissed_session_def swept_def)

lemma ensure_alarm_store [simp]: "hb_store (ensure_alarm now hub) = hb_store hub"
  by (simp add: ensure_alarm_def)

lemma log_progress_row:
  assumes "store_ok st"
  shows "store_ok (log_progress now sid e st)" and "get_session j (log_progress now sid e st) = get_session j st"
  using assms by (simp_all add: log_progress_def Let_def get_put_lines store_ok_put_lines)

lemma flush_row:
  assumes "store_ok st"
  shows "store_ok (fold merged_lines b st) \<and> get_session j (fold merged_lines b st) = get_session j st"
  using assms
proof (induction b arbitrary: st)
  case (Cons x b)
  have "store_ok (merged_lines x st)" "get_session j (merged_lines x st) = get_session j st"
    using Cons.prems by (simp_all add: merged_lines_def get_put_lines store_ok_put_lines split: prod.split)
  then show ?case using Cons.IH by simp
qed simp

lemma event_row:
  assumes "hub_ok hub"
  shows "hub_ok (handleEvent now e hub)"
    and "get_session sid (hb_store (handleEvent now e hub)) = apply_event now e sid (get_session sid (hb_store hub))"
proof -
  have ok: "store_ok (hb_store hub)" using assms by (simp add: hub_ok_def)
  note change = change_session_row [OF ok]
  show "hub_ok (handleEvent now e hub)"
    using ok by (cases e) (simp_all add: hub_ok_def change log_progress_row bufferStdoutLine_def split: option.split)
  show "get_session sid (hb_store (handleEvent now e hub)) = apply_event now e sid (get_session sid (hb_store hub))"
  proof (cases e)
    case (EvError i ee)
    then show ?thesis using get_session_id [OF ok, of i] ok
      by (auto simp: get_put_session split: option.split)
  qed (use ok in \<open>auto simp: change log_progress_row get_put_session bufferStdoutLine_def\<close>)
qed

lemma get_delete:
  "get_session sid (kv_delete ks st) = (if session_key sid \<in> set ks then None else get_session sid st)"
  "get_lines k (kv_delete ks st) = (if k \<in> set ks then [] else get_lines k st)"
  by (simp_all add: get_session_def get_lines_def kv_get_delete)

lemma alarm_row:
  assumes "hub_ok hub"
  shows "hub_ok (hub_step (now, AlarmFires) hub)"
    and "get_session sid (hb_store (hub_step (now, AlarmFires) hub)) =
      session_step (status_alarm now hub \<noteq> None) (now, AlarmFires) sid (get_session sid (hb_store hub))"
proof -
  have ok: "store_ok (hb_store hub)" using assms by (simp add: hub_ok_def)
  let ?ks = "expired_keys now (hb_store hub)"
  have key: "session_key sid \<in> set ?ks \<longleftrightarrow> (\<exists>s. get_session sid (hb_store hub) = Some s \<and> expired now s)"
    using stored_sessions_set [OF ok] get_session_id [OF ok] by (auto simp: expired_keys_def)
  note g = get_delete(1) [of sid ?ks "hb_store hub"]
  show "hub_ok (hub_step (now, AlarmFires) hub)"
    using ok by (simp add: hub_ok_def status_alarm_def Let_def store_ok_delete)
  show "get_session sid (hb_store (hub_step (now, AlarmFires) hub)) =
      session_step (status_alarm now hub \<noteq> None) (now, AlarmFires) sid (get_session sid (hb_store hub))"
    using g key by (auto simp: status_alarm_def Let_def split: option.splits)
qed

lemma request_row:
  assumes "hub_ok hub"
  shows "hub_ok (snd (status_fetch now q hub))"
    and "get_session sid (hb_store (snd (status_fetch now q hub))) = session_step f (now, Request q) sid (get_session sid (hb_store hub))"
proof -
  have ok: "store_ok (hb_store hub)" using assms by (simp add: hub_ok_def)
  note rows = sweep_rows [OF ok] change_session_row [OF ok] flush_row [OF ok] event_row [OF assms, unfolded hub_ok_def]
  show "hub_ok (snd (status_fetch now q hub))"
    using ok by (cases q) (simp_all add: rows hub_ok_def flushStdout_def Let_def case_prod_beta split: option.split)
  show "get_session sid (hb_store (snd (status_fetch now q hub))) = session_step f (now, Request q) sid (get_session sid (hb_store hub))"
  proof (cases q)
    case (CancelSession i)
    then show ?thesis using get_session_id [OF ok, of i] ok
      by (auto simp: get_put_session split: option.split)
  next
    case WatchSessions
    then show ?thesis using rows(2) [where now = now and sid = sid] by (simp add: case_prod_beta)
  next
    case (ListSessions lq)
    then show ?thesis using rows(2) [where now = now and sid = sid] by (simp add: case_prod_beta)
  qed (use rows in \<open>simp_all add: flushStdout_def Let_def split: option.split\<close>)
qed

lemma step_row:
  assumes "hub_ok hub"
  shows "hub_ok (hub_step m hub)"
    and "\<exists>f. get_session sid (hb_store (hub_step m hub)) = session_step f m sid (get_session sid (hb_store hub))"
proof -
  have ok: "store_ok (hb_store hub)" using assms by (simp add: hub_ok_def)
  obtain now h where m: "m = (now, h)" by (cases m)
  have "hub_ok (hub_step m hub) \<and> (\<exists>f. get_session sid (hb_store (hub_step m hub)) = session_step f m sid (get_session sid (hb_store hub)))"
  proof (cases h)
    case (Request q)
    then show ?thesis using request_row [OF assms] by (simp add: m)
  next
    case AlarmFires
    then show ?thesis using alarm_row(1) [OF assms, of now] alarm_row(2) [OF assms, where now = now and sid = sid] unfolding m by blast
  next
    case TimerFires
    then show ?thesis using flush_row [OF ok] assms by (simp add: m hub_ok_def flushStdout_def)
  next
    case Restarted
    then show ?thesis using assms by (simp add: m hub_ok_def)
  qed
  then show "hub_ok (hub_step m hub)" "\<exists>f. get_session sid (hb_store (hub_step m hub)) = session_step f m sid (get_session sid (hb_store hub))"
    by blast+
qed

lemma new_hub_ok: "hub_ok new_hub"
  by (simp add: hub_ok_def new_hub_def)

lemma run_ok: "hub_ok hub \<Longrightarrow> hub_ok (hub_run moves hub)"
  unfolding hub_run_def by (induction moves arbitrary: hub) (simp_all add: step_row(1))

text \<open>The runs of one session: its row after every move of the hub.\<close>

inductive session_run :: "string \<Rightarrow> (int \<times> hub_move) list \<Rightarrow> session_state option \<Rightarrow> session_state option \<Rightarrow> bool" for sid where
  run_none: "session_run sid [] x x"
| run_move: "session_run sid ms (session_step f m sid x) y \<Longrightarrow> session_run sid (m # ms) x y"

inductive_simps session_run_simps [simp]: "session_run sid [] x y" "session_run sid (m # ms) x y"

lemma session_run_append: "session_run sid (ms @ ns) x z \<longleftrightarrow> (\<exists>y. session_run sid ms x y \<and> session_run sid ns y z)"
  by (induction ms arbitrary: x) auto

lemma run_row:
  assumes "hub_ok hub"
  shows "session_run sid moves (get_session sid (hb_store hub)) (get_session sid (hb_store (hub_run moves hub)))"
  using assms
proof (induction moves arbitrary: hub)
  case (Cons m ms)
  from step_row(2) [OF Cons.prems, of sid m] obtain f
    where f: "get_session sid (hb_store (hub_step m hub)) = session_step f m sid (get_session sid (hb_store hub))" by blast
  from Cons.IH [OF step_row(1) [OF Cons.prems], of m] f show ?case by (auto simp: hub_run_def)
qed (simp add: hub_run_def)

text \<open>The moves that may touch a session: its own events and operations, the readers that sweep, and the alarm.\<close>

fun touches :: "string \<Rightarrow> int \<times> hub_move \<Rightarrow> bool" where
  "touches sid (now, Request (PostEvent e)) \<longleftrightarrow> event_session e = sid"
| "touches sid (now, Request WatchSessions) \<longleftrightarrow> True"
| "touches sid (now, Request (ListSessions q)) \<longleftrightarrow> True"
| "touches sid (now, Request (CancelSession i)) \<longleftrightarrow> i = sid"
| "touches sid (now, Request (DismissOne i)) \<longleftrightarrow> i = sid"
| "touches sid (now, AlarmFires) \<longleftrightarrow> True"
| "touches sid (now, _) \<longleftrightarrow> False"

lemma untouched: "\<not> touches sid m \<Longrightarrow> session_step f m sid x = x"
proof (induction f m sid x rule: session_step.induct)
  case (1 deletes now e sid x)
  then show ?case by (cases e) auto
qed auto

lemma session_run_filter: "session_run sid ms x y \<Longrightarrow> session_run sid (filter (touches sid) ms) x y"
  by (induction ms arbitrary: x) (auto simp: untouched)

text \<open>C8: The hub refines the machine of each session by itself: whatever events, readers, operators and alarms do, in any order,
  the row of a session is one its own machine reaches by its own events and operations, the sweeps and the alarms alone;
  the traffic of other sessions never touches it.
\<close>

theorem session_refines:
  "session_run sid (filter (touches sid) moves) None (get_session sid (hb_store (hub_run moves new_hub)))"
  using session_run_filter [OF run_row [OF new_hub_ok, of sid moves]] by (simp add: new_hub_def get_session_def)

subsection \<open>Verdicts\<close>

text \<open>What a finished row says, and the rows whose end is more than the guess of a sweep.\<close>

definition verdict :: "session_state \<Rightarrow> session_status \<times> string option \<times> string option \<times> jvalue option \<times> jvalue option" where
  "verdict s = (ss_status s, ss_error s, ss_error_source s, ss_result s, ss_usage s)"

definition settled :: "session_state \<Rightarrow> bool" where
  "settled s \<longleftrightarrow> isTerminalSession (ss_status s) \<and> \<not> isSweepTimeout s"

fun restarts :: "string \<Rightarrow> int \<times> hub_move \<Rightarrow> bool" where
  "restarts sid (now, Request (PostEvent (EvStart e))) \<longleftrightarrow> se_id e = sid"
| "restarts sid _ \<longleftrightarrow> False"

text \<open>Within thirty days of the instant \<open>t\<close>: nothing happens before it, and no alarm after.\<close>

definition within_retention :: "int \<Rightarrow> (int \<times> hub_move) list \<Rightarrow> bool" where
  "within_retention t moves \<longleftrightarrow> 0 < t \<and> (\<forall>(now, h) \<in> set moves. t \<le> now \<and> (h = AlarmFires \<longrightarrow> now \<le> t + RETENTION_MS))"

lemma within_Cons: "within_retention t (m # ms) \<longleftrightarrow> within_retention t [m] \<and> within_retention t ms"
  by (auto simp: within_retention_def)

lemma within_append: "within_retention t (ms @ ns) \<longleftrightarrow> within_retention t ms \<and> within_retention t ns"
  by (auto simp: within_retention_def)

text \<open>Away from starts, a row that is still retained stays, keeps its company, its session and a requested cancellation.\<close>

definition lives_on :: "int \<Rightarrow> session_state \<Rightarrow> session_state \<Rightarrow> bool" where
  "lives_on t s s' \<longleftrightarrow> t \<le> ss_updated s' \<and> ss_id s' = ss_id s \<and> ss_company s' = ss_company s \<and> (ss_cancel s \<longrightarrow> ss_cancel s') \<and>
     (settled s \<longrightarrow> settled s' \<and> verdict s' = verdict s)"

lemmas session_ops = progressed_session_def completed_session_def cancelled_session_def failed_session_def classified_def
  request_cancel_def dismissed_session_def swept_def stale_def

lemma terminal_cases [simp]: "isTerminalSession SComplete" "isTerminalSession SError" "isTerminalSession SCancelled" "\<not> isTerminalSession SRunning"
  by (simp_all add: isTerminalSession_def)

lemma settled_blocks: "settled s \<Longrightarrow> blocksLateTerminal s x" "settled s \<Longrightarrow> isTerminalSession (ss_status s)" "settled s \<Longrightarrow> ss_status s \<noteq> SRunning"
  by (auto simp: settled_def blocksLateTerminal_def)

lemma lives_on_trans: "lives_on t s s' \<Longrightarrow> lives_on t s' s'' \<Longrightarrow> lives_on t s s''"
  by (auto simp: lives_on_def)

lemma lives_on_ops:
  assumes "t \<le> now" and "t \<le> ss_updated s"
  shows "lives_on t s s" "lives_on t s (progressed_session now pe s)" "lives_on t s (completed_session now r u w s)"
    "lives_on t s (cancelled_session now s)" "lives_on t s (failed_session now ee s)" "lives_on t s (swept now s)"
    "lives_on t s (dismissed_session s)" "ss_status s = SRunning \<Longrightarrow> lives_on t s (request_cancel s)"
  using assms by (auto simp: lives_on_def session_ops verdict_def settled_blocks settled_def isSweepTimeout_def blocksLateTerminal_def)

lemma step_lives_on:
  assumes "within_retention t [m]" and "t \<le> ss_updated s" and "\<not> restarts sid m"
  shows "\<exists>s'. session_step f m sid (Some s) = Some s' \<and> lives_on t s s'"
proof -
  obtain now h where m: "m = (now, h)" by (cases m)
  have t: "0 < t" "t \<le> now" "h = AlarmFires \<Longrightarrow> now \<le> t + RETENTION_MS" using assms(1) by (auto simp: within_retention_def m)
  note ops = lives_on_ops [OF t(2) assms(2)]
  show ?thesis
  proof (cases h)
    case (Request q)
    show ?thesis
    proof (cases q)
      case (PostEvent e)
      show ?thesis using assms(3) ops by (cases e) (auto simp: m Request PostEvent)
    next
      case (CancelSession i)
      then show ?thesis using ops by (cases "ss_status s = SRunning") (auto simp: m Request)
    qed (use ops in \<open>auto simp: m Request\<close>)
  next
    case AlarmFires
    then have "\<not> expired now s" using t assms(2) by (simp add: expired_def last_update_def)
    then show ?thesis using ops by (simp add: m AlarmFires)
  qed (use ops in \<open>simp_all add: m\<close>)
qed

lemma run_lives_on:
  assumes "session_run sid ms (Some s) y" and "within_retention t ms" and "t \<le> ss_updated s" and "\<forall>m \<in> set ms. \<not> restarts sid m"
  shows "\<exists>s'. y = Some s' \<and> lives_on t s s'"
  using assms
proof (induction ms arbitrary: s)
  case Nil
  then show ?case by (auto simp: lives_on_def)
next
  case (Cons m ms)
  obtain f where f: "session_run sid ms (session_step f m sid (Some s)) y" using Cons.prems(1) by auto
  obtain s1 where s1: "session_step f m sid (Some s) = Some s1" "lives_on t s s1"
    using step_lives_on [of t m s sid f] Cons.prems within_Cons [of t m ms] by auto
  then have "t \<le> ss_updated s1" by (simp add: lives_on_def)
  with Cons.IH [of s1] f s1 Cons.prems within_Cons [of t m ms] lives_on_trans show ?case by auto
qed

text \<open>C18: A finished session stays finished as it ended: within its retention, no event but a new start, no reader, operator,
  alarm, flush or restart of the hub changes its status, its error or its result, unless the end was the guess of a sweep.
\<close>

theorem verdict_stands:
  assumes "hub_ok hub" and "get_session sid (hb_store hub) = Some s" and "settled s"
    and "within_retention t moves" and "t \<le> ss_updated s" and "\<forall>m \<in> set moves. \<not> restarts sid m"
  shows "\<exists>s'. get_session sid (hb_store (hub_run moves hub)) = Some s' \<and> verdict s' = verdict s"
proof -
  from run_row [OF assms(1), of sid moves] assms(2)
  have "session_run sid moves (Some s) (get_session sid (hb_store (hub_run moves hub)))" by simp
  from run_lives_on [OF this assms(4,5,6)] assms(3) show ?thesis by (auto simp: lives_on_def)
qed

text \<open>C26: Once a cancellation was accepted, every later event of that session, other than a new start, is answered with the
  request to stop, whatever happens in between while the row is retained.
\<close>

theorem cancel_reaches_runner:
  assumes "hub_ok hub" and "sid \<noteq> []" and "get_session sid (hb_store hub) = Some s" and "t \<le> ss_updated s"
    and "status_fetch now (CancelSession sid) hub = (CancelTaken, hub1)"
    and "within_retention t (moves @ [(later, Request (PostEvent e))])"
    and "\<forall>m \<in> set (moves @ [(later, Request (PostEvent e))]). \<not> restarts sid m" and "event_session e = sid"
  shows "fst (status_fetch later (PostEvent e) (hub_run moves hub1)) = EventTaken True"
proof -
  have ok1: "hub_ok hub1" and row1: "get_session sid (hb_store hub1) = Some (request_cancel s)"
    using request_row(1) [OF assms(1), of now "CancelSession sid"]
      request_row(2) [OF assms(1), where now = now and q = "CancelSession sid" and sid = sid] assms(3,5)
    by (auto split: if_splits)
  let ?ms = "moves @ [(later, Request (PostEvent e))]"
  have up: "t \<le> ss_updated (request_cancel s)" using assms(4) by (simp add: request_cancel_def)
  have "session_run sid ?ms (Some (request_cancel s)) (get_session sid (hb_store (hub_run ?ms hub1)))"
    using run_row [OF ok1, of sid ?ms] row1 by simp
  from run_lives_on [OF this assms(6) up assms(7)]
  obtain s' where s': "get_session sid (hb_store (hub_run ?ms hub1)) = Some s'" "ss_cancel s'"
    by (auto simp: lives_on_def request_cancel_def)
  have "hub_run ?ms hub1 = handleEvent later e (hub_run moves hub1)" by (simp add: hub_run_def Let_def)
  then show ?thesis using s' assms(2,8) by (simp add: cancel_requested_def Let_def)
qed

subsection \<open>The runs of the update workflow\<close>

text \<open>The two events of a run, as they arrive (\<open>update-dispatch.ts\<close>, \<open>deterministic-update.ts\<close>).\<close>

definition count_field :: "string \<Rightarrow> int \<Rightarrow> string \<times> jvalue" where
  "count_field k n = (k, VNum (of_int n))"

fun run_event :: "hub_event \<Rightarrow> status_event" where
  "run_event (SessionStart sid company org correlation sources) = EvStart
     \<lparr>se_id = sid, se_company = company, se_org = org, se_type = Some UpdateSession, se_agent = Some Deterministic,
      se_runner = None, se_correlation = correlation, se_anthropic = None, se_active = Some sources\<rparr>"
| "run_event (SessionError sid company msg source etype) = EvError sid
     \<lparr>ee_company = Some company, ee_type = None, ee_error = Some msg, ee_source = Some source, ee_error_type = etype,
      ee_stop_reason = None, ee_retries = None, ee_usage = None\<rparr>"
| "run_event (SessionComplete sid company processed skipped found inserted errors) = EvComplete sid
     (Some (VObj [(''mode'', VStr ''update-deterministic''), count_field ''sourcesProcessed'' (int processed),
        count_field ''sourcesSkipped'' (int skipped), count_field ''releasesFound'' found,
        count_field ''releasesInserted'' inserted, count_field ''errorCount'' (int errors)])) None None"

fun decides :: "string \<Rightarrow> int \<times> hub_move \<Rightarrow> bool" where
  "decides sid (now, Request (PostEvent (EvStart e))) \<longleftrightarrow> se_id e = sid"
| "decides sid (now, Request (PostEvent (EvComplete i r u w))) \<longleftrightarrow> i = sid"
| "decides sid (now, Request (PostEvent (EvCancelled i))) \<longleftrightarrow> i = sid"
| "decides sid (now, Request (PostEvent (EvError i e))) \<longleftrightarrow> i = sid"
| "decides sid _ \<longleftrightarrow> False"

lemma decides_restarts: "restarts sid m \<Longrightarrow> decides sid m"
  by (induction sid m rule: restarts.induct) simp_all

text \<open>A row without a real verdict yet.\<close>

definition undecided :: "session_state \<Rightarrow> bool" where
  "undecided s \<longleftrightarrow> ss_status s = SRunning \<or> isSweepTimeout s"

lemma undecided_ops:
  assumes "undecided s"
  shows "undecided (progressed_session now pe s)" "undecided (swept now s)" "undecided (dismissed_session s)" "undecided (request_cancel s)"
  using assms by (auto simp: undecided_def session_ops isSweepTimeout_def)

lemma status_ops:
  assumes "ss_status s = SError"
  shows "ss_status (progressed_session now pe s) = SError" "ss_status (swept now s) = SError"
    "ss_status (dismissed_session s) = SError" "ss_status (request_cancel s) = SError"
  using assms by (auto simp: session_ops)

lemma quiet_step:
  assumes "\<not> decides sid m" and "session_step f m sid (Some s) = Some s'"
  shows "undecided s \<longrightarrow> undecided s'" and "ss_status s = SError \<longrightarrow> ss_status s' = SError"
proof -
  obtain now h where m: "m = (now, h)" by (cases m)
  have "(undecided s \<longrightarrow> undecided s') \<and> (ss_status s = SError \<longrightarrow> ss_status s' = SError)"
  proof (cases h)
    case (Request q)
    show ?thesis
    proof (cases q)
      case (PostEvent e)
      then show ?thesis using assms undecided_ops status_ops by (cases e) (auto simp: m Request split: if_splits)
    qed (use assms undecided_ops status_ops in \<open>auto simp: m Request split: if_splits\<close>)
  qed (use assms in \<open>auto simp: m split: if_splits\<close>)
  then show "undecided s \<longrightarrow> undecided s'" "ss_status s = SError \<longrightarrow> ss_status s' = SError" by blast+
qed

lemma quiet_run:
  assumes "session_run sid ms (Some s) y" and "within_retention t ms" and "t \<le> ss_updated s" and "\<forall>m \<in> set ms. \<not> decides sid m"
  shows "\<exists>s'. y = Some s' \<and> lives_on t s s' \<and> (undecided s \<longrightarrow> undecided s') \<and> (ss_status s = SError \<longrightarrow> ss_status s' = SError)"
  using assms
proof (induction ms arbitrary: s)
  case Nil
  then show ?case by (auto simp: lives_on_def)
next
  case (Cons m ms)
  obtain f where f: "session_run sid ms (session_step f m sid (Some s)) y" using Cons.prems(1) by auto
  have nr: "\<not> restarts sid m" using decides_restarts [of sid m] Cons.prems(4) by auto
  have wm: "within_retention t [m]" using Cons.prems(2) within_Cons [of t m ms] by blast
  from step_lives_on [OF wm Cons.prems(3) nr, of f]
  obtain s1 where s1: "session_step f m sid (Some s) = Some s1" "lives_on t s s1" by blast
  then have "t \<le> ss_updated s1" by (simp add: lives_on_def)
  with Cons.IH [of s1] f s1 Cons.prems within_Cons [of t m ms] obtain s'
    where s': "y = Some s'" "lives_on t s1 s'" "undecided s1 \<longrightarrow> undecided s'" "ss_status s1 = SError \<longrightarrow> ss_status s' = SError"
    by auto
  with quiet_step [of sid m f s s1] s1 Cons.prems(4) lives_on_trans show ?case by auto
qed

text \<open>The end of a run on an undecided row.\<close>

lemma terminal_step:
  assumes "hub_event_session e = sid" and "\<forall>s' c g r xs. e \<noteq> SessionStart s' c g r xs" and "undecided s"
    and "ss_id s = sid" and "t \<le> now"
  shows "\<exists>s'. session_step f (now, Request (PostEvent (run_event e))) sid (Some s) = Some s' \<and> (t \<le> ss_updated s \<longrightarrow> t \<le> ss_updated s') \<and>
    ss_company s' = ss_company s \<and> (if is_session_error e then ss_status s' = SError
      else settled s' \<and> ss_status s' = SComplete \<and> ss_error s' = None)"
  using assms
  by (cases e) (auto simp: undecided_def is_session_error_def session_ops blocksLateTerminal_def isSweepTimeout_def settled_def)

text \<open>C9: The hub ends up showing a dispatched run as it ended: complete, with no error, when some source was fetched, failed when
  none was or its secrets were missing; whatever happens in between and after (sweeps that took it for dead, progress,
  cancellation requests, dismissals, other sessions, losses of memory), as long as nothing else reports on it.
\<close>

theorem run_shown_as_it_ended:
  assumes "ue_hub env = Some HubOk" and "startDeterministicUpdate env fates now uuid p w = (Started s, w1)"
    and "update_run env fates ellipsis secrets fetch parse clock s p w1 = w2" and "dw_hub w2 = dw_hub w @ [e0, e1]"
    and "hub_ok hub" and "\<forall>m \<in> set (m1 @ m2). \<not> decides s m"
    and "within_retention t0 ((t0, Request (PostEvent (run_event e0))) # m1 @ (t1, Request (PostEvent (run_event e1))) # m2)"
  shows "\<exists>row. get_session s (hb_store (hub_run ((t0, Request (PostEvent (run_event e0))) # m1 @
        (t1, Request (PostEvent (run_event e1))) # m2) hub)) = Some row \<and> ss_company row = up_company p \<and>
      (if \<not> secrets \<or> (\<forall>x \<in> set (up_sources p). \<not> so_ok (fetch_outcome fetch parse x)) then ss_status row = SError
       else ss_status row = SComplete \<and> ss_error row = None)"
proof -
  let ?a = "(t0, Request (PostEvent (run_event e0)))" and ?b = "(t1, Request (PostEvent (run_event e1)))"
  from dispatched_events [OF assms(1,2,3)] assms(4)
  have e0: "e0 = SessionStart s (up_company p) (present_text (up_org p)) (present_text (up_correlation p)) (up_sources p)"
    and e1: "hub_event_session e1 = s" "\<forall>s' c g r xs. e1 \<noteq> SessionStart s' c g r xs"
    and err: "is_session_error e1 \<longleftrightarrow> \<not> secrets \<or> (\<forall>x \<in> set (up_sources p). \<not> so_ok (fetch_outcome fetch parse x))"
    by auto
  let ?final = "get_session s (hb_store (hub_run (?a # m1 @ ?b # m2) hub))"
  have w: "within_retention t0 m1" "within_retention t0 m2" "t0 \<le> t1"
    using assms(7) by (auto simp: within_Cons [of _ "_ :: int \<times> hub_move" "_ @ _"] within_append within_Cons [of _ ?b m2])
      (auto simp: within_retention_def)
  from run_row [OF assms(5), of s "?a # m1 @ ?b # m2"]
  obtain f x y where steps: "session_run s m1 (session_step f ?a s x) y" "session_run s (?b # m2) y ?final"
    by (auto simp: session_run_append simp del: session_step.simps run_event.simps)
  obtain s0 where s0: "session_step f ?a s x = Some s0" "ss_status s0 = SRunning" "ss_updated s0 = t0" "ss_id s0 = s" "ss_company s0 = up_company p"
    by (simp add: e0 started_session_def)
  then have "undecided s0" by (simp add: undecided_def)
  with quiet_run [of s m1 s0 y t0] steps(1) s0 w(1) assms(6)
  obtain s1 where s1: "y = Some s1" "lives_on t0 s0 s1" "undecided s1" by auto
  from steps(2) s1(1) obtain g where g: "session_run s m2 (session_step g ?b s (Some s1)) ?final"
    by (auto simp del: session_step.simps run_event.simps)
  from terminal_step [OF e1 s1(3) _ w(3), of g] s0 s1(2)
  obtain s2 where s2: "session_step g ?b s (Some s1) = Some s2" "t0 \<le> ss_updated s2" "ss_company s2 = up_company p"
    "if is_session_error e1 then ss_status s2 = SError else settled s2 \<and> ss_status s2 = SComplete \<and> ss_error s2 = None"
    by (auto simp: lives_on_def)
  from quiet_run [OF g [unfolded s2(1)] w(2) s2(2)] assms(6)
  obtain s3 where "?final = Some s3" "lives_on t0 s2 s3" "ss_status s2 = SError \<longrightarrow> ss_status s3 = SError" by auto
  then show ?thesis using s2(3,4) err by (auto simp: lives_on_def verdict_def split: if_splits)
qed

text \<open>The order of the two events is not the hub's to choose: a start that arrives after the end reopens the row.\<close>

lemma late_start_reopens:
  assumes "hub_ok hub" and "t2 + STALE_SESSION_MS < t3" and "0 < t2" and "e0 = SessionStart s company org correlation sources"
  shows "\<exists>row. get_session s (hb_store (hub_run [(t1, Request (PostEvent (run_event e1))), (t2, Request (PostEvent (run_event e0))),
      (t3, Request WatchSessions)] hub)) = Some row \<and> isSweepTimeout row"
proof -
  let ?ms = "[(t1, Request (PostEvent (run_event e1))), (t2, Request (PostEvent (run_event e0))), (t3, Request WatchSessions)]"
  obtain row where "get_session s (hb_store (hub_run ?ms hub)) = Some row" "row = swept t3 (started_session t2
      \<lparr>se_id = s, se_company = company, se_org = org, se_type = Some UpdateSession, se_agent = Some Deterministic,
      se_runner = None, se_correlation = correlation, se_anthropic = None, se_active = Some sources\<rparr>)"
    using run_row [OF assms(1), of s ?ms] assms(4) by auto
  then show ?thesis using assms(2,3)
    by (simp add: swept_def stale_def started_session_def last_update_def isSweepTimeout_def)
qed

subsection \<open>Retention\<close>

lemma length_expired_keys: "length (expired_keys now st) = 3 * length (filter (expired now) (stored_sessions st))"
  by (simp add: expired_keys_def length_concat comp_def sum_list_triv)

lemma expired_lines:
  assumes "store_ok st"
  shows "logs_key sid \<in> set (expired_keys now st) \<longleftrightarrow> (case get_session sid st of None \<Rightarrow> False | Some s \<Rightarrow> expired now s)"
    and "stdout_key sid \<in> set (expired_keys now st) \<longleftrightarrow> (case get_session sid st of None \<Rightarrow> False | Some s \<Rightarrow> expired now s)"
    and "session_key sid \<in> set (expired_keys now st) \<longleftrightarrow> (case get_session sid st of None \<Rightarrow> False | Some s \<Rightarrow> expired now s)"
proof -
  have "(\<exists>s \<in> set (filter (expired now) (stored_sessions st)). ss_id s = sid) \<longleftrightarrow>
      (case get_session sid st of None \<Rightarrow> False | Some s \<Rightarrow> expired now s)"
  proof (cases "get_session sid st")
    case None
    then show ?thesis using stored_sessions_set [OF assms] by auto
  next
    case (Some r)
    have "ss_id r = sid" by (rule get_session_id [OF assms Some])
    then show ?thesis using stored_sessions_set [OF assms] Some by auto
  qed
  moreover have "x \<in> set (expired_keys now st) \<longleftrightarrow> (\<exists>s \<in> set (filter (expired now) (stored_sessions st)).
      x = session_key (ss_id s) \<or> x = logs_key (ss_id s) \<or> x = stdout_key (ss_id s))" for x
    by (auto simp: expired_keys_def)
  ultimately show "logs_key sid \<in> set (expired_keys now st) \<longleftrightarrow> (case get_session sid st of None \<Rightarrow> False | Some s \<Rightarrow> expired now s)"
    "stdout_key sid \<in> set (expired_keys now st) \<longleftrightarrow> (case get_session sid st of None \<Rightarrow> False | Some s \<Rightarrow> expired now s)"
    "session_key sid \<in> set (expired_keys now st) \<longleftrightarrow> (case get_session sid st of None \<Rightarrow> False | Some s \<Rightarrow> expired now s)"
    by (auto simp: eq_commute [of sid])
qed

text \<open>C27: The alarm deletes exactly the rows that ended more than thirty days ago, with their logs and output, and schedules the
  next; but it throws, deletes nothing and leaves no alarm as soon as more than forty-two rows have expired together.
\<close>

theorem retention_contract:
  assumes "hub_ok hub"
  shows "if 42 < length (filter (expired now) (stored_sessions (hb_store hub)))
    then status_alarm now hub = None \<and> hub_step (now, AlarmFires) hub = hub\<lparr>hb_alarm := None\<rparr>
    else \<exists>hub1. status_alarm now hub = Some hub1 \<and> hb_alarm hub1 = Some (now + CLEANUP_INTERVAL_MS) \<and>
      (\<forall>sid. let x = get_session sid (hb_store hub); gone = (case x of None \<Rightarrow> False | Some s \<Rightarrow> expired now s)
        in get_session sid (hb_store hub1) = (if gone then None else x) \<and>
           get_lines (logs_key sid) (hb_store hub1) = (if gone then [] else get_lines (logs_key sid) (hb_store hub)) \<and>
           get_lines (stdout_key sid) (hb_store hub1) = (if gone then [] else get_lines (stdout_key sid) (hb_store hub)))"
proof (cases "42 < length (filter (expired now) (stored_sessions (hb_store hub)))")
  case True
  then have "DELETE_KEYS < length (expired_keys now (hb_store hub))" by (simp add: length_expired_keys DELETE_KEYS_def)
  with True show ?thesis by (simp add: status_alarm_def Let_def)
next
  case False
  let ?ks = "expired_keys now (hb_store hub)"
  have ok: "store_ok (hb_store hub)" using assms by (simp add: hub_ok_def)
  have "\<not> DELETE_KEYS < length ?ks" using False by (simp add: length_expired_keys DELETE_KEYS_def)
  moreover have "kv_delete [] st = st" for st :: "status_value kv" by (simp add: kv_delete_def)
  ultimately obtain hub1 where a: "status_alarm now hub = Some hub1"
    and h: "hb_store hub1 = kv_delete ?ks (hb_store hub)" "hb_alarm hub1 = Some (now + CLEANUP_INTERVAL_MS)"
    by (simp add: status_alarm_def Let_def)
  show ?thesis unfolding if_not_P [OF False] Let_def
    by (rule exI, rule conjI [OF a], intro conjI allI) (simp_all only: h get_delete expired_lines [OF ok])
qed

subsection \<open>Pages\<close>

lemma positiveInt_some [simp]:
  assumes "0 < p" and "p < 2 ^ 53"
  shows "positiveInt (Some (int p)) = Some p"
proof -
  have "rat_of_int (int p) < 9007199254740992" using assms(2) by simp
  then show ?thesis using assms(1) by (simp add: positiveInt_def num_of_rat_def max_finite_def is_finite_def)
qed

lemma window_pages:
  assumes "resolvePageWindow None limit d m = \<lparr>pw_page = 1, pw_size = k, pw_offset = 0\<rparr>" and "0 < p" and "p < 2 ^ 53"
  shows "resolvePageWindow (Some (int p)) limit d m = \<lparr>pw_page = p, pw_size = k, pw_offset = (p - 1) * k\<rparr>"
  using assms by (auto simp: resolvePageWindow_def positiveInt_def [of None] Let_def)

lemma pages_concat:
  "concat (map (\<lambda>p. slicePage xs \<lparr>pw_page = p, pw_size = k, pw_offset = (p - 1) * k\<rparr>) [1..<Suc n]) = take (n * k) xs"
proof (induction n)
  case (Suc n)
  have "slicePage xs \<lparr>pw_page = Suc n, pw_size = k, pw_offset = (Suc n - 1) * k\<rparr> = take k (drop (n * k) xs)"
    by (simp add: slicePage_def Prelude.slice_def)
  then show ?case using Suc take_add [of "n * k" k xs] by (simp add: add.commute)
qed simp

lemma total_pages:
  assumes "0 < k"
  shows "p * k < n \<longleftrightarrow> p < nat \<lceil>of_nat n / (of_nat k :: rat)\<rceil>"
proof -
  have "p * k < n \<longleftrightarrow> (of_nat p :: rat) * of_nat k < of_nat n" by (metis of_nat_less_iff of_nat_mult)
  also have "\<dots> \<longleftrightarrow> (of_nat p :: rat) < of_nat n / of_nat k" using assms by (simp add: pos_less_divide_eq)
  also have "\<dots> \<longleftrightarrow> int p < \<lceil>of_nat n / (of_nat k :: rat)\<rceil>" by (simp add: less_ceiling_iff)
  finally show ?thesis by (simp add: zless_nat_eq_int_zless)
qed

text \<open>The pages of a listing tile it: read from the first to the last the envelope announces, they are the listing in its
  order, each row once, and \<open>hasMore\<close> holds on every page but the last.
\<close>

theorem pages_tile:
  assumes "length xs < 2 ^ 53" and "pages = pg_total_pages (computePagination 1 (pw_size (resolvePageWindow None limit DEFAULT_PAGE_SIZE DEFAULT_PAGE_SIZE)) r (length xs))"
  shows "concat (map (\<lambda>p. slicePage xs (resolvePageWindow (Some (int p)) limit DEFAULT_PAGE_SIZE DEFAULT_PAGE_SIZE)) [1..<Suc pages]) = xs \<and>
    (\<forall>p \<in> {1..pages}. pg_has_more (computePagination p (pw_size (resolvePageWindow (Some (int p)) limit DEFAULT_PAGE_SIZE DEFAULT_PAGE_SIZE)) r (length xs))
       \<longleftrightarrow> p < pages)"
proof -
  obtain k where k: "resolvePageWindow None limit DEFAULT_PAGE_SIZE DEFAULT_PAGE_SIZE = \<lparr>pw_page = 1, pw_size = k, pw_offset = 0\<rparr>" "0 < k"
    by (auto simp: resolvePageWindow_def positiveInt_def DEFAULT_PAGE_SIZE_def split: option.split)
  let ?t = "nat \<lceil>of_nat (length xs) / (of_nat k :: rat)\<rceil>"
  have pages: "pages = max 1 ?t" using assms(2) by (simp add: computePagination_def k(1))
  have all: "length xs \<le> pages * k" using total_pages [OF k(2), of pages "length xs"] by (simp add: pages not_less)
  have "\<not> length xs < ?t" using total_pages [OF k(2), of "length xs" "length xs"] k(2) by (simp add: not_less)
  then have small: "p < 2 ^ 53" if "p \<in> {1..pages}" for p using that assms(1) by (auto simp: pages max_def split: if_splits)
  have w: "resolvePageWindow (Some (int p)) limit DEFAULT_PAGE_SIZE DEFAULT_PAGE_SIZE = \<lparr>pw_page = p, pw_size = k, pw_offset = (p - 1) * k\<rparr>"
    if "p \<in> {1..pages}" for p
    by (rule window_pages [OF k(1)]) (use that small in auto)
  have "concat (map (\<lambda>p. slicePage xs (resolvePageWindow (Some (int p)) limit DEFAULT_PAGE_SIZE DEFAULT_PAGE_SIZE)) [1..<Suc pages]) =
      concat (map (\<lambda>p. slicePage xs \<lparr>pw_page = p, pw_size = k, pw_offset = (p - 1) * k\<rparr>) [1..<Suc pages])"
    using w by (intro arg_cong [of _ _ concat] map_cong) auto
  also have "\<dots> = xs" using all by (simp only: pages_concat take_all)
  finally have c: "concat (map (\<lambda>p. slicePage xs (resolvePageWindow (Some (int p)) limit DEFAULT_PAGE_SIZE DEFAULT_PAGE_SIZE)) [1..<Suc pages]) = xs" .
  have "pg_has_more (computePagination p (pw_size (resolvePageWindow (Some (int p)) limit DEFAULT_PAGE_SIZE DEFAULT_PAGE_SIZE)) r (length xs))
       \<longleftrightarrow> p < pages" if "p \<in> {1..pages}" for p
  proof -
    have "p * k < length xs \<longleftrightarrow> p < pages"
      unfolding pages total_pages [OF k(2), of p "length xs"] less_max_iff_disj using that by auto
    then show ?thesis using w [OF that] by (simp add: computePagination_def)
  qed
  with c show ?thesis by blast
qed

subsection \<open>Concrete runs\<close>

definition sample_error :: error_event where
  "sample_error = \<lparr>ee_company = Some ''Acme'', ee_type = None, ee_error = Some ''boom'', ee_source = None, ee_error_type = None,
     ee_stop_reason = None, ee_retries = None, ee_usage = None\<rparr>"

definition sample_start :: start_event where
  "sample_start = \<lparr>se_id = ''a'', se_company = ''Acme'', se_org = None, se_type = None, se_agent = None, se_runner = None,
     se_correlation = None, se_anthropic = None, se_active = None\<rparr>"

definition failed_hub :: hub_state where
  "failed_hub = hub_run [(1000, Request (PostEvent (EvError ''a'' sample_error)))] new_hub"

definition started_hub :: hub_state where
  "started_hub = hub_run [(1000, Request (PostEvent (EvStart sample_start)))] new_hub"

lemma sample_rows:
  "get_session ''a'' (hb_store failed_hub) = Some (ghost_session 1000 ''a'' sample_error)"
  "get_session ''a'' (hb_store started_hub) = Some (started_session 1000 sample_start)"
  using run_row [OF new_hub_ok, of "''a''" "[(1000, Request (PostEvent (EvError ''a'' sample_error)))]"]
    run_row [OF new_hub_ok, of "''a''" "[(1000, Request (PostEvent (EvStart sample_start)))]"]
  by (simp_all add: new_hub_def get_session_def failed_hub_def started_hub_def sample_start_def)

lemma sample_hubs_ok: "hub_ok failed_hub" "hub_ok started_hub"
  by (simp_all add: failed_hub_def started_hub_def run_ok new_hub_ok)

theorem verdict_stands_witness:
  "\<exists>row. get_session ''a'' (hb_store (hub_run [(2000, Request WatchSessions), (3000, Request (PostEvent (EvComplete ''a'' None None None))),
      (4000, AlarmFires)] failed_hub)) = Some row \<and> ss_status row = SError \<and> ss_error row = Some ''boom''"
proof -
  let ?ms = "[(2000, Request WatchSessions), (3000, Request (PostEvent (EvComplete ''a'' None None None))), (4000, AlarmFires)]"
  have s: "settled (ghost_session 1000 ''a'' sample_error)"
    by (simp add: settled_def ghost_session_def classified_def isSweepTimeout_def sample_error_def STALE_TIMEOUT_ERROR_def)
  have w: "within_retention 1000 ?ms" by (simp add: within_retention_def RETENTION_MS_def)
  from verdict_stands [OF sample_hubs_ok(1) sample_rows(1) s w] show ?thesis
    by (auto simp: verdict_def ghost_session_def classified_def started_session_def sample_error_def)
qed

theorem cancel_reaches_runner_witness:
  "\<exists>hub1. status_fetch 1500 (CancelSession ''a'') started_hub = (CancelTaken, hub1) \<and>
     fst (status_fetch 3000 (PostEvent (EvCancelled ''a'')) (hub_run [(2000, Request (DismissOne ''a''))] hub1)) = EventTaken True"
proof -
  have run: "ss_status (started_session 1000 sample_start) = SRunning" by (simp add: started_session_def)
  obtain hub1 where h: "status_fetch 1500 (CancelSession ''a'') started_hub = (CancelTaken, hub1)"
    using sample_rows(2) run by simp
  have up: "1000 \<le> ss_updated (started_session 1000 sample_start)" by (simp add: started_session_def)
  have w: "within_retention 1000 ([(2000, Request (DismissOne ''a''))] @ [(3000, Request (PostEvent (EvCancelled ''a'')))])"
    by (simp add: within_retention_def)
  from cancel_reaches_runner [OF sample_hubs_ok(2) _ sample_rows(2) up h w] h show ?thesis by auto
qed

theorem run_shown_as_it_ended_witness:
  "\<exists>w1 e0 e1. startDeterministicUpdate open_env good_calls 0 ''7'' two_sources idle_world = (Started (det_session ''7''), w1) \<and>
     (\<exists>row. get_session (det_session ''7'') (hb_store (hub_run [(1000, Request (PostEvent (run_event e0))), (2000000, Request WatchSessions),
       (3000000, Request (PostEvent (run_event e1)))] new_hub)) = Some row \<and> ss_company row = ''Acme'' \<and> ss_status row = SError)"
proof -
  obtain w1 where w1: "startDeterministicUpdate open_env good_calls 0 ''7'' two_sources idle_world = (Started (det_session ''7''), w1)"
    using two_sources_start by blast
  have hub: "ue_hub open_env = Some HubOk" by (simp add: open_env_def)
  let ?w2 = "update_run open_env good_calls [] False (\<lambda>_. FetchThrew ''timeout'') (\<lambda>_. None) int (det_session ''7'') two_sources w1"
  obtain e0 e1 where e: "dw_hub ?w2 = dw_hub idle_world @ [e0, e1]" using dispatched_events [OF hub w1 refl] by blast
  have w: "within_retention 1000 ((1000, Request (PostEvent (run_event e0))) # [(2000000, Request WatchSessions)] @
      (3000000, Request (PostEvent (run_event e1))) # [])" by (simp add: within_retention_def)
  have q: "\<forall>m \<in> set ([(2000000, Request WatchSessions)] @ []). \<not> decides (det_session ''7'') m" by simp
  from run_shown_as_it_ended [OF hub w1 refl e new_hub_ok q w] w1 show ?thesis
    by (intro exI [of _ w1] exI [of _ e0] exI [of _ e1]) (auto simp: two_sources_def)
qed

theorem retention_contract_witness:
  "\<exists>hub1. status_alarm 2600000000 failed_hub = Some hub1 \<and> get_session ''a'' (hb_store hub1) = None"
proof -
  have "stored_sessions (hb_store failed_hub) = [ghost_session 1000 ''a'' sample_error]"
    by (simp add: failed_hub_def hub_run_def new_hub_def get_session_def put_session_def kv_put_def stored_sessions_def kv_list_def
        map_filter_simps Let_def)
  moreover have "expired 2600000000 (ghost_session 1000 ''a'' sample_error)"
    by (simp add: expired_def RETENTION_MS_def last_update_def ghost_session_def classified_def started_session_def)
  ultimately show ?thesis using retention_contract [OF sample_hubs_ok(1), of 2600000000] sample_rows(1)
    by (auto simp: Let_def)
qed

end
