(* ===== verification/ApiTokens.thy ===== *)
theory ApiTokens
  imports UpdateDispatch WebhookSign
begin

section \<open>Scoped API tokens\<close>

text \<open>
  \<open>packages/core/src/api-token.ts\<close>, \<open>packages/core-internal/src/api-token-store.ts\<close>,
  \<open>apps/api/src/queries/publish-tokens.ts\<close> and the statements of \<open>apps/api/src/routes/api-tokens.ts\<close>: the scope ladder,
  the wire form of a token, its verification against the table, and the statements that mint, edit, revoke and touch a
  row, each atomic in the database.  The digest \<open>hash\<close> of the Web Crypto API, \<open>JSON.parse\<close> and the random parts of a
  token are parameters.
\<close>

subsection \<open>Scopes\<close>

datatype api_scope = ScopeRead | ScopeWrite | ScopeAdmin

fun scope_text :: "api_scope \<Rightarrow> string" where
  "scope_text ScopeRead = ''read''"
| "scope_text ScopeWrite = ''write''"
| "scope_text ScopeAdmin = ''admin''"

definition API_SCOPES :: "string list" where "API_SCOPES = map scope_text [ScopeRead, ScopeWrite, ScopeAdmin]"
definition ROOT_SCOPE :: string where "ROOT_SCOPE = ''*''"
definition PUBLISH_SCOPE :: string where "PUBLISH_SCOPE = ''publish''"

text \<open>\<open>SCOPE_RANK[s] ?? 0\<close>; what the record inherits compares as no number.\<close>

definition scope_rank :: "string \<Rightarrow> nat" where
  "scope_rank s = (if s = ''read'' then 1 else if s = ''write'' then 2 else if s = ''admin'' then 3 else 0)"

definition isApiScope :: "string \<Rightarrow> bool" where
  "isApiScope s \<longleftrightarrow> s \<in> set API_SCOPES"

definition scopeSatisfies :: "string list \<Rightarrow> api_scope \<Rightarrow> bool" where
  "scopeSatisfies tokenScopes required \<longleftrightarrow>
     ROOT_SCOPE \<in> set tokenScopes \<or> list_ex (\<lambda>s. scope_rank (scope_text required) \<le> scope_rank s) tokenScopes"

definition parseStoredScopes :: "(string \<Rightarrow> jvalue option) \<Rightarrow> string \<Rightarrow> string list" where
  "parseStoredScopes json raw =
     (case json raw of Some (VArr vs) \<Rightarrow> List.map_filter (\<lambda>v. case v of VStr s \<Rightarrow> Some s | _ \<Rightarrow> None) vs | _ \<Rightarrow> [])"

subsection \<open>The wire form\<close>

definition API_TOKEN_PREFIX :: string where "API_TOKEN_PREFIX = ''relk_''"
definition USER_API_KEY_PREFIX :: string where "USER_API_KEY_PREFIX = ''relu_''"
definition LOOKUP_LEN :: nat where "LOOKUP_LEN = 12"
definition SECRET_LEN :: nat where "SECRET_LEN = 32"

definition generateApiToken :: "string \<Rightarrow> string \<Rightarrow> string" where
  "generateApiToken lookup secret = API_TOKEN_PREFIX @ lookup @ ''_'' @ secret"

text \<open>The expression \<open>TOKEN_RE\<close>: the prefix, twelve and thirty-two characters of base 62, and nothing else.\<close>

definition parseApiToken :: "string \<Rightarrow> (string \<times> string) option" where
  "parseApiToken raw =
     (let t = js_trim raw; lookup = take LOOKUP_LEN (drop 5 t); secret = drop (6 + LOOKUP_LEN) t
      in if js_starts_with t API_TOKEN_PREFIX \<and> length t = 6 + LOOKUP_LEN + SECRET_LEN \<and> list_all is_alnum lookup \<and>
            t ! (5 + LOOKUP_LEN) = CHR ''_'' \<and> list_all is_alnum secret
         then Some (lookup, secret) else None)"

definition isApiTokenShaped :: "string \<Rightarrow> bool" where
  "isApiTokenShaped raw = js_starts_with raw API_TOKEN_PREFIX"

definition isUserApiKeyShaped :: "string \<Rightarrow> bool" where
  "isUserApiKeyShaped raw = js_starts_with raw USER_API_KEY_PREFIX"

text \<open>The comparison of two digests; a character past the end reads as 0.\<close>

definition token_equal :: "string \<Rightarrow> string \<Rightarrow> bool" where
  "token_equal a b =
     (fold (\<lambda>i diff. diff OR ((if i < length a then word_of_nat (code_unit (a ! i)) else 0) XOR
                             (if i < length b then word_of_nat (code_unit (b ! i)) else 0)))
        [0..<max (length a) (length b)] (word_of_nat (length a) XOR word_of_nat (length b) :: 32 word) = 0)"

subsection \<open>The table and its verifier\<close>

datatype principal_type = InternalPrincipal | AgentPrincipal | UserPrincipal

record api_token =
  at_id :: string
  at_lookup :: string
  at_hash :: string
  at_name :: string
  at_scopes :: string
  at_principal_type :: principal_type
  at_principal :: "string option"
  at_active :: bool
  at_revoked :: "string option"
  at_expires :: "string option"
  at_last_used :: "string option"
  at_created :: string
  at_created_by :: "string option"
  at_source :: "string option"

record verified_token =
  vt_id :: string
  vt_scopes :: "string list"
  vt_principal_type :: principal_type
  vt_principal :: "string option"
  vt_source :: "string option"

definition has_text :: "string option \<Rightarrow> bool" where
  "has_text x \<longleftrightarrow> text_of x \<noteq> []"

text \<open>The checks on a row that was found, in their order.\<close>

definition verify_row :: "(string \<Rightarrow> jvalue option) \<Rightarrow> string \<Rightarrow> int \<Rightarrow> api_token \<Rightarrow> verified_token option" where
  "verify_row json presentedHash now row =
     (if \<not> token_equal presentedHash (at_hash row) then None
      else if \<not> at_active row then None
      else if has_text (at_revoked row) then None
      else if has_text (at_expires row) \<and> text_of (at_expires row) \<le> iso_text now then None
      else (let scopes = parseStoredScopes json (at_scopes row); hasPublish = (PUBLISH_SCOPE \<in> set scopes);
                ok = Some \<lparr>vt_id = at_id row, vt_scopes = scopes, vt_principal_type = at_principal_type row,
                          vt_principal = at_principal row, vt_source = at_source row\<rparr>
            in if scopes = [] then None
               else (case at_source row of
                   Some _ \<Rightarrow> (if length scopes \<noteq> 1 \<or> \<not> hasPublish then None
                              else if at_principal_type row \<noteq> UserPrincipal \<or> \<not> has_text (at_principal row) then None
                              else ok)
                 | None \<Rightarrow> (if hasPublish then None else ok))))"

definition verifyApiToken ::
  "(string \<Rightarrow> string) \<Rightarrow> (string \<Rightarrow> jvalue option) \<Rightarrow> api_token list \<Rightarrow> string \<Rightarrow> int \<Rightarrow> verified_token option" where
  "verifyApiToken hash json db raw now =
     (case parseApiToken raw of
        None \<Rightarrow> None
      | Some (lookup, secret) \<Rightarrow> (case find (\<lambda>row. at_lookup row = lookup) db of
            None \<Rightarrow> None
          | Some row \<Rightarrow> verify_row json (hash secret) now row))"

subsection \<open>Owners and their sources\<close>

datatype claim_status = ClaimPending | ClaimVerified | ClaimOther

record claim_row =
  cl_org :: string
  cl_user :: string
  cl_status :: claim_status

record publish_source =
  ps_id :: string
  ps_org :: "string option"
  ps_deleted :: "string option"

record ownership_db =
  od_sources :: "publish_source list"
  od_orgs :: "(string \<times> string option) list"
  od_claims :: "claim_row list"

datatype binding_failure = SourceMissing | SourceDeleted | OrgDeleted | ClaimMissing
datatype binding_check = BindingOk string string | BindingFailed binding_failure

definition holds_claim :: "claim_row list \<Rightarrow> string \<Rightarrow> string \<Rightarrow> bool" where
  "holds_claim claims org user \<longleftrightarrow> list_ex (\<lambda>c. cl_org c = org \<and> cl_user c = user \<and> cl_status c = ClaimVerified) claims"

text \<open>A source without an organisation joins no organisation and no claim.\<close>

definition checkPublishBinding :: "ownership_db \<Rightarrow> string \<Rightarrow> string \<Rightarrow> binding_check" where
  "checkPublishBinding od sourceId userId =
     (case find (\<lambda>s. ps_id s = sourceId) (od_sources od) of
        None \<Rightarrow> BindingFailed SourceMissing
      | Some s \<Rightarrow>
         (if has_text (ps_deleted s) then BindingFailed SourceDeleted
          else (case ps_org s of
              None \<Rightarrow> BindingFailed OrgDeleted
            | Some org \<Rightarrow>
               (if has_text (case map_of (od_orgs od) org of None \<Rightarrow> None | Some d \<Rightarrow> d) then BindingFailed OrgDeleted
                else if \<not> holds_claim (od_claims od) org userId then BindingFailed ClaimMissing
                else BindingOk (ps_id s) org))))"

subsection \<open>The statements\<close>

definition MAX_PUBLISH_TOKENS_PER_SOURCE :: nat where "MAX_PUBLISH_TOKENS_PER_SOURCE = 5"

definition active_publish :: "string \<Rightarrow> string \<Rightarrow> api_token \<Rightarrow> bool" where
  "active_publish userId sourceId row \<longleftrightarrow> at_principal_type row = UserPrincipal \<and> at_principal row = Some userId \<and>
     at_source row = Some sourceId \<and> at_revoked row = None \<and> at_active row"

definition activePublishCount :: "string \<Rightarrow> string \<Rightarrow> api_token list \<Rightarrow> nat" where
  "activePublishCount userId sourceId db = length (filter (active_publish userId sourceId) db)"

text \<open>An insert under the two unique columns; it fails when one is taken.\<close>

definition insert_token :: "api_token \<Rightarrow> api_token list \<Rightarrow> api_token list option" where
  "insert_token row db =
     (if at_id row \<in> set (map at_id db) \<or> at_lookup row \<in> set (map at_lookup db) then None else Some (db @ [row]))"

datatype mint_result = Minted string | MintLimit | MintClaimMissing | MintThrew

text \<open>\<open>fresh\<close> is the identifier, the lookup part and the secret of the new token.\<close>

definition mintPublishTokenCapped ::
  "(string \<Rightarrow> string) \<Rightarrow> string \<times> string \<times> string \<Rightarrow> int \<Rightarrow> claim_row list \<Rightarrow> string \<Rightarrow> string \<Rightarrow> string \<Rightarrow> string \<Rightarrow>
     api_token list \<Rightarrow> mint_result \<times> api_token list" where
  "mintPublishTokenCapped hash fresh now claims userId sourceId orgId name db =
     (case fresh of (i, lookup, secret) \<Rightarrow>
        (if activePublishCount userId sourceId db < MAX_PUBLISH_TOKENS_PER_SOURCE \<and> holds_claim claims orgId userId then
           (case insert_token \<lparr>at_id = i, at_lookup = lookup, at_hash = hash secret, at_name = name,
                 at_scopes = ''['' @ [CHR 0x22] @ PUBLISH_SCOPE @ [CHR 0x22] @ '']'', at_principal_type = UserPrincipal,
                 at_principal = Some userId, at_active = True, at_revoked = None, at_expires = None, at_last_used = None,
                 at_created = iso_text now, at_created_by = Some userId, at_source = Some sourceId\<rparr> db of
              None \<Rightarrow> (MintThrew, db)
            | Some db1 \<Rightarrow> (Minted (generateApiToken lookup secret), db1))
         else (if MAX_PUBLISH_TOKENS_PER_SOURCE \<le> activePublishCount userId sourceId db then MintLimit else MintClaimMissing, db)))"

definition revoke_row :: "int \<Rightarrow> api_token \<Rightarrow> api_token" where
  "revoke_row now row = row\<lparr>at_active := False, at_revoked := Some (iso_text now)\<rparr>"

definition owned_publish :: "string \<Rightarrow> api_token \<Rightarrow> bool" where
  "owned_publish userId row \<longleftrightarrow> at_principal_type row = UserPrincipal \<and> at_principal row = Some userId \<and> at_source row \<noteq> None"

text \<open>The update both revocations run, on the rows that are not revoked yet.\<close>

definition revoke_where :: "(api_token \<Rightarrow> bool) \<Rightarrow> int \<Rightarrow> api_token list \<Rightarrow> api_token list" where
  "revoke_where P now db = map (\<lambda>row. if P row \<and> at_revoked row = None then revoke_row now row else row) db"

definition revokePublishToken :: "int \<Rightarrow> string \<Rightarrow> string \<Rightarrow> api_token list \<Rightarrow> (string \<times> bool) option \<times> api_token list" where
  "revokePublishToken now userId i db =
     (case find (\<lambda>row. at_id row = i \<and> owned_publish userId row) db of
        None \<Rightarrow> (None, db)
      | Some row \<Rightarrow>
         (if \<not> has_text (at_source row) then (None, db)
          else if has_text (at_revoked row) then (Some (text_of (at_revoked row), True), db)
          else (Some (iso_text now, False), revoke_where (\<lambda>r. at_id r = i \<and> owned_publish userId r) now db)))"

text \<open>\<open>POST /tokens/:id/revoke\<close>.\<close>

definition revoke_token :: "int \<Rightarrow> string \<Rightarrow> api_token list \<Rightarrow> api_token list" where
  "revoke_token now i db = revoke_where (\<lambda>row. at_id row = i) now db"

text \<open>\<open>validateScopes\<close> puts the requested scopes in the order of the ladder.\<close>

definition validateScopes :: "jvalue option \<Rightarrow> string list option" where
  "validateScopes raw =
     (case raw of
        Some (VArr (v # vs)) \<Rightarrow>
          (if list_all (\<lambda>x. case x of VStr s \<Rightarrow> isApiScope s | _ \<Rightarrow> False) (v # vs)
           then Some (filter (\<lambda>s. VStr s \<in> set (v # vs)) API_SCOPES) else None)
      | _ \<Rightarrow> None)"

definition scopes_json :: "string list \<Rightarrow> string" where
  "scopes_json ss = ''['' @ join '','' (map (\<lambda>s. [CHR 0x22] @ s @ [CHR 0x22]) ss) @ '']''"

text \<open>
  \<open>POST /tokens\<close>, after the validation of name and principal: the expiry is stored in the form the verifier compares
  with.  \<open>legacy\<close> is what \<open>Date.parse\<close> makes of other forms.
\<close>

definition mint_expiry :: "(string \<Rightarrow> int option) \<Rightarrow> string option \<Rightarrow> string option option" where
  "mint_expiry legacy raw =
     (if \<not> has_text raw then Some raw
      else (case date_parse legacy (text_of raw) of None \<Rightarrow> None | Some t \<Rightarrow> Some (Some (iso_text t))))"

definition mint_token ::
  "(string \<Rightarrow> string) \<Rightarrow> (string \<Rightarrow> int option) \<Rightarrow> string \<times> string \<times> string \<Rightarrow> int \<Rightarrow> string \<Rightarrow> jvalue option \<Rightarrow> principal_type \<Rightarrow>
     string option \<Rightarrow> string option \<Rightarrow> string \<Rightarrow> api_token list \<Rightarrow> string option \<times> api_token list" where
  "mint_token hash legacy fresh now name scopes ptype pid expires createdBy db =
     (case (validateScopes scopes, mint_expiry legacy expires, fresh) of
        (Some ss, Some expiry, (i, lookup, secret)) \<Rightarrow>
          (case insert_token \<lparr>at_id = i, at_lookup = lookup, at_hash = hash secret, at_name = name, at_scopes = scopes_json ss,
                at_principal_type = ptype, at_principal = pid, at_active = True, at_revoked = None, at_expires = expiry,
                at_last_used = None, at_created = iso_text now, at_created_by = Some createdBy, at_source = None\<rparr> db of
             None \<Rightarrow> (None, db)
           | Some db1 \<Rightarrow> (Some (generateApiToken lookup secret), db1))
      | _ \<Rightarrow> (None, db))"

text \<open>
  \<open>PATCH /tokens/:id\<close>; \<open>expires\<close> is absent, null or a text.  The row is the one read before the update.
\<close>

datatype expiry_patch = KeepExpiry | ClearExpiry | SetExpiry string

record token_patch =
  tp_name :: "string option"
  tp_scopes :: "jvalue option"
  tp_expires :: expiry_patch

definition patch_row :: "(string \<Rightarrow> int option) \<Rightarrow> token_patch \<Rightarrow> api_token \<Rightarrow> (api_token \<Rightarrow> api_token) option" where
  "patch_row legacy p existing =
     (let name = (case tp_name p of None \<Rightarrow> Some id | Some n \<Rightarrow>
            if js_trim n = [] then None else Some (\<lambda>row. row\<lparr>at_name := js_trim n\<rparr>));
          scopes = (if tp_scopes p = None then Some id
            else if has_text (at_source existing) then None
            else (case validateScopes (tp_scopes p) of None \<Rightarrow> None | Some ss \<Rightarrow> Some (\<lambda>row. row\<lparr>at_scopes := scopes_json ss\<rparr>)));
          expires = (case tp_expires p of KeepExpiry \<Rightarrow> Some id | ClearExpiry \<Rightarrow> Some (\<lambda>row. row\<lparr>at_expires := None\<rparr>)
            | SetExpiry t \<Rightarrow> if date_parse legacy t = None then None else Some (\<lambda>row. row\<lparr>at_expires := Some t\<rparr>))
      in if tp_name p = None \<and> tp_scopes p = None \<and> tp_expires p = KeepExpiry then None
         else (case (name, scopes, expires) of (Some f, Some g, Some h) \<Rightarrow> Some (h \<circ> g \<circ> f) | _ \<Rightarrow> None))"

definition patch_token :: "(string \<Rightarrow> int option) \<Rightarrow> token_patch \<Rightarrow> string \<Rightarrow> api_token list \<Rightarrow> api_token list" where
  "patch_token legacy p i db =
     (case find (\<lambda>row. at_id row = i) db of
        None \<Rightarrow> db
      | Some existing \<Rightarrow> (case patch_row legacy p existing of
            None \<Rightarrow> db
          | Some f \<Rightarrow> map (\<lambda>row. if at_id row = i then f row else row) db))"

definition LAST_USED_THROTTLE_MS :: int where "LAST_USED_THROTTLE_MS = 60000"

definition touchLastUsed :: "int \<Rightarrow> string \<Rightarrow> api_token list \<Rightarrow> api_token list" where
  "touchLastUsed now i db =
     map (\<lambda>row. if at_id row = i \<and> (case at_last_used row of None \<Rightarrow> True | Some t \<Rightarrow> t < iso_text (now - LAST_USED_THROTTLE_MS))
                then row\<lparr>at_last_used := Some (iso_text now)\<rparr> else row) db"

end
