(* ===== verification/TokenLife.thy ===== *)
theory TokenLife
  imports ApiTokens
begin

section \<open>The life of a token\<close>

text \<open>
  The table of \<open>ApiTokens\<close> under any sequence of its statements: a token is accepted with its scopes from its mint to
  its expiry or revocation and never after a revocation, and no owner ever holds more than five live publish tokens for
  one source.
\<close>

subsection \<open>The wire form\<close>

lemma alnum_not_space: "is_alnum c \<Longrightarrow> \<not> is_space c"
  by (auto simp: is_alnum_def is_digit_def is_upper_def is_lower_def is_space_def)

definition token_parts :: "string \<Rightarrow> string \<Rightarrow> bool" where
  "token_parts lookup secret \<longleftrightarrow> length lookup = LOOKUP_LEN \<and> length secret = SECRET_LEN \<and> list_all is_alnum lookup \<and> list_all is_alnum secret"

lemma generated_trim:
  assumes "token_parts l s"
  shows "js_trim (generateApiToken l s) = generateApiToken l s"
proof (rule js_trim_id)
  have "\<forall>c \<in> set ''relk_''. \<not> is_space c" by (simp add: is_space_def code_unit_def)
  then show "\<forall>c \<in> set (generateApiToken l s). \<not> is_space c"
    using assms alnum_not_space by (auto simp: generateApiToken_def token_parts_def API_TOKEN_PREFIX_def list_all_iff)
qed

lemma prefix_take: "js_starts_with t API_TOKEN_PREFIX \<longleftrightarrow> take 5 t = ''relk_''"
  by (simp add: js_starts_with_def API_TOKEN_PREFIX_def eval_nat_numeral)

lemma parse_iff: "parseApiToken raw = Some (l, s) \<longleftrightarrow> js_trim raw = generateApiToken l s \<and> token_parts l s"
proof
  assume p: "parseApiToken raw = Some (l, s)"
  let ?t = "js_trim raw"
  have h: "take 5 ?t = ''relk_''" "length ?t = 50" "l = take 12 (drop 5 ?t)" "s = drop 18 ?t" "?t ! 17 = CHR ''_''"
    "list_all is_alnum l" "list_all is_alnum s"
    using p by (auto simp: parseApiToken_def Let_def prefix_take LOOKUP_LEN_def SECRET_LEN_def split: if_splits)
  have "drop 17 ?t = CHR ''_'' # drop 18 ?t" using h(2,5) Cons_nth_drop_Suc [of 17 ?t] by simp
  moreover have "?t = take 5 ?t @ take 12 (drop 5 ?t) @ drop 17 ?t"
    using append_take_drop_id [of 5 ?t] append_take_drop_id [of 12 "drop 5 ?t"] by simp
  ultimately show "js_trim raw = generateApiToken l s \<and> token_parts l s"
    using h by (simp add: generateApiToken_def API_TOKEN_PREFIX_def token_parts_def LOOKUP_LEN_def SECRET_LEN_def)
next
  assume g: "js_trim raw = generateApiToken l s \<and> token_parts l s"
  then have "length l = 12" "length s = 32" by (simp_all add: token_parts_def LOOKUP_LEN_def SECRET_LEN_def)
  with g show "parseApiToken raw = Some (l, s)"
    by (simp add: parseApiToken_def js_starts_with_def generateApiToken_def token_parts_def API_TOKEN_PREFIX_def LOOKUP_LEN_def
        SECRET_LEN_def nth_append)
qed

lemma parse_generated: "token_parts l s \<Longrightarrow> parseApiToken (generateApiToken l s) = Some (l, s)"
  by (simp add: parse_iff generated_trim)

subsection \<open>The comparison\<close>

lemma word_length_eq:
  assumes "m < 2 ^ 32" and "n < 2 ^ 32"
  shows "(word_of_nat m XOR word_of_nat n :: 32 word) = 0 \<longleftrightarrow> m = n"
proof -
  have "(word_of_nat m XOR word_of_nat n :: 32 word) = 0 \<longleftrightarrow> (word_of_nat m :: 32 word) = word_of_nat n"
    by (auto simp: bit_eq_iff bit_xor_iff)
  also have "\<dots> \<longleftrightarrow> m = n" using assms by (simp add: word_of_nat_eq_iff take_bit_eq_mod)
  finally show ?thesis .
qed

lemma token_equal_iff: "length a < 2 ^ 32 \<Longrightarrow> length b < 2 ^ 32 \<Longrightarrow> token_equal a b \<longleftrightarrow> a = b"
  by (auto simp: token_equal_def fold_or_zero word_length_eq xor_code_units intro: nth_equalityI)

subsection \<open>The table as a machine\<close>

datatype token_op =
    MintOp "string \<times> string \<times> string" string "jvalue option" principal_type "string option" "string option" string
  | MintPublishOp "string \<times> string \<times> string" string string string string
  | PatchOp token_patch string
  | RevokeOp string
  | RevokePublishOp string string
  | TouchOp string
  | ClaimsOp "claim_row list"

record token_world =
  tw_claims :: "claim_row list"
  tw_db :: "api_token list"

fun token_step :: "(string \<Rightarrow> string) \<Rightarrow> (string \<Rightarrow> int option) \<Rightarrow> int \<times> token_op \<Rightarrow> token_world \<Rightarrow> token_world" where
  "token_step hash legacy (now, MintOp fresh name scopes ptype pid expires createdBy) w =
     w\<lparr>tw_db := snd (mint_token hash legacy fresh now name scopes ptype pid expires createdBy (tw_db w))\<rparr>"
| "token_step hash legacy (now, MintPublishOp fresh userId sourceId orgId name) w =
     w\<lparr>tw_db := snd (mintPublishTokenCapped hash fresh now (tw_claims w) userId sourceId orgId name (tw_db w))\<rparr>"
| "token_step hash legacy (now, PatchOp p i) w = w\<lparr>tw_db := patch_token legacy p i (tw_db w)\<rparr>"
| "token_step hash legacy (now, RevokeOp i) w = w\<lparr>tw_db := revoke_token now i (tw_db w)\<rparr>"
| "token_step hash legacy (now, RevokePublishOp userId i) w = w\<lparr>tw_db := snd (revokePublishToken now userId i (tw_db w))\<rparr>"
| "token_step hash legacy (now, TouchOp i) w = w\<lparr>tw_db := touchLastUsed now i (tw_db w)\<rparr>"
| "token_step hash legacy (now, ClaimsOp claims) w = w\<lparr>tw_claims := claims\<rparr>"

definition token_run :: "(string \<Rightarrow> string) \<Rightarrow> (string \<Rightarrow> int option) \<Rightarrow> (int \<times> token_op) list \<Rightarrow> token_world \<Rightarrow> token_world" where
  "token_run hash legacy ops w = fold (token_step hash legacy) ops w"

definition new_tokens :: token_world where
  "new_tokens = \<lparr>tw_claims = [], tw_db = []\<rparr>"

text \<open>
  A statement keeps every row under its identifier, lookup part, digest, principal and source, and a revoked row revoked,
  and adds at most one row, fresh in both unique columns.
\<close>

definition same_row :: "api_token \<Rightarrow> api_token \<Rightarrow> bool" where
  "same_row r r' \<longleftrightarrow> at_id r' = at_id r \<and> at_lookup r' = at_lookup r \<and> at_hash r' = at_hash r \<and>
     at_principal_type r' = at_principal_type r \<and> at_principal r' = at_principal r \<and> at_source r' = at_source r \<and>
     (at_active r' \<longrightarrow> at_active r) \<and> (at_revoked r \<noteq> None \<longrightarrow> at_revoked r' = at_revoked r)"

lemma same_row_refl [simp]: "same_row r r"
  by (simp add: same_row_def)

lemma same_row_trans: "same_row a b \<Longrightarrow> same_row b c \<Longrightarrow> same_row a c"
  by (auto simp: same_row_def)

definition keyed :: "api_token list \<Rightarrow> bool" where
  "keyed db \<longleftrightarrow> distinct (map at_id db) \<and> distinct (map at_lookup db)"

definition extends_db :: "api_token list \<Rightarrow> api_token list \<Rightarrow> bool" where
  "extends_db db db' \<longleftrightarrow> (\<exists>f new. db' = map f db @ new \<and> (\<forall>r \<in> set db. same_row r (f r)))"

lemma extends_refl [simp]: "extends_db db db"
  unfolding extends_db_def by (rule exI [of _ id], rule exI [of _ "[]"]) simp

lemma extends_map: "(\<And>r. r \<in> set db \<Longrightarrow> same_row r (f r)) \<Longrightarrow> extends_db db (map f db)"
  unfolding extends_db_def by (rule exI [of _ f], rule exI [of _ "[]"]) simp

lemma extends_append: "extends_db db (db @ new)"
  unfolding extends_db_def by (rule exI [of _ id], rule exI [of _ new]) simp

lemma extends_trans:
  assumes "extends_db a b" and "extends_db b c"
  shows "extends_db a c"
proof -
  obtain f n where f: "b = map f a @ n" "\<forall>r \<in> set a. same_row r (f r)" using assms(1) by (auto simp: extends_db_def)
  obtain g m where g: "c = map g b @ m" "\<forall>r \<in> set b. same_row r (g r)" using assms(2) by (auto simp: extends_db_def)
  have "c = map (g \<circ> f) a @ (map g n @ m)" using f(1) g(1) by simp
  moreover have "\<forall>r \<in> set a. same_row r ((g \<circ> f) r)" using f g same_row_trans by auto
  ultimately show ?thesis unfolding extends_db_def by blast
qed

lemma keyed_map: "keyed db \<Longrightarrow> (\<And>r. r \<in> set db \<Longrightarrow> same_row r (f r)) \<Longrightarrow> keyed (map f db)"
  by (simp add: keyed_def same_row_def comp_def cong: map_cong)

lemma patch_row_same: "patch_row legacy p e = Some f \<Longrightarrow> same_row r (f r)"
  by (auto simp: patch_row_def Let_def same_row_def split: option.splits if_splits expiry_patch.splits)

lemma patch_token_same: "\<exists>f. patch_token legacy p i db = map f db \<and> (\<forall>r. same_row r (f r))"
proof (cases "\<exists>e f. find (\<lambda>row. at_id row = i) db = Some e \<and> patch_row legacy p e = Some f")
  case True
  then obtain e f where ef: "find (\<lambda>row. at_id row = i) db = Some e" "patch_row legacy p e = Some f" by blast
  then show ?thesis using patch_row_same
    by (intro exI [of _ "\<lambda>row. if at_id row = i then f row else row"]) (auto simp: patch_token_def)
next
  case False
  then have "patch_token legacy p i db = map id db" by (auto simp: patch_token_def split: option.split)
  then show ?thesis by (metis id_apply same_row_refl)
qed

lemma revoke_same: "\<exists>f. revoke_where P now db = map f db \<and> (\<forall>r. same_row r (f r))"
  by (rule exI [of _ "\<lambda>row. if P row \<and> at_revoked row = None then revoke_row now row else row"])
    (auto simp: revoke_where_def revoke_row_def same_row_def)

lemma touch_same: "\<exists>f. touchLastUsed now i db = map f db \<and> (\<forall>r. same_row r (f r))"
  by (rule exI, rule conjI [OF touchLastUsed_def]) (auto simp: same_row_def)

lemma insert_keyed: "keyed db \<Longrightarrow> insert_token row db = Some db' \<Longrightarrow> keyed db' \<and> db' = db @ [row]"
  by (auto simp: insert_token_def keyed_def split: if_splits)

lemma mint_shape:
  "snd (mint_token hash legacy fresh now name scopes ptype pid expires createdBy db) = db \<or>
   (\<exists>row. insert_token row db = Some (snd (mint_token hash legacy fresh now name scopes ptype pid expires createdBy db)) \<and> at_source row = None)"
  by (cases fresh) (auto simp: mint_token_def split: option.split)

lemma mint_publish_shape:
  "snd (mintPublishTokenCapped hash fresh now claims userId sourceId orgId name db) = db \<or>
   (\<exists>row. insert_token row db = Some (snd (mintPublishTokenCapped hash fresh now claims userId sourceId orgId name db)) \<and>
      activePublishCount userId sourceId db < MAX_PUBLISH_TOKENS_PER_SOURCE \<and> at_source row = Some sourceId \<and> at_principal row = Some userId)"
  by (cases fresh) (auto simp: mintPublishTokenCapped_def split: option.split)

lemma step_extends:
  assumes "keyed (tw_db w)"
  shows "keyed (tw_db (token_step hash legacy op w))" and "extends_db (tw_db w) (tw_db (token_step hash legacy op w))"
proof -
  obtain now x where op: "op = (now, x)" by (cases op)
  have map_case: "keyed db' \<and> extends_db (tw_db w) db'" if "\<exists>f. db' = map f (tw_db w) \<and> (\<forall>r. same_row r (f r))" for db'
    using that assms keyed_map extends_map by blast
  have ins_case: "keyed db' \<and> extends_db (tw_db w) db'" if "db' = tw_db w \<or> (\<exists>row. insert_token row (tw_db w) = Some db')" for db'
    using that insert_keyed [OF assms] extends_append extends_refl assms by metis
  have "keyed (tw_db (token_step hash legacy op w)) \<and> extends_db (tw_db w) (tw_db (token_step hash legacy op w))"
  proof (cases x)
    case (MintOp fresh name scopes ptype pid expires createdBy)
    then show ?thesis using mint_shape ins_case by (simp add: op) blast
  next
    case (MintPublishOp fresh userId sourceId orgId name)
    then show ?thesis using mint_publish_shape ins_case by (simp add: op) blast
  next
    case (PatchOp p i)
    then show ?thesis using patch_token_same map_case by (simp add: op)
  next
    case (RevokeOp i)
    then show ?thesis using revoke_same map_case by (simp add: op revoke_token_def)
  next
    case (RevokePublishOp userId i)
    have "snd (revokePublishToken now userId i (tw_db w)) = tw_db w \<or>
        snd (revokePublishToken now userId i (tw_db w)) = revoke_where (\<lambda>r. at_id r = i \<and> owned_publish userId r) now (tw_db w)"
      by (simp add: revokePublishToken_def split: option.split)
    then show ?thesis using revoke_same [of _ now "tw_db w"] map_case assms RevokePublishOp by (auto simp: op)
  next
    case (TouchOp i)
    then show ?thesis using touch_same map_case by (simp add: op)
  qed (use assms in \<open>simp add: op\<close>)
  then show "keyed (tw_db (token_step hash legacy op w))" "extends_db (tw_db w) (tw_db (token_step hash legacy op w))" by blast+
qed

lemma run_extends:
  assumes "keyed (tw_db w)"
  shows "keyed (tw_db (token_run hash legacy ops w)) \<and> extends_db (tw_db w) (tw_db (token_run hash legacy ops w))"
  using assms
proof (induction ops arbitrary: w)
  case (Cons op ops)
  from step_extends [OF Cons.prems, of hash legacy op] Cons.IH [of "token_step hash legacy op w"] extends_trans
  show ?case by (auto simp: token_run_def)
qed (simp add: token_run_def)

lemma new_tokens_keyed [simp]: "keyed (tw_db new_tokens)"
  by (simp add: new_tokens_def keyed_def)

subsection \<open>The cap\<close>

lemma count_same:
  assumes "\<forall>r. same_row r (f r)"
  shows "activePublishCount u i (map f db) \<le> activePublishCount u i db"
proof -
  have "active_publish u i (f r) \<Longrightarrow> active_publish u i r" for r
    using assms by (cases "at_revoked r") (auto simp: active_publish_def same_row_def)
  then have "length (filter (\<lambda>r. active_publish u i (f r)) db) \<le> length (filter (active_publish u i) db)"
    by (induction db) auto
  then show ?thesis by (simp add: activePublishCount_def filter_map comp_def)
qed

definition capped :: "api_token list \<Rightarrow> bool" where
  "capped db \<longleftrightarrow> (\<forall>u i. activePublishCount u i db \<le> MAX_PUBLISH_TOKENS_PER_SOURCE)"

lemma capped_map: "capped db \<Longrightarrow> \<exists>f. db' = map f db \<and> (\<forall>r. same_row r (f r)) \<Longrightarrow> capped db'"
  using count_same le_trans unfolding capped_def by metis

lemma insert_append: "insert_token row db = Some db' \<Longrightarrow> db' = db @ [row]"
  by (simp add: insert_token_def split: if_splits)

lemma capped_step:
  assumes "capped (tw_db w)"
  shows "capped (tw_db (token_step hash legacy op w))"
proof -
  obtain now x where op: "op = (now, x)" by (cases op)
  show ?thesis
  proof (cases x)
    case (MintOp fresh name scopes ptype pid expires createdBy)
    let ?db = "snd (mint_token hash legacy fresh now name scopes ptype pid expires createdBy (tw_db w))"
    from mint_shape [of hash legacy fresh now name scopes ptype pid expires createdBy "tw_db w"]
    have "capped ?db"
    proof
      assume "\<exists>row. insert_token row (tw_db w) = Some ?db \<and> at_source row = None"
      then obtain row where "?db = tw_db w @ [row]" "at_source row = None" using insert_append by blast
      then show ?thesis using assms by (simp add: capped_def activePublishCount_def active_publish_def)
    qed (use assms in simp)
    then show ?thesis by (simp add: op MintOp)
  next
    case (MintPublishOp fresh userId sourceId orgId name)
    let ?db = "snd (mintPublishTokenCapped hash fresh now (tw_claims w) userId sourceId orgId name (tw_db w))"
    from mint_publish_shape [of hash fresh now "tw_claims w" userId sourceId orgId name "tw_db w"]
    have "capped ?db"
    proof
      assume "\<exists>row. insert_token row (tw_db w) = Some ?db \<and>
        activePublishCount userId sourceId (tw_db w) < MAX_PUBLISH_TOKENS_PER_SOURCE \<and> at_source row = Some sourceId \<and> at_principal row = Some userId"
      then obtain row where "?db = tw_db w @ [row]" "activePublishCount userId sourceId (tw_db w) < MAX_PUBLISH_TOKENS_PER_SOURCE"
        "at_source row = Some sourceId" "at_principal row = Some userId" using insert_append by blast
      then show ?thesis using assms by (auto simp: capped_def activePublishCount_def active_publish_def)
    qed (use assms in simp)
    then show ?thesis by (simp add: op MintPublishOp)
  next
    case (PatchOp p i)
    then show ?thesis using capped_map [OF assms patch_token_same] by (simp add: op)
  next
    case (RevokeOp i)
    then show ?thesis using capped_map [OF assms revoke_same] by (simp add: op revoke_token_def)
  next
    case (RevokePublishOp userId i)
    have "snd (revokePublishToken now userId i (tw_db w)) = tw_db w \<or>
        snd (revokePublishToken now userId i (tw_db w)) = revoke_where (\<lambda>r. at_id r = i \<and> owned_publish userId r) now (tw_db w)"
      by (simp add: revokePublishToken_def split: option.split)
    then show ?thesis using capped_map [OF assms revoke_same] assms RevokePublishOp by (auto simp: op)
  next
    case (TouchOp i)
    then show ?thesis using capped_map [OF assms touch_same] by (simp add: op)
  qed (use assms in \<open>simp add: op\<close>)
qed

text \<open>C15: Whatever statements run, from any number of requests and in any order, no user ever holds more than five active publish
  tokens for one source.
\<close>

theorem publish_cap:
  "activePublishCount userId sourceId (tw_db (token_run hash legacy ops new_tokens)) \<le> MAX_PUBLISH_TOKENS_PER_SOURCE"
proof -
  have "capped (tw_db (token_run hash legacy ops w))" if "capped (tw_db w)" for w
    using that unfolding token_run_def by (induction ops arbitrary: w) (simp_all add: capped_step)
  moreover have "capped (tw_db new_tokens)" by (simp add: capped_def new_tokens_def activePublishCount_def)
  ultimately show ?thesis by (simp add: capped_def)
qed

subsection \<open>Revocation\<close>

lemma find_lookup:
  assumes "keyed db" and "r \<in> set db"
  shows "find (\<lambda>row. at_lookup row = at_lookup r) db = Some r"
  using assms
proof (induction db)
  case (Cons x db)
  then show ?case by (cases "x = r") (auto simp: keyed_def)
qed simp

lemma extends_row: "extends_db db db' \<Longrightarrow> r \<in> set db \<Longrightarrow> \<exists>r' \<in> set db'. same_row r r'"
  unfolding extends_db_def by auto

lemma revoked_refused: "has_text (at_revoked row) \<Longrightarrow> verify_row json h now row = None"
  by (simp add: verify_row_def)

lemma iso_text_nonempty [simp]: "iso_text t \<noteq> []"
  by (simp add: iso_text_def)

text \<open>C16: A revoked token is refused from then on, whatever statements follow: no edit, mint or touch brings it back.
\<close>

theorem revoked_forever:
  assumes "w = token_run hash legacy before new_tokens" and "row \<in> set (tw_db w)" and "at_revoked row \<noteq> Some []"
    and "parseApiToken raw = Some (at_lookup row, secret)"
  shows "verifyApiToken hash json (tw_db (token_run hash legacy ((now, RevokeOp (at_id row)) # later) w)) raw t = None"
proof -
  have k: "keyed (tw_db w)" using run_extends [OF new_tokens_keyed] assms(1) by blast
  let ?w1 = "token_step hash legacy (now, RevokeOp (at_id row)) w"
  define r1 where "r1 = (if at_revoked row = None then revoke_row now row else row)"
  have "r1 \<in> set (tw_db ?w1)"
    using assms(2) by (auto simp: revoke_token_def revoke_where_def r1_def)
  moreover have r1: "at_lookup r1 = at_lookup row" "has_text (at_revoked r1)"
    using assms(3) by (auto simp: r1_def revoke_row_def has_text_def text_of_def split: option.split)
  moreover have k1: "keyed (tw_db ?w1)" by (rule step_extends(1) [OF k])
  moreover have e: "keyed (tw_db (token_run hash legacy later ?w1)) \<and> extends_db (tw_db ?w1) (tw_db (token_run hash legacy later ?w1))"
    by (rule run_extends [OF k1])
  ultimately obtain r2 where r2: "r2 \<in> set (tw_db (token_run hash legacy later ?w1))" "same_row r1 r2" using extends_row by blast
  then have "at_lookup r2 = at_lookup row" "has_text (at_revoked r2)"
    using r1 by (auto simp: same_row_def has_text_def text_of_def split: option.splits)
  with find_lookup [of _ r2] e r2(1) revoked_refused show ?thesis
    by (simp add: verifyApiToken_def assms(4) token_run_def)
qed

theorem revoked_forever_witness:
  "verifyApiToken rev (\<lambda>_. Some (VArr [VStr ''read'']))
     (tw_db (token_run rev (\<lambda>_. None) [(1000, RevokeOp ''a''), (2000, PatchOp \<lparr>tp_name = Some ''n'', tp_scopes = None, tp_expires = ClearExpiry\<rparr> ''a'')]
       (token_run rev (\<lambda>_. None) [(0, MintOp (''a'', replicate 12 CHR ''a'', replicate 32 CHR ''b'') ''ci'' (Some (VArr [VStr ''read''])) AgentPrincipal None None ''root'')] new_tokens)))
     (generateApiToken (replicate 12 CHR ''a'') (replicate 32 CHR ''b'')) 3000 = None"
proof -
  let ?row = "\<lparr>at_id = ''a'', at_lookup = replicate 12 CHR ''a'', at_hash = rev (replicate 32 CHR ''b''), at_name = ''ci'', at_scopes = scopes_json [''read''],
     at_principal_type = AgentPrincipal, at_principal = None, at_active = True, at_revoked = None, at_expires = None, at_last_used = None,
     at_created = iso_text 0, at_created_by = Some ''root'', at_source = None\<rparr>"
  let ?w = "token_run rev (\<lambda>_. None) [(0, MintOp (''a'', replicate 12 CHR ''a'', replicate 32 CHR ''b'') ''ci'' (Some (VArr [VStr ''read''])) AgentPrincipal None None ''root'')] new_tokens"
  have "tw_db ?w = [?row]"
    by (simp add: token_run_def mint_token_def validateScopes_def isApiScope_def API_SCOPES_def mint_expiry_def has_text_def text_of_def
        insert_token_def new_tokens_def)
  then have r: "?row \<in> set (tw_db ?w)" by simp
  have "parseApiToken (generateApiToken (replicate 12 CHR ''a'') (replicate 32 CHR ''b'')) = Some (at_lookup ?row, replicate 32 CHR ''b'')"
    using parse_generated [of "replicate 12 CHR ''a''" "replicate 32 CHR ''b''"]
    by (simp add: token_parts_def LOOKUP_LEN_def SECRET_LEN_def list_all_iff is_alnum_def is_lower_def code_unit_def)
  from revoked_forever [OF refl r _ this] show ?thesis by simp
qed

subsection \<open>The life of one token\<close>

text \<open>A statement that neither edits nor revokes a token leaves its row alone but for the moment of its last use.\<close>

definition used_row :: "api_token \<Rightarrow> api_token \<Rightarrow> bool" where
  "used_row r r' \<longleftrightarrow> (\<exists>u. r' = r\<lparr>at_last_used := u\<rparr>)"

fun spares :: "string \<Rightarrow> int \<times> token_op \<Rightarrow> bool" where
  "spares i (_, PatchOp _ j) \<longleftrightarrow> j \<noteq> i"
| "spares i (_, RevokeOp j) \<longleftrightarrow> j \<noteq> i"
| "spares i _ \<longleftrightarrow> True"

lemma used_refl [simp]: "used_row r r"
  unfolding used_row_def by (rule exI [of _ "at_last_used r"]) simp

lemma used_touch [simp]: "used_row r (r\<lparr>at_last_used := u\<rparr>)"
  unfolding used_row_def by blast

lemma used_trans: "used_row a b \<Longrightarrow> used_row b c \<Longrightarrow> used_row a c"
  unfolding used_row_def by auto

lemma used_same: "used_row r r' \<Longrightarrow> at_id r' = at_id r \<and> at_source r' = at_source r"
  unfolding used_row_def by auto

lemma used_mem: "r \<in> set db \<Longrightarrow> \<exists>r' \<in> set db. used_row r r'"
  using used_refl by blast

lemma used_verify: "used_row r r' \<Longrightarrow> verify_row json h now r' = verify_row json h now r"
  unfolding used_row_def by (elim exE) (simp add: verify_row_def Let_def cong: if_cong option.case_cong)

lemma patch_spares: "j \<noteq> at_id r \<Longrightarrow> r \<in> set db \<Longrightarrow> r \<in> set (patch_token legacy p j db)"
  unfolding patch_token_def by (force split: option.split)

lemma revoke_spares: "\<not> P r \<Longrightarrow> r \<in> set db \<Longrightarrow> r \<in> set (revoke_where P now db)"
  unfolding revoke_where_def by force

lemma insert_spares: "db' = db \<or> (\<exists>row. insert_token row db = Some db') \<Longrightarrow> r \<in> set db \<Longrightarrow> r \<in> set db'"
  using insert_append by fastforce

lemma touch_spares:
  assumes "r \<in> set db"
  shows "\<exists>r' \<in> set (touchLastUsed now i db). used_row r r'"
proof -
  let ?f = "\<lambda>row. if at_id row = i \<and> (case at_last_used row of None \<Rightarrow> True | Some t \<Rightarrow> t < iso_text (now - LAST_USED_THROTTLE_MS))
    then row\<lparr>at_last_used := Some (iso_text now)\<rparr> else row"
  have "?f r \<in> set (touchLastUsed now i db)" using assms unfolding touchLastUsed_def by simp
  moreover have "used_row r (?f r)" by (simp add: used_touch)
  ultimately show ?thesis by blast
qed

lemma step_spares:
  assumes "spares (at_id r) op" and "r \<in> set (tw_db w)" and "at_source r = None"
  shows "\<exists>r' \<in> set (tw_db (token_step hash legacy op w)). used_row r r'"
proof -
  obtain now x where op: "op = (now, x)" by (cases op)
  show ?thesis
  proof (cases x)
    case (MintOp fresh name scopes ptype pid expires createdBy)
    have "r \<in> set (snd (mint_token hash legacy fresh now name scopes ptype pid expires createdBy (tw_db w)))"
      by (rule insert_spares [OF _ assms(2)]) (use mint_shape in blast)
    then show ?thesis using used_mem by (simp add: op MintOp)
  next
    case (MintPublishOp fresh userId sourceId orgId name)
    have "r \<in> set (snd (mintPublishTokenCapped hash fresh now (tw_claims w) userId sourceId orgId name (tw_db w)))"
      by (rule insert_spares [OF _ assms(2)]) (use mint_publish_shape in blast)
    then show ?thesis using used_mem by (simp add: op MintPublishOp)
  next
    case (PatchOp p j)
    then have "r \<in> set (patch_token legacy p j (tw_db w))" using assms patch_spares by (simp add: op)
    then show ?thesis using used_mem by (simp add: op PatchOp)
  next
    case (RevokeOp j)
    then have "r \<in> set (revoke_token now j (tw_db w))" using assms revoke_spares by (simp add: op revoke_token_def)
    then show ?thesis using used_mem by (simp add: op RevokeOp)
  next
    case (RevokePublishOp userId j)
    have "r \<in> set (snd (revokePublishToken now userId j (tw_db w)))"
      using assms revoke_spares [of "\<lambda>r. at_id r = j \<and> owned_publish userId r" r "tw_db w" now]
      by (simp add: revokePublishToken_def owned_publish_def split: option.split)
    then show ?thesis using used_mem by (simp add: op RevokePublishOp)
  next
    case (TouchOp j)
    then show ?thesis using touch_spares [OF assms(2)] by (simp add: op)
  next
    case (ClaimsOp claims)
    then show ?thesis using used_mem [OF assms(2)] by (simp add: op)
  qed
qed

lemma run_spares:
  assumes "list_all (spares (at_id r)) ops" and "r \<in> set (tw_db w)" and "at_source r = None"
  shows "\<exists>r' \<in> set (tw_db (token_run hash legacy ops w)). used_row r r'"
  using assms
proof (induction ops arbitrary: w r)
  case (Cons op ops)
  obtain r1 where r1: "r1 \<in> set (tw_db (token_step hash legacy op w))" "used_row r r1"
    using step_spares [of r op w] Cons.prems by auto
  note used_same [OF r1(2)]
  then obtain r2 where "r2 \<in> set (tw_db (token_run hash legacy ops (token_step hash legacy op w)))" "used_row r1 r2"
    using Cons.IH [of r1 "token_step hash legacy op w"] Cons.prems r1(1) by auto
  then show ?case using used_trans r1(2) by (auto simp: token_run_def)
qed (simp add: token_run_def used_mem)

text \<open>The scopes a mint stores read back as they were, in any parser of the format.\<close>

lemma ladder_scopes: "validateScopes raw = Some ss \<Longrightarrow> ss \<noteq> [] \<and> PUBLISH_SCOPE \<notin> set ss"
proof -
  assume v: "validateScopes raw = Some ss"
  then obtain x xs where raw: "raw = Some (VArr (x # xs))" and ok: "case x of VStr s \<Rightarrow> isApiScope s | _ \<Rightarrow> False"
    and ss: "ss = filter (\<lambda>s. VStr s \<in> set (x # xs)) API_SCOPES"
    by (auto simp: validateScopes_def split: option.splits jvalue.splits list.splits if_splits)
  from ok obtain s where "x = VStr s" "s \<in> set API_SCOPES" by (auto simp: isApiScope_def split: jvalue.splits)
  then show "ss \<noteq> [] \<and> PUBLISH_SCOPE \<notin> set ss"
    using ss by (auto simp: filter_empty_conv API_SCOPES_def PUBLISH_SCOPE_def)
qed

lemma stored_texts: "json t = Some (VArr (map VStr ss)) \<Longrightarrow> parseStoredScopes json t = ss"
  by (induction ss arbitrary: json t) (simp_all add: parseStoredScopes_def List.map_filter_def)

text \<open>The row a successful mint adds.\<close>

lemma minted_row:
  assumes "mint_token hash legacy (i, l, s) now name scopes ptype pid expires createdBy db = (Some raw, db')"
  obtains ss expiry row where "validateScopes scopes = Some ss" and "mint_expiry legacy expires = Some expiry" and "row \<in> set db'"
    and "at_id row = i" and "at_lookup row = l" and "at_hash row = hash s" and "at_scopes row = scopes_json ss"
    and "at_principal_type row = ptype" and "at_principal row = pid" and "at_active row" and "at_revoked row = None"
    and "at_expires row = expiry" and "at_source row = None" and "raw = generateApiToken l s"
proof -
  from assms obtain ss expiry where v: "validateScopes scopes = Some ss" "mint_expiry legacy expires = Some expiry"
    by (auto simp: mint_token_def split: option.splits)
  show thesis by (rule that [OF v]) (use assms v in \<open>auto simp: mint_token_def insert_token_def split: option.splits if_splits\<close>)
qed

lemma keyed_mint: "keyed db \<Longrightarrow> keyed (snd (mint_token hash legacy fresh now name scopes ptype pid expires createdBy db))"
  using mint_shape insert_keyed by metis

text \<open>The stored expiry is compared as an instant, whatever text was asked for.\<close>

lemma expiry_instant:
  assumes "mint_expiry legacy expires = Some expiry" and "instant t" and "\<And>e. date_parse legacy (text_of expires) = Some e \<Longrightarrow> instant e"
  shows "has_text expiry \<and> text_of expiry \<le> iso_text t \<longleftrightarrow>
    has_text expires \<and> (\<exists>e. date_parse legacy (text_of expires) = Some e \<and> e \<le> t)"
proof (cases "has_text expires")
  case True
  then obtain e where e: "date_parse legacy (text_of expires) = Some e" "expiry = Some (iso_text e)"
    using assms(1) by (auto simp: mint_expiry_def split: option.splits)
  then have "iso_text e \<le> iso_text t \<longleftrightarrow> e \<le> t" using instant_less(2) [of e t] assms(2,3) by blast
  with e True show ?thesis by (simp add: has_text_def text_of_def)
qed (use assms(1) in \<open>auto simp: mint_expiry_def\<close>)

text \<open>C10: A minted token is worth exactly what was asked for: whatever statements follow that neither edit nor revoke it, it is
  accepted with its scopes in ladder order and its principal until the instant its expiry names, and refused from then on.
\<close>

theorem token_life:
  assumes "w = token_run hash legacy before new_tokens"
    and "mint_token hash legacy (i, l, s) now name scopes ptype pid expires createdBy (tw_db w) = (Some raw, db')"
    and "validateScopes scopes = Some ss" and "token_parts l s" and "length (hash s) < 2 ^ 32"
    and "json (scopes_json ss) = Some (VArr (map VStr ss))" and "list_all (spares i) later"
    and "instant t" and "\<And>e. date_parse legacy (text_of expires) = Some e \<Longrightarrow> instant e"
  shows "verifyApiToken hash json (tw_db (token_run hash legacy later (w\<lparr>tw_db := db'\<rparr>))) raw t =
    (if has_text expires \<and> (\<exists>e. date_parse legacy (text_of expires) = Some e \<and> e \<le> t) then None
     else Some \<lparr>vt_id = i, vt_scopes = ss, vt_principal_type = ptype, vt_principal = pid, vt_source = None\<rparr>)"
proof -
  obtain ss' expiry row where m: "validateScopes scopes = Some ss'" "mint_expiry legacy expires = Some expiry" "row \<in> set db'"
    "at_id row = i" "at_lookup row = l" "at_hash row = hash s" "at_scopes row = scopes_json ss'" "at_principal_type row = ptype"
    "at_principal row = pid" "at_active row" "at_revoked row = None" "at_expires row = expiry" "at_source row = None"
    "raw = generateApiToken l s"
    using minted_row [OF assms(2)] by blast
  let ?w = "w\<lparr>tw_db := db'\<rparr>"
  have "keyed db'" using keyed_mint run_extends [OF new_tokens_keyed] assms(1,2) by (metis snd_conv)
  then have k: "keyed (tw_db (token_run hash legacy later ?w))" using run_extends [of ?w] by simp
  obtain row' where r: "row' \<in> set (tw_db (token_run hash legacy later ?w))" "used_row row row'"
    using run_spares [of row later ?w hash legacy] m assms(7) by auto
  then have "at_lookup row' = l" using m(5) unfolding used_row_def by auto
  with find_lookup [OF k r(1)] have f: "find (\<lambda>x. at_lookup x = l) (tw_db (token_run hash legacy later ?w)) = Some row'" by simp
  have ok: "ss \<noteq> []" "PUBLISH_SCOPE \<notin> set ss" "ss' = ss" using ladder_scopes assms(3) m(1) by auto
  have "verifyApiToken hash json (tw_db (token_run hash legacy later ?w)) raw t = verify_row json (hash s) t row"
    using parse_generated [OF assms(4)] f used_verify [OF r(2)] by (simp add: verifyApiToken_def m(14))
  also have "\<dots> = (if has_text expiry \<and> text_of expiry \<le> iso_text t then None
     else Some \<lparr>vt_id = i, vt_scopes = ss, vt_principal_type = ptype, vt_principal = pid, vt_source = None\<rparr>)"
    using m ok token_equal_iff [OF assms(5) assms(5)] stored_texts [of json "scopes_json ss" ss] assms(6)
    by (simp add: verify_row_def Let_def has_text_def text_of_def)
  finally show ?thesis using expiry_instant [OF m(2) assms(8,9)] by simp
qed

theorem token_life_witness:
  "verifyApiToken rev (\<lambda>_. Some (VArr (map VStr [''read'', ''write''])))
     (tw_db (token_run rev (\<lambda>_. None) [(2000, TouchOp ''a''), (3000, RevokeOp ''b'')]
       (new_tokens\<lparr>tw_db := snd (mint_token rev (\<lambda>_. None) (''a'', replicate 12 CHR ''a'', replicate 32 CHR ''b'') 0 ''ci''
          (Some (VArr [VStr ''write'', VStr ''read''])) AgentPrincipal None (Some (iso_text 5000)) ''root'' [])\<rparr>)))
     (generateApiToken (replicate 12 CHR ''a'') (replicate 32 CHR ''b'')) 4000 =
   Some \<lparr>vt_id = ''a'', vt_scopes = [''read'', ''write''], vt_principal_type = AgentPrincipal, vt_principal = None, vt_source = None\<rparr>"
proof -
  have i: "instant 4000" "instant 5000"
    by (simp_all add: instant_def keyDay_def dayFromCivil_def yearStart_def monthStart_def monthDays_def leap_def)
  have d: "date_parse (\<lambda>_. None) (text_of (Some (iso_text 5000))) = Some 5000"
    using date_parse_iso [OF i(2)] by (simp add: text_of_def)
  have sc: "validateScopes (Some (VArr [VStr ''write'', VStr ''read''])) = Some [''read'', ''write'']"
    by (simp add: validateScopes_def isApiScope_def API_SCOPES_def)
  let ?m = "mint_token rev (\<lambda>_. None) (''a'', replicate 12 CHR ''a'', replicate 32 CHR ''b'') 0 ''ci''
          (Some (VArr [VStr ''write'', VStr ''read''])) AgentPrincipal None (Some (iso_text 5000)) ''root'' []"
  have "mint_expiry (\<lambda>_. None) (Some (iso_text 5000)) = Some (Some (iso_text 5000))"
    using d by (simp add: mint_expiry_def has_text_def text_of_def)
  then have m: "?m = (Some (generateApiToken (replicate 12 CHR ''a'') (replicate 32 CHR ''b'')), snd ?m)"
    by (simp add: mint_token_def sc insert_token_def)
  have p: "token_parts (replicate 12 CHR ''a'') (replicate 32 CHR ''b'')"
    by (simp add: token_parts_def LOOKUP_LEN_def SECRET_LEN_def list_all_iff is_alnum_def is_lower_def code_unit_def)
  have h: "length (rev (replicate 32 CHR ''b'')) < 2 ^ 32" by simp
  have w: "new_tokens = token_run rev (\<lambda>_. None) [] new_tokens" by (simp add: token_run_def)
  have "tw_db new_tokens = []" by (simp add: new_tokens_def)
  with m have m': "mint_token rev (\<lambda>_. None) (''a'', replicate 12 CHR ''a'', replicate 32 CHR ''b'') 0 ''ci''
      (Some (VArr [VStr ''write'', VStr ''read''])) AgentPrincipal None (Some (iso_text 5000)) ''root'' (tw_db new_tokens)
    = (Some (generateApiToken (replicate 12 CHR ''a'') (replicate 32 CHR ''b'')), snd ?m)" by simp
  from token_life [OF w m' sc p h, where json = "\<lambda>_. Some (VArr (map VStr [''read'', ''write'']))" and t = 4000 and
      later = "[(2000, TouchOp ''a''), (3000, RevokeOp ''b'')]"] d i
  show ?thesis by (simp add: has_text_def text_of_def)
qed

subsection \<open>An edited expiry\<close>

lemma iso_text_head:
  assumes "instant t"
  obtains d ds where "iso_text t = d # ds" and "is_digit d"
proof -
  obtain y m d where c: "civilFromDay (t div msPerDay) = (y, m, d)" by (metis prod_cases3)
  have n: "keyDay (t div msPerDay)" using assms by (simp add: instant_def)
  note f = dateKey_fields [OF n c]
  from pad_dec [OF f(2,3)] obtain x xs where "pad_int 4 y = x # xs" "is_digit x" by (cases "pad_int 4 y") auto
  then show thesis using that f(1) by (simp add: iso_text_def date_string_key)
qed

lemma iso_text_below:
  assumes "instant t" and "CHR ''9'' < c"
  shows "\<not> c # rest \<le> iso_text t"
proof -
  obtain d ds where d: "iso_text t = d # ds" "is_digit d" using iso_text_head [OF assms(1)] .
  have "code_unit CHR ''9'' = 57" by (simp add: code_unit_def)
  then have "d < c" using d(2) assms(2) by (simp add: is_digit_def less_char_code)
  then show ?thesis using d(1) by auto
qed

text \<open>
  An edit stores the text it is given.  One in another accepted form is still compared character by character, so a past
  day written with its month first never expires.
\<close>

lemma patched_expiry_lasts:
  assumes "date_parse legacy txt = Some e" and "patch_row legacy \<lparr>tp_name = None, tp_scopes = None, tp_expires = SetExpiry txt\<rparr> row = Some f"
    and "txt = c # rest" and "CHR ''9'' < c" and "instant t" and "verify_row json h t (row\<lparr>at_expires := None\<rparr>) = Some v"
  shows "verify_row json h t (f row) = Some v"
proof -
  have f: "f row = row\<lparr>at_expires := Some txt\<rparr>" using assms(1,2) by (simp add: patch_row_def Let_def comp_def)
  have "\<not> txt \<le> iso_text t" using iso_text_below [OF assms(5,4)] assms(3) by simp
  then show ?thesis using assms(6) by (simp add: f verify_row_def Let_def has_text_def text_of_def split: if_splits option.splits)
qed

end
