(* ===== verification/AuthGate.thy ===== *)
theory AuthGate
  imports TokenLife
begin

section \<open>The authentication gate\<close>

text \<open>
  \<open>apps/api/src/middleware/auth.ts\<close>, \<open>apps/api/src/auth/api-key-scope.ts\<close>, \<open>packages/lib/src/secrets.ts\<close>, the shape test
  of \<open>packages/lib/src/oauth-jwt.ts\<close> and the source check at the head of the batch handler of
  \<open>apps/api/src/routes/sources.ts\<close>: how a presented credential becomes an identity, which requests it opens, and
  for whom it acts at the gate of a user's own data.  What
  the account service answers for a user key, the verdict on a signed token, the secret store and the database are
  arguments.  Telemetry is left out.
\<close>

subsection \<open>Scopes of user keys\<close>

fun LADDER :: "api_scope \<Rightarrow> string list" where
  "LADDER ScopeRead = [''read'']"
| "LADDER ScopeWrite = [''read'', ''write'']"
| "LADDER ScopeAdmin = [''read'', ''write'', ''admin'']"

definition scopeToPermissions :: "api_scope \<Rightarrow> (string \<times> string list) list" where
  "scopeToPermissions scope = [(''api'', LADDER scope)]"

definition USER_API_KEY_MAX_SCOPE :: api_scope where "USER_API_KEY_MAX_SCOPE = ScopeRead"

definition scope_of :: "string \<Rightarrow> api_scope option" where
  "scope_of s = find (\<lambda>x. scope_text x = s) [ScopeRead, ScopeWrite, ScopeAdmin]"

definition isWithinUserKeyCeiling :: "jvalue \<Rightarrow> bool" where
  "isWithinUserKeyCeiling v = (case v of
     VStr s \<Rightarrow> (case scope_of s of None \<Rightarrow> False
       | Some x \<Rightarrow> list_all (\<lambda>a. a \<in> set (LADDER USER_API_KEY_MAX_SCOPE)) (LADDER x))
   | _ \<Rightarrow> False)"

definition clampUserKeyScopes :: "string list \<Rightarrow> string list" where
  "clampUserKeyScopes scopes = filter (\<lambda>s. s \<in> set (LADDER USER_API_KEY_MAX_SCOPE)) scopes"

text \<open>The argument is the member \<open>api\<close> of the permissions.\<close>

definition apiScopesFromPermissions :: "jvalue option \<Rightarrow> string list" where
  "apiScopesFromPermissions actions =
     (case actions of Some (VArr vs) \<Rightarrow> List.map_filter (\<lambda>v. case v of VStr s \<Rightarrow> Some s | _ \<Rightarrow> None) vs | _ \<Rightarrow> [])"

subsection \<open>Secrets\<close>

text \<open>
  A binding answers each attempt with a secret, with nothing, or not at all (\<^const>\<open>None\<close>).  The caches keep what a
  binding answered; a binding that has answered once is modelled as one that answers that on the first attempt.
\<close>

type_synonym secret_binding = "nat \<Rightarrow> string option option"

definition RETRY_DELAYS_MS :: "nat list" where "RETRY_DELAYS_MS = [100, 400]"

definition getSecret :: "secret_binding option \<Rightarrow> string option option" where
  "getSecret binding = (case binding of None \<Rightarrow> Some None
     | Some get \<Rightarrow> (case List.map_filter get [0..<length RETRY_DELAYS_MS + 1] of [] \<Rightarrow> None | v # _ \<Rightarrow> Some v))"

definition getSecretWithFallback :: "secret_binding option \<Rightarrow> secret_binding option \<Rightarrow> string option option" where
  "getSecretWithFallback primary fallback = (case getSecret primary of
     None \<Rightarrow> None
   | Some v \<Rightarrow> (if has_text v then Some v else getSecret fallback))"

subsection \<open>Credentials\<close>

definition bearer :: "string option \<Rightarrow> string" where
  "bearer header = (let h = text_of header in if js_starts_with h ''Bearer '' then drop 7 h else [])"

definition is_base64url :: "char \<Rightarrow> bool" where
  "is_base64url c \<longleftrightarrow> is_alnum c \<or> c = CHR ''_'' \<or> c = CHR ''-''"

definition isJwtShaped :: "string \<Rightarrow> bool" where
  "isJwtShaped raw = (let parts = split_on CHR ''.'' raw in length parts = 3 \<and> list_all (\<lambda>p. p \<noteq> [] \<and> list_all is_base64url p) parts)"

text \<open>The expression \<open>/rate.?limit/i\<close>.\<close>

fun rate_limit_at :: "string \<Rightarrow> bool" where
  "rate_limit_at s = (take 4 s = ''rate'' \<and> (let r = drop 4 s in
     take 5 r = ''limit'' \<or> (case r of [] \<Rightarrow> False | c # r' \<Rightarrow> c \<noteq> CHR 10 \<and> c \<noteq> CHR 13 \<and> take 5 r' = ''limit'')))"

definition rate_limit_code :: "string \<Rightarrow> bool" where
  "rate_limit_code code = (let s = map lower_char code in list_ex (\<lambda>i. rate_limit_at (drop i s)) [0..<length s])"

record user_key =
  uk_id :: "string option"
  uk_reference :: "string option"
  uk_api :: "jvalue option"

text \<open>What the account service answers: no endpoint, a throw, a verdict with the key it found and the code of its error.\<close>

datatype key_reply = NoEndpoint | KeyThrew | KeyVerdict bool "user_key option" "string option"
datatype key_check = KeyOk "string list" string "string option" | KeyRefused bool

definition verifyUserKey :: "string \<Rightarrow> key_reply \<Rightarrow> key_check" where
  "verifyUserKey presented reply = (case reply of
     NoEndpoint \<Rightarrow> KeyRefused False
   | KeyThrew \<Rightarrow> KeyRefused False
   | KeyVerdict valid key code \<Rightarrow>
      (case (valid, key) of
         (True, Some k) \<Rightarrow> (let scopes = apiScopesFromPermissions (uk_api k)
            in if scopes \<noteq> [] then KeyOk scopes (case uk_id k of None \<Rightarrow> take 12 presented | Some i \<Rightarrow> i) (uk_reference k)
               else KeyRefused False)
       | _ \<Rightarrow> KeyRefused (rate_limit_code (text_of code))))"

subsection \<open>Identities\<close>

record jwt_verdict =
  jv_subject :: "string option"
  jv_client :: "string option"
  jv_scopes :: "string list"

record auth_env =
  ae_flags :: "flagship option"
  ae_tokens_disabled :: "string option"
  ae_user_keys_enabled :: "string option"
  ae_api_key :: "secret_binding option"
  ae_old_key :: "secret_binding option"
  ae_proxy_key :: "secret_binding option"
  ae_tokens :: "api_token list"
  ae_ownership :: "ownership_db option"
  ae_key :: "string \<Rightarrow> key_reply"
  ae_jwt :: "string \<Rightarrow> jwt_verdict option"
  ae_now :: int

record auth_token =
  ai_id :: string
  ai_scopes :: "string list"
  ai_ptype :: "principal_type option"
  ai_client :: "string option"
  ai_source :: "string option"

datatype resolved = ResolvedRoot "string list" | ResolvedToken auth_token | ResolvedRateLimited | ResolvedNone bool

definition apiTokensDisabled :: flag_def where
  "apiTokensDisabled = \<lparr>fd_key = ''api-tokens-disabled'', fd_default = False\<rparr>"

definition userApiKeysEnabled :: flag_def where
  "userApiKeysEnabled = \<lparr>fd_key = ''user-api-keys-enabled'', fd_default = False\<rparr>"

definition tokens_off :: "auth_env \<Rightarrow> bool" where
  "tokens_off env = flag (ae_flags env) (ae_tokens_disabled env) apiTokensDisabled"

definition userKeyLaneOpen :: "auth_env \<Rightarrow> bool" where
  "userKeyLaneOpen env \<longleftrightarrow> \<not> tokens_off env \<and> flag (ae_flags env) (ae_user_keys_enabled env) userApiKeysEnabled"

definition validateAccountCredential :: "auth_env \<Rightarrow> string \<Rightarrow> string option" where
  "validateAccountCredential env presented =
     (if \<not> isUserApiKeyShaped presented then None
      else if \<not> userKeyLaneOpen env then None
      else (case verifyUserKey presented (ae_key env presented) of
          KeyOk _ _ userId \<Rightarrow> (if has_text userId then userId else None)
        | KeyRefused _ \<Rightarrow> None))"

text \<open>The check of an owner's grant; a database that throws (\<^const>\<open>None\<close>) refuses.\<close>

definition resolvePublishBinding :: "ownership_db option \<Rightarrow> string \<Rightarrow> string option \<Rightarrow> bool" where
  "resolvePublishBinding od sourceId userId \<longleftrightarrow>
     (if \<not> has_text userId then False
      else (case od of None \<Rightarrow> False
        | Some d \<Rightarrow> (case checkPublishBinding d sourceId (text_of userId) of BindingOk _ _ \<Rightarrow> True | BindingFailed _ \<Rightarrow> False)))"

definition plain_token :: "string \<Rightarrow> string list \<Rightarrow> auth_token" where
  "plain_token i scopes = \<lparr>ai_id = i, ai_scopes = scopes, ai_ptype = None, ai_client = None, ai_source = None\<rparr>"

text \<open>\<^const>\<open>None\<close> is a secret store that fails every attempt.\<close>

definition resolveAuthUncached ::
  "(string \<Rightarrow> string) \<Rightarrow> (string \<Rightarrow> jvalue option) \<Rightarrow> auth_env \<Rightarrow> string \<Rightarrow> bool \<Rightarrow> resolved option" where
  "resolveAuthUncached hash json env presented meterUserKeys =
     (if isUserApiKeyShaped presented then Some
        (if \<not> meterUserKeys then ResolvedNone False
         else if \<not> userKeyLaneOpen env then ResolvedNone False
         else (case verifyUserKey presented (ae_key env presented) of
             KeyOk held keyId userId \<Rightarrow> (let scopes = clampUserKeyScopes held
               in if scopes = [] then ResolvedNone False else ResolvedToken (plain_token (USER_API_KEY_PREFIX @ keyId) scopes))
           | KeyRefused rateLimited \<Rightarrow> if rateLimited then ResolvedRateLimited else ResolvedNone False))
      else if isApiTokenShaped presented then Some
        (if tokens_off env then ResolvedNone False
         else (case verifyApiToken hash json (ae_tokens env) presented (ae_now env) of
             None \<Rightarrow> ResolvedNone False
           | Some v \<Rightarrow> (case vt_source v of
               Some sourceId \<Rightarrow>
                 (if \<not> resolvePublishBinding (ae_ownership env) sourceId (vt_principal v) then ResolvedNone False
                  else ResolvedToken \<lparr>ai_id = vt_id v, ai_scopes = vt_scopes v, ai_ptype = Some (vt_principal_type v),
                         ai_client = None, ai_source = Some sourceId\<rparr>)
             | None \<Rightarrow> ResolvedToken \<lparr>ai_id = vt_id v, ai_scopes = vt_scopes v, ai_ptype = Some (vt_principal_type v),
                         ai_client = None, ai_source = None\<rparr>)))
      else if isJwtShaped presented then Some
        (case ae_jwt env presented of
           None \<Rightarrow> ResolvedNone False
         | Some v \<Rightarrow>
            (if jv_scopes v = [] then ResolvedNone False
             else ResolvedToken ((plain_token (''oauth_'' @ (case jv_subject v of None \<Rightarrow> ''m2m'' | Some s \<Rightarrow> s)) (jv_scopes v))
                    \<lparr>ai_client := if jv_subject v = None \<and> has_text (jv_client v) then jv_client v else None\<rparr>)))
      else (case getSecretWithFallback (ae_api_key env) (ae_old_key env) of
          None \<Rightarrow> None
        | Some secret \<Rightarrow> Some
           (if \<not> has_text secret then ResolvedNone True
            else if presented \<noteq> [] \<and> presented = text_of secret then ResolvedRoot [ROOT_SCOPE]
            else ResolvedNone False)))"

subsection \<open>The gates\<close>

record auth_request =
  rq_method :: string
  rq_path :: string
  rq_authorization :: "string option"

record auth_opts =
  ao_public_reads :: bool
  ao_scope :: api_scope

definition SAFE_METHODS :: "string list" where "SAFE_METHODS = [''GET'', ''HEAD'', ''OPTIONS'']"

definition isPublishBatchPath :: "string \<Rightarrow> bool" where
  "isPublishBatchPath path =
     (if \<not> js_starts_with path ''/'' then False
      else (let segs0 = split_on CHR ''/'' (drop 1 path)
        in if list_ex (\<lambda>s. s = []) segs0 then False
           else (let segs = (if segs0 ! 0 = ''v1'' then drop 1 segs0 else segs0)
             in if length segs = 4 then segs ! 0 = ''sources'' \<and> segs ! 2 = ''releases'' \<and> segs ! 3 = ''batch''
                else if length segs = 6 then
                  segs ! 0 = ''orgs'' \<and> segs ! 2 = ''sources'' \<and> segs ! 4 = ''releases'' \<and> segs ! 5 = ''batch''
                else False)))"

definition isPublishTokenWrite :: "auth_request \<Rightarrow> resolved \<Rightarrow> auth_opts \<Rightarrow> bool" where
  "isPublishTokenWrite rq who opts \<longleftrightarrow>
     (case who of
        ResolvedToken t \<Rightarrow> has_text (ai_source t) \<and> ai_scopes t = [PUBLISH_SCOPE] \<and> ao_scope opts = ScopeWrite \<and>
          rq_method rq = ''POST'' \<and> isPublishBatchPath (rq_path rq)
      | _ \<Rightarrow> False)"

datatype refusal = RateLimitRefusal | Unauthorized string string | InsufficientScope string
datatype gate = Opened "resolved option" bool | Refused refusal | GateThrew

definition identity_scopes :: "resolved \<Rightarrow> string list" where
  "identity_scopes who = (case who of ResolvedRoot s \<Rightarrow> s | ResolvedToken t \<Rightarrow> ai_scopes t | _ \<Rightarrow> [])"

definition identified :: "resolved \<Rightarrow> bool" where
  "identified who = (case who of ResolvedRoot _ \<Rightarrow> True | ResolvedToken _ \<Rightarrow> True | _ \<Rightarrow> False)"

definition realm_challenge :: string where
  "realm_challenge = ''Bearer realm='' @ [CHR 0x22] @ ''releases-api'' @ [CHR 0x22]"

definition createAuthMiddleware ::
  "(string \<Rightarrow> string) \<Rightarrow> (string \<Rightarrow> jvalue option) \<Rightarrow> auth_env \<Rightarrow> auth_opts \<Rightarrow> auth_request \<Rightarrow> gate" where
  "createAuthMiddleware hash json env opts rq =
     (let presented = bearer (rq_authorization rq)
      in if ao_public_reads opts \<and> rq_method rq \<in> set SAFE_METHODS then
           (if presented = [] then Opened None False
            else (case resolveAuthUncached hash json env presented False of
                None \<Rightarrow> GateThrew
              | Some who \<Rightarrow> Opened (if identified who then Some who else None) False))
         else (case resolveAuthUncached hash json env presented True of
             None \<Rightarrow> GateThrew
           | Some ResolvedRateLimited \<Rightarrow> Refused RateLimitRefusal
           | Some (ResolvedNone skip) \<Rightarrow>
              (if skip then Opened None True
               else if presented \<noteq> [] then
                 Refused (Unauthorized ''Invalid API key'' (realm_challenge @ '', error='' @ [CHR 0x22] @ ''invalid_token'' @ [CHR 0x22]))
               else Refused (Unauthorized ''Missing API key'' realm_challenge))
           | Some who \<Rightarrow>
              (if \<not> scopeSatisfies (identity_scopes who) (ao_scope opts) \<and> \<not> isPublishTokenWrite rq who opts
               then Refused (InsufficientScope (''Requires '' @ [CHR 0x27] @ scope_text (ao_scope opts) @ [CHR 0x27] @ '' scope''))
               else Opened (Some who) False)))"

definition authMiddleware :: "(string \<Rightarrow> string) \<Rightarrow> (string \<Rightarrow> jvalue option) \<Rightarrow> auth_env \<Rightarrow> auth_request \<Rightarrow> gate" where
  "authMiddleware hash json env rq = createAuthMiddleware hash json env \<lparr>ao_public_reads = False, ao_scope = ScopeAdmin\<rparr> rq"

definition publicReadAuthMiddleware :: "(string \<Rightarrow> string) \<Rightarrow> (string \<Rightarrow> jvalue option) \<Rightarrow> auth_env \<Rightarrow> auth_request \<Rightarrow> gate" where
  "publicReadAuthMiddleware hash json env rq = createAuthMiddleware hash json env \<lparr>ao_public_reads = True, ao_scope = ScopeWrite\<rparr> rq"

definition requireReadAuthMiddleware :: "(string \<Rightarrow> string) \<Rightarrow> (string \<Rightarrow> jvalue option) \<Rightarrow> auth_env \<Rightarrow> auth_request \<Rightarrow> gate" where
  "requireReadAuthMiddleware hash json env rq = createAuthMiddleware hash json env \<lparr>ao_public_reads = False, ao_scope = ScopeRead\<rparr> rq"

definition TOKENS_ME_PATHS :: "string list" where "TOKENS_ME_PATHS = [''/v1/tokens/me'', ''/tokens/me'']"

definition tokensAuthMiddleware :: "(string \<Rightarrow> string) \<Rightarrow> (string \<Rightarrow> jvalue option) \<Rightarrow> auth_env \<Rightarrow> auth_request \<Rightarrow> gate" where
  "tokensAuthMiddleware hash json env rq =
     (if (rq_method rq = ''GET'' \<or> rq_method rq = ''DELETE'') \<and> rq_path rq \<in> set TOKENS_ME_PATHS
      then requireReadAuthMiddleware hash json env rq else authMiddleware hash json env rq)"

definition resolveAuthIdentity ::
  "(string \<Rightarrow> string) \<Rightarrow> (string \<Rightarrow> jvalue option) \<Rightarrow> auth_env \<Rightarrow> auth_request \<Rightarrow> resolved option option" where
  "resolveAuthIdentity hash json env rq =
     (let presented = bearer (rq_authorization rq)
      in if presented = [] then Some None
         else map_option (\<lambda>who. if identified who then Some who else None) (resolveAuthUncached hash json env presented False))"

definition isValidBearerAuth :: "(string \<Rightarrow> string) \<Rightarrow> (string \<Rightarrow> jvalue option) \<Rightarrow> auth_env \<Rightarrow> auth_request \<Rightarrow> bool option" where
  "isValidBearerAuth hash json env rq =
     (let presented = bearer (rq_authorization rq)
      in if presented = [] then Some False
         else map_option (\<lambda>who. case who of ResolvedRoot _ \<Rightarrow> True | ResolvedToken t \<Rightarrow> scopeSatisfies (ai_scopes t) ScopeAdmin | _ \<Rightarrow> False)
                (resolveAuthUncached hash json env presented False))"

text \<open>The argument is the value of the header \<open>X-Releases-Proxy-Key\<close>.\<close>

definition isTrustedProxy :: "auth_env \<Rightarrow> string option \<Rightarrow> bool option" where
  "isTrustedProxy env header =
     (if \<not> has_text header then Some False
      else map_option (\<lambda>secret. has_text secret \<and> header = secret) (getSecret (ae_proxy_key env)))"

text \<open>
  The gate of a user's own data (\<open>/v1/me\<close> and the like): the principal is the user of the session, or the one a bearer
  credential belongs to.  The argument is what the account service answers for the session of the request: it throws, or
  names a user or none.  The empty challenge of a refusal stands for no header.
\<close>

datatype bearer_principal = BearerUser string | BearerRateLimited | BearerNone
datatype follows_principal = FollowsUser string | FollowsRateLimited | FollowsInvalid | FollowsNone
datatype follows_gate = ActsAs string | ActRefused refusal | ActThrew

definition resolveBearerUser :: "auth_env \<Rightarrow> string \<Rightarrow> bearer_principal" where
  "resolveBearerUser env presented =
     (if isUserApiKeyShaped presented then
        (if \<not> userKeyLaneOpen env then BearerNone
         else (case verifyUserKey presented (ae_key env presented) of
             KeyOk _ _ userId \<Rightarrow> (if has_text userId then BearerUser (text_of userId) else BearerNone)
           | KeyRefused rateLimited \<Rightarrow> (if rateLimited then BearerRateLimited else BearerNone)))
      else if isJwtShaped presented then
        (case ae_jwt env presented of
           None \<Rightarrow> BearerNone
         | Some v \<Rightarrow> (if has_text (jv_subject v) then BearerUser (text_of (jv_subject v)) else BearerNone))
      else BearerNone)"

definition resolveFollowsPrincipal :: "auth_env \<Rightarrow> string option option \<Rightarrow> auth_request \<Rightarrow> follows_principal option" where
  "resolveFollowsPrincipal env session rq =
     (case session of None \<Rightarrow> None
      | Some user \<Rightarrow> Some
         (if has_text user then FollowsUser (text_of user)
          else (let presented = bearer (rq_authorization rq)
            in if presented \<noteq> [] then
                 (case resolveBearerUser env presented of
                    BearerUser u \<Rightarrow> FollowsUser u | BearerRateLimited \<Rightarrow> FollowsRateLimited | BearerNone \<Rightarrow> FollowsInvalid)
               else FollowsNone)))"

definition requireFollowsPrincipal :: "auth_env \<Rightarrow> string option option \<Rightarrow> auth_request \<Rightarrow> follows_gate" where
  "requireFollowsPrincipal env session rq =
     (case resolveFollowsPrincipal env session rq of
        None \<Rightarrow> ActThrew
      | Some (FollowsUser u) \<Rightarrow> ActsAs u
      | Some FollowsRateLimited \<Rightarrow> ActRefused RateLimitRefusal
      | Some FollowsInvalid \<Rightarrow> ActRefused (Unauthorized ''Invalid credential''
          (realm_challenge @ '', error='' @ [CHR 0x22] @ ''invalid_token'' @ [CHR 0x22]))
      | Some FollowsNone \<Rightarrow> ActRefused (Unauthorized ''Sign in required'' []))"

definition attachFollowsSession :: "auth_env \<Rightarrow> string option option \<Rightarrow> auth_request \<Rightarrow> string option" where
  "attachFollowsSession env session rq =
     (case resolveFollowsPrincipal env session rq of Some (FollowsUser u) \<Rightarrow> Some u | _ \<Rightarrow> None)"

text \<open>The head of the batch handler: an identity bound to a source writes to that source alone.\<close>

definition batch_source_ok :: "resolved option \<Rightarrow> string \<Rightarrow> bool" where
  "batch_source_ok who srcId = (case who of
     Some (ResolvedToken t) \<Rightarrow> (case ai_source t of None \<Rightarrow> True | Some s \<Rightarrow> s = srcId)
   | _ \<Rightarrow> True)"

subsection \<open>The paths of the batch routes\<close>

definition segment :: "string \<Rightarrow> bool" where
  "segment s \<longleftrightarrow> s \<noteq> [] \<and> CHR ''/'' \<notin> set s"

text \<open>The two routes, with and without the version in front.\<close>

definition batch_path :: "string \<Rightarrow> bool" where
  "batch_path p \<longleftrightarrow> (\<exists>v \<in> {[], ''/v1''}. (\<exists>s. segment s \<and> p = v @ ''/sources/'' @ s @ ''/releases/batch'') \<or>
     (\<exists>orgs s. segment orgs \<and> segment s \<and> p = v @ ''/orgs/'' @ orgs @ ''/sources/'' @ s @ ''/releases/batch''))"

lemma list_of_4: "length xs = 4 \<Longrightarrow> xs ! 0 = a \<Longrightarrow> xs ! 2 = c \<Longrightarrow> xs ! 3 = d \<Longrightarrow> xs = [a, xs ! 1, c, d]"
  by (auto simp: eval_nat_numeral length_Suc_conv)

lemma list_of_6:
  "length xs = 6 \<Longrightarrow> xs ! 0 = a \<Longrightarrow> xs ! 2 = c \<Longrightarrow> xs ! 4 = e \<Longrightarrow> xs ! 5 = f \<Longrightarrow> xs = [a, xs ! 1, c, xs ! 3, e, f]"
  by (auto simp: eval_nat_numeral length_Suc_conv)

definition batch_shape :: "string list \<Rightarrow> bool" where
  "batch_shape segs \<longleftrightarrow>
     length segs = 4 \<and> segs ! 0 = ''sources'' \<and> segs ! 2 = ''releases'' \<and> segs ! 3 = ''batch'' \<or>
     length segs = 6 \<and> segs ! 0 = ''orgs'' \<and> segs ! 2 = ''sources'' \<and> segs ! 4 = ''releases'' \<and> segs ! 5 = ''batch''"

lemma batch_parts:
  assumes "split_on CHR ''/'' q = parts"
  shows "isPublishBatchPath (CHR ''/'' # q) \<longleftrightarrow> [] \<notin> set parts \<and> batch_shape (if parts ! 0 = ''v1'' then drop 1 parts else parts)"
proof -
  have shape: "(if length g = 4 then g ! 0 = ''sources'' \<and> g ! 2 = ''releases'' \<and> g ! 3 = ''batch''
     else if length g = 6 then g ! 0 = ''orgs'' \<and> g ! 2 = ''sources'' \<and> g ! 4 = ''releases'' \<and> g ! 5 = ''batch'' else False) = batch_shape g" for g
    by (simp add: batch_shape_def)
  have blank: "list_ex (\<lambda>s. s = []) parts \<longleftrightarrow> [] \<in> set parts" by (auto simp: list_ex_iff)
  have start: "js_starts_with (CHR ''/'' # q) ''/''" "drop 1 (CHR ''/'' # q) = q" by (simp_all add: js_starts_with_def)
  show ?thesis unfolding isPublishBatchPath_def Let_def start(2) assms shape blank by (simp add: start(1))
qed

lemma batch_segments:
  "isPublishBatchPath p \<longleftrightarrow>
     (\<exists>v \<in> {[], [''v1'']}. (\<exists>s. segment s \<and> p = CHR ''/'' # join ''/'' (v @ [''sources'', s, ''releases'', ''batch''])) \<or>
       (\<exists>orgs s. segment orgs \<and> segment s \<and> p = CHR ''/'' # join ''/'' (v @ [''orgs'', orgs, ''sources'', s, ''releases'', ''batch''])))"
    (is "_ \<longleftrightarrow> ?rhs")
proof
  assume b: "isPublishBatchPath p"
  obtain q where p: "p = CHR ''/'' # q" using b by (cases p) (auto simp: isPublishBatchPath_def js_starts_with_def split: if_splits)
  let ?parts = "split_on CHR ''/'' q"
  define segs where "segs = (if ?parts ! 0 = ''v1'' then drop 1 ?parts else ?parts)"
  define v where "v = (if ?parts ! 0 = ''v1'' then [''v1''] else [])"
  have whole: "?parts = v @ segs"
  proof -
    obtain y ys where "?parts = y # ys" by (cases ?parts) auto
    then show ?thesis by (simp add: v_def segs_def)
  qed
  have seg: "segment s" if "s \<in> set segs" for s
  proof -
    have "s \<in> set ?parts" using that by (auto simp: segs_def dest: in_set_dropD split: if_splits)
    then have "CHR ''/'' \<notin> set s" by (rule split_on_no_sep_inside)
    moreover have "[] \<notin> set ?parts" using b by (auto simp: isPublishBatchPath_def p Let_def list_ex_iff split: if_splits)
    ultimately show ?thesis using \<open>s \<in> set ?parts\<close> by (auto simp: segment_def)
  qed
  have q: "p = CHR ''/'' # join ''/'' (v @ segs)" using whole join_split_on [of "CHR ''/''" q] p by metis
  have v: "v \<in> {[], [''v1'']}" by (simp add: v_def)
  from b have "length segs = 4 \<and> segs ! 0 = ''sources'' \<and> segs ! 2 = ''releases'' \<and> segs ! 3 = ''batch'' \<or>
    length segs = 6 \<and> segs ! 0 = ''orgs'' \<and> segs ! 2 = ''sources'' \<and> segs ! 4 = ''releases'' \<and> segs ! 5 = ''batch''"
    by (simp add: isPublishBatchPath_def p Let_def segs_def split: if_splits)
  then show ?rhs
  proof (elim disjE)
    assume l: "length segs = 4 \<and> segs ! 0 = ''sources'' \<and> segs ! 2 = ''releases'' \<and> segs ! 3 = ''batch''"
    obtain s where e: "segs = [''sources'', s, ''releases'', ''batch'']" using list_of_4 [of segs] l by blast
    have "segment s" by (rule seg) (simp add: e)
    with q [unfolded e] v show ?rhs by blast
  next
    assume l: "length segs = 6 \<and> segs ! 0 = ''orgs'' \<and> segs ! 2 = ''sources'' \<and> segs ! 4 = ''releases'' \<and> segs ! 5 = ''batch''"
    obtain orgs s where e: "segs = [''orgs'', orgs, ''sources'', s, ''releases'', ''batch'']" using list_of_6 [of segs] l by blast
    have "segment orgs" "segment s" by (rule seg, simp add: e)+
    with q [unfolded e] v show ?rhs by blast
  qed
next
  have ok: "isPublishBatchPath (CHR ''/'' # join ''/'' (v @ segs))"
    if "v \<in> {[], [''v1'']}" "\<forall>s \<in> set segs. segment s" "batch_shape segs" "segs \<noteq> []" "segs ! 0 \<noteq> ''v1''" for v segs
  proof -
    have "segment ''v1''" by (simp add: segment_def)
    then have s: "\<forall>s \<in> set (v @ segs). segment s" using that(1,2) by auto
    then have "split_on CHR ''/'' (join ''/'' (v @ segs)) = v @ segs" using that(4) by (intro split_on_join) (auto simp: segment_def)
    moreover have "[] \<notin> set (v @ segs)" using s by (auto simp: segment_def)
    moreover have "(if (v @ segs) ! 0 = ''v1'' then drop 1 (v @ segs) else v @ segs) = segs" using that(1,5) by auto
    ultimately show ?thesis using that(3) by (simp only: batch_parts simp_thms)
  qed
  have lit: "segment ''sources''" "segment ''orgs''" "segment ''releases''" "segment ''batch''" by (simp_all add: segment_def)
  assume ?rhs
  then obtain v where v: "v \<in> {[], [''v1'']}" and alt: "(\<exists>s. segment s \<and> p = CHR ''/'' # join ''/'' (v @ [''sources'', s, ''releases'', ''batch''])) \<or>
       (\<exists>orgs s. segment orgs \<and> segment s \<and> p = CHR ''/'' # join ''/'' (v @ [''orgs'', orgs, ''sources'', s, ''releases'', ''batch'']))"
    by blast
  from alt show "isPublishBatchPath p"
  proof (elim disjE exE conjE)
    fix s assume "segment s" "p = CHR ''/'' # join ''/'' (v @ [''sources'', s, ''releases'', ''batch''])"
    then show ?thesis using ok [OF v, of "[''sources'', s, ''releases'', ''batch'']"] lit by (simp add: batch_shape_def)
  next
    fix orgs s assume "segment orgs" "segment s" "p = CHR ''/'' # join ''/'' (v @ [''orgs'', orgs, ''sources'', s, ''releases'', ''batch''])"
    then show ?thesis using ok [OF v, of "[''orgs'', orgs, ''sources'', s, ''releases'', ''batch'']"] lit by (simp add: batch_shape_def)
  qed
qed

text \<open>The publish-token allowlist is exactly the two batch routes: a path passes if and only if it is
  \<open>[/v1]/sources/:slug/releases/batch\<close> or \<open>[/v1]/orgs/:org/sources/:slug/releases/batch\<close> with non-empty segments.
\<close>

theorem batch_path_exact: "isPublishBatchPath p = batch_path p"
  unfolding batch_segments batch_path_def by simp

subsection \<open>User keys\<close>

lemma relu_not_relk: "isUserApiKeyShaped p \<Longrightarrow> \<not> isApiTokenShaped p"
  by (auto simp: isUserApiKeyShaped_def isApiTokenShaped_def js_starts_with_def USER_API_KEY_PREFIX_def API_TOKEN_PREFIX_def)

lemma clamp_read: "set (clampUserKeyScopes ss) \<subseteq> {''read''}"
  by (auto simp: clampUserKeyScopes_def USER_API_KEY_MAX_SCOPE_def)

lemma read_only_scopes: "set ss \<subseteq> {''read''} \<Longrightarrow> x \<noteq> ScopeRead \<Longrightarrow> \<not> scopeSatisfies ss x"
  by (cases x) (force simp: scopeSatisfies_def ROOT_SCOPE_def scope_rank_def list_ex_iff)+

lemma user_key_identity:
  assumes "isUserApiKeyShaped p"
  obtains skip where "resolveAuthUncached hash json env p meter = Some (ResolvedNone False)"
    | "resolveAuthUncached hash json env p meter = Some ResolvedRateLimited"
    | t where "resolveAuthUncached hash json env p meter = Some (ResolvedToken t)" and "set (ai_scopes t) \<subseteq> {''read''}"
        and "ai_source t = None" and "userKeyLaneOpen env" and "meter"
proof (cases "meter \<and> userKeyLaneOpen env")
  case False
  then show thesis using that(1) assms by (auto simp: resolveAuthUncached_def)
next
  case on: True
  show thesis
  proof (cases "verifyUserKey p (ae_key env p)")
    case (KeyOk held keyId userId)
    show thesis
    proof (cases "clampUserKeyScopes held = []")
      case False
      then show thesis using that(3) [of "plain_token (USER_API_KEY_PREFIX @ keyId) (clampUserKeyScopes held)"] assms on KeyOk clamp_read
        by (simp add: resolveAuthUncached_def plain_token_def)
    qed (use that(1) assms on KeyOk in \<open>simp add: resolveAuthUncached_def\<close>)
  next
    case (KeyRefused r)
    then show thesis using that(1,2) assms on by (cases r) (simp_all add: resolveAuthUncached_def)
  qed
qed

text \<open>The account service finds the key valid, with some permission, and names its owner.\<close>

definition owned_key :: "auth_env \<Rightarrow> string \<Rightarrow> string \<Rightarrow> bool" where
  "owned_key env presented user \<longleftrightarrow> userKeyLaneOpen env \<and> user \<noteq> [] \<and>
     (\<exists>k code. ae_key env presented = KeyVerdict True (Some k) code \<and> uk_reference k = Some user \<and>
        apiScopesFromPermissions (uk_api k) \<noteq> [])"

lemma text_of_ne: "text_of x = c # cs \<longleftrightarrow> x = Some (c # cs)"
  by (cases x) simp_all

lemma user_key_owner:
  assumes "isUserApiKeyShaped presented"
  shows "resolveBearerUser env presented = BearerUser u \<longleftrightarrow> owned_key env presented u"
  using assms
  by (cases "ae_key env presented"; cases u)
    (auto simp: resolveBearerUser_def owned_key_def verifyUserKey_def Let_def has_text_def text_of_ne split: option.splits bool.splits)

text \<open>C19: What a user key opens.  At the gates made from scopes it only ever reads: on a public read it is not even looked
  at, so it costs its owner nothing, and behind every gate that asks for more than reading it is refused, whatever
  permissions the account service reports for it, whatever the flags say and whatever the path.  At the gate of a user's
  own data, where there are no scopes, it acts for the user of the session if there is one, and otherwise for its owner and
  for nobody else.
\<close>

theorem user_keys_read_only:
  assumes "isUserApiKeyShaped (bearer (rq_authorization rq))"
  shows "(if ao_public_reads opts \<and> rq_method rq \<in> set SAFE_METHODS
    then createAuthMiddleware hash json env opts rq = Opened None False
    else ao_scope opts = ScopeRead \<or> (\<exists>r. createAuthMiddleware hash json env opts rq = Refused r)) \<and>
    (requireFollowsPrincipal env session rq = ActsAs u \<longleftrightarrow> (\<exists>su. session = Some su \<and>
       (if has_text su then su = Some u else owned_key env (bearer (rq_authorization rq)) u)))"
proof -
  let ?p = "bearer (rq_authorization rq)"
  have ne: "?p \<noteq> []" using assms by (auto simp: isUserApiKeyShaped_def js_starts_with_def USER_API_KEY_PREFIX_def)
  have "requireFollowsPrincipal env session rq = ActsAs u \<longleftrightarrow> (\<exists>su. session = Some su \<and>
       (if has_text su then su = Some u else resolveBearerUser env ?p = BearerUser u))"
    using ne by (auto simp: requireFollowsPrincipal_def resolveFollowsPrincipal_def Let_def has_text_def text_of_def
        split: option.splits bearer_principal.splits)
  then have own: "requireFollowsPrincipal env session rq = ActsAs u \<longleftrightarrow> (\<exists>su. session = Some su \<and>
       (if has_text su then su = Some u else owned_key env ?p u))" by (simp add: user_key_owner [OF assms])
  show ?thesis
  proof (cases "ao_public_reads opts \<and> rq_method rq \<in> set SAFE_METHODS")
    case True
    then show ?thesis using assms ne own by (simp add: createAuthMiddleware_def Let_def resolveAuthUncached_def identified_def)
  next
    case False
    have "\<exists>r. createAuthMiddleware hash json env opts rq = Refused r" if "ao_scope opts \<noteq> ScopeRead"
      using user_key_identity [OF assms, of hash json env True]
    proof cases
      case (3 t)
      then have "\<not> scopeSatisfies (ai_scopes t) (ao_scope opts)" using read_only_scopes that by blast
      with 3 False show ?thesis
        by (auto simp: createAuthMiddleware_def Let_def identity_scopes_def isPublishTokenWrite_def has_text_def)
    qed (use False in \<open>auto simp: createAuthMiddleware_def Let_def\<close>)
    then show ?thesis using False own by auto
  qed
qed

definition root_env :: auth_env where
  "root_env = \<lparr>ae_flags = None, ae_tokens_disabled = None, ae_user_keys_enabled = Some ''true'', ae_api_key = Some (\<lambda>_. Some (Some ''root-secret'')),
     ae_old_key = None, ae_proxy_key = None, ae_tokens = [], ae_ownership = None,
     ae_key = (\<lambda>_. KeyVerdict True (Some \<lparr>uk_id = Some ''k1'', uk_reference = Some ''u1'', uk_api = Some (VArr [VStr ''read'', VStr ''write'', VStr ''admin''])\<rparr>) None),
     ae_jwt = (\<lambda>_. None), ae_now = 0\<rparr>"

theorem user_keys_read_only_witness:
  "(\<exists>r. createAuthMiddleware rev (\<lambda>_. None) root_env \<lparr>ao_public_reads = True, ao_scope = ScopeWrite\<rparr>
     \<lparr>rq_method = ''POST'', rq_path = ''/v1/sources'', rq_authorization = Some ''Bearer relu_abc''\<rparr> = Refused r) \<and>
   requireFollowsPrincipal root_env (Some None)
     \<lparr>rq_method = ''POST'', rq_path = ''/v1/sources'', rq_authorization = Some ''Bearer relu_abc''\<rparr> = ActsAs ''u1''"
  using user_keys_read_only [of "\<lparr>rq_method = ''POST'', rq_path = ''/v1/sources'', rq_authorization = Some ''Bearer relu_abc''\<rparr>"
      "\<lparr>ao_public_reads = True, ao_scope = ScopeWrite\<rparr>" rev "\<lambda>_. None" root_env "Some None" "''u1''"]
  by (simp add: bearer_def js_starts_with_def isUserApiKeyShaped_def USER_API_KEY_PREFIX_def SAFE_METHODS_def owned_key_def
      root_env_def userKeyLaneOpen_def tokens_off_def flag_def apiTokensDisabled_def userApiKeysEnabled_def
      fallbackOf_def apiScopesFromPermissions_def has_text_def)

subsection \<open>Publish tokens\<close>

text \<open>A request that the gate lets through and whose handler accepts the source it names.\<close>

definition writes_batch :: "(string \<Rightarrow> string) \<Rightarrow> (string \<Rightarrow> jvalue option) \<Rightarrow> auth_env \<Rightarrow> auth_opts \<Rightarrow> auth_request \<Rightarrow> string \<Rightarrow> bool" where
  "writes_batch hash json env opts rq srcId \<longleftrightarrow>
     (case createAuthMiddleware hash json env opts rq of Opened who _ \<Rightarrow> batch_source_ok who srcId | _ \<Rightarrow> False)"

text \<open>The standing of a token bound to a source, and of its owner's grant.\<close>

definition standing :: "(string \<Rightarrow> string) \<Rightarrow> (string \<Rightarrow> jvalue option) \<Rightarrow> auth_env \<Rightarrow> string \<Rightarrow> api_token \<Rightarrow> bool" where
  "standing hash json env secret row \<longleftrightarrow>
     hash secret = at_hash row \<and> at_active row \<and> \<not> has_text (at_revoked row) \<and>
     (has_text (at_expires row) \<longrightarrow> iso_text (ae_now env) < text_of (at_expires row)) \<and>
     parseStoredScopes json (at_scopes row) = [PUBLISH_SCOPE] \<and> at_principal_type row = UserPrincipal"

definition granted :: "auth_env \<Rightarrow> string \<Rightarrow> string option \<Rightarrow> bool" where
  "granted env sourceId user \<longleftrightarrow> has_text user \<and>
     (\<exists>od s org. ae_ownership env = Some od \<and> find (\<lambda>s. ps_id s = sourceId) (od_sources od) = Some s \<and> \<not> has_text (ps_deleted s) \<and>
        ps_org s = Some org \<and> \<not> has_text (case map_of (od_orgs od) org of None \<Rightarrow> None | Some d \<Rightarrow> d) \<and>
        holds_claim (od_claims od) org (text_of user))"

lemma granted_iff: "resolvePublishBinding (ae_ownership env) sourceId user \<longleftrightarrow> granted env sourceId user"
  by (auto simp: resolvePublishBinding_def granted_def checkPublishBinding_def split: option.splits if_splits)

lemma singleton_scope: "length ss = 1 \<and> x \<in> set ss \<longleftrightarrow> ss = [x]"
  by (cases ss) auto

lemma verify_bound:
  assumes "at_source row = Some s" and "length (hash secret) < 2 ^ 32" and "length (at_hash row) < 2 ^ 32"
  shows "verify_row json (hash secret) (ae_now env) row =
    (if standing hash json env secret row \<and> has_text (at_principal row)
     then Some \<lparr>vt_id = at_id row, vt_scopes = [PUBLISH_SCOPE], vt_principal_type = UserPrincipal, vt_principal = at_principal row, vt_source = Some s\<rparr>
     else None)"
proof (cases "parseStoredScopes json (at_scopes row) = [PUBLISH_SCOPE]")
  case True
  then show ?thesis using assms(1) token_equal_iff [OF assms(2,3)]
    by (auto simp: verify_row_def standing_def Let_def)
next
  case False
  then have "\<not> (length (parseStoredScopes json (at_scopes row)) = 1 \<and> PUBLISH_SCOPE \<in> set (parseStoredScopes json (at_scopes row)))"
    by (simp only: singleton_scope not_False_eq_True)
  with False show ?thesis using assms(1) by (auto simp: verify_row_def standing_def Let_def)
qed

lemma publish_below: "\<not> scopeSatisfies [PUBLISH_SCOPE] x"
  by (cases x) (simp_all add: scopeSatisfies_def PUBLISH_SCOPE_def ROOT_SCOPE_def scope_rank_def)

text \<open>C5: A token bound to a source writes to that source's batch route and does nothing else.  It opens a gate if and only if tokens are on,
  the token stands, its owner still holds a verified claim on the live organisation of the live source, the gate is the
  write gate, the request is a \<open>POST\<close> to one of the two batch paths, and the handler's source is the bound one.
\<close>

theorem publish_token_confined:
  assumes "keyed (ae_tokens env)" and "row \<in> set (ae_tokens env)" and "at_source row = Some s"
    and "isApiTokenShaped (bearer (rq_authorization rq))" and "parseApiToken (bearer (rq_authorization rq)) = Some (at_lookup row, secret)"
    and "length (hash secret) < 2 ^ 32" and "length (at_hash row) < 2 ^ 32"
    and "\<not> (ao_public_reads opts \<and> rq_method rq \<in> set SAFE_METHODS)"
  shows "writes_batch hash json env opts rq srcId \<longleftrightarrow>
    \<not> tokens_off env \<and> standing hash json env secret row \<and> granted env s (at_principal row) \<and>
    s \<noteq> [] \<and> ao_scope opts = ScopeWrite \<and> rq_method rq = ''POST'' \<and> isPublishBatchPath (rq_path rq) \<and> srcId = s"
proof -
  let ?p = "bearer (rq_authorization rq)"
  let ?t = "\<lparr>ai_id = at_id row, ai_scopes = [PUBLISH_SCOPE], ai_ptype = Some UserPrincipal, ai_client = None, ai_source = Some s\<rparr>"
  have v: "verifyApiToken hash json (ae_tokens env) ?p (ae_now env) = verify_row json (hash secret) (ae_now env) row"
    using find_lookup [OF assms(1,2)] assms(5) by (simp add: verifyApiToken_def)
  have "resolveAuthUncached hash json env ?p True = Some
    (if \<not> tokens_off env \<and> standing hash json env secret row \<and> granted env s (at_principal row) then ResolvedToken ?t else ResolvedNone False)"
    using relu_not_relk [of ?p] assms(4) granted_iff [of env s "at_principal row"]
    by (auto simp: resolveAuthUncached_def v verify_bound [where hash = hash and secret = secret, OF assms(3,6,7)] granted_def)
  then show ?thesis using assms(8) publish_below [of "ao_scope opts"]
    by (auto simp: writes_batch_def createAuthMiddleware_def Let_def identity_scopes_def isPublishTokenWrite_def batch_source_ok_def
        has_text_def split: if_splits)
qed

definition publish_row :: api_token where
  "publish_row = \<lparr>at_id = ''a'', at_lookup = replicate 12 CHR ''a'', at_hash = rev (replicate 32 CHR ''b''), at_name = ''ci'', at_scopes = ''s'',
     at_principal_type = UserPrincipal, at_principal = Some ''u'', at_active = True, at_revoked = None, at_expires = None, at_last_used = None,
     at_created = iso_text 0, at_created_by = Some ''u'', at_source = Some ''src_1''\<rparr>"

definition publish_env :: auth_env where
  "publish_env = root_env\<lparr>ae_tokens := [publish_row], ae_ownership := Some \<lparr>
     od_sources = [\<lparr>ps_id = ''src_1'', ps_org = Some ''o'', ps_deleted = None\<rparr>], od_orgs = [(''o'', None)],
     od_claims = [\<lparr>cl_org = ''o'', cl_user = ''u'', cl_status = ClaimVerified\<rparr>]\<rparr>\<rparr>"

definition publish_request :: "string \<Rightarrow> auth_request" where
  "publish_request path = \<lparr>rq_method = ''POST'', rq_path = path,
     rq_authorization = Some (''Bearer '' @ generateApiToken (replicate 12 CHR ''a'') (replicate 32 CHR ''b''))\<rparr>"

theorem publish_token_confined_witness:
  "writes_batch rev (\<lambda>_. Some (VArr [VStr ''publish''])) publish_env \<lparr>ao_public_reads = True, ao_scope = ScopeWrite\<rparr>
     (publish_request ''/v1/sources/x/releases/batch'') ''src_1''
   \<and> \<not> writes_batch rev (\<lambda>_. Some (VArr [VStr ''publish''])) publish_env \<lparr>ao_public_reads = True, ao_scope = ScopeWrite\<rparr>
     (publish_request ''/v1/sources/x/releases/batch'') ''src_2''
   \<and> \<not> writes_batch rev (\<lambda>_. Some (VArr [VStr ''publish''])) publish_env \<lparr>ao_public_reads = True, ao_scope = ScopeWrite\<rparr>
     (publish_request ''/v1/sources/x'') ''src_1''"
proof -
  let ?secret = "replicate 32 CHR ''b''"
  have p: "parseApiToken (bearer (rq_authorization (publish_request path))) = Some (at_lookup publish_row, ?secret)" for path
    using parse_generated [of "replicate 12 CHR ''a''" ?secret]
    by (simp add: token_parts_def LOOKUP_LEN_def SECRET_LEN_def list_all_iff is_alnum_def is_lower_def code_unit_def bearer_def
        js_starts_with_def publish_request_def publish_row_def)
  have sh: "isApiTokenShaped (bearer (rq_authorization (publish_request path)))" for path
    by (simp add: bearer_def js_starts_with_def publish_request_def isApiTokenShaped_def API_TOKEN_PREFIX_def generateApiToken_def)
  have k: "keyed (ae_tokens publish_env)" "publish_row \<in> set (ae_tokens publish_env)" "at_source publish_row = Some ''src_1''"
    "length (rev ?secret) < 2 ^ 32" "length (at_hash publish_row) < 2 ^ 32"
    by (simp_all add: keyed_def publish_env_def publish_row_def)
  have st: "standing rev (\<lambda>_. Some (VArr [VStr ''publish''])) publish_env ?secret publish_row"
    by (simp add: standing_def publish_row_def has_text_def parseStoredScopes_def List.map_filter_def PUBLISH_SCOPE_def)
  have gr: "granted publish_env ''src_1'' (at_principal publish_row)" and off: "\<not> tokens_off publish_env"
    by (simp_all add: granted_def publish_env_def publish_row_def has_text_def holds_claim_def tokens_off_def flag_def fallbackOf_def
        root_env_def apiTokensDisabled_def)
  have path: "isPublishBatchPath ''/v1/sources/x/releases/batch''" "\<not> isPublishBatchPath ''/v1/sources/x''"
    by (simp_all add: isPublishBatchPath_def js_starts_with_def eval_nat_numeral)
  have rq: "rq_method (publish_request path) = ''POST''" "rq_path (publish_request path) = path" for path
    by (simp_all add: publish_request_def)
  let ?opts = "\<lparr>ao_public_reads = True, ao_scope = ScopeWrite\<rparr>"
  have "\<not> (ao_public_reads ?opts \<and> rq_method (publish_request path) \<in> set SAFE_METHODS)" for path
    by (simp add: rq SAFE_METHODS_def)
  from publish_token_confined [where hash = rev and secret = ?secret and json = "\<lambda>_. Some (VArr [VStr ''publish''])", OF k(1-3) sh p k(4,5) this] st gr off path rq
  show ?thesis by simp
qed

end
