(* ===== verification/Spec2Isabelle.thy ===== *)
theory Spec2Isabelle
  imports Prelude Regex Instants Base64 SqlLogic
    ChangelogSlice ChangelogWalk Versions ChangelogDoc Dates Dedup Coverage VersionLines Cascades
    UrlSafety WebhookSign WebhookTable WebhookDelivery Errors
    IdempotencyStore IdempotencyCodec Idempotency FeedPaging
    FetchPlan FetchHealth SourceQueries SourceActor ActorRuns SpendCap SourceLock UpdateDispatch UpdateRuns
    EventBuffer ReleaseHub LiveStream StatusHub SessionLife ApiTokens TokenLife AuthGate
begin

text \<open>
  Verification development for the release index (\<open>apps/api\<close>, \<open>apps/web\<close> and \<open>packages/\<close> of the repository).

  The program.  An API worker on Cloudflare keeps a D1 database of organisations, sources and releases.  Every source has
  an actor (a Durable Object) whose alarm decides when it is polled; a poll inserts releases, which are filtered for
  duplicates, clustered by version line and by changesets cascade, published to the release hub and fanned out to
  webhooks.  Update runs are dispatched by hand or by the drain of an organisation, under a spend cap and one lease per
  source, and report to the status hub.  Readers page through feeds with cursors, read changelogs in slices and follow a
  live stream.  Requests pass an authentication gate; posts may carry an idempotency key.

  Theories and code.

  \<^item> \<open>Prelude\<close>, \<open>Regex\<close>, \<open>Instants\<close>, \<open>Base64\<close>, \<open>SqlLogic\<close>: the source language.  String functions and numbers of
    JavaScript, its regular expressions as a list of all matches, \<open>toISOString\<close> and \<open>Date.parse\<close> of the ISO form,
    \<open>core/src/cursor.ts\<close>, and the three-valued conditions of SQL.  The base-64, ISO-text and decimal codecs have their
    round trips here.
  \<^item> \<open>ChangelogSlice\<close>, \<open>ChangelogWalk\<close> (\<open>core/src/changelog-slice.ts\<close>, \<open>changelog-range.ts\<close>, \<open>tokens.ts\<close>,
    \<open>search/src/embed-changelogs.ts\<close>, \<open>planWindowOffsets\<close>): the slicer and its clients.  The locale \<open>slicer\<close> states what a
    reader that follows \<open>nextOffset\<close> relies on, \<open>aligned_slicer\<close> that slices meet without a gap; the token mode is
    interpreted as the second, the character mode only as the first.  Files are lists of UTF-16 code units, so that a
    chunk may meet half a surrogate pair.
  \<^item> \<open>Versions\<close> (\<open>prerelease.ts\<close>, \<open>version-sort.ts\<close>, \<open>upgrade-range.ts\<close>), \<open>ChangelogDoc\<close> (\<open>changelog-parse.ts\<close>,
    \<open>changelog-dated.ts\<close>), \<open>Dates\<close> (\<open>dates.ts\<close>): keys that sort, the markdown parser, the calendar.
  \<^item> \<open>Dedup\<close> (\<open>title-dedup.ts\<close>, \<open>content-dedup.ts\<close>): both filters are interpretations of the locale \<open>duplicate_rule\<close>.
    \<open>Coverage\<close>, \<open>VersionLines\<close>, \<open>Cascades\<close> (\<open>version-line-cluster.ts\<close>, \<open>changesets-cluster.ts\<close>, \<open>schema-coverage.ts\<close>
    and their ingest steps): both clusterers are interpretations of \<open>batch_clusterer\<close>, whose lemmas keep the coverage table flat.
  \<^item> \<open>UrlSafety\<close> (\<open>webhook-url-safety.ts\<close>), \<open>WebhookSign\<close>, \<open>WebhookTable\<close> (schema, queries, fan-out),
    \<open>WebhookDelivery\<close> (one delivery, the queue consumer, automatic pausing): from a published event to a signed call to
    a public address, and the pause of an endpoint that fails.  The target gate is measured against a grammar of IPv4 and
    IPv6 texts and tables of the reserved blocks, the signature against the bytes it is the HMAC of.
  \<^item> \<open>Errors\<close> (\<open>errors.ts\<close>, \<open>releases-error.ts\<close>, the database classifier, \<open>respondError\<close>): the errors as values and the
    boundary that renders them.
  \<^item> \<open>IdempotencyStore\<close>, \<open>IdempotencyCodec\<close>, \<open>Idempotency\<close> (\<open>apps/api/src/middleware/idempotency.ts\<close> and its store): the
    guard table, identities and envelopes, and the middleware as a machine whose requests interleave and whose statements fail.
  \<^item> \<open>FeedPaging\<close> (\<open>feed-cursor.ts\<close>, \<open>collection-feed.ts\<close>, \<open>category-feed.ts\<close>, the latest feed and the legacy cursor): three
    interpretations of the locale \<open>keyset_feed\<close>, whose lemmas say that pages tile the feed.
  \<^item> \<open>FetchPlan\<close>, \<open>FetchHealth\<close>, \<open>SourceQueries\<close>, \<open>SourceActor\<close>, \<open>ActorRuns\<close> (\<open>fetch-plan.ts\<close>, \<open>source-fetch-health.ts\<close>,
    the due query of \<open>poll-fetch.ts\<close>, \<open>source-actor.ts\<close>): when a source is polled, what a poll writes back, the queries
    that select sources, and the actor among foreign writers and failures.  The counters of a source are followed through
    every statement that moves them, patches of the source route included; the actor's mirror writes may fail.
  \<^item> \<open>SpendCap\<close>, \<open>SourceLock\<close>, \<open>UpdateDispatch\<close>, \<open>UpdateRuns\<close> (\<open>spend-cap.ts\<close>, \<open>source-lock.ts\<close>, \<open>update-dispatch.ts\<close>,
    \<open>org-actor.ts\<close>, \<open>flags.ts\<close>, both \<open>deterministic-update.ts\<close>): the gates of a run, its leases (the locale \<open>lease\<close>,
    interpreted on the lock of the source actor), its fetch loop and its end, and many runs step by step.
  \<^item> \<open>EventBuffer\<close>, \<open>ReleaseHub\<close>, \<open>LiveStream\<close> (\<open>events/buffer.ts\<close>, \<open>release-event.ts\<close>, \<open>release-hub.ts\<close>, \<open>routes/stream.ts\<close>,
    \<open>use-release-stream.ts\<close>): the ring of events over the locale \<open>ordered_store\<close> (interpreted on the storage of a Durable
    Object), the hub, and a client that drops and reconnects.
  \<^item> \<open>StatusHub\<close>, \<open>SessionLife\<close> (\<open>status-hub.ts\<close> and the page windows of \<open>pagination.ts\<close>): every event, request and alarm of
    the hub, and the machine of one session that the hub refines; the end of a dispatched run is followed from
    \<open>UpdateDispatch\<close> to the row the hub shows.
  \<^item> \<open>ApiTokens\<close>, \<open>TokenLife\<close>, \<open>AuthGate\<close> (\<open>api-token.ts\<close>, \<open>api-token-store.ts\<close>, \<open>publish-tokens.ts\<close>, \<open>routes/api-tokens.ts\<close>,
    \<open>middleware/auth.ts\<close>, \<open>api-key-scope.ts\<close>, \<open>secrets.ts\<close>, the source check of the batch handler): scopes and tokens, the
    table under any sequence of statements, and who opens which gate, the gate of a user's own data included.

  Conventions.  A record stands for an interface or a row, a datatype for a union, \<open>option\<close> for \<open>null\<close> and
  \<open>undefined\<close> where the code tells them apart no further, a sum or an error datatype for a throw.  Names are the code's.
  A JavaScript number is an \<open>int\<close> or a \<open>nat\<close> while it counts or tells time, a rational with infinities and \<open>NaN\<close> where it
  is parsed, a 32-bit word where the code uses bitwise operators.  A text is a \<open>string\<close>, its characters the code units
  below 256, except where surrogates matter (changelog files).  Concurrency is a sequence of steps, one per statement,
  remote call or handler, whichever is atomic on its platform.

  What the lemmas show.  Each component has its preservation lemmas (the table, actor, hub and guard invariants), its
  contract on every branch, and the theorems numbered C1 to C40, which are about its runs: a handler at most once per key, one
  run per lease, every alarm re-armed, no event lost by the stream unless it drops right after
  \<open>ready\<close>, no token accepted after its revocation, every page once.
  A theorem with hypotheses has a witness at a concrete input.

  Bounds and fuel.  Ten steps of an admission always settle it, since it takes at most \<open>MAX_ADMISSION_ATTEMPTS\<close> = 3
  rounds of three statements; twenty-five steps run a request to its end.  The reader of slices has fuel for one slice per
  character and a slice is never empty.  The retry ladder of a source saturates after sixteen failures, as its hours do.  Event
  numbers have 16 digits, so their keys sort below 10^16 events.  Lengths that are folded with bitwise operators
  are below 2^32 and counters below 2^53, where the language is exact.  The alarm of the status hub deletes three keys a row
  and the storage takes 128, hence 42 rows.  D1 binds a hundred values.

  Parameters.  SHA-256, HMAC-SHA256 and AES-GCM, random identifiers and clocks; \<open>JSON.parse\<close>, the URL parser and
  \<open>Date.parse\<close> of texts that are not ISO; the numeric reading SQLite gives to a text; the BPE encoder; DNS answers and the replies to
  \<open>fetch\<close>; the answers of the workflow platform, of key-value reads, flags, secrets and remote calls; the account service's
  verdict on a user key and the verdict on a signed token.  What is assumed of them is a hypothesis where it is used: that decryption
  inverts encryption, that the parser reads back what the serializer wrote.

  Not modelled, and why.  Handlers that only check a request, run a query and render JSON (\<open>apps/api/src/routes\<close>), the web and
  command-line clients but for the stream, the MCP tools and GraphQL decide no state of the program.  The
  adapters, language-model calls, search, media and mail rest on the services they call; only what they write back
  is modelled.  Log lines, telemetry and display texts are left out throughout, as are socket broadcasts beyond the
  stream's own.  The timers of the page, the gates that take a session cookie only and the admin calls of the actor are left to
  the environment.
\<close>

end
